(* ===== verification/Rust_Prelude.thy ===== *)
theory Rust_Prelude
  imports Main "HOL-Library.Word" "HOL-Library.Monad_Syntax"
begin

unbundle bit_operations_syntax

text \<open>
  What the components share: the Rust integer types as words, the operations of the Rust
  standard library that can panic (indexing, slicing), checked and saturating arithmetic,
  little-endian byte encodings, binary search over a sorted table, and the generic list
  lemmas the component proofs use.

  A Rust panic is the value \<open>None\<close> of an \<open>option\<close> result; a \<open>Result\<close> is a sum with the
  error on the left. \<open>usize\<close> values are naturals: every one of them is a length, an index
  or a count of values held in memory.
\<close>

section \<open>Integer types\<close>

type_synonym u8 = "8 word"
type_synonym u32 = "32 word"
type_synonym u64 = "64 word"

text \<open>\<^verbatim>\<open>StrId\<close>: the id of an interned string, shared by the string pool and the graph.\<close>

type_synonym str_id = u32

named_theorems rust_vec \<open>reads and writes of a vector that are in range\<close>
named_theorems rust_arith \<open>checked and saturating arithmetic\<close>

section \<open>Vectors: indexing and slicing panic out of range\<close>

definition vec_get :: "'a list \<Rightarrow> nat \<Rightarrow> 'a option" where
  "vec_get xs i = (if i < length xs then Some (xs ! i) else None)"

definition vec_set :: "'a list \<Rightarrow> nat \<Rightarrow> 'a \<Rightarrow> 'a list option" where
  "vec_set xs i v = (if i < length xs then Some (xs[i := v]) else None)"

definition vec_slice :: "'a list \<Rightarrow> nat \<Rightarrow> nat \<Rightarrow> 'a list option" where
  "vec_slice xs lo hi =
     (if lo \<le> hi \<and> hi \<le> length xs then Some (take (hi - lo) (drop lo xs)) else None)"

lemma vec_get_in [simp, rust_vec]: "i < length xs \<Longrightarrow> vec_get xs i = Some (xs ! i)"
  by (simp add: vec_get_def)

lemma vec_get_out [simp]: "length xs \<le> i \<Longrightarrow> vec_get xs i = None"
  by (simp add: vec_get_def)

lemma vec_set_in [simp, rust_vec]: "i < length xs \<Longrightarrow> vec_set xs i v = Some (xs[i := v])"
  by (simp add: vec_set_def)

lemma vec_slice_in [simp, rust_vec]:
  "lo \<le> hi \<Longrightarrow> hi \<le> length xs \<Longrightarrow> vec_slice xs lo hi = Some (take (hi - lo) (drop lo xs))"
  by (simp add: vec_slice_def)

lemma vec_get_eq_Some: "vec_get xs i = Some v \<longleftrightarrow> i < length xs \<and> xs ! i = v"
  by (simp add: vec_get_def)


section \<open>Loops\<close>

text \<open>
  A \<^verbatim>\<open>for\<close> loop over a list with a body that may panic, and \<^verbatim>\<open>Iterator::any\<close> with such a test
  (which stops at the first hit).
\<close>

fun for_each :: "('a \<Rightarrow> 's \<Rightarrow> 's option) \<Rightarrow> 'a list \<Rightarrow> 's \<Rightarrow> 's option" where
  "for_each body [] s = Some s"
| "for_each body (x # xs) s = do { s' \<leftarrow> body x s; for_each body xs s' }"

fun iter_any :: "('a \<Rightarrow> bool option) \<Rightarrow> 'a list \<Rightarrow> bool option" where
  "iter_any test [] = Some False"
| "iter_any test (x # xs) = do { b \<leftarrow> test x; if b then Some True else iter_any test xs }"

lemma for_each_append: "for_each body (xs @ ys) s = do { s' \<leftarrow> for_each body xs s; for_each body ys s' }"
  by (induction xs arbitrary: s) (simp_all split: bind_splits)

lemma for_each_invariant:
  assumes "\<And>x s. x \<in> set xs \<Longrightarrow> I s \<Longrightarrow> \<exists>s'. body x s = Some s' \<and> I s'" "I s"
  shows "\<exists>s'. for_each body xs s = Some s' \<and> I s'"
  using assms
proof (induction xs arbitrary: s)
  case (Cons x xs)
  then obtain s' where "body x s = Some s'" "I s'" by (meson list.set_intros(1))
  with Cons show ?case by simp
qed simp

lemma iter_any_total:
  assumes "\<And>x. x \<in> set xs \<Longrightarrow> test x = Some (P x)"
  shows "iter_any test xs = Some (\<exists>x \<in> set xs. P x)"
  using assms by (induction xs) auto

text \<open>\<^verbatim>\<open>Iterator::position\<close>.\<close>

definition position :: "('a \<Rightarrow> bool) \<Rightarrow> 'a list \<Rightarrow> nat option" where
  "position P xs = find (\<lambda>i. P (xs ! i)) [0..<length xs]"

lemma position_None: "position P xs = None \<longleftrightarrow> (\<forall>x \<in> set xs. \<not> P x)"
  by (auto simp: position_def find_None_iff in_set_conv_nth) (use nth_mem in blast)

lemma position_Some: "position P xs = Some i \<Longrightarrow> i < length xs \<and> P (xs ! i)"
  by (auto simp: position_def find_Some_iff)

lemma length_filter_less: "length xs < k \<Longrightarrow> length (filter P xs) < k"
  by (rule le_less_trans [OF length_filter_le])

text \<open>\<^verbatim>\<open>sort\<close> followed by \<^verbatim>\<open>dedup\<close>.\<close>

lemma strict_remdups_adj: "sorted (xs :: 'a::linorder list) \<Longrightarrow> sorted_wrt (<) (remdups_adj xs)"
  by (induction xs rule: remdups_adj.induct) (auto simp: less_le)

section \<open>Checked and saturating arithmetic\<close>

definition checked_add :: "'w::len word \<Rightarrow> 'w word \<Rightarrow> 'w word option" where
  "checked_add a b = (if unat a + unat b < 2 ^ LENGTH('w) then Some (a + b) else None)"

definition saturating_add :: "'w::len word \<Rightarrow> 'w word \<Rightarrow> 'w word" where
  "saturating_add a b = (if unat a + unat b < 2 ^ LENGTH('w) then a + b else - 1)"

definition saturating_sub :: "'w::len word \<Rightarrow> 'w word \<Rightarrow> 'w word" where
  "saturating_sub a b = (if b \<le> a then a - b else 0)"

definition saturating_mul :: "'w::len word \<Rightarrow> 'w word \<Rightarrow> 'w word" where
  "saturating_mul a b = (if unat a * unat b < 2 ^ LENGTH('w) then a * b else - 1)"

text \<open>\<^verbatim>\<open>u32::try_from(n)\<close> and \<^verbatim>\<open>u32::try_from(n).unwrap_or(u32::MAX)\<close> on a \<^verbatim>\<open>usize\<close>.\<close>

definition try_u32 :: "nat \<Rightarrow> u32 option" where
  "try_u32 n = (if n < 2 ^ 32 then Some (of_nat n) else None)"

definition u32_or_max :: "nat \<Rightarrow> u32" where
  "u32_or_max n = (case try_u32 n of Some w \<Rightarrow> w | None \<Rightarrow> - 1)"

lemma unat_minus_one: "unat (- 1 :: 'w::len word) = 2 ^ LENGTH('w) - 1"
  by (simp add: unsigned_minus_1_eq_mask mask_eq_exp_minus_1)

lemma checked_add_Some [rust_arith]:
  "checked_add (a :: 'w::len word) b = Some c \<longleftrightarrow> unat a + unat b < 2 ^ LENGTH('w) \<and> c = a + b"
  by (auto simp: checked_add_def)

lemma checked_add_unat: "checked_add a b = Some c \<Longrightarrow> unat c = unat a + unat b"
  by (auto simp: checked_add_def unat_word_ariths split: if_splits)

lemma unat_saturating_add [rust_arith]:
  "unat (saturating_add (a :: 'w::len word) b) = min (unat a + unat b) (2 ^ LENGTH('w) - 1)"
  by (auto simp: saturating_add_def unat_word_ariths unat_minus_one min_def)

text \<open>An equation for evaluation that does not compute the power.\<close>

lemma saturating_add_code [code]:
  "saturating_add (a :: 'w::len word) b = (if b \<le> - 1 - a then a + b else - 1)"
proof -
  have "unat (- 1 - a) = 2 ^ LENGTH('w) - 1 - unat a" by (simp add: unat_sub unat_minus_one)
  moreover have "unat a < 2 ^ LENGTH('w)" by (rule unsigned_less)
  ultimately have "b \<le> - 1 - a \<longleftrightarrow> unat a + unat b < 2 ^ LENGTH('w)" unfolding word_le_nat_alt by linarith
  then show ?thesis by (simp add: saturating_add_def)
qed

lemma unat_saturating_mul [rust_arith]:
  "unat (saturating_mul (a :: 'w::len word) b) = min (unat a * unat b) (2 ^ LENGTH('w) - 1)"
  by (simp add: saturating_mul_def unat_word_ariths unat_minus_one min_def)
    (use le_imp_less_Suc [of "unat a * unat b" "2 ^ LENGTH('w) - 1"] in auto)

lemma unat_saturating_sub [rust_arith]: "unat (saturating_sub a b) = unat a - unat b"
  by (auto simp: saturating_sub_def unat_sub word_le_nat_alt)

lemma u32_or_max_small: "n < 2 ^ 32 \<Longrightarrow> u32_or_max n = of_nat n"
  by (simp add: u32_or_max_def try_u32_def)

lemma unat_of_nat_u32 [rust_arith]: "n < 2 ^ 32 \<Longrightarrow> unat (of_nat n :: u32) = n"
  by (simp add: unsigned_of_nat take_bit_nat_eq_self)

lemma unat_of_nat_u64 [rust_arith]: "n < 2 ^ 64 \<Longrightarrow> unat (of_nat n :: u64) = n"
  by (simp add: unsigned_of_nat take_bit_nat_eq_self)

section \<open>Binary search\<close>

text \<open>
  \<^verbatim>\<open>slice::binary_search\<close>: \<open>Inr\<close> is \<^verbatim>\<open>Ok\<close> with an index that holds the key, \<open>Inl\<close> is \<^verbatim>\<open>Err\<close> with
  the insertion point. The half-open window \<open>lo..<hi\<close> shrinks at every probe.
\<close>

function bsearch :: "'a::linorder list \<Rightarrow> 'a \<Rightarrow> nat \<Rightarrow> nat \<Rightarrow> nat + nat" where
  "bsearch xs k lo hi =
     (if lo < hi then
        (let mid = lo + (hi - lo) div 2 in
         if xs ! mid = k then Inr mid
         else if xs ! mid < k then bsearch xs k (mid + 1) hi
         else bsearch xs k lo mid)
      else Inl lo)"
  by pat_completeness auto
termination
  by (relation "measure (\<lambda>(xs, k, lo, hi). hi - lo)") auto

declare bsearch.simps [simp del]

definition binary_search :: "'a::linorder list \<Rightarrow> 'a \<Rightarrow> nat + nat" where
  "binary_search xs k = bsearch xs k 0 (length xs)"

lemma bsearch_spec:
  assumes "sorted_wrt (<) xs" "lo \<le> hi" "hi \<le> length xs"
    and "\<forall>i < lo. xs ! i < k" "\<forall>i. hi \<le> i \<and> i < length xs \<longrightarrow> k < xs ! i"
  shows "case bsearch xs k lo hi of
      Inr i \<Rightarrow> i < length xs \<and> xs ! i = k
    | Inl i \<Rightarrow> i \<le> length xs \<and> (\<forall>j < i. xs ! j < k) \<and> (\<forall>j. i \<le> j \<and> j < length xs \<longrightarrow> k < xs ! j)"
  using assms
proof (induction xs k lo hi rule: bsearch.induct)
  case (1 xs k lo hi)
  define mid where "mid = lo + (hi - lo) div 2"
  have mono: "xs ! i < xs ! j" if "i < j" "j < length xs" for i j
    using that 1(3) by (simp add: sorted_wrt_nth_less)
  consider "\<not> lo < hi" | "lo < hi" "xs ! mid = k" | "lo < hi" "xs ! mid < k" | "lo < hi" "k < xs ! mid"
    by fastforce
  then show ?case
  proof cases
    case 1
    then have "bsearch xs k lo hi = Inl lo" by (simp add: bsearch.simps [of xs k lo hi])
    with 1 "1.prems" show ?thesis by auto
  next
    case 2
    with "1.prems" show ?thesis by (auto simp: bsearch.simps [of xs k lo hi] mid_def Let_def)
  next
    case 3
    then have m: "mid < hi" "mid < length xs" using "1.prems"(3) by (auto simp: mid_def)
    have "\<forall>i < mid + 1. xs ! i < k"
      using 3(2) m mono by (metis less_Suc_eq Suc_eq_plus1 order.strict_trans)
    with 3 m "1.IH"(1) [OF 3(1) mid_def] "1.prems" show ?thesis
      by (simp add: bsearch.simps [of xs k lo hi] flip: mid_def)
  next
    case 4
    then have m: "mid < hi" "lo \<le> mid" "mid < length xs" using "1.prems"(3) by (auto simp: mid_def)
    have "\<forall>i. mid \<le> i \<and> i < length xs \<longrightarrow> k < xs ! i"
      using 4(2) mono by (metis le_neq_implies_less order.strict_trans)
    moreover from 4(2) have "xs ! mid \<noteq> k" "\<not> xs ! mid < k" by auto
    ultimately show ?thesis using 4 m "1.IH"(2) [OF 4(1) mid_def] "1.prems"
      by (simp add: bsearch.simps [of xs k lo hi] flip: mid_def)
  qed
qed

lemma binary_search_spec:
  assumes "sorted_wrt (<) xs"
  shows "case binary_search xs k of
      Inr i \<Rightarrow> i < length xs \<and> xs ! i = k
    | Inl i \<Rightarrow> i \<le> length xs \<and> (\<forall>j < i. xs ! j < k) \<and> (\<forall>j. i \<le> j \<and> j < length xs \<longrightarrow> k < xs ! j)"
  unfolding binary_search_def by (rule bsearch_spec) (use assms in auto)

text \<open>\<^verbatim>\<open>slice::partition_point\<close>: a binary search for the first element where the test fails.\<close>

function partition_search :: "('a \<Rightarrow> bool) \<Rightarrow> 'a list \<Rightarrow> nat \<Rightarrow> nat \<Rightarrow> nat" where
  "partition_search P xs lo hi =
     (if lo < hi then
        (let mid = lo + (hi - lo) div 2 in
         if P (xs ! mid) then partition_search P xs (mid + 1) hi else partition_search P xs lo mid)
      else lo)"
  by pat_completeness auto
termination
  by (relation "measure (\<lambda>(P, xs, lo, hi). hi - lo)") auto

declare partition_search.simps [simp del]

definition partition_point :: "('a \<Rightarrow> bool) \<Rightarrow> 'a list \<Rightarrow> nat" where
  "partition_point P xs = partition_search P xs 0 (length xs)"

lemma partition_search_spec:
  assumes "lo \<le> hi" "hi \<le> length xs" "\<forall>i < lo. P (xs ! i)" "\<forall>i. hi \<le> i \<and> i < length xs \<longrightarrow> \<not> P (xs ! i)"
    and "\<forall>i j. i \<le> j \<and> j < length xs \<and> P (xs ! j) \<longrightarrow> P (xs ! i)"
  shows "partition_search P xs lo hi \<le> length xs
    \<and> (\<forall>i < partition_search P xs lo hi. P (xs ! i))
    \<and> (\<forall>i. partition_search P xs lo hi \<le> i \<and> i < length xs \<longrightarrow> \<not> P (xs ! i))"
  using assms
proof (induction P xs lo hi rule: partition_search.induct)
  case (1 P xs lo hi)
  define mid where "mid = lo + (hi - lo) div 2"
  consider "\<not> lo < hi" | "lo < hi" "P (xs ! mid)" | "lo < hi" "\<not> P (xs ! mid)" by blast
  then show ?case
  proof cases
    case 1
    then have "partition_search P xs lo hi = lo" by (simp add: partition_search.simps [of P xs lo hi])
    with 1 "1.prems" show ?thesis by auto
  next
    case 2
    then have m: "mid < hi" "mid < length xs" using "1.prems"(2) by (auto simp: mid_def)
    then have lo: "\<forall>i < mid + 1. P (xs ! i)"
      using 2(2) "1.prems"(5) by (metis less_Suc_eq_le Suc_eq_plus1)
    have eq: "partition_search P xs lo hi = partition_search P xs (mid + 1) hi"
      using 2 by (simp add: partition_search.simps [of P xs lo hi] Let_def flip: mid_def)
    from m have "mid + 1 \<le> hi" by simp
    from "1.IH"(1) [OF 2(1) mid_def 2(2) this "1.prems"(2) lo "1.prems"(4,5)]
    show ?thesis unfolding eq .
  next
    case 3
    then have m: "mid < hi" "lo \<le> mid" "mid < length xs" using "1.prems"(2) by (auto simp: mid_def)
    have hi: "\<forall>i. mid \<le> i \<and> i < length xs \<longrightarrow> \<not> P (xs ! i)" using 3(2) "1.prems"(5) by blast
    have eq: "partition_search P xs lo hi = partition_search P xs lo mid"
      using 3 by (simp add: partition_search.simps [of P xs lo hi] Let_def flip: mid_def)
    from "1.IH"(2) [OF 3(1) mid_def 3(2) m(2) less_imp_le [OF m(3)] "1.prems"(3) hi "1.prems"(5)]
    show ?thesis unfolding eq .
  qed
qed

lemma partition_point_sorted:
  fixes key :: "'a \<Rightarrow> 'k::linorder" and k :: 'k
  assumes "sorted_wrt (\<lambda>a b. key a \<le> key b) xs"
  defines "p \<equiv> partition_point (\<lambda>x. key x < k) xs"
  shows "p \<le> length xs" "\<And>i. i < p \<Longrightarrow> key (xs ! i) < k"
    "\<And>i. p \<le> i \<Longrightarrow> i < length xs \<Longrightarrow> k \<le> key (xs ! i)"
proof -
  have le: "key (xs ! i) \<le> key (xs ! j)" if "i \<le> j" "j < length xs" for i j
    using that assms(1) by (cases "i = j") (auto simp: sorted_wrt_iff_nth_less)
  have "\<forall>i j. i \<le> j \<and> j < length xs \<and> key (xs ! j) < k \<longrightarrow> key (xs ! i) < k"
    by (intro allI impI, elim conjE) (rule le_less_trans [OF le])
  then have "p \<le> length xs \<and> (\<forall>i < p. key (xs ! i) < k)
      \<and> (\<forall>i. p \<le> i \<and> i < length xs \<longrightarrow> \<not> key (xs ! i) < k)"
    unfolding p_def partition_point_def by (intro partition_search_spec) auto
  then show "p \<le> length xs" "\<And>i. i < p \<Longrightarrow> key (xs ! i) < k"
    "\<And>i. p \<le> i \<Longrightarrow> i < length xs \<Longrightarrow> k \<le> key (xs ! i)" by (auto simp: not_less)
qed

end
