(* ===== verification/Interfaces.thy ===== *)
theory Interfaces
  imports Rust_Prelude
begin

text \<open>
  The contracts between the graph components, as locales.

  \<^item> \<open>node_set\<close>: what a visited set promises (membership test, insertion, removal).
  \<^item> \<open>adjacency\<close>: what a validated adjacency promises (a lookup returns and stays in range).
  \<^item> \<open>closure_kernel\<close>: the worklist algorithm over an adjacency. The four closure routines of
    \<^verbatim>\<open>crates/idg/src/query.rs\<close> are separate loops in the source; each is an instance, so the fixed-point
    argument and the termination argument are made once.

  The provider theories interpret them on the model's definitions.
\<close>

type_synonym node_index = u32

section \<open>Visited sets\<close>

locale node_set =
  fixes zeros :: "nat \<Rightarrow> 's"
    and contains :: "'s \<Rightarrow> node_index \<Rightarrow> bool option"
    and set_bit :: "'s \<Rightarrow> node_index \<Rightarrow> 's option"
    and clear :: "'s \<Rightarrow> node_index \<Rightarrow> 's option"
    and alpha :: "'s \<Rightarrow> nat set"
    and inv :: "nat \<Rightarrow> 's \<Rightarrow> bool"
  assumes zeros_inv: "inv n (zeros n)"
    and zeros_alpha: "alpha (zeros n) = {}"
    and alpha_bound: "inv n s \<Longrightarrow> alpha s \<subseteq> {..<n}"
    and contains_alpha: "inv n s \<Longrightarrow> contains s v = Some (unat v \<in> alpha s)"
    and set_alpha: "inv n s \<Longrightarrow> unat v < n \<Longrightarrow>
      \<exists>s'. set_bit s v = Some s' \<and> inv n s' \<and> alpha s' = insert (unat v) (alpha s)"
    and clear_alpha: "inv n s \<Longrightarrow>
      \<exists>s'. clear s v = Some s' \<and> inv n s' \<and> alpha s' = alpha s - {unat v}"
begin

text \<open>Marking then unmarking a fresh node restores the set.\<close>

lemma set_clear:
  assumes "inv n s" "unat v < n" "unat v \<notin> alpha s"
  shows "\<exists>s'. do { t \<leftarrow> set_bit s v; clear t v } = Some s' \<and> inv n s' \<and> alpha s' = alpha s"
proof -
  obtain t where t: "set_bit s v = Some t" "inv n t" "alpha t = insert (unat v) (alpha s)"
    using set_alpha [OF assms(1,2)] by blast
  obtain u where "clear t v = Some u" "inv n u" "alpha u = alpha t - {unat v}"
    using clear_alpha [OF t(2)] by blast
  with t assms(3) show ?thesis by auto
qed

end

section \<open>Adjacency\<close>

definition adj_rel :: "(node_index \<Rightarrow> node_index list option) \<Rightarrow> (nat \<times> nat) set" where
  "adj_rel nbrs = {(unat u, unat t) | u t. \<exists>ts. nbrs u = Some ts \<and> t \<in> set ts}"

lemma adj_rel_image: "nbrs u = Some ts \<Longrightarrow> adj_rel nbrs `` {unat u} = unat ` set ts"
  by (auto simp: adj_rel_def word_unat_eq_iff [symmetric])

lemma rtrancl_image_step: "Y \<subseteq> R\<^sup>* `` X' \<Longrightarrow> X' \<subseteq> R\<^sup>* `` X \<Longrightarrow> Y \<subseteq> R\<^sup>* `` X"
  by (blast intro: rtrancl_trans)

locale adjacency =
  fixes valid :: "'g \<Rightarrow> nat \<Rightarrow> bool"
    and nbrs :: "'g \<Rightarrow> node_index \<Rightarrow> node_index list option"
  assumes nbrs_total: "valid g n \<Longrightarrow> \<exists>ts. nbrs g v = Some ts \<and> (\<forall>t \<in> set ts. unat t < n)"
begin

lemma rel_bound:
  assumes "valid g n" "(a, b) \<in> adj_rel (nbrs g)"
  shows "b < n"
proof -
  obtain u t ts where "b = unat t" "nbrs g u = Some ts" "t \<in> set ts"
    using assms(2) by (auto simp: adj_rel_def)
  with nbrs_total [OF assms(1), of u] show ?thesis by auto
qed

lemma rtrancl_bound: "valid g n \<Longrightarrow> (a, b) \<in> (adj_rel (nbrs g))\<^sup>* \<Longrightarrow> a < n \<Longrightarrow> b < n"
  by (erule rtrancl.cases) (auto dest: rel_bound)

end

section \<open>The worklist kernel\<close>

locale closure_kernel = adjacency valid nbrs
  for valid :: "'g \<Rightarrow> nat \<Rightarrow> bool" and nbrs :: "'g \<Rightarrow> node_index \<Rightarrow> node_index list option" +
  fixes start :: "nat \<Rightarrow> 's"
    and ok :: "nat \<Rightarrow> 's \<Rightarrow> bool"
    and rd :: "'s \<Rightarrow> nat set"
    and admitted :: "'a \<Rightarrow> nat set"
    and wf :: "'a \<Rightarrow> bool"
    and visit :: "'a \<Rightarrow> node_index \<Rightarrow> 's \<times> node_index list \<Rightarrow> ('s \<times> node_index list) option"
    and seed :: "'a \<Rightarrow> nat \<Rightarrow> node_index \<Rightarrow> 's \<times> node_index list \<Rightarrow> ('s \<times> node_index list) option"
    and loop :: "'g \<Rightarrow> 'a \<Rightarrow> 's \<Rightarrow> node_index list \<Rightarrow> 's option"
  assumes start: "ok n (start n)" "rd (start n) = {}"
    and ok_bound: "ok n s \<Longrightarrow> rd s \<subseteq> {..<n}"
    and visit_new: "wf a \<Longrightarrow> ok n s \<Longrightarrow> unat t < n \<Longrightarrow> unat t \<in> admitted a \<Longrightarrow> unat t \<notin> rd s \<Longrightarrow>
      \<exists>s'. visit a t (s, p) = Some (s', t # p) \<and> ok n s' \<and> rd s' = insert (unat t) (rd s)"
    and visit_skip: "wf a \<Longrightarrow> ok n s \<Longrightarrow> unat t \<notin> admitted a \<or> unat t \<in> rd s \<Longrightarrow>
      visit a t (s, p) = Some (s, p)"
    and seed_visit: "seed a n t st = (if unat t < n then visit a t st else Some st)"
    and loop_Nil: "loop g a s [] = Some s"
    and loop_Cons: "loop g a s (v # p) = do {
      ts \<leftarrow> nbrs g v;
      (s', p') \<leftarrow> for_each (visit a) ts (s, p);
      loop g a s' p' }"
begin

lemma visit_all:
  assumes "wf a" "ok n s" "\<forall>t \<in> set ts. unat t < n"
  shows "\<exists>s' p'. for_each (visit a) ts (s, p) = Some (s', p') \<and> ok n s'
    \<and> rd s' = rd s \<union> (unat ` set ts \<inter> admitted a)
    \<and> unat ` set p' = unat ` set p \<union> (rd s' - rd s)
    \<and> length p' + card (rd s) = length p + card (rd s')"
  using assms(2,3)
proof (induction ts arbitrary: s p)
  case (Cons t ts)
  show ?case
  proof (cases "unat t \<in> admitted a \<and> unat t \<notin> rd s")
    case True
    then obtain s1 where s1: "visit a t (s, p) = Some (s1, t # p)" "ok n s1"
        "rd s1 = insert (unat t) (rd s)"
      using visit_new [OF assms(1) Cons.prems(1), of t p] Cons.prems(2) by auto
    have fin: "finite (rd s)"
      using ok_bound [OF Cons.prems(1)] finite_subset by blast
    from Cons.IH [OF s1(2), of "t # p"] Cons.prems(2) obtain s' p' where
      "for_each (visit a) ts (s1, t # p) = Some (s', p')" "ok n s'"
      "rd s' = rd s1 \<union> (unat ` set ts \<inter> admitted a)"
      "unat ` set p' = unat ` set (t # p) \<union> (rd s' - rd s1)"
      "length p' + card (rd s1) = length (t # p) + card (rd s')" by auto
    with s1 True fin show ?thesis by auto
  next
    case False
    then have "visit a t (s, p) = Some (s, p)" using visit_skip [OF assms(1) Cons.prems(1)] by auto
    moreover have "rd s \<union> (unat ` set (t # ts) \<inter> admitted a) = rd s \<union> (unat ` set ts \<inter> admitted a)"
      using False by auto
    ultimately show ?thesis using Cons.IH [OF Cons.prems(1), of p] Cons.prems(2) by simp
  qed
qed auto

definition closed_from :: "'g \<Rightarrow> 'a \<Rightarrow> nat set \<Rightarrow> nat set \<Rightarrow> bool" where
  "closed_from g a X Y \<longleftrightarrow> adj_rel (nbrs g) `` X \<inter> admitted a \<subseteq> Y"

lemma closed_from_insert:
  assumes "closed_from g a X Y" "X' \<subseteq> insert v X" "adj_rel (nbrs g) `` {v} \<inter> admitted a \<subseteq> Y'" "Y \<subseteq> Y'"
  shows "closed_from g a X' Y'"
proof -
  have "adj_rel (nbrs g) `` X' \<subseteq> adj_rel (nbrs g) `` {v} \<union> adj_rel (nbrs g) `` X"
    using assms(2) by auto
  with assms(1,3,4) show ?thesis unfolding closed_from_def by blast
qed

lemma loop_closure:
  assumes "valid g n" "wf a" "ok n s" "unat ` set p \<subseteq> rd s"
    "closed_from g a (rd s - unat ` set p) (rd s)"
  shows "\<exists>s'. loop g a s p = Some s' \<and> ok n s' \<and> rd s \<subseteq> rd s' \<and> closed_from g a (rd s') (rd s')
    \<and> rd s' \<subseteq> (adj_rel (nbrs g) \<inter> UNIV \<times> admitted a)\<^sup>* `` rd s"
  using assms(3-)
proof (induction "2 * (n - card (rd s)) + length p" arbitrary: s p rule: less_induct)
  case less
  show ?case
  proof (cases p)
    case Nil
    with less.prems show ?thesis by (auto simp: loop_Nil)
  next
    case (Cons v q)
    obtain ts where ts: "nbrs g v = Some ts" "\<forall>t \<in> set ts. unat t < n"
      using nbrs_total [OF assms(1)] by blast
    obtain s1 p1 where s1: "for_each (visit a) ts (s, q) = Some (s1, p1)" "ok n s1"
        "rd s1 = rd s \<union> (unat ` set ts \<inter> admitted a)"
        "unat ` set p1 = unat ` set q \<union> (rd s1 - rd s)"
        "length p1 + card (rd s) = length q + card (rd s1)"
      using visit_all [OF assms(2) less.prems(1) ts(2)] by blast
    have card: "card (rd s) \<le> card (rd s1)" "card (rd s1) \<le> n"
      using s1(3) card_mono [of "{..<n}" "rd s1"] ok_bound [OF s1(2)] card_mono [of "rd s1" "rd s"]
        finite_subset [OF ok_bound [OF s1(2)]] by auto
    have img: "adj_rel (nbrs g) `` {unat v} = unat ` set ts" by (rule adj_rel_image) (rule ts(1))
    have v: "unat v \<in> rd s" using less.prems(2) Cons by simp
    have "\<exists>s'. loop g a s1 p1 = Some s' \<and> ok n s' \<and> rd s1 \<subseteq> rd s' \<and> closed_from g a (rd s') (rd s')
        \<and> rd s' \<subseteq> (adj_rel (nbrs g) \<inter> UNIV \<times> admitted a)\<^sup>* `` rd s1"
    proof (rule less.hyps)
      show "2 * (n - card (rd s1)) + length p1 < 2 * (n - card (rd s)) + length p"
        using s1(5) card Cons by simp
      show "unat ` set p1 \<subseteq> rd s1" using s1(3,4) less.prems(2) Cons by auto
      have "rd s1 - unat ` set p1 \<subseteq> insert (unat v) (rd s - unat ` set p)"
        using s1(3,4) Cons by auto
      with less.prems(3) show "closed_from g a (rd s1 - unat ` set p1) (rd s1)"
        by (rule closed_from_insert) (use img s1(3) in auto)
    qed (use s1 in auto)
    then obtain s' where s': "loop g a s1 p1 = Some s'" "ok n s'" "rd s1 \<subseteq> rd s'"
      "closed_from g a (rd s') (rd s')"
      "rd s' \<subseteq> (adj_rel (nbrs g) \<inter> UNIV \<times> admitted a)\<^sup>* `` rd s1" by blast
    have "rd s1 \<subseteq> (adj_rel (nbrs g) \<inter> UNIV \<times> admitted a)\<^sup>* `` rd s"
      unfolding s1(3) using v img by (auto intro!: r_into_rtrancl)
    with s'(5) have "rd s' \<subseteq> (adj_rel (nbrs g) \<inter> UNIV \<times> admitted a)\<^sup>* `` rd s"
      by (rule rtrancl_image_step)
    with s' s1 Cons ts show ?thesis by (auto simp: loop_Cons)
  qed
qed

lemma seeds_all:
  assumes "wf a" "ok n s" "unat ` set p = rd s"
  shows "\<exists>s' p'. for_each (seed a n) seeds (s, p) = Some (s', p') \<and> ok n s'
    \<and> rd s' = rd s \<union> (unat ` set seeds \<inter> {..<n} \<inter> admitted a) \<and> unat ` set p' = rd s'"
  using assms(2,3)
proof (induction seeds arbitrary: s p)
  case (Cons t seeds)
  show ?case
  proof (cases "unat t < n \<and> unat t \<in> admitted a \<and> unat t \<notin> rd s")
    case True
    then obtain s1 where s1: "seed a n t (s, p) = Some (s1, t # p)" "ok n s1"
        "rd s1 = insert (unat t) (rd s)"
      using visit_new [OF assms(1) Cons.prems(1), of t p] by (auto simp: seed_visit)
    with Cons.IH [OF s1(2), of "t # p"] Cons.prems True show ?thesis by auto
  next
    case False
    then have "seed a n t (s, p) = Some (s, p)"
      using visit_skip [OF assms(1) Cons.prems(1)] by (auto simp: seed_visit)
    with Cons.IH [OF Cons.prems] False show ?thesis by auto
  qed
qed auto

text \<open>The kernel returns, and what it returns is exactly the reachable set.\<close>

lemma closure_correct:
  assumes "valid g n" "wf a"
  shows "\<exists>s p s'. for_each (seed a n) seeds (start n, []) = Some (s, p) \<and> loop g a s p = Some s'
    \<and> ok n s' \<and> rd s' = (adj_rel (nbrs g) \<inter> UNIV \<times> admitted a)\<^sup>* ``
      (unat ` set seeds \<inter> {..<n} \<inter> admitted a)"
proof -
  let ?R = "adj_rel (nbrs g) \<inter> UNIV \<times> admitted a"
  obtain s p where sp: "for_each (seed a n) seeds (start n, []) = Some (s, p)" "ok n s"
      "rd s = unat ` set seeds \<inter> {..<n} \<inter> admitted a" "unat ` set p = rd s"
    using seeds_all [OF assms(2) start(1), of "[]" n seeds] by (auto simp: start(2))
  obtain s' where s': "loop g a s p = Some s'" "ok n s'" "rd s \<subseteq> rd s'"
      "closed_from g a (rd s') (rd s')" "rd s' \<subseteq> ?R\<^sup>* `` rd s"
    using loop_closure [OF assms sp(2), of p] sp(4) by (auto simp: closed_from_def)
  have "y \<in> rd s'" if "(x, y) \<in> ?R\<^sup>*" "x \<in> rd s" for x y
    using that by (induction rule: rtrancl_induct) (use s'(3,4) in \<open>auto simp: closed_from_def\<close>)
  with s'(5) have "rd s' = ?R\<^sup>* `` rd s" by blast
  with sp s' show ?thesis by auto
qed

end

end
