(* ===== verification/Node_Bitset.thy ===== *)
theory Node_Bitset
  imports Rust_Prelude Interfaces
begin

unbundle bit_operations_syntax

text \<open>
  The bit set over node ids of \<^verbatim>\<open>crates/idg/src/bitset.rs\<close>: words of 64 bits and a logical
  length, the operations on them, and the ascending iterator. A panic (an index out of range,
  a failed \<^verbatim>\<open>assert_eq!\<close> on the lengths) is \<open>None\<close>.

  The abstraction \<open>nbs_alpha\<close> is the set of the positions whose bit is set; the invariant
  \<open>nbs_wf\<close> says that the word vector has the length the logical length asks for and that no bit
  beyond it is set. Every operation is shown to keep the invariant and to implement the set
  operation it is named after; the iterator is shown to list the set in ascending order.
\<close>

section \<open>The data\<close>

type_synonym node_id = u32

record node_bit_set =
  nbs_bits :: "u64 list"
  nbs_len :: nat

record node_bit_set_iter =
  it_bits :: "u64 list"
  it_word_idx :: nat
  it_cur_word :: u64
  it_len :: nat

section \<open>The operations\<close>

definition nbs_zeros :: "nat \<Rightarrow> node_bit_set" where
  "nbs_zeros n = \<lparr>nbs_bits = replicate ((n + 63) div 64) 0, nbs_len = n\<rparr>"

definition nbs_is_empty :: "node_bit_set \<Rightarrow> bool" where
  "nbs_is_empty s \<longleftrightarrow> nbs_len s = 0"

definition nbs_insert :: "node_bit_set \<Rightarrow> node_id \<Rightarrow> (bool \<times> node_bit_set) option" where
  "nbs_insert s node =
     (let i = unat node in
      if nbs_len s \<le> i then Some (False, s)
      else do {
        let mask = push_bit (i AND 63) (1 :: u64);
        word \<leftarrow> vec_get (nbs_bits s) (drop_bit 6 i);
        let changed = (word AND mask = 0);
        bits \<leftarrow> vec_set (nbs_bits s) (drop_bit 6 i) (word OR mask);
        Some (changed, s\<lparr>nbs_bits := bits\<rparr>)
      })"

definition nbs_set :: "node_bit_set \<Rightarrow> node_id \<Rightarrow> node_bit_set option" where
  "nbs_set s node = do { (changed, s') \<leftarrow> nbs_insert s node; Some s' }"

fun nbs_set_all :: "node_bit_set \<Rightarrow> node_id list \<Rightarrow> node_bit_set option" where
  "nbs_set_all s [] = Some s"
| "nbs_set_all s (n # ns) = do { s' \<leftarrow> nbs_set s n; nbs_set_all s' ns }"

definition nbs_from_seed :: "nat \<Rightarrow> node_id list \<Rightarrow> node_bit_set option" where
  "nbs_from_seed n seed = nbs_set_all (nbs_zeros n) seed"

definition nbs_clear :: "node_bit_set \<Rightarrow> node_id \<Rightarrow> node_bit_set option" where
  "nbs_clear s node =
     (let i = unat node in
      if nbs_len s \<le> i then Some s
      else do {
        word \<leftarrow> vec_get (nbs_bits s) (drop_bit 6 i);
        bits \<leftarrow> vec_set (nbs_bits s) (drop_bit 6 i) (word AND NOT (push_bit (i AND 63) 1));
        Some (s\<lparr>nbs_bits := bits\<rparr>)
      })"

definition nbs_contains :: "node_bit_set \<Rightarrow> node_id \<Rightarrow> bool option" where
  "nbs_contains s node =
     (let i = unat node in
      if nbs_len s \<le> i then Some False
      else do {
        word \<leftarrow> vec_get (nbs_bits s) (drop_bit 6 i);
        Some (word AND push_bit (i AND 63) 1 \<noteq> 0)
      })"

text \<open>An in-place loop over \<^verbatim>\<open>iter_mut().zip(iter())\<close>: words past the shorter vector keep.\<close>

definition zip_update :: "('a \<Rightarrow> 'b \<Rightarrow> 'a) \<Rightarrow> 'a list \<Rightarrow> 'b list \<Rightarrow> 'a list" where
  "zip_update f xs ys = map2 f xs ys @ drop (length ys) xs"

definition nbs_union_inplace :: "node_bit_set \<Rightarrow> node_bit_set \<Rightarrow> node_bit_set option" where
  "nbs_union_inplace s t =
     (if nbs_len s \<noteq> nbs_len t then None
      else Some (s\<lparr>nbs_bits := zip_update (\<lambda>a b. a OR b) (nbs_bits s) (nbs_bits t)\<rparr>))"

definition nbs_intersect_inplace :: "node_bit_set \<Rightarrow> node_bit_set \<Rightarrow> node_bit_set option" where
  "nbs_intersect_inplace s t =
     (if nbs_len s \<noteq> nbs_len t then None
      else Some (s\<lparr>nbs_bits := zip_update (\<lambda>a b. a AND b) (nbs_bits s) (nbs_bits t)\<rparr>))"

definition nbs_intersect :: "node_bit_set \<Rightarrow> node_bit_set \<Rightarrow> node_bit_set option" where
  "nbs_intersect s t =
     (if nbs_len s \<noteq> nbs_len t then None
      else Some \<lparr>nbs_bits = map2 (\<lambda>a b. a AND b) (nbs_bits s) (nbs_bits t), nbs_len = nbs_len s\<rparr>)"

definition nbs_difference_inplace :: "node_bit_set \<Rightarrow> node_bit_set \<Rightarrow> node_bit_set option" where
  "nbs_difference_inplace s t =
     (if nbs_len s \<noteq> nbs_len t then None
      else Some (s\<lparr>nbs_bits := zip_update (\<lambda>a b. a AND NOT b) (nbs_bits s) (nbs_bits t)\<rparr>))"

definition nbs_difference :: "node_bit_set \<Rightarrow> node_bit_set \<Rightarrow> node_bit_set option" where
  "nbs_difference s t =
     (if nbs_len s \<noteq> nbs_len t then None
      else Some \<lparr>nbs_bits = map2 (\<lambda>a b. a AND NOT b) (nbs_bits s) (nbs_bits t),
                 nbs_len = nbs_len s\<rparr>)"

definition count_ones :: "u64 \<Rightarrow> nat" where
  "count_ones w = length (filter (bit w) [0..<64])"

definition trailing_zeros :: "u64 \<Rightarrow> nat" where
  "trailing_zeros w = length (takeWhile (\<lambda>n. \<not> bit w n) [0..<64])"

definition nbs_popcount :: "node_bit_set \<Rightarrow> nat" where
  "nbs_popcount s = sum_list (map count_ones (nbs_bits s))"

definition nbs_is_zero :: "node_bit_set \<Rightarrow> bool" where
  "nbs_is_zero s \<longleftrightarrow> list_all (\<lambda>w. w = 0) (nbs_bits s)"

definition nbs_default :: node_bit_set where
  "nbs_default = nbs_zeros 0"

definition nbs_iter :: "node_bit_set \<Rightarrow> node_bit_set_iter" where
  "nbs_iter s =
     \<lparr>it_bits = nbs_bits s, it_word_idx = 0,
      it_cur_word = (case nbs_bits s of [] \<Rightarrow> 0 | w # _ \<Rightarrow> w), it_len = nbs_len s\<rparr>"

function nbs_next :: "node_bit_set_iter \<Rightarrow> node_id option \<times> node_bit_set_iter" where
  "nbs_next it =
     (if it_cur_word it \<noteq> 0 then
        (let nid = it_word_idx it * 64 + trailing_zeros (it_cur_word it) in
         if it_len it \<le> nid then (None, it)
         else (Some (of_nat nid),
               it\<lparr>it_cur_word := it_cur_word it AND (it_cur_word it - 1)\<rparr>))
      else if length (it_bits it) \<le> it_word_idx it + 1 then
        (None, it\<lparr>it_word_idx := it_word_idx it + 1\<rparr>)
      else nbs_next (it\<lparr>it_word_idx := it_word_idx it + 1,
                        it_cur_word := it_bits it ! (it_word_idx it + 1)\<rparr>))"
  by pat_completeness auto
termination
  by (relation "measure (\<lambda>it. length (it_bits it) - it_word_idx it)") auto

declare nbs_next.simps [simp del]

text \<open>What a \<^verbatim>\<open>for\<close> loop over the iterator sees: the ids \<open>next\<close> returns until it is exhausted.\<close>

partial_function (option) nbs_drain :: "node_bit_set_iter \<Rightarrow> node_id list option" where
  "nbs_drain it =
     (case nbs_next it of
        (None, _) \<Rightarrow> Some []
      | (Some n, it') \<Rightarrow> do { ns \<leftarrow> nbs_drain it'; Some (n # ns) })"

definition nbs_elems :: "node_bit_set \<Rightarrow> node_id list option" where
  "nbs_elems s = nbs_drain (nbs_iter s)"

section \<open>Abstraction and invariant\<close>

definition nbs_bit :: "u64 list \<Rightarrow> nat \<Rightarrow> bool" where
  "nbs_bit ws i \<longleftrightarrow> i div 64 < length ws \<and> bit (ws ! (i div 64)) (i mod 64)"

definition nbs_alpha :: "node_bit_set \<Rightarrow> nat set" where
  "nbs_alpha s = {i. nbs_bit (nbs_bits s) i}"

definition nbs_wf :: "node_bit_set \<Rightarrow> bool" where
  "nbs_wf s \<longleftrightarrow> length (nbs_bits s) = (nbs_len s + 63) div 64 \<and> nbs_alpha s \<subseteq> {..<nbs_len s}"

section \<open>Single bits\<close>

lemma nat_and_63: "(i :: nat) AND 63 = i mod 64"
proof -
  have "i AND mask 6 = i mod 2 ^ 6"
    by (simp only: take_bit_eq_mask [symmetric] take_bit_eq_mod)
  then show ?thesis by (simp add: mask_eq_exp_minus_1)
qed

lemma drop_bit_6: "drop_bit 6 (i :: nat) = i div 64"
  by (simp add: drop_bit_eq_div)

lemma bit_one_word: "bit ((2 :: u64) ^ k) n \<longleftrightarrow> k < 64 \<and> n = k"
  by (auto simp: bit_simps)

lemma and_one_bit: "(w :: u64) AND 2 ^ k = 0 \<longleftrightarrow> \<not> bit w k"
  by (rule and_exp_eq_0_iff_not_bit)

lemmas nbs_index = nat_and_63 drop_bit_6

lemma word_in_range: "nbs_wf s \<Longrightarrow> i < nbs_len s \<Longrightarrow> i div 64 < length (nbs_bits s)"
  by (simp add: nbs_wf_def)

lemma nbs_alpha_bound: "nbs_wf s \<Longrightarrow> i \<in> nbs_alpha s \<Longrightarrow> i < nbs_len s"
  by (auto simp: nbs_wf_def)

lemma nbs_alpha_finite [simp]: "nbs_wf s \<Longrightarrow> finite (nbs_alpha s)"
  by (meson finite_lessThan finite_subset nbs_wf_def)

lemma nbs_bit_update:
  assumes "i div 64 < length ws"
  shows "nbs_bit (ws[i div 64 := w]) j \<longleftrightarrow>
    (if j div 64 = i div 64 then bit w (j mod 64) else nbs_bit ws j)"
  using assms by (auto simp: nbs_bit_def nth_list_update)

lemma div_mod_64_eq: "(j :: nat) div 64 = i div 64 \<Longrightarrow> j mod 64 = i mod 64 \<longleftrightarrow> j = i"
  by (metis div_mod_decomp)


section \<open>The operations implement the set operations\<close>

lemma nbs_zeros_spec: "nbs_wf (nbs_zeros n)" "nbs_alpha (nbs_zeros n) = {}"
    "nbs_len (nbs_zeros n) = n"
  by (auto simp: nbs_wf_def nbs_zeros_def nbs_alpha_def nbs_bit_def)

lemma nbs_contains_spec:
  assumes "nbs_wf s"
  shows "nbs_contains s n = Some (unat n \<in> nbs_alpha s)"
proof (cases "nbs_len s \<le> unat n")
  case True
  with assms show ?thesis by (auto simp: nbs_contains_def nbs_wf_def)
next
  case False
  with assms have "unat n div 64 < length (nbs_bits s)" by (simp add: word_in_range)
  with False show ?thesis
    by (simp add: nbs_contains_def nbs_index and_one_bit nbs_alpha_def nbs_bit_def Let_def)
qed

lemma nbs_insert_spec:
  assumes "nbs_wf s"
  obtains s' where
    "nbs_insert s n = Some (unat n < nbs_len s \<and> unat n \<notin> nbs_alpha s, s')"
    "nbs_wf s'" "nbs_len s' = nbs_len s"
    "nbs_alpha s' = nbs_alpha s \<union> ({unat n} \<inter> {..<nbs_len s})"
proof (cases "nbs_len s \<le> unat n")
  case True
  with assms show ?thesis
    by (intro that [of s]) (auto simp: nbs_insert_def)
next
  case False
  define i where "i = unat n"
  define w where "w = nbs_bits s ! (i div 64)"
  define s' where "s' = s\<lparr>nbs_bits := (nbs_bits s)[i div 64 := w OR push_bit (i mod 64) 1]\<rparr>"
  from assms False have r: "i div 64 < length (nbs_bits s)" and i: "i < nbs_len s"
    by (simp_all add: word_in_range i_def)
  have "nbs_bit (nbs_bits s') j \<longleftrightarrow> nbs_bit (nbs_bits s) j \<or> j = i" for j
    using r div_mod_64_eq [of j i] nbs_bit_update [OF r, of _ j]
    by (auto simp: s'_def bit_or_iff bit_one_word w_def nbs_bit_def [of "nbs_bits s"])
  then have a: "nbs_alpha s' = nbs_alpha s \<union> {i}"
    by (auto simp: nbs_alpha_def)
  have "w AND 2 ^ (i mod 64) = 0 \<longleftrightarrow> i \<notin> nbs_alpha s"
    using r by (auto simp: and_one_bit nbs_alpha_def nbs_bit_def w_def)
  then have "nbs_insert s n = Some (i \<notin> nbs_alpha s, s')"
    using False r by (simp add: nbs_insert_def nbs_index s'_def w_def flip: i_def)
  moreover have "nbs_wf s'"
    using assms i a by (auto simp: nbs_wf_def s'_def)
  ultimately show ?thesis
    using a i by (intro that [of s']) (auto simp: s'_def simp flip: i_def)
qed

lemma nbs_set_spec:
  assumes "nbs_wf s"
  obtains s' where "nbs_set s n = Some s'" "nbs_wf s'" "nbs_len s' = nbs_len s"
    "nbs_alpha s' = nbs_alpha s \<union> ({unat n} \<inter> {..<nbs_len s})"
proof -
  obtain s' where "nbs_insert s n = Some (unat n < nbs_len s \<and> unat n \<notin> nbs_alpha s, s')"
    and s': "nbs_wf s'" "nbs_len s' = nbs_len s"
      "nbs_alpha s' = nbs_alpha s \<union> ({unat n} \<inter> {..<nbs_len s})"
    using nbs_insert_spec [OF assms] .
  then have "nbs_set s n = Some s'" by (simp add: nbs_set_def)
  with s' show ?thesis using that by blast
qed

lemma nbs_clear_spec:
  assumes "nbs_wf s"
  obtains s' where "nbs_clear s n = Some s'" "nbs_wf s'" "nbs_len s' = nbs_len s"
    "nbs_alpha s' = nbs_alpha s - {unat n}"
proof (cases "nbs_len s \<le> unat n")
  case True
  with assms have "unat n \<notin> nbs_alpha s" by (auto simp: nbs_wf_def)
  with assms True show ?thesis
    by (intro that [of s]) (auto simp: nbs_clear_def)
next
  case False
  define i where "i = unat n"
  define w where "w = nbs_bits s ! (i div 64)"
  define s' where
    "s' = s\<lparr>nbs_bits := (nbs_bits s)[i div 64 := w AND NOT (push_bit (i mod 64) 1)]\<rparr>"
  from assms False have r: "i div 64 < length (nbs_bits s)"
    by (simp add: word_in_range i_def)
  have "nbs_bit (nbs_bits s') j \<longleftrightarrow> nbs_bit (nbs_bits s) j \<and> j \<noteq> i" for j
    using r div_mod_64_eq [of j i] nbs_bit_update [OF r, of _ j]
    by (auto simp: s'_def bit_and_iff bit_not_iff bit_one_word w_def nbs_bit_def [of "nbs_bits s"])
  then have a: "nbs_alpha s' = nbs_alpha s - {i}"
    by (auto simp: nbs_alpha_def)
  have "nbs_clear s n = Some s'"
    using False r by (simp add: nbs_clear_def nbs_index s'_def w_def flip: i_def)
  moreover have "nbs_wf s'"
    using assms a by (auto simp: nbs_wf_def s'_def)
  ultimately show ?thesis
    using a by (intro that [of s']) (auto simp: s'_def simp flip: i_def)
qed


lemma nbs_set_all_spec:
  assumes "nbs_wf s"
  shows "\<exists>s'. nbs_set_all s ns = Some s' \<and> nbs_wf s' \<and> nbs_len s' = nbs_len s \<and>
    nbs_alpha s' = nbs_alpha s \<union> (unat ` set ns \<inter> {..<nbs_len s})"
  using assms
proof (induction ns arbitrary: s)
  case Nil
  then show ?case by simp
next
  case (Cons n ns)
  obtain s' where s': "nbs_set s n = Some s'" "nbs_wf s'" "nbs_len s' = nbs_len s"
    "nbs_alpha s' = nbs_alpha s \<union> ({unat n} \<inter> {..<nbs_len s})"
    using nbs_set_spec [OF Cons.prems] .
  show ?case using Cons.IH [OF s'(2)] s' by auto
qed

lemma nbs_from_seed_spec:
  "\<exists>s. nbs_from_seed n ns = Some s \<and> nbs_wf s \<and> nbs_len s = n \<and>
    nbs_alpha s = unat ` set ns \<inter> {..<n}"
  using nbs_set_all_spec [OF nbs_zeros_spec(1), of n ns] by (simp add: nbs_from_seed_def nbs_zeros_spec)

text \<open>The word-wise operations: one lemma for every bitwise function of two words.\<close>

lemma zip_update_eq_map2: "length xs = length ys \<Longrightarrow> zip_update f xs ys = map2 f xs ys"
  by (simp add: zip_update_def)

lemma nbs_bit_map2:
  assumes "length xs = length ys" and "\<And>a b n. bit (f a b) n \<longleftrightarrow> n < 64 \<and> g (bit a n) (bit b n)"
    and "\<not> g False False"
  shows "nbs_bit (map2 f xs ys) i \<longleftrightarrow> g (nbs_bit xs i) (nbs_bit ys i)"
  using assms by (cases "i div 64 < length ys") (simp_all add: nbs_bit_def)

lemma nbs_map2_spec:
  assumes wf: "nbs_wf s" "nbs_wf t" "nbs_len s = nbs_len t"
    and f: "\<And>a b n. bit (f a b) n \<longleftrightarrow> n < 64 \<and> g (bit a n) (bit b n)"
    and g: "\<not> g False False"
    and r: "nbs_bits r = map2 f (nbs_bits s) (nbs_bits t)" "nbs_len r = nbs_len s"
  shows "nbs_wf r" "nbs_alpha r = {i. g (i \<in> nbs_alpha s) (i \<in> nbs_alpha t)}"
proof -
  have len: "length (nbs_bits s) = length (nbs_bits t)"
    using wf by (simp add: nbs_wf_def)
  show a: "nbs_alpha r = {i. g (i \<in> nbs_alpha s) (i \<in> nbs_alpha t)}"
    unfolding nbs_alpha_def r using nbs_bit_map2 [where f = f and g = g, OF len f g] by auto
  have "i < nbs_len s" if "g (i \<in> nbs_alpha s) (i \<in> nbs_alpha t)" for i
    using that g wf nbs_alpha_bound [of s i] nbs_alpha_bound [of t i]
    by (cases "i \<in> nbs_alpha s"; cases "i \<in> nbs_alpha t") auto
  with a len wf(1) show "nbs_wf r"
    by (auto simp: nbs_wf_def r)
qed

lemma nbs_binop_cases:
  assumes "nbs_wf s" "nbs_wf t" "nbs_len s = nbs_len t"
  shows nbs_union_inplace_spec:
      "\<exists>r. nbs_union_inplace s t = Some r \<and> nbs_wf r \<and> nbs_len r = nbs_len s \<and>
        nbs_alpha r = nbs_alpha s \<union> nbs_alpha t"
    and nbs_intersect_inplace_spec:
      "\<exists>r. nbs_intersect_inplace s t = Some r \<and> nbs_wf r \<and> nbs_len r = nbs_len s \<and>
        nbs_alpha r = nbs_alpha s \<inter> nbs_alpha t"
    and nbs_intersect_spec:
      "\<exists>r. nbs_intersect s t = Some r \<and> nbs_wf r \<and> nbs_len r = nbs_len s \<and>
        nbs_alpha r = nbs_alpha s \<inter> nbs_alpha t"
    and nbs_difference_inplace_spec:
      "\<exists>r. nbs_difference_inplace s t = Some r \<and> nbs_wf r \<and> nbs_len r = nbs_len s \<and>
        nbs_alpha r = nbs_alpha s - nbs_alpha t"
    and nbs_difference_spec:
      "\<exists>r. nbs_difference s t = Some r \<and> nbs_wf r \<and> nbs_len r = nbs_len s \<and>
        nbs_alpha r = nbs_alpha s - nbs_alpha t"
proof -
  have len: "length (nbs_bits s) = length (nbs_bits t)"
    using assms by (simp add: nbs_wf_def)
  note z = zip_update_eq_map2 [OF len]
  have bits: "bit (a OR b :: u64) n \<longleftrightarrow> n < 64 \<and> (bit a n \<or> bit b n)"
    "bit (a AND b :: u64) n \<longleftrightarrow> n < 64 \<and> (bit a n \<and> bit b n)"
    "bit (a AND NOT b :: u64) n \<longleftrightarrow> n < 64 \<and> (bit a n \<and> \<not> bit b n)" for a b n
    by (auto simp: bit_simps dest: bit_imp_le_length)
  note sp = nbs_map2_spec [where f = "\<lambda>a b. a OR b" and g = "\<lambda>p q. p \<or> q", OF assms bits(1)]
    nbs_map2_spec [where f = "\<lambda>a b. a AND b" and g = "\<lambda>p q. p \<and> q", OF assms bits(2)]
    nbs_map2_spec [where f = "\<lambda>a b. a AND NOT b" and g = "\<lambda>p q. p \<and> \<not> q", OF assms bits(3)]
  show "\<exists>r. nbs_union_inplace s t = Some r \<and> nbs_wf r \<and> nbs_len r = nbs_len s \<and>
        nbs_alpha r = nbs_alpha s \<union> nbs_alpha t"
    using assms(3) sp(1,2) by (auto simp: nbs_union_inplace_def z)
  show "\<exists>r. nbs_intersect_inplace s t = Some r \<and> nbs_wf r \<and> nbs_len r = nbs_len s \<and>
        nbs_alpha r = nbs_alpha s \<inter> nbs_alpha t"
    using assms(3) sp(3,4) by (auto simp: nbs_intersect_inplace_def z)
  show "\<exists>r. nbs_intersect s t = Some r \<and> nbs_wf r \<and> nbs_len r = nbs_len s \<and>
        nbs_alpha r = nbs_alpha s \<inter> nbs_alpha t"
    using assms(3) sp(3,4) by (auto simp: nbs_intersect_def)
  show "\<exists>r. nbs_difference_inplace s t = Some r \<and> nbs_wf r \<and> nbs_len r = nbs_len s \<and>
        nbs_alpha r = nbs_alpha s - nbs_alpha t"
    using assms(3) sp(5,6) by (auto simp: nbs_difference_inplace_def z)
  show "\<exists>r. nbs_difference s t = Some r \<and> nbs_wf r \<and> nbs_len r = nbs_len s \<and>
        nbs_alpha r = nbs_alpha s - nbs_alpha t"
    using assms(3) sp(5,6) by (auto simp: nbs_difference_def)
qed

lemma nbs_is_zero_spec: "nbs_is_zero s \<longleftrightarrow> nbs_alpha s = {}"
proof
  assume "nbs_is_zero s"
  then have "nbs_bits s ! k = 0" if "k < length (nbs_bits s)" for k
    using that by (simp add: nbs_is_zero_def list_all_iff)
  then show "nbs_alpha s = {}"
    by (auto simp: nbs_alpha_def nbs_bit_def)
next
  assume e: "nbs_alpha s = {}"
  have "w = 0" if w: "w \<in> set (nbs_bits s)" for w
  proof (rule bit_word_eqI)
    fix n assume n: "n < LENGTH(64)"
    obtain k where k: "k < length (nbs_bits s)" "w = nbs_bits s ! k"
      using w by (auto simp: in_set_conv_nth)
    with n e have "\<not> nbs_bit (nbs_bits s) (k * 64 + n)"
      by (auto simp: nbs_alpha_def)
    with k n show "bit w n \<longleftrightarrow> bit 0 n"
      by (simp add: nbs_bit_def)
  qed
  then show "nbs_is_zero s"
    by (simp add: nbs_is_zero_def list_all_iff)
qed


section \<open>Population count\<close>

lemma nbs_bit_Nil [simp]: "\<not> nbs_bit [] i"
  by (simp add: nbs_bit_def)

lemma nbs_bit_Cons:
  "nbs_bit (w # ws) i \<longleftrightarrow> (if i < 64 then bit w i else nbs_bit ws (i - 64))"
  by (auto simp: nbs_bit_def le_div_geq le_mod_geq not_less)

lemma nbs_bits_Cons_split:
  "{i. nbs_bit (w # ws) i} = {i. i < 64 \<and> bit w i} \<union> (\<lambda>i. i + 64) ` {i. nbs_bit ws i}"
proof -
  have "nbs_bit ws (i - 64) \<Longrightarrow> \<not> i < 64 \<Longrightarrow> i \<in> (\<lambda>i. i + 64) ` {i. nbs_bit ws i}" for i
    by (rule image_eqI [of _ _ "i - 64"]) auto
  then show ?thesis by (auto simp: nbs_bit_Cons)
qed

lemma count_ones_card: "count_ones w = card {i. i < 64 \<and> bit w i}"
proof -
  have "count_ones w = card (set (filter (bit w) [0..<64]))"
    by (simp only: count_ones_def distinct_card distinct_filter distinct_upt)
  also have "set (filter (bit w) [0..<64]) = {i. i < 64 \<and> bit w i}" by auto
  finally show ?thesis .
qed

lemma finite_nbs_bits: "finite {i. nbs_bit ws i}"
  by (induction ws) (simp_all add: nbs_bits_Cons_split)

lemma sum_count_ones: "sum_list (map count_ones ws) = card {i. nbs_bit ws i}"
proof (induction ws)
  case Nil
  then show ?case by simp
next
  case (Cons w ws)
  have "card {i. nbs_bit (w # ws) i} =
      card {i. i < 64 \<and> bit w i} + card ((\<lambda>i. i + 64) ` {i. nbs_bit ws i})"
    unfolding nbs_bits_Cons_split by (rule card_Un_disjoint) (auto simp: finite_nbs_bits)
  also have "card ((\<lambda>i. i + 64) ` {i. nbs_bit ws i}) = card {i. nbs_bit ws i}"
    by (rule card_image) simp
  finally show ?case using Cons.IH by (simp add: count_ones_card)
qed

lemma nbs_popcount_spec: "nbs_popcount s = card (nbs_alpha s)"
  by (simp add: nbs_popcount_def nbs_alpha_def sum_count_ones)

section \<open>The iterator\<close>

text \<open>Clearing the lowest set bit of a word, the step of the iterator.\<close>

lemma trailing_zeros_props:
  assumes "w \<noteq> 0"
  shows "trailing_zeros w < 64" "bit w (trailing_zeros w)" "\<And>n. n < trailing_zeros w \<Longrightarrow> \<not> bit w n"
proof -
  let ?P = "\<lambda>n. \<not> bit w n"
  obtain n where n: "bit w n" "n < 64"
    using assms bit_word_eqI [of w 0] by auto
  then have "\<exists>x \<in> set [0..<64]. \<not> ?P x" by auto
  then have "length (takeWhile ?P [0..<64]) < length [0..<64]"
    by (metis (mono_tags) length_takeWhile_le nat_less_le takeWhile_eq_all_conv takeWhile_eq_take take_all_iff order_refl)
  then show l: "trailing_zeros w < 64" by (simp add: trailing_zeros_def)
  show "bit w (trailing_zeros w)"
    using nth_length_takeWhile [of ?P "[0..<64]"] l by (simp add: trailing_zeros_def)
  fix m assume m: "m < trailing_zeros w"
  then have "takeWhile ?P [0..<64] ! m = m"
    using l by (simp add: trailing_zeros_def takeWhile_nth)
  then show "\<not> bit w m"
    using m by (metis (mono_tags) nth_mem set_takeWhileD trailing_zeros_def)
qed

lemma bit_clear_lowest:
  fixes w :: u64
  assumes "w \<noteq> 0"
  shows "bit (w AND (w - 1)) n \<longleftrightarrow> bit w n \<and> n \<noteq> trailing_zeros w"
proof -
  define t where "t = trailing_zeros w"
  define v where "v = drop_bit t w"
  note tz = trailing_zeros_props [OF assms, folded t_def]
  have odd: "odd v" using tz(2) by (simp add: v_def bit_iff_odd_drop_bit)
  have w: "w = push_bit t v"
  proof (rule bit_word_eqI)
    fix m assume "m < LENGTH(64)"
    then show "bit w m \<longleftrightarrow> bit (push_bit t v) m"
      using tz(3) [of m] by (cases "m < t") (auto simp: v_def bit_simps)
  qed
  have "push_bit t (v - 1) AND mask t = 0"
    by (rule bit_word_eqI) (auto simp: bit_simps)
  then have "push_bit t (v - 1) + mask t = push_bit t (v - 1) OR mask t"
    by (simp add: disjunctive_add_eq_or)
  moreover have "push_bit t (v - 1) + mask t = w - 1"
    by (simp add: w push_bit_eq_mult mask_eq_exp_minus_1 algebra_simps)
  ultimately have w1: "w - 1 = push_bit t (v - 1) OR mask t" by simp
  have v1: "bit (v - 1) m \<longleftrightarrow> bit v m \<and> m \<noteq> 0" for m
    using even_bit_succ_iff [of "v - 1" m] odd by (cases m) (auto simp: bit_0)
  show ?thesis
    unfolding t_def [symmetric] bit_and_iff w1 using tz
    by (subst (1 2) w) (auto simp: bit_simps v1)
qed


definition word_elems :: "u64 \<Rightarrow> nat list" where
  "word_elems w = filter (bit w) [0..<64]"

lemma word_elems_0 [simp]: "word_elems 0 = []"
  by (simp add: word_elems_def)

lemma word_elems_step:
  assumes "w \<noteq> 0"
  shows "word_elems w = trailing_zeros w # word_elems (w AND (w - 1))"
proof -
  let ?t = "trailing_zeros w"
  note tz = trailing_zeros_props [OF assms]
  have split: "[0..<64] = [0..<?t] @ ?t # [Suc ?t..<64]"
    using upt_add_eq_append [of 0 ?t "64 - ?t"] tz(1) by (simp add: upt_conv_Cons)
  have low: "filter (bit w) [0..<?t] = []"
    using tz(3) by (simp add: filter_empty_conv)
  have "word_elems (w AND (w - 1)) = filter (bit w) [Suc ?t..<64]"
    unfolding word_elems_def split using low
    by (auto simp: bit_clear_lowest [OF assms] filter_empty_conv intro: filter_cong)
  then show ?thesis
    unfolding word_elems_def [of w] by (subst split) (simp add: low tz(2))
qed

lemma word_elems_Nil_iff: "word_elems w = [] \<longleftrightarrow> w = 0"
  using word_elems_step by (cases "w = 0") auto

definition it_elems :: "node_bit_set_iter \<Rightarrow> nat list" where
  "it_elems it = map (\<lambda>b. it_word_idx it * 64 + b) (word_elems (it_cur_word it)) @
     concat (map (\<lambda>j. map (\<lambda>b. j * 64 + b) (word_elems (it_bits it ! j)))
       [Suc (it_word_idx it)..<length (it_bits it)])"

lemma it_elems_next_word:
  assumes "it_cur_word it = 0" "Suc (it_word_idx it) < length (it_bits it)"
  shows "it_elems (it\<lparr>it_word_idx := Suc (it_word_idx it),
      it_cur_word := it_bits it ! Suc (it_word_idx it)\<rparr>) = it_elems it"
  using assms by (simp add: it_elems_def upt_conv_Cons)

lemma nbs_next_spec:
  "case it_elems it of
     [] \<Rightarrow> fst (nbs_next it) = None
   | x # xs \<Rightarrow> x < it_len it \<longrightarrow>
       (\<exists>it'. nbs_next it = (Some (of_nat x), it') \<and> it_elems it' = xs \<and> it_len it' = it_len it)"
proof (induction it rule: nbs_next.induct)
  case (1 it)
  consider "it_cur_word it \<noteq> 0"
    | "it_cur_word it = 0" "length (it_bits it) \<le> it_word_idx it + 1"
    | "it_cur_word it = 0" "\<not> length (it_bits it) \<le> it_word_idx it + 1" by blast
  then show ?case
  proof cases
    case 1
    then show ?thesis
      by (simp add: nbs_next.simps [of it] it_elems_def word_elems_step Let_def)
  next
    case 2
    then show ?thesis by (simp add: nbs_next.simps [of it] it_elems_def)
  next
    case 3
    define it1 where "it1 = it\<lparr>it_word_idx := it_word_idx it + 1,
        it_cur_word := it_bits it ! (it_word_idx it + 1)\<rparr>"
    from 3 have "nbs_next it = nbs_next it1" "it_elems it1 = it_elems it" "it_len it1 = it_len it"
      using it_elems_next_word [of it] by (simp_all add: nbs_next.simps [of it] it1_def)
    then show ?thesis using "1.IH" 3 unfolding it1_def [symmetric]
      by (cases "it_elems it") simp_all
  qed
qed

lemma nbs_drain_spec:
  "list_all (\<lambda>x. x < it_len it) (it_elems it) \<Longrightarrow> nbs_drain it = Some (map of_nat (it_elems it))"
proof (induction "it_elems it" arbitrary: it)
  case Nil
  then have "fst (nbs_next it) = None" using nbs_next_spec [of it] by simp
  then obtain it' where "nbs_next it = (None, it')" by (cases "nbs_next it") simp
  with Nil show ?case by (subst nbs_drain.simps) simp
next
  case (Cons x xs)
  then obtain it' where it': "nbs_next it = (Some (of_nat x), it')" "it_elems it' = xs"
    "it_len it' = it_len it"
    using nbs_next_spec [of it] by (simp flip: Cons.hyps(2)) blast
  with Cons have "nbs_drain it' = Some (map of_nat xs)" by (metis list.pred_inject(2))
  with it'(1) show ?case by (subst nbs_drain.simps) (simp flip: Cons.hyps(2))
qed

lemma sorted_word_elems: "sorted_wrt (<) (word_elems w)" "set (word_elems w) = {i. i < 64 \<and> bit w i}"
  by (auto simp: word_elems_def sorted_wrt_filter)

lemma sorted_wrt_concat_blocks:
  assumes "\<And>j. sorted_wrt (<) (f j)" and "\<And>j b. b \<in> set (f j) \<Longrightarrow> b < (64 :: nat)"
  shows "sorted_wrt (<) (concat (map (\<lambda>j. map (\<lambda>b. j * 64 + b) (f j)) [m..<n]))"
proof (induction "n - m" arbitrary: m)
  case 0
  then show ?case by simp
next
  case (Suc d)
  then have mn: "[m..<n] = m # [Suc m..<n]" by (simp add: upt_conv_Cons)
  have IH: "sorted_wrt (<) (concat (map (\<lambda>j. map (\<lambda>b. j * 64 + b) (f j)) [Suc m..<n]))"
    using Suc by (metis Suc_diff_Suc diff_Suc_1 zero_less_Suc zero_less_diff)
  have "x < y" if "x \<in> (\<lambda>b. m * 64 + b) ` set (f m)" "j \<in> {Suc m..<n}"
    "y \<in> (\<lambda>b. j * 64 + b) ` set (f j)" for x y j
  proof -
    from that assms(2) obtain b where "x = m * 64 + b" "b < 64" by auto
    moreover have "Suc m * 64 \<le> j * 64" using that(2) by simp
    moreover have "j * 64 \<le> y" using that(3) by auto
    ultimately show ?thesis by simp
  qed
  then show ?case
    using IH assms(1) [of m] by (auto simp: mn sorted_wrt_append sorted_wrt_map)
qed

lemma it_elems_iter:
  "sorted_wrt (<) (it_elems (nbs_iter s))" "set (it_elems (nbs_iter s)) = nbs_alpha s"
proof -
  let ?f = "\<lambda>j. word_elems (nbs_bits s ! j)"
  have e: "it_elems (nbs_iter s) =
      concat (map (\<lambda>j. map (\<lambda>b. j * 64 + b) (?f j)) [0..<length (nbs_bits s)])"
    by (cases "nbs_bits s")
      (simp_all add: it_elems_def nbs_iter_def upt_conv_Cons map_idI del: upt_Suc)
  show "sorted_wrt (<) (it_elems (nbs_iter s))"
    unfolding e by (rule sorted_wrt_concat_blocks) (auto simp: sorted_word_elems)
  have "i \<in> set (it_elems (nbs_iter s)) \<longleftrightarrow> i \<in> nbs_alpha s" for i
  proof -
    have "(\<exists>j < length (nbs_bits s). \<exists>b < 64. bit (nbs_bits s ! j) b \<and> i = j * 64 + b) \<longleftrightarrow>
        nbs_bit (nbs_bits s) i"
    proof
      assume "nbs_bit (nbs_bits s) i"
      then have "i div 64 < length (nbs_bits s)" "bit (nbs_bits s ! (i div 64)) (i mod 64)"
        by (simp_all add: nbs_bit_def)
      moreover have "i mod 64 < 64" "i = i div 64 * 64 + i mod 64" by simp_all
      ultimately show "\<exists>j < length (nbs_bits s). \<exists>b < 64. bit (nbs_bits s ! j) b \<and> i = j * 64 + b"
        by blast
    qed (auto simp: nbs_bit_def)
    then show ?thesis
      by (auto simp: e sorted_word_elems nbs_alpha_def image_iff)
  qed
  then show "set (it_elems (nbs_iter s)) = nbs_alpha s" by blast
qed

lemma nbs_elems_spec:
  assumes "nbs_wf s"
  shows "nbs_elems s = Some (map of_nat (sorted_list_of_set (nbs_alpha s)))"
proof -
  have "it_elems (nbs_iter s) = sorted_list_of_set (nbs_alpha s)"
    using it_elems_iter [of s] assms
    by (intro sorted_distinct_set_unique)
      (auto simp: strict_sorted_iff sorted_list_of_set.sorted_sorted_key_list_of_set)
  moreover have "list_all (\<lambda>x. x < it_len (nbs_iter s)) (it_elems (nbs_iter s))"
    using assms it_elems_iter(2) [of s] by (auto simp: list_all_iff nbs_iter_def nbs_wf_def)
  ultimately show ?thesis by (simp add: nbs_elems_def nbs_drain_spec)
qed

section \<open>The visited-set contract\<close>

interpretation nbs: node_set nbs_zeros nbs_contains nbs_set nbs_clear nbs_alpha
  "\<lambda>n s. nbs_wf s \<and> nbs_len s = n"
proof unfold_locales
  show "\<exists>s'. nbs_set s v = Some s' \<and> (nbs_wf s' \<and> nbs_len s' = n) \<and> nbs_alpha s' = insert (unat v) (nbs_alpha s)"
    if "nbs_wf s \<and> nbs_len s = n" "unat v < n" for n s v
    using that nbs_set_spec [of s v] by (metis Int_absorb2 Un_insert_right empty_subsetI insert_subset
        lessThan_iff sup_bot.right_neutral)
  show "\<exists>s'. nbs_clear s v = Some s' \<and> (nbs_wf s' \<and> nbs_len s' = n) \<and> nbs_alpha s' = nbs_alpha s - {unat v}"
    if "nbs_wf s \<and> nbs_len s = n" for n s v
    using that nbs_clear_spec [of s v] by metis
qed (auto simp: nbs_zeros_spec nbs_contains_spec dest: nbs_alpha_bound)

section \<open>Properties\<close>

lemma nbs_inplace_eq:
  assumes "nbs_wf s" "nbs_wf t" "nbs_len s = nbs_len t"
  shows "nbs_intersect_inplace s t = nbs_intersect s t" "nbs_difference_inplace s t = nbs_difference s t"
proof -
  have "length (nbs_bits s) = length (nbs_bits t)" using assms by (simp add: nbs_wf_def)
  from zip_update_eq_map2 [OF this] assms(3)
  show "nbs_intersect_inplace s t = nbs_intersect s t" "nbs_difference_inplace s t = nbs_difference s t"
    by (simp_all add: nbs_intersect_inplace_def nbs_intersect_def nbs_difference_inplace_def nbs_difference_def)
qed

text \<open>
  \<^verbatim>\<open>insert\<close> never panics, keeps the bit set well formed, adds exactly the given node when it is
  below the capacity and nothing otherwise, and returns whether the set has grown.
\<close>

theorem bitset_insert:
  assumes "nbs_wf s"
  shows "\<exists>s'. nbs_insert s n = Some (unat n < nbs_len s \<and> unat n \<notin> nbs_alpha s, s')
    \<and> nbs_wf s' \<and> nbs_len s' = nbs_len s \<and> nbs_alpha s' = nbs_alpha s \<union> ({unat n} \<inter> {..<nbs_len s})
    \<and> nbs_contains s' n = Some (unat n < nbs_len s)"
proof -
  obtain s' where s': "nbs_insert s n = Some (unat n < nbs_len s \<and> unat n \<notin> nbs_alpha s, s')"
    "nbs_wf s'" "nbs_len s' = nbs_len s" "nbs_alpha s' = nbs_alpha s \<union> ({unat n} \<inter> {..<nbs_len s})"
    by (rule nbs_insert_spec [OF assms])
  with nbs_contains_spec [OF s'(2), of n] nbs_alpha_bound [OF assms, of "unat n"] show ?thesis by auto
qed

theorem bitset_insert_witness:
  "\<exists>s'. nbs_insert (nbs_zeros 70) 65 = Some (True, s') \<and> nbs_alpha s' = {65}
    \<and> nbs_contains s' 65 = Some True"
  using bitset_insert [OF nbs_zeros_spec(1) [of 70], of 65] by (auto simp: nbs_zeros_spec)

text \<open>
  Draining the iterator, which skips zero words and clears the lowest bit of the current one,
  yields exactly the members in increasing order, and \<^verbatim>\<open>popcount\<close> is their number.
\<close>

theorem bitset_iteration:
  assumes "nbs_wf s"
  shows "nbs_elems s = Some (map of_nat (sorted_list_of_set (nbs_alpha s)))
    \<and> nbs_popcount s = card (nbs_alpha s) \<and> (nbs_is_zero s \<longleftrightarrow> nbs_alpha s = {})"
  using nbs_elems_spec [OF assms] nbs_popcount_spec nbs_is_zero_spec by simp

theorem bitset_iteration_witness:
  "\<exists>s. nbs_from_seed 70 [65, 3] = Some s \<and> nbs_elems s = Some [3, 65] \<and> nbs_popcount s = 2"
proof -
  obtain s where s: "nbs_from_seed 70 [65, 3] = Some s" "nbs_wf s" "nbs_alpha s = {65, 3}"
    using nbs_from_seed_spec [of 70 "[65, 3]"] by auto
  have "sorted_list_of_set {65, 3 :: nat} = [3, 65]" by (simp add: insort_insert_insort)
  with bitset_iteration [OF s(2)] s show ?thesis by simp
qed

text \<open>
  C34: on sets of the same capacity the word-parallel union, intersection and difference, in place
  or not, compute the set operations and keep the bit set well formed.
\<close>

theorem bitset_algebra:
  assumes "nbs_wf s" "nbs_wf t" "nbs_len s = nbs_len t"
  shows "\<exists>u i d. nbs_union_inplace s t = Some u \<and> nbs_intersect s t = Some i \<and> nbs_difference s t = Some d
    \<and> nbs_intersect_inplace s t = Some i \<and> nbs_difference_inplace s t = Some d
    \<and> nbs_alpha u = nbs_alpha s \<union> nbs_alpha t \<and> nbs_alpha i = nbs_alpha s \<inter> nbs_alpha t
    \<and> nbs_alpha d = nbs_alpha s - nbs_alpha t \<and> nbs_wf u \<and> nbs_wf i \<and> nbs_wf d"
  using nbs_union_inplace_spec [OF assms] nbs_intersect_spec [OF assms] nbs_difference_spec [OF assms]
  unfolding nbs_inplace_eq [OF assms] by blast

theorem bitset_algebra_witness:
  "\<exists>s t u. nbs_from_seed 70 [65] = Some s \<and> nbs_from_seed 70 [3] = Some t
    \<and> nbs_union_inplace s t = Some u \<and> nbs_alpha u = {3, 65}"
proof -
  obtain s where s: "nbs_from_seed 70 [65] = Some s" "nbs_wf s" "nbs_len s = 70" "nbs_alpha s = {65}"
    using nbs_from_seed_spec [of 70 "[65]"] by auto
  obtain t where t: "nbs_from_seed 70 [3] = Some t" "nbs_wf t" "nbs_len t = 70" "nbs_alpha t = {3}"
    using nbs_from_seed_spec [of 70 "[3]"] by auto
  from bitset_algebra [OF s(2) t(2)] s t show ?thesis by auto
qed

end
