(* ===== verification/Span_Ids.thy ===== *)
theory Span_Ids
  imports Rust_Prelude "HOL-Library.Product_Lexorder"
begin

text \<open>
  The foundation types of \<^verbatim>\<open>crates/common\<close>: the \<^verbatim>\<open>u32\<close> identifiers of \<^verbatim>\<open>ids.rs\<close>, the half-open
  byte spans of \<^verbatim>\<open>span.rs\<close> with their order, and the \<open>SpanMap\<close> that turns a byte offset
  into a one-based line and column by a binary search over the line starts.

  Shown: the span order of the source is a linear order (an instance of the type class); the
  join of two spans is the least span that covers both; a line/column lookup returns the number
  of newlines before the offset plus one and the distance to the last of them plus one.
\<close>

section \<open>Identifiers\<close>

text \<open>The macro \<^verbatim>\<open>def_id!\<close> makes a transparent \<^verbatim>\<open>u32\<close> newtype; \<^verbatim>\<open>u32::MAX\<close> is the invalid id.\<close>

type_synonym file_id = u32
type_synonym func_id = u32
type_synonym block_id = u32

definition invalid_id :: u32 where
  "invalid_id = - 1"

definition id_is_valid :: "u32 \<Rightarrow> bool" where
  "id_is_valid i \<longleftrightarrow> i \<noteq> invalid_id"

section \<open>Spans\<close>

record span =
  span_file :: file_id
  span_start :: u64
  span_end :: u64

definition span_new :: "file_id \<Rightarrow> u64 \<Rightarrow> u64 \<Rightarrow> span" where
  "span_new f s e = \<lparr>span_file = f, span_start = s, span_end = e\<rparr>"

definition span_empty :: "file_id \<Rightarrow> u64 \<Rightarrow> span" where
  "span_empty f at = \<lparr>span_file = f, span_start = at, span_end = at\<rparr>"

definition span_len :: "span \<Rightarrow> u64" where
  "span_len s = saturating_sub (span_end s) (span_start s)"

definition span_is_empty :: "span \<Rightarrow> bool" where
  "span_is_empty s \<longleftrightarrow> span_end s = span_start s"

definition span_contains :: "span \<Rightarrow> u64 \<Rightarrow> bool" where
  "span_contains s b \<longleftrightarrow> span_start s \<le> b \<and> b < span_end s"

definition span_join :: "span \<Rightarrow> span \<Rightarrow> span" where
  "span_join a b =
     \<lparr>span_file = span_file a, span_start = min (span_start a) (span_start b),
      span_end = max (span_end a) (span_end b)\<rparr>"

datatype ordering = Less | Equal | Greater

definition cmp_word :: "'w::len word \<Rightarrow> 'w word \<Rightarrow> ordering" where
  "cmp_word a b = (if a < b then Less else if a = b then Equal else Greater)"

fun cmp_then :: "ordering \<Rightarrow> ordering \<Rightarrow> ordering" where
  "cmp_then Equal o2 = o2"
| "cmp_then o1 _ = o1"

definition span_cmp :: "span \<Rightarrow> span \<Rightarrow> ordering" where
  "span_cmp a b =
     cmp_then (cmp_then (cmp_word (span_file a) (span_file b))
       (cmp_word (span_start a) (span_start b))) (cmp_word (span_end a) (span_end b))"

section \<open>Line and column lookup\<close>

record line_col_pos =
  lc_line :: u32
  lc_column :: u32

record span_map =
  line_starts :: "u64 list"

text \<open>The scan of \<^verbatim>\<open>SpanMap::new\<close>: from byte index \<open>idx\<close> on, the offset after each newline.\<close>

fun newline_starts :: "nat \<Rightarrow> u8 list \<Rightarrow> u64 list" where
  "newline_starts idx [] = []"
| "newline_starts idx (b # bs) =
     (if b = 10 then of_nat (idx + 1) # newline_starts (idx + 1) bs else newline_starts (idx + 1) bs)"

definition span_map_new :: "u8 list \<Rightarrow> span_map" where
  "span_map_new text = \<lparr>line_starts = 0 # newline_starts 0 text\<rparr>"

definition span_map_from_line_starts :: "u64 list \<Rightarrow> span_map" where
  "span_map_from_line_starts ls =
     \<lparr>line_starts = (case ls of l # _ \<Rightarrow> (if l = 0 then ls else 0 # ls) | [] \<Rightarrow> 0 # ls)\<rparr>"

definition line_col :: "span_map \<Rightarrow> u64 \<Rightarrow> line_col_pos option" where
  "line_col m byte =
     (case binary_search (line_starts m) byte of
        Inr idx \<Rightarrow> Some \<lparr>lc_line = u32_or_max (idx + 1), lc_column = 1\<rparr>
      | Inl idx \<Rightarrow>
          (if idx = 0 then None
           else do {
             line_start \<leftarrow> vec_get (line_starts m) (idx - 1);
             Some \<lparr>lc_line = u32_or_max idx,
                   lc_column = u32_or_max (unat (saturating_add (saturating_sub byte line_start) 1))\<rparr>
           }))"

section \<open>Spans: order and join\<close>

definition span_key :: "('a::linorder) span_scheme \<Rightarrow> u32 \<times> u64 \<times> u64 \<times> 'a" where
  "span_key s = (span_file s, span_start s, span_end s, span.more s)"

lemma span_key_inj: "span_key a = span_key b \<Longrightarrow> a = b"
  by (simp add: span_key_def)

instantiation span_ext :: (linorder) linorder
begin

definition less_eq_span_ext :: "'a span_scheme \<Rightarrow> 'a span_scheme \<Rightarrow> bool" where
  "less_eq_span_ext a b \<longleftrightarrow> span_key a \<le> span_key b"

definition less_span_ext :: "'a span_scheme \<Rightarrow> 'a span_scheme \<Rightarrow> bool" where
  "less_span_ext a b \<longleftrightarrow> span_key a < span_key b"

instance
  by standard
    (auto simp: less_eq_span_ext_def less_span_ext_def intro: span_key_inj)

end

lemma span_cmp_less: "span_cmp a b = Less \<longleftrightarrow> a < b"
  by (auto simp: span_cmp_def cmp_word_def less_span_ext_def span_key_def less_prod_def')

lemma span_cmp_equal: "span_cmp a b = Equal \<longleftrightarrow> a = b"
  by (auto simp: span_cmp_def cmp_word_def)

lemma span_cmp_greater: "span_cmp a b = Greater \<longleftrightarrow> b < a"
  using span_cmp_less [of a b] span_cmp_equal [of a b]
  by (cases "span_cmp a b") (auto simp: not_less_iff_gr_or_eq)


lemma span_join_covers:
  "span_file (span_join a b) = span_file a"
  "span_contains a x \<or> span_contains b x \<Longrightarrow> span_contains (span_join a b) x"
  by (auto simp: span_join_def span_contains_def min_le_iff_disj less_max_iff_disj)

lemma span_join_least:
  assumes "span_start c \<le> span_start a" "span_end a \<le> span_end c"
    "span_start c \<le> span_start b" "span_end b \<le> span_end c"
  shows "span_start c \<le> span_start (span_join a b)" "span_end (span_join a b) \<le> span_end c"
  using assms by (auto simp: span_join_def)

lemma span_len_unat: "unat (span_len s) = unat (span_end s) - unat (span_start s)"
  by (simp add: span_len_def unat_saturating_sub)

section \<open>Line starts\<close>

lemma newline_starts_append:
  "newline_starts idx (xs @ ys) = newline_starts idx xs @ newline_starts (idx + length xs) ys"
  by (induction xs arbitrary: idx) auto

lemma length_newline_starts: "length (newline_starts idx bs) = length (filter (\<lambda>c. c = 10) bs)"
  by (induction bs arbitrary: idx) auto

lemma newline_starts_bounds:
  assumes "idx + length bs < 2 ^ 64" "p \<in> set (newline_starts idx bs)"
  shows "idx < unat p \<and> unat p \<le> idx + length bs"
  using assms
proof (induction bs arbitrary: idx)
  case Nil
  then show ?case by simp
next
  case (Cons b bs)
  then have "unat (of_nat (idx + 1) :: u64) = idx + 1"
    by (intro unat_of_nat_u64) simp
  with Cons.prems Cons.IH [of "idx + 1"] show ?case
    by (auto split: if_splits)
qed

lemma newline_starts_sorted:
  "idx + length bs < 2 ^ 64 \<Longrightarrow> sorted_wrt (<) (newline_starts idx bs)"
proof (induction bs arbitrary: idx)
  case Nil
  then show ?case by simp
next
  case (Cons b bs)
  then have "unat (of_nat (idx + 1) :: u64) = idx + 1"
    by (intro unat_of_nat_u64) simp
  moreover have "idx + 1 < unat p" if "p \<in> set (newline_starts (idx + 1) bs)" for p
    using newline_starts_bounds [OF _ that] Cons.prems by simp
  ultimately have "of_nat (idx + 1) < p" if "p \<in> set (newline_starts (idx + 1) bs)" for p :: u64
    using that by (simp add: word_less_nat_alt)
  with Cons.prems Cons.IH [of "idx + 1"] show ?case by simp
qed

lemma line_starts_sorted:
  assumes "length text < 2 ^ 64"
  shows "sorted_wrt (<) (line_starts (span_map_new text))"
proof -
  have "0 < p" if "p \<in> set (newline_starts 0 text)" for p
    using newline_starts_bounds [OF _ that] assms by (simp add: word_less_nat_alt)
  with assms show ?thesis by (simp add: span_map_new_def newline_starts_sorted)
qed

text \<open>The start of the line that follows \<open>bs\<close>: what lies after the last newline of \<open>bs\<close>.\<close>

lemma last_line_start:
  "length bs < 2 ^ 64 \<Longrightarrow>
    unat (last (0 # newline_starts 0 bs)) + length (takeWhile (\<lambda>c. c \<noteq> 10) (rev bs)) = length bs"
proof (induction bs rule: rev_induct)
  case Nil
  then show ?case by simp
next
  case (snoc b bs)
  show ?case
  proof (cases "b = 10")
    case True
    have "newline_starts 0 (bs @ [b]) = newline_starts 0 bs @ [of_nat (length bs + 1)]"
      using True by (simp add: newline_starts_append)
    moreover have "unat (of_nat (length bs + 1) :: u64) = length bs + 1"
      using snoc.prems by (intro unat_of_nat_u64) simp
    ultimately show ?thesis using True by simp
  next
    case False
    then show ?thesis using snoc by (simp add: newline_starts_append)
  qed
qed

lemma line_starts_split:
  assumes "length text < 2 ^ 64" "b \<le> length text"
  defines "F \<equiv> 0 # newline_starts 0 (take b text)"
    and "S \<equiv> newline_starts b (drop b text)"
  shows "line_starts (span_map_new text) = F @ S" "\<forall>p \<in> set F. unat p \<le> b" "\<forall>p \<in> set S. b < unat p"
    "length F = length (filter (\<lambda>c. c = 10) (take b text)) + 1"
proof -
  have "newline_starts 0 text = newline_starts 0 (take b text @ drop b text)" by simp
  also have "\<dots> = newline_starts 0 (take b text) @ S"
    using assms(2) by (simp only: newline_starts_append S_def) (simp add: min_absorb2)
  finally show "line_starts (span_map_new text) = F @ S"
    by (simp add: span_map_new_def F_def)
  show "\<forall>p \<in> set F. unat p \<le> b"
    using newline_starts_bounds [of 0 "take b text"] assms by (auto simp: F_def min_absorb2)
  show "\<forall>p \<in> set S. b < unat p"
    using newline_starts_bounds [of b "drop b text"] assms by (auto simp: S_def)
  show "length F = length (filter (\<lambda>c. c = 10) (take b text)) + 1"
    by (simp add: F_def length_newline_starts)
qed

lemma binary_search_line:
  fixes F S :: "u64 list"
  assumes sorted: "sorted_wrt (<) (F @ S)" and F: "\<forall>p \<in> set F. p \<le> k" "F \<noteq> []"
    and S: "\<forall>p \<in> set S. k < p"
  shows "binary_search (F @ S) k = (if last F = k then Inr (length F - 1) else Inl (length F))"
proof (cases "binary_search (F @ S) k")
  case (Inr i)
  then have i: "i < length (F @ S)" "(F @ S) ! i = k"
    using binary_search_spec [OF sorted, of k] by simp_all
  have iF: "i < length F"
    using i S by (metis length_append nat_add_left_cancel_less not_less nth_append nth_mem
        add_diff_inverse_nat order_less_irrefl)
  have "i = length F - 1"
  proof (rule ccontr)
    assume "i \<noteq> length F - 1"
    with iF have "F ! i < F ! (length F - 1)"
      using sorted by (intro sorted_wrt_nth_less [of "(<)" F]) (auto simp: sorted_wrt_append)
    moreover have "F ! i = k" using i iF by (simp add: nth_append)
    moreover have "F ! (length F - 1) \<le> k" using F by simp
    ultimately show False by simp
  qed
  with i iF F(2) Inr show ?thesis by (simp add: last_conv_nth nth_append)
next
  case (Inl i)
  then have i: "i \<le> length (F @ S)" "\<forall>j < i. (F @ S) ! j < k"
    "\<forall>j. i \<le> j \<and> j < length (F @ S) \<longrightarrow> k < (F @ S) ! j"
    using binary_search_spec [OF sorted, of k] by simp_all
  have "\<not> i < length F"
  proof
    assume "i < length F"
    then have "k < F ! i" using i(3) by (auto simp: nth_append dest: spec [of _ i])
    with \<open>i < length F\<close> F(1) show False by (metis nth_mem not_less)
  qed
  moreover have "\<not> length F < i"
  proof
    assume l: "length F < i"
    with i(1) have "S \<noteq> []" by auto
    with l i(2) have "hd S < k" by (auto simp: nth_append hd_conv_nth dest: spec [of _ "length F"])
    with S \<open>S \<noteq> []\<close> show False by (meson hd_in_set order.asym)
  qed
  ultimately have "i = length F" by simp
  moreover have "last F < k"
    using i(2) F(2) \<open>i = length F\<close> by (auto simp: last_conv_nth nth_append dest: spec [of _ "length F - 1"])
  ultimately show ?thesis using Inl by simp
qed

lemma line_col_spec:
  assumes len: "length text < 2 ^ 32 - 1" and b: "unat byte \<le> length text"
  shows "line_col (span_map_new text) byte =
    Some \<lparr>lc_line = of_nat (length (filter (\<lambda>c. c = 10) (take (unat byte) text)) + 1),
          lc_column = of_nat (length (takeWhile (\<lambda>c. c \<noteq> 10) (rev (take (unat byte) text))) + 1)\<rparr>"
proof -
  define bs where "bs = take (unat byte) text"
  define F where "F = 0 # newline_starts 0 bs"
  define S where "S = newline_starts (unat byte) (drop (unat byte) text)"
  define col where "col = length (takeWhile (\<lambda>c. c \<noteq> 10) (rev bs))"
  have len64: "length text < 2 ^ 64" using len by simp
  have lbs: "length bs = unat byte" using b by (simp add: bs_def)
  note sp = line_starts_split [OF len64 b, folded bs_def, folded F_def, folded S_def]
  have last: "unat (last F) + col = unat byte"
    using last_line_start [of bs] len64 b by (simp add: F_def col_def lbs)
  have "binary_search (F @ S) byte = (if last F = byte then Inr (length F - 1) else Inl (length F))"
    using sp line_starts_sorted [OF len64]
    by (intro binary_search_line) (auto simp: F_def word_le_nat_alt word_less_nat_alt)
  moreover have "length F < 2 ^ 32"
    using len sp(4) length_filter_le [of "\<lambda>c. c = 10" bs] lbs b by simp
  then have "u32_or_max (length F) = of_nat (length F)" by (rule u32_or_max_small)
  moreover have "u32_or_max (unat (saturating_add (saturating_sub byte (last F)) 1)) = of_nat (col + 1)"
  proof -
    have "unat (saturating_add (saturating_sub byte (last F)) 1) = col + 1"
      using last len b by (simp add: unat_saturating_add unat_saturating_sub)
    moreover have "col + 1 < 2 ^ 32" using last len b by simp
    ultimately show ?thesis by (simp add: u32_or_max_small)
  qed
  moreover have "col = 0" if "last F = byte" using last that by simp
  moreover have "vec_get (F @ S) (length F - 1) = Some (last F)"
    by (simp add: F_def last_conv_nth vec_get_def nth_append)
  moreover have "length F \<noteq> 0" by (simp add: F_def)
  ultimately have "line_col (span_map_new text) byte =
      Some \<lparr>lc_line = of_nat (length F), lc_column = of_nat (col + 1)\<rparr>"
    by (simp add: line_col_def sp(1) del: vec_get_in)
  then show ?thesis using sp(4) by (simp add: col_def bs_def)
qed

lemma from_line_starts_new: "span_map_from_line_starts (line_starts (span_map_new text)) = span_map_new text"
  by (simp add: span_map_from_line_starts_def span_map_new_def)

section \<open>Properties\<close>

text \<open>
  For every byte offset of a text shorter than \<open>2 ^ 32 - 1\<close> bytes, \<^verbatim>\<open>line_col\<close> returns without a
  panic; the line is one more than the number of newlines before the offset and the column one
  more than the number of bytes since the last of them.
\<close>

theorem line_col_of_byte:
  assumes "length text < 2 ^ 32 - 1" "unat byte \<le> length text"
  shows "line_col (span_map_new text) byte =
    Some \<lparr>lc_line = of_nat (length (filter (\<lambda>c. c = 10) (take (unat byte) text)) + 1),
          lc_column = of_nat (length (takeWhile (\<lambda>c. c \<noteq> 10) (rev (take (unat byte) text))) + 1)\<rparr>"
  by (rule line_col_spec [OF assms])

theorem line_col_of_byte_witness:
  "line_col (span_map_new [97, 10, 98, 99]) 3 = Some \<lparr>lc_line = 2, lc_column = 2\<rparr>"
  using line_col_of_byte [of "[97, 10, 98, 99]" 3] by simp

text \<open>
  The comparison of spans is a total order, lexicographic in file, start and end; it says \<open>Equal\<close>
  exactly for equal spans and is antisymmetric.
\<close>

theorem span_order_lexicographic:
  "(span_cmp a b = Less \<longleftrightarrow> span_file a < span_file b \<or> span_file a = span_file b \<and>
      (span_start a < span_start b \<or> span_start a = span_start b \<and> span_end a < span_end b))
   \<and> (span_cmp a b = Equal \<longleftrightarrow> a = b) \<and> (span_cmp a b = Greater \<longleftrightarrow> span_cmp b a = Less)"
  by (auto simp: span_cmp_less span_cmp_equal span_cmp_greater less_span_ext_def span_key_def)

end
