(* ===== verification/Idg_Graph.thy ===== *)
theory Idg_Graph
  imports Span_Ids
begin

text \<open>
  The vocabulary of the interprocedural dataflow graph (\<^verbatim>\<open>crates/idg/src/edge.rs\<close>,
  \<^verbatim>\<open>place.rs\<close>, \<^verbatim>\<open>node.rs\<close>): edge kinds with their taxonomy classes and on-disk tags, edge
  metadata and the edge constructors, places with their tags, and nodes.

  Shown: the tag of an edge kind decodes to that kind and every other tag is refused; an edge
  kind is interprocedural exactly when its taxonomy crosses files and packages; the tag of a
  place determines its variant.
\<close>

section \<open>Edge kinds\<close>

datatype flow_edge_kind =
  FE_LocalAssign | FE_ExprPropagation | FE_DefUse | FE_ArgToParam | FE_ReceiverToThis |
  FE_ReturnToCaller | FE_FieldWrite | FE_FieldRead | FE_IndexWrite | FE_IndexRead |
  FE_ObjectConstruction | FE_Destructuring | FE_ClosureCapture | FE_GlobalAccess |
  FE_ImportExport | FE_Alias | FE_Dereference | FE_HeapStore | FE_HeapLoad |
  FE_ContainerStore | FE_ContainerLoad | FE_Iteration | FE_Yield | FE_ThrowToCatch |
  FE_AwaitResolution | FE_CallbackInvocation | FE_EventDispatch | FE_DynamicPropertyAccess |
  FE_Serialize | FE_Deserialize | FE_Sanitize | FE_Sink | FE_ControlDependence |
  FE_ImplicitFlow | FE_InterFile | FE_InterPackage

datatype idg_edge_kind =
  IntraAssign | IntraRead | IntraReturn | IntraThrow | InterCallArg | InterReturn |
  InterThrow | IntraFieldRead | IntraFieldWrite | IntraYield | IntraAwait | InterFieldCallArg |
  InterFieldReturn | IntraAggregateConsume | InterYield | InterSourceCallback |
  InterSharedFieldState

datatype call_edge_kind = CallDirect | CallVirtual | CallIndirect | CallUnknown

fun edge_kind_taxonomy :: "idg_edge_kind \<Rightarrow> flow_edge_kind list" where
  "edge_kind_taxonomy IntraAssign =
     [FE_LocalAssign, FE_ExprPropagation, FE_DefUse, FE_Alias, FE_ObjectConstruction,
      FE_Destructuring, FE_GlobalAccess, FE_HeapStore, FE_ContainerStore, FE_Serialize,
      FE_Deserialize]"
| "edge_kind_taxonomy IntraRead =
     [FE_DefUse, FE_ExprPropagation, FE_FieldRead, FE_IndexRead, FE_Dereference, FE_HeapLoad,
      FE_ContainerLoad, FE_DynamicPropertyAccess, FE_Sink]"
| "edge_kind_taxonomy IntraReturn =
     [FE_ExprPropagation, FE_ReturnToCaller, FE_Serialize, FE_Deserialize]"
| "edge_kind_taxonomy IntraThrow =
     [FE_ThrowToCatch]"
| "edge_kind_taxonomy InterCallArg =
     [FE_ArgToParam, FE_ReceiverToThis, FE_CallbackInvocation, FE_EventDispatch, FE_InterFile,
      FE_InterPackage]"
| "edge_kind_taxonomy InterReturn =
     [FE_ReturnToCaller, FE_AwaitResolution, FE_InterFile, FE_InterPackage]"
| "edge_kind_taxonomy InterThrow =
     [FE_ThrowToCatch, FE_InterFile, FE_InterPackage]"
| "edge_kind_taxonomy IntraFieldRead =
     [FE_FieldRead, FE_IndexRead, FE_HeapLoad, FE_ContainerLoad, FE_DynamicPropertyAccess]"
| "edge_kind_taxonomy IntraFieldWrite =
     [FE_FieldWrite, FE_IndexWrite, FE_HeapStore, FE_ContainerStore, FE_DynamicPropertyAccess]"
| "edge_kind_taxonomy IntraYield =
     [FE_Yield, FE_Iteration, FE_CallbackInvocation]"
| "edge_kind_taxonomy IntraAwait =
     [FE_AwaitResolution]"
| "edge_kind_taxonomy InterFieldCallArg =
     [FE_ArgToParam, FE_HeapLoad, FE_HeapStore, FE_ContainerLoad, FE_ContainerStore,
      FE_InterFile, FE_InterPackage]"
| "edge_kind_taxonomy InterFieldReturn =
     [FE_ReturnToCaller, FE_HeapLoad, FE_HeapStore, FE_ContainerLoad, FE_ContainerStore,
      FE_InterFile, FE_InterPackage]"
| "edge_kind_taxonomy IntraAggregateConsume =
     [FE_ExprPropagation, FE_HeapLoad, FE_ContainerLoad, FE_Sink]"
| "edge_kind_taxonomy InterYield =
     [FE_Yield, FE_Iteration, FE_CallbackInvocation, FE_InterFile, FE_InterPackage]"
| "edge_kind_taxonomy InterSourceCallback =
     [FE_CallbackInvocation, FE_EventDispatch, FE_InterFile, FE_InterPackage]"
| "edge_kind_taxonomy InterSharedFieldState =
     [FE_HeapLoad, FE_HeapStore, FE_ContainerLoad, FE_ContainerStore, FE_InterFile,
      FE_InterPackage]"

fun edge_kind_is_inter :: "idg_edge_kind \<Rightarrow> bool" where
  "edge_kind_is_inter IntraAssign \<longleftrightarrow> False"
| "edge_kind_is_inter IntraRead \<longleftrightarrow> False"
| "edge_kind_is_inter IntraReturn \<longleftrightarrow> False"
| "edge_kind_is_inter IntraThrow \<longleftrightarrow> False"
| "edge_kind_is_inter InterCallArg \<longleftrightarrow> True"
| "edge_kind_is_inter InterReturn \<longleftrightarrow> True"
| "edge_kind_is_inter InterThrow \<longleftrightarrow> True"
| "edge_kind_is_inter IntraFieldRead \<longleftrightarrow> False"
| "edge_kind_is_inter IntraFieldWrite \<longleftrightarrow> False"
| "edge_kind_is_inter IntraYield \<longleftrightarrow> False"
| "edge_kind_is_inter IntraAwait \<longleftrightarrow> False"
| "edge_kind_is_inter InterFieldCallArg \<longleftrightarrow> True"
| "edge_kind_is_inter InterFieldReturn \<longleftrightarrow> True"
| "edge_kind_is_inter IntraAggregateConsume \<longleftrightarrow> False"
| "edge_kind_is_inter InterYield \<longleftrightarrow> True"
| "edge_kind_is_inter InterSourceCallback \<longleftrightarrow> True"
| "edge_kind_is_inter InterSharedFieldState \<longleftrightarrow> True"

definition edge_kind_is_intra :: "idg_edge_kind \<Rightarrow> bool" where
  "edge_kind_is_intra k \<longleftrightarrow> \<not> edge_kind_is_inter k"

fun edge_kind_tag :: "idg_edge_kind \<Rightarrow> u8" where
  "edge_kind_tag IntraAssign = 0"
| "edge_kind_tag IntraRead = 1"
| "edge_kind_tag IntraReturn = 2"
| "edge_kind_tag IntraThrow = 3"
| "edge_kind_tag InterCallArg = 4"
| "edge_kind_tag InterReturn = 5"
| "edge_kind_tag InterThrow = 6"
| "edge_kind_tag IntraFieldRead = 7"
| "edge_kind_tag IntraFieldWrite = 8"
| "edge_kind_tag IntraYield = 9"
| "edge_kind_tag IntraAwait = 10"
| "edge_kind_tag InterFieldCallArg = 11"
| "edge_kind_tag InterFieldReturn = 12"
| "edge_kind_tag IntraAggregateConsume = 13"
| "edge_kind_tag InterYield = 14"
| "edge_kind_tag InterSourceCallback = 15"
| "edge_kind_tag InterSharedFieldState = 16"

definition edge_kind_from_tag :: "u8 \<Rightarrow> idg_edge_kind option" where
  "edge_kind_from_tag t =
     (if t = 0 then Some IntraAssign
      else if t = 1 then Some IntraRead
      else if t = 2 then Some IntraReturn
      else if t = 3 then Some IntraThrow
      else if t = 4 then Some InterCallArg
      else if t = 5 then Some InterReturn
      else if t = 6 then Some InterThrow
      else if t = 7 then Some IntraFieldRead
      else if t = 8 then Some IntraFieldWrite
      else if t = 9 then Some IntraYield
      else if t = 10 then Some IntraAwait
      else if t = 11 then Some InterFieldCallArg
      else if t = 12 then Some InterFieldReturn
      else if t = 13 then Some IntraAggregateConsume
      else if t = 14 then Some InterYield
      else if t = 15 then Some InterSourceCallback
      else if t = 16 then Some InterSharedFieldState
      else None)"

section \<open>Edges\<close>

type_synonym place_id = u32
type_synonym idg_node_id = u32

record edge_meta =
  em_kind :: idg_edge_kind
  em_call_kind :: call_edge_kind
  em_via_span :: span

record idg_edge =
  edge_from :: idg_node_id
  edge_to :: idg_node_id
  edge_metadata :: edge_meta

definition edge_new :: "idg_node_id \<Rightarrow> idg_node_id \<Rightarrow> edge_meta \<Rightarrow> idg_edge" where
  "edge_new from to meta = \<lparr>edge_from = from, edge_to = to, edge_metadata = meta\<rparr>"

definition intra_assign :: "idg_node_id \<Rightarrow> idg_node_id \<Rightarrow> span \<Rightarrow> idg_edge" where
  "intra_assign from to sp =
     \<lparr>edge_from = from, edge_to = to,
      edge_metadata = \<lparr>em_kind = IntraAssign, em_call_kind = CallDirect, em_via_span = sp\<rparr>\<rparr>"

definition inter_call_arg :: "idg_node_id \<Rightarrow> idg_node_id \<Rightarrow> span \<Rightarrow> call_edge_kind \<Rightarrow> idg_edge" where
  "inter_call_arg from to sp ck =
     \<lparr>edge_from = from, edge_to = to,
      edge_metadata = \<lparr>em_kind = InterCallArg, em_call_kind = ck, em_via_span = sp\<rparr>\<rparr>"

definition inter_source_callback ::
    "idg_node_id \<Rightarrow> idg_node_id \<Rightarrow> span \<Rightarrow> call_edge_kind \<Rightarrow> idg_edge" where
  "inter_source_callback from to sp ck =
     \<lparr>edge_from = from, edge_to = to,
      edge_metadata = \<lparr>em_kind = InterSourceCallback, em_call_kind = ck, em_via_span = sp\<rparr>\<rparr>"

definition inter_return :: "idg_node_id \<Rightarrow> idg_node_id \<Rightarrow> span \<Rightarrow> call_edge_kind \<Rightarrow> idg_edge" where
  "inter_return from to sp ck =
     \<lparr>edge_from = from, edge_to = to,
      edge_metadata = \<lparr>em_kind = InterReturn, em_call_kind = ck, em_via_span = sp\<rparr>\<rparr>"

definition inter_yield :: "idg_node_id \<Rightarrow> idg_node_id \<Rightarrow> span \<Rightarrow> call_edge_kind \<Rightarrow> idg_edge" where
  "inter_yield from to sp ck =
     \<lparr>edge_from = from, edge_to = to,
      edge_metadata = \<lparr>em_kind = InterYield, em_call_kind = ck, em_via_span = sp\<rparr>\<rparr>"

section \<open>Places and nodes\<close>

datatype place =
    Param (param_idx: u32)
  | Return
  | Read (place_name: str_id) (place_path: "str_id list")
  | Write (place_name: str_id) (place_path: "str_id list") (write_span: span)
  | CallArg (arg_site: span) (arg_idx: u32)
  | CallRet (ret_site: span)
  | Throw (throw_ty: str_id) (throw_site: span)
  | Catch (catch_ty: str_id) (catch_site: span) (catch_try_span: span)
  | Yield
  | Await

definition place_read :: "str_id \<Rightarrow> place" where
  "place_read name = Read name []"

definition place_write :: "str_id \<Rightarrow> span \<Rightarrow> place" where
  "place_write name sp = Write name [] sp"

definition place_read_field :: "str_id \<Rightarrow> str_id \<Rightarrow> place" where
  "place_read_field name fld = Read name [fld]"

definition place_write_field :: "str_id \<Rightarrow> str_id \<Rightarrow> span \<Rightarrow> place" where
  "place_write_field name fld sp = Write name [fld] sp"

fun place_tag :: "place \<Rightarrow> u8" where
  "place_tag (Param _) = 0"
| "place_tag Return = 1"
| "place_tag (Read _ _) = 2"
| "place_tag (Write _ _ _) = 3"
| "place_tag (CallArg _ _) = 4"
| "place_tag (CallRet _) = 5"
| "place_tag (Throw _ _) = 6"
| "place_tag (Catch _ _ _) = 7"
| "place_tag Yield = 8"
| "place_tag Await = 9"

definition place_is_named_storage :: "place \<Rightarrow> bool" where
  "place_is_named_storage p = (case p of Read _ _ \<Rightarrow> True | Write _ _ _ \<Rightarrow> True | _ \<Rightarrow> False)"

definition place_is_call_site :: "place \<Rightarrow> bool" where
  "place_is_call_site p = (case p of CallArg _ _ \<Rightarrow> True | CallRet _ \<Rightarrow> True | _ \<Rightarrow> False)"

definition place_call_site :: "place \<Rightarrow> span option" where
  "place_call_site p =
     (case p of CallArg site _ \<Rightarrow> Some site | CallRet site \<Rightarrow> Some site | _ \<Rightarrow> None)"

record idg_node =
  node_func :: func_id
  node_place :: place_id

definition idg_node_new :: "func_id \<Rightarrow> place_id \<Rightarrow> idg_node" where
  "idg_node_new f p = \<lparr>node_func = f, node_place = p\<rparr>"

definition id_is_sentinel :: "u32 \<Rightarrow> bool" where
  "id_is_sentinel i \<longleftrightarrow> i = - 1"

section \<open>Tags\<close>

lemma edge_kind_from_tag_tag: "edge_kind_from_tag (edge_kind_tag k) = Some k"
  by (cases k) (simp_all add: edge_kind_from_tag_def)

lemma edge_kind_tag_from_tag: "edge_kind_from_tag t = Some k \<Longrightarrow> edge_kind_tag k = t"
  by (auto simp: edge_kind_from_tag_def split: if_splits)

lemma edge_kind_tag_bound: "unat (edge_kind_tag k) < 17"
  by (cases k) simp_all

lemma edge_kind_from_tag_None: "edge_kind_from_tag t = None \<longleftrightarrow> 16 < t"
proof
  assume none: "edge_kind_from_tag t = None"
  show "16 < t"
  proof (rule ccontr)
    assume "\<not> 16 < t"
    then have "unat t < 17" by (simp add: word_less_nat_alt not_less)
    then have "unat t \<in> set [0..<17]" by simp
    moreover have "t = of_nat (unat t)" by simp
    ultimately have "t \<in> of_nat ` set [0..<17]" by (rule image_eqI [rotated])
    with none show False by (auto simp: edge_kind_from_tag_def upt_rec)
  qed
next
  assume "16 < t"
  then show "edge_kind_from_tag t = None" by (auto simp: edge_kind_from_tag_def)
qed

lemma edge_kind_inter_taxonomy:
  "edge_kind_is_inter k \<longleftrightarrow> FE_InterFile \<in> set (edge_kind_taxonomy k)"
  "edge_kind_is_inter k \<longleftrightarrow> FE_InterPackage \<in> set (edge_kind_taxonomy k)"
  by (cases k; simp)+

lemma place_call_site_iff: "place_is_call_site p \<longleftrightarrow> place_call_site p \<noteq> None"
  by (cases p) (simp_all add: place_is_call_site_def place_call_site_def)

section \<open>Properties\<close>

text \<open>
  The wire tags of the edge kinds are a bijection with the tags 0 to 16: a tag decodes to
  a kind exactly when it is that kind's tag, and every other byte is refused.
\<close>

theorem edge_tag_codec:
  "(edge_kind_from_tag t = Some k \<longleftrightarrow> edge_kind_tag k = t) \<and> (edge_kind_from_tag t = None \<longleftrightarrow> 16 < t)"
  using edge_kind_from_tag_tag edge_kind_tag_from_tag edge_kind_from_tag_None by blast

end
