(* ===== verification/Edge_Csr.thy ===== *)
theory Edge_Csr
  imports Interfaces Idg_Graph
begin

text \<open>
  The compressed sparse-row adjacency of \<^verbatim>\<open>crates/idg/src/csr.rs\<close>: the counting-sort builder
  over edges or pairs, the two in-place builders that read a repeatable pair visitor twice (they
  keep block ends in the offset vector, fill every block from its end and reverse it afterwards),
  the validator for a decoded CSR, and the lookups.

  Offsets and targets are \<^verbatim>\<open>u32\<close> values whose additions wrap as in a release build; the theorems
  about them ask for fewer than \<open>2 ^ 32\<close> edges. A pair visitor is the list of the pairs it
  visits. Shown: every builder produces the one canonical layout \<open>csr_layout\<close>, so that the
  in-place builders agree with the counting-sort builder; the layout passes the validator; and
  a lookup returns exactly the targets of the in-range edges of its node, in edge order.
\<close>

section \<open>The data\<close>

record edge_csr =
  csr_offsets :: "u32 list"
  csr_targets :: "u32 list"
  csr_n_nodes :: nat

section \<open>The counting-sort builder\<close>

text \<open>One pass \<^verbatim>\<open>offsets[i] += 1\<close> over a list of indices.\<close>

fun csr_bump_all :: "u32 list \<Rightarrow> nat list \<Rightarrow> u32 list option" where
  "csr_bump_all offs [] = Some offs"
| "csr_bump_all offs (i # is) = do {
     c \<leftarrow> vec_get offs i;
     offs' \<leftarrow> vec_set offs i (c + 1);
     csr_bump_all offs' is
   }"

text \<open>The loop \<^verbatim>\<open>for i in 1..offsets.len() { offsets[i] += offsets[i - 1] }\<close>.\<close>

fun csr_prefix_sums :: "u32 list \<Rightarrow> nat list \<Rightarrow> u32 list option" where
  "csr_prefix_sums offs [] = Some offs"
| "csr_prefix_sums offs (i # is) = do {
     a \<leftarrow> vec_get offs (i - 1);
     b \<leftarrow> vec_get offs i;
     offs' \<leftarrow> vec_set offs i (b + a);
     csr_prefix_sums offs' is
   }"

text \<open>The second pass: write each target at its source's cursor and advance the cursor.\<close>

fun csr_fill :: "u32 list \<Rightarrow> u32 list \<Rightarrow> (u32 \<times> u32) list \<Rightarrow> (u32 list \<times> u32 list) option" where
  "csr_fill targets cursor [] = Some (targets, cursor)"
| "csr_fill targets cursor ((s, d) # es) = do {
     pos \<leftarrow> vec_get cursor (unat s);
     targets' \<leftarrow> vec_set targets (unat pos) d;
     cursor' \<leftarrow> vec_set cursor (unat s) (pos + 1);
     csr_fill targets' cursor' es
   }"

definition csr_in_range :: "nat \<Rightarrow> u32 \<times> u32 \<Rightarrow> bool" where
  "csr_in_range n = (\<lambda>(s, d). unat s < n \<and> unat d < n)"

definition csr_last_or_zero :: "u32 list \<Rightarrow> u32" where
  "csr_last_or_zero offs = (if offs = [] then 0 else last offs)"

definition csr_build_pairs ::
    "nat \<Rightarrow> (u32 \<times> u32) list \<Rightarrow> (u32 \<times> u32 \<Rightarrow> u32 \<times> u32) \<Rightarrow> edge_csr option" where
  "csr_build_pairs n edges extract =
     (let valid_edges = map extract (filter (\<lambda>e. csr_in_range n (extract e)) edges) in do {
        counts \<leftarrow> csr_bump_all (replicate (n + 1) 0) (map (\<lambda>(s, _). unat s + 1) valid_edges);
        offsets \<leftarrow> csr_prefix_sums counts [1..<length counts];
        let total = unat (csr_last_or_zero offsets);
        (targets, _) \<leftarrow> csr_fill (replicate total 0) offsets valid_edges;
        Some \<lparr>csr_offsets = offsets, csr_targets = targets, csr_n_nodes = n\<rparr>
      })"

definition csr_build :: "nat \<Rightarrow> idg_edge list \<Rightarrow> (idg_edge \<Rightarrow> u32 \<times> u32) \<Rightarrow> edge_csr option" where
  "csr_build n edges extract =
     (let valid_edges = map extract (filter (\<lambda>e. csr_in_range n (extract e)) edges) in do {
        counts \<leftarrow> csr_bump_all (replicate (n + 1) 0) (map (\<lambda>(s, _). unat s + 1) valid_edges);
        offsets \<leftarrow> csr_prefix_sums counts [1..<length counts];
        let total = unat (csr_last_or_zero offsets);
        (targets, _) \<leftarrow> csr_fill (replicate total 0) offsets valid_edges;
        Some \<lparr>csr_offsets = offsets, csr_targets = targets, csr_n_nodes = n\<rparr>
      })"

definition csr_forward :: "nat \<Rightarrow> idg_edge list \<Rightarrow> edge_csr option" where
  "csr_forward n edges = csr_build n edges (\<lambda>e. (edge_from e, edge_to e))"

definition csr_backward :: "nat \<Rightarrow> idg_edge list \<Rightarrow> edge_csr option" where
  "csr_backward n edges = csr_build n edges (\<lambda>e. (edge_to e, edge_from e))"

definition csr_forward_pairs :: "nat \<Rightarrow> (u32 \<times> u32) list \<Rightarrow> edge_csr option" where
  "csr_forward_pairs n edges = csr_build_pairs n edges (\<lambda>(from, to). (from, to))"

definition csr_backward_pairs :: "nat \<Rightarrow> (u32 \<times> u32) list \<Rightarrow> edge_csr option" where
  "csr_backward_pairs n edges = csr_build_pairs n edges (\<lambda>(from, to). (to, from))"

section \<open>The in-place builders over a pair visitor\<close>

text \<open>First visit of the bidirectional builder: count both directions, skipping stray pairs.\<close>

fun csr_visit_count :: "nat \<Rightarrow> u32 list \<Rightarrow> u32 list \<Rightarrow> (u32 \<times> u32) list \<Rightarrow> (u32 list \<times> u32 list) option"
where
  "csr_visit_count n fo bo [] = Some (fo, bo)"
| "csr_visit_count n fo bo ((from, to) # ps) =
     (if n \<le> unat from \<or> n \<le> unat to then csr_visit_count n fo bo ps
      else do {
        f \<leftarrow> vec_get fo (unat from);
        fo' \<leftarrow> vec_set fo (unat from) (f + 1);
        b \<leftarrow> vec_get bo (unat to);
        bo' \<leftarrow> vec_set bo (unat to) (b + 1);
        csr_visit_count n fo' bo' ps
      })"

text \<open>The cumulative loop of the bidirectional builder advances both vectors together.\<close>

fun csr_prefix_sums2 :: "u32 list \<Rightarrow> u32 list \<Rightarrow> nat list \<Rightarrow> (u32 list \<times> u32 list) option" where
  "csr_prefix_sums2 fo bo [] = Some (fo, bo)"
| "csr_prefix_sums2 fo bo (i # is) = do {
     fa \<leftarrow> vec_get fo (i - 1);
     fb \<leftarrow> vec_get fo i;
     fo' \<leftarrow> vec_set fo i (fb + fa);
     ba \<leftarrow> vec_get bo (i - 1);
     bb \<leftarrow> vec_get bo i;
     bo' \<leftarrow> vec_set bo i (bb + ba);
     csr_prefix_sums2 fo' bo' is
   }"

text \<open>One step of the second visit in one direction: step the block end back, then write there.\<close>

definition csr_put_back :: "u32 list \<Rightarrow> u32 list \<Rightarrow> u32 \<Rightarrow> u32 \<Rightarrow> (u32 list \<times> u32 list) option" where
  "csr_put_back offs targets s d = do {
     e \<leftarrow> vec_get offs (unat s);
     offs' \<leftarrow> vec_set offs (unat s) (e - 1);
     targets' \<leftarrow> vec_set targets (unat (e - 1)) d;
     Some (offs', targets')
   }"

fun csr_visit_fill2 ::
    "nat \<Rightarrow> u32 list \<times> u32 list \<Rightarrow> u32 list \<times> u32 list \<Rightarrow> (u32 \<times> u32) list \<Rightarrow>
      ((u32 list \<times> u32 list) \<times> (u32 list \<times> u32 list)) option" where
  "csr_visit_fill2 n f b [] = Some (f, b)"
| "csr_visit_fill2 n f b ((from, to) # ps) =
     (if n \<le> unat from \<or> n \<le> unat to then csr_visit_fill2 n f b ps
      else do {
        f' \<leftarrow> csr_put_back (fst f) (snd f) from to;
        b' \<leftarrow> csr_put_back (fst b) (snd b) to from;
        csr_visit_fill2 n f' b' ps
      })"

text \<open>The closing loop: reverse the block of \<open>targets\<close> between every two adjacent offsets.\<close>

fun csr_reverse_ranges :: "(u32 \<times> u32) list \<Rightarrow> u32 list \<Rightarrow> u32 list option" where
  "csr_reverse_ranges [] targets = Some targets"
| "csr_reverse_ranges ((lo, hi) # rs) targets = do {
     blk \<leftarrow> vec_slice targets (unat lo) (unat hi);
     csr_reverse_ranges rs (take (unat lo) targets @ rev blk @ drop (unat hi) targets)
   }"

definition csr_windows2 :: "'a list \<Rightarrow> ('a \<times> 'a) list" where
  "csr_windows2 xs = zip xs (tl xs)"

definition csr_bidirectional_from_pair_visitor ::
    "nat \<Rightarrow> (u32 \<times> u32) list \<Rightarrow> (edge_csr \<times> edge_csr) option" where
  "csr_bidirectional_from_pair_visitor n pairs = do {
     (fcount, bcount) \<leftarrow> csr_visit_count n (replicate n 0) (replicate n 0) pairs;
     (fends, bends) \<leftarrow> csr_prefix_sums2 fcount bcount [1..<length fcount];
     let ftotal = csr_last_or_zero fends;
     let btotal = csr_last_or_zero bends;
     ((fo, ft), (bo, bt)) \<leftarrow>
       csr_visit_fill2 n (fends, replicate (unat ftotal) 0) (bends, replicate (unat btotal) 0) pairs;
     let forward_offsets = fo @ [ftotal];
     let backward_offsets = bo @ [btotal];
     forward_targets \<leftarrow> csr_reverse_ranges (csr_windows2 forward_offsets) ft;
     backward_targets \<leftarrow> csr_reverse_ranges (csr_windows2 backward_offsets) bt;
     Some (\<lparr>csr_offsets = forward_offsets, csr_targets = forward_targets, csr_n_nodes = n\<rparr>,
           \<lparr>csr_offsets = backward_offsets, csr_targets = backward_targets, csr_n_nodes = n\<rparr>)
   }"

fun csr_visit_count1 :: "nat \<Rightarrow> u32 list \<Rightarrow> (u32 \<times> u32) list \<Rightarrow> u32 list option" where
  "csr_visit_count1 n fo [] = Some fo"
| "csr_visit_count1 n fo ((from, to) # ps) =
     (if n \<le> unat from \<or> n \<le> unat to then csr_visit_count1 n fo ps
      else do {
        f \<leftarrow> vec_get fo (unat from);
        fo' \<leftarrow> vec_set fo (unat from) (f + 1);
        csr_visit_count1 n fo' ps
      })"

fun csr_visit_fill1 ::
    "nat \<Rightarrow> u32 list \<times> u32 list \<Rightarrow> (u32 \<times> u32) list \<Rightarrow> (u32 list \<times> u32 list) option" where
  "csr_visit_fill1 n f [] = Some f"
| "csr_visit_fill1 n f ((from, to) # ps) =
     (if n \<le> unat from \<or> n \<le> unat to then csr_visit_fill1 n f ps
      else do {
        f' \<leftarrow> csr_put_back (fst f) (snd f) from to;
        csr_visit_fill1 n f' ps
      })"

definition csr_forward_from_pair_visitor :: "nat \<Rightarrow> (u32 \<times> u32) list \<Rightarrow> edge_csr option" where
  "csr_forward_from_pair_visitor n pairs = do {
     count \<leftarrow> csr_visit_count1 n (replicate n 0) pairs;
     ends \<leftarrow> csr_prefix_sums count [1..<length count];
     let total = csr_last_or_zero ends;
     (offs, ts) \<leftarrow> csr_visit_fill1 n (ends, replicate (unat total) 0) pairs;
     let offsets = offs @ [total];
     targets \<leftarrow> csr_reverse_ranges (csr_windows2 offsets) ts;
     Some \<lparr>csr_offsets = offsets, csr_targets = targets, csr_n_nodes = n\<rparr>
   }"

definition csr_empty :: "nat \<Rightarrow> edge_csr" where
  "csr_empty n = \<lparr>csr_offsets = replicate (n + 1) 0, csr_targets = [], csr_n_nodes = n\<rparr>"

section \<open>Lookups and validation\<close>

definition csr_edge_count :: "edge_csr \<Rightarrow> nat" where
  "csr_edge_count c = length (csr_targets c)"

definition csr_is_valid_for :: "edge_csr \<Rightarrow> nat \<Rightarrow> bool" where
  "csr_is_valid_for c expected \<longleftrightarrow>
     csr_n_nodes c = expected
     \<and> length (csr_offsets c) = expected + 1
     \<and> (case csr_offsets c of o1 # _ \<Rightarrow> o1 = 0 | [] \<Rightarrow> False)
     \<and> list_all (\<lambda>(a, b). a \<le> b) (csr_windows2 (csr_offsets c))
     \<and> (csr_offsets c \<noteq> [] \<and> unat (last (csr_offsets c)) = length (csr_targets c))
     \<and> list_all (\<lambda>t. unat t < expected) (csr_targets c)"

definition csr_neighbours :: "edge_csr \<Rightarrow> u32 \<Rightarrow> u32 list option" where
  "csr_neighbours c from =
     (let i = unat from in
      if csr_n_nodes c \<le> i then Some []
      else do {
        lo \<leftarrow> vec_get (csr_offsets c) i;
        hi \<leftarrow> vec_get (csr_offsets c) (i + 1);
        vec_slice (csr_targets c) (unat lo) (unat hi)
      })"

definition csr_degree :: "edge_csr \<Rightarrow> u32 \<Rightarrow> nat option" where
  "csr_degree c from =
     (let i = unat from in
      if csr_n_nodes c \<le> i then Some 0
      else do {
        hi \<leftarrow> vec_get (csr_offsets c) (i + 1);
        lo \<leftarrow> vec_get (csr_offsets c) i;
        Some (unat (hi - lo))
      })"

section \<open>The canonical layout\<close>

definition csr_dsts :: "(u32 \<times> u32) list \<Rightarrow> nat \<Rightarrow> u32 list" where
  "csr_dsts ps v = map snd (filter (\<lambda>p. unat (fst p) = v) ps)"

definition csr_base :: "(u32 \<times> u32) list \<Rightarrow> nat \<Rightarrow> nat" where
  "csr_base ps v = length (concat (map (csr_dsts ps) [0..<v]))"

definition csr_layout :: "nat \<Rightarrow> (u32 \<times> u32) list \<Rightarrow> edge_csr" where
  "csr_layout n ps =
     \<lparr>csr_offsets = map (\<lambda>v. of_nat (csr_base ps v)) [0..<n + 1],
      csr_targets = concat (map (csr_dsts ps) [0..<n]), csr_n_nodes = n\<rparr>"

subsection \<open>Blocks of the layout\<close>

lemma csr_dsts_Nil [simp]: "csr_dsts [] v = []"
  by (simp add: csr_dsts_def)

lemma csr_dsts_Cons [simp]:
  "csr_dsts (p # ps) v = (if unat (fst p) = v then snd p # csr_dsts ps v else csr_dsts ps v)"
  by (simp add: csr_dsts_def)

lemma csr_dsts_append [simp]: "csr_dsts (P @ Q) v = csr_dsts P v @ csr_dsts Q v"
  by (simp add: csr_dsts_def)

lemma csr_base_0 [simp]: "csr_base ps 0 = 0"
  by (simp add: csr_base_def)

lemma csr_base_Suc: "csr_base ps (Suc v) = csr_base ps v + length (csr_dsts ps v)"
  by (simp add: csr_base_def)

lemma csr_base_mono: "v \<le> w \<Longrightarrow> csr_base ps v \<le> csr_base ps w"
  by (rule lift_Suc_mono_le [of "csr_base ps"]) (simp_all add: csr_base_Suc)

lemma csr_base_block: "v < w \<Longrightarrow> csr_base ps v + length (csr_dsts ps v) \<le> csr_base ps w"
  using csr_base_mono [of "Suc v" w ps] by (simp add: csr_base_Suc)

lemma csr_base_count: "csr_base ps v = length (filter (\<lambda>p. unat (fst p) < v) ps)"
proof (induction v)
  case (Suc v)
  have "length (filter (\<lambda>p. unat (fst p) < Suc v) ps) =
      length (filter (\<lambda>p. unat (fst p) < v) ps) + length (filter (\<lambda>p. unat (fst p) = v) ps)"
    by (induction ps) auto
  with Suc show ?case by (simp add: csr_base_Suc csr_dsts_def)
qed simp

lemma csr_base_le: "csr_base ps v \<le> length ps"
  by (simp add: csr_base_count)

lemma csr_base_total: "\<forall>p \<in> set ps. unat (fst p) < n \<Longrightarrow> csr_base ps n = length ps"
  by (simp add: csr_base_count)

lemma csr_block_disjoint:
  assumes "v \<noteq> w" "j < length (csr_dsts ps v)" "k < length (csr_dsts ps w)"
  shows "csr_base ps v + j \<noteq> csr_base ps w + k"
  using assms csr_base_block [of v w ps] csr_base_block [of w v ps] by linarith

lemma csr_block_cover:
  "i < csr_base ps n \<Longrightarrow> \<exists>v < n. \<exists>j < length (csr_dsts ps v). i = csr_base ps v + j"
proof (induction n)
  case (Suc n)
  show ?case
  proof (cases "i < csr_base ps n")
    case True
    with Suc.IH show ?thesis using less_Suc_eq by blast
  next
    case False
    with Suc.prems have "i = csr_base ps n + (i - csr_base ps n)" "i - csr_base ps n < length (csr_dsts ps n)"
      by (auto simp: csr_base_Suc)
    then show ?thesis by blast
  qed
qed simp

lemma concat_blocks_nth:
  assumes "\<And>v. length (f v) = length (csr_dsts ps v)" "v < n" "j < length (csr_dsts ps v)"
  shows "concat (map f [0..<n]) ! (csr_base ps v + j) = f v ! j"
  using assms(2)
proof (induction n)
  case (Suc n)
  have len: "length (concat (map f [0..<m])) = csr_base ps m" for m
    by (induction m) (simp_all add: csr_base_Suc assms(1))
  show ?case
  proof (cases "v = n")
    case True
    with len [of n] show ?thesis by (simp add: nth_append)
  next
    case False
    with Suc have "v < n" by simp
    with csr_base_block [of v n ps] assms(3) len [of n] Suc.IH show ?thesis by (simp add: nth_append)
  qed
qed simp

lemma concat_blocks_eqI:
  assumes "\<And>v. length (f v) = length (csr_dsts ps v)" "length t = csr_base ps n"
    and "\<And>v j. v < n \<Longrightarrow> j < length (csr_dsts ps v) \<Longrightarrow> t ! (csr_base ps v + j) = f v ! j"
  shows "t = concat (map f [0..<n])"
proof (rule nth_equalityI)
  show "length t = length (concat (map f [0..<n]))"
    unfolding assms(2) by (induction n) (simp_all add: csr_base_Suc assms(1))
  fix i assume "i < length t"
  with assms(2) csr_block_cover obtain v j
    where "v < n" "j < length (csr_dsts ps v)" "i = csr_base ps v + j" by metis
  with assms show "t ! i = concat (map f [0..<n]) ! i"
    by (simp add: concat_blocks_nth [where f = f and ps = ps])
qed

subsection \<open>Counting and summing\<close>

lemma csr_bump_all_eq:
  "\<forall>i \<in> set is. i < length offs \<Longrightarrow>
   csr_bump_all offs is = Some (map (\<lambda>j. offs ! j + of_nat (count_list is j)) [0..<length offs])"
proof (induction "is" arbitrary: offs)
  case Nil
  then show ?case by (simp add: map_nth)
next
  case (Cons i "is")
  then show ?case by (auto intro!: nth_equalityI simp: nth_list_update)
qed

lemma csr_prefix_sums_eq:
  fixes g :: "nat \<Rightarrow> u32"
  assumes "\<And>j. j \<le> m \<Longrightarrow> j < length offs \<Longrightarrow> offs ! j = g j"
    and "\<And>j. m < j \<Longrightarrow> j < length offs \<Longrightarrow> offs ! j = g j - g (j - 1)"
  shows "csr_prefix_sums offs [Suc m..<length offs] = Some (map g [0..<length offs])"
  using assms
proof (induction "length offs - Suc m" arbitrary: m offs)
  case 0
  then have "map g [0..<length offs] = offs" by (intro nth_equalityI) auto
  with 0 show ?case by simp
next
  case (Suc d)
  define offs' where "offs' = offs[Suc m := offs ! Suc m + offs ! m]"
  from Suc.hyps(2) have lt: "Suc m < length offs" by simp
  have at: "offs' ! Suc m = g (Suc m)"
    using lt Suc.prems(1) [of m] Suc.prems(2) [of "Suc m"] by (simp add: offs'_def)
  have "csr_prefix_sums offs' [Suc (Suc m)..<length offs'] = Some (map g [0..<length offs'])"
  proof (rule Suc.hyps(1))
    show "d = length offs' - Suc (Suc m)" using Suc.hyps(2) by (simp add: offs'_def)
    show "offs' ! j = g j" if "j \<le> Suc m" "j < length offs'" for j
      using that at Suc.prems(1) [of j] by (cases "j = Suc m") (simp_all add: offs'_def)
    show "offs' ! j = g j - g (j - 1)" if "Suc m < j" "j < length offs'" for j
      using that Suc.prems(2) [of j] by (simp add: offs'_def)
  qed
  with lt show ?case
    by (simp add: upt_conv_Cons [of "Suc m"] offs'_def del: upt_Suc)
qed

lemma csr_base_step: "(of_nat (csr_base ps (Suc v)) :: u32) - of_nat (csr_base ps v) = of_nat (length (csr_dsts ps v))"
  by (simp add: csr_base_Suc)

lemma count_list_sources: "count_list (map (\<lambda>(s, _). unat s) ps) v = length (csr_dsts ps v)"
  by (induction ps) auto

lemma count_list_sources1: "count_list (map (\<lambda>(s, _). Suc (unat s)) ps) (Suc v) = length (csr_dsts ps v)"
  by (induction ps) auto

lemma count_list_sources0: "count_list (map (\<lambda>(s, _). Suc (unat s)) ps) 0 = 0"
  by (induction ps) auto

lemma csr_offsets_counted:
  assumes "\<forall>p \<in> set ps. unat (fst p) < n"
  shows "do { counts \<leftarrow> csr_bump_all (replicate (n + 1) 0) (map (\<lambda>(s, _). unat s + 1) ps);
              csr_prefix_sums counts [1..<length counts] } =
         Some (map (\<lambda>v. of_nat (csr_base ps v)) [0..<n + 1])"
proof -
  define counts :: "u32 list" where
    "counts = map (\<lambda>j. of_nat (count_list (map (\<lambda>(s, _). unat s + 1) ps) j)) [0..<n + 1]"
  have c: "csr_bump_all (replicate (n + 1) 0) (map (\<lambda>(s, _). unat s + 1) ps) = Some counts"
    using assms by (subst csr_bump_all_eq) (auto simp: counts_def simp del: replicate_Suc upt_Suc)
  have "csr_prefix_sums counts [Suc 0..<length counts] =
      Some (map (\<lambda>v. of_nat (csr_base ps v)) [0..<length counts])"
  proof (rule csr_prefix_sums_eq)
    show "counts ! j = of_nat (csr_base ps j)" if "j \<le> 0" "j < length counts" for j
      using that by (simp add: counts_def count_list_sources0 del: upt_Suc)
    show "counts ! j = of_nat (csr_base ps j) - of_nat (csr_base ps (j - 1))"
      if "0 < j" "j < length counts" for j
      using that count_list_sources1 [of ps "j - 1"] csr_base_step [of ps "j - 1"]
      by (simp add: counts_def del: upt_Suc)
  qed
  with c show ?thesis by (simp add: counts_def)
qed

lemma csr_ends_counted:
  assumes "\<forall>p \<in> set ps. unat (fst p) < n"
  shows "do { counts \<leftarrow> csr_bump_all (replicate n 0) (map (\<lambda>(s, _). unat s) ps);
              csr_prefix_sums counts [1..<length counts] } =
         Some (map (\<lambda>v. of_nat (csr_base ps (Suc v))) [0..<n])"
proof -
  define counts :: "u32 list" where
    "counts = map (\<lambda>j. of_nat (length (csr_dsts ps j))) [0..<n]"
  have c: "csr_bump_all (replicate n 0) (map (\<lambda>(s, _). unat s) ps) = Some counts"
    using assms by (subst csr_bump_all_eq) (auto simp: counts_def count_list_sources)
  have "csr_prefix_sums counts [Suc 0..<length counts] =
      Some (map (\<lambda>v. of_nat (csr_base ps (Suc v))) [0..<length counts])"
  proof (rule csr_prefix_sums_eq)
    show "counts ! j = of_nat (csr_base ps (Suc j))" if "j \<le> 0" "j < length counts" for j
      using that by (simp add: counts_def csr_base_Suc)
    show "counts ! j = of_nat (csr_base ps (Suc j)) - of_nat (csr_base ps (Suc (j - 1)))"
      if "0 < j" "j < length counts" for j
      using that by (simp add: counts_def csr_base_Suc)
  qed
  with c show ?thesis by (simp add: counts_def)
qed

subsection \<open>Filling the targets\<close>

lemma unat_csr_index:
  assumes "length ps < 2 ^ 32" "k \<le> length ps"
  shows "unat (of_nat k :: u32) = k"
  using assms by (simp add: unat_of_nat_u32)

lemma csr_fill_layout:
  assumes "ps = P @ Q" "length ps < 2 ^ 32" "\<forall>p \<in> set ps. unat (fst p) < n"
    and "n \<le> length c" "length t = csr_base ps n"
    and "\<And>v. v < n \<Longrightarrow> c ! v = of_nat (csr_base ps v + length (csr_dsts P v))"
    and "\<And>v j. v < n \<Longrightarrow> j < length (csr_dsts P v) \<Longrightarrow> t ! (csr_base ps v + j) = csr_dsts P v ! j"
  shows "\<exists>c'. csr_fill t c Q = Some (concat (map (csr_dsts ps) [0..<n]), c')"
  using assms
proof (induction Q arbitrary: P t c)
  case Nil
  then have "t = concat (map (csr_dsts ps) [0..<n])" by (intro concat_blocks_eqI) auto
  then show ?case by simp
next
  case (Cons p Q)
  obtain s d where p: "p = (s, d)" by force
  define pos where "pos = csr_base ps (unat s) + length (csr_dsts P (unat s))"
  have s: "unat s < n" using Cons.prems(1,3) p by auto
  have blk: "length (csr_dsts P (unat s)) < length (csr_dsts ps (unat s))" using Cons.prems(1) p by simp
  then have "pos < csr_base ps n" using csr_base_block [OF s, of ps] by (simp add: pos_def)
  then have pos: "pos < length t" "unat (of_nat pos :: u32) = pos"
    using Cons.prems(2,5) csr_base_le [of ps n] by (auto intro: unat_csr_index)
  have "\<exists>c'. csr_fill (t[pos := d]) (c[unat s := of_nat pos + 1]) Q =
      Some (concat (map (csr_dsts ps) [0..<n]), c')"
  proof (rule Cons.IH [of "P @ [p]"])
    show "(c[unat s := of_nat pos + 1]) ! v = of_nat (csr_base ps v + length (csr_dsts (P @ [p]) v))"
      if "v < n" for v
      using that Cons.prems(4,6) s by (cases "v = unat s") (auto simp: p pos_def)
    show "t[pos := d] ! (csr_base ps v + j) = csr_dsts (P @ [p]) v ! j"
      if v: "v < n" and j: "j < length (csr_dsts (P @ [p]) v)" for v j
    proof (cases "v = unat s \<and> j = length (csr_dsts P v)")
      case True
      with pos show ?thesis by (simp add: p pos_def nth_append)
    next
      case False
      with j have old: "j < length (csr_dsts P v)" by (auto simp: p split: if_splits)
      with Cons.prems(1) have "j < length (csr_dsts ps v)" by simp
      with False old blk have "csr_base ps v + j \<noteq> pos"
        by (cases "v = unat s") (auto simp: pos_def dest: csr_block_disjoint)
      with Cons.prems(7) [OF v old] old show ?thesis by (simp add: nth_append)
    qed
  qed (use Cons.prems p in auto)
  moreover have "c ! unat s = of_nat pos" using Cons.prems(6) [OF s] by (simp add: pos_def)
  ultimately show ?case using p s pos Cons.prems(4) by simp
qed

theorem csr_build_pairs_layout:
  assumes "ps = map extract (filter (\<lambda>e. csr_in_range n (extract e)) edges)" "length ps < 2 ^ 32"
  shows "csr_build_pairs n edges extract = Some (csr_layout n ps)"
proof -
  have src: "\<forall>p \<in> set ps. unat (fst p) < n" using assms(1) by (auto simp: csr_in_range_def)
  define offs :: "u32 list" where "offs = map (\<lambda>v. of_nat (csr_base ps v)) [0..<Suc n]"
  have tot: "unat (csr_last_or_zero offs) = csr_base ps n"
    using assms(2) csr_base_le [of ps n] by (simp add: csr_last_or_zero_def offs_def unat_csr_index)
  obtain c' where "csr_fill (replicate (csr_base ps n) 0) offs ps =
      Some (concat (map (csr_dsts ps) [0..<n]), c')"
    using csr_fill_layout [of ps "[]" ps n offs "replicate (csr_base ps n) 0"] src assms(2)
    by (auto simp: offs_def simp del: upt_Suc)
  with csr_offsets_counted [OF src] tot show ?thesis
    by (cases "csr_bump_all (replicate (n + 1) 0) (map (\<lambda>(s, _). unat s + 1) ps)")
      (simp_all add: csr_build_pairs_def csr_layout_def Let_def flip: assms(1) offs_def del: upt_Suc replicate_Suc)
qed

lemma csr_build_as_pairs: "csr_build n edges extract = csr_build_pairs n (map extract edges) (\<lambda>p. p)"
  by (simp add: csr_build_def csr_build_pairs_def filter_map comp_def)

subsection \<open>The in-place builders\<close>

lemma csr_visit_count1_bump:
  "csr_visit_count1 n fo ps = csr_bump_all fo (map (\<lambda>(s, _). unat s) (filter (csr_in_range n) ps))"
proof (induction ps arbitrary: fo)
  case (Cons p ps)
  then show ?case by (cases p; cases "csr_in_range n p") (auto simp: csr_in_range_def)
qed simp

lemma csr_visit_fill1_filter: "csr_visit_fill1 n f ps = csr_visit_fill1 n f (filter (csr_in_range n) ps)"
proof (induction ps arbitrary: f)
  case (Cons p ps)
  show ?case
    by (cases p; cases "csr_in_range n p") (auto simp: csr_in_range_def Cons.IH [symmetric, unfolded csr_in_range_def])
qed simp

lemma csr_visit_fill1_layout:
  assumes "ps = P @ Q" "length ps < 2 ^ 32" "\<forall>p \<in> set ps. csr_in_range n p"
    and "length offs = n" "length t = csr_base ps n"
    and "\<And>v. v < n \<Longrightarrow> offs ! v = of_nat (csr_base ps (Suc v) - length (csr_dsts P v))"
    and "\<And>v j. v < n \<Longrightarrow> j < length (csr_dsts P v) \<Longrightarrow>
      t ! (csr_base ps v + (length (csr_dsts ps v) - 1 - j)) = csr_dsts P v ! j"
  shows "csr_visit_fill1 n (offs, t) Q =
    Some (map (\<lambda>v. of_nat (csr_base ps v)) [0..<n], concat (map (\<lambda>v. rev (csr_dsts ps v)) [0..<n]))"
  using assms
proof (induction Q arbitrary: P t offs)
  case Nil
  have "t = concat (map (\<lambda>v. rev (csr_dsts ps v)) [0..<n])"
  proof (rule concat_blocks_eqI)
    fix v j assume "v < n" "j < length (csr_dsts ps v)"
    with Nil.prems(1) Nil.prems(7) [of v "length (csr_dsts ps v) - 1 - j"]
    show "t ! (csr_base ps v + j) = rev (csr_dsts ps v) ! j" by (simp add: rev_nth)
  qed (use Nil.prems in auto)
  moreover have "offs = map (\<lambda>v. of_nat (csr_base ps v)) [0..<n]"
    using Nil.prems(1,4,6) by (intro nth_equalityI) (auto simp: csr_base_Suc)
  ultimately show ?case by simp
next
  case (Cons p Q)
  obtain s d where p: "p = (s, d)" by force
  define k where "k = length (csr_dsts P (unat s))"
  define pos where "pos = csr_base ps (unat s) + (length (csr_dsts ps (unat s)) - 1 - k)"
  have rng: "csr_in_range n p" using Cons.prems(1,3) by simp
  then have s: "unat s < n" by (simp add: p csr_in_range_def)
  have blk: "k < length (csr_dsts ps (unat s))" using Cons.prems(1) p by (simp add: k_def)
  then have "pos < csr_base ps n" using csr_base_block [OF s, of ps] by (simp add: pos_def)
  then have pos: "pos < length t" "unat (of_nat pos :: u32) = pos"
    using Cons.prems(2,5) csr_base_le [of ps n] by (auto intro: unat_csr_index)
  have e: "Suc pos = csr_base ps (Suc (unat s)) - k" using blk by (simp add: pos_def csr_base_Suc)
  have "offs ! unat s = of_nat (Suc pos)" unfolding e k_def by (rule Cons.prems(6) [OF s])
  then have cur: "offs ! unat s - 1 = of_nat pos" by simp
  have "csr_visit_fill1 n (offs[unat s := of_nat pos], t[pos := d]) Q =
    Some (map (\<lambda>v. of_nat (csr_base ps v)) [0..<n], concat (map (\<lambda>v. rev (csr_dsts ps v)) [0..<n]))"
  proof (rule Cons.IH [of "P @ [p]"])
    show "offs[unat s := of_nat pos] ! v = of_nat (csr_base ps (Suc v) - length (csr_dsts (P @ [p]) v))"
      if "v < n" for v
      using that Cons.prems(4,6) s blk
      by (cases "v = unat s") (auto simp: p pos_def k_def csr_base_Suc)
    show "t[pos := d] ! (csr_base ps v + (length (csr_dsts ps v) - 1 - j)) = csr_dsts (P @ [p]) v ! j"
      if v: "v < n" and j: "j < length (csr_dsts (P @ [p]) v)" for v j
    proof (cases "v = unat s \<and> j = k")
      case True
      with pos show ?thesis by (simp add: p pos_def k_def nth_append)
    next
      case False
      with j have old: "j < length (csr_dsts P v)" by (auto simp: p k_def split: if_splits)
      with Cons.prems(1) have "j < length (csr_dsts ps v)" by simp
      with False old blk have "csr_base ps v + (length (csr_dsts ps v) - 1 - j) \<noteq> pos"
        using csr_block_disjoint [of v "unat s" "length (csr_dsts ps v) - 1 - j" ps
            "length (csr_dsts ps (unat s)) - 1 - k"]
        by (cases "v = unat s") (auto simp: pos_def k_def)
      with Cons.prems(7) [OF v old] old show ?thesis by (simp add: nth_append)
    qed
  qed (use Cons.prems p in auto)
  with p s pos rng cur Cons.prems(4) show ?case
    by (simp add: csr_put_back_def csr_in_range_def not_le)
qed

lemma csr_windows2_map: "csr_windows2 (map f [m..<Suc n]) = map (\<lambda>v. (f v, f (Suc v))) [m..<n]"
  by (auto simp: csr_windows2_def intro!: nth_equalityI simp: nth_tl simp del: upt_Suc)

lemma csr_reverse_ranges_layout:
  assumes "length ps < 2 ^ 32" "m \<le> n"
  shows "csr_reverse_ranges (map (\<lambda>v. (of_nat (csr_base ps v), of_nat (csr_base ps (Suc v)))) [m..<n])
      (concat (map (csr_dsts ps) [0..<m]) @ concat (map (\<lambda>v. rev (csr_dsts ps v)) [m..<n])) =
    Some (concat (map (csr_dsts ps) [0..<n]))"
  using assms(2)
proof (induction "n - m" arbitrary: m)
  case 0
  then show ?case by simp
next
  case (Suc k)
  then have m: "m < n" by simp
  have len: "length (concat (map (csr_dsts ps) [0..<m])) = csr_base ps m" by (simp add: csr_base_def)
  have ix: "unat (of_nat (csr_base ps v) :: u32) = csr_base ps v" for v
    using unat_csr_index [OF assms(1) csr_base_le] .
  from Suc.hyps(1) [of "Suc m"] Suc.hyps(2) m
  have "csr_reverse_ranges (map (\<lambda>v. (of_nat (csr_base ps v), of_nat (csr_base ps (Suc v)))) [Suc m..<n])
      (concat (map (csr_dsts ps) [0..<m]) @ csr_dsts ps m @
       concat (map (\<lambda>v. rev (csr_dsts ps v)) [Suc m..<n])) =
    Some (concat (map (csr_dsts ps) [0..<n]))" by simp
  moreover define T where
    "T = concat (map (csr_dsts ps) [0..<m]) @ concat (map (\<lambda>v. rev (csr_dsts ps v)) [m..<n])"
  have "vec_slice T (csr_base ps m) (csr_base ps (Suc m)) = Some (rev (csr_dsts ps m))"
    "take (csr_base ps m) T = concat (map (csr_dsts ps) [0..<m])"
    "drop (csr_base ps (Suc m)) T = concat (map (\<lambda>v. rev (csr_dsts ps v)) [Suc m..<n])"
    using m len by (simp_all add: T_def upt_conv_Cons [of m] csr_base_Suc)
  ultimately show ?case
    unfolding T_def [symmetric] unfolding upt_conv_Cons [OF m] by (simp add: ix)
qed

theorem csr_forward_from_pair_visitor_layout:
  assumes "length (filter (csr_in_range n) pairs) < 2 ^ 32"
  shows "csr_forward_from_pair_visitor n pairs = Some (csr_layout n (filter (csr_in_range n) pairs))"
proof -
  define ps where "ps = filter (csr_in_range n) pairs"
  define ends :: "u32 list" where "ends = map (\<lambda>v. of_nat (csr_base ps (Suc v))) [0..<n]"
  define offs :: "u32 list" where "offs = map (\<lambda>v. of_nat (csr_base ps v)) [0..<Suc n]"
  have src: "\<forall>p \<in> set ps. unat (fst p) < n" and rng: "\<forall>p \<in> set ps. csr_in_range n p"
    and len: "length ps < 2 ^ 32"
    using assms by (auto simp: ps_def csr_in_range_def)
  have ends: "do { counts \<leftarrow> csr_visit_count1 n (replicate n 0) pairs;
                   csr_prefix_sums counts [1..<length counts] } = Some ends"
    using csr_ends_counted [OF src] by (simp add: csr_visit_count1_bump ends_def flip: ps_def)
  have tot: "csr_last_or_zero ends = of_nat (csr_base ps n)"
    by (cases n) (simp_all add: ends_def csr_last_or_zero_def)
  have tot': "unat (csr_last_or_zero ends) = csr_base ps n"
    unfolding tot using unat_csr_index [OF len csr_base_le] .
  have fill: "csr_visit_fill1 n (ends, replicate (csr_base ps n) 0) pairs =
      Some (map (\<lambda>v. of_nat (csr_base ps v)) [0..<n], concat (map (\<lambda>v. rev (csr_dsts ps v)) [0..<n]))"
    unfolding csr_visit_fill1_filter [of n _ pairs] ps_def [symmetric]
    by (rule csr_visit_fill1_layout [where P = "[]"]) (use len rng in \<open>auto simp: ends_def\<close>)
  have offs: "map (\<lambda>v. of_nat (csr_base ps v)) [0..<n] @ [csr_last_or_zero ends] = offs"
    by (simp add: offs_def tot)
  have rev: "csr_reverse_ranges (csr_windows2 offs) (concat (map (\<lambda>v. rev (csr_dsts ps v)) [0..<n])) =
      Some (concat (map (csr_dsts ps) [0..<n]))"
    using csr_reverse_ranges_layout [OF len, of 0 n] by (simp add: offs_def csr_windows2_map del: upt_Suc)
  from ends tot' fill offs rev show ?thesis
    by (cases "csr_visit_count1 n (replicate n 0) pairs")
      (simp_all add: csr_forward_from_pair_visitor_def csr_layout_def offs_def Let_def flip: ps_def
        del: upt_Suc)
qed

lemma csr_visit_count_split:
  "csr_visit_count n fo bo ps = do {
     f \<leftarrow> csr_visit_count1 n fo ps;
     b \<leftarrow> csr_visit_count1 n bo (map prod.swap ps);
     Some (f, b) }"
proof (induction ps arbitrary: fo bo)
  case (Cons p ps)
  then show ?case by (cases p) (auto split: bind_splits)
qed simp

lemma csr_prefix_sums2_split:
  "csr_prefix_sums2 fo bo is = do {
     f \<leftarrow> csr_prefix_sums fo is;
     b \<leftarrow> csr_prefix_sums bo is;
     Some (f, b) }"
proof (induction "is" arbitrary: fo bo)
  case (Cons i "is")
  then show ?case by (auto split: bind_splits)
qed simp

lemma csr_visit_fill2_split:
  "csr_visit_fill2 n f b ps = do {
     f' \<leftarrow> csr_visit_fill1 n f ps;
     b' \<leftarrow> csr_visit_fill1 n b (map prod.swap ps);
     Some (f', b') }"
proof (induction ps arbitrary: f b)
  case (Cons p ps)
  then show ?case by (cases p) (auto split: bind_splits)
qed simp

lemma csr_visit_count1_length: "csr_visit_count1 n fo ps = Some f \<Longrightarrow> length f = length fo"
proof (induction ps arbitrary: fo)
  case (Cons p ps)
  then show ?case
    by (cases p) (auto split: if_splits bind_splits simp: vec_set_def)
qed simp

theorem csr_bidirectional_split:
  "csr_bidirectional_from_pair_visitor n pairs = do {
     f \<leftarrow> csr_forward_from_pair_visitor n pairs;
     b \<leftarrow> csr_forward_from_pair_visitor n (map prod.swap pairs);
     Some (f, b) }"
proof (cases "csr_visit_count1 n (replicate n 0) pairs = None
    \<or> csr_visit_count1 n (replicate n 0) (map prod.swap pairs) = None")
  case True
  then show ?thesis
    by (auto simp: csr_bidirectional_from_pair_visitor_def csr_forward_from_pair_visitor_def
        csr_visit_count_split split: bind_splits)
next
  case False
  then obtain f b where fb: "csr_visit_count1 n (replicate n 0) pairs = Some f"
      "csr_visit_count1 n (replicate n 0) (map prod.swap pairs) = Some b" by auto
  then have "length f = n" "length b = n" by (auto dest: csr_visit_count1_length)
  with fb show ?thesis
    unfolding csr_bidirectional_from_pair_visitor_def csr_forward_from_pair_visitor_def
      csr_visit_count_split csr_prefix_sums2_split csr_visit_fill2_split
    by (auto split: bind_splits simp: Let_def split_def)
qed

lemma filter_in_range_swap:
  "filter (csr_in_range n) (map prod.swap ps) = map prod.swap (filter (csr_in_range n) ps)"
  by (induction ps) (auto simp: csr_in_range_def)

section \<open>What a layout promises\<close>

lemma csr_layout_valid:
  assumes "\<forall>p \<in> set ps. csr_in_range n p" "length ps < 2 ^ 32"
  shows "csr_is_valid_for (csr_layout n ps) n"
proof -
  have src: "\<forall>p \<in> set ps. unat (fst p) < n" using assms(1) by (auto simp: csr_in_range_def)
  have ix: "unat (of_nat (csr_base ps v) :: u32) = csr_base ps v" for v
    using unat_csr_index [OF assms(2) csr_base_le] .
  have "case csr_offsets (csr_layout n ps) of o1 # _ \<Rightarrow> o1 = 0 | [] \<Rightarrow> False"
    by (simp add: csr_layout_def upt_conv_Cons [of 0] del: upt_Suc)
  moreover have "list_all (\<lambda>(a, b). a \<le> b) (csr_windows2 (csr_offsets (csr_layout n ps)))"
    by (auto simp: csr_layout_def csr_windows2_map list_all_iff word_le_nat_alt ix csr_base_mono
        simp del: upt_Suc)
  moreover have "list_all (\<lambda>t. unat t < n) (csr_targets (csr_layout n ps))"
    using assms(1) by (auto simp: csr_layout_def list_all_iff csr_dsts_def csr_in_range_def)
  moreover have "length (concat (map (csr_dsts ps) [0..<n])) = csr_base ps n" by (simp add: csr_base_def)
  ultimately show ?thesis by (simp add: csr_is_valid_for_def csr_layout_def ix)
qed

theorem csr_neighbours_layout:
  assumes "length ps < 2 ^ 32" "unat v < n"
  shows "csr_neighbours (csr_layout n ps) v = Some (csr_dsts ps (unat v))"
proof -
  have ix: "unat (of_nat (csr_base ps v) :: u32) = csr_base ps v" for v
    using unat_csr_index [OF assms(1) csr_base_le] .
  have split: "concat (map (csr_dsts ps) [0..<n]) =
      concat (map (csr_dsts ps) [0..<unat v]) @ csr_dsts ps (unat v) @ concat (map (csr_dsts ps) [Suc (unat v)..<n])"
    using assms(2) upt_add_eq_append [of 0 "unat v" "n - unat v"]
    by (simp add: upt_conv_Cons [of "unat v"])
  have "vec_slice (concat (map (csr_dsts ps) [0..<n])) (csr_base ps (unat v)) (csr_base ps (Suc (unat v))) =
      Some (csr_dsts ps (unat v))"
    unfolding split by (simp add: csr_base_Suc) (simp add: csr_base_def)
  with assms(2) show ?thesis by (simp add: csr_neighbours_def csr_layout_def ix del: upt_Suc)
qed

lemma csr_neighbours_out: "csr_n_nodes c \<le> unat v \<Longrightarrow> csr_neighbours c v = Some []"
  by (simp add: csr_neighbours_def)

lemma csr_offsets_sorted:
  "list_all (\<lambda>(a, b). a \<le> b) (csr_windows2 xs) \<Longrightarrow> i \<le> j \<Longrightarrow> j < length xs \<Longrightarrow> xs ! i \<le> (xs ! j :: u32)"
proof (induction "j - i" arbitrary: j)
  case (Suc k)
  then have "xs ! i \<le> xs ! (j - 1)" by simp
  moreover from Suc have "(xs ! (j - 1), xs ! j) \<in> set (csr_windows2 xs)"
    by (cases j) (auto simp: csr_windows2_def in_set_zip nth_tl)
  with Suc.prems(1) have "xs ! (j - 1) \<le> xs ! j" by (auto simp: list_all_iff)
  ultimately show ?case by (rule order.trans)
qed simp

theorem csr_valid_neighbours:
  assumes "csr_is_valid_for c n"
  obtains ts where "csr_neighbours c v = Some ts" "csr_degree c v = Some (length ts)" "\<forall>t \<in> set ts. unat t < n"
proof (cases "unat v < n")
  case True
  from assms have len: "csr_n_nodes c = n" "length (csr_offsets c) = n + 1"
    and win: "list_all (\<lambda>(a, b). a \<le> b) (csr_windows2 (csr_offsets c))"
    and lst: "csr_offsets c \<noteq> []" "unat (last (csr_offsets c)) = length (csr_targets c)"
    and tgt: "list_all (\<lambda>t. unat t < n) (csr_targets c)"
    by (auto simp: csr_is_valid_for_def)
  define lo hi where "lo = csr_offsets c ! unat v" and "hi = csr_offsets c ! Suc (unat v)"
  have le: "lo \<le> hi" "hi \<le> csr_offsets c ! n"
    using csr_offsets_sorted [OF win] True len by (auto simp: lo_def hi_def)
  then have bnd: "unat lo \<le> unat hi" "unat hi \<le> length (csr_targets c)"
    using lst len by (auto simp: word_le_nat_alt last_conv_nth)
  define ts where "ts = take (unat hi - unat lo) (drop (unat lo) (csr_targets c))"
  have "csr_neighbours c v = Some ts" "csr_degree c v = Some (length ts)"
    using True len bnd le
    by (simp_all add: csr_neighbours_def csr_degree_def ts_def unat_sub flip: lo_def hi_def)
  moreover have "\<forall>t \<in> set ts. unat t < n"
    using tgt by (auto simp: ts_def list_all_iff dest!: in_set_takeD in_set_dropD)
  ultimately show thesis by (rule that)
next
  case False
  with assms have "csr_neighbours c v = Some []" "csr_degree c v = Some 0"
    by (auto simp: csr_neighbours_def csr_degree_def csr_is_valid_for_def)
  then show thesis using that by force
qed

section \<open>The adjacency contract\<close>

interpretation csr_adj: adjacency csr_is_valid_for csr_neighbours
  by unfold_locales (metis csr_valid_neighbours)

lemma csr_rel_layout:
  assumes "\<forall>p \<in> set ps. csr_in_range n p" "length ps < 2 ^ 32"
  shows "adj_rel (csr_neighbours (csr_layout n ps)) = {(unat s, unat d) | s d. (s, d) \<in> set ps}"
proof -
  have "csr_neighbours (csr_layout n ps) u = Some (csr_dsts ps (unat u))" for u
  proof (cases "unat u < n")
    case True
    with assms(2) show ?thesis by (rule csr_neighbours_layout)
  next
    case False
    with assms(1) have "csr_dsts ps (unat u) = []"
      by (auto simp: csr_dsts_def filter_empty_conv csr_in_range_def)
    with False show ?thesis by (simp add: csr_neighbours_def csr_layout_def)
  qed
  then show ?thesis
    by (auto simp: adj_rel_def csr_dsts_def word_unat_eq_iff [symmetric]) force
qed

lemma filter_swapped:
  "map prod.swap (filter (\<lambda>e. csr_in_range n (prod.swap e)) ps) = map prod.swap (filter (csr_in_range n) ps)"
  by (induction ps) (auto simp: csr_in_range_def)

lemma csr_pairs_layout:
  assumes "length ps < 2 ^ 32"
  shows "csr_forward_pairs n ps = Some (csr_layout n (filter (csr_in_range n) ps))"
    "csr_backward_pairs n ps = Some (csr_layout n (map prod.swap (filter (csr_in_range n) ps)))"
proof -
  have lt: "length (filter (csr_in_range n) ps) < 2 ^ 32"
    by (rule length_filter_less [OF assms])
  show "csr_forward_pairs n ps = Some (csr_layout n (filter (csr_in_range n) ps))"
    unfolding csr_forward_pairs_def by (rule csr_build_pairs_layout) (use lt in auto)
  have sw: "(\<lambda>(from, to). (to, from)) = (prod.swap :: u32 \<times> u32 \<Rightarrow> _)" by auto
  show "csr_backward_pairs n ps = Some (csr_layout n (map prod.swap (filter (csr_in_range n) ps)))"
    unfolding csr_backward_pairs_def sw
    by (rule csr_build_pairs_layout) (use lt in \<open>auto simp: filter_swapped\<close>)
qed

section \<open>Properties\<close>

text \<open>
  C33: the streaming builder that visits the pairs twice and fills both directions backwards, and the
  builders over a slice of pairs, produce the same two adjacencies for every sequence of fewer than
  \<open>2 ^ 32\<close> pairs, with the pairs out of range dropped; none of them panics.
\<close>

theorem csr_builders_agree:
  assumes "length pairs < 2 ^ 32"
  shows "\<exists>f b. csr_bidirectional_from_pair_visitor n pairs = Some (f, b)
    \<and> csr_forward_pairs n pairs = Some f \<and> csr_backward_pairs n pairs = Some b
    \<and> csr_forward_from_pair_visitor n pairs = Some f"
proof -
  have lt: "length (filter (csr_in_range n) pairs) < 2 ^ 32" by (rule length_filter_less [OF assms])
  show ?thesis
    using lt csr_pairs_layout [OF assms, of n]
    by (simp add: csr_bidirectional_split csr_forward_from_pair_visitor_layout filter_in_range_swap)
qed

theorem csr_builders_agree_witness:
  "\<exists>f b. csr_bidirectional_from_pair_visitor 3 [(0, 1), (0, 2), (9, 1)] = Some (f, b)
    \<and> csr_forward_pairs 3 [(0, 1), (0, 2), (9, 1)] = Some f"
  using csr_builders_agree [of "[(0, 1), (0, 2), (9, 1)]" 3] by auto

text \<open>
  In the adjacency built from a sequence of pairs, the neighbours of a node are the
  targets of its in-range pairs, in the order of the sequence and with their multiplicity.
\<close>

theorem csr_built_neighbours:
  assumes "length pairs < 2 ^ 32" "unat v < n"
  shows "\<exists>c. csr_forward_pairs n pairs = Some c
    \<and> csr_neighbours c v = Some (map snd (filter (\<lambda>(s, d). s = v \<and> unat d < n) pairs))"
proof -
  have lt: "length (filter (csr_in_range n) pairs) < 2 ^ 32" by (rule length_filter_less [OF assms(1)])
  have "csr_dsts (filter (csr_in_range n) pairs) (unat v) = map snd (filter (\<lambda>(s, d). s = v \<and> unat d < n) pairs)"
    using assms(2) by (induction pairs) (auto simp: csr_in_range_def word_unat_eq_iff)
  with csr_pairs_layout(1) [OF assms(1), of n] csr_neighbours_layout [OF lt assms(2)] show ?thesis by simp
qed

theorem csr_built_neighbours_witness:
  "\<exists>c. csr_forward_pairs 3 [(0, 1), (2, 0), (0, 2), (0, 7)] = Some c \<and> csr_neighbours c 0 = Some [1, 2]"
  using csr_built_neighbours [of "[(0, 1), (2, 0), (0, 2), (0, 7)]" 0 3] by simp

text \<open>
  Whatever an adjacency that came from disk holds, once \<^verbatim>\<open>is_valid_for\<close> accepts it no lookup
  panics, the degree is the number of the neighbours, and every neighbour is a node.
\<close>

theorem csr_validated_lookup_safe:
  assumes "csr_is_valid_for c n"
  shows "\<exists>ts. csr_neighbours c v = Some ts \<and> csr_degree c v = Some (length ts) \<and> (\<forall>t \<in> set ts. unat t < n)"
  using csr_valid_neighbours [OF assms, of v] by blast

theorem csr_validated_lookup_safe_witness:
  "\<exists>ts. csr_neighbours \<lparr>csr_offsets = [0, 2, 2], csr_targets = [1, 0], csr_n_nodes = 2\<rparr> 5 = Some ts"
proof -
  have "csr_is_valid_for \<lparr>csr_offsets = [0, 2, 2], csr_targets = [1, 0], csr_n_nodes = 2\<rparr> 2"
    by (simp add: csr_is_valid_for_def csr_windows2_def)
  from csr_validated_lookup_safe [OF this, of 5] show ?thesis by blast
qed

end
