(* ===== verification/Reachability.thy ===== *)
theory Reachability
  imports Node_Bitset Edge_Csr
begin

text \<open>
  Reachability queries over the dependence graph, \<^verbatim>\<open>crates/idg/src/query.rs\<close>: the index of two
  directional adjacencies, the four worklist closures, the bounded neighbourhood, the cut, and
  (with \<open>Path_Search\<close>) the enumeration of paths.

  A \<^verbatim>\<open>Vec\<close> used as a stack is a list whose head is the top. The \<^verbatim>\<open>while\<close> loops are partial
  functions into \<open>option\<close>, so that a panic and a loop that never ends are both \<open>None\<close>; every
  theorem shows the result is \<open>Some\<close>. Shown: the closures compute reflexive-transitive
  reachability (restricted to the allowed nodes where asked), the bounded closure computes
  reachability in at most \<open>k\<close> hops, and the cut is the set of the nodes between the sources and
  the sinks.
\<close>

section \<open>The index\<close>

record reachability_index =
  rix_forward :: edge_csr
  rix_backward :: edge_csr
  rix_n_nodes :: nat

definition rix_new :: "nat \<Rightarrow> idg_edge list \<Rightarrow> reachability_index option" where
  "rix_new n edges = do {
     f \<leftarrow> csr_forward n edges;
     b \<leftarrow> csr_backward n edges;
     Some \<lparr>rix_forward = f, rix_backward = b, rix_n_nodes = n\<rparr>
   }"

definition rix_from_pairs :: "nat \<Rightarrow> (u32 \<times> u32) list \<Rightarrow> reachability_index option" where
  "rix_from_pairs n edges = do {
     f \<leftarrow> csr_forward_pairs n edges;
     b \<leftarrow> csr_backward_pairs n edges;
     Some \<lparr>rix_forward = f, rix_backward = b, rix_n_nodes = n\<rparr>
   }"

definition rix_from_pair_visitor :: "nat \<Rightarrow> (u32 \<times> u32) list \<Rightarrow> reachability_index option" where
  "rix_from_pair_visitor n pairs = do {
     (f, b) \<leftarrow> csr_bidirectional_from_pair_visitor n pairs;
     Some \<lparr>rix_forward = f, rix_backward = b, rix_n_nodes = n\<rparr>
   }"

definition rix_from_forward_pair_visitor :: "nat \<Rightarrow> (u32 \<times> u32) list \<Rightarrow> reachability_index option" where
  "rix_from_forward_pair_visitor n pairs = do {
     f \<leftarrow> csr_forward_from_pair_visitor n pairs;
     Some \<lparr>rix_forward = f, rix_backward = csr_empty n, rix_n_nodes = n\<rparr>
   }"

definition rix_from_pair_edges :: "nat \<Rightarrow> (u32 \<times> u32) list \<Rightarrow> reachability_index option" where
  "rix_from_pair_edges n edges = do {
     f \<leftarrow> csr_forward_pairs n edges;
     b \<leftarrow> csr_backward_pairs n edges;
     Some \<lparr>rix_forward = f, rix_backward = b, rix_n_nodes = n\<rparr>
   }"

definition rix_is_valid_for :: "reachability_index \<Rightarrow> nat \<Rightarrow> bool" where
  "rix_is_valid_for r expected \<longleftrightarrow>
     rix_n_nodes r = expected
     \<and> csr_is_valid_for (rix_forward r) expected
     \<and> csr_is_valid_for (rix_backward r) expected"

section \<open>The worklist closures\<close>

subsection \<open>\<^verbatim>\<open>bitvector_closure\<close>\<close>

definition bvc_seed ::
    "nat \<Rightarrow> node_id \<Rightarrow> node_bit_set \<times> node_id list \<Rightarrow> (node_bit_set \<times> node_id list) option" where
  "bvc_seed n_nodes seed = (\<lambda>(reached, pending).
     if n_nodes \<le> unat seed then Some (reached, pending)
     else do {
       c \<leftarrow> nbs_contains reached seed;
       if c then Some (reached, pending)
       else do { reached' \<leftarrow> nbs_set reached seed; Some (reached', seed # pending) }
     })"

definition bvc_visit ::
    "node_id \<Rightarrow> node_bit_set \<times> node_id list \<Rightarrow> (node_bit_set \<times> node_id list) option" where
  "bvc_visit target = (\<lambda>(reached, pending). do {
     c \<leftarrow> nbs_contains reached target;
     if c then Some (reached, pending)
     else do { reached' \<leftarrow> nbs_set reached target; Some (reached', target # pending) }
   })"

partial_function (option) bvc_loop ::
    "edge_csr \<Rightarrow> node_bit_set \<Rightarrow> node_id list \<Rightarrow> node_bit_set option" where
  "bvc_loop csr reached pending =
     (case pending of
        [] \<Rightarrow> Some reached
      | src # rest \<Rightarrow> do {
          targets \<leftarrow> csr_neighbours csr src;
          st \<leftarrow> for_each bvc_visit targets (reached, rest);
          bvc_loop csr (fst st) (snd st)
        })"

definition bitvector_closure :: "edge_csr \<Rightarrow> nat \<Rightarrow> node_id list \<Rightarrow> node_bit_set option" where
  "bitvector_closure csr n_nodes seeds = do {
     (reached, pending) \<leftarrow> for_each (bvc_seed n_nodes) seeds (nbs_zeros n_nodes, []);
     bvc_loop csr reached pending
   }"

subsection \<open>\<^verbatim>\<open>bitvector_closure_within\<close>\<close>

definition bvcw_seed ::
    "node_bit_set \<Rightarrow> nat \<Rightarrow> node_id \<Rightarrow> node_bit_set \<times> node_id list \<Rightarrow> (node_bit_set \<times> node_id list) option" where
  "bvcw_seed allowed n_nodes seed = (\<lambda>(reached, pending).
     if n_nodes \<le> unat seed then Some (reached, pending)
     else do {
       a \<leftarrow> nbs_contains allowed seed;
       if \<not> a then Some (reached, pending)
       else do {
         c \<leftarrow> nbs_contains reached seed;
         if c then Some (reached, pending)
         else do { reached' \<leftarrow> nbs_set reached seed; Some (reached', seed # pending) }
       }
     })"

definition bvcw_visit ::
    "node_bit_set \<Rightarrow> node_id \<Rightarrow> node_bit_set \<times> node_id list \<Rightarrow> (node_bit_set \<times> node_id list) option" where
  "bvcw_visit allowed target = (\<lambda>(reached, pending). do {
     a \<leftarrow> nbs_contains allowed target;
     if \<not> a then Some (reached, pending)
     else do {
       c \<leftarrow> nbs_contains reached target;
       if c then Some (reached, pending)
       else do { reached' \<leftarrow> nbs_set reached target; Some (reached', target # pending) }
     }
   })"

partial_function (option) bvcw_loop ::
    "edge_csr \<Rightarrow> node_bit_set \<Rightarrow> node_bit_set \<times> node_id list \<Rightarrow> node_bit_set option" where
  "bvcw_loop csr allowed st =
     (case snd st of
        [] \<Rightarrow> Some (fst st)
      | src # rest \<Rightarrow> do {
          targets \<leftarrow> csr_neighbours csr src;
          st' \<leftarrow> for_each (bvcw_visit allowed) targets (fst st, rest);
          bvcw_loop csr allowed st'
        })"

definition bitvector_closure_within ::
    "edge_csr \<Rightarrow> nat \<Rightarrow> node_id list \<Rightarrow> node_bit_set \<Rightarrow> node_bit_set option" where
  "bitvector_closure_within csr n_nodes seeds allowed = do {
     (reached, pending) \<leftarrow> for_each (bvcw_seed allowed n_nodes) seeds (nbs_zeros n_nodes, []);
     bvcw_loop csr allowed (reached, pending)
   }"

subsection \<open>\<^verbatim>\<open>sparse_closure_nodes\<close>\<close>

text \<open>The sparse routines also append every newly reached node to the result vector.\<close>

type_synonym sparse_state = "node_bit_set \<times> node_id list"

definition sc_seed ::
    "nat \<Rightarrow> node_id \<Rightarrow> sparse_state \<times> node_id list \<Rightarrow> (sparse_state \<times> node_id list) option" where
  "sc_seed n_nodes seed = (\<lambda>((reached, reached_nodes), pending).
     if n_nodes \<le> unat seed then Some ((reached, reached_nodes), pending)
     else do {
       c \<leftarrow> nbs_contains reached seed;
       if c then Some ((reached, reached_nodes), pending)
       else do {
         reached' \<leftarrow> nbs_set reached seed;
         Some ((reached', reached_nodes @ [seed]), seed # pending)
       }
     })"

definition sc_visit ::
    "node_id \<Rightarrow> sparse_state \<times> node_id list \<Rightarrow> (sparse_state \<times> node_id list) option" where
  "sc_visit target = (\<lambda>((reached, reached_nodes), pending). do {
     c \<leftarrow> nbs_contains reached target;
     if c then Some ((reached, reached_nodes), pending)
     else do {
       reached' \<leftarrow> nbs_set reached target;
       Some ((reached', reached_nodes @ [target]), target # pending)
     }
   })"

partial_function (option) sc_loop ::
    "edge_csr \<Rightarrow> sparse_state \<Rightarrow> node_id list \<Rightarrow> sparse_state option" where
  "sc_loop csr state pending =
     (case pending of
        [] \<Rightarrow> Some state
      | src # rest \<Rightarrow> do {
          targets \<leftarrow> csr_neighbours csr src;
          st \<leftarrow> for_each sc_visit targets (state, rest);
          sc_loop csr (fst st) (snd st)
        })"

definition sparse_closure_nodes :: "edge_csr \<Rightarrow> nat \<Rightarrow> node_id list \<Rightarrow> node_id list option" where
  "sparse_closure_nodes csr n_nodes seeds = do {
     (state, pending) \<leftarrow> for_each (sc_seed n_nodes) seeds ((nbs_zeros n_nodes, []), []);
     (reached, reached_nodes) \<leftarrow> sc_loop csr state pending;
     Some reached_nodes
   }"

subsection \<open>\<^verbatim>\<open>sparse_closure_nodes_within\<close>\<close>

definition scw_seed ::
    "node_bit_set \<Rightarrow> nat \<Rightarrow> node_id \<Rightarrow> sparse_state \<times> node_id list \<Rightarrow> (sparse_state \<times> node_id list) option" where
  "scw_seed allowed n_nodes seed = (\<lambda>((reached, reached_nodes), pending).
     if n_nodes \<le> unat seed then Some ((reached, reached_nodes), pending)
     else do {
       a \<leftarrow> nbs_contains allowed seed;
       if \<not> a then Some ((reached, reached_nodes), pending)
       else do {
         c \<leftarrow> nbs_contains reached seed;
         if c then Some ((reached, reached_nodes), pending)
         else do {
           reached' \<leftarrow> nbs_set reached seed;
           Some ((reached', reached_nodes @ [seed]), seed # pending)
         }
       }
     })"

definition scw_visit ::
    "node_bit_set \<Rightarrow> node_id \<Rightarrow> sparse_state \<times> node_id list \<Rightarrow> (sparse_state \<times> node_id list) option" where
  "scw_visit allowed target = (\<lambda>((reached, reached_nodes), pending). do {
     a \<leftarrow> nbs_contains allowed target;
     if \<not> a then Some ((reached, reached_nodes), pending)
     else do {
       c \<leftarrow> nbs_contains reached target;
       if c then Some ((reached, reached_nodes), pending)
       else do {
         reached' \<leftarrow> nbs_set reached target;
         Some ((reached', reached_nodes @ [target]), target # pending)
       }
     }
   })"

partial_function (option) scw_loop ::
    "edge_csr \<Rightarrow> node_bit_set \<Rightarrow> sparse_state \<times> node_id list \<Rightarrow> sparse_state option" where
  "scw_loop csr allowed st =
     (case snd st of
        [] \<Rightarrow> Some (fst st)
      | src # rest \<Rightarrow> do {
          targets \<leftarrow> csr_neighbours csr src;
          st' \<leftarrow> for_each (scw_visit allowed) targets (fst st, rest);
          scw_loop csr allowed st'
        })"

definition sparse_closure_nodes_within ::
    "edge_csr \<Rightarrow> nat \<Rightarrow> node_id list \<Rightarrow> node_bit_set \<Rightarrow> node_id list option" where
  "sparse_closure_nodes_within csr n_nodes seeds allowed = do {
     (state, pending) \<leftarrow> for_each (scw_seed allowed n_nodes) seeds ((nbs_zeros n_nodes, []), []);
     (reached, reached_nodes) \<leftarrow> scw_loop csr allowed (state, pending);
     Some reached_nodes
   }"

section \<open>Bounded closure\<close>

text \<open>The inner loops: mark every target of every frontier node.\<close>

definition bbc_expand :: "edge_csr \<Rightarrow> node_id \<Rightarrow> node_bit_set \<Rightarrow> node_bit_set option" where
  "bbc_expand csr src next = do {
     targets \<leftarrow> csr_neighbours csr src;
     for_each (\<lambda>t s. nbs_set s t) targets next
   }"

text \<open>\<^verbatim>\<open>for _ in 0..k_hops\<close>, left early when the frontier is empty.\<close>

fun bbc_loop :: "edge_csr \<Rightarrow> nat \<Rightarrow> nat \<Rightarrow> node_bit_set \<Rightarrow> node_bit_set \<Rightarrow> node_bit_set option" where
  "bbc_loop csr n_nodes 0 reached frontier = Some reached"
| "bbc_loop csr n_nodes (Suc k) reached frontier =
     (if nbs_is_zero frontier then Some reached
      else do {
        srcs \<leftarrow> nbs_elems frontier;
        next \<leftarrow> for_each (bbc_expand csr) srcs (nbs_zeros n_nodes);
        new_frontier \<leftarrow> nbs_difference next reached;
        reached' \<leftarrow> nbs_union_inplace reached new_frontier;
        bbc_loop csr n_nodes k reached' new_frontier
      })"

definition bitvector_bounded_closure ::
    "edge_csr \<Rightarrow> nat \<Rightarrow> node_id list \<Rightarrow> nat \<Rightarrow> node_bit_set option" where
  "bitvector_bounded_closure csr n_nodes seeds k_hops = do {
     reached \<leftarrow> nbs_from_seed n_nodes seeds;
     if k_hops = 0 then Some reached
     else bbc_loop csr n_nodes k_hops reached reached
   }"

section \<open>The queries\<close>

definition forward_closure :: "reachability_index \<Rightarrow> node_id list \<Rightarrow> node_bit_set option" where
  "forward_closure r seeds = bitvector_closure (rix_forward r) (rix_n_nodes r) seeds"

definition forward_closure_nodes :: "reachability_index \<Rightarrow> node_id list \<Rightarrow> node_id list option" where
  "forward_closure_nodes r seeds = sparse_closure_nodes (rix_forward r) (rix_n_nodes r) seeds"

definition forward_neighbours :: "reachability_index \<Rightarrow> node_id \<Rightarrow> u32 list option" where
  "forward_neighbours r node = csr_neighbours (rix_forward r) node"

definition backward_neighbours :: "reachability_index \<Rightarrow> node_id \<Rightarrow> u32 list option" where
  "backward_neighbours r node = csr_neighbours (rix_backward r) node"

definition forward_closure_within ::
    "reachability_index \<Rightarrow> node_id list \<Rightarrow> node_bit_set \<Rightarrow> node_bit_set option" where
  "forward_closure_within r seeds allowed =
     bitvector_closure_within (rix_forward r) (rix_n_nodes r) seeds allowed"

definition forward_closure_nodes_within ::
    "reachability_index \<Rightarrow> node_id list \<Rightarrow> node_bit_set \<Rightarrow> node_id list option" where
  "forward_closure_nodes_within r seeds allowed =
     sparse_closure_nodes_within (rix_forward r) (rix_n_nodes r) seeds allowed"

definition backward_closure :: "reachability_index \<Rightarrow> node_id list \<Rightarrow> node_bit_set option" where
  "backward_closure r seeds = bitvector_closure (rix_backward r) (rix_n_nodes r) seeds"

definition reaches :: "reachability_index \<Rightarrow> node_id \<Rightarrow> node_id \<Rightarrow> bool option" where
  "reaches r src sink = do { forward \<leftarrow> forward_closure r [src]; nbs_contains forward sink }"

definition reachable_from_any :: "reachability_index \<Rightarrow> node_id list \<Rightarrow> node_bit_set option" where
  "reachable_from_any r seeds = forward_closure r seeds"

definition rix_cut :: "reachability_index \<Rightarrow> node_id list \<Rightarrow> node_id list \<Rightarrow> node_bit_set option" where
  "rix_cut r sources sinks = do {
     forward \<leftarrow> forward_closure r sources;
     backward \<leftarrow> backward_closure r sinks;
     nbs_intersect forward backward
   }"

definition forward_neighbourhood :: "reachability_index \<Rightarrow> node_id \<Rightarrow> nat \<Rightarrow> node_bit_set option" where
  "forward_neighbourhood r node k_hops =
     bitvector_bounded_closure (rix_forward r) (rix_n_nodes r) [node] k_hops"

definition backward_neighbourhood :: "reachability_index \<Rightarrow> node_id \<Rightarrow> nat \<Rightarrow> node_bit_set option" where
  "backward_neighbourhood r node k_hops =
     bitvector_bounded_closure (rix_backward r) (rix_n_nodes r) [node] k_hops"

section \<open>The four closures are instances of the worklist kernel\<close>

abbreviation csr_rel :: "edge_csr \<Rightarrow> (nat \<times> nat) set" where
  "csr_rel c \<equiv> adj_rel (csr_neighbours c)"

definition sparse_ok :: "nat \<Rightarrow> sparse_state \<Rightarrow> bool" where
  "sparse_ok n = (\<lambda>(reached, reached_nodes).
     (nbs_wf reached \<and> nbs_len reached = n) \<and> distinct reached_nodes
     \<and> unat ` set reached_nodes = nbs_alpha reached)"

interpretation bvc: closure_kernel csr_is_valid_for csr_neighbours nbs_zeros
  "\<lambda>n s. nbs_wf s \<and> nbs_len s = n" nbs_alpha "\<lambda>_ :: unit. UNIV" "\<lambda>_. True"
  "\<lambda>_. bvc_visit" "\<lambda>_. bvc_seed" "\<lambda>g _. bvc_loop g"
proof unfold_locales
  show "\<exists>s'. bvc_visit t (s, p) = Some (s', t # p) \<and> (nbs_wf s' \<and> nbs_len s' = n) \<and>
      nbs_alpha s' = insert (unat t) (nbs_alpha s)"
    if "nbs_wf s \<and> nbs_len s = n" "unat t < n" "unat t \<notin> nbs_alpha s" for n s t p
    using that nbs.set_alpha [OF that(1,2)] nbs.contains_alpha [OF that(1)] by (auto simp: bvc_visit_def)
  show "bvc_seed n t st = (if unat t < n then bvc_visit t st else Some st)" for n t st
    by (auto simp: bvc_seed_def bvc_visit_def)
  show "bvc_loop g s [] = Some s" for g s by (simp add: bvc_loop.simps)
  show "bvc_loop g s (v # p) = do {
      ts \<leftarrow> csr_neighbours g v;
      (s', p') \<leftarrow> for_each bvc_visit ts (s, p);
      bvc_loop g s' p' }" for g s v p
    by (subst bvc_loop.simps) (simp add: split_def)
qed (auto simp: nbs.zeros_inv nbs.zeros_alpha nbs.contains_alpha bvc_visit_def nbs_alpha_bound)

interpretation bvcw: closure_kernel csr_is_valid_for csr_neighbours nbs_zeros
  "\<lambda>n s. nbs_wf s \<and> nbs_len s = n" nbs_alpha nbs_alpha nbs_wf bvcw_visit bvcw_seed
  "\<lambda>g a s p. bvcw_loop g a (s, p)"
proof unfold_locales
  show "\<exists>s'. bvcw_visit a t (s, p) = Some (s', t # p) \<and> (nbs_wf s' \<and> nbs_len s' = n) \<and>
      nbs_alpha s' = insert (unat t) (nbs_alpha s)"
    if "nbs_wf a" "nbs_wf s \<and> nbs_len s = n" "unat t < n" "unat t \<in> nbs_alpha a" "unat t \<notin> nbs_alpha s"
    for a n s t p
    using that nbs.set_alpha [OF that(2,3)] by (auto simp: bvcw_visit_def nbs_contains_spec)
  show "bvcw_seed a n t st = (if unat t < n then bvcw_visit a t st else Some st)" for a n t st
    by (auto simp: bvcw_seed_def bvcw_visit_def)
  show "bvcw_loop g a (s, []) = Some s" for g a s by (simp add: bvcw_loop.simps)
  show "bvcw_loop g a (s, v # p) = do {
      ts \<leftarrow> csr_neighbours g v;
      (s', p') \<leftarrow> for_each (bvcw_visit a) ts (s, p);
      bvcw_loop g a (s', p') }" for g a s v p
    by (subst bvcw_loop.simps) (simp add: split_def)
qed (auto simp: nbs.zeros_inv nbs.zeros_alpha nbs_contains_spec bvcw_visit_def nbs_alpha_bound)

interpretation sc: closure_kernel csr_is_valid_for csr_neighbours "\<lambda>n. (nbs_zeros n, [])"
  sparse_ok "\<lambda>s. nbs_alpha (fst s)" "\<lambda>_ :: unit. UNIV" "\<lambda>_. True"
  "\<lambda>_. sc_visit" "\<lambda>_. sc_seed" "\<lambda>g _. sc_loop g"
proof unfold_locales
  show "\<exists>s'. sc_visit t (s, p) = Some (s', t # p) \<and> sparse_ok n s' \<and>
      nbs_alpha (fst s') = insert (unat t) (nbs_alpha (fst s))"
    if "sparse_ok n s" "unat t < n" "unat t \<notin> nbs_alpha (fst s)" for n s t p
  proof -
    have inv: "nbs_wf (fst s) \<and> nbs_len (fst s) = n" using that(1) by (auto simp: sparse_ok_def)
    have fresh: "t \<notin> set (snd s)" using that(1) that(3) by (auto simp: sparse_ok_def)
    from nbs.set_alpha [OF inv that(2)] nbs.contains_alpha [OF inv] that fresh show ?thesis
      by (auto simp: sc_visit_def sparse_ok_def split_def)
  qed
  show "sc_seed n t st = (if unat t < n then sc_visit t st else Some st)" for n t st
    by (auto simp: sc_seed_def sc_visit_def split_def)
  show "sc_loop g s [] = Some s" for g s by (simp add: sc_loop.simps)
  show "sc_loop g s (v # p) = do {
      ts \<leftarrow> csr_neighbours g v;
      (s', p') \<leftarrow> for_each sc_visit ts (s, p);
      sc_loop g s' p' }" for g s v p
    by (subst sc_loop.simps) (simp add: split_def)
qed (auto simp: sparse_ok_def nbs.zeros_inv nbs.zeros_alpha nbs_contains_spec sc_visit_def nbs_alpha_bound
    nbs_zeros_spec)

interpretation scw: closure_kernel csr_is_valid_for csr_neighbours "\<lambda>n. (nbs_zeros n, [])"
  sparse_ok "\<lambda>s. nbs_alpha (fst s)" nbs_alpha nbs_wf scw_visit scw_seed
  "\<lambda>g a s p. scw_loop g a (s, p)"
proof unfold_locales
  show "\<exists>s'. scw_visit a t (s, p) = Some (s', t # p) \<and> sparse_ok n s' \<and>
      nbs_alpha (fst s') = insert (unat t) (nbs_alpha (fst s))"
    if "nbs_wf a" "sparse_ok n s" "unat t < n" "unat t \<in> nbs_alpha a" "unat t \<notin> nbs_alpha (fst s)"
    for a n s t p
  proof -
    have inv: "nbs_wf (fst s) \<and> nbs_len (fst s) = n" using that(2) by (auto simp: sparse_ok_def)
    have fresh: "t \<notin> set (snd s)" using that(2) that(5) by (auto simp: sparse_ok_def)
    from nbs.set_alpha [OF inv that(3)] nbs.contains_alpha [OF inv] that fresh show ?thesis
      by (auto simp: scw_visit_def sparse_ok_def split_def nbs_contains_spec)
  qed
  show "scw_seed a n t st = (if unat t < n then scw_visit a t st else Some st)" for a n t st
    by (auto simp: scw_seed_def scw_visit_def split_def)
  show "scw_loop g a (s, []) = Some s" for g a s by (simp add: scw_loop.simps)
  show "scw_loop g a (s, v # p) = do {
      ts \<leftarrow> csr_neighbours g v;
      (s', p') \<leftarrow> for_each (scw_visit a) ts (s, p);
      scw_loop g a (s', p') }" for g a s v p
    by (subst scw_loop.simps) (simp add: split_def)
qed (auto simp: sparse_ok_def nbs_contains_spec scw_visit_def nbs_alpha_bound nbs_zeros_spec)

section \<open>What the closures compute\<close>

lemma bitvector_closure_spec:
  assumes "csr_is_valid_for c n"
  obtains s where "bitvector_closure c n seeds = Some s" "nbs_wf s" "nbs_len s = n"
    "nbs_alpha s = (csr_rel c)\<^sup>* `` (unat ` set seeds \<inter> {..<n})"
  using bvc.closure_correct [OF assms, of seeds] that
  by (auto simp: bitvector_closure_def)

lemma bitvector_closure_within_spec:
  assumes "csr_is_valid_for c n" "nbs_wf a"
  obtains s where "bitvector_closure_within c n seeds a = Some s" "nbs_wf s" "nbs_len s = n"
    "nbs_alpha s = (csr_rel c \<inter> UNIV \<times> nbs_alpha a)\<^sup>* `` (unat ` set seeds \<inter> {..<n} \<inter> nbs_alpha a)"
  using bvcw.closure_correct [OF assms, of seeds] that
  by (auto simp: bitvector_closure_within_def)

lemma sparse_closure_nodes_spec:
  assumes "csr_is_valid_for c n"
  obtains ns where "sparse_closure_nodes c n seeds = Some ns" "distinct ns"
    "unat ` set ns = (csr_rel c)\<^sup>* `` (unat ` set seeds \<inter> {..<n})"
  using sc.closure_correct [OF assms, of seeds] that
  by (auto simp: sparse_closure_nodes_def sparse_ok_def)

lemma sparse_closure_nodes_within_spec:
  assumes "csr_is_valid_for c n" "nbs_wf a"
  obtains ns where "sparse_closure_nodes_within c n seeds a = Some ns" "distinct ns"
    "unat ` set ns = (csr_rel c \<inter> UNIV \<times> nbs_alpha a)\<^sup>* `` (unat ` set seeds \<inter> {..<n} \<inter> nbs_alpha a)"
  using scw.closure_correct [OF assms, of seeds] that
  by (auto simp: sparse_closure_nodes_within_def sparse_ok_def)

subsection \<open>The index holds the edge relation in both directions\<close>

definition pair_rel :: "nat \<Rightarrow> (u32 \<times> u32) list \<Rightarrow> (nat \<times> nat) set" where
  "pair_rel n ps = {(unat s, unat d) | s d. (s, d) \<in> set ps \<and> csr_in_range n (s, d)}"

definition rix_rel :: "nat \<Rightarrow> (nat \<times> nat) set \<Rightarrow> reachability_index \<Rightarrow> bool" where
  "rix_rel n E r \<longleftrightarrow> rix_is_valid_for r n \<and> csr_rel (rix_forward r) = E \<and> csr_rel (rix_backward r) = E\<inverse>"

lemma csr_layouts_rel:
  assumes "length ps < 2 ^ 32" "qs = filter (csr_in_range n) ps"
  shows "rix_rel n (pair_rel n ps)
    \<lparr>rix_forward = csr_layout n qs, rix_backward = csr_layout n (map prod.swap qs), rix_n_nodes = n\<rparr>"
proof -
  have lt: "length qs < 2 ^ 32" "length (map prod.swap qs) < 2 ^ 32"
    using length_filter_less [OF assms(1)] unfolding assms(2) by simp_all
  have rng: "\<forall>p \<in> set qs. csr_in_range n p" "\<forall>p \<in> set (map prod.swap qs). csr_in_range n p"
    using assms(2) by (auto simp: csr_in_range_def)
  show ?thesis
    unfolding rix_rel_def rix_is_valid_for_def
    using csr_layout_valid [OF rng(1) lt(1)] csr_layout_valid [OF rng(2) lt(2)]
      csr_rel_layout [OF rng(1) lt(1)] csr_rel_layout [OF rng(2) lt(2)]
    by (auto simp: pair_rel_def assms(2))
qed

lemma rix_from_pairs_spec:
  assumes "length ps < 2 ^ 32"
  obtains r where "rix_from_pairs n ps = Some r" "rix_rel n (pair_rel n ps) r"
  using csr_layouts_rel [OF assms refl, of n] csr_pairs_layout [OF assms] that
  by (simp add: rix_from_pairs_def)

lemma rix_from_pair_visitor_eq:
  assumes "length ps < 2 ^ 32"
  shows "rix_from_pair_visitor n ps = rix_from_pairs n ps"
proof -
  have lt: "length (filter (csr_in_range n) ps) < 2 ^ 32"
    by (rule length_filter_less [OF assms])
  with csr_pairs_layout [OF assms] show ?thesis
    by (simp add: rix_from_pair_visitor_def rix_from_pairs_def csr_bidirectional_split
        csr_forward_from_pair_visitor_layout filter_in_range_swap)
qed

definition edge_pairs :: "idg_edge list \<Rightarrow> (u32 \<times> u32) list" where
  "edge_pairs es = map (\<lambda>e. (edge_from e, edge_to e)) es"

lemma rix_new_eq: "rix_new n es = rix_from_pairs n (edge_pairs es)"
proof -
  have "csr_forward n es = csr_forward_pairs n (edge_pairs es)"
    by (simp add: csr_forward_def csr_forward_pairs_def csr_build_as_pairs edge_pairs_def id_def)
  moreover have "csr_backward n es = csr_backward_pairs n (edge_pairs es)"
    by (simp add: csr_backward_def csr_backward_pairs_def csr_build_def csr_build_pairs_def
        edge_pairs_def filter_map comp_def)
  ultimately show ?thesis by (simp add: rix_new_def rix_from_pairs_def)
qed

subsection \<open>Queries on a valid index\<close>

lemma forward_closure_spec:
  assumes "rix_rel n E r"
  obtains s where "forward_closure r seeds = Some s" "nbs_wf s" "nbs_len s = n"
    "nbs_alpha s = E\<^sup>* `` (unat ` set seeds \<inter> {..<n})"
  using assms bitvector_closure_spec [of "rix_forward r" n seeds] that
  by (auto simp: rix_rel_def rix_is_valid_for_def forward_closure_def)

lemma backward_closure_spec:
  assumes "rix_rel n E r"
  obtains s where "backward_closure r seeds = Some s" "nbs_wf s" "nbs_len s = n"
    "nbs_alpha s = (E\<inverse>)\<^sup>* `` (unat ` set seeds \<inter> {..<n})"
  using assms bitvector_closure_spec [of "rix_backward r" n seeds] that
  by (auto simp: rix_rel_def rix_is_valid_for_def backward_closure_def)

lemma rix_cut_spec:
  assumes "rix_rel n E r"
  obtains s where "rix_cut r sources sinks = Some s" "nbs_wf s" "nbs_len s = n"
    "nbs_alpha s = {v. \<exists>a \<in> unat ` set sources. \<exists>z \<in> unat ` set sinks.
       a < n \<and> z < n \<and> (a, v) \<in> E\<^sup>* \<and> (v, z) \<in> E\<^sup>*}"
proof -
  obtain f where f: "forward_closure r sources = Some f" "nbs_wf f" "nbs_len f = n"
    "nbs_alpha f = E\<^sup>* `` (unat ` set sources \<inter> {..<n})" by (rule forward_closure_spec [OF assms])
  obtain b where b: "backward_closure r sinks = Some b" "nbs_wf b" "nbs_len b = n"
    "nbs_alpha b = (E\<inverse>)\<^sup>* `` (unat ` set sinks \<inter> {..<n})" by (rule backward_closure_spec [OF assms])
  obtain s where "nbs_intersect f b = Some s" "nbs_wf s" "nbs_len s = n"
      "nbs_alpha s = nbs_alpha f \<inter> nbs_alpha b"
    using nbs_intersect_spec [OF f(2) b(2)] f(3) b(3) by auto
  with f b show thesis by (intro that [of s]) (auto simp: rix_cut_def rtrancl_converse)
qed

subsection \<open>The bounded closure\<close>

fun hop_set :: "(nat \<times> nat) set \<Rightarrow> nat \<Rightarrow> nat set \<Rightarrow> nat set" where
  "hop_set E 0 R = R"
| "hop_set E (Suc k) R = hop_set E k (R \<union> E `` R)"

lemma hop_set_relpow: "hop_set E k R = {b. \<exists>a \<in> R. \<exists>j \<le> k. (a, b) \<in> E ^^ j}"
proof (induction k arbitrary: R)
  case (Suc k)
  have "(\<exists>a \<in> R \<union> E `` R. \<exists>j \<le> k. (a, b) \<in> E ^^ j) \<longleftrightarrow> (\<exists>a \<in> R. \<exists>j \<le> Suc k. (a, b) \<in> E ^^ j)" for b
  proof
    assume "\<exists>a \<in> R \<union> E `` R. \<exists>j \<le> k. (a, b) \<in> E ^^ j"
    then obtain a j where "a \<in> R \<or> (\<exists>c \<in> R. (c, a) \<in> E)" "j \<le> k" "(a, b) \<in> E ^^ j" by auto
    then show "\<exists>a \<in> R. \<exists>j \<le> Suc k. (a, b) \<in> E ^^ j"
      by (metis Suc_le_mono le_SucI relpow_Suc_I2)
  next
    assume "\<exists>a \<in> R. \<exists>j \<le> Suc k. (a, b) \<in> E ^^ j"
    then obtain a j where aj: "a \<in> R" "j \<le> Suc k" "(a, b) \<in> E ^^ j" by auto
    show "\<exists>a \<in> R \<union> E `` R. \<exists>j \<le> k. (a, b) \<in> E ^^ j"
    proof (cases j)
      case 0
      with aj show ?thesis by (intro bexI [of _ a] exI [of _ 0]) auto
    next
      case (Suc i)
      with aj(3) obtain y where "(a, y) \<in> E" "(y, b) \<in> E ^^ i" using relpow_Suc_D2 by metis
      with aj Suc show ?thesis by (intro bexI [of _ y] exI [of _ i]) auto
    qed
  qed
  with Suc show ?case by simp
qed simp

lemma hop_set_closed: "E `` R \<subseteq> R \<Longrightarrow> hop_set E k R = R"
  by (induction k) (simp_all add: Un_absorb2)

lemma for_each_set:
  assumes "nbs_wf s" "\<forall>t \<in> set ts. unat t < nbs_len s"
  shows "\<exists>s'. for_each (\<lambda>t s. nbs_set s t) ts s = Some s' \<and> nbs_wf s' \<and> nbs_len s' = nbs_len s
    \<and> nbs_alpha s' = nbs_alpha s \<union> unat ` set ts"
  using assms
proof (induction ts arbitrary: s)
  case (Cons t ts)
  obtain s1 where s1: "nbs_set s t = Some s1" "nbs_wf s1" "nbs_len s1 = nbs_len s"
      "nbs_alpha s1 = insert (unat t) (nbs_alpha s)"
    using nbs.set_alpha [of s "nbs_len s" t] Cons.prems by auto
  with Cons.IH [of s1] Cons.prems(2) show ?case by auto
qed auto

lemma bbc_expand_all:
  assumes "csr_is_valid_for c n" "nbs_wf s" "nbs_len s = n"
  shows "\<exists>s'. for_each (bbc_expand c) srcs s = Some s' \<and> nbs_wf s' \<and> nbs_len s' = n
    \<and> nbs_alpha s' = nbs_alpha s \<union> csr_rel c `` (unat ` set srcs)"
  using assms(2,3)
proof (induction srcs arbitrary: s)
  case (Cons v srcs)
  obtain ts where ts: "csr_neighbours c v = Some ts" "\<forall>t \<in> set ts. unat t < n"
    using csr_adj.nbrs_total [OF assms(1)] by blast
  obtain s1 where s1: "for_each (\<lambda>t s. nbs_set s t) ts s = Some s1" "nbs_wf s1" "nbs_len s1 = n"
      "nbs_alpha s1 = nbs_alpha s \<union> unat ` set ts"
    using for_each_set [of s ts] Cons.prems ts(2) by auto
  have img: "csr_rel c `` {unat v} = unat ` set ts" by (rule adj_rel_image) (rule ts(1))
  have "csr_rel c `` (unat ` set (v # srcs)) = unat ` set ts \<union> csr_rel c `` (unat ` set srcs)"
    using img by auto
  with Cons.IH [OF s1(2,3)] s1 ts(1) show ?case by (auto simp: bbc_expand_def)
qed auto

lemma bbc_loop_spec:
  assumes "csr_is_valid_for c n" "n \<le> 2 ^ 32"
    and "nbs_wf R" "nbs_len R = n" "nbs_wf F" "nbs_len F = n"
    and "csr_rel c `` nbs_alpha R \<subseteq> nbs_alpha R \<union> csr_rel c `` nbs_alpha F"
    and "nbs_alpha F \<subseteq> nbs_alpha R"
  shows "\<exists>s. bbc_loop c n k R F = Some s \<and> nbs_wf s \<and> nbs_len s = n
    \<and> nbs_alpha s = hop_set (csr_rel c) k (nbs_alpha R)"
  using assms(3-)
proof (induction k arbitrary: R F)
  case (Suc k)
  show ?case
  proof (cases "nbs_is_zero F")
    case True
    with Suc.prems(5) have "hop_set (csr_rel c) k (nbs_alpha R \<union> csr_rel c `` nbs_alpha R) = nbs_alpha R"
      by (simp add: nbs_is_zero_spec Un_absorb2 hop_set_closed)
    with True Suc.prems show ?thesis by simp
  next
    case False
    define srcs :: "u32 list" where "srcs = map of_nat (sorted_list_of_set (nbs_alpha F))"
    have el: "nbs_elems F = Some srcs" unfolding srcs_def by (rule nbs_elems_spec [OF Suc.prems(3)])
    have "unat (of_nat x :: u32) = x" if "x \<in> nbs_alpha F" for x
      using that nbs_alpha_bound [OF Suc.prems(3)] Suc.prems(4) assms(2) by (fastforce intro: unat_of_nat_u32)
    then have src: "unat ` set srcs = nbs_alpha F"
      using nbs_alpha_finite [OF Suc.prems(3)] by (force simp: srcs_def)
    obtain N where N: "for_each (bbc_expand c) srcs (nbs_zeros n) = Some N" "nbs_wf N" "nbs_len N = n"
        "nbs_alpha N = csr_rel c `` nbs_alpha F"
      using bbc_expand_all [OF assms(1) nbs_zeros_spec(1,3), of srcs] src by (auto simp: nbs_zeros_spec)
    obtain F' where F': "nbs_difference N R = Some F'" "nbs_wf F'" "nbs_len F' = n"
        "nbs_alpha F' = nbs_alpha N - nbs_alpha R"
      using nbs_difference_spec [OF N(2) Suc.prems(1)] N(3) Suc.prems(2) by auto
    obtain R' where R': "nbs_union_inplace R F' = Some R'" "nbs_wf R'" "nbs_len R' = n"
        "nbs_alpha R' = nbs_alpha R \<union> nbs_alpha F'"
      using nbs_union_inplace_spec [OF Suc.prems(1) F'(2)] F'(3) Suc.prems(2) by auto
    have "csr_rel c `` nbs_alpha F \<subseteq> csr_rel c `` nbs_alpha R" using Suc.prems(6) by (rule Image_mono [OF order_refl])
    then have eq: "nbs_alpha R' = nbs_alpha R \<union> csr_rel c `` nbs_alpha R"
      unfolding R'(4) F'(4) N(4) using Suc.prems(5) by blast
    have "csr_rel c `` nbs_alpha R' = csr_rel c `` nbs_alpha R \<union> csr_rel c `` nbs_alpha F'"
      unfolding R'(4) by (rule Image_Un)
    then have "csr_rel c `` nbs_alpha R' \<subseteq> nbs_alpha R' \<union> csr_rel c `` nbs_alpha F'"
      using eq by blast
    moreover have "nbs_alpha F' \<subseteq> nbs_alpha R'" using R'(4) by blast
    ultimately obtain s where "bbc_loop c n k R' F' = Some s" "nbs_wf s" "nbs_len s = n"
        "nbs_alpha s = hop_set (csr_rel c) k (nbs_alpha R')"
      using Suc.IH [OF R'(2,3) F'(2,3)] by blast
    with False el N(1) F'(1) R'(1) eq show ?thesis by simp
  qed
qed auto

lemma bitvector_bounded_closure_spec:
  assumes "csr_is_valid_for c n" "n \<le> 2 ^ 32"
  obtains s where "bitvector_bounded_closure c n seeds k = Some s" "nbs_wf s" "nbs_len s = n"
    "nbs_alpha s = hop_set (csr_rel c) k (unat ` set seeds \<inter> {..<n})"
proof -
  obtain R where R: "nbs_from_seed n seeds = Some R" "nbs_wf R" "nbs_len R = n"
      "nbs_alpha R = unat ` set seeds \<inter> {..<n}"
    using nbs_from_seed_spec by blast
  obtain s where "bbc_loop c n k R R = Some s" "nbs_wf s" "nbs_len s = n"
      "nbs_alpha s = hop_set (csr_rel c) k (nbs_alpha R)"
    using bbc_loop_spec [OF assms R(2,3) R(2,3)] by blast
  with R show thesis by (intro that [of s]) (auto simp: bitvector_bounded_closure_def)
qed

section \<open>Properties\<close>

definition edge_rel :: "nat \<Rightarrow> idg_edge list \<Rightarrow> (nat \<times> nat) set" where
  "edge_rel n es = {(unat (edge_from e), unat (edge_to e)) | e.
     e \<in> set es \<and> unat (edge_from e) < n \<and> unat (edge_to e) < n}"

lemma pair_rel_edges: "pair_rel n (edge_pairs es) = edge_rel n es"
  by (auto simp: pair_rel_def edge_pairs_def edge_rel_def csr_in_range_def)

lemma rix_new_spec:
  assumes "length es < 2 ^ 32"
  obtains r where "rix_new n es = Some r" "rix_rel n (edge_rel n es) r"
proof -
  have "length (edge_pairs es) < 2 ^ 32" using assms by (simp add: edge_pairs_def)
  from rix_from_pairs_spec [OF this, of n] that show thesis
    unfolding rix_new_eq pair_rel_edges by blast
qed

definition sample_edges :: "idg_edge list" where
  "sample_edges = [intra_assign 0 1 (span_new 0 0 1), intra_assign 1 2 (span_new 0 2 3), intra_assign 3 1 (span_new 0 4 5)]"

lemma sample_edges_len: "length sample_edges < 2 ^ 32" by (simp add: sample_edges_def)

lemma edge_rel_Nil [simp]: "edge_rel n [] = {}"
  by (simp add: edge_rel_def)

lemma edge_rel_Cons [simp]: "edge_rel n (e # es) =
    (if unat (edge_from e) < n \<and> unat (edge_to e) < n then {(unat (edge_from e), unat (edge_to e))} else {}) \<union> edge_rel n es"
  by (auto simp: edge_rel_def)

lemma sample_edge_rel: "edge_rel 4 sample_edges = {(0, 1), (1, 2), (3, 1)}"
  by (auto simp: sample_edges_def intra_assign_def edge_new_def)

text \<open>
  C10: over the index built from the edges of a graph, the forward closure of a list of seeds
  returns, and its members are exactly the nodes reachable from a seed by the edges in range.
\<close>

theorem forward_reachability:
  assumes "length es < 2 ^ 32"
  shows "\<exists>r s. rix_new n es = Some r \<and> forward_closure r seeds = Some s \<and> nbs_wf s
    \<and> nbs_alpha s = (edge_rel n es)\<^sup>* `` (unat ` set seeds \<inter> {..<n})"
proof -
  obtain r where r: "rix_new n es = Some r" "rix_rel n (edge_rel n es) r" by (rule rix_new_spec [OF assms])
  show ?thesis by (rule forward_closure_spec [OF r(2), of seeds]) (use r(1) in auto)
qed

theorem forward_reachability_witness:
  "\<exists>r s. rix_new 4 sample_edges = Some r \<and> forward_closure r [0] = Some s
    \<and> nbs_alpha s = {(0, 1), (1, 2), (3, 1)}\<^sup>* `` {0}"
proof -
  have z: "unat ` set [0 :: u32] \<inter> {..<4} = {0}" by auto
  show ?thesis using forward_reachability [OF sample_edges_len, of 4 "[0]"] unfolding z sample_edge_rel by auto
qed

text \<open>
  Over the index built from the edges, the backward closure of a list of sinks returns exactly the nodes
  from which a sink is reachable.
\<close>

theorem backward_reachability:
  assumes "length es < 2 ^ 32"
  shows "\<exists>r s. rix_new n es = Some r \<and> backward_closure r sinks = Some s \<and> nbs_wf s
    \<and> nbs_alpha s = {v. \<exists>z \<in> unat ` set sinks. z < n \<and> (v, z) \<in> (edge_rel n es)\<^sup>*}"
proof -
  obtain r where r: "rix_new n es = Some r" "rix_rel n (edge_rel n es) r" by (rule rix_new_spec [OF assms])
  show ?thesis
    by (rule backward_closure_spec [OF r(2), of sinks]) (use r(1) in \<open>auto simp: rtrancl_converse\<close>)
qed

theorem backward_reachability_witness:
  "\<exists>r s. rix_new 4 sample_edges = Some r \<and> backward_closure r [2] = Some s
    \<and> nbs_alpha s = {v. (v, 2) \<in> {(0, 1), (1, 2), (3, 1)}\<^sup>*}"
  using backward_reachability [OF sample_edges_len, of 4 "[2]"] unfolding sample_edge_rel by auto

text \<open>
  C13: the cut of the sources and the sinks returns exactly the nodes that lie between a source and a sink.
\<close>

theorem cut_between:
  assumes "length es < 2 ^ 32"
  shows "\<exists>r s. rix_new n es = Some r \<and> rix_cut r sources sinks = Some s \<and> nbs_wf s
    \<and> nbs_alpha s = {v. \<exists>a \<in> unat ` set sources. \<exists>z \<in> unat ` set sinks.
       a < n \<and> z < n \<and> (a, v) \<in> (edge_rel n es)\<^sup>* \<and> (v, z) \<in> (edge_rel n es)\<^sup>*}"
proof -
  obtain r where r: "rix_new n es = Some r" "rix_rel n (edge_rel n es) r" by (rule rix_new_spec [OF assms])
  show ?thesis by (rule rix_cut_spec [OF r(2), of sources sinks]) (use r(1) in auto)
qed

theorem cut_between_witness:
  "\<exists>r s. rix_new 4 sample_edges = Some r \<and> rix_cut r [0] [2] = Some s
    \<and> nbs_alpha s = {v. (0, v) \<in> {(0, 1), (1, 2), (3, 1)}\<^sup>* \<and> (v, 2) \<in> {(0, 1), (1, 2), (3, 1)}\<^sup>*}"
  using cut_between [OF sample_edges_len, of 4 "[0]" "[2]"] unfolding sample_edge_rel by auto

text \<open>
  \<^verbatim>\<open>reaches\<close> answers whether the sink is reachable from the source, for every source in range.
\<close>

theorem reaches_iff:
  assumes "length es < 2 ^ 32" "unat src < n"
  shows "\<exists>r. rix_new n es = Some r \<and> reaches r src sink = Some ((unat src, unat sink) \<in> (edge_rel n es)\<^sup>*)"
proof -
  obtain r where r: "rix_new n es = Some r" "rix_rel n (edge_rel n es) r" by (rule rix_new_spec [OF assms(1)])
  obtain s where s: "forward_closure r [src] = Some s" "nbs_wf s"
      "nbs_alpha s = (edge_rel n es)\<^sup>* `` (unat ` set [src] \<inter> {..<n})"
    by (rule forward_closure_spec [OF r(2), of "[src]"])
  have "reaches r src sink = Some (unat sink \<in> nbs_alpha s)"
    by (simp add: reaches_def s(1) nbs_contains_spec [OF s(2)])
  moreover have "unat sink \<in> nbs_alpha s \<longleftrightarrow> (unat src, unat sink) \<in> (edge_rel n es)\<^sup>*"
    unfolding s(3) using assms(2) by auto
  ultimately show ?thesis using r(1) by simp
qed

theorem reaches_iff_witness:
  "\<exists>r. rix_new 4 sample_edges = Some r \<and> reaches r 3 2 = Some True"
proof -
  have "(3 :: nat, 2) \<in> {(0, 1), (1, 2), (3, 1)}\<^sup>*"
    by (rule converse_rtrancl_into_rtrancl [of _ 1]) auto
  with reaches_iff [OF sample_edges_len, of 3 4 2] show ?thesis by (simp add: sample_edge_rel)
qed

text \<open>
  On any validated index, the closure restricted to an allowed set returns exactly the nodes
  reachable from an allowed seed through allowed nodes only; the dense and the sparse routine
  agree.
\<close>

theorem reachable_within:
  assumes "rix_is_valid_for r n" "nbs_wf allowed"
  shows "\<exists>s ns. forward_closure_within r seeds allowed = Some s \<and> forward_closure_nodes_within r seeds allowed = Some ns
    \<and> nbs_wf s \<and> distinct ns \<and> unat ` set ns = nbs_alpha s
    \<and> nbs_alpha s = (csr_rel (rix_forward r) \<inter> UNIV \<times> nbs_alpha allowed)\<^sup>* ``
        (unat ` set seeds \<inter> {..<n} \<inter> nbs_alpha allowed)"
proof -
  have v: "csr_is_valid_for (rix_forward r) n" and n: "rix_n_nodes r = n"
    using assms(1) by (auto simp: rix_is_valid_for_def)
  obtain s where "bitvector_closure_within (rix_forward r) n seeds allowed = Some s" "nbs_wf s"
      "nbs_alpha s = (csr_rel (rix_forward r) \<inter> UNIV \<times> nbs_alpha allowed)\<^sup>* ``
        (unat ` set seeds \<inter> {..<n} \<inter> nbs_alpha allowed)"
    by (rule bitvector_closure_within_spec [OF v assms(2), of seeds])
  moreover obtain ns where "sparse_closure_nodes_within (rix_forward r) n seeds allowed = Some ns" "distinct ns"
      "unat ` set ns = (csr_rel (rix_forward r) \<inter> UNIV \<times> nbs_alpha allowed)\<^sup>* ``
        (unat ` set seeds \<inter> {..<n} \<inter> nbs_alpha allowed)"
    by (rule sparse_closure_nodes_within_spec [OF v assms(2), of seeds])
  ultimately show ?thesis by (simp add: forward_closure_within_def forward_closure_nodes_within_def n)
qed

theorem reachable_within_witness:
  "\<exists>r s. rix_new 4 sample_edges = Some r \<and> forward_closure_within r [0] (nbs_zeros 4) = Some s \<and> nbs_alpha s = {}"
proof -
  obtain r where r: "rix_new 4 sample_edges = Some r" "rix_rel 4 (edge_rel 4 sample_edges) r"
    by (rule rix_new_spec [OF sample_edges_len])
  then have "rix_is_valid_for r 4" by (simp add: rix_rel_def)
  from reachable_within [OF this nbs_zeros_spec(1) [of 4], of "[0]"] r(1) show ?thesis
    by (auto simp: nbs_zeros_spec)
qed

text \<open>
  On any validated index the sparse closure lists, without repetition, exactly the members of the dense one.
\<close>

theorem sparse_dense_agree:
  assumes "rix_is_valid_for r n"
  shows "\<exists>s ns. forward_closure r seeds = Some s \<and> forward_closure_nodes r seeds = Some ns
    \<and> distinct ns \<and> unat ` set ns = nbs_alpha s \<and> length ns = nbs_popcount s"
proof -
  have v: "csr_is_valid_for (rix_forward r) n" and n: "rix_n_nodes r = n"
    using assms(1) by (auto simp: rix_is_valid_for_def)
  obtain s where s: "bitvector_closure (rix_forward r) n seeds = Some s"
      "nbs_alpha s = (csr_rel (rix_forward r))\<^sup>* `` (unat ` set seeds \<inter> {..<n})"
    by (rule bitvector_closure_spec [OF v, of seeds])
  obtain ns where ns: "sparse_closure_nodes (rix_forward r) n seeds = Some ns" "distinct ns"
      "unat ` set ns = (csr_rel (rix_forward r))\<^sup>* `` (unat ` set seeds \<inter> {..<n})"
    by (rule sparse_closure_nodes_spec [OF v, of seeds])
  have "card (unat ` set ns) = length ns"
    using ns(2) by (simp add: card_image distinct_card inj_on_def word_unat_eq_iff)
  with s ns show ?thesis
    by (simp add: forward_closure_def forward_closure_nodes_def n nbs_popcount_spec)
qed

theorem sparse_dense_agree_witness:
  "\<exists>r s ns. rix_new 4 sample_edges = Some r \<and> forward_closure r [3] = Some s
    \<and> forward_closure_nodes r [3] = Some ns \<and> unat ` set ns = nbs_alpha s"
proof -
  obtain r where r: "rix_new 4 sample_edges = Some r" "rix_rel 4 (edge_rel 4 sample_edges) r"
    by (rule rix_new_spec [OF sample_edges_len])
  then have "rix_is_valid_for r 4" by (simp add: rix_rel_def)
  from sparse_dense_agree [OF this, of "[3]"] r(1) show ?thesis by auto
qed

text \<open>
  On an index over at most \<open>2 ^ 32\<close> nodes the forward neighbourhood of a node returns exactly the nodes
  at a distance of at most \<open>k\<close> edges, and the backward neighbourhood the same against the edges.
\<close>

theorem bounded_neighbourhood:
  assumes "rix_rel n E r" "n \<le> 2 ^ 32" "unat v < n"
  shows "\<exists>s t. forward_neighbourhood r v k = Some s \<and> backward_neighbourhood r v k = Some t
    \<and> nbs_alpha s = {b. \<exists>j \<le> k. (unat v, b) \<in> E ^^ j} \<and> nbs_alpha t = {b. \<exists>j \<le> k. (unat v, b) \<in> (E\<inverse>) ^^ j}"
proof -
  have v: "csr_is_valid_for (rix_forward r) n" "csr_is_valid_for (rix_backward r) n" "rix_n_nodes r = n"
    and E: "csr_rel (rix_forward r) = E" "csr_rel (rix_backward r) = E\<inverse>"
    using assms(1) by (auto simp: rix_rel_def rix_is_valid_for_def)
  have seed: "unat ` set [v] \<inter> {..<n} = {unat v}" using assms(3) by auto
  obtain s where "bitvector_bounded_closure (rix_forward r) n [v] k = Some s" "nbs_alpha s = hop_set E k {unat v}"
    by (rule bitvector_bounded_closure_spec [OF v(1) assms(2), of "[v]" k]) (simp only: seed E)
  moreover obtain t where "bitvector_bounded_closure (rix_backward r) n [v] k = Some t"
      "nbs_alpha t = hop_set (E\<inverse>) k {unat v}"
    by (rule bitvector_bounded_closure_spec [OF v(2) assms(2), of "[v]" k]) (simp only: seed E)
  ultimately show ?thesis
    by (simp add: forward_neighbourhood_def backward_neighbourhood_def v(3) hop_set_relpow)
qed

theorem bounded_neighbourhood_witness:
  "\<exists>r s. rix_new 4 sample_edges = Some r \<and> forward_neighbourhood r 0 1 = Some s
    \<and> nbs_alpha s = {b. \<exists>j \<le> 1. (0, b) \<in> {(0 :: nat, 1 :: nat), (1, 2), (3, 1)} ^^ j}"
proof -
  obtain r where r: "rix_new 4 sample_edges = Some r" "rix_rel 4 (edge_rel 4 sample_edges) r"
    by (rule rix_new_spec [OF sample_edges_len])
  from bounded_neighbourhood [OF r(2) [unfolded sample_edge_rel], of 0 1] r(1) show ?thesis by auto
qed

text \<open>
  The constructors of the index from edges, from pairs and from a pair visitor build the same index, which is
  valid and holds the edges in both directions.
\<close>

theorem index_constructors_agree:
  assumes "length es < 2 ^ 32"
  shows "\<exists>r. rix_new n es = Some r \<and> rix_from_pairs n (edge_pairs es) = Some r
    \<and> rix_from_pair_visitor n (edge_pairs es) = Some r \<and> rix_from_pair_edges n (edge_pairs es) = Some r
    \<and> rix_is_valid_for r n \<and> csr_rel (rix_forward r) = edge_rel n es
    \<and> csr_rel (rix_backward r) = (edge_rel n es)\<inverse>"
proof -
  obtain r where r: "rix_new n es = Some r" "rix_rel n (edge_rel n es) r" by (rule rix_new_spec [OF assms])
  have "length (edge_pairs es) < 2 ^ 32" using assms by (simp add: edge_pairs_def)
  from rix_from_pair_visitor_eq [OF this, of n] r show ?thesis
    by (simp add: rix_new_eq rix_rel_def rix_from_pair_edges_def rix_from_pairs_def)
qed

theorem index_constructors_agree_witness:
  "\<exists>r. rix_new 4 sample_edges = Some r \<and> rix_from_pair_visitor 4 (edge_pairs sample_edges) = Some r
    \<and> csr_rel (rix_forward r) = {(0, 1), (1, 2), (3, 1)}"
  using index_constructors_agree [OF sample_edges_len, of 4] by (auto simp: sample_edge_rel)

end
