(* ===== verification/Path_Search.thy ===== *)
theory Path_Search
  imports Reachability
begin

text \<open>
  Demand-driven path enumeration, the second half of \<^verbatim>\<open>crates/idg/src/query.rs\<close>: the iterative
  depth-first search \<^verbatim>\<open>enumerate_paths\<close> with its explicit stacks, its two rendering bounds and
  its truncation report (\<^verbatim>\<open>PathTruncation\<close> of \<^verbatim>\<open>crates/callgraph/src/chains.rs\<close>).

  The vectors \<^verbatim>\<open>path\<close> and \<^verbatim>\<open>path_next_edges\<close> are lists whose head is the last element. The proof
  compares the iterative machine with the recursive enumeration \<open>walk\<close>: one step of the machine
  leaves the sequence of the paths emitted and still to be emitted unchanged, and takes one off
  the number of the steps left. Shown: the search returns; it lists simple paths from the source
  to the sink inside the cut, at most as many as asked; and when it reports no truncation it
  lists every one of them.
\<close>

section \<open>The truncation report\<close>

datatype path_truncation = PT_None | PT_MaxDepth | PT_MaxPaths | PT_ProbeBudget

definition is_truncated :: "path_truncation \<Rightarrow> bool" where
  "is_truncated t = (case t of PT_None \<Rightarrow> False | _ \<Rightarrow> True)"

definition truncation_label :: "path_truncation \<Rightarrow> string option" where
  "truncation_label t = (case t of
     PT_None \<Rightarrow> None
   | PT_MaxDepth \<Rightarrow> Some ''max-depth cap''
   | PT_MaxPaths \<Rightarrow> Some ''max-paths cap''
   | PT_ProbeBudget \<Rightarrow> Some ''path-probe budget'')"

section \<open>The iterative search\<close>

record path_search =
  ps_out :: "node_id list list"
  ps_path :: "node_id list"
  ps_next :: "nat list"
  ps_visited :: node_bit_set
  ps_trunc :: path_truncation

text \<open>The test \<^verbatim>\<open>cut.contains(target) && !visited.contains(target)\<close>.\<close>

definition ep_open :: "node_bit_set \<Rightarrow> node_bit_set \<Rightarrow> node_id \<Rightarrow> bool option" where
  "ep_open cut_set visited target = do {
     c \<leftarrow> nbs_contains cut_set target;
     if c then do { v \<leftarrow> nbs_contains visited target; Some (\<not> v) } else Some False
   }"

text \<open>
  The inner \<^verbatim>\<open>while let\<close>: advance the edge cursor to just past the first open target. The list
  is the part of the neighbours from the cursor on.
\<close>

fun ep_select ::
    "node_bit_set \<Rightarrow> node_bit_set \<Rightarrow> node_id list \<Rightarrow> nat \<Rightarrow> (nat \<times> node_id option) option" where
  "ep_select cut_set visited [] next_edge = Some (next_edge, None)"
| "ep_select cut_set visited (target # rest) next_edge = do {
     b \<leftarrow> ep_open cut_set visited target;
     if b then Some (next_edge + 1, Some target)
     else ep_select cut_set visited rest (next_edge + 1)
   }"

text \<open>Leave the current node: clear its mark and pop both stacks.\<close>

definition ep_pop :: "node_id \<Rightarrow> path_search \<Rightarrow> path_search option" where
  "ep_pop cur st = do {
     visited \<leftarrow> nbs_clear (ps_visited st) cur;
     Some (st\<lparr>ps_visited := visited, ps_path := tl (ps_path st), ps_next := tl (ps_next st)\<rparr>)
   }"

definition ep_step ::
    "reachability_index \<Rightarrow> node_bit_set \<Rightarrow> node_id \<Rightarrow> nat \<Rightarrow> path_search \<Rightarrow> path_search option" where
  "ep_step rix cut_set sink max_len st = do {
     cur \<leftarrow> (case ps_path st of [] \<Rightarrow> None | c # _ \<Rightarrow> Some c);
     if cur = sink then ep_pop cur (st\<lparr>ps_out := ps_out st @ [rev (ps_path st)]\<rparr>)
     else do {
       neighbours \<leftarrow> csr_neighbours (rix_forward rix) cur;
       if max_len \<le> length (ps_path st) then do {
         trunc \<leftarrow> (if ps_trunc st = PT_None then do {
                     b \<leftarrow> iter_any (ep_open cut_set (ps_visited st)) neighbours;
                     Some (if b then PT_MaxDepth else ps_trunc st)
                   } else Some (ps_trunc st));
         ep_pop cur (st\<lparr>ps_trunc := trunc\<rparr>)
       } else do {
         next_edge \<leftarrow> (case ps_next st of [] \<Rightarrow> None | e # _ \<Rightarrow> Some e);
         (next_edge', selected) \<leftarrow> ep_select cut_set (ps_visited st) (drop next_edge neighbours) next_edge;
         let st' = st\<lparr>ps_next := next_edge' # tl (ps_next st)\<rparr>;
         case selected of
           Some target \<Rightarrow> do {
             visited \<leftarrow> nbs_set (ps_visited st') target;
             Some (st'\<lparr>ps_visited := visited, ps_path := target # ps_path st', ps_next := 0 # ps_next st'\<rparr>)
           }
         | None \<Rightarrow> ep_pop cur st'
       }
     }
   }"

partial_function (option) ep_loop ::
    "reachability_index \<Rightarrow> node_bit_set \<Rightarrow> node_id \<times> nat \<times> nat \<Rightarrow> path_search \<Rightarrow> path_search option" where
  "ep_loop rix cut_set args st =
     (if ps_path st \<noteq> [] \<and> length (ps_out st) < fst (snd args) then do {
        st' \<leftarrow> ep_step rix cut_set (fst args) (snd (snd args)) st;
        ep_loop rix cut_set args st'
      } else Some st)"

definition enumerate_paths ::
    "reachability_index \<Rightarrow> node_bit_set \<Rightarrow> node_id \<Rightarrow> node_id \<Rightarrow> nat \<Rightarrow> nat \<Rightarrow>
      (node_id list list \<times> path_truncation) option" where
  "enumerate_paths rix cut_set src sink max_paths max_len = do {
     visited \<leftarrow> nbs_set (nbs_zeros (rix_n_nodes rix)) src;
     st \<leftarrow> ep_loop rix cut_set (sink, max_paths, max_len)
       \<lparr>ps_out = [], ps_path = [src], ps_next = [0], ps_visited = visited, ps_trunc = PT_None\<rparr>;
     Some (ps_out st, ps_trunc st)
   }"

definition paths_in_cut_with_truncation ::
    "reachability_index \<Rightarrow> node_id \<Rightarrow> node_id \<Rightarrow> node_bit_set \<Rightarrow> nat \<Rightarrow> nat \<Rightarrow>
      (node_id list list \<times> path_truncation) option" where
  "paths_in_cut_with_truncation r src sink cut_set max_paths max_len = do {
     has_src \<leftarrow> nbs_contains cut_set src;
     has_sink \<leftarrow> (if has_src then nbs_contains cut_set sink else Some False);
     if \<not> has_src \<or> \<not> has_sink then Some ([], PT_None)
     else if max_paths = 0 then Some ([], PT_MaxPaths)
     else if max_len = 0 then Some ([], PT_MaxDepth)
     else do {
       let search_limit = max_paths + 1;
       (out, truncation) \<leftarrow> enumerate_paths r cut_set src sink search_limit max_len;
       if max_paths < length out then Some (take max_paths out, PT_MaxPaths)
       else Some (out, truncation)
     }
   }"

definition paths_in_cut ::
    "reachability_index \<Rightarrow> node_id \<Rightarrow> node_id \<Rightarrow> node_bit_set \<Rightarrow> nat \<Rightarrow> nat \<Rightarrow> node_id list list option" where
  "paths_in_cut r src sink cut_set max_paths max_len = do {
     (out, _) \<leftarrow> paths_in_cut_with_truncation r src sink cut_set max_paths max_len;
     Some out
   }"

definition paths_with_truncation ::
    "reachability_index \<Rightarrow> node_id \<Rightarrow> node_id \<Rightarrow> nat \<Rightarrow> nat \<Rightarrow>
      (node_id list list \<times> path_truncation) option" where
  "paths_with_truncation r src sink max_paths max_len = do {
     c \<leftarrow> rix_cut r [src] [sink];
     paths_in_cut_with_truncation r src sink c max_paths max_len
   }"

definition rix_paths ::
    "reachability_index \<Rightarrow> node_id \<Rightarrow> node_id \<Rightarrow> nat \<Rightarrow> nat \<Rightarrow> node_id list list option" where
  "rix_paths r src sink max_paths max_len = do {
     (out, _) \<leftarrow> paths_with_truncation r src sink max_paths max_len;
     Some out
   }"

section \<open>The recursive enumeration\<close>

text \<open>
  \<open>walk nb C z L P ts\<close>: the search below the stack \<open>P\<close> with the neighbours \<open>ts\<close> of its top still to
  be tried, over the neighbour function \<open>nb\<close>, the cut \<open>C\<close>, the sink \<open>z\<close> and the length bound \<open>L\<close>.
  It yields the paths emitted, whether a depth cut was reported, and the number of machine steps.
\<close>

function walk ::
    "(node_id \<Rightarrow> node_id list) \<Rightarrow> node_id set \<Rightarrow> node_id \<Rightarrow> nat \<Rightarrow> node_id list \<Rightarrow> node_id list \<Rightarrow>
      node_id list list \<times> bool \<times> nat" where
  "walk nb C z L P ts =
     (if hd P = z then ([rev P], False, 1)
      else if L \<le> length P then ([], \<exists>t \<in> set (nb (hd P)). t \<in> C \<and> t \<notin> set P, 1)
      else case ts of
        [] \<Rightarrow> ([], False, 1)
      | t # us \<Rightarrow>
          (if t \<in> C \<and> t \<notin> set P then
             (let (o1, b1, k1) = walk nb C z L (t # P) (nb t); (o2, b2, k2) = walk nb C z L P us in
              (o1 @ o2, b1 \<or> b2, Suc (k1 + k2)))
           else walk nb C z L P us))"
  by pat_completeness auto
termination
  by (relation "measures [\<lambda>(nb, C, z, L, P, ts). L - length P, \<lambda>(nb, C, z, L, P, ts). length ts]") auto

declare walk.simps [simp del]

definition walk_outs where "walk_outs nb C z L P ts = fst (walk nb C z L P ts)"
definition walk_cut where "walk_cut nb C z L P ts = fst (snd (walk nb C z L P ts))"
definition walk_steps where "walk_steps nb C z L P ts = snd (snd (walk nb C z L P ts))"

lemmas walk_parts = walk_outs_def walk_cut_def walk_steps_def

lemma walk_sink:
  "hd P = z \<Longrightarrow> walk nb C z L P ts = ([rev P], False, 1)"
  by (subst walk.simps) simp

lemma walk_deep:
  "hd P \<noteq> z \<Longrightarrow> L \<le> length P \<Longrightarrow>
    walk nb C z L P ts = ([], \<exists>t \<in> set (nb (hd P)). t \<in> C \<and> t \<notin> set P, 1)"
  by (subst walk.simps) simp

lemma walk_Nil: "hd P \<noteq> z \<Longrightarrow> length P < L \<Longrightarrow> walk nb C z L P [] = ([], False, 1)"
  by (subst walk.simps) simp

lemma walk_skip:
  "hd P \<noteq> z \<Longrightarrow> length P < L \<Longrightarrow> \<not> (t \<in> C \<and> t \<notin> set P) \<Longrightarrow>
    walk nb C z L P (t # us) = walk nb C z L P us"
  by (subst walk.simps) (simp del: de_Morgan_conj)

lemma walk_enter:
  assumes "hd P \<noteq> z" "length P < L" "t \<in> C" "t \<notin> set P"
  shows "walk_outs nb C z L P (t # us) = walk_outs nb C z L (t # P) (nb t) @ walk_outs nb C z L P us"
    "walk_cut nb C z L P (t # us) \<longleftrightarrow> walk_cut nb C z L (t # P) (nb t) \<or> walk_cut nb C z L P us"
    "walk_steps nb C z L P (t # us) = Suc (walk_steps nb C z L (t # P) (nb t) + walk_steps nb C z L P us)"
  unfolding walk_parts using assms
  by (simp_all add: walk.simps [of nb C z L P "t # us"] split_def Let_def)

lemma walk_cases_induct [case_names sink deep Nil skip enter]:
  fixes nb :: "node_id \<Rightarrow> node_id list"
  assumes sink: "\<And>P ts. hd P = z \<Longrightarrow> Q P ts"
    and deep: "\<And>P ts. hd P \<noteq> z \<Longrightarrow> L \<le> length P \<Longrightarrow> Q P ts"
    and none: "\<And>P. hd P \<noteq> z \<Longrightarrow> length P < L \<Longrightarrow> Q P []"
    and skip: "\<And>P t us. hd P \<noteq> z \<Longrightarrow> length P < L \<Longrightarrow> \<not> (t \<in> C \<and> t \<notin> set P) \<Longrightarrow> Q P us \<Longrightarrow>
      Q P (t # us)"
    and enter: "\<And>P t us. hd P \<noteq> z \<Longrightarrow> length P < L \<Longrightarrow> t \<in> C \<Longrightarrow> t \<notin> set P \<Longrightarrow>
      Q (t # P) (nb t) \<Longrightarrow> Q P us \<Longrightarrow> Q P (t # us)"
  shows "Q P ts"
proof (induction "L - length P" arbitrary: P ts rule: less_induct)
  case (less P ts)
  show ?case
  proof (induction ts)
    case Nil
    show ?case using sink deep none by (metis not_le)
  next
    case (Cons t us)
    consider "hd P = z" | "hd P \<noteq> z" "L \<le> length P"
      | "hd P \<noteq> z" "length P < L" "\<not> (t \<in> C \<and> t \<notin> set P)"
      | "hd P \<noteq> z" "length P < L" "t \<in> C" "t \<notin> set P" by linarith
    then show ?case
    proof cases
      case 4
      then have "Q (t # P) (nb t)" by (intro less) simp
      with 4 Cons show ?thesis by (intro enter)
    qed (use sink deep skip Cons in auto)
  qed
qed

text \<open>The first open target at or after a cursor.\<close>

fun first_open :: "node_id set \<Rightarrow> node_id list \<Rightarrow> node_id list \<Rightarrow> (node_id \<times> node_id list) option" where
  "first_open C P [] = None"
| "first_open C P (t # us) = (if t \<in> C \<and> t \<notin> set P then Some (t, us) else first_open C P us)"

lemma walk_first_open:
  assumes "hd P \<noteq> z" "length P < L"
  shows "walk nb C z L P ts =
    (case first_open C P ts of None \<Rightarrow> ([], False, 1) | Some (t, us) \<Rightarrow> walk nb C z L P (t # us))"
  using assms by (induction ts) (auto simp: walk_Nil walk_skip)

lemma first_open_Some: "first_open C P ts = Some (t, us) \<Longrightarrow> t \<in> C \<and> t \<notin> set P \<and> t \<in> set ts"
  by (induction ts) (auto split: if_splits)

section \<open>What the recursive enumeration lists\<close>

definition simple_walk :: "(node_id \<Rightarrow> node_id list) \<Rightarrow> node_id set \<Rightarrow> node_id list \<Rightarrow> bool" where
  "simple_walk nb C p \<longleftrightarrow> successively (\<lambda>a b. b \<in> set (nb a) \<and> b \<in> C) p \<and> distinct p"

lemma simple_walk_extend:
  assumes "simple_walk nb C (rev P)" "P \<noteq> []" "t \<in> set (nb (hd P))" "t \<in> C" "t \<notin> set P"
  shows "simple_walk nb C (rev (t # P))"
  using assms by (auto simp: simple_walk_def successively_append_iff last_rev)

lemma walk_outs_sound:
  assumes "simple_walk nb C (rev P)" "P \<noteq> []" "set ts \<subseteq> set (nb (hd P))" "length P \<le> L"
    and "p \<in> set (walk_outs nb C z L P ts)"
  shows "simple_walk nb C p \<and> p \<noteq> [] \<and> hd p = last P \<and> last p = z \<and> length p \<le> L"
  using assms
proof (induction P ts rule: walk_cases_induct [where C = C and z = z and L = L and nb = nb])
  case (enter P t us)
  then have "simple_walk nb C (rev (t # P))" by (intro simple_walk_extend) auto
  with enter show ?case by (auto simp: walk_enter(1))
qed (auto simp: walk_parts walk_sink walk_deep walk_Nil walk_skip hd_rev last_rev)

text \<open>A simple path to the sink whose start is the stack: what its next node looks like.\<close>

lemma simple_walk_next:
  assumes "simple_walk nb C (rev P @ q)" "P \<noteq> []" "last (rev P @ q) = z"
  shows "hd P = z \<Longrightarrow> q = []" "hd P \<noteq> z \<Longrightarrow> q \<noteq> []"
    "q = t # q' \<Longrightarrow> t \<in> set (nb (hd P)) \<and> t \<in> C \<and> t \<notin> set P"
  using assms
  by (cases P; cases q rule: rev_cases; auto simp: simple_walk_def successively_append_iff last_rev)+

lemma walk_outs_complete:
  assumes "simple_walk nb C (rev P @ q)" "P \<noteq> []" "last (rev P @ q) = z" "length (rev P @ q) \<le> L"
    and "q \<noteq> [] \<longrightarrow> hd q \<in> set ts"
  shows "rev P @ q \<in> set (walk_outs nb C z L P ts)"
  using assms
proof (induction P ts arbitrary: q rule: walk_cases_induct [where C = C and z = z and L = L and nb = nb])
  case (sink P ts)
  from simple_walk_next(1) [OF sink(2-4) sink(1)] sink(1) show ?case by (simp add: walk_parts walk_sink)
next
  case (deep P ts)
  then show ?case using simple_walk_next(2) [OF deep(3-5)] by (cases q) auto
next
  case (Nil P)
  then show ?case using simple_walk_next(2) [OF Nil(3-5)] by auto
next
  case (skip P t us)
  from simple_walk_next(2) [OF skip(5-7) skip(1)] obtain t' q' where q: "q = t' # q'"
    by (metis neq_Nil_conv)
  with skip simple_walk_next(3) [OF skip(5-7) q] show ?case
    by (auto simp: walk_parts walk_skip)
next
  case (enter P t us)
  from simple_walk_next(2) [OF enter.prems(1-3) enter.hyps(1)] obtain t' q' where q: "q = t' # q'"
    by (metis neq_Nil_conv)
  show ?case
  proof (cases "t' = t")
    case True
    have "q' \<noteq> [] \<longrightarrow> hd q' \<in> set (nb t)"
      using enter.prems(1) q True by (cases q') (auto simp: simple_walk_def successively_append_iff)
    with enter.IH(1) [of q'] enter.prems q True have "rev (t # P) @ q' \<in> set (walk_outs nb C z L (t # P) (nb t))"
      by simp
    with enter q True show ?thesis by (simp add: walk_enter(1))
  next
    case False
    with enter q show ?thesis by (auto simp: walk_enter(1))
  qed
qed

lemma walk_no_cut:
  assumes "\<not> walk_cut nb C z L P ts" "simple_walk nb C (rev P @ q)" "P \<noteq> []" "last (rev P @ q) = z"
    and "length P \<le> L" "q \<noteq> [] \<longrightarrow> hd q \<in> set ts"
  shows "length (rev P @ q) \<le> L"
  using assms
proof (induction P ts arbitrary: q rule: walk_cases_induct [where C = C and z = z and L = L and nb = nb])
  case (sink P ts)
  from simple_walk_next(1) [OF sink(3-5) sink(1)] sink(6) show ?case by simp
next
  case (deep P ts)
  from simple_walk_next(2) [OF deep(4-6) deep(1)] obtain t q' where q: "q = t # q'" by (metis neq_Nil_conv)
  with deep simple_walk_next(3) [OF deep(4-6) q] show ?case by (auto simp: walk_parts walk_deep)
next
  case (Nil P)
  then show ?case using simple_walk_next(2) [OF Nil(4-6)] by auto
next
  case (skip P t us)
  from simple_walk_next(2) [OF skip(6-8) skip(1)] obtain t' q' where q: "q = t' # q'"
    by (metis neq_Nil_conv)
  have "\<not> walk_cut nb C z L P us" using skip by (simp add: walk_parts walk_skip)
  moreover have "t' \<in> set us" using skip(3) skip.prems(6) simple_walk_next(3) [OF skip(6-8) q] q by auto
  ultimately show ?case using skip.prems q by (intro skip.IH) auto
next
  case (enter P t us)
  from simple_walk_next(2) [OF enter.prems(2-4) enter.hyps(1)] obtain t' q' where q: "q = t' # q'"
    by (metis neq_Nil_conv)
  show ?case
  proof (cases "t' = t")
    case True
    have "q' \<noteq> [] \<longrightarrow> hd q' \<in> set (nb t)"
      using enter.prems(2) q True by (cases q') (auto simp: simple_walk_def successively_append_iff)
    with enter.IH(1) [of q'] enter.prems enter.hyps q True show ?thesis by (simp add: walk_enter(2))
  next
    case False
    with enter.prems enter.hyps q show ?thesis by (intro enter.IH(2)) (auto simp: walk_enter(2))
  qed
qed

section \<open>The machine follows the recursive enumeration\<close>

definition nb_of :: "reachability_index \<Rightarrow> node_id \<Rightarrow> node_id list" where
  "nb_of r v = (case csr_neighbours (rix_forward r) v of Some ts \<Rightarrow> ts | None \<Rightarrow> [])"

definition cut_nodes :: "node_bit_set \<Rightarrow> node_id set" where
  "cut_nodes c = {v. unat v \<in> nbs_alpha c}"

text \<open>What is still to come from a whole stack: the frames from the top down.\<close>

fun stack_outs where
  "stack_outs nb C z L (c # P) (i # I) = walk_outs nb C z L (c # P) (drop i (nb c)) @ stack_outs nb C z L P I"
| "stack_outs nb C z L _ _ = []"

fun stack_cut where
  "stack_cut nb C z L (c # P) (i # I) \<longleftrightarrow> walk_cut nb C z L (c # P) (drop i (nb c)) \<or> stack_cut nb C z L P I"
| "stack_cut nb C z L _ _ = False"

fun stack_steps where
  "stack_steps nb C z L (c # P) (i # I) = walk_steps nb C z L (c # P) (drop i (nb c)) + stack_steps nb C z L P I"
| "stack_steps nb C z L _ _ = 0"

definition ep_inv :: "nat \<Rightarrow> path_search \<Rightarrow> bool" where
  "ep_inv n st \<longleftrightarrow> length (ps_next st) = length (ps_path st) \<and> distinct (ps_path st)
     \<and> (nbs_wf (ps_visited st) \<and> nbs_len (ps_visited st) = n)
     \<and> nbs_alpha (ps_visited st) = unat ` set (ps_path st)
     \<and> ps_trunc st \<in> {PT_None, PT_MaxDepth}"

lemma ep_open_spec:
  assumes "nbs_wf c" "nbs_wf v" "nbs_alpha v = unat ` set P"
  shows "ep_open c v t = Some (t \<in> cut_nodes c \<and> t \<notin> set P)"
  using assms by (auto simp: ep_open_def nbs_contains_spec cut_nodes_def word_unat_eq_iff [symmetric])

lemma ep_select_spec:
  assumes "nbs_wf c" "nbs_wf v" "nbs_alpha v = unat ` set P"
  shows "ep_select c v ts i = Some (case first_open (cut_nodes c) P ts of
      None \<Rightarrow> (i + length ts, None)
    | Some (t, us) \<Rightarrow> (i + (length ts - length us), Some t))"
proof (induction ts arbitrary: i)
  case (Cons t ts)
  have "length us \<le> length ts" if "first_open (cut_nodes c) P ts = Some (u, us)" for u us
    using that by (induction ts) (auto split: if_splits)
  with Cons show ?case
    by (auto simp: ep_open_spec [OF assms] Suc_diff_le split: option.split)
qed simp

lemma first_open_suffix: "first_open C P ts = Some (t, us) \<Longrightarrow> drop (length ts - length us) ts = us"
proof (induction ts)
  case (Cons x ts)
  then show ?case
  proof (cases "x \<in> C \<and> x \<notin> set P")
    case False
    with Cons have f: "first_open C P ts = Some (t, us)" by auto
    then have "length us \<le> length ts" by (induction ts) (auto split: if_splits)
    with Cons.IH [OF f] show ?thesis by (simp add: Suc_diff_le)
  qed auto
qed simp

lemma ep_pop_spec:
  assumes "ep_inv n st" "ps_path st = c # P"
  shows "\<exists>st'. ep_pop c st = Some st' \<and> ep_inv n st' \<and> ps_path st' = P \<and> ps_next st' = tl (ps_next st)
    \<and> ps_out st' = ps_out st \<and> ps_trunc st' = ps_trunc st"
proof -
  have inv: "nbs_wf (ps_visited st) \<and> nbs_len (ps_visited st) = n" using assms(1) by (simp add: ep_inv_def)
  obtain v where v: "nbs_clear (ps_visited st) c = Some v" "nbs_wf v \<and> nbs_len v = n"
      "nbs_alpha v = nbs_alpha (ps_visited st) - {unat c}"
    using nbs.clear_alpha [OF inv] by blast
  have "nbs_alpha v = unat ` set P"
    using v(3) assms by (auto simp: ep_inv_def word_unat_eq_iff [symmetric])
  with v assms show ?thesis by (auto simp: ep_pop_def ep_inv_def)
qed

lemma ep_step_spec:
  assumes valid: "rix_is_valid_for r n" and c: "nbs_wf c" "nbs_len c = n"
    and inv: "ep_inv n st" and ne: "ps_path st \<noteq> []"
    and nbC: "nb = nb_of r" "C = cut_nodes c"
  shows "\<exists>st'. ep_step r c z L st = Some st' \<and> ep_inv n st'
    \<and> ps_out st' @ stack_outs nb C z L (ps_path st') (ps_next st') =
        ps_out st @ stack_outs nb C z L (ps_path st) (ps_next st)
    \<and> Suc (stack_steps nb C z L (ps_path st') (ps_next st')) = stack_steps nb C z L (ps_path st) (ps_next st)
    \<and> (ps_trunc st' \<noteq> PT_None \<or> stack_cut nb C z L (ps_path st') (ps_next st') \<longleftrightarrow>
        ps_trunc st \<noteq> PT_None \<or> stack_cut nb C z L (ps_path st) (ps_next st))
    \<and> length (ps_out st') \<le> Suc (length (ps_out st))"
proof -
  obtain x P where path: "ps_path st = x # P" using ne by (cases "ps_path st") auto
  obtain i I where nxt: "ps_next st = i # I" using inv path by (cases "ps_next st") (auto simp: ep_inv_def)
  have vis: "nbs_wf (ps_visited st) \<and> nbs_len (ps_visited st) = n"
      "nbs_alpha (ps_visited st) = unat ` set (x # P)"
    using inv path by (auto simp: ep_inv_def)
  obtain ts where ts: "csr_neighbours (rix_forward r) x = Some ts" "\<forall>t \<in> set ts. unat t < n"
    using csr_adj.nbrs_total valid by (metis rix_is_valid_for_def)
  have nbx: "nb x = ts" using ts(1) by (simp add: nbC nb_of_def)
  note opn = ep_open_spec [OF c(1) conjunct1 [OF vis(1)] vis(2), folded nbC(2)]
  consider "x = z" | "x \<noteq> z" "L \<le> length (x # P)" | "x \<noteq> z" "length (x # P) < L" by linarith
  then show ?thesis
  proof cases
    case 1
    have "ep_inv n (st\<lparr>ps_out := ps_out st @ [rev (x # P)]\<rparr>)" using inv by (simp add: ep_inv_def)
    from ep_pop_spec [OF this, of x P] path 1 nxt show ?thesis
      by (auto simp: ep_step_def walk_parts walk_sink)
  next
    case 2
    define b where "b \<longleftrightarrow> (\<exists>t \<in> set ts. t \<in> C \<and> t \<notin> set (x # P))"
    define tr where "tr = (if ps_trunc st = PT_None then (if b then PT_MaxDepth else PT_None) else ps_trunc st)"
    have "iter_any (ep_open c (ps_visited st)) ts = Some b"
      unfolding b_def by (rule iter_any_total) (rule opn)
    then have step: "ep_step r c z L st = ep_pop x (st\<lparr>ps_trunc := tr\<rparr>)"
      using 2 path ts(1) by (auto simp: ep_step_def tr_def)
    have "ep_inv n (st\<lparr>ps_trunc := tr\<rparr>)" using inv by (auto simp: ep_inv_def tr_def)
    then obtain st' where "ep_pop x (st\<lparr>ps_trunc := tr\<rparr>) = Some st'" "ep_inv n st'" "ps_path st' = P"
        "ps_next st' = I" "ps_out st' = ps_out st" "ps_trunc st' = tr"
      using ep_pop_spec [of n "st\<lparr>ps_trunc := tr\<rparr>" x P] path nxt by auto
    moreover have "walk nb C z L (x # P) (drop i ts) = ([], b, 1)"
      using walk_deep [of "x # P" z L nb C "drop i ts"] 2 nbx by (simp add: b_def)
    moreover have "tr \<noteq> PT_None \<longleftrightarrow> ps_trunc st \<noteq> PT_None \<or> b" by (simp add: tr_def)
    ultimately show ?thesis using step path nxt nbx by (auto simp: walk_parts)
  next
    case 3
    note sel = ep_select_spec [OF c(1) conjunct1 [OF vis(1)] vis(2), folded nbC(2)]
    show ?thesis
    proof (cases "first_open C (x # P) (drop i ts)")
      case None
      with sel 3 path nxt ts(1)
      have step: "\<exists>e. ep_step r c z L st = ep_pop x (st\<lparr>ps_next := e # I\<rparr>)" by (auto simp: ep_step_def)
      then obtain e where e: "ep_step r c z L st = ep_pop x (st\<lparr>ps_next := e # I\<rparr>)" ..
      have "ep_inv n (st\<lparr>ps_next := e # I\<rparr>)" using inv path nxt by (auto simp: ep_inv_def)
      from ep_pop_spec [OF this, of x P] path nxt e 3 nbx None show ?thesis
        by (auto simp: walk_parts walk_first_open [of "x # P" z L])
    next
      case (Some tu)
      obtain t us where tu: "tu = (t, us)" by force
      define e where "e = i + (length (drop i ts) - length us)"
      note fo = first_open_Some [OF Some [unfolded tu]] first_open_suffix [OF Some [unfolded tu]]
      then have t: "unat t < n" "t \<in> C" "t \<notin> set (x # P)" and rest: "drop e ts = us"
        using ts(2) by (auto simp: e_def add.commute dest: in_set_dropD)
      obtain v where v: "nbs_set (ps_visited st) t = Some v" "nbs_wf v \<and> nbs_len v = n"
          "nbs_alpha v = insert (unat t) (nbs_alpha (ps_visited st))"
        using nbs.set_alpha [OF vis(1) t(1)] by blast
      have step: "ep_step r c z L st =
          Some (st\<lparr>ps_visited := v, ps_path := t # x # P, ps_next := 0 # e # I\<rparr>)"
        using sel [of "drop i ts" i] Some tu 3 path nxt ts(1) v(1) by (simp add: ep_step_def e_def)
      have w: "walk_outs nb C z L (x # P) (drop i ts) = walk_outs nb C z L (x # P) (t # us)"
          "walk_cut nb C z L (x # P) (drop i ts) = walk_cut nb C z L (x # P) (t # us)"
          "walk_steps nb C z L (x # P) (drop i ts) = walk_steps nb C z L (x # P) (t # us)"
        using 3 walk_first_open [of "x # P" z L nb C "drop i ts"] Some tu by (auto simp: walk_parts)
      have "ep_inv n (st\<lparr>ps_visited := v, ps_path := t # x # P, ps_next := 0 # e # I\<rparr>)"
        using inv v vis path nxt t(3) by (auto simp: ep_inv_def)
      with step path nxt nbx rest w 3 t show ?thesis by (simp add: walk_enter)
    qed
  qed
qed

lemma ep_loop_spec:
  assumes valid: "rix_is_valid_for r n" and c: "nbs_wf c" "nbs_len c = n"
    and nbC: "nb = nb_of r" "C = cut_nodes c"
    and inv: "ep_inv n st" and len: "length (ps_out st) \<le> M"
    and T: "T = ps_out st @ stack_outs nb C z L (ps_path st) (ps_next st)"
  shows "\<exists>st'. ep_loop r c (z, M, L) st = Some st' \<and> ps_out st' = take M T
    \<and> (length T < M \<longrightarrow> (ps_trunc st' \<noteq> PT_None \<longleftrightarrow>
         ps_trunc st \<noteq> PT_None \<or> stack_cut nb C z L (ps_path st) (ps_next st)))"
  using inv len T
proof (induction "stack_steps nb C z L (ps_path st) (ps_next st)" arbitrary: st rule: less_induct)
  case less
  show ?case
  proof (cases "ps_path st \<noteq> [] \<and> length (ps_out st) < M")
    case True
    obtain st1 where st1: "ep_step r c z L st = Some st1" "ep_inv n st1"
        "ps_out st1 @ stack_outs nb C z L (ps_path st1) (ps_next st1) = T"
        "Suc (stack_steps nb C z L (ps_path st1) (ps_next st1)) = stack_steps nb C z L (ps_path st) (ps_next st)"
        "ps_trunc st1 \<noteq> PT_None \<or> stack_cut nb C z L (ps_path st1) (ps_next st1) \<longleftrightarrow>
          ps_trunc st \<noteq> PT_None \<or> stack_cut nb C z L (ps_path st) (ps_next st)"
        "length (ps_out st1) \<le> M"
      using ep_step_spec [OF valid c less.prems(1) conjunct1 [OF True] nbC, of z L] less.prems(3) True
      by fastforce
    from less.hyps [of st1] st1 obtain st' where "ep_loop r c (z, M, L) st1 = Some st'" "ps_out st' = take M T"
      "length T < M \<longrightarrow> (ps_trunc st' \<noteq> PT_None \<longleftrightarrow>
         ps_trunc st1 \<noteq> PT_None \<or> stack_cut nb C z L (ps_path st1) (ps_next st1))" by auto
    with True st1 show ?thesis by (subst ep_loop.simps) auto
  next
    case False
    then have "ep_loop r c (z, M, L) st = Some st" by (subst ep_loop.simps) auto
    moreover from False less.prems(2) have "ps_path st = [] \<or> length (ps_out st) = M" by auto
    ultimately show ?thesis using less.prems(2,3) by auto
  qed
qed

section \<open>What the search returns\<close>

definition simple_paths :: "reachability_index \<Rightarrow> node_bit_set \<Rightarrow> node_id \<Rightarrow> node_id \<Rightarrow> node_id list set" where
  "simple_paths r c src sink =
     {p. p \<noteq> [] \<and> simple_walk (nb_of r) (cut_nodes c) p \<and> hd p = src \<and> last p = sink}"

lemma enumerate_paths_spec:
  assumes valid: "rix_is_valid_for r n" and c: "nbs_wf c" "nbs_len c = n" and src: "unat src < n"
    and T: "T = walk_outs (nb_of r) (cut_nodes c) sink L [src] (nb_of r src)"
  obtains tr where "enumerate_paths r c src sink M L = Some (take M T, tr)"
    "length T < M \<Longrightarrow> tr \<noteq> PT_None \<longleftrightarrow> walk_cut (nb_of r) (cut_nodes c) sink L [src] (nb_of r src)"
proof -
  obtain v where v: "nbs_set (nbs_zeros n) src = Some v" "nbs_wf v \<and> nbs_len v = n" "nbs_alpha v = {unat src}"
    using nbs.set_alpha [OF nbs.zeros_inv src] by (auto simp: nbs_zeros_spec)
  define st where "st = \<lparr>ps_out = [], ps_path = [src], ps_next = [0], ps_visited = v, ps_trunc = PT_None\<rparr>"
  have inv: "ep_inv n st" using v by (simp add: ep_inv_def st_def)
  have TT: "T = ps_out st @ stack_outs (nb_of r) (cut_nodes c) sink L (ps_path st) (ps_next st)"
    by (simp add: st_def T)
  have n: "rix_n_nodes r = n" using valid by (simp add: rix_is_valid_for_def)
  obtain st' where "ep_loop r c (sink, M, L) st = Some st'" "ps_out st' = take M T"
      "length T < M \<longrightarrow> (ps_trunc st' \<noteq> PT_None \<longleftrightarrow>
        walk_cut (nb_of r) (cut_nodes c) sink L [src] (nb_of r src))"
    using ep_loop_spec [OF valid c refl refl inv _ TT, of M] by (auto simp: st_def)
  with v(1) show thesis by (intro that [of "ps_trunc st'"]) (auto simp: enumerate_paths_def n st_def)
qed

lemma walk_start_sound:
  assumes "0 < L" "p \<in> set (walk_outs (nb_of r) (cut_nodes c) sink L [src] (nb_of r src))"
  shows "p \<in> simple_paths r c src sink \<and> length p \<le> L"
  using walk_outs_sound [OF _ _ _ _ assms(2)] assms(1)
  by (auto simp: simple_paths_def simple_walk_def)

lemma walk_start_complete:
  assumes "0 < L" "\<not> walk_cut (nb_of r) (cut_nodes c) sink L [src] (nb_of r src)"
    and p: "p \<in> simple_paths r c src sink"
  shows "p \<in> set (walk_outs (nb_of r) (cut_nodes c) sink L [src] (nb_of r src))"
proof -
  obtain q where q: "p = rev [src] @ q" "last (rev [src] @ q) = sink"
      "simple_walk (nb_of r) (cut_nodes c) (rev [src] @ q)" "q \<noteq> [] \<longrightarrow> hd q \<in> set (nb_of r src)"
  proof
    show "p = rev [src] @ tl p" using p by (cases p) (auto simp: simple_paths_def)
    with p show "last (rev [src] @ tl p) = sink" "simple_walk (nb_of r) (cut_nodes c) (rev [src] @ tl p)"
      by (auto simp: simple_paths_def)
    then show "tl p \<noteq> [] \<longrightarrow> hd (tl p) \<in> set (nb_of r src)"
      by (cases "tl p") (auto simp: simple_walk_def)
  qed
  have "length (rev [src] @ q) \<le> L"
    using walk_no_cut [OF assms(2) q(3) _ q(2) _ q(4)] assms(1) by simp
  with walk_outs_complete [OF q(3) _ q(2) _ q(4)] q(1) show ?thesis by simp
qed

lemma paths_in_cut_spec:
  assumes valid: "rix_is_valid_for r n" and c: "nbs_wf c" "nbs_len c = n"
    and src: "unat src \<in> nbs_alpha c" "unat sink \<in> nbs_alpha c"
  obtains out tr where "paths_in_cut_with_truncation r src sink c max_paths max_len = Some (out, tr)"
    "length out \<le> max_paths" "set out \<subseteq> simple_paths r c src sink" "\<forall>p \<in> set out. length p \<le> max_len"
    "\<not> is_truncated tr \<Longrightarrow> set out = simple_paths r c src sink"
proof (cases "max_paths = 0 \<or> max_len = 0")
  case True
  with c src have "paths_in_cut_with_truncation r src sink c max_paths max_len =
      Some ([], if max_paths = 0 then PT_MaxPaths else PT_MaxDepth)"
    by (auto simp: paths_in_cut_with_truncation_def nbs_contains_spec)
  then show thesis by (rule that) (auto simp: is_truncated_def split: if_splits)
next
  case False
  define T where "T = walk_outs (nb_of r) (cut_nodes c) sink max_len [src] (nb_of r src)"
  have lt: "unat src < n" using nbs_alpha_bound [OF c(1)] src c(2) by auto
  have sound: "p \<in> simple_paths r c src sink \<and> length p \<le> max_len" if "p \<in> set T" for p
    using walk_start_sound [of max_len p r c sink src] that False by (simp add: T_def)
  obtain tr where e: "enumerate_paths r c src sink (max_paths + 1) max_len = Some (take (max_paths + 1) T, tr)"
      "length T < max_paths + 1 \<Longrightarrow>
        tr \<noteq> PT_None \<longleftrightarrow> walk_cut (nb_of r) (cut_nodes c) sink max_len [src] (nb_of r src)"
    using enumerate_paths_spec [OF valid c lt T_def] by blast
  show thesis
  proof (cases "max_paths < length T")
    case True
    with e False c src have "paths_in_cut_with_truncation r src sink c max_paths max_len =
        Some (take max_paths T, PT_MaxPaths)"
      by (simp add: paths_in_cut_with_truncation_def nbs_contains_spec Let_def min_def)
    then show thesis
      by (rule that) (use sound in \<open>auto simp: is_truncated_def dest: in_set_takeD\<close>)
  next
    case short: False
    with e(1) False c src have "paths_in_cut_with_truncation r src sink c max_paths max_len = Some (T, tr)"
      by (simp add: paths_in_cut_with_truncation_def nbs_contains_spec Let_def)
    then show thesis
    proof (rule that)
      assume "\<not> is_truncated tr"
      then have "tr = PT_None" by (cases tr) (auto simp: is_truncated_def)
      with e(2) short have "\<not> walk_cut (nb_of r) (cut_nodes c) sink max_len [src] (nb_of r src)" by simp
      with False sound show "set T = simple_paths r c src sink"
        unfolding T_def using walk_start_complete [of max_len] by blast
    qed (use short sound in auto)
  qed
qed

text \<open>Inside the cut of one source and one sink nothing is lost: every graph path stays in it.\<close>

definition graph_paths :: "(nat \<times> nat) set \<Rightarrow> node_id \<Rightarrow> node_id \<Rightarrow> node_id list set" where
  "graph_paths E src sink =
     {p. p \<noteq> [] \<and> hd p = src \<and> last p = sink \<and> distinct p
       \<and> successively (\<lambda>a b. (unat a, unat b) \<in> E) p}"

lemma nb_of_rel:
  assumes "rix_is_valid_for r n"
  shows "b \<in> set (nb_of r a) \<longleftrightarrow> (unat a, unat b) \<in> csr_rel (rix_forward r)"
proof -
  obtain ts where "csr_neighbours (rix_forward r) a = Some ts"
    using assms csr_adj.nbrs_total by (metis rix_is_valid_for_def)
  then show ?thesis by (auto simp: nb_of_def adj_rel_def word_unat_eq_iff [symmetric])
qed

lemma successively_reach_last:
  "successively (\<lambda>a b. (unat a, unat b) \<in> E) p \<Longrightarrow> p \<noteq> [] \<Longrightarrow> (unat (hd p), unat (last p)) \<in> E\<^sup>*"
proof (induction p)
  case (Cons a p)
  then show ?case by (cases p) (auto intro: converse_rtrancl_into_rtrancl)
qed simp

lemma successively_reach:
  assumes "successively (\<lambda>a b. (unat a, unat b) \<in> E) p" "v \<in> set p"
  shows "(unat (hd p), unat v) \<in> E\<^sup>* \<and> (unat v, unat (last p)) \<in> E\<^sup>*"
proof -
  obtain xs ys where p: "p = (xs @ [v]) @ ys" using split_list [OF assms(2)] by auto
  have "successively (\<lambda>a b. (unat a, unat b) \<in> E) (xs @ [v])"
      "successively (\<lambda>a b. (unat a, unat b) \<in> E) (v # ys)"
    using assms(1) unfolding p by (auto simp: successively_append_iff successively_Cons)
  from this [THEN successively_reach_last] show ?thesis by (cases xs) (auto simp: p)
qed

lemma simple_paths_graph:
  assumes rel: "rix_rel n E r" and src: "unat src < n"
    and c: "nbs_alpha c = {v. \<exists>a \<in> unat ` set [src]. \<exists>z \<in> unat ` set [sink].
       a < n \<and> z < n \<and> (a, v) \<in> E\<^sup>* \<and> (v, z) \<in> E\<^sup>*}"
  shows "simple_paths r c src sink = graph_paths E src sink"
proof -
  have valid: "rix_is_valid_for r n" and E: "csr_rel (rix_forward r) = E" using rel by (auto simp: rix_rel_def)
  have edge: "successively (\<lambda>a b. b \<in> set (nb_of r a) \<and> b \<in> cut_nodes c) p \<longleftrightarrow>
      successively (\<lambda>a b. (unat a, unat b) \<in> E \<and> b \<in> cut_nodes c) p" for p
    by (simp add: nb_of_rel [OF valid] E)
  have bound: "(unat src, unat v) \<in> E\<^sup>* \<Longrightarrow> unat v < n" for v
    using csr_adj.rtrancl_bound [of "rix_forward r" n] valid src by (auto simp: rix_is_valid_for_def E)
  have "successively (\<lambda>a b. (unat a, unat b) \<in> E \<and> b \<in> cut_nodes c) p"
    if p: "p \<in> graph_paths E src sink" for p
  proof -
    have sink: "unat sink < n"
      using p bound [of sink] successively_reach_last [of E p] by (auto simp: graph_paths_def)
    have "v \<in> cut_nodes c" if "v \<in> set p" for v
      using p successively_reach [OF _ that, of E] sink src c by (auto simp: graph_paths_def cut_nodes_def)
    with p show ?thesis by (auto simp: graph_paths_def intro: successively_mono)
  qed
  then show ?thesis
    by (auto simp: simple_paths_def graph_paths_def simple_walk_def edge elim: successively_mono)
qed

lemma paths_with_truncation_spec:
  assumes rel: "rix_rel n E r" and src: "unat src < n"
  obtains out tr where "paths_with_truncation r src sink max_paths max_len = Some (out, tr)"
    "length out \<le> max_paths" "set out \<subseteq> graph_paths E src sink" "\<forall>p \<in> set out. length p \<le> max_len"
    "\<not> is_truncated tr \<Longrightarrow> set out = graph_paths E src sink"
proof -
  have valid: "rix_is_valid_for r n" using rel by (simp add: rix_rel_def)
  obtain c where c: "rix_cut r [src] [sink] = Some c" "nbs_wf c" "nbs_len c = n"
    "nbs_alpha c = {v. \<exists>a \<in> unat ` set [src]. \<exists>z \<in> unat ` set [sink].
       a < n \<and> z < n \<and> (a, v) \<in> E\<^sup>* \<and> (v, z) \<in> E\<^sup>*}" by (rule rix_cut_spec [OF rel])
  note eq = simple_paths_graph [OF rel src c(4)]
  show thesis
  proof (cases "unat src \<in> nbs_alpha c \<and> unat sink \<in> nbs_alpha c")
    case True
    with paths_in_cut_spec [OF valid c(2,3), of src sink max_paths max_len] eq c(1) that show thesis
      by (auto simp: paths_with_truncation_def)
  next
    case False
    then have res: "paths_with_truncation r src sink max_paths max_len = Some ([], PT_None)"
      using c by (auto simp: paths_with_truncation_def paths_in_cut_with_truncation_def nbs_contains_spec)
    have "graph_paths E src sink = {}"
    proof (rule ccontr)
      assume "graph_paths E src sink \<noteq> {}"
      then obtain p where p: "p \<in> graph_paths E src sink" by blast
      then have "(unat src, unat sink) \<in> E\<^sup>*" using successively_reach_last by (force simp: graph_paths_def)
      moreover have "unat sink < n"
        using csr_adj.rtrancl_bound [of "rix_forward r" n] rel src calculation
        by (auto simp: rix_rel_def rix_is_valid_for_def)
      ultimately show False using False src c(4) by auto
    qed
    with res that show thesis by auto
  qed
qed

section \<open>Properties\<close>

text \<open>
  C6: over the index built from the edges of a graph, the path search from a source in range returns; it lists at
  most \<^verbatim>\<open>max_paths\<close> paths, each a simple path of the graph from the source to the sink with at
  most \<^verbatim>\<open>max_len\<close> nodes; and when it reports no truncation it lists every simple path there is.
\<close>

theorem paths_sound_complete:
  assumes "length es < 2 ^ 32" "unat src < n"
  shows "\<exists>r out tr. rix_new n es = Some r
    \<and> paths_with_truncation r src sink max_paths max_len = Some (out, tr)
    \<and> length out \<le> max_paths \<and> set out \<subseteq> graph_paths (edge_rel n es) src sink
    \<and> (\<forall>p \<in> set out. length p \<le> max_len)
    \<and> (\<not> is_truncated tr \<longrightarrow> set out = graph_paths (edge_rel n es) src sink)"
proof -
  obtain r where r: "rix_new n es = Some r" "rix_rel n (edge_rel n es) r" by (rule rix_new_spec [OF assms(1)])
  show ?thesis
    by (rule paths_with_truncation_spec [OF r(2) assms(2), of sink max_paths max_len]) (use r(1) in auto)
qed

theorem paths_sound_complete_witness:
  "\<exists>r out tr. rix_new 4 sample_edges = Some r \<and> paths_with_truncation r 0 2 5 8 = Some (out, tr)
    \<and> length out \<le> 5 \<and> set out \<subseteq> graph_paths {(0, 1), (1, 2), (3, 1)} 0 2"
  using paths_sound_complete [OF sample_edges_len, of 0 4 2 5 8] unfolding sample_edge_rel by auto

text \<open>
  Inside a given cut that holds both ends, over any validated index, the search returns, lists simple
  paths of the cut only, respects both bounds, and is complete unless it reports a truncation.
\<close>

theorem paths_in_given_cut:
  assumes "rix_is_valid_for r n" "nbs_wf c" "nbs_len c = n" "unat src \<in> nbs_alpha c" "unat sink \<in> nbs_alpha c"
  shows "\<exists>out tr. paths_in_cut_with_truncation r src sink c max_paths max_len = Some (out, tr)
    \<and> paths_in_cut r src sink c max_paths max_len = Some out
    \<and> length out \<le> max_paths \<and> set out \<subseteq> simple_paths r c src sink \<and> (\<forall>p \<in> set out. length p \<le> max_len)
    \<and> (\<not> is_truncated tr \<longrightarrow> set out = simple_paths r c src sink)"
  by (rule paths_in_cut_spec [OF assms, of max_paths max_len]) (auto simp: paths_in_cut_def)

theorem paths_in_given_cut_witness:
  "\<exists>r c out. rix_new 4 sample_edges = Some r \<and> nbs_from_seed 4 [0, 1] = Some c
    \<and> paths_in_cut r 0 1 c 2 3 = Some out \<and> length out \<le> 2"
proof -
  obtain r where r: "rix_new 4 sample_edges = Some r" "rix_rel 4 (edge_rel 4 sample_edges) r"
    by (rule rix_new_spec [OF sample_edges_len])
  then have valid: "rix_is_valid_for r 4" by (simp add: rix_rel_def)
  obtain c where c: "nbs_from_seed 4 [0, 1] = Some c" "nbs_wf c" "nbs_len c = 4" "nbs_alpha c = {0, 1}"
    using nbs_from_seed_spec [of 4 "[0, 1]"] by auto
  from paths_in_given_cut [OF valid c(2,3), of 0 1 2 3] c r(1) show ?thesis by auto
qed

end
