(* ===== verification/Byte_Budget.thy ===== *)
theory Byte_Budget
  imports Rust_Prelude
begin

text \<open>
  The byte budget that bounds the payloads in flight between the producers and the writer thread,
  \<^verbatim>\<open>ByteBudget\<close> of \<^verbatim>\<open>crates/factstore/src/writer.rs\<close>, as a transition system of the producers that call
  \<^verbatim>\<open>acquire\<close>, the condition variable they wait on and the permits whose drop calls \<^verbatim>\<open>release\<close>.
  Shown: the bytes accounted are always the sum of the permits outstanding and never exceed the
  limit; no producer sleeps while its payload fits, and none is left waiting for ever.
\<close>

section \<open>The byte budget of the producers\<close>

text \<open>
  The mutex makes one turn of the loop of \<^verbatim>\<open>acquire\<close>, and \<^verbatim>\<open>release\<close>, atomic; \<^verbatim>\<open>wait\<close> gives the mutex back and
  puts the caller to sleep in one step, and \<^verbatim>\<open>notify_all\<close> wakes every sleeper. The condition variable
  is the list of the charges of the producers asleep on it. The charges are lengths of buffers in
  memory, so that their sum does not saturate.
\<close>

record byte_budget =
  bb_limit :: nat
  bb_used :: nat
  bb_available :: "nat list"

definition bb_new :: "nat \<Rightarrow> byte_budget" where
  "bb_new limit = \<lparr>bb_limit = max limit 1, bb_used = 0, bb_available = []\<rparr>"

definition bb_charge :: "byte_budget \<Rightarrow> nat \<Rightarrow> nat" where
  "bb_charge b payload_bytes = min (max payload_bytes 1) (bb_limit b)"

text \<open>
  One turn of \<^verbatim>\<open>acquire\<close> with the mutex held: the test of the loop, then either the wait or the grant.
\<close>

definition bb_turn :: "nat \<Rightarrow> byte_budget \<Rightarrow> bool \<times> byte_budget" where
  "bb_turn charge b =
     (if bb_limit b < bb_used b + charge
      then (False, b\<lparr>bb_available := bb_available b @ [charge]\<rparr>)
      else (True, b\<lparr>bb_used := bb_used b + charge\<rparr>))"

text \<open>\<^verbatim>\<open>release\<close> also returns the charges of the producers it wakes.\<close>

definition bb_release :: "nat \<Rightarrow> byte_budget \<Rightarrow> nat list \<times> byte_budget" where
  "bb_release charge b = (bb_available b, b\<lparr>bb_used := bb_used b - charge, bb_available := []\<rparr>)"

text \<open>
  A state is the budget, the charges of the producers awake inside \<^verbatim>\<open>acquire\<close>, and the charges of the
  permits outstanding. In a serving step a producer awake takes its turn, or a permit is dropped; in a
  request a producer calls \<^verbatim>\<open>acquire\<close>. Any producer awake may be the next to get the mutex.
\<close>

type_synonym bb_state = "byte_budget \<times> nat list \<times> nat list"

inductive bb_serve :: "bb_state \<Rightarrow> bb_state \<Rightarrow> bool" where
  grant: "bb_turn c b = (True, b') \<Longrightarrow> bb_serve (b, xs @ c # ys, permits) (b', xs @ ys, c # permits)"
| sleep: "bb_turn c b = (False, b') \<Longrightarrow> bb_serve (b, xs @ c # ys, permits) (b', xs @ ys, permits)"
| release: "bb_release c b = (woken, b') \<Longrightarrow> bb_serve (b, awake, xs @ c # ys) (b', awake @ woken, xs @ ys)"

inductive_cases bb_serveE: "bb_serve s s'"

inductive bb_reachable :: "nat \<Rightarrow> bb_state \<Rightarrow> bool" for limit where
  init: "bb_reachable limit (bb_new limit, [], [])"
| request: "bb_reachable limit (b, awake, permits) \<Longrightarrow> bb_reachable limit (b, bb_charge b payload_bytes # awake, permits)"
| serve: "bb_reachable limit s \<Longrightarrow> bb_serve s s' \<Longrightarrow> bb_reachable limit s'"

section \<open>The invariant\<close>

text \<open>A sleeping producer does not fit: what it saw when it went to sleep holds until the next release wakes it.\<close>

definition bb_inv :: "nat \<Rightarrow> bb_state \<Rightarrow> bool" where
  "bb_inv limit = (\<lambda>(b, awake, permits). bb_limit b = limit \<and> bb_used b = sum_list permits
     \<and> sum_list permits \<le> bb_limit b \<and> (\<forall>c \<in> set awake \<union> set (bb_available b). c \<le> bb_limit b)
     \<and> (\<forall>c \<in> set (bb_available b). bb_limit b < bb_used b + c))"

lemma bb_serve_inv:
  assumes inv: "bb_inv limit s" and step: "bb_serve s s'"
  shows "bb_inv limit s'"
  using step
proof cases
  case (grant c b b' xs ys permits)
  then have "b' = b\<lparr>bb_used := bb_used b + c\<rparr>" "bb_used b + c \<le> bb_limit b" by (auto simp: bb_turn_def split: if_splits)
  moreover have "\<forall>x \<in> set (bb_available b). limit < bb_used b + c + x"
  proof
    fix x assume "x \<in> set (bb_available b)"
    with inv grant(1) have "limit < bb_used b + x" by (auto simp: bb_inv_def)
    then show "limit < bb_used b + c + x" by linarith
  qed
  ultimately show ?thesis using inv grant(1,2) by (auto simp: bb_inv_def)
next
  case (sleep c b b' xs ys permits)
  then have "b' = b\<lparr>bb_available := bb_available b @ [c]\<rparr>" "bb_limit b < bb_used b + c"
    by (auto simp: bb_turn_def split: if_splits)
  with inv sleep(1,2) show ?thesis by (auto simp: bb_inv_def)
next
  case (release c b woken b' awake xs ys)
  then have "b' = b\<lparr>bb_used := bb_used b - c, bb_available := []\<rparr>" "woken = bb_available b" by (simp_all add: bb_release_def)
  with inv release(1,2) show ?thesis by (auto simp: bb_inv_def)
qed

lemma bb_reachable_inv: "bb_reachable limit s \<Longrightarrow> bb_inv (max limit 1) s"
proof (induction rule: bb_reachable.induct)
  case init
  then show ?case by (simp add: bb_inv_def bb_new_def)
next
  case (request b awake permits payload_bytes)
  then show ?case by (auto simp: bb_inv_def bb_charge_def)
next
  case (serve s s')
  then show ?case by (blast intro: bb_serve_inv)
qed

lemma bb_reachable_serves: "bb_serve\<^sup>*\<^sup>* s s' \<Longrightarrow> bb_reachable limit s \<Longrightarrow> bb_reachable limit s'"
  by (induction rule: rtranclp_induct) (auto intro: bb_reachable.serve)

section \<open>Serving ends\<close>

definition bb_work :: "bb_state \<Rightarrow> nat" where
  "bb_work = (\<lambda>(b, awake, permits). 2 * (length awake + length (bb_available b)) + length permits)"

definition bb_awake :: "bb_state \<Rightarrow> nat" where
  "bb_awake = (\<lambda>(b, awake, permits). length awake)"

lemma bb_serve_less: "bb_serve s s' \<Longrightarrow> (s', s) \<in> measures [bb_work, bb_awake]"
  by (erule bb_serveE) (auto simp: bb_work_def bb_awake_def bb_turn_def bb_release_def split: if_splits)

lemma bb_serve_ends: "\<not> (\<exists>run. run 0 = s \<and> (\<forall>i. bb_serve (run i) (run (Suc i))))"
proof
  assume "\<exists>run. run 0 = s \<and> (\<forall>i. bb_serve (run i) (run (Suc i)))"
  then obtain run where "\<And>i. bb_serve (run i) (run (Suc i))" by blast
  then have "\<forall>i. (run (Suc i), run i) \<in> measures [bb_work, bb_awake]" using bb_serve_less by blast
  moreover have "wf (measures [bb_work, bb_awake])" by simp
  ultimately show False unfolding wf_iff_no_infinite_down_chain by blast
qed

lemma bb_serve_possible: "awake \<noteq> [] \<or> permits \<noteq> [] \<Longrightarrow> \<exists>s'. bb_serve (b, awake, permits) s'"
proof (cases "awake = []")
  case True
  assume "awake \<noteq> [] \<or> permits \<noteq> []"
  with True obtain c ps where "permits = [] @ c # ps" by (cases permits) auto
  then show ?thesis using bb_serve.release [of c b _ _ awake "[]" ps] by (metis surj_pair)
next
  case False
  then obtain c cs where c: "awake = [] @ c # cs" by (cases awake) auto
  obtain g b' where t: "bb_turn c b = (g, b')" by (metis surj_pair)
  show ?thesis
  proof (cases g)
    case True
    with bb_serve.grant [of c b b' "[]" cs permits] t c show ?thesis by auto
  next
    case False
    with bb_serve.sleep [of c b b' "[]" cs permits] t c show ?thesis by auto
  qed
qed

lemma bb_stuck_idle:
  assumes "bb_inv limit (b, awake, permits)" "\<nexists>s'. bb_serve (b, awake, permits) s'"
  shows "awake = [] \<and> permits = [] \<and> bb_available b = [] \<and> bb_used b = 0"
proof -
  have "awake = [] \<and> permits = []" using bb_serve_possible assms(2) by blast
  with assms(1) show ?thesis by (cases "bb_available b") (auto simp: bb_inv_def)
qed

section \<open>Properties\<close>

text \<open>
  C35: in every state the budget can reach, whatever the order in which the producers acquire, sleep and release, the
  bytes accounted are the sum of the permits outstanding and stay within the limit.
\<close>

theorem budget_never_exceeded:
  assumes "bb_reachable limit (b, awake, permits)"
  shows "bb_used b = sum_list permits \<and> sum_list permits \<le> max limit 1 \<and> bb_limit b = max limit 1"
  using bb_reachable_inv [OF assms] by (simp add: bb_inv_def)

text \<open>
  Two producers, of which the second does not fit beside the first and goes to sleep.
\<close>

lemma two_producers: "bb_reachable 10 (\<lparr>bb_limit = 10, bb_used = 7, bb_available = [5]\<rparr>, [], [7])"
proof -
  let ?b = "\<lparr>bb_limit = 10, bb_used = 7, bb_available = []\<rparr>"
  have "bb_reachable 10 (bb_new 10, [7], [])"
    using bb_reachable.request [OF bb_reachable.init, of 10 7] by (simp add: bb_charge_def bb_new_def)
  moreover have "bb_serve (bb_new 10, [] @ 7 # [], []) (?b, [] @ [], [7])"
    by (rule bb_serve.grant) (simp add: bb_turn_def bb_new_def)
  ultimately have "bb_reachable 10 (?b, [], [7])" using bb_reachable.serve by fastforce
  from bb_reachable.request [OF this, of 5] have "bb_reachable 10 (?b, [5], [7])" by (simp add: bb_charge_def)
  moreover have "bb_serve (?b, [] @ 5 # [], [7]) (?b\<lparr>bb_available := [5]\<rparr>, [] @ [], [7])"
    by (rule bb_serve.sleep) (simp add: bb_turn_def)
  ultimately show ?thesis using bb_reachable.serve by fastforce
qed

theorem budget_never_exceeded_witness:
  "bb_reachable 10 (\<lparr>bb_limit = 10, bb_used = 7, bb_available = [5]\<rparr>, [], [7]) \<and> sum_list [7 :: nat] \<le> 10"
  using budget_never_exceeded [OF two_producers] two_producers by simp

text \<open>
  C36: no producer is left waiting. In every reachable state a producer sleeps on the condition variable only
  while its charge does not fit; and from there on, as long as no producer calls \<^verbatim>\<open>acquire\<close> anew, every run
  in which producers awake take their turns and permits are dropped, in any order, ends, and it can only end
  when every producer has been granted its charge, no permit is outstanding and no byte is accounted.
\<close>

theorem budget_progress:
  assumes "bb_reachable limit (b, awake, permits)"
  shows "(\<forall>c \<in> set (bb_available b). bb_limit b < bb_used b + c)
    \<and> \<not> (\<exists>run. run 0 = (b, awake, permits) \<and> (\<forall>i. bb_serve (run i) (run (Suc i))))
    \<and> (\<forall>b' awake' permits'. bb_serve\<^sup>*\<^sup>* (b, awake, permits) (b', awake', permits')
        \<and> (\<nexists>s. bb_serve (b', awake', permits') s)
        \<longrightarrow> awake' = [] \<and> bb_available b' = [] \<and> permits' = [] \<and> bb_used b' = 0)"
proof (intro conjI allI impI)
  show "\<forall>c \<in> set (bb_available b). bb_limit b < bb_used b + c" using bb_reachable_inv [OF assms] by (auto simp: bb_inv_def)
next
  fix b' awake' permits'
  assume run: "bb_serve\<^sup>*\<^sup>* (b, awake, permits) (b', awake', permits') \<and> (\<nexists>s. bb_serve (b', awake', permits') s)"
  then have "bb_inv (max limit 1) (b', awake', permits')" using bb_reachable_inv bb_reachable_serves assms by blast
  from bb_stuck_idle [OF this] run
  show "awake' = []" "bb_available b' = []" "permits' = []" "bb_used b' = 0" by blast+
qed (rule bb_serve_ends)

theorem budget_progress_witness:
  "\<exists>b'. bb_serve\<^sup>*\<^sup>* (\<lparr>bb_limit = 10, bb_used = 7, bb_available = [5]\<rparr>, [], [7]) (b', [], []) \<and> bb_available b' = [] \<and> bb_used b' = 0"
proof -
  let ?b = "\<lparr>bb_limit = 10, bb_used = 7, bb_available = [5]\<rparr>" and ?e = "\<lparr>bb_limit = 10, bb_used = 0, bb_available = []\<rparr>"
  have 1: "bb_serve (?b, [], [7]) (?e, [5], [])"
    using bb_serve.release [of 7 ?b "[5]" ?e "[]" "[]" "[]"] by (simp add: bb_release_def)
  have 2: "bb_serve (?e, [5], []) (?e\<lparr>bb_used := 5\<rparr>, [], [5])"
    using bb_serve.grant [of 5 ?e "?e\<lparr>bb_used := 5\<rparr>" "[]" "[]" "[]"] by (simp add: bb_turn_def)
  have 3: "bb_serve (?e\<lparr>bb_used := 5\<rparr>, [], [5]) (?e, [], [])"
    using bb_serve.release [of 5 "?e\<lparr>bb_used := 5\<rparr>" "[]" ?e "[]" "[]" "[]"] by (simp add: bb_release_def)
  have run: "bb_serve\<^sup>*\<^sup>* (?b, [], [7]) (?e, [], [])"
    by (rule converse_rtranclp_into_rtranclp [of bb_serve, OF 1], rule converse_rtranclp_into_rtranclp [of bb_serve, OF 2], rule r_into_rtranclp [of bb_serve, OF 3])
  have "\<nexists>s. bb_serve (?e, [], []) s" by (auto elim: bb_serveE)
  with budget_progress [OF two_producers] run have "bb_available ?e = [] \<and> bb_used ?e = 0" by blast
  with run show ?thesis by blast
qed

end
