(* ===== verification/Fact_Format.thy ===== *)
theory Fact_Format
  imports Rust_Prelude
begin

text \<open>
  The on-disk format of the fact store, \<^verbatim>\<open>crates/factstore/src/format.rs\<close>, and its error type,
  \<^verbatim>\<open>crates/factstore/src/error.rs\<close>: the little-endian encodings, the 96-byte header and the
  32-byte index entry.

  A byte buffer is a list of \<^verbatim>\<open>u8\<close>. Shown: the two decoders invert the two encoders, also when
  more bytes follow, and the encodings have their fixed sizes.
\<close>

section \<open>Little-endian integers\<close>

type_synonym bytes = "u8 list"

fun le_bytes :: "nat \<Rightarrow> nat \<Rightarrow> bytes" where
  "le_bytes 0 n = []"
| "le_bytes (Suc k) n = of_nat (n mod 256) # le_bytes k (n div 256)"

fun le_nat :: "bytes \<Rightarrow> nat" where
  "le_nat [] = 0"
| "le_nat (b # bs) = unat b + 256 * le_nat bs"

definition u32_to_le :: "u32 \<Rightarrow> bytes" where "u32_to_le w = le_bytes 4 (unat w)"
definition u64_to_le :: "u64 \<Rightarrow> bytes" where "u64_to_le w = le_bytes 8 (unat w)"
definition u32_from_le :: "bytes \<Rightarrow> u32" where "u32_from_le bs = of_nat (le_nat bs)"
definition u64_from_le :: "bytes \<Rightarrow> u64" where "u64_from_le bs = of_nat (le_nat bs)"

lemma length_le_bytes [simp]: "length (le_bytes k n) = k"
  by (induction k arbitrary: n) auto

lemma length_u32_to_le [simp]: "length (u32_to_le w) = 4" by (simp add: u32_to_le_def)
lemma length_u64_to_le [simp]: "length (u64_to_le w) = 8" by (simp add: u64_to_le_def)

lemma le_nat_le_bytes: "le_nat (le_bytes k n) = n mod 256 ^ k"
proof (induction k arbitrary: n)
  case (Suc k)
  have "unat (of_nat (n mod 256) :: u8) = n mod 256"
    by (simp add: unsigned_of_nat take_bit_nat_eq_self)
  with Suc show ?case by (simp add: mod_mult2_eq add.commute)
qed simp

lemma u32_le_roundtrip [simp]: "u32_from_le (u32_to_le w) = w"
proof -
  have "unat w < 256 ^ 4" using unsigned_less [of w, where ?'a = nat] by simp
  then show ?thesis by (simp add: u32_from_le_def u32_to_le_def le_nat_le_bytes)
qed

lemma u64_le_roundtrip [simp]: "u64_from_le (u64_to_le w) = w"
proof -
  have "unat w < 256 ^ 8" using unsigned_less [of w, where ?'a = nat] by simp
  then show ?thesis by (simp add: u64_from_le_def u64_to_le_def le_nat_le_bytes)
qed

text \<open>The subrange \<^verbatim>\<open>bytes[i..j]\<close> where the bounds are known to hold.\<close>

definition subrange :: "nat \<Rightarrow> nat \<Rightarrow> 'a list \<Rightarrow> 'a list" where
  "subrange i j xs = take (j - i) (drop i xs)"

lemma length_concat_const: "(\<And>x. length (f x) = k) \<Longrightarrow> length (concat (map f xs)) = length xs * k"
  by (induction xs) auto

lemma subrange_concat_const:
  assumes "\<And>x. length (f x) = k" "i < length xs"
  shows "subrange (i * k) ((i + 1) * k) (concat (map f xs) @ rest) = f (xs ! i)"
proof -
  have "concat (map f xs) = concat (map f (take i xs)) @ f (xs ! i) @ concat (map f (drop (Suc i) xs))"
    using assms(2) by (metis append_assoc concat.simps(2) concat_append id_take_nth_drop list.simps(9) map_append)
  moreover have "length (concat (map f (take i xs))) = i * k"
    using assms length_concat_const [of f k "take i xs"] by simp
  ultimately show ?thesis using assms(1) by (simp add: subrange_def)
qed

lemma vec_slice_subrange: "i \<le> j \<Longrightarrow> j \<le> length xs \<Longrightarrow> vec_slice xs i j = Some (subrange i j xs)"
  by (simp add: subrange_def)

section \<open>The header\<close>

definition MAGIC :: bytes where "MAGIC = [66, 78, 83, 65, 73, 70, 67, 49]"
definition FORMAT_VERSION :: u32 where "FORMAT_VERSION = 1"
definition HEADER_SIZE :: nat where "HEADER_SIZE = 96"
definition INDEX_ENTRY_SIZE :: nat where "INDEX_ENTRY_SIZE = 32"

lemmas fmt_consts = HEADER_SIZE_def INDEX_ENTRY_SIZE_def

record header =
  hdr_magic :: bytes
  hdr_format_version :: u32
  hdr_table_id :: u32
  hdr_pipeline_hash :: u64
  hdr_string_pool_offset :: u64
  hdr_string_pool_bytes_len :: u64
  hdr_string_count :: u64
  hdr_index_offset :: u64
  hdr_index_count :: u64
  hdr_payload_offset :: u64
  hdr_payload_len :: u64
  hdr_reserved :: bytes

definition header_to_bytes :: "header \<Rightarrow> bytes" where
  "header_to_bytes h =
     hdr_magic h @ u32_to_le (hdr_format_version h) @ u32_to_le (hdr_table_id h)
     @ u64_to_le (hdr_pipeline_hash h) @ u64_to_le (hdr_string_pool_offset h)
     @ u64_to_le (hdr_string_pool_bytes_len h) @ u64_to_le (hdr_string_count h)
     @ u64_to_le (hdr_index_offset h) @ u64_to_le (hdr_index_count h)
     @ u64_to_le (hdr_payload_offset h) @ u64_to_le (hdr_payload_len h)
     @ hdr_reserved h @ replicate 8 0"

definition header_from_bytes :: "bytes \<Rightarrow> header option" where
  "header_from_bytes bs =
     (if length bs < HEADER_SIZE then None
      else let magic = subrange 0 8 bs in
        if magic \<noteq> MAGIC then None
        else Some \<lparr>hdr_magic = magic,
          hdr_format_version = u32_from_le (subrange 8 12 bs),
          hdr_table_id = u32_from_le (subrange 12 16 bs),
          hdr_pipeline_hash = u64_from_le (subrange 16 24 bs),
          hdr_string_pool_offset = u64_from_le (subrange 24 32 bs),
          hdr_string_pool_bytes_len = u64_from_le (subrange 32 40 bs),
          hdr_string_count = u64_from_le (subrange 40 48 bs),
          hdr_index_offset = u64_from_le (subrange 48 56 bs),
          hdr_index_count = u64_from_le (subrange 56 64 bs),
          hdr_payload_offset = u64_from_le (subrange 64 72 bs),
          hdr_payload_len = u64_from_le (subrange 72 80 bs),
          hdr_reserved = subrange 80 88 bs\<rparr>)"

text \<open>The two byte arrays of the struct have length 8.\<close>

definition header_wf :: "header \<Rightarrow> bool" where
  "header_wf h \<longleftrightarrow> length (hdr_magic h) = 8 \<and> length (hdr_reserved h) = 8"

lemma header_to_bytes_length: "header_wf h \<Longrightarrow> length (header_to_bytes h) = HEADER_SIZE"
  by (simp add: header_to_bytes_def header_wf_def fmt_consts)

lemma subrange_skip: "length xs = k \<Longrightarrow> k \<le> i \<Longrightarrow> subrange i j (xs @ ys) = subrange (i - k) (j - k) ys"
  by (simp add: subrange_def)

lemma subrange_hit: "length xs = j \<Longrightarrow> subrange 0 j (xs @ ys) = xs"
  by (simp add: subrange_def)

lemma header_roundtrip:
  assumes "header_wf h" "hdr_magic h = MAGIC"
  shows "header_from_bytes (header_to_bytes h @ rest) = Some h"
proof -
  have len: "length (hdr_magic h) = 8" "length (hdr_reserved h) = 8" using assms(1) by (auto simp: header_wf_def)
  have "\<not> length (header_to_bytes h @ rest) < HEADER_SIZE"
    using header_to_bytes_length [OF assms(1)] by simp
  then show ?thesis
    using assms(2) len
    by (simp add: header_from_bytes_def header_to_bytes_def subrange_skip subrange_hit)
qed

section \<open>Index entries\<close>

record index_entry =
  ie_key :: u64
  ie_body_hash :: u64
  ie_payload_offset :: u64
  ie_payload_len :: u32
  ie_reserved :: u32

definition index_entry_to_bytes :: "index_entry \<Rightarrow> bytes" where
  "index_entry_to_bytes e =
     u64_to_le (ie_key e) @ u64_to_le (ie_body_hash e) @ u64_to_le (ie_payload_offset e)
     @ u32_to_le (ie_payload_len e) @ u32_to_le (ie_reserved e)"

definition index_entry_from_bytes :: "bytes \<Rightarrow> index_entry option" where
  "index_entry_from_bytes bs =
     (if length bs < INDEX_ENTRY_SIZE then None
      else Some \<lparr>ie_key = u64_from_le (subrange 0 8 bs),
        ie_body_hash = u64_from_le (subrange 8 16 bs),
        ie_payload_offset = u64_from_le (subrange 16 24 bs),
        ie_payload_len = u32_from_le (subrange 24 28 bs),
        ie_reserved = u32_from_le (subrange 28 32 bs)\<rparr>)"

lemma index_entry_to_bytes_length [simp]: "length (index_entry_to_bytes e) = INDEX_ENTRY_SIZE"
  by (simp add: index_entry_to_bytes_def fmt_consts)

lemma index_entry_roundtrip: "index_entry_from_bytes (index_entry_to_bytes e @ rest) = Some e"
  by (simp add: index_entry_from_bytes_def index_entry_to_bytes_def fmt_consts subrange_skip subrange_hit)

lemma index_entry_key_prefix: "subrange 0 8 (index_entry_to_bytes e @ rest) = u64_to_le (ie_key e)"
  by (simp add: index_entry_to_bytes_def subrange_hit)

lemma index_entry_decodes:
  assumes "length bs = INDEX_ENTRY_SIZE"
  obtains e where "index_entry_from_bytes bs = Some e" "ie_key e = u64_from_le (subrange 0 8 bs)"
  using assms by (auto simp: index_entry_from_bytes_def)

section \<open>Errors\<close>

datatype string_pool_fault =
    SP_offsets_length_overflow
  | SP_offsets_length_disagrees
  | SP_offset_past_bytes
  | SP_not_non_decreasing
  | SP_sentinel_mismatch
  | SP_string_count_range
  | SP_string_bytes_range

datatype io_fault =
    IO_unexpected_eof
  | IO_payload_exceeds_4gib
  | IO_prepared_range_overflow
  | IO_prepared_range_outside
  | IO_already_consumed
  | IO_encode_failed
  | IO_writer_gone

datatype fact_store_error =
    FS_Io io_fault
  | FS_BadMagic
  | FS_Truncated u64 u64
  | FS_VersionMismatch u32 u32
  | FS_PipelineMismatch u64 u64
  | FS_WrongTable u32 u32
  | FS_BadStringPool string_pool_fault
  | FS_BadIndexEntry nat
  | FS_BadPayloadRange u64 u64 u64 u64
  | FS_UnsortedIndex
  | FS_DuplicateKey u64
  | FS_BadStringId u32 u32

section \<open>Properties\<close>

text \<open>
  A header with the right magic and any index entry survive encoding and decoding, whatever follows
  them in the buffer, and occupy exactly the sizes the format fixes.
\<close>

theorem format_codec:
  assumes "header_wf h" "hdr_magic h = MAGIC"
  shows "header_from_bytes (header_to_bytes h @ rest) = Some h \<and> length (header_to_bytes h) = HEADER_SIZE
    \<and> index_entry_from_bytes (index_entry_to_bytes e @ rest) = Some e
    \<and> length (index_entry_to_bytes e) = INDEX_ENTRY_SIZE"
  using header_roundtrip [OF assms] header_to_bytes_length [OF assms(1)] index_entry_roundtrip by simp

definition sample_header :: header where
  "sample_header = \<lparr>hdr_magic = MAGIC, hdr_format_version = 1, hdr_table_id = 7, hdr_pipeline_hash = 99,
     hdr_string_pool_offset = 300, hdr_string_pool_bytes_len = 5, hdr_string_count = 2,
     hdr_index_offset = 400, hdr_index_count = 3, hdr_payload_offset = 96, hdr_payload_len = 204,
     hdr_reserved = replicate 8 0\<rparr>"

theorem format_codec_witness:
  "header_wf sample_header \<and> header_from_bytes (header_to_bytes sample_header @ [1, 2]) = Some sample_header"
proof -
  have "header_wf sample_header" "hdr_magic sample_header = MAGIC"
    by (simp_all add: header_wf_def sample_header_def MAGIC_def)
  with format_codec [of sample_header "[1, 2]"] show ?thesis by blast
qed

end
