(* ===== verification/Interner.thy ===== *)
theory Interner
  imports Rust_Prelude
begin

text \<open>
  The contract of an interner, as a locale: an append-only table of distinct keys, where
  interning a key returns its position. The string pool of the fact store, the place and node
  dictionaries of a dependence-graph segment and the symbolic field table all promise it; the
  facts the callers rely on (equal ids for equal keys only, ids that never change) are proved
  here once.
\<close>

locale interner =
  fixes intern :: "'p \<Rightarrow> 'k \<Rightarrow> ('i \<times> 'p) option"
    and repr :: "'p \<Rightarrow> 'k list \<Rightarrow> bool"
    and fits :: "'k list \<Rightarrow> 'k \<Rightarrow> bool"
    and index :: "'i \<Rightarrow> nat"
  assumes index_inj: "index i = index j \<Longrightarrow> i = j"
    and repr_distinct: "repr p ks \<Longrightarrow> distinct ks"
    and intern_repr: "repr p ks \<Longrightarrow> fits ks k \<Longrightarrow> \<exists>i p'. intern p k = Some (i, p') \<and>
      (if k \<in> set ks then repr p' ks \<and> index i < length ks \<and> ks ! index i = k
       else repr p' (ks @ [k]) \<and> index i = length ks)"
begin

fun intern_all :: "'p \<Rightarrow> 'k list \<Rightarrow> ('i list \<times> 'p) option" where
  "intern_all p [] = Some ([], p)"
| "intern_all p (k # ks) = do {
     (i, p') \<leftarrow> intern p k;
     (is, p'') \<leftarrow> intern_all p' ks;
     Some (i # is, p'')
   }"

text \<open>The table after interning a sequence of keys: the new ones appended in order of arrival.\<close>

fun extend :: "'k list \<Rightarrow> 'k list \<Rightarrow> 'k list" where
  "extend tab [] = tab"
| "extend tab (k # ks) = extend (if k \<in> set tab then tab else tab @ [k]) ks"

fun all_fit :: "'k list \<Rightarrow> 'k list \<Rightarrow> bool" where
  "all_fit tab [] = True"
| "all_fit tab (k # ks) \<longleftrightarrow> fits tab k \<and> all_fit (if k \<in> set tab then tab else tab @ [k]) ks"

lemma intern_step:
  assumes "repr p tab" "fits tab k"
  obtains i p' where "intern p k = Some (i, p')" "repr p' (if k \<in> set tab then tab else tab @ [k])"
    "index i < length (if k \<in> set tab then tab else tab @ [k])"
    "(if k \<in> set tab then tab else tab @ [k]) ! index i = k"
  using intern_repr [OF assms] that by (cases "k \<in> set tab") auto

lemma extend_prefix: "\<exists>zs. extend tab ks = tab @ zs"
proof (induction ks arbitrary: tab)
  case (Cons k ks)
  then show ?case by (cases "k \<in> set tab") (auto, metis append_assoc)
qed simp

lemma intern_all_spec:
  assumes "repr p tab" "all_fit tab ks"
  shows "\<exists>is p'. intern_all p ks = Some (is, p') \<and> repr p' (extend tab ks) \<and> length is = length ks
    \<and> (\<forall>j < length ks. index (is ! j) < length (extend tab ks) \<and> extend tab ks ! index (is ! j) = ks ! j)"
  using assms
proof (induction ks arbitrary: p tab)
  case (Cons k ks)
  define tab' where "tab' = (if k \<in> set tab then tab else tab @ [k])"
  from Cons.prems obtain i p' where i: "intern p k = Some (i, p')" "repr p' tab'"
      "index i < length tab'" "tab' ! index i = k"
    by (auto simp: tab'_def elim: intern_step)
  obtain "is" p'' where rest: "intern_all p' ks = Some (is, p'')" "repr p'' (extend tab' ks)"
      "length is = length ks"
      "\<forall>j < length ks. index (is ! j) < length (extend tab' ks) \<and> extend tab' ks ! index (is ! j) = ks ! j"
    using Cons.IH [OF i(2)] Cons.prems(2) by (auto simp: tab'_def)
  obtain zs where "extend tab' ks = tab' @ zs" using extend_prefix by blast
  with i(3,4) have "index i < length (extend tab' ks)" "extend tab' ks ! index i = k"
    by (auto simp: nth_append)
  with rest i(1) show ?case
    by (auto simp: nth_Cons less_Suc_eq_0_disj simp flip: tab'_def)
qed simp

text \<open>Ids are equal exactly for equal keys, in one run of any length.\<close>

lemma intern_all_injective:
  assumes "repr p tab" "all_fit tab ks" "intern_all p ks = Some (is, p')" "a < length ks" "b < length ks"
  shows "is ! a = is ! b \<longleftrightarrow> ks ! a = ks ! b"
proof -
  have sp: "repr p' (extend tab ks)"
      "\<forall>j < length ks. index (is ! j) < length (extend tab ks) \<and> extend tab ks ! index (is ! j) = ks ! j"
    using intern_all_spec [OF assms(1,2)] assms(3) by auto
  have "distinct (extend tab ks)" by (rule repr_distinct [OF sp(1)])
  with sp(2) assms(4,5) show ?thesis by (metis index_inj nth_eq_iff_index_eq)
qed

text \<open>A key that is in the table keeps its id, whatever is interned in between.\<close>

lemma intern_stable:
  assumes "repr p tab" "fits tab k" "intern p k = Some (i, p1)"
    and "all_fit (if k \<in> set tab then tab else tab @ [k]) ks" "intern_all p1 ks = Some (is, p2)"
    and "fits (extend (if k \<in> set tab then tab else tab @ [k]) ks) k"
  shows "\<exists>p3. intern p2 k = Some (i, p3)"
proof -
  define tab' where "tab' = (if k \<in> set tab then tab else tab @ [k])"
  have i: "repr p1 tab'" "index i < length tab'" "tab' ! index i = k"
    using assms(3) by (auto simp: tab'_def intro: intern_step [OF assms(1,2)])
  have fit: "all_fit tab' ks" using assms(4) by (simp add: tab'_def)
  have p2: "repr p2 (extend tab' ks)" using intern_all_spec [OF i(1) fit] assms(5) by auto
  obtain zs where zs: "extend tab' ks = tab' @ zs" using extend_prefix by blast
  have k: "k \<in> set (extend tab' ks)" "extend tab' ks ! index i = k" "index i < length (extend tab' ks)"
    using i zs by (auto simp: nth_append in_set_conv_nth)
  obtain j p3 where j: "intern p2 k = Some (j, p3)" "index j < length (extend tab' ks)"
      "extend tab' ks ! index j = k"
    using intern_repr [OF p2, of k] assms(6) k(1) by (auto simp: tab'_def)
  have "index j = index i"
    using nth_eq_iff_index_eq [OF repr_distinct [OF p2] j(2) k(3)] j(3) k(2) by simp
  with index_inj j(1) show ?thesis by blast
qed

end

end
