(* ===== verification/String_Pool.thy ===== *)
theory String_Pool
  imports Fact_Format Interner
begin

text \<open>
  The string interner of the fact store, \<^verbatim>\<open>crates/factstore/src/string_pool.rs\<close>: the builder
  with its reverse map (complete, or released and then only a delta), the encoded sections, and
  the validated view over them.

  A \<^verbatim>\<open>&str\<close> is a byte list for which \<open>utf8_valid\<close> holds; a map is a partial function. The panics
  (more than \<open>2 ^ 32\<close> strings or bytes) are \<open>None\<close>. Shown: the builder keeps the representation
  invariant \<open>pool_repr\<close> (the sections are the concatenation of distinct strings and the running
  offsets), it meets the \<open>interner\<close> contract whether or not the reverse map was released, and
  the view over the encoded sections is accepted and resolves every id to its string.
\<close>

section \<open>UTF-8\<close>

text \<open>\<^verbatim>\<open>std::str::from_utf8\<close> accepts exactly the well-formed sequences of the Unicode standard.\<close>

definition utf8_tail :: "u8 \<Rightarrow> bool" where "utf8_tail b \<longleftrightarrow> 0x80 \<le> b \<and> b \<le> 0xBF"

definition utf8_three :: "u8 \<Rightarrow> u8 \<Rightarrow> bool" where
  "utf8_three b1 b2 \<longleftrightarrow>
     (b1 = 0xE0 \<and> 0xA0 \<le> b2 \<and> b2 \<le> 0xBF)
     \<or> (0xE1 \<le> b1 \<and> b1 \<le> 0xEC \<and> utf8_tail b2)
     \<or> (b1 = 0xED \<and> 0x80 \<le> b2 \<and> b2 \<le> 0x9F)
     \<or> (0xEE \<le> b1 \<and> b1 \<le> 0xEF \<and> utf8_tail b2)"

definition utf8_four :: "u8 \<Rightarrow> u8 \<Rightarrow> bool" where
  "utf8_four b1 b2 \<longleftrightarrow>
     (b1 = 0xF0 \<and> 0x90 \<le> b2 \<and> b2 \<le> 0xBF)
     \<or> (0xF1 \<le> b1 \<and> b1 \<le> 0xF3 \<and> utf8_tail b2)
     \<or> (b1 = 0xF4 \<and> 0x80 \<le> b2 \<and> b2 \<le> 0x8F)"

fun utf8_valid :: "bytes \<Rightarrow> bool" where
  "utf8_valid [] = True"
| "utf8_valid (b1 # bs) =
     (if b1 \<le> 0x7F then utf8_valid bs
      else case bs of
        b2 # bs2 \<Rightarrow>
          (if 0xC2 \<le> b1 \<and> b1 \<le> 0xDF then utf8_tail b2 \<and> utf8_valid bs2
           else case bs2 of
             b3 # bs3 \<Rightarrow>
               (if utf8_three b1 b2 then utf8_tail b3 \<and> utf8_valid bs3
                else case bs3 of
                  b4 # bs4 \<Rightarrow> utf8_four b1 b2 \<and> utf8_tail b3 \<and> utf8_tail b4 \<and> utf8_valid bs4
                | [] \<Rightarrow> False)
           | [] \<Rightarrow> False)
      | [] \<Rightarrow> False)"

definition from_utf8 :: "bytes \<Rightarrow> bytes option" where
  "from_utf8 bs = (if utf8_valid bs then Some bs else None)"

section \<open>The builder\<close>


record string_pool =
  sp_bytes :: bytes
  sp_offsets :: "u32 list"
  sp_by_str :: "bytes \<rightharpoonup> str_id"
  sp_lookup_complete :: bool

definition sp_new :: string_pool where
  "sp_new = \<lparr>sp_bytes = [], sp_offsets = [], sp_by_str = Map.empty, sp_lookup_complete = True\<rparr>"

text \<open>The outer option is a panic, the inner one the result of \<^verbatim>\<open>get\<close>.\<close>

definition sp_get :: "string_pool \<Rightarrow> str_id \<Rightarrow> bytes option option" where
  "sp_get p i =
     (let idx = unat i in
      if length (sp_offsets p) \<le> idx then Some None
      else do {
        let start = unat (sp_offsets p ! idx);
        end \<leftarrow> (if idx + 1 < length (sp_offsets p) then Some (sp_offsets p ! (idx + 1))
               else try_u32 (length (sp_bytes p)));
        Some (do { bs \<leftarrow> vec_slice (sp_bytes p) start (unat end); from_utf8 bs })
      })"

text \<open>The scan \<^verbatim>\<open>(0..len).map(|i| i as StrId).find(|id| self.get(*id) == Some(s))\<close>.\<close>

fun sp_find :: "string_pool \<Rightarrow> bytes \<Rightarrow> nat list \<Rightarrow> str_id option option" where
  "sp_find p s [] = Some None"
| "sp_find p s (i # is) = do {
     g \<leftarrow> sp_get p (of_nat i);
     if g = Some s then Some (Some (of_nat i)) else sp_find p s is
   }"

definition sp_intern :: "string_pool \<Rightarrow> bytes \<Rightarrow> (str_id \<times> string_pool) option" where
  "sp_intern p s =
     (case sp_by_str p s of
        Some i \<Rightarrow> Some (i, p)
      | None \<Rightarrow> do {
          found \<leftarrow> (if sp_lookup_complete p then Some None
                   else sp_find p s [0..<length (sp_offsets p)]);
          case found of
            Some i \<Rightarrow> Some (i, p)
          | None \<Rightarrow> do {
              i \<leftarrow> try_u32 (length (sp_offsets p));
              offset \<leftarrow> try_u32 (length (sp_bytes p));
              Some (i, p\<lparr>sp_offsets := sp_offsets p @ [offset], sp_bytes := sp_bytes p @ s,
                         sp_by_str := (sp_by_str p)(s \<mapsto> i)\<rparr>)
            }
        })"

definition sp_len :: "string_pool \<Rightarrow> nat" where "sp_len p = length (sp_offsets p)"
definition sp_is_empty :: "string_pool \<Rightarrow> bool" where "sp_is_empty p \<longleftrightarrow> sp_offsets p = []"
definition sp_bytes_len :: "string_pool \<Rightarrow> nat" where "sp_bytes_len p = length (sp_bytes p)"

definition sp_offsets_section_len :: "string_pool \<Rightarrow> nat" where
  "sp_offsets_section_len p = (length (sp_offsets p) + 1) * 4"

definition sp_rebuild_step :: "string_pool \<Rightarrow> nat \<Rightarrow> (bytes \<rightharpoonup> str_id) \<Rightarrow> (bytes \<rightharpoonup> str_id) option" where
  "sp_rebuild_step p i m = do {
     g \<leftarrow> sp_get p (of_nat i);
     Some (case g of Some s \<Rightarrow> m(s \<mapsto> of_nat i) | None \<Rightarrow> m)
   }"

definition sp_rebuild_lookup :: "string_pool \<Rightarrow> string_pool option" where
  "sp_rebuild_lookup p = do {
     m \<leftarrow> for_each (sp_rebuild_step p) [0..<length (sp_offsets p)] Map.empty;
     Some (p\<lparr>sp_by_str := m, sp_lookup_complete := True\<rparr>)
   }"

definition sp_release_lookup :: "string_pool \<Rightarrow> string_pool" where
  "sp_release_lookup p = p\<lparr>sp_by_str := Map.empty, sp_lookup_complete := False\<rparr>"

definition sp_lookup :: "string_pool \<Rightarrow> bytes \<Rightarrow> str_id option option" where
  "sp_lookup p name =
     (case sp_by_str p name of
        Some i \<Rightarrow> Some (Some i)
      | None \<Rightarrow>
          (if sp_lookup_complete p then Some None
           else sp_find p name [0..<length (sp_offsets p)]))"

definition sp_offsets_bytes :: "string_pool \<Rightarrow> bytes option" where
  "sp_offsets_bytes p = do {
     sentinel \<leftarrow> try_u32 (length (sp_bytes p));
     Some (concat (map u32_to_le (sp_offsets p)) @ u32_to_le sentinel)
   }"

section \<open>The view\<close>

record string_pool_view =
  spv_bytes :: bytes
  spv_offsets :: bytes
  spv_count :: u32

definition spv_from_validated_sections :: "bytes \<Rightarrow> bytes \<Rightarrow> u32 \<Rightarrow> string_pool_view" where
  "spv_from_validated_sections bs offs count = \<lparr>spv_bytes = bs, spv_offsets = offs, spv_count = count\<rparr>"

text \<open>The validation loop over \<^verbatim>\<open>0..=count\<close>; it carries \<^verbatim>\<open>prev\<close> and stops at the first fault.\<close>

fun spv_check :: "bytes \<Rightarrow> bytes \<Rightarrow> nat list \<Rightarrow> u32 \<Rightarrow> string_pool_fault + u32" where
  "spv_check bs offs [] prev = Inr prev"
| "spv_check bs offs (i # is) prev =
     (let offset = u32_from_le (subrange (i * 4) ((i + 1) * 4) offs) in
      if length bs < unat offset then Inl SP_offset_past_bytes
      else if 0 < i \<and> offset < prev then Inl SP_not_non_decreasing
      else spv_check bs offs is offset)"

definition spv_new :: "bytes \<Rightarrow> bytes \<Rightarrow> u32 \<Rightarrow> fact_store_error + string_pool_view" where
  "spv_new bs offs count =
     (if length offs \<noteq> (unat count + 1) * 4 then Inl (FS_BadStringPool SP_offsets_length_disagrees)
      else case spv_check bs offs [0..<unat count + 1] 0 of
        Inl e \<Rightarrow> Inl (FS_BadStringPool e)
      | Inr prev \<Rightarrow>
          (if unat prev \<noteq> length bs then Inl (FS_BadStringPool SP_sentinel_mismatch)
           else Inr \<lparr>spv_bytes = bs, spv_offsets = offs, spv_count = count\<rparr>))"

definition spv_get :: "string_pool_view \<Rightarrow> str_id \<Rightarrow> bytes option option" where
  "spv_get v i =
     (if spv_count v \<le> i then Some None
      else do {
        let k = unat i;
        start_bytes \<leftarrow> vec_slice (spv_offsets v) (k * 4) ((k + 1) * 4);
        end_bytes \<leftarrow> vec_slice (spv_offsets v) ((k + 1) * 4) ((k + 2) * 4);
        let start = unat (u32_from_le start_bytes);
        let end = unat (u32_from_le end_bytes);
        Some (do { s \<leftarrow> vec_slice (spv_bytes v) start end; from_utf8 s })
      })"

definition spv_get_or_err :: "string_pool_view \<Rightarrow> str_id \<Rightarrow> (fact_store_error + bytes) option" where
  "spv_get_or_err v i = do {
     g \<leftarrow> spv_get v i;
     Some (case g of Some s \<Rightarrow> Inr s | None \<Rightarrow> Inl (FS_BadStringId i (spv_count v)))
   }"

section \<open>The representation\<close>

definition str_off :: "bytes list \<Rightarrow> nat \<Rightarrow> nat" where
  "str_off ss i = length (concat (take i ss))"

definition pool_sections :: "string_pool \<Rightarrow> bytes list \<Rightarrow> bool" where
  "pool_sections p ss \<longleftrightarrow>
     sp_bytes p = concat ss \<and> sp_offsets p = map (\<lambda>i. of_nat (str_off ss i)) [0..<length ss]
     \<and> length ss < 2 ^ 32 \<and> length (concat ss) < 2 ^ 32 \<and> list_all utf8_valid ss"

definition pool_repr :: "string_pool \<Rightarrow> bytes list \<Rightarrow> bool" where
  "pool_repr p ss \<longleftrightarrow> pool_sections p ss \<and> distinct ss
     \<and> (\<forall>s i. sp_by_str p s = Some i \<longrightarrow> unat i < length ss \<and> ss ! unat i = s)
     \<and> (sp_lookup_complete p \<longrightarrow> set ss \<subseteq> dom (sp_by_str p))"

lemma str_off_mono: "i \<le> j \<Longrightarrow> str_off ss i \<le> str_off ss j"
  unfolding str_off_def by (metis concat_append le_add1 length_append take_add le_add_diff_inverse)

lemma str_off_le: "str_off ss i \<le> length (concat ss)"
  unfolding str_off_def by (metis append_take_drop_id concat_append le_add1 length_append)

lemma str_off_Suc: "i < length ss \<Longrightarrow> str_off ss (Suc i) = str_off ss i + length (ss ! i)"
  by (simp add: str_off_def take_Suc_conv_app_nth)

lemma str_off_all: "length ss \<le> i \<Longrightarrow> str_off ss i = length (concat ss)"
  by (simp add: str_off_def)

lemma concat_slice:
  assumes "i < length ss"
  shows "vec_slice (concat ss) (str_off ss i) (str_off ss (Suc i)) = Some (ss ! i)"
proof -
  have "concat ss = concat (take i ss) @ ss ! i @ concat (drop (Suc i) ss)"
    using assms by (metis append_assoc concat.simps(2) concat_append id_take_nth_drop)
  then show ?thesis
    using assms str_off_le [of ss "Suc i"] by (simp add: str_off_Suc) (simp add: str_off_def)
qed

lemma sp_get_repr:
  assumes "pool_sections p ss"
  shows "sp_get p i = Some (if unat i < length ss then Some (ss ! unat i) else None)"
proof (cases "unat i < length ss")
  case True
  have lt: "length (concat ss) < 2 ^ 32" and sec: "sp_bytes p = concat ss"
      "sp_offsets p = map (\<lambda>i. of_nat (str_off ss i)) [0..<length ss]" and utf: "utf8_valid (ss ! unat i)"
    using assms True by (auto simp: pool_sections_def list_all_length)
  have ix: "unat (of_nat (str_off ss k) :: u32) = str_off ss k" for k
    using str_off_le [of ss k] lt by (intro unat_of_nat_u32) linarith
  have "(if unat i + 1 < length (sp_offsets p) then Some (sp_offsets p ! (unat i + 1))
         else try_u32 (length (sp_bytes p))) = Some (of_nat (str_off ss (Suc (unat i))))"
    using True lt sec by (auto simp: try_u32_def str_off_all)
  with True sec utf concat_slice [OF True] show ?thesis
    by (simp add: sp_get_def Let_def ix from_utf8_def)
next
  case False
  with assms show ?thesis by (simp add: sp_get_def pool_sections_def)
qed

lemma sp_find_repr:
  assumes "pool_sections p ss" "\<forall>i \<in> set is. i < length ss"
  shows "sp_find p s is = Some (map_option of_nat (find (\<lambda>i. ss ! i = s) is))"
  using assms(2)
proof (induction "is")
  case (Cons i "is")
  have "unat (of_nat i :: u32) = i"
    using Cons.prems assms(1) by (intro unat_of_nat_u32) (auto simp: pool_sections_def)
  with Cons show ?case by (simp add: sp_get_repr [OF assms(1)])
qed simp

lemma sp_find_all:
  assumes "pool_sections p ss"
  shows "sp_find p s [0..<length ss] = Some (map_option of_nat (find (\<lambda>i. ss ! i = s) [0..<length ss]))"
  using sp_find_repr [OF assms] by simp

lemma find_index: "find (\<lambda>i. ss ! i = s) [0..<length ss] = None \<longleftrightarrow> s \<notin> set ss"
  by (auto simp: find_None_iff in_set_conv_nth)

lemma find_index_Some: "find (\<lambda>i. ss ! i = s) [0..<length ss] = Some i \<Longrightarrow> i < length ss \<and> ss ! i = s"
  by (auto simp: find_Some_iff)

lemma pool_sections_append:
  assumes "pool_sections p ss" "utf8_valid s" "length ss + 1 < 2 ^ 32" "length (concat ss) + length s < 2 ^ 32"
  shows "pool_sections (p\<lparr>sp_offsets := sp_offsets p @ [of_nat (length (sp_bytes p))],
      sp_bytes := sp_bytes p @ s, sp_by_str := m\<rparr>) (ss @ [s])"
  using assms by (auto simp: pool_sections_def str_off_def)

theorem sp_intern_repr:
  assumes "pool_repr p ss" "utf8_valid s"
    and "length ss + 1 < 2 ^ 32" "length (concat ss) + length s < 2 ^ 32"
  shows "\<exists>i p'. sp_intern p s = Some (i, p') \<and>
    (if s \<in> set ss then pool_repr p' ss \<and> unat i < length ss \<and> ss ! unat i = s
     else pool_repr p' (ss @ [s]) \<and> unat i = length ss)"
proof -
  have sec: "pool_sections p ss" and dist: "distinct ss" and len: "length (sp_offsets p) = length ss"
    using assms(1) by (auto simp: pool_repr_def pool_sections_def)
  have snd: "\<And>t i. sp_by_str p t = Some i \<Longrightarrow> unat i < length ss \<and> ss ! unat i = t"
    and cmp: "sp_lookup_complete p \<Longrightarrow> set ss \<subseteq> dom (sp_by_str p)"
    using assms(1) by (auto simp: pool_repr_def)
  show ?thesis
  proof (cases "s \<in> set ss")
    case True
    show ?thesis
    proof (cases "sp_by_str p s")
      case None
      with True cmp have "\<not> sp_lookup_complete p" by auto
      moreover obtain i where i: "find (\<lambda>i. ss ! i = s) [0..<length ss] = Some i"
        using True find_index [of ss s] by auto
      moreover have "unat (of_nat i :: u32) = i"
        using find_index_Some [OF i] sec by (intro unat_of_nat_u32) (auto simp: pool_sections_def)
      ultimately show ?thesis
        using None True assms(1) find_index_Some [OF i]
        by (auto simp: sp_intern_def len sp_find_all [OF sec])
    qed (use True snd assms(1) in \<open>auto simp: sp_intern_def\<close>)
  next
    case False
    with snd have none: "sp_by_str p s = None" by (metis not_None_eq nth_mem)
    define i :: u32 where "i = of_nat (length ss)"
    have ui: "unat i = length ss" unfolding i_def using assms(3) by (intro unat_of_nat_u32) linarith
    let ?p = "p\<lparr>sp_offsets := sp_offsets p @ [of_nat (length (sp_bytes p))],
        sp_bytes := sp_bytes p @ s, sp_by_str := (sp_by_str p)(s \<mapsto> i)\<rparr>"
    have "sp_intern p s = Some (i, ?p)"
      using False none assms(3,4) sec find_index [of ss s]
      by (auto simp: sp_intern_def len sp_find_all [OF sec] try_u32_def i_def pool_sections_def)
    moreover have "pool_repr ?p (ss @ [s])"
      using pool_sections_append [OF sec assms(2-4)] dist False snd cmp ui
      by (auto simp: pool_repr_def nth_append less_Suc_eq split: if_splits)
    ultimately show ?thesis using False ui by auto
  qed
qed

theorem sp_lookup_repr:
  assumes "pool_repr p ss"
  shows "\<exists>r. sp_lookup p s = Some r \<and>
    (case r of Some i \<Rightarrow> unat i < length ss \<and> ss ! unat i = s | None \<Rightarrow> s \<notin> set ss)"
proof -
  have sec: "pool_sections p ss" and len: "length (sp_offsets p) = length ss"
    using assms by (auto simp: pool_repr_def pool_sections_def)
  show ?thesis
  proof (cases "sp_by_str p s")
    case (Some i)
    with assms show ?thesis by (auto simp: sp_lookup_def pool_repr_def)
  next
    case None
    show ?thesis
    proof (cases "sp_lookup_complete p")
      case True
      with None assms show ?thesis by (auto simp: sp_lookup_def pool_repr_def)
    next
      case False
      have "case map_option of_nat (find (\<lambda>i. ss ! i = s) [0..<length ss]) of
          Some i \<Rightarrow> unat (i :: u32) < length ss \<and> ss ! unat i = s | None \<Rightarrow> s \<notin> set ss"
      proof (cases "find (\<lambda>i. ss ! i = s) [0..<length ss]")
        case (Some i)
        moreover have "unat (of_nat i :: u32) = i"
          using find_index_Some [OF Some] sec by (intro unat_of_nat_u32) (auto simp: pool_sections_def)
        ultimately show ?thesis using find_index_Some [OF Some] by simp
      next
        case None
        then show ?thesis using find_index [of ss s] by simp
      qed
      with None False show ?thesis by (simp add: sp_lookup_def len sp_find_all [OF sec])
    qed
  qed
qed

lemma sp_new_repr: "pool_repr sp_new []"
  by (simp add: pool_repr_def pool_sections_def sp_new_def)

lemma sp_release_repr: "pool_repr p ss \<Longrightarrow> pool_repr (sp_release_lookup p) ss"
  by (simp add: pool_repr_def pool_sections_def sp_release_lookup_def)

lemma sp_rebuild_all:
  assumes "pool_sections p ss" "distinct ss" "k \<le> length ss"
  shows "for_each (sp_rebuild_step p) [0..<k] Map.empty =
    Some (\<lambda>s. map_option of_nat (find (\<lambda>i. ss ! i = s) [0..<k]))"
  using assms(3)
proof (induction k)
  case (Suc k)
  have "unat (of_nat k :: u32) = k"
    using Suc.prems assms(1) by (intro unat_of_nat_u32) (auto simp: pool_sections_def)
  then have get: "sp_get p (of_nat k) = Some (Some (ss ! k))"
    using Suc.prems by (simp add: sp_get_repr [OF assms(1)])
  have fresh: "find (\<lambda>i. ss ! i = ss ! k) [0..<k] = None"
    using Suc.prems assms(2) by (auto simp: find_None_iff nth_eq_iff_index_eq)
  have app: "find P (xs @ ys) = (case find P xs of None \<Rightarrow> find P ys | Some x \<Rightarrow> Some x)"
    for P :: "nat \<Rightarrow> bool" and xs ys by (induction xs) auto
  show ?case
    using Suc fresh by (auto simp: for_each_append sp_rebuild_step_def get app split: option.split)
qed auto

lemma sp_rebuild_repr:
  assumes "pool_sections p ss" "distinct ss"
  obtains p' where "sp_rebuild_lookup p = Some p'" "pool_repr p' ss" "sp_lookup_complete p'"
proof -
  define m :: "bytes \<rightharpoonup> u32" where "m = (\<lambda>s. map_option of_nat (find (\<lambda>i. ss ! i = s) [0..<length ss]))"
  have len: "length (sp_offsets p) = length ss" using assms(1) by (simp add: pool_sections_def)
  have "sp_rebuild_lookup p = Some (p\<lparr>sp_by_str := m, sp_lookup_complete := True\<rparr>)"
    using sp_rebuild_all [OF assms order_refl] by (simp add: sp_rebuild_lookup_def len m_def)
  moreover have "unat i < length ss \<and> ss ! unat i = s" if "m s = Some i" for s i
  proof -
    obtain j where j: "find (\<lambda>i. ss ! i = s) [0..<length ss] = Some j" "i = of_nat j"
      using \<open>m s = Some i\<close> by (auto simp: m_def)
    moreover have "unat (of_nat j :: u32) = j"
      using find_index_Some [OF j(1)] assms(1) by (intro unat_of_nat_u32) (auto simp: pool_sections_def)
    ultimately show ?thesis using find_index_Some [OF j(1)] by simp
  qed
  moreover have "set ss \<subseteq> dom m" using find_index [of ss] by (auto simp: m_def dom_def)
  ultimately show thesis
    using assms by (intro that) (auto simp: pool_repr_def pool_sections_def)
qed

definition pool_fits :: "bytes list \<Rightarrow> bytes \<Rightarrow> bool" where
  "pool_fits ss s \<longleftrightarrow> utf8_valid s \<and> length ss + 1 < 2 ^ 32 \<and> length (concat ss) + length s < 2 ^ 32"

interpretation strings: interner sp_intern pool_repr pool_fits
  "unat :: u32 \<Rightarrow> nat"
proof unfold_locales
  show "distinct ss" if "pool_repr p ss" for p ss using that by (simp add: pool_repr_def)
qed (use sp_intern_repr in \<open>auto simp: word_unat_eq_iff pool_fits_def\<close>)

section \<open>The encoded pool\<close>

definition spv_off :: "bytes \<Rightarrow> nat \<Rightarrow> u32" where
  "spv_off offs i = u32_from_le (subrange (i * 4) ((i + 1) * 4) offs)"

lemma spv_check_Cons:
  "spv_check bs offs (i # is) prev =
     (if length bs < unat (spv_off offs i) then Inl SP_offset_past_bytes
      else if 0 < i \<and> spv_off offs i < prev then Inl SP_not_non_decreasing
      else spv_check bs offs is (spv_off offs i))"
  by (simp add: spv_off_def Let_def)

declare spv_check.simps(2) [simp del]

lemma spv_check_iff:
  assumes "a < b" "0 < a \<longrightarrow> prev = spv_off offs (a - 1)"
  shows "spv_check bs offs [a..<b] prev = Inr r \<longleftrightarrow>
    (\<forall>i. a \<le> i \<and> i < b \<longrightarrow> unat (spv_off offs i) \<le> length bs \<and> (0 < i \<longrightarrow> spv_off offs (i - 1) \<le> spv_off offs i))
    \<and> r = spv_off offs (b - 1)"
  using assms
proof (induction "b - a" arbitrary: a prev)
  case (Suc d)
  define here where "here \<longleftrightarrow> unat (spv_off offs a) \<le> length bs \<and> (0 < a \<longrightarrow> spv_off offs (a - 1) \<le> spv_off offs a)"
  have step: "spv_check bs offs [a..<b] prev = Inr r \<longleftrightarrow>
      here \<and> spv_check bs offs [Suc a..<b] (spv_off offs a) = Inr r"
    using Suc.prems by (auto simp: upt_conv_Cons here_def spv_check_Cons not_less)
  have split: "(\<forall>i. a \<le> i \<and> i < b \<longrightarrow> P i) \<longleftrightarrow> P a \<and> (\<forall>i. Suc a \<le> i \<and> i < b \<longrightarrow> P i)" for P
    using Suc.prems(1) by (metis Suc_leD Suc_leI le_neq_implies_less order_refl)
  show ?case
  proof (cases "Suc a < b")
    case True
    with Suc.hyps(1) [of "Suc a" "spv_off offs a"] Suc.hyps(2) show ?thesis
      unfolding step split [of "\<lambda>i. unat (spv_off offs i) \<le> length bs \<and> _ i"] by (auto simp: here_def)
  next
    case False
    with Suc.prems(1) have "b = Suc a" by simp
    with step show ?thesis by (auto simp: here_def le_less_Suc_eq)
  qed
qed simp

text \<open>A view that validation accepted never panics, and every stored range is inside the bytes.\<close>

lemma spv_new_get:
  assumes "spv_new bs offs n = Inr v"
  shows "v = \<lparr>spv_bytes = bs, spv_offsets = offs, spv_count = n\<rparr>"
    and "spv_get v i = Some (if unat i < unat n
      then from_utf8 (subrange (unat (spv_off offs (unat i))) (unat (spv_off offs (unat i + 1))) bs) else None)"
proof -
  have len: "length offs = (unat n + 1) * 4" and v: "v = \<lparr>spv_bytes = bs, spv_offsets = offs, spv_count = n\<rparr>"
    and chk: "\<exists>r. spv_check bs offs [0..<unat n + 1] 0 = Inr r"
    using assms by (auto simp: spv_new_def split: if_splits sum.splits)
  show "v = \<lparr>spv_bytes = bs, spv_offsets = offs, spv_count = n\<rparr>" by (rule v)
  have ok: "unat (spv_off offs k) \<le> length bs" "0 < k \<Longrightarrow> spv_off offs (k - 1) \<le> spv_off offs k"
    if "k \<le> unat n" for k
    using chk that spv_check_iff [of 0 "unat n + 1" 0 offs bs] by auto
  show "spv_get v i = Some (if unat i < unat n
      then from_utf8 (subrange (unat (spv_off offs (unat i))) (unat (spv_off offs (unat i + 1))) bs) else None)"
  proof (cases "unat i < unat n")
    case True
    have a: "vec_slice offs (unat i * 4) ((unat i + 1) * 4) = Some (subrange (unat i * 4) ((unat i + 1) * 4) offs)"
      "vec_slice offs ((unat i + 1) * 4) ((unat i + 2) * 4) =
        Some (subrange ((unat i + 1) * 4) ((unat i + 2) * 4) offs)"
      using True len by (intro vec_slice_subrange; simp)+
    have b: "vec_slice bs (unat (spv_off offs (unat i))) (unat (spv_off offs (unat i + 1))) =
        Some (subrange (unat (spv_off offs (unat i))) (unat (spv_off offs (unat i + 1))) bs)"
      using ok [of "unat i + 1"] True by (intro vec_slice_subrange) (auto simp: word_le_nat_alt)
    from True have "\<not> n \<le> i" by (simp add: word_le_nat_alt)
    moreover have "u32_from_le (subrange (unat i * 4) ((unat i + 1) * 4) offs) = spv_off offs (unat i)"
      "u32_from_le (subrange ((unat i + 1) * 4) ((unat i + 2) * 4) offs) = spv_off offs (unat i + 1)"
      by (simp_all add: spv_off_def)
    ultimately show ?thesis
      unfolding spv_get_def v using True a b by (simp only: string_pool_view.simps Let_def if_False if_True bind.simps)
  next
    case False
    then have "n \<le> i" by (simp add: word_le_nat_alt)
    with False show ?thesis by (simp add: spv_get_def v)
  qed
qed

text \<open>What the writer stores is accepted, and resolves every id as the builder does.\<close>

theorem pool_view_roundtrip:
  assumes "pool_repr p ss"
  obtains ob v where "sp_offsets_bytes p = Some ob" "length ob = (length ss + 1) * 4"
    "spv_new (sp_bytes p) ob (of_nat (length ss)) = Inr v" "\<And>i. spv_get v i = sp_get p i"
proof -
  have sec: "sp_bytes p = concat ss" "sp_offsets p = map (\<lambda>i. of_nat (str_off ss i)) [0..<length ss]"
    and lt: "length ss < 2 ^ 32" "length (concat ss) < 2 ^ 32" and utf: "list_all utf8_valid ss"
    using assms by (auto simp: pool_repr_def pool_sections_def)
  define offl :: "u32 list" where "offl = map (\<lambda>i. of_nat (str_off ss i)) [0..<Suc (length ss)]"
  define ob where "ob = concat (map u32_to_le offl)"
  have ob: "sp_offsets_bytes p = Some ob"
    using sec lt by (simp add: sp_offsets_bytes_def try_u32_def ob_def offl_def str_off_all)
  have len: "length ob = (length ss + 1) * 4"
    unfolding ob_def by (subst length_concat_const [of _ 4]) (simp_all add: offl_def)
  have off: "spv_off ob i = of_nat (str_off ss i)" if "i \<le> length ss" for i
    using subrange_concat_const [of u32_to_le 4 i offl "[]"] that
    by (simp add: spv_off_def ob_def offl_def del: upt_Suc)
  have n: "unat (of_nat (length ss) :: u32) = length ss" using lt(1) by (rule unat_of_nat_u32)
  have uo: "unat (of_nat (str_off ss i) :: u32) = str_off ss i" for i
    using str_off_le [of ss i] lt(2) by (intro unat_of_nat_u32) linarith
  have "spv_check (concat ss) ob [0..<length ss + 1] 0 = Inr (spv_off ob (length ss))"
    using str_off_le [of ss] str_off_mono [of _ _ ss]
    by (subst spv_check_iff) (auto simp: off uo word_le_nat_alt)
  then have new: "spv_new (sp_bytes p) ob (of_nat (length ss)) =
      Inr \<lparr>spv_bytes = concat ss, spv_offsets = ob, spv_count = of_nat (length ss)\<rparr>"
    using len lt(2) by (simp add: spv_new_def n sec off str_off_all unat_of_nat_u32)
  have "spv_get \<lparr>spv_bytes = concat ss, spv_offsets = ob, spv_count = of_nat (length ss)\<rparr> i = sp_get p i" for i
  proof (cases "unat i < length ss")
    case True
    have "subrange (str_off ss (unat i)) (str_off ss (unat i + 1)) (concat ss) = ss ! unat i"
      using concat_slice [OF True] str_off_le [of ss] str_off_mono [of "unat i" "Suc (unat i)" ss]
      by (simp add: subrange_def)
    with True spv_new_get(2) [OF new, of i] utf sp_get_repr [of p ss i] assms show ?thesis
      by (simp add: n off uo sec from_utf8_def list_all_length pool_repr_def)
  next
    case False
    with spv_new_get(2) [OF new, of i] sp_get_repr [of p ss i] assms show ?thesis
      by (simp add: n pool_repr_def)
  qed
  with ob len new show thesis by (rule that)
qed

section \<open>Properties\<close>

lemma strings_fit:
  assumes "list_all utf8_valid ss" "length tab + length ss < 2 ^ 32" "length (concat tab) + length (concat ss) < 2 ^ 32"
  shows "strings.all_fit tab ss"
  using assms
proof (induction ss arbitrary: tab)
  case (Cons s ss)
  have "pool_fits tab s" unfolding pool_fits_def using Cons.prems by auto
  with Cons show ?case by (cases "s \<in> set tab") auto
qed simp

text \<open>
  C32: the sections of a pool, written out and viewed again, are accepted by the validating constructor, and
  every id resolves through the view to the same string as through the builder.
\<close>

theorem pool_sections_roundtrip:
  assumes "pool_repr p ss"
  shows "\<exists>ob v. sp_offsets_bytes p = Some ob \<and> length ob = sp_offsets_section_len p
    \<and> spv_new (sp_bytes p) ob (of_nat (sp_len p)) = Inr v
    \<and> (\<forall>i. spv_get v i = Some (if unat i < length ss then Some (ss ! unat i) else None))"
proof -
  have sec: "pool_sections p ss" and n: "sp_len p = length ss"
    using assms by (auto simp: pool_repr_def pool_sections_def sp_len_def)
  show ?thesis
    by (rule pool_view_roundtrip [OF assms])
      (use sp_get_repr [OF sec] n in \<open>auto simp: sp_offsets_section_len_def sp_len_def\<close>)
qed

theorem pool_sections_roundtrip_witness:
  "\<exists>is p ob v. strings.intern_all sp_new [[97], [98]] = Some (is, p) \<and> sp_offsets_bytes p = Some ob
    \<and> spv_new (sp_bytes p) ob (of_nat (sp_len p)) = Inr v \<and> spv_get v 0 = Some (Some [97]) \<and> spv_get v 1 = Some (Some [98])
    \<and> spv_get v 2 = Some None"
proof -
  let ?ss = "[[97], [98]] :: bytes list"
  have "strings.all_fit [] ?ss" by (rule strings_fit) (auto simp: utf8_valid.simps)
  from strings.intern_all_spec [OF sp_new_repr this] obtain "is" p where
    r: "strings.intern_all sp_new ?ss = Some (is, p)" "pool_repr p (strings.extend [] ?ss)" by blast
  have "strings.extend [] ?ss = ?ss" by simp
  with r(2) have "pool_repr p ?ss" by simp
  from pool_sections_roundtrip [OF this] obtain ob v where v: "sp_offsets_bytes p = Some ob"
    "spv_new (sp_bytes p) ob (of_nat (sp_len p)) = Inr v"
    "\<And>i. spv_get v i = Some (if unat i < length ?ss then Some (?ss ! unat i) else None)" by blast
  from v(3) [of 0] v(3) [of 1] v(3) [of 2] r(1) v(1,2) show ?thesis by auto
qed

text \<open>
  Interning any list of strings into a new pool, of fewer than \<open>2 ^ 32\<close> strings and bytes in all, returns one id
  per string without a panic; two ids are equal exactly when the strings are, and each id resolves to its string.
\<close>

theorem intern_ids_injective:
  assumes "list_all utf8_valid ss" "length ss < 2 ^ 32" "length (concat ss) < 2 ^ 32"
  shows "\<exists>is p. strings.intern_all sp_new ss = Some (is, p) \<and> length is = length ss
    \<and> (\<forall>a < length ss. \<forall>b < length ss. is ! a = is ! b \<longleftrightarrow> ss ! a = ss ! b)
    \<and> (\<forall>a < length ss. sp_get p (is ! a) = Some (Some (ss ! a)))"
proof -
  have fit: "strings.all_fit [] ss" using assms by (intro strings_fit) auto
  obtain "is" p where r: "strings.intern_all sp_new ss = Some (is, p)" "pool_repr p (strings.extend [] ss)"
      "length is = length ss"
      "\<forall>j < length ss. unat (is ! j) < length (strings.extend [] ss) \<and> strings.extend [] ss ! unat (is ! j) = ss ! j"
    using strings.intern_all_spec [OF sp_new_repr fit] by blast
  have "pool_sections p (strings.extend [] ss)" using r(2) by (simp add: pool_repr_def)
  from sp_get_repr [OF this] r strings.intern_all_injective [OF sp_new_repr fit r(1)] show ?thesis by simp
qed

theorem intern_ids_injective_witness:
  "\<exists>is p. strings.intern_all sp_new [[97], [98], [97]] = Some (is, p) \<and> is ! 0 = is ! 2 \<and> is ! 0 \<noteq> is ! 1
    \<and> sp_get p (is ! 1) = Some (Some [98])"
proof -
  let ?ss = "[[97], [98], [97]] :: bytes list"
  obtain "is" p where r: "strings.intern_all sp_new ?ss = Some (is, p)"
      "\<forall>a < length ?ss. \<forall>b < length ?ss. is ! a = is ! b \<longleftrightarrow> ?ss ! a = ?ss ! b"
      "\<forall>a < length ?ss. sp_get p (is ! a) = Some (Some (?ss ! a))"
    using intern_ids_injective [of ?ss] by auto
  from r(2) have "is ! 0 = is ! 2 \<longleftrightarrow> ?ss ! 0 = ?ss ! 2" "is ! 0 = is ! 1 \<longleftrightarrow> ?ss ! 0 = ?ss ! 1" by simp_all
  moreover from r(3) have "sp_get p (is ! 1) = Some (Some (?ss ! 1))" by simp
  ultimately show ?thesis using r(1) by auto
qed

text \<open>
  Releasing the reverse map of a pool, or rebuilding it, changes no lookup: in every state the lookup of a
  string returns its position in the pool, and nothing when it is absent.
\<close>

theorem pool_lookup_any_state:
  assumes "pool_repr p ss"
  shows "\<exists>q r. sp_rebuild_lookup p = Some q \<and> sp_lookup p s = Some r
    \<and> sp_lookup (sp_release_lookup p) s = Some r \<and> sp_lookup q s = Some r
    \<and> (case r of Some i \<Rightarrow> unat i < length ss \<and> ss ! unat i = s | None \<Rightarrow> s \<notin> set ss)"
proof -
  have dist: "distinct ss" and sec: "pool_sections p ss" using assms by (auto simp: pool_repr_def)
  obtain q where q: "sp_rebuild_lookup p = Some q" "pool_repr q ss"
    by (rule sp_rebuild_repr [OF sec dist])
  define at where "at r \<longleftrightarrow> (case r of Some i \<Rightarrow> unat i < length ss \<and> ss ! unat i = s | None \<Rightarrow> s \<notin> set ss)"
    for r :: "str_id option"
  have uniq: "r = r'" if "at r" "at r'" for r r'
    using that nth_eq_iff_index_eq [OF dist] unfolding at_def
    by (cases r; cases r') (auto simp: word_unat_eq_iff)
  have lk: "\<exists>r. sp_lookup x s = Some r \<and> at r" if "pool_repr x ss" for x
    using sp_lookup_repr [OF that, of s] unfolding at_def .
  obtain r where r: "sp_lookup p s = Some r" "at r" using lk [OF assms] by blast
  moreover have "sp_lookup (sp_release_lookup p) s = Some r" using lk [OF sp_release_repr [OF assms]] uniq r(2) by blast
  moreover have "sp_lookup q s = Some r" using lk [OF q(2)] uniq r(2) by blast
  ultimately show ?thesis using q(1) unfolding at_def by blast
qed

theorem pool_lookup_any_state_witness:
  "\<exists>q. sp_rebuild_lookup sp_new = Some q \<and> sp_lookup q [97] = Some None"
  using pool_lookup_any_state [OF sp_new_repr, of "[97]"] by (auto split: option.splits)

text \<open>
  Whatever bytes the sections of a stored pool hold, a view that the validating constructor accepts never
  panics: every id below the count resolves to the checked decoding of a range of the bytes section,
  every other id to nothing.
\<close>

theorem accepted_view_safe:
  assumes "spv_new bs offs n = Inr v"
  shows "spv_get v i = Some (if i < n
      then from_utf8 (subrange (unat (spv_off offs (unat i))) (unat (spv_off offs (unat i + 1))) bs) else None)
    \<and> (\<exists>r. spv_get_or_err v i = Some r)"
  using spv_new_get(2) [OF assms, of i] by (auto simp: spv_get_or_err_def word_less_nat_alt)

theorem accepted_view_safe_witness:
  "spv_get \<lparr>spv_bytes = [97, 98], spv_offsets = [0, 0, 0, 0, 2, 0, 0, 0], spv_count = 1\<rparr> 0 = Some (Some [97, 98])"
proof -
  have "spv_new [97, 98] [0, 0, 0, 0, 2, 0, 0, 0] 1 =
      Inr \<lparr>spv_bytes = [97, 98], spv_offsets = [0, 0, 0, 0, 2, 0, 0, 0], spv_count = 1\<rparr>"
    by (simp add: spv_new_def spv_check_Cons spv_off_def subrange_def u32_from_le_def upt_rec)
  from accepted_view_safe [OF this, of 0] show ?thesis
    by (simp add: spv_off_def subrange_def u32_from_le_def from_utf8_def)
qed

end
