(* ===== verification/Fact_Writer.thy ===== *)
theory Fact_Writer
  imports String_Pool
begin

text \<open>
  The writer of the fact store, \<^verbatim>\<open>crates/factstore/src/writer.rs\<close>: the single-owner loop that appends
  payloads, the prepared payload files, and the finalisation that sorts the index and writes the
  string pool, the index and the header.

  A file is its byte list, shorter than \<open>2 ^ 64\<close>. The commands of the channel are the list in the
  order the writer thread receives them; the operating system's own I/O failures are not modelled.
  Shown: after any sequence of accepted commands the state of the writer represents exactly the
  entries added so far (\<open>writer_repr\<close>).
\<close>

section \<open>The writer\<close>

record pending_entry =
  pe_key :: u64
  pe_body_hash :: u64
  pe_payload_offset :: u64
  pe_payload_len :: u32

text \<open>
  A streamed entry carries the chunks its encoder writes and whether the encoder itself succeeds.
\<close>

datatype write_cmd =
    CmdEntry u64 u64 bytes
  | CmdStreamEntry u64 u64 "bytes list" bool
  | CmdFinish bytes bytes u64

record writer_state =
  ws_file :: bytes
  ws_entries :: "pending_entry list"
  ws_next_payload_offset :: u64

text \<open>\<^verbatim>\<open>EntryWriter::write\<close>: refuse what would take the entry past \<^verbatim>\<open>u32::MAX\<close> bytes.\<close>

definition entry_write :: "bytes \<Rightarrow> bytes \<times> u64 \<Rightarrow> (bytes \<times> u64) option" where
  "entry_write chunk = (\<lambda>(file, written).
     let next = saturating_add written (of_nat (length chunk)) in
     if unat next > 2 ^ 32 - 1 then None
     else Some (file @ chunk, saturating_add written (of_nat (length chunk))))"

datatype writer_outcome =
    WO_continue writer_state
  | WO_stopped
  | WO_error fact_store_error
  | WO_reply "fact_store_error + (nat \<times> bytes)"

definition entries_windows :: "'a list \<Rightarrow> ('a \<times> 'a) list" where
  "entries_windows xs = zip xs (tl xs)"

definition find_duplicate :: "pending_entry list \<Rightarrow> u64 option" where
  "find_duplicate es =
     map_option (\<lambda>(a, b). pe_key a) (find (\<lambda>(a, b). pe_key a = pe_key b) (entries_windows es))"

definition pending_on_disk :: "pending_entry \<Rightarrow> index_entry" where
  "pending_on_disk e = \<lparr>ie_key = pe_key e, ie_body_hash = pe_body_hash e,
     ie_payload_offset = pe_payload_offset e, ie_payload_len = pe_payload_len e, ie_reserved = 0\<rparr>"

text \<open>
  The result of \<^verbatim>\<open>finalize_writer\<close> is the row count and the bytes that the final rename publishes.
  The sort is the stable sort by key.
\<close>

definition finalize_writer ::
    "bytes \<Rightarrow> pending_entry list \<Rightarrow> u64 \<Rightarrow> bytes \<Rightarrow> bytes \<Rightarrow> u64 \<Rightarrow> u32 \<Rightarrow> u64 \<Rightarrow>
      fact_store_error + (nat \<times> bytes)" where
  "finalize_writer file entries payload_section_end string_bytes string_offsets string_count table_id
     pipeline_hash =
     (let entries = sort_key pe_key entries in
      case find_duplicate entries of
        Some k \<Rightarrow> Inl (FS_DuplicateKey k)
      | None \<Rightarrow>
        (let payload_section_offset = of_nat HEADER_SIZE;
             payload_section_len = payload_section_end - payload_section_offset;
             string_pool_offset = payload_section_end;
             string_pool_bytes_len = of_nat (length string_bytes);
             body = file @ string_bytes @ string_offsets;
             index_offset = string_pool_offset + string_pool_bytes_len + of_nat (length string_offsets);
             index_count = of_nat (length entries);
             body = body @ concat (map (\<lambda>e. index_entry_to_bytes (pending_on_disk e)) entries);
             h = \<lparr>hdr_magic = MAGIC, hdr_format_version = FORMAT_VERSION, hdr_table_id = table_id,
                  hdr_pipeline_hash = pipeline_hash, hdr_string_pool_offset = string_pool_offset,
                  hdr_string_pool_bytes_len = string_pool_bytes_len, hdr_string_count = string_count,
                  hdr_index_offset = index_offset, hdr_index_count = index_count,
                  hdr_payload_offset = payload_section_offset, hdr_payload_len = payload_section_len,
                  hdr_reserved = replicate 8 0\<rparr>
         in Inr (unat (index_count :: u64), header_to_bytes h @ drop (length (header_to_bytes h)) body)))"

definition writer_step :: "u32 \<Rightarrow> u64 \<Rightarrow> write_cmd \<Rightarrow> writer_state \<Rightarrow> writer_outcome" where
  "writer_step table_id pipeline_hash cmd ws = (case cmd of
     CmdEntry key body_hash payload \<Rightarrow>
       (case try_u32 (length payload) of
          None \<Rightarrow> WO_error (FS_Io IO_payload_exceeds_4gib)
        | Some payload_len \<Rightarrow>
            WO_continue (ws\<lparr>ws_file := ws_file ws @ payload,
              ws_entries := ws_entries ws @
                [\<lparr>pe_key = key, pe_body_hash = body_hash,
                  pe_payload_offset = ws_next_payload_offset ws, pe_payload_len = payload_len\<rparr>],
              ws_next_payload_offset := ws_next_payload_offset ws + of_nat (length payload)\<rparr>))
   | CmdStreamEntry key body_hash chunks encoder_ok \<Rightarrow>
       (case for_each entry_write chunks (ws_file ws, 0) of
          None \<Rightarrow> WO_stopped
        | Some (file, written) \<Rightarrow>
            (if \<not> encoder_ok then WO_stopped
             else case try_u32 (unat written) of
               None \<Rightarrow> WO_error (FS_Io IO_payload_exceeds_4gib)
             | Some payload_len \<Rightarrow>
                 WO_continue (ws\<lparr>ws_file := file,
                   ws_entries := ws_entries ws @
                     [\<lparr>pe_key = key, pe_body_hash = body_hash,
                       pe_payload_offset = ws_next_payload_offset ws, pe_payload_len = payload_len\<rparr>],
                   ws_next_payload_offset := saturating_add (ws_next_payload_offset ws) written\<rparr>)))
   | CmdFinish string_bytes string_offsets string_count \<Rightarrow>
       WO_reply (finalize_writer (ws_file ws) (ws_entries ws) (ws_next_payload_offset ws)
         string_bytes string_offsets string_count table_id pipeline_hash))"

text \<open>
  The loop of the writer thread: an error or a failed encoder ends it, and so does the end of the
  channel, in which case nothing is published.
\<close>

fun run_writer_thread :: "u32 \<Rightarrow> u64 \<Rightarrow> write_cmd list \<Rightarrow> writer_state \<Rightarrow> writer_outcome" where
  "run_writer_thread table_id pipeline_hash [] ws = WO_stopped"
| "run_writer_thread table_id pipeline_hash (cmd # cmds) ws =
     (case writer_step table_id pipeline_hash cmd ws of
        WO_continue ws' \<Rightarrow> run_writer_thread table_id pipeline_hash cmds ws'
      | r \<Rightarrow> r)"

subsection \<open>Prepared payloads\<close>

record prepared_payload =
  pp_file :: "bytes option"

definition prepared_create :: prepared_payload where
  "prepared_create = \<lparr>pp_file = Some (replicate HEADER_SIZE 0)\<rparr>"

definition prepared_append ::
    "prepared_payload \<Rightarrow> bytes \<Rightarrow> (fact_store_error + (u64 \<times> u32)) \<times> prepared_payload" where
  "prepared_append p payload =
     (case try_u32 (length payload) of
        None \<Rightarrow> (Inl (FS_Io IO_payload_exceeds_4gib), p)
      | Some payload_len \<Rightarrow>
          (case pp_file p of
             None \<Rightarrow> (Inl (FS_Io IO_already_consumed), p)
           | Some file \<Rightarrow>
               (Inr (of_nat (length file), payload_len), p\<lparr>pp_file := Some (file @ payload)\<rparr>)))"

fun prepared_check :: "nat \<Rightarrow> pending_entry list \<Rightarrow> fact_store_error option" where
  "prepared_check prepared_len [] = None"
| "prepared_check prepared_len (e # es) =
     (case checked_add (pe_payload_offset e) (ucast (pe_payload_len e)) of
        None \<Rightarrow> Some (FS_Io IO_prepared_range_overflow)
      | Some payload_end \<Rightarrow>
          (if unat (pe_payload_offset e) < HEADER_SIZE \<or> prepared_len < unat payload_end
           then Some (FS_Io IO_prepared_range_outside)
           else prepared_check prepared_len es))"

text \<open>The state the writer thread starts with.\<close>

definition create_from_prepared ::
    "prepared_payload \<Rightarrow> pending_entry list \<Rightarrow> fact_store_error + writer_state" where
  "create_from_prepared prepared entries =
     (case pp_file prepared of
        None \<Rightarrow> Inl (FS_Io IO_already_consumed)
      | Some file \<Rightarrow>
          (case prepared_check (length file) entries of
             Some e \<Rightarrow> Inl e
           | None \<Rightarrow> Inr \<lparr>ws_file = file, ws_entries = entries,
                          ws_next_payload_offset = of_nat (length file)\<rparr>))"

definition writer_create :: "fact_store_error + writer_state" where
  "writer_create = create_from_prepared prepared_create []"

text \<open>
  One whole session: the entry commands in the order they reach the writer, then the finish
  command with the sections of the string pool. The result is what \<^verbatim>\<open>finish\<close> returns, together with
  the published file.
\<close>

definition write_session ::
    "u32 \<Rightarrow> u64 \<Rightarrow> writer_state \<Rightarrow> write_cmd list \<Rightarrow> string_pool \<Rightarrow> (fact_store_error + (nat \<times> bytes)) option" where
  "write_session table_id pipeline_hash ws cmds pool = do {
     string_offsets \<leftarrow> sp_offsets_bytes pool;
     Some (case run_writer_thread table_id pipeline_hash
             (cmds @ [CmdFinish (sp_bytes pool) string_offsets (of_nat (sp_len pool))]) ws of
        WO_reply r \<Rightarrow> r
      | WO_error e \<Rightarrow> Inl e
      | _ \<Rightarrow> Inl (FS_Io IO_writer_gone))
   }"

section \<open>What the writer leaves behind\<close>

type_synonym entry_spec = "u64 \<times> u64 \<times> bytes"

fun cmd_spec :: "write_cmd \<Rightarrow> entry_spec" where
  "cmd_spec (CmdEntry k h p) = (k, h, p)"
| "cmd_spec (CmdStreamEntry k h cs _) = (k, h, concat cs)"
| "cmd_spec (CmdFinish _ _ _) = (0, 0, [])"

fun cmd_ok :: "write_cmd \<Rightarrow> bool" where
  "cmd_ok (CmdEntry k h p) \<longleftrightarrow> length p < 2 ^ 32"
| "cmd_ok (CmdStreamEntry k h cs b) \<longleftrightarrow> length (concat cs) < 2 ^ 32 \<and> b"
| "cmd_ok (CmdFinish _ _ _) \<longleftrightarrow> False"

definition spec_payloads :: "entry_spec list \<Rightarrow> bytes list" where
  "spec_payloads L = map (\<lambda>(k, h, p). p) L"

definition spec_pending :: "entry_spec list \<Rightarrow> nat \<Rightarrow> pending_entry" where
  "spec_pending L i = (case L ! i of (k, h, p) \<Rightarrow>
     \<lparr>pe_key = k, pe_body_hash = h,
      pe_payload_offset = of_nat (HEADER_SIZE + str_off (spec_payloads L) i),
      pe_payload_len = of_nat (length p)\<rparr>)"

definition writer_repr :: "writer_state \<Rightarrow> entry_spec list \<Rightarrow> bool" where
  "writer_repr ws L \<longleftrightarrow>
     ws_file ws = replicate HEADER_SIZE 0 @ concat (spec_payloads L)
     \<and> ws_entries ws = map (spec_pending L) [0..<length L]
     \<and> ws_next_payload_offset ws = of_nat (length (ws_file ws))
     \<and> length (ws_file ws) < 2 ^ 64 \<and> (\<forall>(k, h, p) \<in> set L. length p < 2 ^ 32)"

lemma writer_create_repr: "\<exists>ws. writer_create = Inr ws \<and> writer_repr ws []"
  by (simp add: writer_create_def create_from_prepared_def prepared_create_def writer_repr_def
      spec_payloads_def fmt_consts)

lemma entry_write_all:
  assumes "unat w + length (concat chunks) < 2 ^ 32"
  shows "for_each entry_write chunks (base, w) =
    Some (base @ concat chunks, w + of_nat (length (concat chunks)))"
  using assms
proof (induction chunks arbitrary: base w)
  case (Cons c chunks)
  have c: "unat (of_nat (length c) :: u64) = length c"
    using Cons.prems by (intro unat_of_nat_u64) simp
  have sat: "saturating_add w (of_nat (length c)) = w + of_nat (length c)"
    using Cons.prems by (simp add: saturating_add_def c)
  have u: "unat (w + of_nat (length c)) = unat w + length c"
    using Cons.prems by (subst unat_plus_if') (simp add: c)
  have "entry_write c (base, w) = Some (base @ c, w + of_nat (length c))"
    using Cons.prems by (simp add: entry_write_def sat u Let_def)
  with Cons.IH [of "w + of_nat (length c)" "base @ c"] Cons.prems show ?case
    by (simp add: u add.assoc)
qed simp

lemma spec_pending_append: "i < length L \<Longrightarrow> spec_pending (L @ [x]) i = spec_pending L i"
  by (simp add: spec_pending_def nth_append spec_payloads_def str_off_def split: prod.split)

lemma writer_repr_push:
  assumes "writer_repr ws L" "length p < 2 ^ 32" "length (ws_file ws) + length p < 2 ^ 64"
  shows "writer_repr (ws\<lparr>ws_file := ws_file ws @ p,
      ws_entries := ws_entries ws @ [\<lparr>pe_key = k, pe_body_hash = h,
        pe_payload_offset = ws_next_payload_offset ws, pe_payload_len = of_nat (length p)\<rparr>],
      ws_next_payload_offset := ws_next_payload_offset ws + of_nat (length p)\<rparr>) (L @ [(k, h, p)])"
proof -
  have "map (spec_pending (L @ [(k, h, p)])) [0..<length L] = map (spec_pending L) [0..<length L]"
    by (simp add: spec_pending_append)
  moreover have "spec_pending (L @ [(k, h, p)]) (length L) = \<lparr>pe_key = k, pe_body_hash = h,
        pe_payload_offset = ws_next_payload_offset ws, pe_payload_len = of_nat (length p)\<rparr>"
    using assms(1) by (simp add: spec_pending_def writer_repr_def str_off_def spec_payloads_def)
  ultimately show ?thesis
    using assms by (auto simp: writer_repr_def spec_payloads_def)
qed

lemma writer_step_repr:
  assumes "writer_repr ws L" "cmd_ok cmd" "cmd_spec cmd = (k, h, p)"
    "length (ws_file ws) + length p < 2 ^ 64"
  shows "\<exists>ws'. writer_step t ph cmd ws = WO_continue ws' \<and> writer_repr ws' (L @ [(k, h, p)])
    \<and> length (ws_file ws') = length (ws_file ws) + length p"
proof (cases cmd)
  case (CmdEntry k' h' p')
  with assms have e: "k' = k" "h' = h" "p' = p" "length p < 2 ^ 32" by auto
  show ?thesis
    using writer_repr_push [OF assms(1) e(4) assms(4), of k h] e
    by (simp add: CmdEntry writer_step_def try_u32_def)
next
  case (CmdStreamEntry k' h' cs b)
  with assms have e: "k' = k" "h' = h" "concat cs = p" "length p < 2 ^ 32" b by auto
  have fe: "for_each entry_write cs (ws_file ws, 0) = Some (ws_file ws @ p, of_nat (length p))"
    using entry_write_all [of 0 cs "ws_file ws"] e by simp
  have u: "unat (of_nat (length p) :: u64) = length p" using e(4) by (intro unat_of_nat_u64) simp
  have n: "ws_next_payload_offset ws = of_nat (length (ws_file ws))" "length (ws_file ws) < 2 ^ 64"
    using assms(1) by (auto simp: writer_repr_def)
  have sat: "saturating_add (ws_next_payload_offset ws) (of_nat (length p)) =
      ws_next_payload_offset ws + of_nat (length p)"
    using assms(4) n by (simp add: saturating_add_def u unat_of_nat_u64)
  show ?thesis
    using writer_repr_push [OF assms(1) e(4) assms(4), of k h] e
    by (simp add: CmdStreamEntry writer_step_def fe u try_u32_def sat)
qed (use assms in auto)

lemma run_writer_repr:
  assumes "writer_repr ws L" "list_all cmd_ok cmds"
    "length (ws_file ws) + length (concat (spec_payloads (map cmd_spec cmds))) < 2 ^ 64"
  shows "\<exists>ws'. run_writer_thread t ph (cmds @ rest) ws = run_writer_thread t ph rest ws'
    \<and> writer_repr ws' (L @ map cmd_spec cmds)"
  using assms
proof (induction cmds arbitrary: ws L)
  case (Cons cmd cmds)
  obtain k h p where sp: "cmd_spec cmd = (k, h, p)" by (cases "cmd_spec cmd") auto
  have len: "length (ws_file ws) + length p + length (concat (spec_payloads (map cmd_spec cmds))) < 2 ^ 64"
    using Cons.prems(3) sp by (simp add: spec_payloads_def)
  obtain ws1 where ws1: "writer_step t ph cmd ws = WO_continue ws1" "writer_repr ws1 (L @ [(k, h, p)])"
      "length (ws_file ws1) = length (ws_file ws) + length p"
    using writer_step_repr [OF Cons.prems(1) _ sp] Cons.prems(2) len by force
  with Cons.IH [OF ws1(2)] Cons.prems(2) len sp show ?case by simp
qed auto

lemma sorted_find_duplicate:
  assumes "sorted (map pe_key es)"
  shows "find_duplicate es = None \<longleftrightarrow> distinct (map pe_key es)"
  using assms
proof (induction es)
  case (Cons a es)
  then show ?case
  proof (cases es)
    case (Cons b fs)
    have "find_duplicate (a # es) = None \<longleftrightarrow> pe_key a \<noteq> pe_key b \<and> find_duplicate es = None"
      by (auto simp: find_duplicate_def entries_windows_def Cons)
    with Cons.IH Cons.prems Cons show ?thesis by fastforce
  qed (simp add: find_duplicate_def entries_windows_def)
qed (simp add: find_duplicate_def entries_windows_def)

end
