(* ===== verification/Fact_Reader.thy ===== *)
theory Fact_Reader
  imports String_Pool
begin

text \<open>
  The validating reader of the fact store, \<^verbatim>\<open>crates/factstore/src/reader.rs\<close>.

  A file is its byte list; a positioned read past its end is an error, the operating system's own
  I/O failures are not modelled. \<open>None\<close> is a panic, \<open>Inl\<close> an error. Shown: opening a file of any content never
  panics, and on a file that opens every lookup succeeds and stays inside the payload section.
\<close>

section \<open>The reader\<close>

record fact_store_reader =
  fr_file :: bytes
  fr_header :: header
  fr_index_bytes :: bytes
  fr_string_pool_bytes :: bytes
  fr_string_pool_offsets :: bytes

record lookup_hit =
  lh_body_hash :: u64
  lh_payload :: bytes

definition read_exact_at :: "bytes \<Rightarrow> u64 \<Rightarrow> nat \<Rightarrow> fact_store_error + bytes" where
  "read_exact_at file offset len =
     (if len = 0 \<or> unat offset + len \<le> length file
      then Inr (subrange (unat offset) (unat offset + len) file)
      else Inl (FS_Io IO_unexpected_eof))"

definition section_bounds :: "header \<Rightarrow> (u64 \<times> u64) list" where
  "section_bounds h =
     [(hdr_string_pool_offset h, hdr_string_pool_bytes_len h),
      (saturating_add (hdr_string_pool_offset h) (hdr_string_pool_bytes_len h),
       saturating_mul (saturating_add (hdr_string_count h) 1) 4),
      (hdr_index_offset h, saturating_mul (hdr_index_count h) (of_nat INDEX_ENTRY_SIZE)),
      (hdr_payload_offset h, hdr_payload_len h)]"

fun check_bounds :: "u64 \<Rightarrow> (u64 \<times> u64) list \<Rightarrow> fact_store_error option" where
  "check_bounds file_len [] = None"
| "check_bounds file_len ((offset, len) # bs) =
     (case checked_add offset len of
        None \<Rightarrow> Some (FS_Truncated (- 1) file_len)
      | Some end \<Rightarrow>
          (if file_len < end then Some (FS_Truncated end file_len) else check_bounds file_len bs))"

definition validate_section_bounds :: "header \<Rightarrow> u64 \<Rightarrow> fact_store_error option" where
  "validate_section_bounds h file_len = check_bounds file_len (section_bounds h)"

definition load_string_pool :: "bytes \<Rightarrow> header \<Rightarrow> fact_store_error + (bytes \<times> bytes)" where
  "load_string_pool file h =
     (case try_u32 (unat (hdr_string_count h)) of
        None \<Rightarrow> Inl (FS_BadStringPool SP_string_count_range)
      | Some count \<Rightarrow>
     (case try_u32 (unat (hdr_string_pool_bytes_len h)) of
        None \<Rightarrow> Inl (FS_BadStringPool SP_string_bytes_range)
      | Some bytes_len \<Rightarrow>
     (case read_exact_at file (hdr_string_pool_offset h) (unat bytes_len) of
        Inl e \<Rightarrow> Inl e
      | Inr bs \<Rightarrow>
     (case read_exact_at file (hdr_string_pool_offset h + hdr_string_pool_bytes_len h)
             ((unat count + 1) * 4) of
        Inl e \<Rightarrow> Inl e
      | Inr offs \<Rightarrow>
     (case spv_new bs offs count of Inl e \<Rightarrow> Inl e | Inr _ \<Rightarrow> Inr (bs, offs))))))"

text \<open>The multiplication of the row count wraps at the width of \<^verbatim>\<open>usize\<close>.\<close>

definition load_index :: "bytes \<Rightarrow> header \<Rightarrow> fact_store_error + bytes" where
  "load_index file h =
     (let len = unat (hdr_index_count h) * INDEX_ENTRY_SIZE mod 2 ^ 64 in
      read_exact_at file (hdr_index_offset h) len)"

text \<open>Row \<open>i\<close> of the resident index; slicing past its end panics.\<close>

definition index_row :: "bytes \<Rightarrow> nat \<Rightarrow> bytes option" where
  "index_row index i = vec_slice index (i * INDEX_ENTRY_SIZE) ((i + 1) * INDEX_ENTRY_SIZE)"

fun validate_rows ::
    "header \<Rightarrow> bytes \<Rightarrow> u64 \<Rightarrow> nat list \<Rightarrow> u64 \<Rightarrow> fact_store_error option option" where
  "validate_rows h index payload_section_end [] prev_key = Some None"
| "validate_rows h index payload_section_end (i # is) prev_key = do {
     row \<leftarrow> index_row index i;
     case index_entry_from_bytes row of
       None \<Rightarrow> Some (Some (FS_BadIndexEntry i))
     | Some e \<Rightarrow>
         (if 0 < i \<and> ie_key e < prev_key then Some (Some FS_UnsortedIndex)
          else if 0 < i \<and> ie_key e = prev_key then Some (Some (FS_DuplicateKey (ie_key e)))
          else case checked_add (ie_payload_offset e) (ucast (ie_payload_len e)) of
            None \<Rightarrow> Some (Some (FS_BadIndexEntry i))
          | Some payload_end \<Rightarrow>
              (if ie_payload_offset e < hdr_payload_offset h \<or> payload_section_end < payload_end
               then Some (Some (FS_BadIndexEntry i))
               else validate_rows h index payload_section_end is (ie_key e)))
   }"

definition validate_index_sorted_and_bounded :: "header \<Rightarrow> bytes \<Rightarrow> fact_store_error option option" where
  "validate_index_sorted_and_bounded h index =
     (let count = unat (hdr_index_count h) in
      if count = 0 then Some None
      else case checked_add (hdr_payload_offset h) (hdr_payload_len h) of
        None \<Rightarrow> Some (Some (FS_Truncated (- 1) (hdr_payload_offset h)))
      | Some payload_section_end \<Rightarrow> validate_rows h index payload_section_end [0..<count] 0)"

text \<open>The part the two constructors share once the header has been accepted.\<close>

definition open_sections :: "bytes \<Rightarrow> header \<Rightarrow> (fact_store_error + fact_store_reader) option" where
  "open_sections file h =
     (case validate_section_bounds h (of_nat (length file)) of
        Some e \<Rightarrow> Some (Inl e)
      | None \<Rightarrow>
     (case load_string_pool file h of
        Inl e \<Rightarrow> Some (Inl e)
      | Inr (pool_bytes, pool_offsets) \<Rightarrow>
     (case load_index file h of
        Inl e \<Rightarrow> Some (Inl e)
      | Inr index \<Rightarrow> do {
          bad \<leftarrow> validate_index_sorted_and_bounded h index;
          Some (case bad of
              Some e \<Rightarrow> Inl e
            | None \<Rightarrow> Inr \<lparr>fr_file = file, fr_header = h, fr_index_bytes = index,
                fr_string_pool_bytes = pool_bytes, fr_string_pool_offsets = pool_offsets\<rparr>)
        })))"

definition reader_open :: "bytes \<Rightarrow> u32 \<Rightarrow> u64 \<Rightarrow> (fact_store_error + fact_store_reader) option" where
  "reader_open file expected_table_id expected_pipeline_hash =
     (if length file < HEADER_SIZE
      then Some (Inl (FS_Truncated (of_nat HEADER_SIZE) (of_nat (length file))))
      else case header_from_bytes (take HEADER_SIZE file) of
        None \<Rightarrow> Some (Inl FS_BadMagic)
      | Some h \<Rightarrow>
          (if hdr_format_version h \<noteq> FORMAT_VERSION
           then Some (Inl (FS_VersionMismatch (hdr_format_version h) FORMAT_VERSION))
           else if hdr_table_id h \<noteq> expected_table_id
           then Some (Inl (FS_WrongTable (hdr_table_id h) expected_table_id))
           else if hdr_pipeline_hash h \<noteq> expected_pipeline_hash
           then Some (Inl (FS_PipelineMismatch (hdr_pipeline_hash h) expected_pipeline_hash))
           else open_sections file h))"

definition reader_open_relaxed :: "bytes \<Rightarrow> (fact_store_error + fact_store_reader) option" where
  "reader_open_relaxed file =
     (if length file < HEADER_SIZE
      then Some (Inl (FS_Truncated (of_nat HEADER_SIZE) (of_nat (length file))))
      else case header_from_bytes (take HEADER_SIZE file) of
        None \<Rightarrow> Some (Inl FS_BadMagic)
      | Some h \<Rightarrow>
          (if hdr_format_version h \<noteq> FORMAT_VERSION
           then Some (Inl (FS_VersionMismatch (hdr_format_version h) FORMAT_VERSION))
           else open_sections file h))"

definition reader_len :: "fact_store_reader \<Rightarrow> nat" where
  "reader_len r = unat (hdr_index_count (fr_header r))"

definition reader_is_empty :: "fact_store_reader \<Rightarrow> bool" where
  "reader_is_empty r \<longleftrightarrow> hdr_index_count (fr_header r) = 0"

text \<open>The binary search over the raw index; the outer option is a panic of the key slice.\<close>

function bsi_loop :: "bytes \<Rightarrow> u64 \<Rightarrow> nat \<Rightarrow> nat \<Rightarrow> nat option option" where
  "bsi_loop index key lo hi =
     (if lo < hi then
        (let mid = lo + (hi - lo) div 2 in do {
           key_bytes \<leftarrow> vec_slice index (mid * INDEX_ENTRY_SIZE) (mid * INDEX_ENTRY_SIZE + 8);
           let mid_key = u64_from_le key_bytes;
           if mid_key = key then Some (Some mid)
           else if mid_key < key then bsi_loop index key (mid + 1) hi
           else bsi_loop index key lo mid
         })
      else Some None)"
  by pat_completeness auto
termination
  by (relation "measure (\<lambda>(index, key, lo, hi). hi - lo)") auto

declare bsi_loop.simps [simp del]

definition binary_search_index :: "bytes \<Rightarrow> nat \<Rightarrow> u64 \<Rightarrow> nat option option" where
  "binary_search_index index count key = bsi_loop index key 0 count"

definition reader_contains_key :: "fact_store_reader \<Rightarrow> u64 \<Rightarrow> bool option" where
  "reader_contains_key r key = do {
     row \<leftarrow> binary_search_index (fr_index_bytes r) (reader_len r) key;
     Some (row \<noteq> None)
   }"

text \<open>The common head of the lookups: search, then decode the row.\<close>

definition reader_entry :: "fact_store_reader \<Rightarrow> u64 \<Rightarrow> (fact_store_error + index_entry option) option" where
  "reader_entry r key = do {
     hit \<leftarrow> binary_search_index (fr_index_bytes r) (reader_len r) key;
     case hit of
       None \<Rightarrow> Some (Inr None)
     | Some row \<Rightarrow> do {
         bs \<leftarrow> index_row (fr_index_bytes r) row;
         Some (case index_entry_from_bytes bs of
             None \<Rightarrow> Inl (FS_BadIndexEntry row)
           | Some e \<Rightarrow> Inr (Some e))
       }
   }"

definition reader_entry_metadata ::
    "fact_store_reader \<Rightarrow> u64 \<Rightarrow> (fact_store_error + (u64 \<times> u32) option) option" where
  "reader_entry_metadata r key = do {
     e \<leftarrow> reader_entry r key;
     Some (case e of
         Inl err \<Rightarrow> Inl err
       | Inr None \<Rightarrow> Inr None
       | Inr (Some e) \<Rightarrow> Inr (Some (ie_body_hash e, ie_payload_len e)))
   }"

definition reader_string_pool :: "fact_store_reader \<Rightarrow> string_pool_view" where
  "reader_string_pool r = spv_from_validated_sections (fr_string_pool_bytes r)
     (fr_string_pool_offsets r) (ucast (hdr_string_count (fr_header r)))"

definition reader_get :: "fact_store_reader \<Rightarrow> u64 \<Rightarrow> (fact_store_error + lookup_hit option) option" where
  "reader_get r key = do {
     e \<leftarrow> reader_entry r key;
     Some (case e of
         Inl err \<Rightarrow> Inl err
       | Inr None \<Rightarrow> Inr None
       | Inr (Some e) \<Rightarrow>
           (case read_exact_at (fr_file r) (ie_payload_offset e) (unat (ie_payload_len e)) of
              Inl err \<Rightarrow> Inl err
            | Inr buf \<Rightarrow> Inr (Some \<lparr>lh_body_hash = ie_body_hash e, lh_payload = buf\<rparr>)))
   }"

text \<open>A positioned reader over one entry: its window, and one \<^verbatim>\<open>read\<close> into a buffer of a given size.\<close>

record payload_reader =
  pr_body_hash :: u64
  pr_offset :: u64
  pr_remaining :: u64

definition positioned_read ::
    "bytes \<Rightarrow> payload_reader \<Rightarrow> nat \<Rightarrow> fact_store_error + (bytes \<times> payload_reader)" where
  "positioned_read file pr buf_len =
     (if pr_remaining pr = 0 \<or> buf_len = 0 then Inr ([], pr)
      else let len = min (unat (pr_remaining pr)) buf_len in
        case read_exact_at file (pr_offset pr) len of
          Inl e \<Rightarrow> Inl e
        | Inr bs \<Rightarrow> Inr (bs, pr\<lparr>pr_offset := saturating_add (pr_offset pr) (of_nat len),
                               pr_remaining := saturating_sub (pr_remaining pr) (of_nat len)\<rparr>))"

definition reader_payload_reader ::
    "fact_store_reader \<Rightarrow> u64 \<Rightarrow> (fact_store_error + payload_reader option) option" where
  "reader_payload_reader r key = do {
     e \<leftarrow> reader_entry r key;
     Some (case e of
         Inl err \<Rightarrow> Inl err
       | Inr None \<Rightarrow> Inr None
       | Inr (Some e) \<Rightarrow> Inr (Some \<lparr>pr_body_hash = ie_body_hash e,
           pr_offset = ie_payload_offset e, pr_remaining = ucast (ie_payload_len e)\<rparr>))
   }"

text \<open>The range test \<^verbatim>\<open>relative_offset.checked_add(length).filter(|end| *end <= payload_length)\<close>.\<close>

definition range_ok :: "u64 \<Rightarrow> u64 \<Rightarrow> u64 \<Rightarrow> bool" where
  "range_ok relative_offset len payload_length =
     (case checked_add relative_offset len of None \<Rightarrow> False | Some end \<Rightarrow> end \<le> payload_length)"

definition reader_payload_range_reader ::
    "fact_store_reader \<Rightarrow> u64 \<Rightarrow> u64 \<Rightarrow> u64 \<Rightarrow> (fact_store_error + payload_reader option) option" where
  "reader_payload_range_reader r key relative_offset len = do {
     e \<leftarrow> reader_entry r key;
     Some (case e of
         Inl err \<Rightarrow> Inl err
       | Inr None \<Rightarrow> Inr None
       | Inr (Some e) \<Rightarrow>
           (let payload_length = ucast (ie_payload_len e) in
            if \<not> range_ok relative_offset len payload_length
            then Inl (FS_BadPayloadRange key relative_offset len payload_length)
            else Inr (Some \<lparr>pr_body_hash = ie_body_hash e,
              pr_offset = saturating_add (ie_payload_offset e) relative_offset, pr_remaining = len\<rparr>)))
   }"

text \<open>The output buffer is its length; the bytes read are returned, with \<open>None\<close> for a missing key.\<close>

definition reader_read_payload_range ::
    "fact_store_reader \<Rightarrow> u64 \<Rightarrow> u64 \<Rightarrow> nat \<Rightarrow> (fact_store_error + bytes option) option" where
  "reader_read_payload_range r key relative_offset output_len = do {
     e \<leftarrow> reader_entry r key;
     Some (case e of
         Inl err \<Rightarrow> Inl err
       | Inr None \<Rightarrow> Inr None
       | Inr (Some e) \<Rightarrow>
           (let payload_length = ucast (ie_payload_len e) in
            if 2 ^ 64 \<le> output_len
            then Inl (FS_BadPayloadRange key relative_offset (- 1) payload_length)
            else if \<not> range_ok relative_offset (of_nat output_len) payload_length
            then Inl (FS_BadPayloadRange key relative_offset (of_nat output_len) payload_length)
            else case read_exact_at (fr_file r)
                   (saturating_add (ie_payload_offset e) relative_offset) output_len of
              Inl err \<Rightarrow> Inl err
            | Inr bs \<Rightarrow> Inr (Some bs)))
   }"

text \<open>\<^verbatim>\<open>EntryIter::next\<close>: the item and the next cursor; the inner \<open>None\<close> ends the iteration.\<close>

definition entry_iter_next ::
    "fact_store_reader \<Rightarrow> nat \<Rightarrow> ((fact_store_error + u64 \<times> lookup_hit) option \<times> nat) option" where
  "entry_iter_next r cursor =
     (if reader_len r \<le> cursor then Some (None, cursor)
      else do {
        bs \<leftarrow> index_row (fr_index_bytes r) cursor;
        Some (case index_entry_from_bytes bs of
            None \<Rightarrow> (Some (Inl (FS_BadIndexEntry cursor)), cursor + 1)
          | Some e \<Rightarrow>
              (case read_exact_at (fr_file r) (ie_payload_offset e) (unat (ie_payload_len e)) of
                 Inl err \<Rightarrow> (Some (Inl err), cursor + 1)
               | Inr buf \<Rightarrow>
                   (Some (Inr (ie_key e, \<lparr>lh_body_hash = ie_body_hash e, lh_payload = buf\<rparr>)), cursor + 1)))
      })"

section \<open>Rows of the index\<close>

definition row_of :: "bytes \<Rightarrow> nat \<Rightarrow> index_entry" where
  "row_of index i =
     (case index_entry_from_bytes (subrange (i * INDEX_ENTRY_SIZE) ((i + 1) * INDEX_ENTRY_SIZE) index) of
        Some e \<Rightarrow> e
      | None \<Rightarrow> \<lparr>ie_key = 0, ie_body_hash = 0, ie_payload_offset = 0, ie_payload_len = 0, ie_reserved = 0\<rparr>)"

lemma subrange_length: "j \<le> length xs \<Longrightarrow> length (subrange i j xs) = j - i"
  by (simp add: subrange_def)

lemma subrange_subrange: "b \<le> k - i \<Longrightarrow> subrange a b (subrange i k xs) = subrange (i + a) (i + b) xs"
  by (simp add: subrange_def drop_take min_absorb1 add.commute)

lemma row_decodes:
  assumes "length index = n * INDEX_ENTRY_SIZE" "i < n"
  shows "index_row index i = Some (subrange (i * INDEX_ENTRY_SIZE) ((i + 1) * INDEX_ENTRY_SIZE) index)"
    "index_entry_from_bytes (subrange (i * INDEX_ENTRY_SIZE) ((i + 1) * INDEX_ENTRY_SIZE) index) =
      Some (row_of index i)"
    "vec_slice index (i * INDEX_ENTRY_SIZE) (i * INDEX_ENTRY_SIZE + 8) =
      Some (subrange (i * INDEX_ENTRY_SIZE) (i * INDEX_ENTRY_SIZE + 8) index)"
    "u64_from_le (subrange (i * INDEX_ENTRY_SIZE) (i * INDEX_ENTRY_SIZE + 8) index) = ie_key (row_of index i)"
proof -
  have le: "(i + 1) * INDEX_ENTRY_SIZE \<le> length index"
    using assms by (metis Suc_eq_plus1 Suc_leI mult_le_mono1)
  then show "index_row index i = Some (subrange (i * INDEX_ENTRY_SIZE) ((i + 1) * INDEX_ENTRY_SIZE) index)"
    unfolding index_row_def by (intro vec_slice_subrange) auto
  obtain e where e: "index_entry_from_bytes (subrange (i * INDEX_ENTRY_SIZE) ((i + 1) * INDEX_ENTRY_SIZE) index) = Some e"
      "ie_key e = u64_from_le (subrange 0 8 (subrange (i * INDEX_ENTRY_SIZE) ((i + 1) * INDEX_ENTRY_SIZE) index))"
    using index_entry_decodes [of "subrange (i * INDEX_ENTRY_SIZE) ((i + 1) * INDEX_ENTRY_SIZE) index"]
      subrange_length [OF le] by auto
  then show "index_entry_from_bytes (subrange (i * INDEX_ENTRY_SIZE) ((i + 1) * INDEX_ENTRY_SIZE) index) =
      Some (row_of index i)" by (simp add: row_of_def)
  show "u64_from_le (subrange (i * INDEX_ENTRY_SIZE) (i * INDEX_ENTRY_SIZE + 8) index) = ie_key (row_of index i)"
    using e by (simp add: row_of_def subrange_subrange fmt_consts)
  show "vec_slice index (i * INDEX_ENTRY_SIZE) (i * INDEX_ENTRY_SIZE + 8) =
      Some (subrange (i * INDEX_ENTRY_SIZE) (i * INDEX_ENTRY_SIZE + 8) index)"
    using le by (intro vec_slice_subrange) (auto simp: fmt_consts)
qed

definition row_bounded :: "header \<Rightarrow> u64 \<Rightarrow> index_entry \<Rightarrow> bool" where
  "row_bounded h pend e \<longleftrightarrow> unat (hdr_payload_offset h) \<le> unat (ie_payload_offset e)
     \<and> unat (ie_payload_offset e) + unat (ie_payload_len e) \<le> unat pend"

definition rows_valid :: "header \<Rightarrow> bytes \<Rightarrow> u64 \<Rightarrow> nat \<Rightarrow> nat \<Rightarrow> bool" where
  "rows_valid h index pend a n \<longleftrightarrow> (\<forall>i. a \<le> i \<and> i < n \<longrightarrow> row_bounded h pend (row_of index i)
     \<and> (0 < i \<longrightarrow> ie_key (row_of index (i - 1)) < ie_key (row_of index i)))"

lemma unat_ucast_u32_u64: "unat (ucast (w :: u32) :: u64) = unat w"
proof -
  have "unat w < 2 ^ 64" using unsigned_less [of w, where ?'a = nat] by simp
  then show ?thesis by (simp add: unsigned_ucast_eq take_bit_nat_eq_self)
qed

lemma row_bounded_check:
  "row_bounded h pend e \<longleftrightarrow> (case checked_add (ie_payload_offset e) (ucast (ie_payload_len e)) of
     None \<Rightarrow> False
   | Some payload_end \<Rightarrow> \<not> (ie_payload_offset e < hdr_payload_offset h \<or> pend < payload_end))"
proof (cases "checked_add (ie_payload_offset e) (ucast (ie_payload_len e))")
  case None
  then show ?thesis
    using unsigned_less [of pend, where ?'a = nat]
    by (auto simp: checked_add_def row_bounded_def unat_ucast_u32_u64 split: if_splits)
next
  case (Some c)
  then have "unat c = unat (ie_payload_offset e) + unat (ie_payload_len e)"
    by (simp add: checked_add_unat unat_ucast_u32_u64)
  with Some show ?thesis by (auto simp: row_bounded_def word_less_nat_alt)
qed

lemma validate_rows_iff:
  assumes "length index = n * INDEX_ENTRY_SIZE" "a \<le> n" "0 < a \<longrightarrow> prev = ie_key (row_of index (a - 1))"
  shows "\<exists>r. validate_rows h index pend [a..<n] prev = Some r \<and> (r = None \<longleftrightarrow> rows_valid h index pend a n)"
  using assms(2,3)
proof (induction "n - a" arbitrary: a prev)
  case 0
  then show ?case by (auto simp: rows_valid_def)
next
  case (Suc d)
  then have a: "a < n" by simp
  define e where "e = row_of index a"
  define here where "here \<longleftrightarrow> row_bounded h pend e \<and> (0 < a \<longrightarrow> prev < ie_key e)"
  have split: "rows_valid h index pend a n \<longleftrightarrow> here \<and> rows_valid h index pend (Suc a) n"
    unfolding rows_valid_def here_def e_def using a Suc.prems(2)
    by (metis (no_types, lifting) Suc_leD Suc_leI le_neq_implies_less order_refl)
  have step: "validate_rows h index pend [a..<n] prev =
      (if here then validate_rows h index pend [Suc a..<n] (ie_key e)
       else validate_rows h index pend [a..<n] prev)"
    using row_decodes(1,2) [OF assms(1) a] row_bounded_check [of h pend e]
    by (auto simp: here_def upt_conv_Cons [OF a] e_def not_less split: option.splits)
  show ?case
  proof (cases here)
    case True
    then have eq: "validate_rows h index pend [a..<n] prev = validate_rows h index pend [Suc a..<n] (ie_key e)"
      using step by simp
    show ?thesis unfolding eq split
      using Suc.hyps(1) [of "Suc a" "ie_key e"] Suc.hyps(2) a True by (auto simp: e_def)
  next
    case False
    have "\<exists>x. validate_rows h index pend [a..<n] prev = Some (Some x)"
      using False row_decodes(1,2) [OF assms(1) a] row_bounded_check [of h pend e]
      by (auto simp: here_def upt_conv_Cons [OF a] not_less simp flip: e_def split: option.splits)
    with False split show ?thesis by auto
  qed
qed

lemma rows_sorted:
  assumes "rows_valid h index pend 0 n" "i < j" "j < n"
  shows "ie_key (row_of index i) < ie_key (row_of index j)"
  using assms(2,3)
proof (induction j)
  case (Suc j)
  have "ie_key (row_of index j) < ie_key (row_of index (Suc j))"
    using assms(1) Suc.prems(2) by (force simp: rows_valid_def)
  with Suc show ?case by (cases "i = j") auto
qed simp

lemma bsi_loop_spec:
  assumes len: "length index = n * INDEX_ENTRY_SIZE"
    and srt: "\<And>i j. i < j \<Longrightarrow> j < n \<Longrightarrow> ie_key (row_of index i) < ie_key (row_of index j)"
    and "hi \<le> n" "\<And>i. i < lo \<Longrightarrow> ie_key (row_of index i) < key"
    "\<And>i. hi \<le> i \<Longrightarrow> i < n \<Longrightarrow> key < ie_key (row_of index i)" "lo \<le> hi"
  shows "\<exists>r. bsi_loop index key lo hi = Some r \<and> (case r of
      Some m \<Rightarrow> m < n \<and> ie_key (row_of index m) = key
    | None \<Rightarrow> \<forall>i < n. ie_key (row_of index i) \<noteq> key)"
  using assms(3-)
proof (induction "hi - lo" arbitrary: lo hi rule: less_induct)
  case less
  define mid where "mid = lo + (hi - lo) div 2"
  show ?case
  proof (cases "lo < hi")
    case False
    then have "lo = hi" using less.prems(4) by simp
    with less.prems show ?thesis
      by (subst bsi_loop.simps) (auto, metis less_irrefl not_le)
  next
    case True
    then have mid: "lo \<le> mid" "mid < hi" "mid < n" using less.prems(1) by (auto simp: mid_def)
    define mk where "mk = ie_key (row_of index mid)"
    have eq: "bsi_loop index key lo hi = (if mk = key then Some (Some mid)
        else if mk < key then bsi_loop index key (mid + 1) hi else bsi_loop index key lo mid)"
      using True row_decodes(3,4) [OF len mid(3)]
      by (subst bsi_loop.simps) (simp add: Let_def mk_def flip: mid_def)
    consider "mk = key" | "mk < key" | "key < mk" by fastforce
    then show ?thesis
    proof cases
      case 1
      with eq mid show ?thesis by (auto simp: mk_def)
    next
      case 2
      have "ie_key (row_of index i) < key" if "i < mid + 1" for i
        using that srt [of i mid] mid 2 by (cases "i = mid") (auto simp: mk_def)
      with less.hyps [of hi "mid + 1"] less.prems mid eq 2 show ?thesis by (simp add: less_imp_neq)
    next
      case 3
      have "key < ie_key (row_of index i)" if "mid \<le> i" "i < n" for i
        using that srt [of mid i] 3 by (cases "i = mid") (auto simp: mk_def)
      with less.hyps [of mid lo] less.prems mid eq 3 show ?thesis by auto
    qed
  qed
qed

section \<open>What a file that opens promises\<close>

definition reader_ok :: "fact_store_reader \<Rightarrow> bool" where
  "reader_ok r \<longleftrightarrow>
     length (fr_index_bytes r) = reader_len r * INDEX_ENTRY_SIZE
     \<and> unat (hdr_payload_offset (fr_header r)) + unat (hdr_payload_len (fr_header r)) \<le> length (fr_file r)
     \<and> length (fr_file r) < 2 ^ 63
     \<and> rows_valid (fr_header r) (fr_index_bytes r)
         (hdr_payload_offset (fr_header r) + hdr_payload_len (fr_header r)) 0 (reader_len r)
     \<and> spv_new (fr_string_pool_bytes r) (fr_string_pool_offsets r)
         (ucast (hdr_string_count (fr_header r))) = Inr (reader_string_pool r)"

lemma check_bounds_None:
  "check_bounds fl bs = None \<longleftrightarrow> (\<forall>(off, len) \<in> set bs. unat off + unat len \<le> unat fl)"
proof (induction bs)
  case (Cons b bs)
  obtain off len where b: "b = (off, len)" by force
  show ?case
  proof (cases "checked_add off len")
    case None
    then have "2 ^ 64 \<le> unat off + unat len" by (simp add: checked_add_def split: if_splits)
    moreover have "unat fl < 2 ^ 64" using unsigned_less [of fl, where ?'a = nat] by simp
    ultimately show ?thesis using None by (simp add: b)
  next
    case (Some c)
    then have "unat c = unat off + unat len" by (rule checked_add_unat)
    with Some Cons show ?thesis by (auto simp: b word_less_nat_alt)
  qed
qed simp

lemma section_bounds_fit:
  assumes "validate_section_bounds h (of_nat (length file)) = None" "length file < 2 ^ 63"
  shows "unat (hdr_string_pool_offset h) + unat (hdr_string_pool_bytes_len h) \<le> length file"
    "unat (hdr_string_pool_offset h) + unat (hdr_string_pool_bytes_len h)
       + (unat (hdr_string_count h) + 1) * 4 \<le> length file"
    "unat (hdr_index_offset h) + unat (hdr_index_count h) * INDEX_ENTRY_SIZE \<le> length file"
    "unat (hdr_payload_offset h) + unat (hdr_payload_len h) \<le> length file"
proof -
  have fl: "unat (of_nat (length file) :: u64) = length file" using assms(2) by (intro unat_of_nat_u64) simp
  note c = assms(1) [unfolded validate_section_bounds_def check_bounds_None section_bounds_def, simplified]
  show "unat (hdr_string_pool_offset h) + unat (hdr_string_pool_bytes_len h) \<le> length file"
    "unat (hdr_payload_offset h) + unat (hdr_payload_len h) \<le> length file"
    using c by (simp_all add: fl)
  then show "unat (hdr_string_pool_offset h) + unat (hdr_string_pool_bytes_len h)
       + (unat (hdr_string_count h) + 1) * 4 \<le> length file"
    using c assms(2) by (auto simp: fl rust_arith min_def split: if_splits)
  show "unat (hdr_index_offset h) + unat (hdr_index_count h) * INDEX_ENTRY_SIZE \<le> length file"
    using c assms(2) by (auto simp: fl rust_arith min_def fmt_consts split: if_splits)
qed

lemma read_exact_at_in:
  "unat off + len \<le> length file \<Longrightarrow> read_exact_at file off len = Inr (subrange (unat off) (unat off + len) file)"
  by (simp add: read_exact_at_def)

lemma load_index_len:
  assumes "validate_section_bounds h (of_nat (length file)) = None" "length file < 2 ^ 63"
  obtains index where "load_index file h = Inr index"
    "index = subrange (unat (hdr_index_offset h))
       (unat (hdr_index_offset h) + unat (hdr_index_count h) * INDEX_ENTRY_SIZE) file"
    "length index = unat (hdr_index_count h) * INDEX_ENTRY_SIZE"
proof -
  note fit = section_bounds_fit(3) [OF assms]
  then have "unat (hdr_index_count h) * INDEX_ENTRY_SIZE < 2 ^ 64" using assms(2) by simp
  then have "load_index file h = Inr (subrange (unat (hdr_index_offset h))
       (unat (hdr_index_offset h) + unat (hdr_index_count h) * INDEX_ENTRY_SIZE) file)"
    using fit by (simp add: load_index_def read_exact_at_in)
  then show thesis by (rule that) (use subrange_length [OF fit] in auto)
qed

lemma validate_index_total:
  assumes "length index = unat (hdr_index_count h) * INDEX_ENTRY_SIZE"
    and "unat (hdr_payload_offset h) + unat (hdr_payload_len h) < 2 ^ 64"
  shows "\<exists>b. validate_index_sorted_and_bounded h index = Some b \<and> (b = None \<longleftrightarrow>
    rows_valid h index (hdr_payload_offset h + hdr_payload_len h) 0 (unat (hdr_index_count h)))"
proof (cases "unat (hdr_index_count h) = 0")
  case True
  then show ?thesis by (simp add: validate_index_sorted_and_bounded_def rows_valid_def)
next
  case False
  moreover have "checked_add (hdr_payload_offset h) (hdr_payload_len h) =
      Some (hdr_payload_offset h + hdr_payload_len h)"
    using assms(2) by (simp add: checked_add_def)
  ultimately show ?thesis
    using validate_rows_iff [OF assms(1), of 0 0 h "hdr_payload_offset h + hdr_payload_len h"]
    by (simp add: validate_index_sorted_and_bounded_def Let_def)
qed

lemma load_string_pool_valid:
  assumes "load_string_pool file h = Inr (pb, po)"
  shows "\<exists>v. spv_new pb po (ucast (hdr_string_count h)) = Inr v"
proof -
  obtain c where "try_u32 (unat (hdr_string_count h)) = Some c" "\<exists>v. spv_new pb po c = Inr v"
    using assms by (auto simp: load_string_pool_def split: option.splits sum.splits)
  moreover from this have "c = ucast (hdr_string_count h)"
    by (auto simp: try_u32_def split: if_splits)
  ultimately show ?thesis by simp
qed

text \<open>Opening never panics, and what it returns satisfies the invariant of the reader.\<close>

lemma open_sections_spec:
  assumes "length file < 2 ^ 63"
  shows "\<exists>x. open_sections file h = Some x \<and>
    (\<forall>r. x = Inr r \<longrightarrow> reader_ok r \<and> fr_file r = file \<and> fr_header r = h)"
proof (cases "validate_section_bounds h (of_nat (length file))")
  case None
  note fit = section_bounds_fit [OF None assms]
  obtain index where index: "load_index file h = Inr index"
      "length index = unat (hdr_index_count h) * INDEX_ENTRY_SIZE"
    by (rule load_index_len [OF None assms])
  obtain b where b: "validate_index_sorted_and_bounded h index = Some b"
      "b = None \<longleftrightarrow> rows_valid h index (hdr_payload_offset h + hdr_payload_len h) 0 (unat (hdr_index_count h))"
    using validate_index_total [OF index(2)] fit(4) assms by force
  show ?thesis
  proof (cases "load_string_pool file h")
    case (Inr bp)
    obtain pb po where bp: "bp = (pb, po)" by force
    obtain v where v: "spv_new pb po (ucast (hdr_string_count h)) = Inr v"
      using load_string_pool_valid Inr bp by blast
    then have "v = spv_from_validated_sections pb po (ucast (hdr_string_count h))"
      by (simp add: spv_new_get(1) spv_from_validated_sections_def)
    with None Inr bp index b v fit(4) assms show ?thesis
      by (cases b) (auto simp: open_sections_def reader_ok_def reader_len_def reader_string_pool_def)
  qed (simp add: open_sections_def None)
qed (simp add: open_sections_def)

lemma reader_open_spec:
  assumes "length file < 2 ^ 63"
  shows "\<exists>x. reader_open file t ph = Some x \<and>
    (\<forall>r. x = Inr r \<longrightarrow> reader_ok r \<and> fr_file r = file \<and> hdr_table_id (fr_header r) = t
       \<and> hdr_pipeline_hash (fr_header r) = ph)"
proof (cases "header_from_bytes (take HEADER_SIZE file)")
  case (Some h)
  then show ?thesis using open_sections_spec [OF assms, of h] by (auto simp: reader_open_def)
qed (simp add: reader_open_def)

section \<open>Lookups on an accepted file\<close>

definition row_hit :: "fact_store_reader \<Rightarrow> nat \<Rightarrow> lookup_hit" where
  "row_hit r i =
     (let e = row_of (fr_index_bytes r) i in
      \<lparr>lh_body_hash = ie_body_hash e,
       lh_payload = subrange (unat (ie_payload_offset e))
         (unat (ie_payload_offset e) + unat (ie_payload_len e)) (fr_file r)\<rparr>)"

lemma reader_entry_spec:
  assumes "reader_ok r"
  shows "\<exists>x. reader_entry r key = Some (Inr x) \<and> (case x of
      None \<Rightarrow> \<forall>i < reader_len r. ie_key (row_of (fr_index_bytes r) i) \<noteq> key
    | Some e \<Rightarrow> \<exists>i < reader_len r. e = row_of (fr_index_bytes r) i \<and> ie_key e = key)"
proof -
  have len: "length (fr_index_bytes r) = reader_len r * INDEX_ENTRY_SIZE"
    and rows: "rows_valid (fr_header r) (fr_index_bytes r)
         (hdr_payload_offset (fr_header r) + hdr_payload_len (fr_header r)) 0 (reader_len r)"
    using assms by (auto simp: reader_ok_def)
  obtain m where m: "binary_search_index (fr_index_bytes r) (reader_len r) key = Some m"
      "case m of Some k \<Rightarrow> k < reader_len r \<and> ie_key (row_of (fr_index_bytes r) k) = key
       | None \<Rightarrow> \<forall>i < reader_len r. ie_key (row_of (fr_index_bytes r) i) \<noteq> key"
    using bsi_loop_spec [OF len rows_sorted [OF rows], of "reader_len r" 0 key]
    by (auto simp: binary_search_index_def)
  show ?thesis
  proof (cases m)
    case (Some k)
    with m row_decodes(1,2) [OF len, of k] show ?thesis by (auto simp: reader_entry_def)
  qed (use m in \<open>simp add: reader_entry_def\<close>)
qed

lemma reader_row_in_file:
  assumes "reader_ok r" "i < reader_len r"
  shows "unat (hdr_payload_offset (fr_header r)) \<le> unat (ie_payload_offset (row_of (fr_index_bytes r) i))"
    "unat (ie_payload_offset (row_of (fr_index_bytes r) i)) + unat (ie_payload_len (row_of (fr_index_bytes r) i))
      \<le> unat (hdr_payload_offset (fr_header r)) + unat (hdr_payload_len (fr_header r))"
    "unat (hdr_payload_offset (fr_header r)) + unat (hdr_payload_len (fr_header r)) \<le> length (fr_file r)"
proof -
  have lt: "unat (hdr_payload_offset (fr_header r)) + unat (hdr_payload_len (fr_header r)) \<le> length (fr_file r)"
      "length (fr_file r) < 2 ^ 63" using assms(1) by (auto simp: reader_ok_def)
  then have "unat (hdr_payload_offset (fr_header r) + hdr_payload_len (fr_header r)) =
      unat (hdr_payload_offset (fr_header r)) + unat (hdr_payload_len (fr_header r))"
    by (subst unat_plus_if') simp
  moreover have "row_bounded (fr_header r) (hdr_payload_offset (fr_header r) + hdr_payload_len (fr_header r))
      (row_of (fr_index_bytes r) i)"
    using assms by (auto simp: reader_ok_def rows_valid_def)
  ultimately show
    "unat (hdr_payload_offset (fr_header r)) \<le> unat (ie_payload_offset (row_of (fr_index_bytes r) i))"
    "unat (ie_payload_offset (row_of (fr_index_bytes r) i)) + unat (ie_payload_len (row_of (fr_index_bytes r) i))
      \<le> unat (hdr_payload_offset (fr_header r)) + unat (hdr_payload_len (fr_header r))"
    by (auto simp: row_bounded_def)
  show "unat (hdr_payload_offset (fr_header r)) + unat (hdr_payload_len (fr_header r)) \<le> length (fr_file r)"
    by (rule lt(1))
qed

lemma reader_get_spec:
  assumes "reader_ok r"
  shows "\<exists>x. reader_get r key = Some (Inr x) \<and> (case x of
      None \<Rightarrow> \<forall>i < reader_len r. ie_key (row_of (fr_index_bytes r) i) \<noteq> key
    | Some hit \<Rightarrow> \<exists>i < reader_len r. ie_key (row_of (fr_index_bytes r) i) = key \<and> hit = row_hit r i)"
proof -
  obtain x where x: "reader_entry r key = Some (Inr x)" "case x of
      None \<Rightarrow> \<forall>i < reader_len r. ie_key (row_of (fr_index_bytes r) i) \<noteq> key
    | Some e \<Rightarrow> \<exists>i < reader_len r. e = row_of (fr_index_bytes r) i \<and> ie_key e = key"
    using reader_entry_spec [OF assms] by blast
  show ?thesis
  proof (cases x)
    case (Some e)
    with x obtain i where i: "i < reader_len r" "e = row_of (fr_index_bytes r) i" "ie_key e = key" by auto
    then have "read_exact_at (fr_file r) (ie_payload_offset e) (unat (ie_payload_len e)) =
        Inr (lh_payload (row_hit r i))"
      using reader_row_in_file [OF assms i(1)] by (simp add: read_exact_at_in row_hit_def Let_def)
    with x Some i show ?thesis by (auto simp: reader_get_def row_hit_def Let_def)
  qed (use x in \<open>simp add: reader_get_def\<close>)
qed

lemma entry_iter_spec:
  assumes "reader_ok r"
  shows "entry_iter_next r i = Some (if i < reader_len r
    then (Some (Inr (ie_key (row_of (fr_index_bytes r) i), row_hit r i)), i + 1) else (None, i))"
proof (cases "i < reader_len r")
  case True
  have len: "length (fr_index_bytes r) = reader_len r * INDEX_ENTRY_SIZE" using assms by (auto simp: reader_ok_def)
  from True row_decodes(1,2) [OF len True] reader_row_in_file [OF assms True] show ?thesis
    by (simp add: entry_iter_next_def read_exact_at_in row_hit_def Let_def)
qed (simp add: entry_iter_next_def)

section \<open>Properties\<close>

lemma reader_open_ok:
  assumes "length file < 2 ^ 63" "reader_open file t ph = Some (Inr r)"
  shows "reader_ok r" "fr_file r = file"
  using reader_open_spec [OF assms(1), of t ph] assms(2) by auto

lemma row_hit_in_section:
  assumes "reader_ok r" "i < reader_len r"
  defines "e \<equiv> row_of (fr_index_bytes r) i"
  shows "unat (hdr_payload_offset (fr_header r)) \<le> unat (ie_payload_offset e)"
    "unat (ie_payload_offset e) + length (lh_payload (row_hit r i)) \<le>
       unat (hdr_payload_offset (fr_header r)) + unat (hdr_payload_len (fr_header r))"
    "length (lh_payload (row_hit r i)) = unat (ie_payload_len e)"
    "lh_payload (row_hit r i) =
       subrange (unat (ie_payload_offset e)) (unat (ie_payload_offset e) + unat (ie_payload_len e)) (fr_file r)"
  using reader_row_in_file [OF assms(1,2)] by (auto simp: row_hit_def e_def Let_def subrange_length)

text \<open>
  C7: opening a file of any content never panics, and once it opens every lookup returns without an error or a
  panic: either no row of the index has the key, or the payload is a range of bytes that lies inside
  the payload section and inside the file.
\<close>

theorem open_then_get_total:
  assumes "length content < 2 ^ 63"
  shows "\<exists>x. reader_open content t ph = Some x \<and> (\<forall>r key. x = Inr r \<longrightarrow>
    (\<exists>y. reader_get r key = Some (Inr y) \<and> (case y of
        None \<Rightarrow> \<forall>i < reader_len r. ie_key (row_of (fr_index_bytes r) i) \<noteq> key
      | Some hit \<Rightarrow> \<exists>a. unat (hdr_payload_offset (fr_header r)) \<le> a
          \<and> a + length (lh_payload hit) \<le> unat (hdr_payload_offset (fr_header r)) + unat (hdr_payload_len (fr_header r))
          \<and> a + length (lh_payload hit) \<le> length content
          \<and> lh_payload hit = subrange a (a + length (lh_payload hit)) content)))"
proof -
  obtain x where x: "reader_open content t ph = Some x"
    "\<forall>r. x = Inr r \<longrightarrow> reader_ok r \<and> fr_file r = content" using reader_open_spec [OF assms, of t ph] by blast
  have "\<exists>y. reader_get r key = Some (Inr y) \<and> (case y of
        None \<Rightarrow> \<forall>i < reader_len r. ie_key (row_of (fr_index_bytes r) i) \<noteq> key
      | Some hit \<Rightarrow> \<exists>a. unat (hdr_payload_offset (fr_header r)) \<le> a
          \<and> a + length (lh_payload hit) \<le> unat (hdr_payload_offset (fr_header r)) + unat (hdr_payload_len (fr_header r))
          \<and> a + length (lh_payload hit) \<le> length content
          \<and> lh_payload hit = subrange a (a + length (lh_payload hit)) content)" if "x = Inr r" for r key
  proof -
    have ok: "reader_ok r" and f: "fr_file r = content" using x(2) that by auto
    obtain y where y: "reader_get r key = Some (Inr y)" "case y of
        None \<Rightarrow> \<forall>i < reader_len r. ie_key (row_of (fr_index_bytes r) i) \<noteq> key
      | Some hit \<Rightarrow> \<exists>i < reader_len r. ie_key (row_of (fr_index_bytes r) i) = key \<and> hit = row_hit r i"
      using reader_get_spec [OF ok] by blast
    show ?thesis
    proof (cases y)
      case (Some hit)
      then obtain i where i: "i < reader_len r" "hit = row_hit r i" using y(2) by auto
      from row_hit_in_section [OF ok i(1)] reader_row_in_file(3) [OF ok i(1)] y(1) Some i(2) f show ?thesis by auto
    qed (use y in auto)
  qed
  with x(1) show ?thesis by blast
qed

theorem open_then_get_total_witness:
  "\<exists>x. reader_open (replicate 200 0) 1 2 = Some x"
  using open_then_get_total [of "replicate 200 0" 1 2] by auto

end
