(* ===== verification/Fact_Store.thy ===== *)
theory Fact_Store
  imports Fact_Writer Fact_Reader
begin

text \<open>
  The fact store as a whole: what \<open>Fact_Writer\<close> publishes is what \<open>Fact_Reader\<close> opens. Shown: a published store
  opens and returns for every key the payload that was added under it, and its string pool; duplicate keys
  are refused.
\<close>

section \<open>What is written is read back\<close>

text \<open>The published file of a session: the sections in the order the writer appends them.\<close>

definition sorted_pending :: "entry_spec list \<Rightarrow> pending_entry list" where
  "sorted_pending L = sort_key pe_key (map (spec_pending L) [0..<length L])"

definition published_index :: "entry_spec list \<Rightarrow> bytes" where
  "published_index L = concat (map (\<lambda>e. index_entry_to_bytes (pending_on_disk e)) (sorted_pending L))"

definition published_header ::
    "u32 \<Rightarrow> u64 \<Rightarrow> entry_spec list \<Rightarrow> bytes \<Rightarrow> bytes \<Rightarrow> u64 \<Rightarrow> header" where
  "published_header t ph L sb so n =
     \<lparr>hdr_magic = MAGIC, hdr_format_version = FORMAT_VERSION, hdr_table_id = t, hdr_pipeline_hash = ph,
      hdr_string_pool_offset = of_nat (HEADER_SIZE + length (concat (spec_payloads L))),
      hdr_string_pool_bytes_len = of_nat (length sb), hdr_string_count = n,
      hdr_index_offset = of_nat (HEADER_SIZE + length (concat (spec_payloads L)) + length sb + length so),
      hdr_index_count = of_nat (length L), hdr_payload_offset = of_nat HEADER_SIZE,
      hdr_payload_len = of_nat (length (concat (spec_payloads L))), hdr_reserved = replicate 8 0\<rparr>"

definition published ::
    "u32 \<Rightarrow> u64 \<Rightarrow> entry_spec list \<Rightarrow> bytes \<Rightarrow> bytes \<Rightarrow> u64 \<Rightarrow> bytes" where
  "published t ph L sb so n =
     header_to_bytes (published_header t ph L sb so n) @ concat (spec_payloads L) @ sb @ so @ published_index L"

lemma published_header_len [simp]: "length (header_to_bytes (published_header t ph L sb so n)) = 96"
  using header_to_bytes_length [of "published_header t ph L sb so n"]
  by (simp add: header_wf_def published_header_def MAGIC_def fmt_consts)

lemma sorted_pending_length [simp]: "length (sorted_pending L) = length L"
  by (simp add: sorted_pending_def)

lemma published_index_len: "length (published_index L) = length L * INDEX_ENTRY_SIZE"
  unfolding published_index_def by (subst length_concat_const) auto

lemma pending_keys: "map pe_key (map (spec_pending L) [0..<length L]) = map fst L"
  by (intro nth_equalityI) (auto simp: spec_pending_def split: prod.split)

lemma distinct_sorted_pending: "distinct (map pe_key (sorted_pending L)) \<longleftrightarrow> distinct (map fst L)"
proof -
  have "set (map pe_key (sorted_pending L)) = set (map fst L)"
    unfolding sorted_pending_def pending_keys [symmetric] by (simp add: image_image)
  then show ?thesis by (metis card_distinct distinct_card length_map sorted_pending_length)
qed

lemma finalize_writer_repr:
  assumes "writer_repr ws L"
  shows "finalize_writer (ws_file ws) (ws_entries ws) (ws_next_payload_offset ws) sb so n t ph =
    (if distinct (map fst L) then Inr (unat (of_nat (length L) :: u64), published t ph L sb so n)
     else Inl (FS_DuplicateKey (the (find_duplicate (sorted_pending L)))))"
proof -
  have dup: "find_duplicate (sorted_pending L) = None \<longleftrightarrow> distinct (map fst L)"
    using sorted_find_duplicate [of "sorted_pending L"] distinct_sorted_pending [of L]
    by (simp add: sorted_pending_def)
  have ent: "sort_key pe_key (ws_entries ws) = sorted_pending L"
    and nxt: "ws_next_payload_offset ws = of_nat (HEADER_SIZE + length (concat (spec_payloads L)))"
    and fl: "ws_file ws = replicate HEADER_SIZE 0 @ concat (spec_payloads L)"
    using assms by (auto simp: writer_repr_def sorted_pending_def)
  show ?thesis
  proof (cases "distinct (map fst L)")
    case True
    with dup have "find_duplicate (sorted_pending L) = None" by simp
    with True published_header_len [of t ph L sb so n] show ?thesis
      unfolding finalize_writer_def ent
      by (simp add: Let_def nxt fl published_def published_header_def published_index_def
          add.assoc fmt_consts)
  next
    case False
    with dup obtain k where "find_duplicate (sorted_pending L) = Some k" by auto
    with False show ?thesis by (simp add: finalize_writer_def ent Let_def)
  qed
qed

lemma published_row:
  assumes "i < length L"
  shows "row_of (published_index L) i = pending_on_disk (sorted_pending L ! i)"
proof -
  have "subrange (i * INDEX_ENTRY_SIZE) ((i + 1) * INDEX_ENTRY_SIZE) (published_index L) =
      index_entry_to_bytes (pending_on_disk (sorted_pending L ! i))"
    using subrange_concat_const [of "\<lambda>e. index_entry_to_bytes (pending_on_disk e)" INDEX_ENTRY_SIZE i
        "sorted_pending L" "[]"] assms
    by (simp add: published_index_def)
  with index_entry_roundtrip [of "pending_on_disk (sorted_pending L ! i)" "[]"] show ?thesis
    by (simp add: row_of_def)
qed

lemma subrange_mid: "length b = m \<Longrightarrow> length a = k \<Longrightarrow> subrange k (k + m) (a @ b @ c) = b"
  by (auto simp: subrange_def)

text \<open>Sizes that keep the arithmetic of the format exact.\<close>

definition session_fits :: "entry_spec list \<Rightarrow> bytes \<Rightarrow> bytes \<Rightarrow> bool" where
  "session_fits L sb so \<longleftrightarrow>
     HEADER_SIZE + length (concat (spec_payloads L)) + length sb + length so
       + length L * INDEX_ENTRY_SIZE < 2 ^ 63
     \<and> (\<forall>(k, h, p) \<in> set L. length p < 2 ^ 32)"

lemma published_header_nat:
  assumes "session_fits L sb so"
  shows "unat (hdr_string_pool_offset (published_header t ph L sb so n)) = 96 + length (concat (spec_payloads L))"
    "unat (hdr_string_pool_bytes_len (published_header t ph L sb so n)) = length sb"
    "unat (hdr_index_offset (published_header t ph L sb so n)) =
       96 + length (concat (spec_payloads L)) + length sb + length so"
    "unat (hdr_index_count (published_header t ph L sb so n)) = length L"
    "unat (hdr_payload_offset (published_header t ph L sb so n)) = 96"
    "unat (hdr_payload_len (published_header t ph L sb so n)) = length (concat (spec_payloads L))"
proof -
  have b: "k < 2 ^ 63 \<Longrightarrow> unat (of_nat k :: u64) = k" for k :: nat by (rule unat_of_nat_u64) simp
  have lt: "96 + length (concat (spec_payloads L)) + length sb + length so + length L * 32 < 2 ^ 63"
    using assms by (simp add: session_fits_def fmt_consts)
  show "unat (hdr_string_pool_offset (published_header t ph L sb so n)) = 96 + length (concat (spec_payloads L))"
    "unat (hdr_string_pool_bytes_len (published_header t ph L sb so n)) = length sb"
    "unat (hdr_index_offset (published_header t ph L sb so n)) =
       96 + length (concat (spec_payloads L)) + length sb + length so"
    "unat (hdr_index_count (published_header t ph L sb so n)) = length L"
    "unat (hdr_payload_offset (published_header t ph L sb so n)) = 96"
    "unat (hdr_payload_len (published_header t ph L sb so n)) = length (concat (spec_payloads L))"
    unfolding published_header_def header.simps fmt_consts by (rule b; use lt in linarith)+
qed

lemma published_length:
  "length (published t ph L sb so n) =
    96 + length (concat (spec_payloads L)) + length sb + length so + length L * INDEX_ENTRY_SIZE"
  by (simp add: published_def published_index_len)

lemma published_rows_valid:
  assumes fits: "session_fits L sb so" and dist: "distinct (map fst L)"
  shows "rows_valid (published_header t ph L sb so n) (published_index L)
    (hdr_payload_offset (published_header t ph L sb so n) + hdr_payload_len (published_header t ph L sb so n))
    0 (length L)"
proof -
  let ?h = "published_header t ph L sb so n" and ?S = "sorted_pending L"
  have lt: "96 + length (concat (spec_payloads L)) < 2 ^ 63" using fits by (simp add: session_fits_def fmt_consts)
  have pend: "unat (hdr_payload_offset ?h + hdr_payload_len ?h) = 96 + length (concat (spec_payloads L))"
    using published_header_nat [OF fits, of t ph n] lt by (subst unat_plus_if') simp
  have "row_bounded ?h (hdr_payload_offset ?h + hdr_payload_len ?h) (row_of (published_index L) i)"
    if "i < length L" for i
  proof -
    have "?S ! i \<in> set (map (spec_pending L) [0..<length L])"
      using that nth_mem [of i ?S] by (simp add: sorted_pending_def)
    then obtain j where j: "j < length L" "?S ! i = spec_pending L j" by auto
    obtain k h p where kp: "L ! j = (k, h, p)" by (cases "L ! j") auto
    with j(1) fits have "length p < 2 ^ 32" using nth_mem [OF j(1)] by (auto simp: session_fits_def)
    then have "unat (of_nat (length p) :: u32) = length p" by (rule unat_of_nat_u32)
    moreover have so: "str_off (spec_payloads L) j + length p \<le> length (concat (spec_payloads L))"
      using str_off_Suc [of j "spec_payloads L"] str_off_le [of "spec_payloads L" "Suc j"] j(1) kp
      by (simp add: spec_payloads_def)
    moreover have "unat (of_nat (96 + str_off (spec_payloads L) j) :: u64) = 96 + str_off (spec_payloads L) j"
      using so lt by (intro unat_of_nat_u64) simp
    ultimately show ?thesis
      using that j(2) kp published_header_nat(5) [OF fits] pend
      by (simp add: row_bounded_def published_row pending_on_disk_def spec_pending_def fmt_consts)
  qed
  moreover have "ie_key (row_of (published_index L) (i - 1)) < ie_key (row_of (published_index L) i)"
    if "0 < i" "i < length L" for i
  proof -
    have "sorted_wrt (<) (map pe_key ?S)"
      using dist distinct_sorted_pending [of L] by (simp add: sorted_pending_def strict_sorted_iff)
    then have "pe_key (?S ! (i - 1)) < pe_key (?S ! i)"
      using that by (simp add: sorted_wrt_iff_nth_less)
    with that show ?thesis by (simp add: published_row pending_on_disk_def)
  qed
  ultimately show ?thesis by (auto simp: rows_valid_def)
qed

lemma published_pool_loads:
  assumes fits: "session_fits L sb so" and n: "unat n < 2 ^ 32" "length so = (unat n + 1) * 4"
    and sb: "length sb < 2 ^ 32" and v: "spv_new sb so (ucast n) = Inr v"
  shows "load_string_pool (published t ph L sb so n) (published_header t ph L sb so n) = Inr (sb, so)"
proof -
  let ?h = "published_header t ph L sb so n" and ?f = "published t ph L sb so n"
  note nat = published_header_nat [OF fits, of t ph n]
  have cnt: "try_u32 (unat (hdr_string_count ?h)) = Some (ucast n)" "unat (ucast n :: u32) = unat n"
    using n(1) by (auto simp: published_header_def try_u32_def unsigned_ucast_eq take_bit_nat_eq_self)
  have len: "try_u32 (unat (hdr_string_pool_bytes_len ?h)) = Some (of_nat (length sb))"
      "unat (of_nat (length sb) :: u32) = length sb"
    using sb by (auto simp: nat try_u32_def unat_of_nat_u32)
  have lt: "96 + length (concat (spec_payloads L)) + length sb < 2 ^ 63"
    using fits by (simp add: session_fits_def fmt_consts)
  have off: "unat (hdr_string_pool_offset ?h + hdr_string_pool_bytes_len ?h) =
      96 + length (concat (spec_payloads L)) + length sb"
    using lt by (subst unat_plus_if') (simp add: nat)
  have "subrange (96 + length (concat (spec_payloads L))) (96 + length (concat (spec_payloads L)) + length sb) ?f = sb"
    unfolding published_def append_assoc [symmetric, of _ "concat (spec_payloads L)"]
    by (rule subrange_mid) auto
  then have r1: "read_exact_at ?f (hdr_string_pool_offset ?h) (length sb) = Inr sb"
    by (simp add: read_exact_at_def nat published_length)
  have "subrange (96 + length (concat (spec_payloads L)) + length sb)
      (96 + length (concat (spec_payloads L)) + length sb + length so) ?f = so"
    unfolding published_def
    using subrange_mid [of so "length so" "header_to_bytes ?h @ concat (spec_payloads L) @ sb"
        "96 + length (concat (spec_payloads L)) + length sb" "published_index L"] by simp
  then have r2: "read_exact_at ?f (hdr_string_pool_offset ?h + hdr_string_pool_bytes_len ?h) (length so) = Inr so"
    by (simp add: read_exact_at_def off published_length)
  show ?thesis
    using cnt len r1 r2 v n(2) by (simp add: load_string_pool_def)
qed

lemma published_header_decodes:
  "header_from_bytes (take HEADER_SIZE (published t ph L sb so n)) = Some (published_header t ph L sb so n)"
  using header_roundtrip [of "published_header t ph L sb so n" "[]"]
  by (simp add: published_def fmt_consts header_wf_def published_header_def [THEN arg_cong [where f = hdr_magic]]
      published_header_def [THEN arg_cong [where f = hdr_reserved]] MAGIC_def)

lemma published_opens:
  assumes fits: "session_fits L sb so" and dist: "distinct (map fst L)"
    and n: "unat n < 2 ^ 32" "length so = (unat n + 1) * 4"
    and sb: "length sb < 2 ^ 32" and v: "spv_new sb so (ucast n) = Inr v"
  shows "reader_open (published t ph L sb so n) t ph = Some (Inr
    \<lparr>fr_file = published t ph L sb so n, fr_header = published_header t ph L sb so n,
     fr_index_bytes = published_index L, fr_string_pool_bytes = sb, fr_string_pool_offsets = so\<rparr>)"
proof -
  let ?h = "published_header t ph L sb so n" and ?f = "published t ph L sb so n"
  note nat = published_header_nat [OF fits, of t ph n]
  have lt: "length ?f < 2 ^ 63" using fits by (simp add: published_length session_fits_def fmt_consts)
  note hdr = published_header_decodes [of t ph L sb so n]
  have len: "unat (of_nat (length ?f) :: u64) = length ?f" using lt by (intro unat_of_nat_u64) simp
  have vb: "validate_section_bounds ?h (of_nat (length ?f)) = None"
  proof -
    have "unat n * 4 + 4 < 2 ^ 64 - 1" "length L * 32 < 2 ^ 64 - 1"
      using n(1) lt by (auto simp: published_length fmt_consts)
    then show ?thesis
      using n(2) len unfolding validate_section_bounds_def check_bounds_None section_bounds_def
      by (simp add: nat rust_arith published_length fmt_consts)
        (simp add: published_header_def min_def add_mult_distrib)
  qed
  have li: "load_index ?f ?h = Inr (published_index L)"
  proof -
    have "length L * 32 < 2 ^ 64" using lt by (simp add: published_length fmt_consts)
    moreover have "subrange (96 + length (concat (spec_payloads L)) + length sb + length so)
        (96 + length (concat (spec_payloads L)) + length sb + length so + length L * 32) ?f = published_index L"
      using subrange_mid [of "published_index L" "length L * 32"
          "header_to_bytes ?h @ concat (spec_payloads L) @ sb @ so"
          "96 + length (concat (spec_payloads L)) + length sb + length so" "[]"] published_index_len [of L]
      by (simp add: published_def fmt_consts)
    ultimately show ?thesis
      by (simp add: load_index_def nat fmt_consts read_exact_at_def published_length)
  qed
  have "unat (hdr_payload_offset ?h) + unat (hdr_payload_len ?h) < 2 ^ 64"
    using lt by (simp add: nat published_length)
  then have vi: "validate_index_sorted_and_bounded ?h (published_index L) = Some None"
    using validate_index_total [of "published_index L" ?h] published_rows_valid [OF fits dist, of t ph n]
    by (auto simp: nat published_index_len)
  have fld: "hdr_format_version ?h = FORMAT_VERSION" "hdr_table_id ?h = t" "hdr_pipeline_hash ?h = ph"
    by (simp_all add: published_header_def)
  show ?thesis
    using hdr vb li vi fld published_pool_loads [OF fits n sb v, of t ph]
    by (simp add: reader_open_def open_sections_def published_length fmt_consts)
qed

lemma published_payload:
  assumes fits: "session_fits L sb so" and j: "j < length L" "L ! j = (k, h, p)"
  shows "subrange (unat (pe_payload_offset (spec_pending L j)))
    (unat (pe_payload_offset (spec_pending L j)) + unat (pe_payload_len (spec_pending L j)))
    (published t ph L sb so n) = p"
proof -
  let ?P = "spec_payloads L" and ?hd = "header_to_bytes (published_header t ph L sb so n)"
  have jp: "j < length ?P" "?P ! j = p" using j by (auto simp: spec_payloads_def)
  have pl: "length p < 2 ^ 32" using fits j nth_mem [OF j(1)] by (auto simp: session_fits_def)
  have le: "str_off ?P j + length p \<le> length (concat ?P)"
    using str_off_Suc [OF jp(1)] str_off_le [of ?P "Suc j"] jp(2) by simp
  have lt: "96 + length (concat ?P) < 2 ^ 63" using fits by (simp add: session_fits_def fmt_consts)
  have pe: "pe_payload_offset (spec_pending L j) = of_nat (96 + str_off ?P j)"
    by (simp add: spec_pending_def j(2) fmt_consts)
  have off: "unat (pe_payload_offset (spec_pending L j)) = 96 + str_off ?P j"
    unfolding pe by (rule unat_of_nat_u64) (use le lt in simp)
  have len: "unat (pe_payload_len (spec_pending L j)) = length p"
    using pl by (simp add: spec_pending_def j(2) unat_of_nat_u32)
  have cat: "concat ?P = concat (take j ?P) @ p @ concat (drop (Suc j) ?P)"
    using jp by (metis append_assoc concat.simps(2) concat_append id_take_nth_drop)
  show ?thesis
    unfolding off len published_def cat
    using subrange_mid [of p "length p" "?hd @ concat (take j ?P)" "96 + str_off ?P j"
        "concat (drop (Suc j) ?P) @ sb @ so @ published_index L"]
    by (simp add: str_off_def)
qed

lemma published_get:
  assumes fits: "session_fits L sb so" and dist: "distinct (map fst L)"
    and opened: "reader_open (published t ph L sb so n) t ph = Some (Inr r)"
    and r: "r = \<lparr>fr_file = published t ph L sb so n, fr_header = published_header t ph L sb so n,
     fr_index_bytes = published_index L, fr_string_pool_bytes = sb, fr_string_pool_offsets = so\<rparr>"
  shows "(k, h, p) \<in> set L \<Longrightarrow> reader_get r k = Some (Inr (Some \<lparr>lh_body_hash = h, lh_payload = p\<rparr>))"
    "k \<notin> set (map fst L) \<Longrightarrow> reader_get r k = Some (Inr None)"
proof -
  have lt: "length (published t ph L sb so n) < 2 ^ 63"
    using fits by (simp add: published_length session_fits_def fmt_consts)
  have ok: "reader_ok r" using reader_open_spec [OF lt, of t ph] opened by auto
  have n: "reader_len r = length L" using published_header_nat(4) [OF fits] by (simp add: reader_len_def r)
  have idx: "fr_index_bytes r = published_index L" by (simp add: r)
  have row: "\<exists>j < length L. row_of (published_index L) i = pending_on_disk (spec_pending L j)" if "i < length L" for i
  proof -
    have "sorted_pending L ! i \<in> set (map (spec_pending L) [0..<length L])"
      using that nth_mem [of i "sorted_pending L"] by (simp add: sorted_pending_def)
    with published_row [OF that] show ?thesis by auto
  qed
  have key: "ie_key (pending_on_disk (spec_pending L j)) = fst (L ! j)" for j
    by (simp add: pending_on_disk_def spec_pending_def split: prod.split)
  obtain x where x: "reader_get r k = Some (Inr x)" "case x of
      None \<Rightarrow> \<forall>i < length L. ie_key (row_of (published_index L) i) \<noteq> k
    | Some hit \<Rightarrow> \<exists>i < length L. ie_key (row_of (published_index L) i) = k \<and> hit = row_hit r i"
    using reader_get_spec [OF ok, of k] unfolding n idx by blast
  show "reader_get r k = Some (Inr None)" if "k \<notin> set (map fst L)"
  proof (cases x)
    case (Some hit)
    with x(2) row key obtain j where "j < length L" "fst (L ! j) = k" by fastforce
    with that show ?thesis by auto
  qed (use x in simp)
  show "reader_get r k = Some (Inr (Some \<lparr>lh_body_hash = h, lh_payload = p\<rparr>))" if mem: "(k, h, p) \<in> set L"
  proof -
    obtain j where j: "j < length L" "L ! j = (k, h, p)" using mem by (auto simp: in_set_conv_nth)
    have "k \<in> set (map ie_key (map (row_of (published_index L)) [0..<length L]))"
    proof -
      have "pe_key ` set (sorted_pending L) = fst ` set L"
        using pending_keys [of L, THEN arg_cong [where f = set]]
        by (simp add: sorted_pending_def image_image)
      then have "k \<in> pe_key ` set (sorted_pending L)" using mem by force
      then obtain i where "i < length L" "pe_key (sorted_pending L ! i) = k" by (auto simp: in_set_conv_nth)
      then show ?thesis by (force simp: published_row pending_on_disk_def)
    qed
    then obtain i0 where i0: "i0 < length L" "ie_key (row_of (published_index L) i0) = k" by auto
    with x(2) obtain i where i: "x = Some (row_hit r i)" "i < length L" "ie_key (row_of (published_index L) i) = k"
      by (cases x) auto
    obtain j' where j': "j' < length L" "row_of (published_index L) i = pending_on_disk (spec_pending L j')"
      using row [OF i(2)] by blast
    have "j' = j"
      using dist j j' i(3) key [of j'] by (simp add: distinct_conv_nth) (metis fst_conv nth_map)
    then have "row_hit r i = \<lparr>lh_body_hash = h, lh_payload = p\<rparr>"
      using j' j published_payload [OF fits j, of t ph n]
      by (simp add: row_hit_def r Let_def pending_on_disk_def) (simp add: spec_pending_def)
    with x(1) i(1) show ?thesis by simp
  qed
qed

text \<open>A whole session: write, finish, open, look up.\<close>

lemma write_session_result:
  assumes ws: "writer_create = Inr ws" and ok: "list_all cmd_ok cmds"
    and pool: "sp_offsets_bytes pool = Some so" and fits: "session_fits (map cmd_spec cmds) (sp_bytes pool) so"
  shows "write_session t ph ws cmds pool = Some (
    if distinct (map fst (map cmd_spec cmds))
    then Inr (length cmds, published t ph (map cmd_spec cmds) (sp_bytes pool) so (of_nat (sp_len pool)))
    else Inl (FS_DuplicateKey (the (find_duplicate (sorted_pending (map cmd_spec cmds))))))"
proof -
  let ?L = "map cmd_spec cmds" and ?fin = "CmdFinish (sp_bytes pool) so (of_nat (sp_len pool))"
  have rep: "writer_repr ws []" using writer_create_repr ws by (metis sum.inject(2))
  then have wf: "length (ws_file ws) = 96" by (simp add: writer_repr_def spec_payloads_def fmt_consts)
  have lt: "96 + length (concat (spec_payloads ?L)) + length cmds * 32 < 2 ^ 63"
    using fits by (simp add: session_fits_def fmt_consts)
  then have "length (ws_file ws) + length (concat (spec_payloads ?L)) < 2 ^ 64" by (simp add: wf)
  then obtain ws' where ws': "run_writer_thread t ph (cmds @ [?fin]) ws = run_writer_thread t ph [?fin] ws'"
      "writer_repr ws' ?L"
    using run_writer_repr [OF rep ok, of t ph "[?fin]"] by auto
  have "unat (of_nat (length cmds) :: u64) = length cmds" using lt by (intro unat_of_nat_u64) simp
  with ws' pool finalize_writer_repr [OF ws'(2), of "sp_bytes pool" so "of_nat (sp_len pool)" t ph] show ?thesis
    by (simp add: write_session_def writer_step_def)
qed

lemma write_read_session:
  assumes ws: "writer_create = Inr ws" and ok: "list_all cmd_ok cmds"
    and pool: "pool_repr pool ss" "sp_offsets_bytes pool = Some so"
    and fits: "session_fits (map cmd_spec cmds) (sp_bytes pool) so"
    and dist: "distinct (map fst (map cmd_spec cmds))"
  obtains f r where "write_session t ph ws cmds pool = Some (Inr (length cmds, f))"
    "reader_open f t ph = Some (Inr r)"
    "\<And>k h p. (k, h, p) \<in> set (map cmd_spec cmds) \<Longrightarrow>
      reader_get r k = Some (Inr (Some \<lparr>lh_body_hash = h, lh_payload = p\<rparr>))"
    "\<And>k. k \<notin> set (map fst (map cmd_spec cmds)) \<Longrightarrow> reader_get r k = Some (Inr None)"
    "\<And>i. spv_get (reader_string_pool r) i = sp_get pool i"
proof -
  let ?L = "map cmd_spec cmds" and ?sb = "sp_bytes pool"
  define n :: u64 where "n = of_nat (sp_len pool)"
  have sec: "length ss < 2 ^ 32" "length ?sb < 2 ^ 32" "sp_len pool = length ss"
    using pool(1) by (auto simp: pool_repr_def pool_sections_def sp_len_def)
  have un: "unat n = length ss" unfolding n_def using sec by (intro unat_of_nat_u64 [THEN trans]) auto
  have uc: "ucast n = (of_nat (length ss) :: u32)" 
  proof -
    have "(of_nat (unat n) :: u32) = ucast n" by simp
    with un show ?thesis by simp
  qed
  obtain v where v: "spv_new ?sb so (ucast n) = Inr v" "\<And>i. spv_get v i = sp_get pool i"
      "length so = (unat n + 1) * 4"
    using pool_view_roundtrip [OF pool(1)] pool(2) un uc by (metis option.inject)
  have n32: "unat n < 2 ^ 32" using un sec(1) by simp
  let ?f = "published t ph ?L ?sb so n"
  let ?r = "\<lparr>fr_file = ?f, fr_header = published_header t ph ?L ?sb so n,
     fr_index_bytes = published_index ?L, fr_string_pool_bytes = ?sb, fr_string_pool_offsets = so\<rparr>"
  have o: "reader_open ?f t ph = Some (Inr ?r)"
    by (rule published_opens [OF fits dist n32 v(3) sec(2) v(1)])
  have "reader_string_pool ?r = v"
    using spv_new_get(1) [OF v(1)]
    by (simp add: reader_string_pool_def spv_from_validated_sections_def published_header_def)
  with v(2) show thesis
    using write_session_result [OF ws ok pool(2) fits, of t ph] dist o published_get [OF fits dist o refl]
    by (intro that [of ?f ?r]) (auto simp: n_def)
qed

section \<open>Properties\<close>

lemma adjacent_twice:
  assumes "Suc i < length xs" "P (xs ! i)" "P (xs ! Suc i)"
  shows "2 \<le> length (filter P xs)"
proof -
  have "xs = take i xs @ xs ! i # xs ! Suc i # drop (Suc (Suc i)) xs"
    using assms(1) by (metis Cons_nth_drop_Suc Suc_lessD append_take_drop_id)
  then have "filter P xs = filter P (take i xs) @ xs ! i # xs ! Suc i # filter P (drop (Suc (Suc i)) xs)"
    using assms(2,3) by (metis filter.simps(2) filter_append)
  then show ?thesis by simp
qed

lemma find_duplicate_twice:
  assumes "find_duplicate es = Some k"
  shows "2 \<le> length (filter (\<lambda>e. pe_key e = k) es)"
proof -
  obtain p where p: "find (\<lambda>(a, b). pe_key a = pe_key b) (entries_windows es) = Some p" "k = pe_key (fst p)"
    using assms by (auto simp: find_duplicate_def split_def)
  then obtain i where i: "i < length (entries_windows es)" "entries_windows es ! i = p" "pe_key (fst p) = pe_key (snd p)"
    by (auto simp: find_Some_iff split_def)
  then have "Suc i < length es" "fst p = es ! i" "snd p = es ! Suc i"
    by (auto simp: entries_windows_def nth_tl)
  with i(3) p(2) show ?thesis by (intro adjacent_twice [of i]) auto
qed

lemma sorted_pending_twice:
  assumes "find_duplicate (sorted_pending L) = Some k"
  shows "2 \<le> length (filter (\<lambda>s. fst s = k) L)"
proof -
  have key: "pe_key (spec_pending L i) = fst (L ! i)" for i by (simp add: spec_pending_def split: prod.split)
  have "length (filter (\<lambda>e. pe_key e = k) (sorted_pending L)) =
      length (filter (\<lambda>e. pe_key e = k) (map (spec_pending L) [0..<length L]))"
    unfolding sorted_pending_def filter_sort length_sort ..
  also have "\<dots> = length (filter (\<lambda>i. fst (L ! i) = k) [0..<length L])"
    by (simp add: filter_map comp_def key)
  also have "\<dots> = length (filter (\<lambda>s. fst s = k) (map ((!) L) [0..<length L]))"
    by (simp add: filter_map comp_def)
  finally show ?thesis using find_duplicate_twice [OF assms] by (simp add: map_nth)
qed

text \<open>
  C1: for every sequence of entries with distinct keys, added whole or streamed in chunks, and every string pool, the
  session publishes a file; the file opens under the same table and pipeline; looking up a key that
  was added returns its body hash and its payload, any other key nothing; and the stored pool resolves every
  string id as the builder did.
\<close>

theorem write_then_read:
  assumes "writer_create = Inr ws" "list_all cmd_ok cmds"
    and "pool_repr pool ss" "sp_offsets_bytes pool = Some so"
    and "session_fits (map cmd_spec cmds) (sp_bytes pool) so"
    and "distinct (map (fst \<circ> cmd_spec) cmds)"
  shows "\<exists>f r. write_session t ph ws cmds pool = Some (Inr (length cmds, f))
    \<and> reader_open f t ph = Some (Inr r)
    \<and> (\<forall>k h p. (k, h, p) \<in> set (map cmd_spec cmds) \<longrightarrow>
         reader_get r k = Some (Inr (Some \<lparr>lh_body_hash = h, lh_payload = p\<rparr>)))
    \<and> (\<forall>k. k \<notin> fst ` set (map cmd_spec cmds) \<longrightarrow> reader_get r k = Some (Inr None))
    \<and> (\<forall>i. spv_get (reader_string_pool r) i = sp_get pool i)"
proof -
  have dist: "distinct (map fst (map cmd_spec cmds))" using assms(6) by simp
  show ?thesis by (rule write_read_session [OF assms(1-5) dist, of t ph]) (auto simp: image_image)
qed

definition sample_cmds :: "write_cmd list" where
  "sample_cmds = [CmdEntry 5 7 [1, 2], CmdStreamEntry 3 8 [[9], [9, 9]] True]"

lemma sample_fits:
  obtains so where "sp_offsets_bytes sp_new = Some so" "session_fits (map cmd_spec sample_cmds) (sp_bytes sp_new) so"
    "list_all cmd_ok sample_cmds"
proof -
  obtain so where so: "sp_offsets_bytes sp_new = Some so" "length so = 4"
    by (rule pool_view_roundtrip [OF sp_new_repr]) auto
  show thesis by (rule that [OF so(1)])
    (auto simp: session_fits_def so(2) sample_cmds_def spec_payloads_def fmt_consts sp_new_def)
qed

lemma sample_session:
  obtains f r where "length f < 2 ^ 63" "reader_open f 1 2 = Some (Inr r)" "reader_len r = 2"
    "reader_get r 5 = Some (Inr (Some \<lparr>lh_body_hash = 7, lh_payload = [1, 2]\<rparr>))"
proof -
  obtain ws where ws: "writer_create = Inr ws" using writer_create_repr by blast
  obtain so where so: "sp_offsets_bytes sp_new = Some so" "session_fits (map cmd_spec sample_cmds) (sp_bytes sp_new) so"
    "list_all cmd_ok sample_cmds" by (rule sample_fits)
  have dist: "distinct (map fst (map cmd_spec sample_cmds))" by (simp add: sample_cmds_def)
  let ?f = "published 1 2 (map cmd_spec sample_cmds) (sp_bytes sp_new) so (of_nat (sp_len sp_new))"
  have len: "length ?f < 2 ^ 63" using so(2) by (simp add: published_length session_fits_def fmt_consts)
  obtain f r where fr: "write_session 1 2 ws sample_cmds sp_new = Some (Inr (length sample_cmds, f))"
      "reader_open f 1 2 = Some (Inr r)"
      "reader_get r 5 = Some (Inr (Some \<lparr>lh_body_hash = 7, lh_payload = [1, 2]\<rparr>))"
    by (rule write_read_session [OF ws so(3) sp_new_repr so(1,2) dist, of 1 2]) (auto simp: sample_cmds_def)
  have f: "f = ?f" using fr(1) write_session_result [OF ws so(3,1,2), of 1 2] dist by simp
  have "fr_header r = published_header 1 2 (map cmd_spec sample_cmds) (sp_bytes sp_new) so (of_nat (sp_len sp_new))"
  proof -
    have h: "header_from_bytes (take HEADER_SIZE ?f) =
        Some (published_header 1 2 (map cmd_spec sample_cmds) (sp_bytes sp_new) so (of_nat (sp_len sp_new)))"
      by (rule published_header_decodes)
    show ?thesis using fr(2) open_sections_spec [OF len, of "published_header 1 2
        (map cmd_spec sample_cmds) (sp_bytes sp_new) so (of_nat (sp_len sp_new))"] unfolding f reader_open_def h
      by (auto split: if_splits)
  qed
  then have "reader_len r = 2" using published_header_nat(4) [OF so(2)] by (simp add: reader_len_def sample_cmds_def)
  with len fr(2,3) f show thesis by (intro that) auto
qed

theorem write_then_read_witness:
  "\<exists>ws f r. writer_create = Inr ws \<and> write_session 1 2 ws sample_cmds sp_new = Some (Inr (2, f))
    \<and> reader_open f 1 2 = Some (Inr r)
    \<and> reader_get r 3 = Some (Inr (Some \<lparr>lh_body_hash = 8, lh_payload = [9, 9, 9]\<rparr>))
    \<and> reader_get r 4 = Some (Inr None)"
proof -
  obtain ws where ws: "writer_create = Inr ws" using writer_create_repr by blast
  obtain so where so: "sp_offsets_bytes sp_new = Some so" "session_fits (map cmd_spec sample_cmds) (sp_bytes sp_new) so"
    "list_all cmd_ok sample_cmds" by (rule sample_fits)
  have dist: "distinct (map (fst \<circ> cmd_spec) sample_cmds)" by (simp add: sample_cmds_def)
  obtain f r where fr: "write_session 1 2 ws sample_cmds sp_new = Some (Inr (length sample_cmds, f))"
      "reader_open f 1 2 = Some (Inr r)"
      "\<forall>k h p. (k, h, p) \<in> set (map cmd_spec sample_cmds) \<longrightarrow>
         reader_get r k = Some (Inr (Some \<lparr>lh_body_hash = h, lh_payload = p\<rparr>))"
      "\<forall>k. k \<notin> fst ` set (map cmd_spec sample_cmds) \<longrightarrow> reader_get r k = Some (Inr None)"
    using write_then_read [OF ws so(3) sp_new_repr so(1,2) dist, of 1 2] by blast
  moreover have "reader_get r 3 = Some (Inr (Some \<lparr>lh_body_hash = 8, lh_payload = [9, 9, 9]\<rparr>))"
    using fr(3) by (simp add: sample_cmds_def)
  moreover have "reader_get r 4 = Some (Inr None)" using fr(4) by (simp add: sample_cmds_def)
  moreover have "length sample_cmds = 2" by (simp add: sample_cmds_def)
  ultimately show ?thesis using ws by auto
qed

text \<open>
  C12: when a key was added twice, finishing publishes nothing and returns the error \<^verbatim>\<open>DuplicateKey\<close> with a key that
  indeed occurs at least twice.
\<close>

theorem duplicate_keys_refused:
  assumes "writer_create = Inr ws" "list_all cmd_ok cmds" "sp_offsets_bytes pool = Some so"
    and "session_fits (map cmd_spec cmds) (sp_bytes pool) so" "\<not> distinct (map (fst \<circ> cmd_spec) cmds)"
  shows "\<exists>k. write_session t ph ws cmds pool = Some (Inl (FS_DuplicateKey k))
    \<and> 2 \<le> length (filter (\<lambda>s. fst s = k) (map cmd_spec cmds))"
proof -
  have nd: "\<not> distinct (map fst (map cmd_spec cmds))" using assms(5) by simp
  have "sorted (map pe_key (sorted_pending (map cmd_spec cmds)))" by (simp add: sorted_pending_def)
  then obtain k where k: "find_duplicate (sorted_pending (map cmd_spec cmds)) = Some k"
    using nd sorted_find_duplicate distinct_sorted_pending by blast
  with write_session_result [OF assms(1-4), of t ph] nd sorted_pending_twice [OF k] show ?thesis by simp
qed

theorem duplicate_keys_refused_witness:
  "\<exists>ws. writer_create = Inr ws
    \<and> write_session 1 2 ws [CmdEntry 5 0 [1], CmdEntry 5 0 [2]] sp_new = Some (Inl (FS_DuplicateKey 5))"
proof -
  let ?cmds = "[CmdEntry 5 0 [1], CmdEntry 5 0 [2]]"
  obtain ws where ws: "writer_create = Inr ws" using writer_create_repr by blast
  obtain so where so: "sp_offsets_bytes sp_new = Some so" "length so = 4"
    by (rule pool_view_roundtrip [OF sp_new_repr]) auto
  have fits: "session_fits (map cmd_spec ?cmds) (sp_bytes sp_new) so"
    by (simp add: session_fits_def so(2) spec_payloads_def fmt_consts sp_new_def)
  obtain k where "write_session 1 2 ws ?cmds sp_new = Some (Inl (FS_DuplicateKey k))"
      "2 \<le> length (filter (\<lambda>s. fst s = k) (map cmd_spec ?cmds))"
    using duplicate_keys_refused [OF ws _ so(1) fits, of 1 2] by auto
  moreover from this(2) have "k = 5" by (auto split: if_splits)
  ultimately show ?thesis using ws by blast
qed

text \<open>
  Iterating over a store that opened yields every entry once, in strictly increasing order of the keys, without
  an error, and then ends; looking up a yielded key returns the yielded payload.
\<close>

theorem iteration_in_key_order:
  assumes "length content < 2 ^ 63" "reader_open content t ph = Some (Inr r)"
  shows "\<exists>es. length es = reader_len r \<and> sorted_wrt (<) (map fst es)
    \<and> (\<forall>i < length es. entry_iter_next r i = Some (Some (Inr (es ! i)), i + 1)
         \<and> reader_get r (fst (es ! i)) = Some (Inr (Some (snd (es ! i)))))
    \<and> entry_iter_next r (length es) = Some (None, length es)"
proof -
  have ok: "reader_ok r" by (rule reader_open_ok [OF assms])
  define es where "es = map (\<lambda>i. (ie_key (row_of (fr_index_bytes r) i), row_hit r i)) [0..<reader_len r]"
  have less: "ie_key (row_of (fr_index_bytes r) i) < ie_key (row_of (fr_index_bytes r) j)"
    if "i < j" "j < reader_len r" for i j
    using rows_sorted [OF _ that] ok by (auto simp: reader_ok_def)
  have get: "reader_get r (ie_key (row_of (fr_index_bytes r) i)) = Some (Inr (Some (row_hit r i)))"
    if i: "i < reader_len r" for i
  proof -
    obtain y where y: "reader_get r (ie_key (row_of (fr_index_bytes r) i)) = Some (Inr y)" "case y of
        None \<Rightarrow> \<forall>j < reader_len r. ie_key (row_of (fr_index_bytes r) j) \<noteq> ie_key (row_of (fr_index_bytes r) i)
      | Some hit \<Rightarrow> \<exists>j < reader_len r. ie_key (row_of (fr_index_bytes r) j) = ie_key (row_of (fr_index_bytes r) i)
          \<and> hit = row_hit r j"
      using reader_get_spec [OF ok] by blast
    then obtain j where j: "j < reader_len r" "y = Some (row_hit r j)"
        "ie_key (row_of (fr_index_bytes r) j) = ie_key (row_of (fr_index_bytes r) i)"
      using i by (cases y) auto
    then have "j = i" using less [of i j] less [of j i] i by (metis less_irrefl linorder_neqE_nat)
    with y j show ?thesis by simp
  qed
  have "sorted_wrt (<) (map fst es)" by (simp add: sorted_wrt_iff_nth_less es_def less)
  with get show ?thesis by (intro exI [of _ es]) (simp add: entry_iter_spec [OF ok] es_def)
qed

theorem iteration_in_key_order_witness:
  "\<exists>content r es. reader_open content 1 2 = Some (Inr r) \<and> length es = reader_len r \<and> sorted_wrt (<) (map fst es)
    \<and> entry_iter_next r 0 = Some (Some (Inr (es ! 0)), 1) \<and> entry_iter_next r 2 = Some (None, 2)"
proof -
  obtain f r where fr: "length f < 2 ^ 63" "reader_open f 1 2 = Some (Inr r)" "reader_len r = 2"
    by (rule sample_session)
  from iteration_in_key_order [OF fr(1,2)] fr(2,3) show ?thesis by fastforce
qed

text \<open>
  Reading a range of a stored payload returns exactly that range when it lies inside the payload, and the error
  \<^verbatim>\<open>BadPayloadRange\<close> otherwise, also when offset and length overflow 64 bits; a missing key gives nothing.
\<close>

theorem payload_range_read:
  assumes "length content < 2 ^ 63" "reader_open content t ph = Some (Inr r)" "n < 2 ^ 64"
    and "reader_get r key = Some (Inr found)"
  shows "reader_read_payload_range r key off n = Some (case found of
      None \<Rightarrow> Inr None
    | Some hit \<Rightarrow> if unat off + n \<le> length (lh_payload hit)
        then Inr (Some (subrange (unat off) (unat off + n) (lh_payload hit)))
        else Inl (FS_BadPayloadRange key off (of_nat n) (of_nat (length (lh_payload hit)))))"
proof -
  have ok: "reader_ok r" by (rule reader_open_ok [OF assms(1,2)])
  obtain x where x: "reader_entry r key = Some (Inr x)" "case x of
      None \<Rightarrow> \<forall>i < reader_len r. ie_key (row_of (fr_index_bytes r) i) \<noteq> key
    | Some e \<Rightarrow> \<exists>i < reader_len r. e = row_of (fr_index_bytes r) i \<and> ie_key e = key"
    using reader_entry_spec [OF ok] by blast
  show ?thesis
  proof (cases x)
    case None
    with x(1) assms(4) show ?thesis by (auto simp: reader_get_def reader_read_payload_range_def)
  next
    case (Some e)
    then obtain i where i: "i < reader_len r" "e = row_of (fr_index_bytes r) i" using x(2) by auto
    note fit = reader_row_in_file [OF ok i(1), folded i(2)] and hit = row_hit_in_section(3,4) [OF ok i(1), folded i(2)]
    have lt: "length (fr_file r) < 2 ^ 63" using ok by (simp add: reader_ok_def)
    have found: "found = Some (row_hit r i)"
      using assms(4) x(1) Some fit i(2) by (auto simp: reader_get_def read_exact_at_in row_hit_def Let_def)
    have rng: "range_ok off (of_nat n) (ucast (ie_payload_len e)) \<longleftrightarrow> unat off + n \<le> unat (ie_payload_len e)"
      using assms(3) unsigned_less [of "ie_payload_len e", where ?'a = nat]
      by (auto simp: range_ok_def checked_add_def unat_of_nat_u64 word_le_nat_alt unat_ucast_u32_u64 unat_word_ariths)
    have uc: "(of_nat (unat (ie_payload_len e)) :: u64) = ucast (ie_payload_len e)" by simp
    have sub: "subrange (unat off) (unat off + n) (lh_payload (row_hit r i)) =
        subrange (unat (ie_payload_offset e) + unat off) (unat (ie_payload_offset e) + unat off + n) (fr_file r)"
      if "unat off + n \<le> unat (ie_payload_len e)"
      unfolding hit(2) using subrange_subrange [of "unat off + n" "unat (ie_payload_offset e) + unat (ie_payload_len e)"
          "unat (ie_payload_offset e)" "unat off" "fr_file r"] that by (simp add: add.assoc)
    have "read_exact_at (fr_file r) (saturating_add (ie_payload_offset e) off) n =
        Inr (subrange (unat off) (unat off + n) (lh_payload (row_hit r i)))"
      if le: "unat off + n \<le> unat (ie_payload_len e)"
    proof -
      have "unat (saturating_add (ie_payload_offset e) off) = unat (ie_payload_offset e) + unat off"
        using fit le lt by (simp add: unat_saturating_add)
      then show ?thesis unfolding sub [OF le] using fit le by (subst read_exact_at_in) auto
    qed
    then show ?thesis
      using x(1) Some assms(3) unfolding found
      by (auto simp: reader_read_payload_range_def Let_def rng hit(1) uc)
  qed
qed

theorem payload_range_read_witness:
  "\<exists>content r. reader_open content 1 2 = Some (Inr r) \<and> reader_read_payload_range r 5 1 1 = Some (Inr (Some [2]))
    \<and> reader_read_payload_range r 5 1 2 = Some (Inl (FS_BadPayloadRange 5 1 2 2))"
proof -
  obtain f r where fr: "length f < 2 ^ 63" "reader_open f 1 2 = Some (Inr r)"
      "reader_get r 5 = Some (Inr (Some \<lparr>lh_body_hash = 7, lh_payload = [1, 2]\<rparr>))"
    by (rule sample_session)
  from payload_range_read [OF fr(1,2) _ fr(3), of 1 1] payload_range_read [OF fr(1,2) _ fr(3), of 2 1] fr(2)
  show ?thesis by (auto simp: subrange_def)
qed

end
