(* ===== verification/Fact_Cache.thy ===== *)
theory Fact_Cache
  imports Fact_Store
begin

text \<open>
  The cache of decoded values in front of a fact-store reader, \<^verbatim>\<open>crates/factstore/src/cache.rs\<close>.

  The LRU map comes from a third-party crate: its \<^verbatim>\<open>get\<close> and \<^verbatim>\<open>put\<close> are parameters of the model, and
  \<open>lru_contract\<close> states what its documentation promises, that a probe returns what is resident under
  the key and changes only recency, and that a put makes the new binding resident and at most
  evicts others. Shown: whatever is evicted, a lookup through the cache returns exactly the decoding of the
  stored payload.
\<close>

record 'c fact_cache =
  fc_reader :: fact_store_reader
  fc_cache :: 'c

datatype 'v cache_get = CG_Hit 'v | CG_Miss lookup_hit | CG_Absent

type_synonym ('c, 'v) lru_get = "'c \<Rightarrow> u64 \<Rightarrow> 'v option \<times> 'c"
type_synonym ('c, 'v) lru_put = "'c \<Rightarrow> u64 \<Rightarrow> 'v \<Rightarrow> 'c"

definition cache_get ::
    "('c, 'v) lru_get \<Rightarrow> 'c fact_cache \<Rightarrow> u64 \<Rightarrow> ((fact_store_error + 'v cache_get) \<times> 'c fact_cache) option" where
  "cache_get lru_get c key =
     (case lru_get (fc_cache c) key of
        (Some hit, st) \<Rightarrow> Some (Inr (CG_Hit hit), c\<lparr>fc_cache := st\<rparr>)
      | (None, st) \<Rightarrow> do {
          res \<leftarrow> reader_get (fc_reader c) key;
          Some (case res of
              Inl e \<Rightarrow> Inl e
            | Inr (Some payload) \<Rightarrow> Inr (CG_Miss payload)
            | Inr None \<Rightarrow> Inr CG_Absent, c\<lparr>fc_cache := st\<rparr>)
        })"

definition get_or_decode ::
    "('c, 'v) lru_get \<Rightarrow> ('c, 'v) lru_put \<Rightarrow> (bytes \<Rightarrow> 'v) \<Rightarrow> 'c fact_cache \<Rightarrow> u64 \<Rightarrow>
      ((fact_store_error + 'v option) \<times> 'c fact_cache) option" where
  "get_or_decode lru_get lru_put decode c key = do {
     (res, c') \<leftarrow> cache_get lru_get c key;
     Some (case res of
         Inl e \<Rightarrow> (Inl e, c')
       | Inr (CG_Hit v) \<Rightarrow> (Inr (Some v), c')
       | Inr (CG_Miss hit) \<Rightarrow>
           (let v = decode (lh_payload hit) in
            (Inr (Some v), c'\<lparr>fc_cache := lru_put (fc_cache c') key v\<rparr>))
       | Inr CG_Absent \<Rightarrow> (Inr None, c'))
   }"

definition insert_decoded ::
    "('c, 'v) lru_put \<Rightarrow> 'c fact_cache \<Rightarrow> u64 \<Rightarrow> 'v \<Rightarrow> 'c fact_cache" where
  "insert_decoded lru_put c key v = c\<lparr>fc_cache := lru_put (fc_cache c) key v\<rparr>"

section \<open>What the LRU map promises\<close>

definition lru_contract :: "('c \<Rightarrow> u64 \<rightharpoonup> 'v) \<Rightarrow> ('c, 'v) lru_get \<Rightarrow> ('c, 'v) lru_put \<Rightarrow> bool" where
  "lru_contract resident lru_get lru_put \<longleftrightarrow>
     (\<forall>st k. fst (lru_get st k) = resident st k \<and> resident (snd (lru_get st k)) = resident st)
     \<and> (\<forall>st k v. resident (lru_put st k v) \<subseteq>\<^sub>m (resident st)(k \<mapsto> v))"

section \<open>Coherence\<close>

definition stored :: "fact_store_reader \<Rightarrow> u64 \<rightharpoonup> lookup_hit" where
  "stored r key = (case reader_get r key of Some (Inr x) \<Rightarrow> x | _ \<Rightarrow> None)"

definition coherent :: "('c \<Rightarrow> u64 \<rightharpoonup> 'v) \<Rightarrow> (bytes \<Rightarrow> 'v) \<Rightarrow> 'c fact_cache \<Rightarrow> bool" where
  "coherent resident decode c \<longleftrightarrow>
     (\<forall>k v. resident (fc_cache c) k = Some v \<longrightarrow>
        map_option (\<lambda>h. decode (lh_payload h)) (stored (fc_reader c) k) = Some v)"

lemma reader_get_stored: "reader_ok r \<Longrightarrow> reader_get r key = Some (Inr (stored r key))"
  using reader_get_spec [of r key] by (auto simp: stored_def)

lemma coherent_put:
  assumes lru: "lru_contract resident lget lput" and c: "coherent resident decode c"
    and v: "map_option (\<lambda>h. decode (lh_payload h)) (stored (fc_reader c) key) = Some v"
  shows "coherent resident decode (insert_decoded lput c key v)"
proof -
  have "resident (lput (fc_cache c) key v) \<subseteq>\<^sub>m (resident (fc_cache c))(key \<mapsto> v)"
    using lru by (simp add: lru_contract_def)
  with c v show ?thesis
    unfolding coherent_def insert_decoded_def map_le_def by (auto simp: dom_def) (metis fun_upd_apply option.inject)
qed

lemma get_or_decode_spec:
  assumes lru: "lru_contract resident lget lput" and ok: "reader_ok (fc_reader c)"
    and c: "coherent resident decode c"
  shows "\<exists>c'. get_or_decode lget lput decode c key =
      Some (Inr (map_option (\<lambda>h. decode (lh_payload h)) (stored (fc_reader c) key)), c')
    \<and> coherent resident decode c' \<and> fc_reader c' = fc_reader c"
proof -
  obtain w st where g: "lget (fc_cache c) key = (w, st)" by force
  with lru have w: "w = resident (fc_cache c) key" and st: "resident st = resident (fc_cache c)"
    unfolding lru_contract_def by (metis fst_conv, metis snd_conv)
  have c1: "coherent resident decode (c\<lparr>fc_cache := st\<rparr>)" using c st by (simp add: coherent_def)
  note rg = reader_get_stored [OF ok, of key]
  show ?thesis
  proof (cases w)
    case (Some v)
    then have "resident (fc_cache c) key = Some v" using w by simp
    with c have "map_option (\<lambda>h. decode (lh_payload h)) (stored (fc_reader c) key) = Some v"
      unfolding coherent_def by blast
    with Some g c1 show ?thesis by (auto simp: get_or_decode_def cache_get_def)
  next
    case None
    show ?thesis
    proof (cases "stored (fc_reader c) key")
      case (Some hit)
      with coherent_put [OF lru c1, of key "decode (lh_payload hit)"] None g rg show ?thesis
        by (simp add: get_or_decode_def cache_get_def insert_decoded_def Let_def)
    qed (use None g rg c1 in \<open>simp add: get_or_decode_def cache_get_def\<close>)
  qed
qed

section \<open>Properties\<close>

text \<open>
  C37: whatever the LRU map evicts, a lookup through the cache of a store that opened returns exactly the decoding of
  the stored payload (nothing for an absent key), never an error or a panic, and leaves the cache coherent.
\<close>

theorem cache_transparent:
  assumes "lru_contract resident lru_get lru_put" "reader_ok (fc_reader c)" "coherent resident decode c"
  shows "\<exists>c' hit. reader_get (fc_reader c) key = Some (Inr hit)
    \<and> get_or_decode lru_get lru_put decode c key = Some (Inr (map_option (decode \<circ> lh_payload) hit), c')
    \<and> coherent resident decode c' \<and> fc_reader c' = fc_reader c"
  using get_or_decode_spec [OF assms, of key] reader_get_stored [OF assms(2), of key] by (auto simp: comp_def)

text \<open>A map with room for a single binding meets the contract.\<close>

definition one_get :: "(u64 \<times> nat) option \<Rightarrow> u64 \<Rightarrow> nat option \<times> (u64 \<times> nat) option" where
  "one_get st k = (case st of Some (k', v) \<Rightarrow> (if k' = k then Some v else None, st) | None \<Rightarrow> (None, st))"

definition one_put :: "(u64 \<times> nat) option \<Rightarrow> u64 \<Rightarrow> nat \<Rightarrow> (u64 \<times> nat) option" where
  "one_put st k v = Some (k, v)"

theorem cache_transparent_witness:
  "\<exists>r c'. get_or_decode one_get one_put length \<lparr>fc_reader = r, fc_cache = None\<rparr> 5 = Some (Inr (Some 2), c')"
proof -
  obtain f r where fr: "length f < 2 ^ 63" "reader_open f 1 2 = Some (Inr r)"
      "reader_get r 5 = Some (Inr (Some \<lparr>lh_body_hash = 7, lh_payload = [1, 2]\<rparr>))"
    by (rule sample_session)
  let ?c = "\<lparr>fc_reader = r, fc_cache = None\<rparr>"
  let ?res = "\<lambda>st k. fst (one_get st k)"
  have lru: "lru_contract ?res one_get one_put"
    by (auto simp: lru_contract_def one_get_def one_put_def map_le_def fun_eq_iff split: option.splits if_splits)
  have "reader_ok (fc_reader ?c)" using reader_open_ok(1) [OF fr(1,2)] by simp
  moreover have "coherent ?res length ?c" by (simp add: coherent_def one_get_def)
  ultimately show ?thesis using cache_transparent [OF lru, of ?c length 5] fr(3)
    by (simp add: numeral_2_eq_2) blast
qed

end
