(* ===== verification/Idg_Segment.thy ===== *)
theory Idg_Segment
  imports Interner Idg_Graph Fact_Store
begin

text \<open>
  One source file's slice of the dependence graph: the place and node dictionaries
  (\<^verbatim>\<open>crates/idg/src/dict.rs\<close>) and the segment that holds them with its edges, functions and string pool
  (\<^verbatim>\<open>crates/idg/src/segment.rs\<close>), including its persistence as a one-entry fact store.

  A dictionary is its canonical vector, a reverse map, and the flag that says whether the map is
  complete; after a release the map is only a delta and lookups scan the vector. Shown: both
  dictionaries meet the \<open>interner\<close> contract in either state, releasing or rebuilding the map never
  changes a lookup, the function list stays sorted without duplicates, and a segment that is
  written and read back has the same canonical data with complete maps. The MessagePack codec is third-party
  code: \<open>encode\<close> and \<open>decode\<close> are parameters and \<open>wire_contract\<close> is what is assumed of them.
\<close>

section \<open>Dictionaries\<close>

record place_dict =
  pd_places :: "place list"
  pd_by_place :: "place \<rightharpoonup> place_id"
  pd_lookup_complete :: bool

definition pd_new :: place_dict where
  "pd_new = \<lparr>pd_places = [], pd_by_place = Map.empty, pd_lookup_complete = True\<rparr>"

definition pd_intern :: "place_dict \<Rightarrow> place \<Rightarrow> (place_id \<times> place_dict) option" where
  "pd_intern d p =
     (case pd_by_place d p of
        Some i \<Rightarrow> Some (i, d)
      | None \<Rightarrow>
          (case (if pd_lookup_complete d then None else position (\<lambda>c. c = p) (pd_places d)) of
             Some index \<Rightarrow> Some (of_nat index, d)
           | None \<Rightarrow> do {
               raw \<leftarrow> try_u32 (length (pd_places d));
               Some (raw, d\<lparr>pd_by_place := (pd_by_place d)(p \<mapsto> raw), pd_places := pd_places d @ [p]\<rparr>)
             }))"

definition pd_get :: "place_dict \<Rightarrow> place_id \<Rightarrow> place option" where
  "pd_get d i = vec_get (pd_places d) (unat i)"

definition pd_lookup :: "place_dict \<Rightarrow> place \<Rightarrow> place_id option" where
  "pd_lookup d p =
     (case pd_by_place d p of
        Some i \<Rightarrow> Some i
      | None \<Rightarrow>
          (if pd_lookup_complete d then None
           else map_option of_nat (position (\<lambda>c. c = p) (pd_places d))))"

definition rebuild_map :: "'k list \<Rightarrow> 'k \<rightharpoonup> u32" where
  "rebuild_map ks = fold (\<lambda>(i, k) m. m(k \<mapsto> of_nat i)) (enumerate 0 ks) Map.empty"

definition pd_rebuild_lookup :: "place_dict \<Rightarrow> place_dict" where
  "pd_rebuild_lookup d = d\<lparr>pd_by_place := rebuild_map (pd_places d), pd_lookup_complete := True\<rparr>"

definition pd_release_lookup :: "place_dict \<Rightarrow> place_dict" where
  "pd_release_lookup d = d\<lparr>pd_by_place := Map.empty, pd_lookup_complete := False\<rparr>"

record node_dict =
  nd_nodes :: "idg_node list"
  nd_by_node :: "idg_node \<rightharpoonup> idg_node_id"
  nd_lookup_complete :: bool

definition nd_new :: node_dict where
  "nd_new = \<lparr>nd_nodes = [], nd_by_node = Map.empty, nd_lookup_complete = True\<rparr>"

definition nd_intern :: "node_dict \<Rightarrow> func_id \<Rightarrow> place_id \<Rightarrow> (idg_node_id \<times> node_dict) option" where
  "nd_intern d func p =
     (let node = idg_node_new func p in
      case nd_by_node d node of
        Some i \<Rightarrow> Some (i, d)
      | None \<Rightarrow>
          (case (if nd_lookup_complete d then None else position (\<lambda>c. c = node) (nd_nodes d)) of
             Some index \<Rightarrow> Some (of_nat index, d)
           | None \<Rightarrow> do {
               raw \<leftarrow> try_u32 (length (nd_nodes d));
               Some (raw, d\<lparr>nd_by_node := (nd_by_node d)(node \<mapsto> raw), nd_nodes := nd_nodes d @ [node]\<rparr>)
             }))"

definition nd_get :: "node_dict \<Rightarrow> idg_node_id \<Rightarrow> idg_node option" where
  "nd_get d i = vec_get (nd_nodes d) (unat i)"

definition nd_lookup :: "node_dict \<Rightarrow> func_id \<Rightarrow> place_id \<Rightarrow> idg_node_id option" where
  "nd_lookup d func p =
     (let node = idg_node_new func p in
      case nd_by_node d node of
        Some i \<Rightarrow> Some i
      | None \<Rightarrow>
          (if nd_lookup_complete d then None
           else map_option of_nat (position (\<lambda>c. c = node) (nd_nodes d))))"

definition nd_rebuild_lookup :: "node_dict \<Rightarrow> node_dict" where
  "nd_rebuild_lookup d = d\<lparr>nd_by_node := rebuild_map (nd_nodes d), nd_lookup_complete := True\<rparr>"

definition nd_release_lookup :: "node_dict \<Rightarrow> node_dict" where
  "nd_release_lookup d = d\<lparr>nd_by_node := Map.empty, nd_lookup_complete := False\<rparr>"

section \<open>The state a dictionary may be in\<close>

definition dict_ok :: "'k list \<Rightarrow> ('k \<rightharpoonup> u32) \<Rightarrow> bool \<Rightarrow> bool" where
  "dict_ok ks m complete \<longleftrightarrow> distinct ks \<and> length ks \<le> 2 ^ 32
     \<and> (\<forall>k i. m k = Some i \<longrightarrow> unat i < length ks \<and> ks ! unat i = k)
     \<and> (complete \<longrightarrow> set ks \<subseteq> dom m)"

definition dict_find :: "'k list \<Rightarrow> ('k \<rightharpoonup> u32) \<Rightarrow> bool \<Rightarrow> 'k \<Rightarrow> u32 option" where
  "dict_find ks m complete k =
     (case m k of Some i \<Rightarrow> Some i
      | None \<Rightarrow> map_option of_nat (if complete then None else position (\<lambda>c. c = k) ks))"

lemma dict_find_spec:
  assumes "dict_ok ks m complete"
  shows "dict_find ks m complete k = Some i \<longleftrightarrow> unat i < length ks \<and> ks ! unat i = k"
    "dict_find ks m complete k = None \<longleftrightarrow> k \<notin> set ks"
proof -
  have dist: "distinct ks" and len: "length ks \<le> 2 ^ 32"
    and snd: "\<And>k i. m k = Some i \<Longrightarrow> unat i < length ks \<and> ks ! unat i = k"
    and cmp: "complete \<Longrightarrow> set ks \<subseteq> dom m"
    using assms by (auto simp: dict_ok_def)
  have pos: "unat (of_nat j :: u32) = j" if "j < length ks" for j
    using that len by (intro unat_of_nat_u32) simp
  have sound: "unat j < length ks \<and> ks ! unat j = k" if f: "dict_find ks m complete k = Some j" for j
  proof (cases "m k")
    case None
    with f obtain q where "position (\<lambda>c. c = k) ks = Some q" "j = of_nat q"
      by (auto simp: dict_find_def split: if_splits)
    with position_Some pos show ?thesis by fastforce
  qed (use f snd in \<open>auto simp: dict_find_def\<close>)
  show none: "dict_find ks m complete k = None \<longleftrightarrow> k \<notin> set ks"
  proof
    assume "dict_find ks m complete k = None"
    then show "k \<notin> set ks"
      using cmp by (auto simp: dict_find_def position_None split: option.splits if_splits)
  next
    assume "k \<notin> set ks"
    then show "dict_find ks m complete k = None"
      using sound nth_mem by (cases "dict_find ks m complete k") fastforce+
  qed
  show "dict_find ks m complete k = Some i \<longleftrightarrow> unat i < length ks \<and> ks ! unat i = k"
  proof
    assume r: "unat i < length ks \<and> ks ! unat i = k"
    then obtain j where j: "dict_find ks m complete k = Some j" using none nth_mem by fastforce
    then have "unat j = unat i" using sound [OF j] r dist nth_eq_iff_index_eq [of ks "unat j" "unat i"] by simp
    with j show "dict_find ks m complete k = Some i" by (simp add: word_unat_eq_iff)
  qed (rule sound)
qed

lemma dict_ok_append:
  assumes "dict_ok ks m complete" "k \<notin> set ks" "length ks < 2 ^ 32"
  shows "dict_ok (ks @ [k]) (m(k \<mapsto> of_nat (length ks))) complete"
  using assms unat_of_nat_u32 [OF assms(3)]
  by (auto simp: dict_ok_def nth_append less_Suc_eq split: if_splits)

lemma rebuild_map_index:
  assumes "distinct ks"
  shows "rebuild_map ks k = map_option of_nat (position (\<lambda>c. c = k) ks)"
proof -
  have "fold (\<lambda>(i, k) m. m(k \<mapsto> of_nat i)) (enumerate 0 (take n ks)) Map.empty k =
      map_option (of_nat :: nat \<Rightarrow> u32) (find (\<lambda>i. ks ! i = k) [0..<n])" if "n \<le> length ks" for n
    using that
  proof (induction n)
    case (Suc n)
    have app: "find P (xs @ ys) = (case find P xs of None \<Rightarrow> find P ys | Some x \<Rightarrow> Some x)"
      for P :: "nat \<Rightarrow> bool" and xs ys by (induction xs) auto
    have "find (\<lambda>i. ks ! i = ks ! n) [0..<n] = None"
      using Suc.prems assms by (auto simp: find_None_iff nth_eq_iff_index_eq)
    with Suc show ?case
      by (auto simp: take_Suc_conv_app_nth enumerate_append_eq app split: option.split)
  qed simp
  from this [of "length ks"] show ?thesis by (simp add: rebuild_map_def position_def)
qed

lemma dict_ok_rebuild:
  assumes "distinct ks" "length ks \<le> 2 ^ 32"
  shows "dict_ok ks (rebuild_map ks) True"
proof -
  have "unat i < length ks \<and> ks ! unat i = k" if r: "rebuild_map ks k = Some i" for k i
  proof -
    obtain j where j: "position (\<lambda>c. c = k) ks = Some j" "i = of_nat j"
      using r by (auto simp: rebuild_map_index [OF assms(1)])
    moreover have "unat (of_nat j :: u32) = j"
      using position_Some [OF j(1)] assms(2) by (intro unat_of_nat_u32) simp
    ultimately show ?thesis using position_Some [OF j(1)] by simp
  qed
  moreover have "k \<in> dom (rebuild_map ks)" if "k \<in> set ks" for k
    using that position_None [of "\<lambda>c. c = k" ks] by (auto simp: rebuild_map_index [OF assms(1)] dom_def)
  ultimately show ?thesis using assms by (auto simp: dict_ok_def)
qed

lemma dict_ok_release: "dict_ok ks m c \<Longrightarrow> dict_ok ks Map.empty False"
  by (simp add: dict_ok_def)

definition pd_repr :: "place_dict \<Rightarrow> place list \<Rightarrow> bool" where
  "pd_repr d ks \<longleftrightarrow> pd_places d = ks \<and> dict_ok ks (pd_by_place d) (pd_lookup_complete d)"

definition nd_repr :: "node_dict \<Rightarrow> idg_node list \<Rightarrow> bool" where
  "nd_repr d ks \<longleftrightarrow> nd_nodes d = ks \<and> dict_ok ks (nd_by_node d) (nd_lookup_complete d)"

lemma pd_lookup_find: "pd_lookup d p = dict_find (pd_places d) (pd_by_place d) (pd_lookup_complete d) p"
  by (simp add: pd_lookup_def dict_find_def split: option.split)

lemma nd_lookup_find:
  "nd_lookup d f p = dict_find (nd_nodes d) (nd_by_node d) (nd_lookup_complete d) (idg_node_new f p)"
  by (simp add: nd_lookup_def dict_find_def Let_def split: option.split)

lemma pd_intern_find:
  "pd_intern d p = (case pd_lookup d p of
     Some i \<Rightarrow> Some (i, d)
   | None \<Rightarrow> do {
       raw \<leftarrow> try_u32 (length (pd_places d));
       Some (raw, d\<lparr>pd_by_place := (pd_by_place d)(p \<mapsto> raw), pd_places := pd_places d @ [p]\<rparr>) })"
  by (simp add: pd_intern_def pd_lookup_def split: option.split)

lemma nd_intern_find:
  "nd_intern d f p = (case nd_lookup d f p of
     Some i \<Rightarrow> Some (i, d)
   | None \<Rightarrow> do {
       raw \<leftarrow> try_u32 (length (nd_nodes d));
       Some (raw, d\<lparr>nd_by_node := (nd_by_node d)(idg_node_new f p \<mapsto> raw),
                    nd_nodes := nd_nodes d @ [idg_node_new f p]\<rparr>) })"
  by (simp add: nd_intern_def nd_lookup_def Let_def split: option.split)

definition dict_fits :: "'k list \<Rightarrow> 'k \<Rightarrow> bool" where
  "dict_fits ks k \<longleftrightarrow> length ks < 2 ^ 32"

interpretation places: interner pd_intern pd_repr dict_fits "unat :: u32 \<Rightarrow> nat"
proof unfold_locales
  show "\<exists>i p'. pd_intern d k = Some (i, p') \<and>
      (if k \<in> set ks then pd_repr p' ks \<and> unat i < length ks \<and> ks ! unat i = k
       else pd_repr p' (ks @ [k]) \<and> unat i = length ks)"
    if r: "pd_repr d ks" and fits: "dict_fits ks k" for d ks k
  proof (cases "pd_lookup d k")
    case None
    with r fits dict_find_spec(2) [of ks "pd_by_place d" "pd_lookup_complete d" k] show ?thesis
      by (auto simp: pd_intern_find pd_lookup_find pd_repr_def try_u32_def unat_of_nat_u32 dict_fits_def intro: dict_ok_append)
  next
    case (Some i)
    with r dict_find_spec(1) [of ks "pd_by_place d" "pd_lookup_complete d" k i] show ?thesis
      by (auto simp: pd_intern_find pd_lookup_find pd_repr_def)
  qed
qed (auto simp: pd_repr_def dict_ok_def word_unat_eq_iff)

interpretation nodes: interner "\<lambda>d nd. nd_intern d (node_func nd) (node_place nd)" nd_repr
  dict_fits "unat :: u32 \<Rightarrow> nat"
proof unfold_locales
  show "\<exists>i p'. nd_intern d (node_func k) (node_place k) = Some (i, p') \<and>
      (if k \<in> set ks then nd_repr p' ks \<and> unat i < length ks \<and> ks ! unat i = k
       else nd_repr p' (ks @ [k]) \<and> unat i = length ks)"
    if r: "nd_repr d ks" and fits: "dict_fits ks k" for d ks k
  proof -
    have k: "idg_node_new (node_func k) (node_place k) = k" by (simp add: idg_node_new_def)
    show ?thesis
    proof (cases "nd_lookup d (node_func k) (node_place k)")
      case None
      with r fits dict_find_spec(2) [of ks "nd_by_node d" "nd_lookup_complete d" k] show ?thesis
        by (auto simp: nd_intern_find nd_lookup_find nd_repr_def try_u32_def k unat_of_nat_u32 dict_fits_def intro: dict_ok_append)
    next
      case (Some i)
      with r dict_find_spec(1) [of ks "nd_by_node d" "nd_lookup_complete d" k i] show ?thesis
        by (auto simp: nd_intern_find nd_lookup_find nd_repr_def k)
    qed
  qed
qed (auto simp: nd_repr_def dict_ok_def word_unat_eq_iff)

lemma pd_repr_release: "pd_repr d ks \<Longrightarrow> pd_repr (pd_release_lookup d) ks"
  by (auto simp: pd_repr_def pd_release_lookup_def intro: dict_ok_release)

lemma pd_repr_rebuild: "pd_repr d ks \<Longrightarrow> pd_repr (pd_rebuild_lookup d) ks"
  by (auto simp: pd_repr_def pd_rebuild_lookup_def intro: dict_ok_rebuild simp: dict_ok_def [of _ "pd_by_place d"])

lemma nd_repr_release: "nd_repr d ks \<Longrightarrow> nd_repr (nd_release_lookup d) ks"
  by (auto simp: nd_repr_def nd_release_lookup_def intro: dict_ok_release)

lemma nd_repr_rebuild: "nd_repr d ks \<Longrightarrow> nd_repr (nd_rebuild_lookup d) ks"
  by (auto simp: nd_repr_def nd_rebuild_lookup_def intro: dict_ok_rebuild simp: dict_ok_def [of _ "nd_by_node d"])

text \<open>In any two states of the reverse map the lookup of a place is the same.\<close>

lemma pd_lookup_state:
  assumes "pd_repr d ks" "pd_repr d' ks"
  shows "pd_lookup d p = pd_lookup d' p"
proof (cases "pd_lookup d p")
  case None
  with assms show ?thesis by (metis pd_lookup_find pd_repr_def dict_find_spec(2))
next
  case (Some i)
  with assms show ?thesis by (metis pd_lookup_find pd_repr_def dict_find_spec(1))
qed

section \<open>Segments\<close>

definition IDG_SEGMENT_TABLE_ID :: u32 where "IDG_SEGMENT_TABLE_ID = 100"
definition IDG_SEGMENT_VERSION :: u32 where "IDG_SEGMENT_VERSION = 5"

record idg_segment =
  seg_version :: u32
  seg_places :: place_dict
  seg_nodes :: node_dict
  seg_edges :: "idg_edge list"
  seg_funcs :: "u32 list"
  seg_strings :: string_pool

definition seg_new :: idg_segment where
  "seg_new = \<lparr>seg_version = IDG_SEGMENT_VERSION, seg_places = pd_new, seg_nodes = nd_new,
     seg_edges = [], seg_funcs = [], seg_strings = sp_new\<rparr>"

definition seg_intern_place :: "idg_segment \<Rightarrow> place \<Rightarrow> (place_id \<times> idg_segment) option" where
  "seg_intern_place s p = do {
     (i, d) \<leftarrow> pd_intern (seg_places s) p;
     Some (i, s\<lparr>seg_places := d\<rparr>)
   }"

definition seg_intern_node :: "idg_segment \<Rightarrow> func_id \<Rightarrow> place_id \<Rightarrow> (idg_node_id \<times> idg_segment) option" where
  "seg_intern_node s func p = do {
     (i, d) \<leftarrow> nd_intern (seg_nodes s) func p;
     Some (i, s\<lparr>seg_nodes := d\<rparr>)
   }"

definition seg_add_edge :: "idg_segment \<Rightarrow> idg_edge \<Rightarrow> idg_segment" where
  "seg_add_edge s e = s\<lparr>seg_edges := seg_edges s @ [e]\<rparr>"

definition seg_record_func :: "idg_segment \<Rightarrow> func_id \<Rightarrow> idg_segment" where
  "seg_record_func s raw =
     (case binary_search (seg_funcs s) raw of
        Inr _ \<Rightarrow> s
      | Inl pos \<Rightarrow> s\<lparr>seg_funcs := take pos (seg_funcs s) @ raw # drop pos (seg_funcs s)\<rparr>)"

definition seg_dimensions :: "idg_segment \<Rightarrow> nat \<times> nat \<times> nat" where
  "seg_dimensions s =
     (length (pd_places (seg_places s)), length (nd_nodes (seg_nodes s)), length (seg_edges s))"

definition seg_release_reverse_lookups :: "idg_segment \<Rightarrow> idg_segment" where
  "seg_release_reverse_lookups s = s\<lparr>seg_places := pd_release_lookup (seg_places s),
     seg_nodes := nd_release_lookup (seg_nodes s), seg_strings := sp_release_lookup (seg_strings s)\<rparr>"

definition seg_release_build_lookups :: "idg_segment \<Rightarrow> idg_segment" where
  "seg_release_build_lookups s = s\<lparr>seg_places := pd_release_lookup (seg_places s),
     seg_nodes := nd_release_lookup (seg_nodes s), seg_strings := sp_release_lookup (seg_strings s)\<rparr>"

definition seg_rebuild_build_lookups :: "idg_segment \<Rightarrow> idg_segment option" where
  "seg_rebuild_build_lookups s = do {
     strings \<leftarrow> sp_rebuild_lookup (seg_strings s);
     Some (s\<lparr>seg_places := pd_rebuild_lookup (seg_places s),
       seg_nodes := nd_rebuild_lookup (seg_nodes s), seg_strings := strings\<rparr>)
   }"

definition seg_is_empty :: "idg_segment \<Rightarrow> bool" where
  "seg_is_empty s \<longleftrightarrow> seg_edges s = []"

subsection \<open>Persistence\<close>

datatype idg_error = IE_FactStore fact_store_error | IE_Io | IE_WrongTable u32 u32

text \<open>The file the session publishes, or the error \<^verbatim>\<open>write_to_path\<close> returns.\<close>

definition seg_write_to_path ::
    "(idg_segment \<Rightarrow> bytes option) \<Rightarrow> idg_segment \<Rightarrow> u64 \<Rightarrow> (idg_error + bytes) option" where
  "seg_write_to_path encode s pipeline_hash =
     (case writer_create of
        Inl e \<Rightarrow> Some (Inl (IE_FactStore e))
      | Inr ws \<Rightarrow>
          (case encode s of
             None \<Rightarrow> Some (Inl IE_Io)
           | Some payload \<Rightarrow>
               (if try_u32 (length payload) = None then Some (Inl (IE_FactStore (FS_Io IO_payload_exceeds_4gib)))
                else do {
                  r \<leftarrow> write_session IDG_SEGMENT_TABLE_ID pipeline_hash ws [CmdEntry 0 0 payload] sp_new;
                  Some (case r of Inl e \<Rightarrow> Inl (IE_FactStore e) | Inr (_, f) \<Rightarrow> Inr f)
                })))"

text \<open>The outer option of the argument is whether the path exists.\<close>

definition seg_read_from_path ::
    "(bytes \<Rightarrow> idg_segment option) \<Rightarrow> bytes option \<Rightarrow> u64 \<Rightarrow> (idg_error + idg_segment option) option" where
  "seg_read_from_path decode path pipeline_hash =
     (case path of
        None \<Rightarrow> Some (Inr None)
      | Some f \<Rightarrow> do {
          r \<leftarrow> reader_open f IDG_SEGMENT_TABLE_ID pipeline_hash;
          case r of
            Inl e \<Rightarrow> Some (Inl (IE_FactStore e))
          | Inr reader \<Rightarrow>
              (if hdr_table_id (fr_header reader) \<noteq> IDG_SEGMENT_TABLE_ID
               then Some (Inl (IE_WrongTable (hdr_table_id (fr_header reader)) IDG_SEGMENT_TABLE_ID))
               else do {
                 g \<leftarrow> reader_get reader 0;
                 case g of
                   Inl e \<Rightarrow> Some (Inl (IE_FactStore e))
                 | Inr None \<Rightarrow> Some (Inr None)
                 | Inr (Some hit) \<Rightarrow>
                     (case decode (lh_payload hit) of
                        None \<Rightarrow> Some (Inl IE_Io)
                      | Some s \<Rightarrow>
                          (if seg_version s \<noteq> IDG_SEGMENT_VERSION then Some (Inr None)
                           else do {
                             strings \<leftarrow> sp_rebuild_lookup (seg_strings s);
                             Some (Inr (Some (s\<lparr>seg_places := pd_rebuild_lookup (seg_places s),
                               seg_nodes := nd_rebuild_lookup (seg_nodes s), seg_strings := strings\<rparr>)))
                           }))
               })
        })"

text \<open>What is serialised: the reverse maps and their flags are skipped and come back as defaults.\<close>

definition seg_skip :: "idg_segment \<Rightarrow> idg_segment" where
  "seg_skip s = s\<lparr>
     seg_places := \<lparr>pd_places = pd_places (seg_places s), pd_by_place = Map.empty, pd_lookup_complete = False\<rparr>,
     seg_nodes := \<lparr>nd_nodes = nd_nodes (seg_nodes s), nd_by_node = Map.empty, nd_lookup_complete = False\<rparr>,
     seg_strings := \<lparr>sp_bytes = sp_bytes (seg_strings s), sp_offsets = sp_offsets (seg_strings s),
       sp_by_str = Map.empty, sp_lookup_complete = False\<rparr>\<rparr>"

definition wire_contract :: "(idg_segment \<Rightarrow> bytes option) \<Rightarrow> (bytes \<Rightarrow> idg_segment option) \<Rightarrow> bool" where
  "wire_contract encode decode \<longleftrightarrow> (\<forall>s bs. encode s = Some bs \<longrightarrow> decode bs = Some (seg_skip s))"

subsection \<open>Invariants\<close>

definition seg_repr :: "idg_segment \<Rightarrow> place list \<Rightarrow> idg_node list \<Rightarrow> bytes list \<Rightarrow> bool" where
  "seg_repr s ps ns ss \<longleftrightarrow> pd_repr (seg_places s) ps \<and> nd_repr (seg_nodes s) ns
     \<and> pool_repr (seg_strings s) ss \<and> sorted_wrt (<) (seg_funcs s)"

lemma seg_record_func_spec:
  assumes "sorted_wrt (<) (seg_funcs s)"
  shows "sorted_wrt (<) (seg_funcs (seg_record_func s f))"
    "set (seg_funcs (seg_record_func s f)) = insert f (set (seg_funcs s))"
proof -
  let ?fs = "seg_funcs s"
  have both: "sorted_wrt (<) (seg_funcs (seg_record_func s f))
      \<and> set (seg_funcs (seg_record_func s f)) = insert f (set ?fs)"
  proof (cases "binary_search ?fs f")
    case (Inl pos)
    with binary_search_spec [OF assms, of f] have pos: "pos \<le> length ?fs" "\<forall>j < pos. ?fs ! j < f"
      "\<forall>j. pos \<le> j \<and> j < length ?fs \<longrightarrow> f < ?fs ! j" by auto
    have "\<forall>x \<in> set (take pos ?fs). x < f" using pos(1,2) by (auto simp: in_set_conv_nth)
    moreover have "\<forall>x \<in> set (drop pos ?fs). f < x" using pos by (auto simp: in_set_conv_nth)
    moreover have "sorted_wrt (<) (take pos ?fs @ drop pos ?fs)" using assms by simp
    ultimately have "sorted_wrt (<) (take pos ?fs @ f # drop pos ?fs)"
      unfolding sorted_wrt_append by auto
    moreover have "set (take pos ?fs @ f # drop pos ?fs) = insert f (set ?fs)"
      by (metis append_take_drop_id set_append set_simps(2) Un_insert_right)
    ultimately show ?thesis using Inl by (simp add: seg_record_func_def)
  next
    case (Inr i)
    with binary_search_spec [OF assms, of f] have "f \<in> set ?fs" by auto
    with Inr assms show ?thesis by (auto simp: seg_record_func_def)
  qed
  then show "sorted_wrt (<) (seg_funcs (seg_record_func s f))"
    "set (seg_funcs (seg_record_func s f)) = insert f (set ?fs)" by auto
qed

lemma seg_release_repr: "seg_repr s ps ns ss \<Longrightarrow> seg_repr (seg_release_reverse_lookups s) ps ns ss"
  by (simp add: seg_repr_def seg_release_reverse_lookups_def pd_repr_release nd_repr_release sp_release_repr)

lemma seg_skip_repr: "seg_repr s ps ns ss \<Longrightarrow> seg_repr (seg_skip s) ps ns ss"
  by (auto simp: seg_repr_def seg_skip_def pd_repr_def nd_repr_def pool_repr_def pool_sections_def dict_ok_def)

definition lookups_complete :: "idg_segment \<Rightarrow> bool" where
  "lookups_complete s \<longleftrightarrow> pd_lookup_complete (seg_places s) \<and> nd_lookup_complete (seg_nodes s)
     \<and> sp_lookup_complete (seg_strings s)"

lemma seg_rebuild_repr:
  assumes "seg_repr s ps ns ss"
  obtains s' where "seg_rebuild_build_lookups s = Some s'" "seg_repr s' ps ns ss" "lookups_complete s'"
    "seg_edges s' = seg_edges s" "seg_funcs s' = seg_funcs s" "seg_version s' = seg_version s"
proof -
  obtain st where st: "sp_rebuild_lookup (seg_strings s) = Some st" "pool_repr st ss" "sp_lookup_complete st"
    using sp_rebuild_repr [of "seg_strings s" ss] assms by (auto simp: seg_repr_def pool_repr_def)
  let ?s = "s\<lparr>seg_places := pd_rebuild_lookup (seg_places s), seg_nodes := nd_rebuild_lookup (seg_nodes s),
      seg_strings := st\<rparr>"
  have "seg_repr ?s ps ns ss" using assms st(2) by (auto simp: seg_repr_def intro: pd_repr_rebuild nd_repr_rebuild)
  moreover have "lookups_complete ?s"
    using st(3) by (simp add: lookups_complete_def pd_rebuild_lookup_def nd_rebuild_lookup_def)
  ultimately show thesis using st(1) by (intro that [of ?s]) (auto simp: seg_rebuild_build_lookups_def)
qed

lemma segment_session:
  assumes enc: "encode s = Some bs" and len: "length bs < 2 ^ 32"
  obtains f r where "seg_write_to_path encode s ph = Some (Inr f)"
    "reader_open f IDG_SEGMENT_TABLE_ID ph = Some (Inr r)"
    "hdr_table_id (fr_header r) = IDG_SEGMENT_TABLE_ID" "length f < 2 ^ 63"
    "reader_get r 0 = Some (Inr (Some \<lparr>lh_body_hash = 0, lh_payload = bs\<rparr>))"
proof -
  obtain ws where ws: "writer_create = Inr ws" using writer_create_repr by blast
  obtain so where so: "sp_offsets_bytes sp_new = Some so" "length so = 4"
    by (rule pool_view_roundtrip [OF sp_new_repr]) auto
  let ?cmds = "[CmdEntry 0 0 bs]"
  have fits: "session_fits (map cmd_spec ?cmds) (sp_bytes sp_new) so"
    using len so(2) by (simp add: session_fits_def fmt_consts spec_payloads_def sp_new_def)
  obtain f r where fr: "write_session IDG_SEGMENT_TABLE_ID ph ws ?cmds sp_new = Some (Inr (length ?cmds, f))"
      "reader_open f IDG_SEGMENT_TABLE_ID ph = Some (Inr r)"
      "reader_get r 0 = Some (Inr (Some \<lparr>lh_body_hash = 0, lh_payload = bs\<rparr>))"
    by (rule write_read_session [OF ws _ sp_new_repr so(1) fits, of IDG_SEGMENT_TABLE_ID ph]) (use len in auto)
  have f: "f = published IDG_SEGMENT_TABLE_ID ph (map cmd_spec ?cmds) (sp_bytes sp_new) so (of_nat (sp_len sp_new))"
    using fr(1) write_session_result [OF ws _ so(1) fits, of IDG_SEGMENT_TABLE_ID ph] len by simp
  then have "length f < 2 ^ 63" using fits by (simp add: published_length session_fits_def fmt_consts)
  moreover from this fr(2) have "hdr_table_id (fr_header r) = IDG_SEGMENT_TABLE_ID"
    using reader_open_spec [of f IDG_SEGMENT_TABLE_ID ph] by auto
  moreover have "seg_write_to_path encode s ph = Some (Inr f)"
    unfolding seg_write_to_path_def ws sum.case enc option.case using len fr(1) by (simp add: try_u32_def)
  ultimately show thesis using fr(2,3) by (intro that)
qed

lemma segment_roundtrip:
  assumes wire: "wire_contract encode decode" and enc: "encode s = Some bs" and len: "length bs < 2 ^ 32"
    and rep: "seg_repr s ps ns ss" and ver: "seg_version s = IDG_SEGMENT_VERSION"
  shows "\<exists>f s'. seg_write_to_path encode s ph = Some (Inr f)
    \<and> seg_read_from_path decode (Some f) ph = Some (Inr (Some s'))
    \<and> seg_repr s' ps ns ss \<and> lookups_complete s' \<and> seg_edges s' = seg_edges s \<and> seg_funcs s' = seg_funcs s"
proof -
  obtain f r where fr: "seg_write_to_path encode s ph = Some (Inr f)"
    "reader_open f IDG_SEGMENT_TABLE_ID ph = Some (Inr r)" "hdr_table_id (fr_header r) = IDG_SEGMENT_TABLE_ID"
    "reader_get r 0 = Some (Inr (Some \<lparr>lh_body_hash = 0, lh_payload = bs\<rparr>))"
    by (rule segment_session [where encode = encode and s = s, OF enc len, of ph])
  have dec: "decode bs = Some (seg_skip s)" using wire enc by (simp add: wire_contract_def)
  obtain s' where s': "seg_rebuild_build_lookups (seg_skip s) = Some s'" "seg_repr s' ps ns ss"
      "lookups_complete s'" "seg_edges s' = seg_edges (seg_skip s)" "seg_funcs s' = seg_funcs (seg_skip s)"
    by (rule seg_rebuild_repr [OF seg_skip_repr [OF rep]])
  have "seg_read_from_path decode (Some f) ph = Some (Inr (Some s'))"
    using fr dec s'(1) ver
    by (auto simp: seg_read_from_path_def seg_rebuild_build_lookups_def seg_skip_def split: bind_splits)
  with fr(1) s' show ?thesis by (auto simp: seg_skip_def)
qed

section \<open>Properties\<close>

lemma nd_lookup_state:
  assumes "nd_repr d ks" "nd_repr d' ks"
  shows "nd_lookup d f p = nd_lookup d' f p"
proof (cases "nd_lookup d f p")
  case None
  with assms show ?thesis by (metis nd_lookup_find nd_repr_def dict_find_spec(2))
next
  case (Some i)
  with assms show ?thesis by (metis nd_lookup_find nd_repr_def dict_find_spec(1))
qed

lemma seg_new_repr: "seg_repr seg_new [] [] []"
  using sp_new_repr by (simp add: seg_repr_def seg_new_def pd_repr_def nd_repr_def pd_new_def nd_new_def dict_ok_def)

lemma places_fit: "length tab + length ks < 2 ^ 32 \<Longrightarrow> places.all_fit tab ks"
proof (induction ks arbitrary: tab)
  case (Cons k ks)
  have "dict_fits tab k" unfolding dict_fits_def using Cons.prems by simp
  with Cons show ?case by auto
qed simp

text \<open>A codec that knows a single segment, for the concrete instances below.\<close>

definition sole_encode :: "idg_segment \<Rightarrow> idg_segment \<Rightarrow> bytes option" where
  "sole_encode s0 s = (if s = s0 then Some [1, 2, 3] else None)"

definition sole_decode :: "idg_segment \<Rightarrow> bytes \<Rightarrow> idg_segment option" where
  "sole_decode s0 bs = (if bs = [1, 2, 3] then Some (seg_skip s0) else None)"

lemma sole_wire: "wire_contract (sole_encode s0) (sole_decode s0)"
  by (auto simp: wire_contract_def sole_encode_def sole_decode_def)

text \<open>
  C14: a segment of the current version whose encoding is shorter than 4 GiB is written to a file; reading the file back
  under the same pipeline hash returns a segment with the same places, nodes, strings, edges and functions,
  with all reverse maps rebuilt.
\<close>

theorem segment_write_read:
  assumes "wire_contract encode decode" "encode s = Some bs" "length bs < 2 ^ 32"
    and "seg_repr s ps ns ss" "seg_version s = IDG_SEGMENT_VERSION"
  shows "\<exists>f s'. seg_write_to_path encode s ph = Some (Inr f)
    \<and> seg_read_from_path decode (Some f) ph = Some (Inr (Some s'))
    \<and> seg_repr s' ps ns ss \<and> lookups_complete s' \<and> seg_edges s' = seg_edges s \<and> seg_funcs s' = seg_funcs s"
  by (rule segment_roundtrip [OF assms])

text \<open>A segment with one place, one node, one edge and one function.\<close>

definition small_segment :: idg_segment where
  "small_segment = seg_new\<lparr>
     seg_places := \<lparr>pd_places = [place_read 7], pd_by_place = [place_read 7 \<mapsto> 0], pd_lookup_complete = True\<rparr>,
     seg_nodes := \<lparr>nd_nodes = [idg_node_new 5 0], nd_by_node = [idg_node_new 5 0 \<mapsto> 0], nd_lookup_complete = True\<rparr>,
     seg_edges := [intra_assign 0 0 (span_new 1 2 3)], seg_funcs := [5]\<rparr>"

theorem segment_write_read_witness:
  "\<exists>f s'. seg_write_to_path (sole_encode small_segment) small_segment 9 = Some (Inr f)
    \<and> seg_read_from_path (sole_decode small_segment) (Some f) 9 = Some (Inr (Some s')) \<and> lookups_complete s'
    \<and> pd_places (seg_places s') = [place_read 7] \<and> nd_nodes (seg_nodes s') = [idg_node_new 5 0]
    \<and> seg_edges s' = [intra_assign 0 0 (span_new 1 2 3)] \<and> seg_funcs s' = [5]"
proof -
  have enc: "sole_encode small_segment small_segment = Some [1, 2, 3]" "seg_version small_segment = IDG_SEGMENT_VERSION"
    by (simp_all add: sole_encode_def small_segment_def seg_new_def)
  have "seg_repr small_segment [place_read 7] [idg_node_new 5 0] []"
    using sp_new_repr by (auto simp: small_segment_def seg_repr_def seg_new_def pd_repr_def nd_repr_def dict_ok_def)
  from segment_write_read [OF sole_wire enc(1) _ this enc(2), of 9] show ?thesis
    by (auto simp: seg_repr_def pd_repr_def nd_repr_def) (auto simp: small_segment_def)
qed




text \<open>
  What a file of another segment version reads as: no segment, as for a missing path, where the documentation of
  \<^verbatim>\<open>read_from_path\<close> has an error.
\<close>

lemma version_mismatch_reads_none:
  assumes "wire_contract encode decode" "encode s = Some bs" "length bs < 2 ^ 32" "seg_version s \<noteq> IDG_SEGMENT_VERSION"
  shows "\<exists>f. seg_write_to_path encode s ph = Some (Inr f)
    \<and> seg_read_from_path decode (Some f) ph = Some (Inr None) \<and> seg_read_from_path decode None ph = Some (Inr None)"
proof -
  obtain f r where fr: "seg_write_to_path encode s ph = Some (Inr f)"
    "reader_open f IDG_SEGMENT_TABLE_ID ph = Some (Inr r)" "hdr_table_id (fr_header r) = IDG_SEGMENT_TABLE_ID"
    "reader_get r 0 = Some (Inr (Some \<lparr>lh_body_hash = 0, lh_payload = bs\<rparr>))"
    by (rule segment_session [where encode = encode and s = s, OF assms(2,3), of ph])
  moreover have "decode bs = Some (seg_skip s)" using assms(1,2) by (simp add: wire_contract_def)
  ultimately show ?thesis using assms(4) by (simp add: seg_read_from_path_def seg_skip_def)
qed

text \<open>
  Releasing the reverse maps of a segment, and rebuilding them afterwards, changes no lookup of a place or
  of a node.
\<close>

theorem segment_lookups_any_state:
  assumes "seg_repr s ps ns ss"
  shows "\<exists>s'. seg_rebuild_build_lookups (seg_release_build_lookups s) = Some s' \<and> lookups_complete s'
    \<and> pd_lookup (seg_places s') p = pd_lookup (seg_places s) p
    \<and> pd_lookup (seg_places (seg_release_build_lookups s)) p = pd_lookup (seg_places s) p
    \<and> nd_lookup (seg_nodes s') f q = nd_lookup (seg_nodes s) f q
    \<and> nd_lookup (seg_nodes (seg_release_build_lookups s)) f q = nd_lookup (seg_nodes s) f q
    \<and> seg_edges s' = seg_edges s"
proof -
  have rel: "seg_release_build_lookups s = seg_release_reverse_lookups s"
    by (simp add: seg_release_build_lookups_def seg_release_reverse_lookups_def)
  have r: "seg_repr (seg_release_reverse_lookups s) ps ns ss" by (rule seg_release_repr [OF assms])
  obtain s' where s': "seg_rebuild_build_lookups (seg_release_reverse_lookups s) = Some s'" "seg_repr s' ps ns ss"
      "lookups_complete s'" "seg_edges s' = seg_edges (seg_release_reverse_lookups s)"
    by (rule seg_rebuild_repr [OF r])
  have pd: "pd_repr (seg_places x) ps" "nd_repr (seg_nodes x) ns" if "seg_repr x ps ns ss" for x
    using that by (auto simp: seg_repr_def)
  show ?thesis
    unfolding rel using s' pd_lookup_state [OF pd(1) [OF s'(2)] pd(1) [OF assms]]
      pd_lookup_state [OF pd(1) [OF r] pd(1) [OF assms]] nd_lookup_state [OF pd(2) [OF s'(2)] pd(2) [OF assms]]
      nd_lookup_state [OF pd(2) [OF r] pd(2) [OF assms]]
    by (simp add: seg_release_reverse_lookups_def)
qed

theorem segment_lookups_any_state_witness:
  "\<exists>s'. seg_rebuild_build_lookups (seg_release_build_lookups seg_new) = Some s' \<and> lookups_complete s'"
  using segment_lookups_any_state [OF seg_new_repr] by blast

text \<open>
  Recording functions by binary search and insertion keeps the list strictly increasing, and
  it holds exactly the functions recorded.
\<close>

theorem record_func_sorted:
  assumes "sorted_wrt (<) (seg_funcs s)"
  shows "sorted_wrt (<) (seg_funcs (seg_record_func s f))
    \<and> set (seg_funcs (seg_record_func s f)) = insert f (set (seg_funcs s))
    \<and> seg_record_func (seg_record_func s f) f = seg_record_func s f"
proof -
  note spec = seg_record_func_spec [OF assms, of f]
  have "seg_record_func t f = t" if t: "sorted_wrt (<) (seg_funcs t)" "f \<in> set (seg_funcs t)" for t
  proof (cases "binary_search (seg_funcs t) f")
    case (Inl pos)
    with binary_search_spec [OF t(1), of f] t(2) show ?thesis
      by (auto simp: in_set_conv_nth) (metis not_less less_irrefl)
  qed (simp add: seg_record_func_def)
  with spec show ?thesis by simp
qed

theorem record_func_sorted_witness:
  "sorted_wrt (<) (seg_funcs (seg_record_func seg_new 7)) \<and> set (seg_funcs (seg_record_func seg_new 7)) = {7}"
  using record_func_sorted [of seg_new 7] by (simp add: seg_new_def)

text \<open>
  The id of a place never changes: after any further places are interned, interning the place again returns the
  same id, and the id resolves to the place.
\<close>

theorem place_ids_stable:
  assumes "pd_repr d ks" "length ks + length qs + 1 < 2 ^ 32" "pd_intern d p = Some (i, d1)"
  shows "\<exists>is d2 d3. places.intern_all d1 qs = Some (is, d2) \<and> pd_intern d2 p = Some (i, d3) \<and> pd_get d2 i = Some p"
proof -
  define tab where "tab = (if p \<in> set ks then ks else ks @ [p])"
  have len: "length tab + length qs < 2 ^ 32" using assms(2) by (simp add: tab_def)
  have d1: "pd_repr d1 tab" "unat i < length tab" "tab ! unat i = p"
    using places.intern_repr [OF assms(1), of p] assms(2,3) by (auto simp: tab_def dict_fits_def split: if_splits)
  obtain "is" d2 where d2: "places.intern_all d1 qs = Some (is, d2)" "pd_repr d2 (places.extend tab qs)"
    using places.intern_all_spec [OF d1(1) places_fit [OF len]] by blast
  obtain zs where zs: "places.extend tab qs = tab @ zs" using places.extend_prefix by blast
  have "unat i < length (pd_places d2)" "pd_places d2 ! unat i = p"
    using d2(2) d1(2,3) by (auto simp: pd_repr_def zs nth_append)
  moreover from this have "pd_lookup d2 p = Some i"
    using d2(2) dict_find_spec(1) [of "pd_places d2" "pd_by_place d2" "pd_lookup_complete d2" p i]
    by (simp add: pd_repr_def pd_lookup_find)
  ultimately show ?thesis using d2(1) by (auto simp: pd_intern_find pd_get_def)
qed

theorem place_ids_stable_witness:
  "\<exists>d1 is d2 d3. pd_intern pd_new (place_read 4) = Some (0, d1)
    \<and> places.intern_all d1 [place_read 5] = Some (is, d2) \<and> pd_intern d2 (place_read 4) = Some (0, d3)"
proof -
  have r: "pd_repr pd_new []" using seg_new_repr by (simp add: seg_repr_def seg_new_def)
  let ?d = "\<lparr>pd_places = [place_read 4], pd_by_place = [place_read 4 \<mapsto> 0], pd_lookup_complete = True\<rparr>"
  have "pd_intern pd_new (place_read 4) = Some (0, ?d)" by (simp add: pd_intern_def pd_new_def try_u32_def)
  from place_ids_stable [OF r _ this, of "[place_read 5]"] this show ?thesis by auto
qed

end
