(* ===== verification/Symbolic_Fields.thy ===== *)
theory Symbolic_Fields
  imports Idg_Segment
begin

text \<open>
  The symbolic access-path transforms of \<^verbatim>\<open>crates/idg/src/symbolic.rs\<close>: hash-consed string and base
  dictionaries with lazily built indexes, and the transform relation with its rows by source.

  The hash table (\<^verbatim>\<open>hashbrown::HashTable\<close>) and the hash function (\<^verbatim>\<open>ahash\<close>) are third-party code.
  The table operations are a parameter and \<open>hash_table_contract\<close> is what their documentation
  promises; the hash function is an arbitrary function of the index's random state, so any two values may
  collide. Shown: both dictionaries meet the \<open>interner\<close> contract whatever the random states and
  whether or not the index is built; rebuilding from the stored parts gives back the same rows for
  every base.
\<close>

section \<open>The data\<close>

text \<open>
  What the code uses of \<^verbatim>\<open>hashbrown::HashTable<u32>\<close>. The hasher of \<^verbatim>\<open>insert_unique\<close> indexes the canonical
  vector and may panic, so it returns an option, and so does the insertion.
\<close>

record 't hash_table =
  ht_default :: 't
  ht_find :: "'t \<Rightarrow> u64 \<Rightarrow> (u32 \<Rightarrow> bool) \<Rightarrow> u32 option"
  ht_insert_unique :: "'t \<Rightarrow> u64 \<Rightarrow> u32 \<Rightarrow> (u32 \<Rightarrow> u64 option) \<Rightarrow> 't option"

text \<open>
  The documented behaviour: a probe offers every entry with the given hash (and possibly others) to
  the predicate; an insertion adds an entry provided the hasher returns for every entry the hash it
  was inserted with.
\<close>

definition hash_table_contract :: "'t hash_table \<Rightarrow> ('t \<Rightarrow> (u64 \<times> u32) set) \<Rightarrow> bool" where
  "hash_table_contract ht contents \<longleftrightarrow>
     contents (ht_default ht) = {}
     \<and> (\<forall>t h m. case ht_find ht t h m of
          None \<Rightarrow> \<forall>i. (h, i) \<in> contents t \<longrightarrow> \<not> m i
        | Some i \<Rightarrow> m i \<and> i \<in> snd ` contents t)
     \<and> (\<forall>t h i hasher. (\<forall>(h', j) \<in> contents t. hasher j = Some h') \<longrightarrow>
          (\<exists>t'. ht_insert_unique ht t h i hasher = Some t' \<and> contents t' = insert (h, i) (contents t)))"

text \<open>The index: a table and the random state of its hash function.\<close>

record ('t, 'h) compact_index =
  cci_table :: 't
  cci_hash_builder :: 'h

definition cci_default :: "'t hash_table \<Rightarrow> 'h \<Rightarrow> ('t, 'h) compact_index" where
  "cci_default ht random_state = \<lparr>cci_table = ht_default ht, cci_hash_builder = random_state\<rparr>"

definition cci_hash :: "('h \<Rightarrow> 'k \<Rightarrow> u64) \<Rightarrow> ('t, 'h) compact_index \<Rightarrow> 'k \<Rightarrow> u64" where
  "cci_hash hash_one index v = hash_one (cci_hash_builder index) v"

definition cci_find :: "'t hash_table \<Rightarrow> ('t, 'h) compact_index \<Rightarrow> u64 \<Rightarrow> (u32 \<Rightarrow> bool) \<Rightarrow> u32 option" where
  "cci_find ht index h matches = ht_find ht (cci_table index) h matches"

definition cci_insert ::
    "'t hash_table \<Rightarrow> ('h \<Rightarrow> 'k \<Rightarrow> u64) \<Rightarrow> ('t, 'h) compact_index \<Rightarrow> u64 \<Rightarrow> u32 \<Rightarrow> 'k list \<Rightarrow>
      ('t, 'h) compact_index option" where
  "cci_insert ht hash_one index h i canonical = do {
     table \<leftarrow> ht_insert_unique ht (cci_table index) h i
       (\<lambda>stored. map_option (hash_one (cci_hash_builder index)) (vec_get canonical (unat stored)));
     Some (index\<lparr>cci_table := table\<rparr>)
   }"

record symbolic_field_base =
  sfb_segment :: u32
  sfb_func :: func_id
  sfb_storage :: u32

datatype symbolic_transform_kind =
    ST_Argument | ST_Return | ST_ScalarReturn | ST_ConstructorReturn | ST_ReceiverMutation | ST_Copy

record symbolic_field_transform =
  sft_source :: u32
  sft_target :: u32
  sft_exact_field :: u32
  sft_call_span :: span
  sft_write_span :: span
  sft_call_kind :: call_edge_kind
  sft_kind :: symbolic_transform_kind
  sft_arg_idx :: u32
  sft_param_idx :: u32
  sft_allow_out_of_order_source :: bool

record ('t, 'h) symbolic_field_graph =
  sfg_strings :: "bytes list"
  sfg_bases :: "symbolic_field_base list"
  sfg_transforms :: "symbolic_field_transform list"
  sfg_string_ids :: "('t, 'h) compact_index option"
  sfg_base_ids :: "('t, 'h) compact_index option"
  sfg_outgoing_by_source :: "u32 list list"

section \<open>Operations\<close>

text \<open>
  The argument \<open>rs\<close> is the random state a fresh index draws. \<^verbatim>\<open>build_string_index\<close> and
  \<^verbatim>\<open>build_base_index\<close> insert every row; more than \<open>2 ^ 32\<close> rows panic.
\<close>

definition build_index ::
    "'t hash_table \<Rightarrow> ('h \<Rightarrow> 'k \<Rightarrow> u64) \<Rightarrow> 'h \<Rightarrow> 'k list \<Rightarrow> ('t, 'h) compact_index option" where
  "build_index ht hash_one rs ks =
     for_each (\<lambda>(position, k) index. do {
         i \<leftarrow> try_u32 position;
         let h = cci_hash hash_one index k;
         cci_insert ht hash_one index h i ks
       }) (enumerate 0 ks) (cci_default ht rs)"

definition sfg_new :: "('t, 'h) symbolic_field_graph" where
  "sfg_new = \<lparr>sfg_strings = [], sfg_bases = [], sfg_transforms = [], sfg_string_ids = None,
     sfg_base_ids = None, sfg_outgoing_by_source = []\<rparr>"

text \<open>\<^verbatim>\<open>OnceLock::get_or_init\<close>.\<close>

definition once_index ::
    "'t hash_table \<Rightarrow> ('h \<Rightarrow> 'k \<Rightarrow> u64) \<Rightarrow> 'h \<Rightarrow> 'k list \<Rightarrow> ('t, 'h) compact_index option \<Rightarrow>
      ('t, 'h) compact_index option" where
  "once_index ht hash_one rs ks lock =
     (case lock of Some index \<Rightarrow> Some index | None \<Rightarrow> build_index ht hash_one rs ks)"

definition sfg_intern_string ::
    "'t hash_table \<Rightarrow> ('h \<Rightarrow> bytes \<Rightarrow> u64) \<Rightarrow> 'h \<Rightarrow> ('t, 'h) symbolic_field_graph \<Rightarrow> bytes \<Rightarrow>
      (u32 \<times> ('t, 'h) symbolic_field_graph) option" where
  "sfg_intern_string ht hash_one rs g v = do {
     index \<leftarrow> once_index ht hash_one rs (sfg_strings g) (sfg_string_ids g);
     let h = cci_hash hash_one index v;
     case cci_find ht index h (\<lambda>i. vec_get (sfg_strings g) (unat i) = Some v) of
       Some i \<Rightarrow> Some (i, g\<lparr>sfg_string_ids := Some index\<rparr>)
     | None \<Rightarrow> do {
         i \<leftarrow> try_u32 (length (sfg_strings g));
         let strings = sfg_strings g @ [v];
         index' \<leftarrow> cci_insert ht hash_one index h i strings;
         Some (i, g\<lparr>sfg_strings := strings, sfg_string_ids := Some index'\<rparr>)
       }
   }"

definition sfg_intern_base_row ::
    "'t hash_table \<Rightarrow> ('h \<Rightarrow> symbolic_field_base \<Rightarrow> u64) \<Rightarrow> 'h \<Rightarrow> ('t, 'h) symbolic_field_graph \<Rightarrow>
      symbolic_field_base \<Rightarrow> (u32 \<times> ('t, 'h) symbolic_field_graph) option" where
  "sfg_intern_base_row ht hash_one rs g base = do {
     index \<leftarrow> once_index ht hash_one rs (sfg_bases g) (sfg_base_ids g);
     let h = cci_hash hash_one index base;
     case cci_find ht index h (\<lambda>i. vec_get (sfg_bases g) (unat i) = Some base) of
       Some i \<Rightarrow> Some (i, g\<lparr>sfg_base_ids := Some index\<rparr>)
     | None \<Rightarrow> do {
         i \<leftarrow> try_u32 (length (sfg_bases g));
         let bases = sfg_bases g @ [base];
         index' \<leftarrow> cci_insert ht hash_one index h i bases;
         Some (i, g\<lparr>sfg_bases := bases, sfg_base_ids := Some index'\<rparr>)
       }
   }"

definition sfg_intern_base ::
    "'t hash_table \<Rightarrow> ('h \<Rightarrow> bytes \<Rightarrow> u64) \<Rightarrow> ('h \<Rightarrow> symbolic_field_base \<Rightarrow> u64) \<Rightarrow> 'h \<times> 'h \<Rightarrow>
      ('t, 'h) symbolic_field_graph \<Rightarrow> u32 \<Rightarrow> func_id \<Rightarrow> bytes \<Rightarrow>
      (u32 \<times> ('t, 'h) symbolic_field_graph) option" where
  "sfg_intern_base ht hash_str hash_base rs g segment func storage = do {
     (st, g') \<leftarrow> sfg_intern_string ht hash_str (fst rs) g storage;
     sfg_intern_base_row ht hash_base (snd rs) g' \<lparr>sfb_segment = segment, sfb_func = func, sfb_storage = st\<rparr>
   }"

definition resize_rows :: "nat \<Rightarrow> 'a list list \<Rightarrow> 'a list list" where
  "resize_rows n rows = rows @ replicate (n - length rows) []"

definition sfg_push_transform ::
    "('t, 'h) symbolic_field_graph \<Rightarrow> symbolic_field_transform \<Rightarrow> ('t, 'h) symbolic_field_graph option" where
  "sfg_push_transform g t =
     (let source = unat (sft_source t);
          rows = (if length (sfg_outgoing_by_source g) \<le> source
                  then resize_rows (source + 1) (sfg_outgoing_by_source g)
                  else sfg_outgoing_by_source g) in do {
        row \<leftarrow> vec_get rows source;
        i \<leftarrow> try_u32 (length (sfg_transforms g));
        rows' \<leftarrow> vec_set rows source (row @ [i]);
        Some (g\<lparr>sfg_outgoing_by_source := rows', sfg_transforms := sfg_transforms g @ [t]\<rparr>)
      })"

definition sfg_string :: "('t, 'h) symbolic_field_graph \<Rightarrow> u32 \<Rightarrow> bytes option" where
  "sfg_string g i = vec_get (sfg_strings g) (unat i)"

definition sfg_string_id ::
    "'t hash_table \<Rightarrow> ('h \<Rightarrow> bytes \<Rightarrow> u64) \<Rightarrow> 'h \<Rightarrow> ('t, 'h) symbolic_field_graph \<Rightarrow> bytes \<Rightarrow> u32 option option" where
  "sfg_string_id ht hash_one rs g v = do {
     index \<leftarrow> once_index ht hash_one rs (sfg_strings g) (sfg_string_ids g);
     let h = cci_hash hash_one index v;
     Some (cci_find ht index h (\<lambda>i. vec_get (sfg_strings g) (unat i) = Some v))
   }"

definition sfg_base_id ::
    "'t hash_table \<Rightarrow> ('h \<Rightarrow> bytes \<Rightarrow> u64) \<Rightarrow> ('h \<Rightarrow> symbolic_field_base \<Rightarrow> u64) \<Rightarrow> 'h \<times> 'h \<Rightarrow>
      ('t, 'h) symbolic_field_graph \<Rightarrow> u32 \<Rightarrow> func_id \<Rightarrow> bytes \<Rightarrow> u32 option option" where
  "sfg_base_id ht hash_str hash_base rs g segment func storage = do {
     s \<leftarrow> sfg_string_id ht hash_str (fst rs) g storage;
     case s of
       None \<Rightarrow> Some None
     | Some st \<Rightarrow> do {
         let base = \<lparr>sfb_segment = segment, sfb_func = func, sfb_storage = st\<rparr>;
         index \<leftarrow> once_index ht hash_base (snd rs) (sfg_bases g) (sfg_base_ids g);
         let h = cci_hash hash_base index base;
         Some (cci_find ht index h (\<lambda>i. vec_get (sfg_bases g) (unat i) = Some base))
       }
   }"

definition sfg_outgoing_transform_indices :: "('t, 'h) symbolic_field_graph \<Rightarrow> u32 \<Rightarrow> u32 list" where
  "sfg_outgoing_transform_indices g base =
     (case vec_get (sfg_outgoing_by_source g) (unat base) of Some row \<Rightarrow> row | None \<Rightarrow> [])"

definition sfg_rebuild_dictionary_indexes :: "('t, 'h) symbolic_field_graph \<Rightarrow> ('t, 'h) symbolic_field_graph" where
  "sfg_rebuild_dictionary_indexes g = g\<lparr>sfg_string_ids := None, sfg_base_ids := None\<rparr>"

definition rebuild_row :: "nat \<times> symbolic_field_transform \<Rightarrow> u32 list list \<Rightarrow> u32 list list option" where
  "rebuild_row = (\<lambda>(index, t) rows.
     let source = unat (sft_source t) in
     if source < length rows then do {
       i \<leftarrow> try_u32 index;
       Some (rows[source := rows ! source @ [i]])
     } else Some rows)"

definition sfg_rebuild_indexes :: "('t, 'h) symbolic_field_graph \<Rightarrow> ('t, 'h) symbolic_field_graph option" where
  "sfg_rebuild_indexes g = do {
     rows \<leftarrow> for_each rebuild_row (enumerate 0 (sfg_transforms g)) (replicate (length (sfg_bases g)) []);
     Some ((sfg_rebuild_dictionary_indexes g)\<lparr>sfg_outgoing_by_source := rows\<rparr>)
   }"

definition sfg_release_indexes :: "('t, 'h) symbolic_field_graph \<Rightarrow> ('t, 'h) symbolic_field_graph" where
  "sfg_release_indexes g = g\<lparr>sfg_string_ids := None, sfg_base_ids := None, sfg_outgoing_by_source := []\<rparr>"

definition sfg_into_parts ::
    "('t, 'h) symbolic_field_graph \<Rightarrow> bytes list \<times> symbolic_field_base list \<times> symbolic_field_transform list" where
  "sfg_into_parts g = (sfg_strings g, sfg_bases g, sfg_transforms g)"

definition sfg_from_parts ::
    "bytes list \<Rightarrow> symbolic_field_base list \<Rightarrow> symbolic_field_transform list \<Rightarrow> ('t, 'h) symbolic_field_graph option" where
  "sfg_from_parts strings bases transforms =
     sfg_rebuild_indexes \<lparr>sfg_strings = strings, sfg_bases = bases, sfg_transforms = transforms,
       sfg_string_ids = None, sfg_base_ids = None, sfg_outgoing_by_source = []\<rparr>"

definition sfg_from_header_parts :: "bytes list \<Rightarrow> symbolic_field_base list \<Rightarrow> ('t, 'h) symbolic_field_graph" where
  "sfg_from_header_parts strings bases =
     sfg_rebuild_dictionary_indexes \<lparr>sfg_strings = strings, sfg_bases = bases, sfg_transforms = [],
       sfg_string_ids = None, sfg_base_ids = None, sfg_outgoing_by_source = []\<rparr>"

definition sfg_extend_transforms ::
    "('t, 'h) symbolic_field_graph \<Rightarrow> symbolic_field_transform list \<Rightarrow> ('t, 'h) symbolic_field_graph option" where
  "sfg_extend_transforms g ts = for_each (\<lambda>t g. sfg_push_transform g t) ts g"

section \<open>Dictionaries\<close>

definition index_entries :: "('k \<Rightarrow> u64) \<Rightarrow> 'k list \<Rightarrow> nat \<Rightarrow> (u64 \<times> u32) set" where
  "index_entries hash ks n = (\<lambda>i. (hash (ks ! i), of_nat i)) ` {..<n}"

definition index_of ::
    "('t \<Rightarrow> (u64 \<times> u32) set) \<Rightarrow> ('h \<Rightarrow> 'k \<Rightarrow> u64) \<Rightarrow> 'k list \<Rightarrow> nat \<Rightarrow> ('t, 'h) compact_index \<Rightarrow> bool" where
  "index_of contents hash_one ks n index \<longleftrightarrow>
     contents (cci_table index) = index_entries (hash_one (cci_hash_builder index)) ks n"

text \<open>A dictionary in either state of its lazily built index.\<close>

definition index_ok ::
    "'t hash_table \<Rightarrow> ('t \<Rightarrow> (u64 \<times> u32) set) \<Rightarrow> ('h \<Rightarrow> 'k \<Rightarrow> u64) \<Rightarrow> 'k list \<Rightarrow>
      ('t, 'h) compact_index option \<Rightarrow> bool" where
  "index_ok ht contents hash_one ks lock \<longleftrightarrow> hash_table_contract ht contents \<and> distinct ks
     \<and> length ks \<le> 2 ^ 32 \<and> (\<forall>index. lock = Some index \<longrightarrow> index_of contents hash_one ks (length ks) index)"

lemma hash_table_default: "hash_table_contract ht contents \<Longrightarrow> contents (ht_default ht) = {}"
  by (simp add: hash_table_contract_def)

lemma hash_table_find:
  assumes "hash_table_contract ht contents"
  shows "ht_find ht t h m = None \<Longrightarrow> (h, i) \<in> contents t \<Longrightarrow> \<not> m i"
    "ht_find ht t h m = Some i \<Longrightarrow> m i"
proof -
  have "\<forall>t h m. case ht_find ht t h m of
      None \<Rightarrow> \<forall>i. (h, i) \<in> contents t \<longrightarrow> \<not> m i
    | Some i \<Rightarrow> m i \<and> i \<in> snd ` contents t"
    using assms unfolding hash_table_contract_def by (elim conjE)
  then have c: "case ht_find ht t h m of
      None \<Rightarrow> \<forall>i. (h, i) \<in> contents t \<longrightarrow> \<not> m i
    | Some i \<Rightarrow> m i \<and> i \<in> snd ` contents t" by (elim allE)
  show "ht_find ht t h m = None \<Longrightarrow> (h, i) \<in> contents t \<Longrightarrow> \<not> m i" using c by simp
  show "ht_find ht t h m = Some i \<Longrightarrow> m i" using c by simp
qed

lemma hash_table_insert:
  assumes "hash_table_contract ht contents" "\<And>h' j. (h', j) \<in> contents t \<Longrightarrow> hasher j = Some h'"
  obtains t' where "ht_insert_unique ht t h i hasher = Some t'" "contents t' = insert (h, i) (contents t)"
proof -
  have "\<forall>t h i hasher. (\<forall>(h', j) \<in> contents t. hasher j = Some h') \<longrightarrow>
      (\<exists>t'. ht_insert_unique ht t h i hasher = Some t' \<and> contents t' = insert (h, i) (contents t))"
    using assms(1) by (simp add: hash_table_contract_def)
  moreover have "\<forall>(h', j) \<in> contents t. hasher j = Some h'" using assms(2) by auto
  ultimately show thesis using that by blast
qed

lemma cci_insert_index:
  assumes ht: "hash_table_contract ht contents" and index: "index_of contents hash_one ks n index"
    and n: "n < length ks" "length ks \<le> 2 ^ 32"
  obtains index' where "cci_insert ht hash_one index (cci_hash hash_one index (ks ! n)) (of_nat n) ks = Some index'"
    "index_of contents hash_one ks (Suc n) index'"
proof -
  let ?hasher = "\<lambda>stored. map_option (hash_one (cci_hash_builder index)) (vec_get ks (unat (stored :: u32)))"
  have u: "unat (of_nat i :: u32) = i" if "i < length ks" for i
    using that n(2) by (intro unat_of_nat_u32) simp
  have "?hasher j = Some h'" if "(h', j) \<in> contents (cci_table index)" for h' j
    using that index n(1) by (auto simp: index_of_def index_entries_def u)
  then obtain t where "ht_insert_unique ht (cci_table index) (cci_hash hash_one index (ks ! n)) (of_nat n) ?hasher = Some t"
      "contents t = insert (cci_hash hash_one index (ks ! n), of_nat n) (contents (cci_table index))"
    by (rule hash_table_insert [OF ht])
  with index show thesis
    by (intro that [of "index\<lparr>cci_table := t\<rparr>"])
      (auto simp: cci_insert_def index_of_def index_entries_def cci_hash_def lessThan_Suc)
qed

lemma build_index_spec:
  assumes ht: "hash_table_contract ht contents" and len: "length ks \<le> 2 ^ 32"
  obtains index where "build_index ht hash_one rs ks = Some index" "index_of contents hash_one ks (length ks) index"
proof -
  let ?step = "\<lambda>(position, k) index. do {
     i \<leftarrow> try_u32 position;
     let h = cci_hash hash_one index k;
     cci_insert ht hash_one index h i ks }"
  have "\<exists>index. for_each ?step (enumerate 0 (take n ks)) (cci_default ht rs) = Some index
      \<and> index_of contents hash_one ks n index" if "n \<le> length ks" for n
    using that
  proof (induction n)
    case 0
    then show ?case
      using hash_table_default [OF ht] by (simp add: cci_default_def index_of_def index_entries_def)
  next
    case (Suc n)
    then obtain index where index: "for_each ?step (enumerate 0 (take n ks)) (cci_default ht rs) = Some index"
        "index_of contents hash_one ks n index" by auto
    obtain index' where "cci_insert ht hash_one index (cci_hash hash_one index (ks ! n)) (of_nat n) ks = Some index'"
        "index_of contents hash_one ks (Suc n) index'"
      using Suc.prems by (auto intro: cci_insert_index [OF ht index(2) _ len])
    moreover have "try_u32 n = Some (of_nat n)" using Suc.prems len by (simp add: try_u32_def)
    moreover have "take (Suc n) ks = take n ks @ [ks ! n]" "length (take n ks) = n"
      using Suc.prems by (simp_all add: take_Suc_conv_app_nth)
    ultimately show ?case using index(1)
      by (simp only: enumerate_append_eq for_each_append) simp
  qed
  from this [of "length ks"] that show thesis by (auto simp: build_index_def)
qed

lemma once_index_ok:
  assumes "index_ok ht contents hash_one ks lock"
  obtains index where "once_index ht hash_one rs ks lock = Some index"
    "index_of contents hash_one ks (length ks) index"
  using assms build_index_spec [of ht contents ks hash_one rs] that
  by (cases lock) (auto simp: once_index_def index_ok_def)

lemma cci_find_spec:
  assumes ok: "index_ok ht contents hash_one ks lock" and index: "index_of contents hash_one ks (length ks) index"
    and r: "r = cci_find ht index (cci_hash hash_one index k) (\<lambda>i. vec_get ks (unat i) = Some k)"
  shows "r = Some i \<Longrightarrow> unat i < length ks \<and> ks ! unat i = k" "r = None \<longleftrightarrow> k \<notin> set ks"
proof -
  have ht: "hash_table_contract ht contents" and len: "length ks \<le> 2 ^ 32" using ok by (auto simp: index_ok_def)
  show hit: "unat i < length ks \<and> ks ! unat i = k" if "r = Some i" for i
    using hash_table_find(2) [OF ht] that unfolding r cci_find_def
    by (fastforce simp: vec_get_def split: if_splits)
  show "r = None \<longleftrightarrow> k \<notin> set ks"
  proof
    assume none: "r = None"
    show "k \<notin> set ks"
    proof
      assume "k \<in> set ks"
      then obtain i where i: "i < length ks" "ks ! i = k" by (auto simp: in_set_conv_nth)
      have "(cci_hash hash_one index k, of_nat i) \<in> contents (cci_table index)"
        using index i by (auto simp: index_of_def index_entries_def cci_hash_def)
      from hash_table_find(1) [OF ht none [unfolded r cci_find_def] this] show False
        using i len by (simp add: unat_of_nat_u32)
    qed
  next
    assume "k \<notin> set ks"
    with hit show "r = None" by (cases r) fastforce+
  qed
qed

lemma index_of_append: "index_of contents hash_one ks (length ks) index \<Longrightarrow>
    index_of contents hash_one (ks @ [k]) (length ks) index"
  by (auto simp: index_of_def index_entries_def nth_append)

text \<open>The insertion of a new key, shared by the two dictionaries.\<close>

lemma dictionary_insert:
  assumes ok: "index_ok ht contents hash_one ks lock" and index: "index_of contents hash_one ks (length ks) index"
    and k: "k \<notin> set ks" and lt: "length ks < 2 ^ 32"
  obtains index' where
    "cci_insert ht hash_one index (cci_hash hash_one index k) (of_nat (length ks)) (ks @ [k]) = Some index'"
    "index_ok ht contents hash_one (ks @ [k]) (Some index')"
proof -
  have ht: "hash_table_contract ht contents" and "distinct ks" using ok by (auto simp: index_ok_def)
  obtain index' where "cci_insert ht hash_one index (cci_hash hash_one index ((ks @ [k]) ! length ks))
      (of_nat (length ks)) (ks @ [k]) = Some index'" "index_of contents hash_one (ks @ [k]) (Suc (length ks)) index'"
    by (rule cci_insert_index [OF ht index_of_append [OF index, of k]]) (use lt in simp_all)
  with ht k lt \<open>distinct ks\<close> show thesis by (intro that [of index']) (simp_all add: index_ok_def)
qed

interpretation sym_strings: interner "sfg_intern_string ht hash_one rs"
  "\<lambda>g ks. sfg_strings g = ks \<and> index_ok ht contents hash_one ks (sfg_string_ids g)"
  "\<lambda>ks _. length ks < 2 ^ 32" "unat :: u32 \<Rightarrow> nat" for ht contents hash_one rs
proof unfold_locales
  show "\<exists>i p'. sfg_intern_string ht hash_one rs g k = Some (i, p') \<and>
      (if k \<in> set ks then (sfg_strings p' = ks \<and> index_ok ht contents hash_one ks (sfg_string_ids p'))
         \<and> unat i < length ks \<and> ks ! unat i = k
       else (sfg_strings p' = ks @ [k] \<and> index_ok ht contents hash_one (ks @ [k]) (sfg_string_ids p'))
         \<and> unat i = length ks)"
    if r: "sfg_strings g = ks \<and> index_ok ht contents hash_one ks (sfg_string_ids g)"
      and lt: "length ks < 2 ^ 32" for g ks k
  proof -
    obtain index where index: "once_index ht hash_one rs ks (sfg_string_ids g) = Some index"
        "index_of contents hash_one ks (length ks) index"
      using once_index_ok [of ht contents hash_one ks "sfg_string_ids g" rs] r by blast
    note found = cci_find_spec [OF conjunct2 [OF r] index(2) refl, of k]
    show ?thesis
    proof (cases "k \<in> set ks")
      case True
      with found obtain i where "cci_find ht index (cci_hash hash_one index k)
          (\<lambda>i. vec_get ks (unat i) = Some k) = Some i" by blast
      with found(1) True r index show ?thesis
        by (auto simp: sfg_intern_string_def Let_def index_ok_def)
    next
      case False
      obtain index' where "cci_insert ht hash_one index (cci_hash hash_one index k) (of_nat (length ks)) (ks @ [k])
          = Some index'" "index_ok ht contents hash_one (ks @ [k]) (Some index')"
        by (rule dictionary_insert [OF conjunct2 [OF r] index(2) False lt])
      with False found(2) r index(1) lt show ?thesis
        by (auto simp: sfg_intern_string_def Let_def try_u32_def unat_of_nat_u32)
    qed
  qed
qed (auto simp: index_ok_def word_unat_eq_iff)

interpretation sym_bases: interner "sfg_intern_base_row ht hash_one rs"
  "\<lambda>g ks. sfg_bases g = ks \<and> index_ok ht contents hash_one ks (sfg_base_ids g)"
  "\<lambda>ks _. length ks < 2 ^ 32" "unat :: u32 \<Rightarrow> nat" for ht contents hash_one rs
proof unfold_locales
  show "\<exists>i p'. sfg_intern_base_row ht hash_one rs g k = Some (i, p') \<and>
      (if k \<in> set ks then (sfg_bases p' = ks \<and> index_ok ht contents hash_one ks (sfg_base_ids p'))
         \<and> unat i < length ks \<and> ks ! unat i = k
       else (sfg_bases p' = ks @ [k] \<and> index_ok ht contents hash_one (ks @ [k]) (sfg_base_ids p'))
         \<and> unat i = length ks)"
    if r: "sfg_bases g = ks \<and> index_ok ht contents hash_one ks (sfg_base_ids g)"
      and lt: "length ks < 2 ^ 32" for g ks k
  proof -
    obtain index where index: "once_index ht hash_one rs ks (sfg_base_ids g) = Some index"
        "index_of contents hash_one ks (length ks) index"
      using once_index_ok [of ht contents hash_one ks "sfg_base_ids g" rs] r by blast
    note found = cci_find_spec [OF conjunct2 [OF r] index(2) refl, of k]
    show ?thesis
    proof (cases "k \<in> set ks")
      case True
      with found obtain i where "cci_find ht index (cci_hash hash_one index k)
          (\<lambda>i. vec_get ks (unat i) = Some k) = Some i" by blast
      with found(1) True r index show ?thesis
        by (auto simp: sfg_intern_base_row_def Let_def index_ok_def)
    next
      case False
      obtain index' where "cci_insert ht hash_one index (cci_hash hash_one index k) (of_nat (length ks)) (ks @ [k])
          = Some index'" "index_ok ht contents hash_one (ks @ [k]) (Some index')"
        by (rule dictionary_insert [OF conjunct2 [OF r] index(2) False lt])
      with False found(2) r index(1) lt show ?thesis
        by (auto simp: sfg_intern_base_row_def Let_def try_u32_def unat_of_nat_u32)
    qed
  qed
qed (auto simp: index_ok_def word_unat_eq_iff)

section \<open>The transform rows\<close>

definition rows_spec :: "symbolic_field_transform list \<Rightarrow> nat \<Rightarrow> u32 list" where
  "rows_spec ts v = map of_nat (filter (\<lambda>i. unat (sft_source (ts ! i)) = v) [0..<length ts])"

definition rows_ok :: "('t, 'h) symbolic_field_graph \<Rightarrow> bool" where
  "rows_ok g \<longleftrightarrow> length (sfg_transforms g) \<le> 2 ^ 32 \<and>
     (\<forall>v. sfg_outgoing_transform_indices g v = rows_spec (sfg_transforms g) (unat v))"

lemma rows_spec_append:
  "rows_spec (ts @ [t]) v = rows_spec ts v @ (if unat (sft_source t) = v then [of_nat (length ts)] else [])"
proof -
  have "filter (\<lambda>i. unat (sft_source ((ts @ [t]) ! i)) = v) [0..<length ts] =
      filter (\<lambda>i. unat (sft_source (ts ! i)) = v) [0..<length ts]"
    by (rule filter_cong) (auto simp: nth_append)
  then show ?thesis by (simp add: rows_spec_def nth_append)
qed

lemma outgoing_resize:
  "(case vec_get (resize_rows n rows) v of Some row \<Rightarrow> row | None \<Rightarrow> []) =
   (case vec_get rows v of Some row \<Rightarrow> row | None \<Rightarrow> [])"
  by (auto simp: resize_rows_def vec_get_def nth_append)

lemma push_transform_rows:
  assumes "rows_ok g" "length (sfg_transforms g) < 2 ^ 32"
  obtains g' where "sfg_push_transform g t = Some g'" "rows_ok g'"
    "sfg_transforms g' = sfg_transforms g @ [t]" "sfg_bases g' = sfg_bases g" "sfg_strings g' = sfg_strings g"
proof -
  define s where "s = unat (sft_source t)"
  define rows where "rows = (if length (sfg_outgoing_by_source g) \<le> s
      then resize_rows (s + 1) (sfg_outgoing_by_source g) else sfg_outgoing_by_source g)"
  have s: "s < length rows" by (auto simp: rows_def resize_rows_def)
  have same: "(case vec_get rows v of Some row \<Rightarrow> row | None \<Rightarrow> []) =
      (case vec_get (sfg_outgoing_by_source g) v of Some row \<Rightarrow> row | None \<Rightarrow> [])" for v
    by (auto simp: rows_def outgoing_resize)
  let ?g = "g\<lparr>sfg_outgoing_by_source := rows[s := rows ! s @ [of_nat (length (sfg_transforms g))]],
      sfg_transforms := sfg_transforms g @ [t]\<rparr>"
  have push: "sfg_push_transform g t = Some ?g"
    using s assms(2) by (simp add: sfg_push_transform_def Let_def try_u32_def flip: s_def rows_def)
  have "sfg_outgoing_transform_indices ?g v = rows_spec (sfg_transforms ?g) (unat v)" for v
  proof -
    have "(case vec_get rows (unat v) of Some row \<Rightarrow> row | None \<Rightarrow> []) = rows_spec (sfg_transforms g) (unat v)"
      using assms(1) by (simp add: same rows_ok_def sfg_outgoing_transform_indices_def)
    with s show ?thesis
      by (auto simp: sfg_outgoing_transform_indices_def rows_spec_append s_def [symmetric] vec_get_def
          split: if_splits)
  qed
  with assms push show thesis by (intro that [of ?g]) (auto simp: rows_ok_def)
qed

lemma rebuild_rows:
  assumes "length ts \<le> 2 ^ 32"
  shows "\<exists>rows. for_each rebuild_row (enumerate 0 ts) (replicate n []) = Some rows \<and> length rows = n
    \<and> (\<forall>v < n. rows ! v = rows_spec ts v)"
  using assms
proof (induction ts rule: rev_induct)
  case Nil
  then show ?case by (simp add: rows_spec_def)
next
  case (snoc t ts)
  then obtain rows where rows: "for_each rebuild_row (enumerate 0 ts) (replicate n []) = Some rows"
      "length rows = n" "\<forall>v < n. rows ! v = rows_spec ts v" by auto
  have "\<exists>rows'. rebuild_row (length ts, t) rows = Some rows' \<and> length rows' = n
      \<and> (\<forall>v < n. rows' ! v = rows_spec (ts @ [t]) v)"
    using rows(2,3) snoc.prems
    by (auto simp: rebuild_row_def Let_def try_u32_def rows_spec_append nth_list_update)
  with rows(1) show ?case by (auto simp: enumerate_append_eq for_each_append)
qed

section \<open>Properties\<close>

definition sfg_ok ::
    "'t hash_table \<Rightarrow> ('t \<Rightarrow> (u64 \<times> u32) set) \<Rightarrow> ('h \<Rightarrow> bytes \<Rightarrow> u64) \<Rightarrow> ('h \<Rightarrow> symbolic_field_base \<Rightarrow> u64) \<Rightarrow>
      ('t, 'h) symbolic_field_graph \<Rightarrow> bool" where
  "sfg_ok ht contents hash_str hash_base g \<longleftrightarrow>
     index_ok ht contents hash_str (sfg_strings g) (sfg_string_ids g)
     \<and> index_ok ht contents hash_base (sfg_bases g) (sfg_base_ids g)"

lemma find_row:
  assumes ok: "index_ok ht contents hash_one ks lock" and i: "unat i < length ks"
  shows "do { index \<leftarrow> once_index ht hash_one rs ks lock;
    Some (cci_find ht index (cci_hash hash_one index (ks ! unat i)) (\<lambda>j. vec_get ks (unat j) = Some (ks ! unat i))) } =
    Some (Some i)"
proof -
  obtain index where index: "once_index ht hash_one rs ks lock = Some index"
      "index_of contents hash_one ks (length ks) index" by (rule once_index_ok [OF ok])
  define r where "r = cci_find ht index (cci_hash hash_one index (ks ! unat i))
    (\<lambda>j. vec_get ks (unat j) = Some (ks ! unat i))"
  note spec = cci_find_spec [OF ok index(2) r_def]
  obtain j where j: "r = Some j" using spec(2) i nth_mem by (cases r) auto
  then have "unat j = unat i"
    using spec(1) [OF j] i ok nth_eq_iff_index_eq [of ks "unat j" "unat i"] by (simp add: index_ok_def)
  then have "j = i" by (simp add: word_unat_eq_iff)
  with index(1) j show ?thesis by (simp add: r_def)
qed

lemma intern_string_frame:
  "sfg_intern_string ht hash_one rs g v = Some (i, g') \<Longrightarrow>
    sfg_bases g' = sfg_bases g \<and> sfg_base_ids g' = sfg_base_ids g \<and> sfg_transforms g' = sfg_transforms g
    \<and> sfg_outgoing_by_source g' = sfg_outgoing_by_source g"
  by (auto simp: sfg_intern_string_def Let_def split: bind_splits option.splits)

lemma intern_base_row_frame:
  "sfg_intern_base_row ht hash_one rs g v = Some (i, g') \<Longrightarrow>
    sfg_strings g' = sfg_strings g \<and> sfg_string_ids g' = sfg_string_ids g \<and> sfg_transforms g' = sfg_transforms g
    \<and> sfg_outgoing_by_source g' = sfg_outgoing_by_source g"
  by (auto simp: sfg_intern_base_row_def Let_def split: bind_splits option.splits)

text \<open>
  Interning a base (segment, function, storage) returns an id without a panic, keeps every id given
  before, and looking the base up afterwards returns that id, whatever hash function and random states the
  indexes draw.
\<close>

theorem symbolic_base_interned:
  assumes "sfg_ok ht contents hash_str hash_base g"
    and "length (sfg_strings g) < 2 ^ 32" "length (sfg_bases g) < 2 ^ 32"
  shows "\<exists>i g'. sfg_intern_base ht hash_str hash_base rs g segment func storage = Some (i, g')
    \<and> sfg_ok ht contents hash_str hash_base g' \<and> sfg_transforms g' = sfg_transforms g
    \<and> sfg_base_id ht hash_str hash_base rs' g' segment func storage = Some (Some i)
    \<and> (\<exists>ss. sfg_strings g' = sfg_strings g @ ss) \<and> (\<exists>bs. sfg_bases g' = sfg_bases g @ bs)"
proof -
  have ok: "index_ok ht contents hash_str (sfg_strings g) (sfg_string_ids g)"
      "index_ok ht contents hash_base (sfg_bases g) (sfg_base_ids g)"
    using assms(1) by (auto simp: sfg_ok_def)
  obtain st g1 where g1: "sfg_intern_string ht hash_str (fst rs) g storage = Some (st, g1)"
      "index_ok ht contents hash_str (sfg_strings g1) (sfg_string_ids g1)"
      "unat st < length (sfg_strings g1)" "sfg_strings g1 ! unat st = storage"
      "\<exists>ss. sfg_strings g1 = sfg_strings g @ ss"
    using sym_strings.intern_repr [OF conjI [OF refl ok(1)] assms(2), where k = storage and rs = "fst rs"] by (auto split: if_splits)
  note f1 = intern_string_frame [OF g1(1)]
  define base where "base = \<lparr>sfb_segment = segment, sfb_func = func, sfb_storage = st\<rparr>"
  have "sfg_bases g1 = sfg_bases g \<and> index_ok ht contents hash_base (sfg_bases g) (sfg_base_ids g1)"
    using f1 ok(2) by simp
  from sym_bases.intern_repr [OF this assms(3), where k = base and rs = "snd rs"]
  obtain i g2 where g2: "sfg_intern_base_row ht hash_base (snd rs) g1 base = Some (i, g2)"
      "index_ok ht contents hash_base (sfg_bases g2) (sfg_base_ids g2)"
      "unat i < length (sfg_bases g2)" "sfg_bases g2 ! unat i = base" "\<exists>bs. sfg_bases g2 = sfg_bases g @ bs"
    by (auto split: if_splits)
  note f2 = intern_base_row_frame [OF g2(1)]
  have ok2: "index_ok ht contents hash_str (sfg_strings g2) (sfg_string_ids g2)" using f2 g1(2) by simp
  have str: "sfg_string_id ht hash_str (fst rs') g2 storage = Some (Some st)"
    using find_row [OF ok2, of st "fst rs'"] g1(3,4) f2 by (simp add: sfg_string_id_def Let_def)
  have "sfg_base_id ht hash_str hash_base rs' g2 segment func storage = Some (Some i)"
    using find_row [OF g2(2,3), of "snd rs'"] by (simp add: sfg_base_id_def str Let_def g2(4) flip: base_def)
  moreover have "sfg_intern_base ht hash_str hash_base rs g segment func storage = Some (i, g2)"
    using g1(1) g2(1) by (simp add: sfg_intern_base_def flip: base_def)
  moreover have "sfg_ok ht contents hash_str hash_base g2" using ok2 g2(2) by (simp add: sfg_ok_def)
  ultimately show ?thesis using f1 f2 g1(5) g2(5) by auto
qed

text \<open>A list of the entries meets the contract of the table.\<close>

definition list_table :: "(u64 \<times> u32) list hash_table" where
  "list_table = \<lparr>ht_default = [],
     ht_find = (\<lambda>t h m. map_option snd (find (\<lambda>(h', i). m i) t)),
     ht_insert_unique = (\<lambda>t h i hasher. Some ((h, i) # t))\<rparr>"

lemma list_table_contract: "hash_table_contract list_table set"
proof -
  have "case map_option snd (find (\<lambda>(h', i). m i) t) of
      None \<Rightarrow> \<forall>i. (h, i) \<in> set t \<longrightarrow> \<not> m i | Some i \<Rightarrow> m i \<and> i \<in> snd ` set t" for t h and m :: "u32 \<Rightarrow> bool"
    by (induction t) (force split: option.splits simp: image_iff)+
  then show ?thesis unfolding hash_table_contract_def list_table_def by (intro conjI allI) simp_all
qed

lemma sfg_new_ok: "sfg_ok list_table set hash_str hash_base sfg_new"
  using list_table_contract by (simp add: sfg_ok_def sfg_new_def index_ok_def)

theorem symbolic_base_interned_witness:
  "\<exists>i g'. sfg_intern_base list_table (\<lambda>_ _. 0) (\<lambda>_ _. 0) ((), ()) sfg_new 1 2 [97] = Some (i, g')
    \<and> sfg_base_id list_table (\<lambda>_ _. 0) (\<lambda>_ _. 0) ((), ()) g' 1 2 [97] = Some (Some i)"
  using symbolic_base_interned [where ht = list_table and contents = set and g = sfg_new and rs = "((), ())" and rs' = "((), ())" and segment = 1 and func = 2
      and storage = "[97]" and hash_str = "\<lambda>_ _. 0" and hash_base = "\<lambda>_ _. 0"]
    sfg_new_ok [of "\<lambda>_ _. 0" "\<lambda>_ _. 0"]
  by (simp add: sfg_new_def) blast

lemma extend_transforms_rows:
  assumes "rows_ok g" "length (sfg_transforms g) + length ts \<le> 2 ^ 32"
  shows "\<exists>g'. sfg_extend_transforms g ts = Some g' \<and> rows_ok g' \<and> sfg_transforms g' = sfg_transforms g @ ts
    \<and> sfg_bases g' = sfg_bases g \<and> sfg_strings g' = sfg_strings g"
  using assms
proof (induction ts arbitrary: g)
  case Nil
  then show ?case by (simp add: sfg_extend_transforms_def)
next
  case (Cons t ts)
  obtain g1 where g1: "sfg_push_transform g t = Some g1" "rows_ok g1" "sfg_transforms g1 = sfg_transforms g @ [t]"
      "sfg_bases g1 = sfg_bases g" "sfg_strings g1 = sfg_strings g"
    by (rule push_transform_rows [OF Cons.prems(1), of t]) (use Cons.prems(2) in auto)
  from Cons.IH [OF g1(2)] g1 Cons.prems(2) show ?case by (auto simp: sfg_extend_transforms_def)
qed

text \<open>
  C39: after any sequence of transforms is added, the row of every base lists exactly the indices of its outgoing
  transforms in order; taking the graph apart for storage and rebuilding it from the parts gives back the same
  rows for every base of the graph.
\<close>

theorem symbolic_rows_rebuilt:
  assumes "rows_ok g" "length (sfg_transforms g) + length ts \<le> 2 ^ 32"
  shows "\<exists>g' g''. sfg_extend_transforms g ts = Some g' \<and> sfg_transforms g' = sfg_transforms g @ ts
    \<and> (\<forall>v. sfg_outgoing_transform_indices g' v = rows_spec (sfg_transforms g @ ts) (unat v))
    \<and> (case sfg_into_parts g' of (ss, bs, us) \<Rightarrow> sfg_from_parts ss bs us) = Some g''
    \<and> (\<forall>v. unat v < length (sfg_bases g) \<longrightarrow>
         sfg_outgoing_transform_indices g'' v = sfg_outgoing_transform_indices g' v)"
proof -
  obtain g' where g': "sfg_extend_transforms g ts = Some g'" "rows_ok g'" "sfg_transforms g' = sfg_transforms g @ ts"
      "sfg_bases g' = sfg_bases g" using extend_transforms_rows [OF assms] by blast
  obtain rows where rows: "for_each rebuild_row (enumerate 0 (sfg_transforms g')) (replicate (length (sfg_bases g')) []) =
      Some rows" "length rows = length (sfg_bases g')" "\<forall>v < length (sfg_bases g'). rows ! v = rows_spec (sfg_transforms g') v"
    using rebuild_rows [of "sfg_transforms g'" "length (sfg_bases g')"] g'(2) by (auto simp: rows_ok_def)
  let ?g = "\<lparr>sfg_strings = sfg_strings g', sfg_bases = sfg_bases g', sfg_transforms = sfg_transforms g',
    sfg_string_ids = None, sfg_base_ids = None, sfg_outgoing_by_source = rows\<rparr>"
  have "(case sfg_into_parts g' of (ss, bs, us) \<Rightarrow> sfg_from_parts ss bs us) = Some ?g"
    using rows(1)
    by (simp add: sfg_into_parts_def sfg_from_parts_def sfg_rebuild_indexes_def sfg_rebuild_dictionary_indexes_def)
  moreover have row': "sfg_outgoing_transform_indices g' v = rows_spec (sfg_transforms g @ ts) (unat v)" for v
    using g'(2,3) by (simp add: rows_ok_def)
  moreover have "sfg_outgoing_transform_indices ?g v = rows_spec (sfg_transforms g @ ts) (unat v)"
    if "unat v < length (sfg_bases g)" for v
    using rows(2,3) g'(3,4) that by (simp add: sfg_outgoing_transform_indices_def)
  ultimately show ?thesis using g'(1,3) by metis
qed

definition sample_transform :: "u32 \<Rightarrow> u32 \<Rightarrow> symbolic_field_transform" where
  "sample_transform s t = \<lparr>sft_source = s, sft_target = t, sft_exact_field = 0, sft_call_span = span_new 0 0 1,
     sft_write_span = span_new 0 0 1, sft_call_kind = CallDirect, sft_kind = ST_Copy, sft_arg_idx = 0,
     sft_param_idx = 0, sft_allow_out_of_order_source = False\<rparr>"

theorem symbolic_rows_rebuilt_witness:
  "\<exists>g'. sfg_extend_transforms (sfg_new :: (unit, unit) symbolic_field_graph)
      [sample_transform 2 0, sample_transform 1 0, sample_transform 2 1] = Some g'
    \<and> sfg_outgoing_transform_indices g' 2 = [0, 2]"
proof -
  have ok: "rows_ok (sfg_new :: (unit, unit) symbolic_field_graph)"
    by (simp add: rows_ok_def sfg_new_def sfg_outgoing_transform_indices_def rows_spec_def vec_get_def)
  let ?ts = "[sample_transform 2 0, sample_transform 1 0, sample_transform 2 1]"
  have nil: "sfg_transforms (sfg_new :: (unit, unit) symbolic_field_graph) = []" by (simp add: sfg_new_def)
  obtain g' where "sfg_extend_transforms (sfg_new :: (unit, unit) symbolic_field_graph) ?ts = Some g'"
      "\<forall>v. sfg_outgoing_transform_indices g' v = rows_spec ?ts (unat v)"
    using symbolic_rows_rebuilt [OF ok, of ?ts] unfolding nil by auto
  moreover have "rows_spec ?ts (unat (2 :: u32)) = [0, 2]"
    by (simp add: rows_spec_def sample_transform_def upt_rec)
  ultimately show ?thesis by auto
qed

end
