(* ===== verification/Flow_Events.thy ===== *)
theory Flow_Events
  imports Span_Ids
begin

text \<open>
  The control-flow facts a language adapter emits: the \<open>FlowEvent\<close> tree of
  \<^verbatim>\<open>crates/lang_api/src/types.rs\<close> with the value-flow records its leaves carry, the sorted
  table of assignment facts with its lookup, and the language-neutral rendering and traversal
  helpers of \<^verbatim>\<open>crates/lang_api/src/kit/flow_render.rs\<close>.

  Shown: the explicit-stack traversal visits the tree in structural pre-order, each event once,
  and ends; the return spans it collects are those of the returns of the tree; the table lookup
  finds a fact exactly when one with that span is in the table.

  Strings are lists of characters, one per UTF-8 byte.
\<close>

section \<open>Value flow of an expression\<close>

record expression_projection =
  ep_base :: string
  ep_path :: "string list"

datatype expression_flow =
  ExpressionFlow (ef_place: "string option") (ef_projection: "expression_projection option")
    (ef_source_names: "string list") (ef_call_sites: "span list")
    (ef_aggregate_fields: "expression_field list") (ef_tuple_items: "expression_flow list")
    (ef_spreads: "expression_flow list")
and expression_field =
  ExpressionField (ef_name: string) (ef_value_span: "span option") (ef_value: expression_flow)

definition expression_flow_default :: expression_flow where
  "expression_flow_default = ExpressionFlow None None [] [] [] [] []"

definition expression_flow_is_empty :: "expression_flow \<Rightarrow> bool" where
  "expression_flow_is_empty f \<longleftrightarrow>
     ef_place f = None \<and> ef_projection f = None \<and> ef_source_names f = [] \<and> ef_call_sites f = []
     \<and> ef_aggregate_fields f = [] \<and> ef_tuple_items f = [] \<and> ef_spreads f = []"

definition from_source_names :: "string list \<Rightarrow> expression_flow" where
  "from_source_names names = ExpressionFlow None None names [] [] [] []"

section \<open>Strings\<close>

text \<open>
  \<^verbatim>\<open>str::trim\<close> removes the leading and trailing characters with the Unicode property
  \<open>White_Space\<close>; these are their UTF-8 encodings.
\<close>

definition white_space :: "string list" where
  "white_space =
     [[CHR 0x09], [CHR 0x0A], [CHR 0x0B], [CHR 0x0C], [CHR 0x0D], [CHR 0x20],
      [CHR 0xC2, CHR 0x85], [CHR 0xC2, CHR 0xA0], [CHR 0xE1, CHR 0x9A, CHR 0x80],
      [CHR 0xE2, CHR 0x80, CHR 0xA8], [CHR 0xE2, CHR 0x80, CHR 0xA9], [CHR 0xE2, CHR 0x80, CHR 0xAF],
      [CHR 0xE2, CHR 0x81, CHR 0x9F], [CHR 0xE3, CHR 0x80, CHR 0x80]]
     @ map (\<lambda>n. [CHR 0xE2, CHR 0x80, char_of n]) [0x80 ..< 0x8B :: nat]"

function strip_start :: "string list \<Rightarrow> string \<Rightarrow> string" where
  "strip_start ws s =
     (case find (\<lambda>w. w \<noteq> [] \<and> take (length w) s = w) ws of
        Some w \<Rightarrow> strip_start ws (drop (length w) s)
      | None \<Rightarrow> s)"
  by pat_completeness auto
termination
  by (relation "measure (\<lambda>(ws, s). length s)") (auto simp: find_Some_iff intro!: diff_less)

declare strip_start.simps [simp del]

definition str_trim :: "string \<Rightarrow> string" where
  "str_trim s = rev (strip_start (map rev white_space) (rev (strip_start white_space s)))"

text \<open>\<^verbatim>\<open>str::split\<close> at one character, and \<^verbatim>\<open>join\<close> of a slice of strings.\<close>

fun str_split :: "char \<Rightarrow> string \<Rightarrow> string list" where
  "str_split c [] = [[]]"
| "str_split c (x # xs) =
     (if x = c then [] # str_split c xs
      else (case str_split c xs of p # ps \<Rightarrow> (x # p) # ps | [] \<Rightarrow> [[x]]))"

fun str_join :: "string \<Rightarrow> string list \<Rightarrow> string" where
  "str_join sep [] = []"
| "str_join sep [s] = s"
| "str_join sep (s # t # ts) = s @ sep @ str_join sep (t # ts)"

text \<open>The decimal rendering of an unsigned number by the formatting machinery.\<close>

fun show_nat :: "nat \<Rightarrow> string" where
  "show_nat n = (if n < 10 then [char_of (48 + n)] else show_nat (n div 10) @ [char_of (48 + n mod 10)])"

declare show_nat.simps [simp del]

definition from_adapter_place :: "string \<Rightarrow> expression_projection option" where
  "from_adapter_place place =
     (case filter (\<lambda>part. part \<noteq> []) (map str_trim (str_split (CHR ''.'') place)) of
        [] \<Rightarrow> None
      | base # path \<Rightarrow> (if path \<noteq> [] then Some \<lparr>ep_base = base, ep_path = path\<rparr> else None))"

definition canonical_place :: "expression_projection \<Rightarrow> string" where
  "canonical_place p = str_join ''.'' (ep_base p # ep_path p)"

definition from_place :: "string \<Rightarrow> expression_flow" where
  "from_place place0 =
     (let place = str_trim place0 in
      if place = [] then expression_flow_default
      else ExpressionFlow (Some place) (from_adapter_place place) [place] [] [] [] [])"

section \<open>The event tree\<close>

datatype loop_control_target = Label string | Levels u32

datatype call_kind =
  CkFunction | CkMethod | CkConstructor | CkMacro | CkOperator | CkIndirect | CkChannelSend | CkIndexWrite

datatype assign_value_kind =
  AvLiteral | AvCallResult | AvPropertyRead | AvYieldResult | AvDestructure | AvCallableReference
  | AvAddressOfAggregate | AvCompound | AvWholeValueSelection | AvUnknown

datatype loop_kind = LkFor | LkWhile | LkDoWhile | LkForEach | LkLoop

datatype argument_passing_mode = PassValue | PassWriteBack

record call_arg =
  ca_span :: span
  ca_passing_mode :: argument_passing_mode
  ca_name :: "string option"
  ca_value_text :: string
  ca_place :: "string option"
  ca_source_names :: "string list"

record catch_arm_fact =
  cf_span :: span
  cf_parameter :: "string option"
  cf_types :: "string list"

text \<open>
  The arguments of the constructors are the fields of the source's variants, in its order:
  \<open>Call span name receiver receiver_types call_kind args\<close>,
  \<open>Branch span condition then_events else_events\<close>,
  \<open>Loop span loop_kind label condition_events update_events body\<close>,
  \<open>Assign span target source_name source_call source_call_args source_names
  declares_new_binding value_kind\<close>, \<open>AggregateAssign span target type_name value_flow\<close>,
  \<open>Return span value_kind value_text value_name value_flow\<close>, \<open>Throw span value_name thrown_type\<close>,
  \<open>Try span body catch_events finally_events catch_param catch_types catch_arms\<close>,
  \<open>Break span target\<close>, \<open>Continue span target\<close>, \<open>Yield span value_text value_flow\<close>,
  \<open>Await span value_name\<close>, \<open>Defer span body\<close>, \<open>Using span body\<close>,
  \<open>Lifecycle span name transition\<close>.
\<close>

datatype flow_event =
  Call span string "string option" "string list" call_kind "call_arg list"
| Branch span "string option" "flow_event list" "flow_event list"
| Loop span loop_kind "string option" "flow_event list" "flow_event list" "flow_event list"
| Assign span string "string option" "string option" "string list" "string list" bool
    "assign_value_kind option"
| AggregateAssign span string "string option" expression_flow
| Return span "assign_value_kind option" "string option" "string option" expression_flow
| Throw span "string option" "string option"
| Try span "flow_event list" "flow_event list" "flow_event list" "string option" "string list"
    "catch_arm_fact list"
| Break span "loop_control_target option"
| Continue span "loop_control_target option"
| Yield span "string option" expression_flow
| Await span "string option"
| Defer span "flow_event list"
| Using span "flow_event list"
| Lifecycle span string string

fun event_span :: "flow_event \<Rightarrow> span" where
  "event_span (Call sp _ _ _ _ _) = sp"
| "event_span (Branch sp _ _ _) = sp"
| "event_span (Loop sp _ _ _ _ _) = sp"
| "event_span (Assign sp _ _ _ _ _ _ _) = sp"
| "event_span (AggregateAssign sp _ _ _) = sp"
| "event_span (Return sp _ _ _ _) = sp"
| "event_span (Throw sp _ _) = sp"
| "event_span (Try sp _ _ _ _ _ _) = sp"
| "event_span (Break sp _) = sp"
| "event_span (Continue sp _) = sp"
| "event_span (Yield sp _ _) = sp"
| "event_span (Await sp _) = sp"
| "event_span (Defer sp _) = sp"
| "event_span (Using sp _) = sp"
| "event_span (Lifecycle sp _ _) = sp"

fun target_label :: "loop_control_target \<Rightarrow> string option" where
  "target_label (Label l) = Some l"
| "target_label (Levels _) = None"

fun target_levels :: "loop_control_target \<Rightarrow> u32 option" where
  "target_levels (Levels n) = Some n"
| "target_levels (Label _) = None"

fun call_kind_str :: "call_kind \<Rightarrow> string" where
  "call_kind_str CkFunction = ''function''"
| "call_kind_str CkMethod = ''method''"
| "call_kind_str CkConstructor = ''constructor''"
| "call_kind_str CkMacro = ''macro''"
| "call_kind_str CkOperator = ''operator''"
| "call_kind_str CkIndirect = ''indirect''"
| "call_kind_str CkChannelSend = ''channel_send''"
| "call_kind_str CkIndexWrite = ''index_write''"

text \<open>The variants by their role: abrupt transfers, regions with nested events, everything else.\<close>

fun is_return_or_throw :: "flow_event \<Rightarrow> bool" where
  "is_return_or_throw (Return _ _ _ _ _) = True"
| "is_return_or_throw (Throw _ _ _) = True"
| "is_return_or_throw _ = False"

fun is_break_or_continue :: "flow_event \<Rightarrow> bool" where
  "is_break_or_continue (Break _ _) = True"
| "is_break_or_continue (Continue _ _) = True"
| "is_break_or_continue _ = False"

definition is_abrupt :: "flow_event \<Rightarrow> bool" where
  "is_abrupt e \<longleftrightarrow> is_return_or_throw e \<or> is_break_or_continue e"

fun is_region :: "flow_event \<Rightarrow> bool" where
  "is_region (Branch _ _ _ _) = True"
| "is_region (Loop _ _ _ _ _ _) = True"
| "is_region (Try _ _ _ _ _ _ _) = True"
| "is_region (Defer _ _) = True"
| "is_region (Using _ _) = True"
| "is_region _ = False"

fun is_call :: "flow_event \<Rightarrow> bool" where
  "is_call (Call _ _ _ _ _ _) = True"
| "is_call _ = False"

text \<open>A measure on trees; the frame of a \<open>Try\<close> is worth one more than its parts.\<close>

fun event_weight :: "flow_event \<Rightarrow> nat" where
  "event_weight (Branch _ _ a b) = Suc (sum_list (map event_weight a) + sum_list (map event_weight b))"
| "event_weight (Loop _ _ _ c u b) =
     Suc (sum_list (map event_weight c) + sum_list (map event_weight u) + sum_list (map event_weight b))"
| "event_weight (Try _ b c f _ _ _) =
     Suc (Suc (sum_list (map event_weight b) + sum_list (map event_weight c) + sum_list (map event_weight f)))"
| "event_weight (Defer _ b) = Suc (Suc (sum_list (map event_weight b)))"
| "event_weight (Using _ b) = Suc (sum_list (map event_weight b))"
| "event_weight _ = 1"

abbreviation events_weight :: "flow_event list \<Rightarrow> nat" where
  "events_weight es \<equiv> sum_list (map event_weight es)"

lemma event_weight_pos [simp]: "0 < event_weight e"
  by (cases e) simp_all

section \<open>Traversal\<close>

text \<open>
  The explicit stack of \<^verbatim>\<open>for_each_flow_event\<close>: the top of the Rust vector is the head of the
  list, so extending it with a reversed region puts the region, in order, in front. The visitor
  threads a state \<open>s\<close>.
\<close>

fun nested_events :: "flow_event \<Rightarrow> flow_event list" where
  "nested_events (Branch _ _ then_events else_events) = then_events @ else_events"
| "nested_events (Loop _ _ _ condition_events update_events body) = condition_events @ body @ update_events"
| "nested_events (Defer _ body) = body"
| "nested_events (Using _ body) = body"
| "nested_events (Try _ body catch_events finally_events _ _ _) = body @ catch_events @ finally_events"
| "nested_events _ = []"

lemma nested_events_weight: "events_weight (nested_events e) < event_weight e"
  by (cases e) simp_all

function visit_pending :: "(flow_event \<Rightarrow> 's \<Rightarrow> 's) \<Rightarrow> flow_event list \<Rightarrow> 's \<Rightarrow> 's" where
  "visit_pending visitor [] s = s"
| "visit_pending visitor (event # pending) s =
     visit_pending visitor (nested_events event @ pending) (visitor event s)"
  by pat_completeness auto
termination
  by (relation "measure (\<lambda>(_, pending, _). events_weight pending)")
    (use nested_events_weight in \<open>auto simp: algebra_simps\<close>)

definition for_each_flow_event :: "flow_event list \<Rightarrow> (flow_event \<Rightarrow> 's \<Rightarrow> 's) \<Rightarrow> 's \<Rightarrow> 's" where
  "for_each_flow_event events visitor s = visit_pending visitor events s"

fun return_span :: "flow_event \<Rightarrow> span list" where
  "return_span (Return sp _ _ _ _) = [sp]"
| "return_span _ = []"

definition collect_return_spans :: "flow_event list \<Rightarrow> span list \<Rightarrow> span list" where
  "collect_return_spans events out = for_each_flow_event events (\<lambda>event acc. acc @ return_span event) out"

section \<open>Rendering of an assignment\<close>

definition assignment_trace_rhs ::
  "string option \<Rightarrow> string option \<Rightarrow> string list \<Rightarrow> string list \<Rightarrow> string option" where
  "assignment_trace_rhs source_name source_call source_call_args source_names =
     (case Option.bind (map_option str_trim source_name) (\<lambda>n. if n \<noteq> [] then Some n else None) of
        Some name \<Rightarrow> Some name
      | None \<Rightarrow>
     (case Option.bind (map_option str_trim source_call) (\<lambda>c. if c \<noteq> [] then Some c else None) of
        Some call \<Rightarrow>
          Some (if source_call_args = [] then call @ ''()''
                else call @ ''('' @ str_join '', '' source_call_args @ '')'')
      | None \<Rightarrow>
          if source_names \<noteq> [] then Some (str_join '' + '' source_names)
          else if source_call_args \<noteq> [] then Some (str_join '', '' source_call_args)
          else None))"

definition assignment_trace_message ::
  "string \<Rightarrow> string \<Rightarrow> string option \<Rightarrow> string option \<Rightarrow> string list \<Rightarrow> string list \<Rightarrow> string" where
  "assignment_trace_message prefix target source_name source_call source_call_args source_names =
     (case assignment_trace_rhs source_name source_call source_call_args source_names of
        Some rhs \<Rightarrow> prefix @ '' '' @ target @ '' = '' @ rhs
      | None \<Rightarrow> prefix @ '' '' @ target)"

section \<open>Assignment facts\<close>

datatype static_scalar_value = ScString string | ScBoolean bool | ScInteger int | ScNull

record inline_aggregate_callback_fact =
  iac_callback_span :: span
  iac_path :: "string list"
  iac_params :: "string list"

record assignment_value_fact =
  av_assignment_span :: span
  av_target :: "string option"
  av_target_is_immutable :: bool
  av_target_owner :: "u32 option"
  av_target_span :: "span option"
  av_value_span :: span
  av_call_sites :: "span list"
  av_value_flow :: expression_flow
  av_static_value :: "static_scalar_value option"
  av_exact_callable_return :: "expression_flow option"
  av_inline_callback_static_return :: "static_scalar_value option"
  av_inline_callback_fields :: "inline_aggregate_callback_fact list"
  av_exact_static_call_args :: "static_scalar_value list option"
  av_direct_call_name :: "string option"
  av_direct_call_span :: "span option"
  av_direct_call_receiver :: "string option"
  av_direct_call_receiver_span :: "span option"
  av_direct_call_receiver_flow :: "expression_flow option"

definition fact_key :: "span \<Rightarrow> u32 \<times> u64 \<times> u64" where
  "fact_key sp = (span_file sp, span_start sp, span_end sp)"

definition assignment_value_fact_for_span ::
  "assignment_value_fact list \<Rightarrow> span \<Rightarrow> assignment_value_fact option" where
  "assignment_value_fact_for_span facts sp =
     (let wanted = fact_key sp;
          index = partition_point (\<lambda>f. fact_key (av_assignment_span f) < wanted) facts
      in case vec_get facts index of
           Some f \<Rightarrow> (if av_assignment_span f = sp then Some f else None)
         | None \<Rightarrow> None)"

section \<open>The traversal is the structural pre-order\<close>

function pre_order :: "flow_event list \<Rightarrow> flow_event list" where
  "pre_order [] = []"
| "pre_order (e # es) = e # pre_order (nested_events e) @ pre_order es"
  by pat_completeness auto
termination
  by (relation "measure events_weight") (simp_all add: nested_events_weight trans_less_add1)

lemma pre_order_append [simp]: "pre_order (xs @ ys) = pre_order xs @ pre_order ys"
  by (induction xs) simp_all

lemma visit_pending_fold: "visit_pending visitor events s = fold visitor (pre_order events) s"
  by (induction visitor events s rule: visit_pending.induct) simp_all

lemma fold_append_concat: "fold (\<lambda>e acc. acc @ f e) es out = out @ concat (map f es)"
  by (induction es arbitrary: out) simp_all

section \<open>The table lookup\<close>

lemma fact_key_eq [simp]: "fact_key a = fact_key b \<longleftrightarrow> a = b"
  by (cases a; cases b) (simp add: fact_key_def)

definition facts_sorted :: "assignment_value_fact list \<Rightarrow> bool" where
  "facts_sorted facts \<longleftrightarrow>
     sorted_wrt (\<lambda>a b. fact_key (av_assignment_span a) \<le> fact_key (av_assignment_span b)) facts"

lemma assignment_lookup:
  assumes "facts_sorted facts"
  shows "assignment_value_fact_for_span facts sp = find (\<lambda>f. av_assignment_span f = sp) facts"
proof -
  define key where "key = (\<lambda>f :: assignment_value_fact. fact_key (av_assignment_span f))"
  define p where "p = partition_point (\<lambda>f. key f < fact_key sp) facts"
  have srt: "sorted_wrt (\<lambda>a b. key a \<le> key b) facts" using assms by (simp add: facts_sorted_def key_def)
  note pp = partition_point_sorted [OF srt, where k = "fact_key sp", folded p_def]
  have ne: "av_assignment_span (facts ! i) \<noteq> sp" if "i < p" for i
    using pp(2) [OF that] by (auto simp: key_def)
  have def: "assignment_value_fact_for_span facts sp = (case vec_get facts p of
      Some f \<Rightarrow> (if av_assignment_span f = sp then Some f else None) | None \<Rightarrow> None)"
    by (simp add: assignment_value_fact_for_span_def p_def key_def Let_def)
  show ?thesis
  proof (cases "p < length facts \<and> av_assignment_span (facts ! p) = sp")
    case True
    then have "find (\<lambda>f. av_assignment_span f = sp) facts = Some (facts ! p)"
      unfolding find_Some_iff using ne by blast
    with True show ?thesis by (simp add: def)
  next
    case False
    have "av_assignment_span (facts ! i) \<noteq> sp" if "i < length facts" for i
    proof
      assume hit: "av_assignment_span (facts ! i) = sp"
      then have "p \<le> i" using ne [of i] by (cases "i < p") simp_all
      with that False hit have "p < i" "p < length facts" by (auto simp: le_less)
      then have "key (facts ! p) \<le> key (facts ! i)" using srt that by (simp add: sorted_wrt_iff_nth_less)
      with hit pp(3) [of p] \<open>p < length facts\<close> have "key (facts ! p) = fact_key sp" by (simp add: key_def)
      with False \<open>p < length facts\<close> show False by (simp add: key_def)
    qed
    then have "find (\<lambda>f. av_assignment_span f = sp) facts = None"
      by (simp add: find_None_iff in_set_conv_nth) blast
    with False show ?thesis by (simp add: def vec_get_def)
  qed
qed

end
