(* ===== verification/Flow_Lowering.thy ===== *)
theory Flow_Lowering
  imports Flow_Events
begin

text \<open>
  The lowering passes at the front of \<^verbatim>\<open>crates/cfg/src/builder.rs\<close>: \<open>normalize_deferred_scopes\<close>
  turns a lexical \<^verbatim>\<open>defer\<close> into a \<^verbatim>\<open>try/finally\<close> around the rest of its scope, and
  \<open>normalize_executable_flow\<close> drops the events after an abrupt transfer; \<open>event_envelope\<close> infers a
  span for a list of events.

  The specification is a structured execution relation \<open>exec\<close> on event trees: which sequences
  of leaf events a region can perform and how it ends (falls through, leaves the function, or
  breaks from or continues an enclosing loop, given by its de Bruijn index). Shown: the lowering
  of deferred scopes keeps exactly the executions; the pruning ends without reaching its
  \<^verbatim>\<open>unreachable!\<close> and keeps exactly the executions when no returned expression follows its
  return; a sequence reported as not falling through has no execution that falls through.
\<close>

section \<open>Structured executions\<close>

datatype outcome = Fall | Leave | BreakTo nat | ContinueTo nat

text \<open>
  The loops around a program point are the list of their labels, innermost first. A transfer
  whose target names no enclosing loop leaves the function, as in \<^verbatim>\<open>control_transfer_target\<close>.
\<close>

fun loop_index :: "loop_control_target option \<Rightarrow> string option list \<Rightarrow> nat option" where
  "loop_index None ls = (if ls = [] then None else Some 0)"
| "loop_index (Some (Label l)) ls = position (\<lambda>x. x = Some l) ls"
| "loop_index (Some (Levels n)) ls = (if 0 < n \<and> unat n \<le> length ls then Some (unat n - 1) else None)"

fun abrupt_outcome :: "string option list \<Rightarrow> flow_event \<Rightarrow> outcome" where
  "abrupt_outcome ls (Break _ t) = (case loop_index t ls of Some i \<Rightarrow> BreakTo i | None \<Rightarrow> Leave)"
| "abrupt_outcome ls (Continue _ t) = (case loop_index t ls of Some i \<Rightarrow> ContinueTo i | None \<Rightarrow> Leave)"
| "abrupt_outcome ls _ = Leave"

text \<open>The outcome of a loop body that is not handled by the loop, seen from outside of it.\<close>

fun outer_outcome :: "outcome \<Rightarrow> outcome option" where
  "outer_outcome Leave = Some Leave"
| "outer_outcome (BreakTo 0) = Some Fall"
| "outer_outcome (BreakTo (Suc n)) = Some (BreakTo n)"
| "outer_outcome (ContinueTo (Suc n)) = Some (ContinueTo n)"
| "outer_outcome _ = None"

definition has_catch ::
  "flow_event list \<Rightarrow> string option \<Rightarrow> string list \<Rightarrow> catch_arm_fact list \<Rightarrow> bool" where
  "has_catch catch_events catch_param catch_types catch_arms \<longleftrightarrow>
     catch_param \<noteq> None \<or> catch_types \<noteq> [] \<or> catch_events \<noteq> [] \<or> catch_arms \<noteq> []"

text \<open>
  A point of a program: the start of a sequence of events, of a region, or one of the three
  phases of a loop. A handler is an alternative to the protected body, taken at the fork before
  it; cleanup runs after either, and its own abrupt end replaces theirs.
\<close>

datatype point =
  At "flow_event list" | InRegion flow_event
| LoopHeadAt flow_event | LoopBodyAt flow_event | LoopUpdateAt flow_event

inductive exec :: "string option list \<Rightarrow> point \<Rightarrow> flow_event list \<Rightarrow> outcome \<Rightarrow> bool" where
  exec_nil: "exec ls (At []) [] Fall"
| exec_leaf: "\<not> is_region e \<Longrightarrow> \<not> is_abrupt e \<Longrightarrow> exec ls (At es) t oc \<Longrightarrow> exec ls (At (e # es)) (e # t) oc"
| exec_abrupt: "is_abrupt e \<Longrightarrow> exec ls (At (e # es)) [e] (abrupt_outcome ls e)"
| exec_seq: "exec ls (InRegion e) t1 Fall \<Longrightarrow> exec ls (At es) t2 oc \<Longrightarrow> exec ls (At (e # es)) (t1 @ t2) oc"
| exec_stop: "exec ls (InRegion e) t oc \<Longrightarrow> oc \<noteq> Fall \<Longrightarrow> exec ls (At (e # es)) t oc"
| exec_defer: "exec ls (At es) t1 o1 \<Longrightarrow> exec ls (At b) t2 o2 \<Longrightarrow>
    exec ls (At (Defer sp b # es)) (t1 @ t2) (if o2 = Fall then o1 else o2)"
| exec_then: "exec ls (At a) t oc \<Longrightarrow> exec ls (InRegion (Branch sp c a b)) t oc"
| exec_else: "exec ls (At b) t oc \<Longrightarrow> exec ls (InRegion (Branch sp c a b)) t oc"
| exec_using: "exec ls (At b) t oc \<Longrightarrow> exec ls (InRegion (Using sp b)) t oc"
| exec_try: "exec ls (At b) t1 o1 \<Longrightarrow> exec ls (At f) t2 o2 \<Longrightarrow>
    exec ls (InRegion (Try sp b c f p ty arms)) (t1 @ t2) (if o2 = Fall then o1 else o2)"
| exec_catch: "has_catch c p ty arms \<Longrightarrow> exec ls (At c) t1 o1 \<Longrightarrow> exec ls (At f) t2 o2 \<Longrightarrow>
    exec ls (InRegion (Try sp b c f p ty arms)) (t1 @ t2) (if o2 = Fall then o1 else o2)"
| exec_pre_test: "k \<noteq> LkDoWhile \<Longrightarrow> exec ls (LoopHeadAt (Loop sp k l c u b)) t oc \<Longrightarrow>
    exec ls (InRegion (Loop sp k l c u b)) t oc"
| exec_post_test: "exec ls (LoopBodyAt (Loop sp LkDoWhile l c u b)) t oc \<Longrightarrow>
    exec ls (InRegion (Loop sp LkDoWhile l c u b)) t oc"
| exec_head_exit: "k \<noteq> LkLoop \<Longrightarrow> exec ls (At c) t Fall \<Longrightarrow> exec ls (LoopHeadAt (Loop sp k l c u b)) t Fall"
| exec_head_stop: "exec ls (At c) t oc \<Longrightarrow> oc \<noteq> Fall \<Longrightarrow> exec ls (LoopHeadAt (Loop sp k l c u b)) t oc"
| exec_head_body: "exec ls (At c) t1 Fall \<Longrightarrow> exec ls (LoopBodyAt (Loop sp k l c u b)) t2 oc \<Longrightarrow>
    exec ls (LoopHeadAt (Loop sp k l c u b)) (t1 @ t2) oc"
| exec_body_stop: "exec (l # ls) (At b) t o1 \<Longrightarrow> outer_outcome o1 = Some oc \<Longrightarrow>
    exec ls (LoopBodyAt (Loop sp k l c u b)) t oc"
| exec_body_next: "exec (l # ls) (At b) t1 o1 \<Longrightarrow> o1 = Fall \<or> o1 = ContinueTo 0 \<and> k \<noteq> LkDoWhile \<Longrightarrow>
    exec ls (LoopUpdateAt (Loop sp k l c u b)) t2 oc \<Longrightarrow>
    exec ls (LoopBodyAt (Loop sp k l c u b)) (t1 @ t2) oc"
| exec_body_retest: "exec (l # ls) (At b) t1 (ContinueTo 0) \<Longrightarrow>
    exec ls (LoopHeadAt (Loop sp LkDoWhile l c u b)) t2 oc \<Longrightarrow>
    exec ls (LoopBodyAt (Loop sp LkDoWhile l c u b)) (t1 @ t2) oc"
| exec_update_stop: "exec (l # ls) (At u) t o1 \<Longrightarrow> outer_outcome o1 = Some oc \<Longrightarrow>
    exec ls (LoopUpdateAt (Loop sp k l c u b)) t oc"
| exec_update_head: "exec (l # ls) (At u) t1 o1 \<Longrightarrow> o1 = Fall \<or> o1 = ContinueTo 0 \<and> k = LkDoWhile \<Longrightarrow>
    exec ls (LoopHeadAt (Loop sp k l c u b)) t2 oc \<Longrightarrow>
    exec ls (LoopUpdateAt (Loop sp k l c u b)) (t1 @ t2) oc"
| exec_update_again: "exec (l # ls) (At u) t1 (ContinueTo 0) \<Longrightarrow> k \<noteq> LkDoWhile \<Longrightarrow>
    exec ls (LoopUpdateAt (Loop sp k l c u b)) t2 oc \<Longrightarrow>
    exec ls (LoopUpdateAt (Loop sp k l c u b)) (t1 @ t2) oc"

inductive_cases exec_NilE: "exec ls (At []) t oc"
inductive_cases exec_ConsE: "exec ls (At (e # es)) t oc"
inductive_cases exec_BranchE: "exec ls (InRegion (Branch sp c a b)) t oc"
inductive_cases exec_UsingE: "exec ls (InRegion (Using sp b)) t oc"
inductive_cases exec_TryE: "exec ls (InRegion (Try sp b c f p ty arms)) t oc"
inductive_cases exec_LoopE: "exec ls (InRegion (Loop sp k l c u b)) t oc"
inductive_cases exec_DeferE: "exec ls (InRegion (Defer sp b)) t oc"

section \<open>Lowering of deferred scopes\<close>

function normalize_deferred_scopes :: "flow_event list \<Rightarrow> flow_event list" where
  "normalize_deferred_scopes [] = []"
| "normalize_deferred_scopes (event # events) =
     (case event of
        Defer sp body \<Rightarrow>
          [Try sp (normalize_deferred_scopes events) [] (normalize_deferred_scopes body) None [] []]
      | Branch sp condition then_events else_events \<Rightarrow>
          Branch sp condition (normalize_deferred_scopes then_events)
            (normalize_deferred_scopes else_events) # normalize_deferred_scopes events
      | Loop sp loop_kind label condition_events update_events body \<Rightarrow>
          Loop sp loop_kind label (normalize_deferred_scopes condition_events)
            (normalize_deferred_scopes update_events) (normalize_deferred_scopes body)
          # normalize_deferred_scopes events
      | Try sp body catch_events finally_events catch_param catch_types catch_arms \<Rightarrow>
          Try sp (normalize_deferred_scopes body) (normalize_deferred_scopes catch_events)
            (normalize_deferred_scopes finally_events) catch_param catch_types catch_arms
          # normalize_deferred_scopes events
      | Using sp body \<Rightarrow> Using sp (normalize_deferred_scopes body) # normalize_deferred_scopes events
      | other \<Rightarrow> other # normalize_deferred_scopes events)"
  by pat_completeness auto
termination
  by (relation "measure events_weight") auto

section \<open>Pruning of unreachable events\<close>

definition strictly_contained :: "span \<Rightarrow> span \<Rightarrow> bool" where
  "strictly_contained nested_span terminal_span \<longleftrightarrow>
     span_file nested_span = span_file terminal_span
     \<and> span_start terminal_span \<le> span_start nested_span
     \<and> span_end nested_span \<le> span_end terminal_span
     \<and> nested_span \<noteq> terminal_span"

text \<open>The \<^verbatim>\<open>unreachable!\<close> of a \<open>Defer\<close> is the value \<open>None\<close>.\<close>

function prune_unreachable_sequence :: "flow_event list \<Rightarrow> (flow_event list \<times> bool) option"
  and prune_nested :: "span \<Rightarrow> flow_event list \<Rightarrow> flow_event list option"
  and prune_event :: "flow_event \<Rightarrow> (flow_event \<times> bool) option"
where
  "prune_unreachable_sequence [] = Some ([], True)"
| "prune_unreachable_sequence (event # events) =
     (if is_return_or_throw event then do {
        nested \<leftarrow> prune_nested (event_span event) events;
        (terminal, _) \<leftarrow> prune_event event;
        Some (nested @ [terminal], False)
      } else do {
        (event', event_falls_through) \<leftarrow> prune_event event;
        if event_falls_through then do {
          (executable, falls_through) \<leftarrow> prune_unreachable_sequence events;
          Some (event' # executable, falls_through)
        } else Some ([event'], False)
      })"
| "prune_nested terminal_span [] = Some []"
| "prune_nested terminal_span (nested # events) =
     (if \<not> strictly_contained (event_span nested) terminal_span then Some []
      else do {
        here \<leftarrow> (if is_call nested then do { (nested', _) \<leftarrow> prune_event nested; Some [nested'] } else Some []);
        rest \<leftarrow> prune_nested terminal_span events;
        Some (here @ rest)
      })"
| "prune_event event =
     (case event of
        Branch sp condition then_events else_events \<Rightarrow> do {
          (then_events', then_falls_through) \<leftarrow> prune_unreachable_sequence then_events;
          (else_events', else_falls_through) \<leftarrow> prune_unreachable_sequence else_events;
          Some (Branch sp condition then_events' else_events', then_falls_through \<or> else_falls_through)
        }
      | Loop sp loop_kind label condition_events update_events body \<Rightarrow> do {
          (condition_events', _) \<leftarrow> prune_unreachable_sequence condition_events;
          (update_events', _) \<leftarrow> prune_unreachable_sequence update_events;
          (body', _) \<leftarrow> prune_unreachable_sequence body;
          Some (Loop sp loop_kind label condition_events' update_events' body', True)
        }
      | Try sp body catch_events finally_events catch_param catch_types catch_arms \<Rightarrow> do {
          (body', body_falls_through) \<leftarrow> prune_unreachable_sequence body;
          (catch_events', catch_falls_through) \<leftarrow> prune_unreachable_sequence catch_events;
          (finally_events', finally_falls_through) \<leftarrow> prune_unreachable_sequence finally_events;
          Some (Try sp body' catch_events' finally_events' catch_param catch_types catch_arms,
                finally_falls_through
                \<and> (body_falls_through
                   \<or> has_catch catch_events' catch_param catch_types catch_arms \<and> catch_falls_through))
        }
      | Using sp body \<Rightarrow> do {
          (body', falls_through) \<leftarrow> prune_unreachable_sequence body;
          Some (Using sp body', falls_through)
        }
      | Defer sp body \<Rightarrow> None
      | _ \<Rightarrow> Some (event, \<not> is_abrupt event))"
  by pat_completeness auto
termination
  by (relation "measure (\<lambda>x. case x of Inl es \<Rightarrow> Suc (2 * events_weight es)
      | Inr (Inl (_, es)) \<Rightarrow> Suc (2 * events_weight es) | Inr (Inr e) \<Rightarrow> 2 * event_weight e)") auto

declare prune_event.simps [simp del]

definition normalize_executable_flow :: "flow_event list \<Rightarrow> flow_event list option" where
  "normalize_executable_flow events =
     map_option fst (prune_unreachable_sequence (normalize_deferred_scopes events))"

section \<open>The envelope of a list of events\<close>

fun envelope_scan :: "file_id \<Rightarrow> u64 \<Rightarrow> u64 \<Rightarrow> flow_event list \<Rightarrow> span option" where
  "envelope_scan file0 start0 end0 [] = Some (span_new file0 start0 end0)"
| "envelope_scan file0 start0 end0 (event # events) =
     (let sp = event_span event in
      if span_file sp \<noteq> file0 then None
      else envelope_scan file0 (min start0 (span_start sp)) (max end0 (span_end sp)) events)"

definition event_envelope :: "flow_event list \<Rightarrow> span option" where
  "event_envelope events =
     (case events of
        [] \<Rightarrow> None
      | event # rest \<Rightarrow>
          (let first = event_span event in
           envelope_scan (span_file first) (span_start first) (span_end first) rest))"

section \<open>Executions are compositional\<close>

text \<open>\<open>covers es es'\<close>: every execution of \<open>es\<close> is one of \<open>es'\<close>, whatever the loops around.\<close>

definition covers :: "flow_event list \<Rightarrow> flow_event list \<Rightarrow> bool" where
  "covers es es' \<longleftrightarrow> (\<forall>ls t oc. exec ls (At es) t oc \<longrightarrow> exec ls (At es') t oc)"

lemma coversD: "covers es es' \<Longrightarrow> exec ls (At es) t oc \<Longrightarrow> exec ls (At es') t oc"
  by (simp add: covers_def)

lemma covers_refl [simp]: "covers es es"
  by (simp add: covers_def)

fun is_defer :: "flow_event \<Rightarrow> bool" where
  "is_defer (Defer _ _) = True"
| "is_defer _ = False"

lemma covers_head:
  assumes "\<And>ls t oc. exec ls (InRegion e) t oc \<Longrightarrow> exec ls (InRegion e') t oc"
    "is_region e" "\<not> is_defer e" "covers es es'"
  shows "covers (e # es) (e' # es')"
  using assms unfolding covers_def
  by (auto elim!: exec_ConsE intro: exec.intros simp: is_abrupt_def elim: is_region.elims)

lemma covers_leaf: "\<not> is_region e \<Longrightarrow> covers es es' \<Longrightarrow> covers (e # es) (e # es')"
  unfolding covers_def by (auto elim!: exec_ConsE intro: exec.intros)

lemma exec_loop_mono:
  assumes "exec ls p t oc" "covers c c'" "covers u u'" "covers b b'"
  shows "(p = InRegion (Loop sp k l c u b) \<longrightarrow> exec ls (InRegion (Loop sp k l c' u' b')) t oc)
    \<and> (p = LoopHeadAt (Loop sp k l c u b) \<longrightarrow> exec ls (LoopHeadAt (Loop sp k l c' u' b')) t oc)
    \<and> (p = LoopBodyAt (Loop sp k l c u b) \<longrightarrow> exec ls (LoopBodyAt (Loop sp k l c' u' b')) t oc)
    \<and> (p = LoopUpdateAt (Loop sp k l c u b) \<longrightarrow> exec ls (LoopUpdateAt (Loop sp k l c' u' b')) t oc)"
  using assms
  by (induction rule: exec.induct) (auto intro: exec.intros dest: coversD)

lemma covers_Branch:
  "covers a a' \<Longrightarrow> covers b b' \<Longrightarrow> covers es es' \<Longrightarrow> covers (Branch sp c a b # es) (Branch sp c a' b' # es')"
  by (rule covers_head) (auto elim!: exec_BranchE intro: exec.intros dest: coversD)

lemma covers_Loop:
  "covers c c' \<Longrightarrow> covers u u' \<Longrightarrow> covers b b' \<Longrightarrow> covers es es' \<Longrightarrow>
    covers (Loop sp k l c u b # es) (Loop sp k l c' u' b' # es')"
  by (rule covers_head) (simp_all add: exec_loop_mono)

lemma covers_Try:
  assumes "covers b b'" "covers c c'" "covers f f'" "covers es es'" "has_catch c p ty arms \<Longrightarrow> has_catch c' p ty arms"
  shows "covers (Try sp b c f p ty arms # es) (Try sp b' c' f' p ty arms # es')"
  by (rule covers_head) (use assms in \<open>auto elim!: exec_TryE intro: exec.intros dest: coversD\<close>)

lemma covers_Using: "covers b b' \<Longrightarrow> covers es es' \<Longrightarrow> covers (Using sp b # es) (Using sp b' # es')"
  by (rule covers_head) (auto elim!: exec_UsingE intro: exec.intros dest: coversD)

lemma exec_deferI:
  "exec ls (At es) t1 o1 \<Longrightarrow> exec ls (At b) t2 o2 \<Longrightarrow> oc = (if o2 = Fall then o1 else o2) \<Longrightarrow>
    exec ls (At (Defer sp b # es)) (t1 @ t2) oc"
  using exec_defer by simp

lemma exec_tryI:
  "exec ls (At b) t1 o1 \<Longrightarrow> exec ls (At f) t2 o2 \<Longrightarrow> oc = (if o2 = Fall then o1 else o2) \<Longrightarrow>
    exec ls (InRegion (Try sp b c f p ty arms)) (t1 @ t2) oc"
  using exec_try by simp

lemma exec_catchI:
  "has_catch c p ty arms \<Longrightarrow> exec ls (At c) t1 o1 \<Longrightarrow> exec ls (At f) t2 o2 \<Longrightarrow>
    oc = (if o2 = Fall then o1 else o2) \<Longrightarrow> exec ls (InRegion (Try sp b c f p ty arms)) (t1 @ t2) oc"
  using exec_catch by simp

lemma exec_Try_only:
  "exec ls (At [Try sp b [] f None [] []]) t oc \<longleftrightarrow> exec ls (At (Defer sp f # b)) t oc"
proof
  assume "exec ls (At [Try sp b [] f None [] []]) t oc"
  then show "exec ls (At (Defer sp f # b)) t oc"
    by (auto elim!: exec_ConsE exec_TryE exec_NilE simp: has_catch_def is_abrupt_def intro: exec_deferI
        simp del: if_split_eq1 split del: if_split)
next
  assume "exec ls (At (Defer sp f # b)) t oc"
  then obtain t1 o1 t2 o2 where ex: "exec ls (At b) t1 o1" "exec ls (At f) t2 o2" "t = t1 @ t2"
      "oc = (if o2 = Fall then o1 else o2)"
    by (auto elim!: exec_ConsE exec_DeferE simp: is_abrupt_def)
  from ex(1,2) have r: "exec ls (InRegion (Try sp b [] f None [] [])) t oc"
    unfolding ex(3,4) by (rule exec_try)
  show "exec ls (At [Try sp b [] f None [] []]) t oc"
  proof (cases "oc = Fall")
    case True
    with r exec_seq [OF _ exec_nil, of ls _ t] show ?thesis by simp
  qed (use r in \<open>auto intro: exec_stop\<close>)
qed

lemma covers_Defer:
  assumes "covers b b'" "covers es es'"
  shows "covers (Defer sp b # es) (Defer sp b' # es')"
  unfolding covers_def
proof (intro allI impI)
  fix ls t oc
  assume "exec ls (At (Defer sp b # es)) t oc"
  then obtain t1 o1 t2 o2 where ex: "exec ls (At es) t1 o1" "exec ls (At b) t2 o2" "t = t1 @ t2"
      "oc = (if o2 = Fall then o1 else o2)"
    by (auto elim!: exec_ConsE exec_DeferE simp: is_abrupt_def)
  with assms show "exec ls (At (Defer sp b' # es')) t oc"
    by (simp only: exec_defer coversD)
qed

section \<open>The lowering keeps the executions\<close>

lemma normalize_nonempty [simp]: "normalize_deferred_scopes es = [] \<longleftrightarrow> es = []"
  by (cases es) (simp_all split: flow_event.split)

lemma normalize_covers:
  "covers (normalize_deferred_scopes es) es \<and> covers es (normalize_deferred_scopes es)"
proof (induction es rule: normalize_deferred_scopes.induct)
  case (2 e es)
  show ?case
  proof (cases e)
    case (Defer sp b)
    then have "covers (Defer sp (normalize_deferred_scopes b) # normalize_deferred_scopes es) (e # es)
      \<and> covers (e # es) (Defer sp (normalize_deferred_scopes b) # normalize_deferred_scopes es)"
      using "2.IH" by (simp add: covers_Defer)
    with Defer show ?thesis by (simp add: covers_def exec_Try_only)
  next
    case (Branch sp c a b)
    then show ?thesis using "2.IH" by (auto intro!: covers_Branch)
  next
    case (Loop sp k l c u b)
    then show ?thesis using "2.IH" by (auto intro!: covers_Loop)
  next
    case (Try sp b c f p ty arms)
    then show ?thesis using "2.IH" by (auto intro!: covers_Try simp: has_catch_def)
  next
    case (Using sp b)
    then show ?thesis using "2.IH" by (auto intro!: covers_Using)
  qed (use "2.IH" in \<open>auto intro!: covers_leaf\<close>)
qed simp

section \<open>The pruning keeps the executions\<close>

definition defer_free :: "flow_event list \<Rightarrow> bool" where
  "defer_free es \<longleftrightarrow> (\<forall>e \<in> set (pre_order es). \<not> is_defer e)"

lemma defer_free_simps [simp]:
  "defer_free []" "defer_free (e # es) \<longleftrightarrow> \<not> is_defer e \<and> defer_free (nested_events e) \<and> defer_free es"
  "defer_free (xs @ ys) \<longleftrightarrow> defer_free xs \<and> defer_free ys"
  by (auto simp: defer_free_def)

lemma normalize_defer_free: "defer_free (normalize_deferred_scopes es)"
  by (induction es rule: normalize_deferred_scopes.induct) (simp_all split: flow_event.split)

text \<open>
  An adapter may emit the calls of a returned expression after the return. \<open>returns_ordered\<close>
  says it does not: no return or throw is followed by an event within its own span.
\<close>

fun region_parts :: "flow_event \<Rightarrow> flow_event list list" where
  "region_parts (Branch _ _ a b) = [a, b]"
| "region_parts (Loop _ _ _ c u b) = [c, u, b]"
| "region_parts (Try _ b c f _ _ _) = [b, c, f]"
| "region_parts (Defer _ b) = [b]"
| "region_parts (Using _ b) = [b]"
| "region_parts _ = []"

lemma region_parts_weight: "part \<in> set (region_parts e) \<Longrightarrow> events_weight part < event_weight e"
  by (cases e) auto

fun return_then :: "flow_event \<Rightarrow> flow_event list \<Rightarrow> bool" where
  "return_then e [] = True"
| "return_then e (n # _) = (is_return_or_throw e \<longrightarrow> \<not> strictly_contained (event_span n) (event_span e))"

function returns_ordered :: "flow_event list \<Rightarrow> bool" where
  "returns_ordered [] = True"
| "returns_ordered (e # es) \<longleftrightarrow>
     return_then e es \<and> list_all returns_ordered (region_parts e) \<and> returns_ordered es"
  by pat_completeness auto
termination
  by (relation "measure events_weight") (auto dest: region_parts_weight simp: trans_less_add1)

lemma normalize_hd_span: "es \<noteq> [] \<Longrightarrow> event_span (hd (normalize_deferred_scopes es)) = event_span (hd es)"
  by (cases es) (simp_all split: flow_event.split)

lemma return_then_span:
  "es \<noteq> [] \<Longrightarrow> es' \<noteq> [] \<Longrightarrow> event_span (hd es') = event_span (hd es) \<Longrightarrow> return_then e es' = return_then e es"
  by (cases es; cases es') simp_all

lemma return_then_region [simp]: "is_region e \<Longrightarrow> return_then e es"
  by (cases e; cases es) simp_all

lemma return_then_normalize: "return_then e (normalize_deferred_scopes es) = return_then e es"
  by (cases "es = []") (simp, rule return_then_span, simp_all add: normalize_hd_span)

lemma normalize_returns_ordered: "returns_ordered es \<Longrightarrow> returns_ordered (normalize_deferred_scopes es)"
proof (induction es rule: normalize_deferred_scopes.induct)
  case (2 e es)
  then show ?case by (cases e) (simp_all add: return_then_normalize)
qed simp

definition same_execs :: "flow_event list \<Rightarrow> flow_event list \<Rightarrow> bool" where
  "same_execs es es' \<longleftrightarrow> covers es es' \<and> covers es' es"

definition no_fall :: "flow_event list \<Rightarrow> bool" where
  "no_fall es \<longleftrightarrow> (\<forall>ls t. \<not> exec ls (At es) t Fall)"

definition region_no_fall :: "flow_event \<Rightarrow> bool" where
  "region_no_fall e \<longleftrightarrow> (\<forall>ls t. \<not> exec ls (InRegion e) t Fall)"

lemma region_not_abrupt [simp]: "is_region e \<Longrightarrow> \<not> is_abrupt e"
  by (cases e) (simp_all add: is_abrupt_def)

lemma exec_InRegion: "exec ls (InRegion e) t oc \<Longrightarrow> is_region e \<and> \<not> is_abrupt e \<and> \<not> is_defer e"
  by (cases rule: exec.cases) (auto simp: is_abrupt_def)

lemma same_execs_abrupt: "is_abrupt e \<Longrightarrow> same_execs (e # es) [e]"
  by (auto simp: same_execs_def covers_def is_abrupt_def elim!: exec_ConsE dest: exec_InRegion
      intro: exec_abrupt)

lemma no_fall_abrupt: "is_abrupt e \<Longrightarrow> no_fall (e # es)"
  by (cases e) (auto simp: no_fall_def is_abrupt_def elim!: exec_ConsE dest: exec_InRegion split: option.splits)

lemma no_fall_head: "\<not> is_defer e \<Longrightarrow> is_region e \<Longrightarrow> region_no_fall e \<Longrightarrow> no_fall (e # es)"
  by (auto simp: no_fall_def region_no_fall_def elim!: exec_ConsE) 


lemma region_no_fall_simps:
  "no_fall a \<Longrightarrow> no_fall b \<Longrightarrow> region_no_fall (Branch sp cond a b)"
  "no_fall b \<Longrightarrow> region_no_fall (Using sp b)"
  "no_fall f \<or> no_fall b \<and> (has_catch c p ty arms \<longrightarrow> no_fall c) \<Longrightarrow> region_no_fall (Try sp b c f p ty arms)"
  unfolding no_fall_def region_no_fall_def
  by (auto elim!: exec_BranchE exec_UsingE exec_TryE split: if_splits)

text \<open>What pruning an event gives: the same executions, and a flag that is false only if none falls through.\<close>

definition same_region :: "flow_event \<Rightarrow> flow_event \<Rightarrow> bool" where
  "same_region e e' \<longleftrightarrow> (\<forall>ls t oc. exec ls (InRegion e) t oc = exec ls (InRegion e') t oc)"

lemma same_region_cong:
  "same_execs a a' \<Longrightarrow> same_execs b b' \<Longrightarrow> same_region (Branch sp c a b) (Branch sp c a' b')"
  "same_execs b b' \<Longrightarrow> same_region (Using sp b) (Using sp b')"
  "same_execs c' c'' \<Longrightarrow> same_execs u u' \<Longrightarrow> same_execs b b' \<Longrightarrow>
     same_region (Loop sp k l c' u b) (Loop sp k l c'' u' b')"
  unfolding same_region_def same_execs_def
  by (auto elim!: exec_BranchE exec_UsingE intro: exec.intros dest: coversD) (simp_all add: exec_loop_mono)

lemma same_region_Try:
  assumes "same_execs b b'" "same_execs c c'" "same_execs f f'" "c = [] \<longleftrightarrow> c' = []"
  shows "same_region (Try sp b c f p ty arms) (Try sp b' c' f' p ty arms)"
  using assms unfolding same_region_def same_execs_def
  by (auto elim!: exec_TryE intro: exec.intros dest: coversD simp: has_catch_def)

lemma same_execs_leaf: "\<not> is_region e \<Longrightarrow> same_execs es es' \<Longrightarrow> same_execs (e # es) (e # es')"
  by (simp add: same_execs_def covers_leaf)

lemma same_execs_head:
  assumes "is_region e" "is_region e'" "\<not> is_defer e" "\<not> is_defer e'" "same_region e e'" "same_execs es es'"
  shows "same_execs (e # es) (e' # es')"
  using assms covers_head [of e e' es es'] covers_head [of e' e es' es]
  by (auto simp: same_execs_def same_region_def)

lemma same_execs_stop:
  assumes "is_region e" "is_region e'" "\<not> is_defer e" "\<not> is_defer e'" "same_region e e'" "region_no_fall e"
  shows "same_execs (e # es) [e']"
proof -
  have "region_no_fall e'" using assms(5,6) by (simp add: same_region_def region_no_fall_def)
  with assms show ?thesis
    unfolding same_execs_def covers_def same_region_def region_no_fall_def
    by (auto elim!: exec_ConsE exec_NilE intro: exec_stop)
qed

lemma no_fall_Cons: "\<not> is_defer e \<Longrightarrow> no_fall es \<Longrightarrow> no_fall (e # es)"
  by (auto simp: no_fall_def elim!: exec_ConsE) (cases e, auto simp: is_abrupt_def split: option.splits)+


section \<open>The pruning ends and is exact\<close>

text \<open>The results of the two functions, as one relation each.\<close>

definition pruned_seq :: "flow_event list \<Rightarrow> flow_event list \<Rightarrow> bool \<Rightarrow> bool" where
  "pruned_seq es es' ft \<longleftrightarrow> prune_unreachable_sequence es = Some (es', ft) \<and> (es' = [] \<longleftrightarrow> es = [])
     \<and> (returns_ordered es \<longrightarrow> same_execs es es' \<and> (\<not> ft \<longrightarrow> no_fall es))"

definition pruned_event :: "flow_event \<Rightarrow> flow_event \<Rightarrow> bool \<Rightarrow> bool" where
  "pruned_event e e' ft \<longleftrightarrow> prune_event e = Some (e', ft) \<and> is_region e' = is_region e \<and> \<not> is_defer e'
     \<and> (\<not> is_region e \<longrightarrow> e' = e \<and> ft = (\<not> is_abrupt e))
     \<and> (is_region e \<and> list_all returns_ordered (region_parts e) \<longrightarrow>
          same_region e e' \<and> (\<not> ft \<longrightarrow> region_no_fall e))"

lemma pruned_event_Branch:
  "pruned_seq a a' fa \<Longrightarrow> pruned_seq b b' fb \<Longrightarrow>
    pruned_event (Branch sp c a b) (Branch sp c a' b') (fa \<or> fb)"
  by (simp add: pruned_seq_def pruned_event_def prune_event.simps same_region_cong region_no_fall_simps)

lemma pruned_event_Loop:
  "pruned_seq c c' fc \<Longrightarrow> pruned_seq u u' fu \<Longrightarrow> pruned_seq b b' fb \<Longrightarrow>
    pruned_event (Loop sp k l c u b) (Loop sp k l c' u' b') True"
  by (simp add: pruned_seq_def pruned_event_def prune_event.simps same_region_cong)

lemma pruned_event_Try:
  "pruned_seq b b' fb \<Longrightarrow> pruned_seq c c' fc \<Longrightarrow> pruned_seq f f' ff \<Longrightarrow>
    pruned_event (Try sp b c f p ty arms) (Try sp b' c' f' p ty arms)
      (ff \<and> (fb \<or> has_catch c' p ty arms \<and> fc))"
  by (auto simp: pruned_seq_def pruned_event_def prune_event.simps has_catch_def
      intro!: same_region_Try region_no_fall_simps)

lemma pruned_event_Using: "pruned_seq b b' fb \<Longrightarrow> pruned_event (Using sp b) (Using sp b') fb"
  by (simp add: pruned_seq_def pruned_event_def prune_event.simps same_region_cong region_no_fall_simps)

lemma pruned_event_leaf: "\<not> is_region e \<Longrightarrow> pruned_event e e (\<not> is_abrupt e)"
  by (cases e) (simp_all add: pruned_event_def prune_event.simps)

lemma pruned_seq_Cons:
  assumes "\<not> is_return_or_throw e" "\<not> is_defer e" "pruned_event e e' ft" "ft \<Longrightarrow> pruned_seq es es' ft'"
  shows "pruned_seq (e # es) (if ft then e' # es' else [e']) (ft \<and> ft')"
proof (cases ft)
  case True
  have "same_execs (e # es) (e' # es')" if "returns_ordered (e # es)"
    using that assms True
    by (cases "is_region e")
      (auto intro: same_execs_head same_execs_leaf simp: pruned_seq_def pruned_event_def)
  then show ?thesis using assms True no_fall_Cons [OF assms(2), of es]
    by (auto simp: pruned_seq_def pruned_event_def)
next
  case False
  have "same_execs (e # es) [e'] \<and> no_fall (e # es)" if "returns_ordered (e # es)"
    using that assms(2,3) False same_execs_stop [of e e' es] no_fall_head [of e es]
      same_execs_abrupt [of e es] no_fall_abrupt [of e es]
    by (cases "is_region e") (auto simp: pruned_event_def)
  then show ?thesis using assms(1,3) False by (auto simp: pruned_seq_def pruned_event_def)
qed

lemma pruned_seq_return:
  assumes "is_return_or_throw e" "prune_nested (event_span e) es = Some r"
    "es = [] \<or> \<not> strictly_contained (event_span (hd es)) (event_span e) \<longrightarrow> r = []"
  shows "pruned_seq (e # es) (r @ [e]) False"
proof -
  have "prune_event e = Some (e, False)" "is_abrupt e"
    using assms(1) by (cases e; simp add: is_abrupt_def prune_event.simps)+
  moreover have "r = []" if "return_then e es" using that assms(1,3) by (cases es) simp_all
  ultimately show ?thesis
    using assms(1,2) same_execs_abrupt [of e es] no_fall_abrupt [of e es] by (auto simp: pruned_seq_def)
qed

lemma prune_spec:
  "defer_free es \<longrightarrow> (\<exists>es' ft. pruned_seq es es' ft)"
  "defer_free ns \<longrightarrow> (\<exists>r. prune_nested sp ns = Some r
      \<and> (ns = [] \<or> \<not> strictly_contained (event_span (hd ns)) sp \<longrightarrow> r = []))"
  "defer_free [e] \<longrightarrow> (\<exists>e' ft. pruned_event e e' ft)"
proof (induction es and sp ns and e rule: prune_unreachable_sequence_prune_nested_prune_event.induct)
  case 1
  then show ?case by (auto simp: same_execs_def pruned_seq_def)
next
  case (2 e es)
  show ?case
  proof (cases "is_return_or_throw e")
    case True
    with "2.IH"(1) show ?thesis by (auto intro: pruned_seq_return)
  next
    case False
    show ?thesis
    proof
      assume df: "defer_free (e # es)"
      with False "2.IH"(3) obtain e' ft where e': "pruned_event e e' ft" by auto
      moreover have "\<exists>es' ft'. ft \<longrightarrow> pruned_seq es es' ft'"
        using "2.IH"(4) [OF False _ refl] e' df by (auto simp: pruned_event_def)
      ultimately show "\<exists>es' ft. pruned_seq (e # es) es' ft"
        using False df pruned_seq_Cons [of e e' ft es] by auto
    qed
  qed
next
  case 3
  then show ?case by simp
next
  case (4 sp n ns)
  show ?case
  proof (cases "strictly_contained (event_span n) sp \<and> defer_free (n # ns)")
    case True
    have "prune_event n = Some (n, True)" if "is_call n"
      using that by (cases n) (simp_all add: prune_event.simps is_abrupt_def)
    moreover from this True obtain r where "prune_nested sp ns = Some r"
      using 4(2) by (cases "is_call n") auto
    ultimately show ?thesis using True by (cases "is_call n") auto
  qed auto
next
  case (5 e)
  show ?case
  proof (cases e)
    case (Branch sp c a b)
    show ?thesis
    proof
      assume "defer_free [e]"
      with Branch have df: "defer_free a" "defer_free b" by simp_all
      obtain a' fa where a: "pruned_seq a a' fa" using "5.IH"(1) [OF Branch] df by blast
      then have "prune_unreachable_sequence a = Some (a', fa)" by (simp add: pruned_seq_def)
      with "5.IH"(2) [OF Branch this refl] df obtain b' fb where "pruned_seq b b' fb" by blast
      with a show "\<exists>e' ft. pruned_event e e' ft" unfolding Branch by (blast intro: pruned_event_Branch)
    qed
  next
    case (Loop sp k l c u b)
    show ?thesis
    proof
      assume "defer_free [e]"
      with Loop have df: "defer_free c" "defer_free u" "defer_free b" by simp_all
      obtain c' fc where c: "pruned_seq c c' fc" using "5.IH"(3) [OF Loop] df by blast
      then have sc: "prune_unreachable_sequence c = Some (c', fc)" by (simp add: pruned_seq_def)
      with "5.IH"(4) [OF Loop this refl] df obtain u' fu where u: "pruned_seq u u' fu" by blast
      then have "prune_unreachable_sequence u = Some (u', fu)" by (simp add: pruned_seq_def)
      with "5.IH"(5) [OF Loop sc refl this refl] df obtain b' fb where "pruned_seq b b' fb" by blast
      with c u show "\<exists>e' ft. pruned_event e e' ft" unfolding Loop by (blast intro: pruned_event_Loop)
    qed
  next
    case (Try sp b c f p ty arms)
    show ?thesis
    proof
      assume "defer_free [e]"
      with Try have df: "defer_free b" "defer_free c" "defer_free f" by simp_all
      obtain b' fb where b: "pruned_seq b b' fb" using "5.IH"(6) [OF Try] df by blast
      then have sb: "prune_unreachable_sequence b = Some (b', fb)" by (simp add: pruned_seq_def)
      with "5.IH"(7) [OF Try this refl] df obtain c' fc where c: "pruned_seq c c' fc" by blast
      then have "prune_unreachable_sequence c = Some (c', fc)" by (simp add: pruned_seq_def)
      with "5.IH"(8) [OF Try sb refl this refl] df obtain f' ff where "pruned_seq f f' ff" by blast
      with b c show "\<exists>e' ft. pruned_event e e' ft" unfolding Try by (blast intro: pruned_event_Try)
    qed
  next
    case (Using sp b)
    with "5.IH"(9) show ?thesis by (auto intro: pruned_event_Using)
  qed (use pruned_event_leaf [of e] in auto)
qed


text \<open>No sequence of the pruned tree has an event after an abrupt one.\<close>

function trimmed :: "flow_event list \<Rightarrow> bool" where
  "trimmed [] = True"
| "trimmed (e # es) \<longleftrightarrow> (is_abrupt e \<longrightarrow> es = []) \<and> list_all trimmed (region_parts e) \<and> trimmed es"
  by pat_completeness auto
termination
  by (relation "measure events_weight") (auto dest: region_parts_weight simp: trans_less_add1)

lemma region_parts_leaf [simp]: "\<not> is_region e \<Longrightarrow> region_parts e = []"
  by (cases e) simp_all

lemma trimmed_calls: "list_all is_call r \<Longrightarrow> \<not> is_region e \<Longrightarrow> trimmed (r @ [e])"
proof (induction r)
  case (Cons n r)
  then show ?case by (cases n) (simp_all add: is_abrupt_def)
qed simp

lemma prune_trimmed:
  "\<forall>es' ft. prune_unreachable_sequence es = Some (es', ft) \<longrightarrow> trimmed es'"
  "\<forall>r. prune_nested sp ns = Some r \<longrightarrow> list_all is_call r"
  "\<forall>e' ft. prune_event e = Some (e', ft) \<longrightarrow> list_all trimmed (region_parts e') \<and> (ft \<longrightarrow> \<not> is_abrupt e')
     \<and> (\<not> is_region e \<longrightarrow> e' = e)"
proof (induction es and sp ns and e rule: prune_unreachable_sequence_prune_nested_prune_event.induct)
  case (2 e es)
  show ?case
  proof (cases "is_return_or_throw e")
    case True
    moreover from True have "prune_event e = Some (e, False)" "\<not> is_region e"
      by (cases e; simp add: is_abrupt_def prune_event.simps)+
    ultimately show ?thesis using "2.IH"(1) by (auto intro: trimmed_calls split: bind_splits)
  next
    case False
    with "2.IH"(3,4) show ?thesis by (auto split: bind_splits if_splits)
  qed
next
  case (4 sp n ns)
  have "prune_event n = Some (n, True)" if "is_call n"
    using that by (cases n) (simp_all add: prune_event.simps is_abrupt_def)
  with 4 show ?case by (auto split: bind_splits if_splits)
next
  case (5 e)
  show ?case
  proof (cases e)
    case (Branch sp c a b)
    show ?thesis using "5.IH"(1,2) [OF Branch] by (auto simp: Branch prune_event.simps is_abrupt_def split: bind_splits)
  next
    case (Loop sp k l c u b)
    show ?thesis using "5.IH"(3-5) [OF Loop] by (auto simp: Loop prune_event.simps is_abrupt_def split: bind_splits)
  next
    case (Try sp b c f p ty arms)
    show ?thesis
    proof (intro allI impI)
      fix e' ft
      assume "prune_event e = Some (e', ft)"
      then obtain b' fb c' fc f' ff where p: "prune_unreachable_sequence b = Some (b', fb)"
          "prune_unreachable_sequence c = Some (c', fc)" "prune_unreachable_sequence f = Some (f', ff)"
          and e': "e' = Try sp b' c' f' p ty arms"
        by (clarsimp simp: Try prune_event.simps bind_eq_Some_conv)
      have "trimmed b'" "trimmed c'" "trimmed f'"
        using "5.IH"(6) [OF Try] "5.IH"(7) [OF Try p(1) refl] "5.IH"(8) [OF Try p(1) refl p(2) refl] p by blast+
      with Try e' show "list_all trimmed (region_parts e') \<and> (ft \<longrightarrow> \<not> is_abrupt e') \<and> (\<not> is_region e \<longrightarrow> e' = e)"
        by (simp add: is_abrupt_def)
    qed
  next
    case (Using sp b)
    show ?thesis using "5.IH"(9) [OF Using] by (auto simp: Using prune_event.simps is_abrupt_def split: bind_splits)
  qed (simp_all add: prune_event.simps)
qed simp_all

lemma same_execs_trans: "same_execs a b \<Longrightarrow> same_execs b c \<Longrightarrow> same_execs a c"
  unfolding same_execs_def covers_def by blast

lemma normalize_same_execs: "same_execs es (normalize_deferred_scopes es)"
  by (simp add: same_execs_def normalize_covers)

lemma executable_flow_spec:
  "\<exists>es'. normalize_executable_flow es = Some es' \<and> trimmed es'
     \<and> (returns_ordered es \<longrightarrow> same_execs es es')"
proof -
  obtain es' ft where p: "pruned_seq (normalize_deferred_scopes es) es' ft"
    using prune_spec(1) normalize_defer_free by blast
  then have "normalize_executable_flow es = Some es'"
    by (simp add: normalize_executable_flow_def pruned_seq_def)
  moreover from p have "prune_unreachable_sequence (normalize_deferred_scopes es) = Some (es', ft)"
    by (simp add: pruned_seq_def)
  then have "trimmed es'" by (rule prune_trimmed(1) [rule_format])
  moreover have "same_execs es es'" if "returns_ordered es"
    using p normalize_returns_ordered [OF that] normalize_same_execs [of es] same_execs_trans
    unfolding pruned_seq_def by blast
  ultimately show ?thesis by blast
qed


section \<open>Cleanup that is independent of the loops around it\<close>

text \<open>
  \<open>targets_closed ls e\<close>: every break and continue of \<open>e\<close> names a loop of \<open>e\<close> itself or one of \<open>ls\<close>.
  \<open>cleanup_closed\<close>: so do all cleanup regions, with no loop around them.
\<close>

fun targets_closed :: "string option list \<Rightarrow> flow_event \<Rightarrow> bool" where
  "targets_closed ls (Break _ t) \<longleftrightarrow> loop_index t ls \<noteq> None"
| "targets_closed ls (Continue _ t) \<longleftrightarrow> loop_index t ls \<noteq> None"
| "targets_closed ls (Branch _ _ a b) \<longleftrightarrow> list_all (targets_closed ls) a \<and> list_all (targets_closed ls) b"
| "targets_closed ls (Loop _ _ l c u b) \<longleftrightarrow>
     list_all (targets_closed ls) c \<and> list_all (targets_closed (l # ls)) u \<and> list_all (targets_closed (l # ls)) b"
| "targets_closed ls (Try _ b c f _ _ _) \<longleftrightarrow>
     list_all (targets_closed ls) b \<and> list_all (targets_closed ls) c \<and> list_all (targets_closed ls) f"
| "targets_closed ls (Defer _ b) \<longleftrightarrow> list_all (targets_closed ls) b"
| "targets_closed ls (Using _ b) \<longleftrightarrow> list_all (targets_closed ls) b"
| "targets_closed ls _ \<longleftrightarrow> True"

fun cleanup_closed :: "flow_event \<Rightarrow> bool" where
  "cleanup_closed (Branch _ _ a b) \<longleftrightarrow> list_all cleanup_closed a \<and> list_all cleanup_closed b"
| "cleanup_closed (Loop _ _ _ c u b) \<longleftrightarrow>
     list_all cleanup_closed c \<and> list_all cleanup_closed u \<and> list_all cleanup_closed b"
| "cleanup_closed (Try _ b c f _ _ _) \<longleftrightarrow> list_all cleanup_closed b \<and> list_all cleanup_closed c
     \<and> list_all cleanup_closed f \<and> list_all (targets_closed []) f"
| "cleanup_closed (Defer _ b) \<longleftrightarrow> list_all cleanup_closed b \<and> list_all (targets_closed []) b"
| "cleanup_closed (Using _ b) \<longleftrightarrow> list_all cleanup_closed b"
| "cleanup_closed _ \<longleftrightarrow> True"

lemma normalize_targets_closed:
  "list_all (targets_closed ls) es \<Longrightarrow> list_all (targets_closed ls) (normalize_deferred_scopes es)"
proof (induction es arbitrary: ls rule: normalize_deferred_scopes.induct)
  case (2 e es)
  then show ?case by (cases e) simp_all
qed simp

lemma normalize_cleanup_closed:
  "list_all cleanup_closed es \<Longrightarrow> list_all cleanup_closed (normalize_deferred_scopes es)"
proof (induction es rule: normalize_deferred_scopes.induct)
  case (2 e es)
  then show ?case by (cases e) (simp_all add: normalize_targets_closed)
qed simp

lemma position_iff: "position P xs = Some i \<longleftrightarrow> i < length xs \<and> P (xs ! i) \<and> (\<forall>j < i. \<not> P (xs ! j))"
  by (auto simp: position_def find_Some_iff)

lemma position_append: "position P xs = Some i \<Longrightarrow> position P (xs @ ys) = Some i"
  by (auto simp: position_iff nth_append)

lemma level_in_range: "0 < n \<Longrightarrow> unat n \<le> k \<Longrightarrow> unat n - 1 < k"
  by (simp add: word_less_nat_alt)

lemma loop_index_append:
  assumes "loop_index t inner = Some i"
  shows "loop_index t (inner @ outer) = Some i" "i < length inner"
  using assms
  by (induction t inner rule: loop_index.induct)
    (auto simp: position_append position_Some level_in_range [simplified] split: if_splits)

fun outcome_within :: "nat \<Rightarrow> outcome \<Rightarrow> bool" where
  "outcome_within n (BreakTo i) = (i < n)"
| "outcome_within n (ContinueTo i) = (i < n)"
| "outcome_within n _ = True"

fun point_closed :: "string option list \<Rightarrow> point \<Rightarrow> bool" where
  "point_closed ls (At es) \<longleftrightarrow> list_all (targets_closed ls) es"
| "point_closed ls (InRegion e) \<longleftrightarrow> targets_closed ls e"
| "point_closed ls (LoopHeadAt e) \<longleftrightarrow> targets_closed ls e"
| "point_closed ls (LoopBodyAt e) \<longleftrightarrow> targets_closed ls e"
| "point_closed ls (LoopUpdateAt e) \<longleftrightarrow> targets_closed ls e"

lemma outer_outcome_within:
  "outer_outcome oc = Some oc' \<Longrightarrow> outcome_within (Suc n) oc \<Longrightarrow> outcome_within n oc'"
  by (induction oc rule: outer_outcome.induct) auto

lemma abrupt_outcome_append:
  assumes "targets_closed inner e" "is_abrupt e"
  shows "abrupt_outcome (inner @ outer) e = abrupt_outcome inner e" "outcome_within (length inner) (abrupt_outcome inner e)"
  using assms by (cases e; auto simp: is_abrupt_def loop_index_append)+

lemma exec_closed:
  assumes "exec ls p t oc" "ls = inner @ outer" "point_closed inner p"
  shows "exec (inner @ outer') p t oc \<and> outcome_within (length inner) oc"
  using assms
proof (induction arbitrary: inner rule: exec.induct)
  case (exec_abrupt e ls es)
  then show ?case
    using abrupt_outcome_append(1) [of inner e outer] abrupt_outcome_append [of inner e]
      exec.exec_abrupt [of e "inner @ outer'" es] by simp
next
  case (exec_body_stop l ls b t o1 oc sp k c u)
  from exec_body_stop.IH [of "l # inner"] exec_body_stop.prems exec_body_stop.hyps
  show ?case by (auto intro: exec.exec_body_stop dest: outer_outcome_within)
next
  case (exec_update_stop l ls u t o1 oc sp k c b)
  from exec_update_stop.IH [of "l # inner"] exec_update_stop.prems exec_update_stop.hyps
  show ?case by (auto intro: exec.exec_update_stop dest: outer_outcome_within)
next
  case (exec_body_next l ls b t1 o1 k sp c u t2 oc)
  from exec_body_next.IH(1) [of "l # inner"] exec_body_next.IH(2) [of inner] exec_body_next.prems exec_body_next.hyps
  show ?case by (auto intro: exec.exec_body_next)
next
  case (exec_body_retest l ls b t1 sp c u t2 oc)
  from exec_body_retest.IH(1) [of "l # inner"] exec_body_retest.IH(2) [of inner] exec_body_retest.prems
  show ?case by (auto intro: exec.exec_body_retest)
next
  case (exec_update_head l ls u t1 o1 k sp c b t2 oc)
  from exec_update_head.IH(1) [of "l # inner"] exec_update_head.IH(2) [of inner] exec_update_head.prems exec_update_head.hyps
  show ?case by (auto intro: exec.exec_update_head)
next
  case (exec_update_again l ls u t1 k sp c b t2 oc)
  from exec_update_again.IH(1) [of "l # inner"] exec_update_again.IH(2) [of inner] exec_update_again.prems exec_update_again.hyps
  show ?case by (auto intro: exec.exec_update_again)
qed (auto intro: exec.intros exec_deferI exec_tryI exec_catchI)

section \<open>Properties\<close>

text \<open>
  C26: lowering deferred scopes leaves no deferred scope and keeps exactly the executions of the
  tree, with the same event sequences and outcomes, whatever loops are around it.
\<close>

theorem lowering_keeps_executions:
  "defer_free (normalize_deferred_scopes es) \<and> (exec ls (At (normalize_deferred_scopes es)) t oc \<longleftrightarrow> exec ls (At es) t oc)"
  using normalize_defer_free normalize_same_execs [of es] by (auto simp: same_execs_def covers_def)

text \<open>
  C27: lowering and pruning a tree never reaches the \<^verbatim>\<open>unreachable!\<close> of the source, and in no sequence
  of the result an event follows an abrupt one; if no return or throw of the tree is directly
  followed by an event inside its own span, the result has exactly the executions of the tree.
\<close>

theorem executable_flow_keeps_executions:
  "\<exists>es'. normalize_executable_flow es = Some es' \<and> trimmed es'
     \<and> (returns_ordered es \<longrightarrow> (\<forall>ls t oc. exec ls (At es') t oc \<longleftrightarrow> exec ls (At es) t oc))"
  using executable_flow_spec [of es] by (auto simp: same_execs_def covers_def)

theorem executable_flow_keeps_executions_witness:
  "\<exists>es'. normalize_executable_flow [Defer (span_new 0 0 1) [Await (span_new 0 0 1) None], Break (span_new 0 1 2) None, Await (span_new 0 2 3) None] = Some es'
     \<and> (\<forall>ls t oc. exec ls (At es') t oc \<longleftrightarrow>
          exec ls (At [Defer (span_new 0 0 1) [Await (span_new 0 0 1) None], Break (span_new 0 1 2) None, Await (span_new 0 2 3) None]) t oc)"
  using executable_flow_keeps_executions [of "[Defer (span_new 0 0 1) [Await (span_new 0 0 1) None], Break (span_new 0 1 2) None, Await (span_new 0 2 3) None]"]
  by auto

end
