(* ===== verification/Cfg_Builder.thy ===== *)
theory Cfg_Builder
  imports Flow_Lowering
begin

text \<open>
  The control-flow graph of \<^verbatim>\<open>crates/cfg/src/lib.rs\<close> and its builder \<^verbatim>\<open>crates/cfg/src/builder.rs\<close>:
  the walk over a lowered event tree that appends basic blocks and edges, the copies of pending
  cleanup on every early exit, the choice of the destination of a break or continue, and the
  final compaction that drops unused placeholders and renumbers the rest.

  Indexing a block out of range is the value \<open>None\<close>, as the panic it is in the source; block ids
  are 32-bit words, so that the truncation \<^verbatim>\<open>as u32\<close> is part of the model.
\<close>

section \<open>The graph\<close>

datatype synthetic_block_kind =
  SbEntry | SbExit | SbBranchJoin | SbBranchThen | SbBranchElse | SbLoopHeader | SbLoopBody
| SbLoopUpdate | SbLoopAfter | SbTryFork | SbTryBody | SbCatch | SbFinally | SbUnreachable

datatype terminator =
  TFallthrough | TBranch | TLoopHeader | TTryFork | TReturn | TThrow | TBreak | TContinue | TUnreachable

record basic_block =
  bb_id :: block_id
  bb_label :: string
  bb_synthetic_kind :: "synthetic_block_kind option"
  bb_events :: "flow_event list"
  bb_successors :: "block_id list"
  bb_terminator :: terminator
  bb_span :: span

record cfg =
  cfg_analysis_complete :: bool
  cfg_incomplete_reasons :: "string list"
  cfg_function :: string
  cfg_entry :: block_id
  cfg_exit :: block_id
  cfg_blocks :: "basic_block list"

definition cfg_default :: cfg where
  "cfg_default = \<lparr>cfg_analysis_complete = False,
     cfg_incomplete_reasons = [''cfg unavailable: empty default graph''],
     cfg_function = [], cfg_entry = 0, cfg_exit = 0, cfg_blocks = []\<rparr>"

definition cfg_block :: "cfg \<Rightarrow> block_id \<Rightarrow> basic_block option" where
  "cfg_block g i = vec_get (cfg_blocks g) (unat i)"

section \<open>Blocks under construction\<close>

type_synonym blocks = "basic_block list"

definition new_block :: "blocks \<Rightarrow> string \<Rightarrow> synthetic_block_kind option \<Rightarrow> nat \<times> blocks" where
  "new_block bs label kind =
     (length bs,
      bs @ [\<lparr>bb_id = of_nat (length bs), bb_label = label, bb_synthetic_kind = kind, bb_events = [],
             bb_successors = [], bb_terminator = TFallthrough, bb_span = span_new invalid_id 0 0\<rparr>])"

definition update_block :: "blocks \<Rightarrow> nat \<Rightarrow> (basic_block \<Rightarrow> basic_block) \<Rightarrow> blocks option" where
  "update_block bs i f = do { b \<leftarrow> vec_get bs i; vec_set bs i (f b) }"

definition link :: "blocks \<Rightarrow> nat \<Rightarrow> nat \<Rightarrow> blocks option" where
  "link bs from to =
     (let to_id = of_nat to in
      update_block bs from (\<lambda>b. if to_id \<in> set (bb_successors b) then b
                                else b\<lparr>bb_successors := bb_successors b @ [to_id]\<rparr>))"

definition record_span :: "blocks \<Rightarrow> nat \<Rightarrow> span \<Rightarrow> blocks option" where
  "record_span bs i sp = update_block bs i (\<lambda>b. if span_file (bb_span b) = invalid_id then b\<lparr>bb_span := sp\<rparr> else b)"

definition set_terminator :: "blocks \<Rightarrow> nat \<Rightarrow> terminator \<Rightarrow> blocks option" where
  "set_terminator bs i t = update_block bs i (\<lambda>b. b\<lparr>bb_terminator := t\<rparr>)"

definition push_event :: "blocks \<Rightarrow> nat \<Rightarrow> flow_event \<Rightarrow> blocks option" where
  "push_event bs i e = update_block bs i (\<lambda>b. b\<lparr>bb_events := bb_events b @ [e]\<rparr>)"

text \<open>A label such as \<^verbatim>\<open>join@17\<close>: a prefix and the start of the span in decimal.\<close>

definition block_label :: "string \<Rightarrow> span \<Rightarrow> string" where
  "block_label prefix sp = prefix @ show_nat (unat (span_start sp))"

section \<open>Destinations of abrupt transfers\<close>

record loop_targets =
  lt_label :: "string option"
  lt_break_to :: nat
  lt_continue_to :: nat
  lt_retained :: nat

record finally_frame =
  ff_span :: span
  ff_events :: "flow_event list"

fun selected_loop :: "loop_control_target option \<Rightarrow> loop_targets list \<Rightarrow> loop_targets option" where
  "selected_loop None lts = vec_get (rev lts) 0"
| "selected_loop (Some (Label l)) lts = find (\<lambda>t. lt_label t = Some l) (rev lts)"
| "selected_loop (Some (Levels n)) lts = (if n = 0 then None else vec_get (rev lts) (unat n - 1))"

fun control_transfer_target :: "flow_event \<Rightarrow> loop_targets list \<Rightarrow> nat \<Rightarrow> nat \<times> nat" where
  "control_transfer_target (Break _ t) lts exit =
     (case selected_loop t lts of Some l \<Rightarrow> (lt_break_to l, lt_retained l) | None \<Rightarrow> (exit, 0))"
| "control_transfer_target (Continue _ t) lts exit =
     (case selected_loop t lts of Some l \<Rightarrow> (lt_continue_to l, lt_retained l) | None \<Rightarrow> (exit, 0))"
| "control_transfer_target _ lts exit = (exit, 0)"

fun abrupt_terminator :: "flow_event \<Rightarrow> terminator" where
  "abrupt_terminator (Return _ _ _ _ _) = TReturn"
| "abrupt_terminator (Throw _ _ _) = TThrow"
| "abrupt_terminator (Break _ _) = TBreak"
| "abrupt_terminator _ = TContinue"

section \<open>The walk\<close>

text \<open>The straight-line parts of the arms of \<^verbatim>\<open>walk_with_finally\<close>, before their recursive calls.\<close>

definition branch_fork :: "blocks \<Rightarrow> nat \<Rightarrow> span \<Rightarrow> (nat \<times> nat \<times> nat \<times> blocks) option" where
  "branch_fork bs cur sp = do {
     bs \<leftarrow> record_span bs cur sp;
     bs \<leftarrow> set_terminator bs cur TBranch;
     let (join, bs) = new_block bs (block_label ''join@'' sp) (Some SbBranchJoin);
     let (then_id, bs) = new_block bs (block_label ''then@'' sp) (Some SbBranchThen);
     let (else_id, bs) = new_block bs (block_label ''else@'' sp) (Some SbBranchElse);
     bs \<leftarrow> link bs cur then_id;
     bs \<leftarrow> link bs cur else_id;
     Some (join, then_id, else_id, bs)
   }"

definition loop_fork :: "blocks \<Rightarrow> nat \<Rightarrow> span \<Rightarrow> (nat \<times> nat \<times> nat \<times> blocks) option" where
  "loop_fork bs cur sp = do {
     bs \<leftarrow> record_span bs cur sp;
     let (header, bs) = new_block bs (block_label ''loop-header@'' sp) (Some SbLoopHeader);
     let (body_id, bs) = new_block bs (block_label ''loop-body@'' sp) (Some SbLoopBody);
     let (after, bs) = new_block bs (block_label ''loop-after@'' sp) (Some SbLoopAfter);
     Some (header, body_id, after, bs)
   }"

definition loop_wire ::
  "blocks \<Rightarrow> nat \<Rightarrow> loop_kind \<Rightarrow> nat \<Rightarrow> nat \<Rightarrow> nat \<Rightarrow> nat \<Rightarrow> flow_event list \<Rightarrow> span \<Rightarrow> (nat \<times> blocks) option" where
  "loop_wire bs cur kind header body_id after condition_tail update_events sp = do {
     bs \<leftarrow> set_terminator bs condition_tail TLoopHeader;
     bs \<leftarrow> (if kind = LkDoWhile then link bs cur body_id else link bs cur header);
     bs \<leftarrow> link bs condition_tail body_id;
     bs \<leftarrow> (if kind \<noteq> LkLoop then link bs condition_tail after else Some bs);
     if update_events = [] then Some (header, bs)
     else Some (new_block bs (block_label ''loop-update@'' sp) (Some SbLoopUpdate))
   }"

definition try_fork ::
  "blocks \<Rightarrow> nat \<Rightarrow> span \<Rightarrow> bool \<Rightarrow> (nat \<times> nat option \<times> blocks) option" where
  "try_fork bs cur sp catches = do {
     bs \<leftarrow> record_span bs cur sp;
     let (anchor, bs) = new_block bs (block_label ''try_fork@'' sp) (Some SbTryFork);
     bs \<leftarrow> link bs cur anchor;
     bs \<leftarrow> record_span bs anchor sp;
     let (try_id, bs) = new_block bs (block_label ''try@'' sp) (Some SbTryBody);
     bs \<leftarrow> link bs anchor try_id;
     if catches then do {
       let (catch_id, bs) = new_block bs (block_label ''catch@'' sp) (Some SbCatch);
       bs \<leftarrow> link bs anchor catch_id;
       bs \<leftarrow> set_terminator bs anchor TTryFork;
       Some (try_id, Some catch_id, bs)
     } else Some (try_id, None, bs)
   }"

definition abrupt_here :: "blocks \<Rightarrow> nat \<Rightarrow> flow_event \<Rightarrow> blocks option" where
  "abrupt_here bs cur event = do {
     bs \<leftarrow> record_span bs cur (event_span event);
     bs \<leftarrow> set_terminator bs cur (abrupt_terminator event);
     push_event bs cur event
   }"

definition dead_block :: "blocks \<Rightarrow> (nat \<times> blocks) option" where
  "dead_block bs = do {
     let (dead, bs) = new_block bs ''unreachable'' (Some SbUnreachable);
     bs \<leftarrow> set_terminator bs dead TUnreachable;
     Some (dead, bs)
   }"

definition copy_finally :: "blocks \<Rightarrow> nat \<Rightarrow> span \<Rightarrow> (nat \<times> blocks) option" where
  "copy_finally bs cur sp = do {
     let (finally_id, bs) = new_block bs (block_label ''finally@'' sp) (Some SbFinally);
     bs \<leftarrow> link bs cur finally_id;
     bs \<leftarrow> record_span bs finally_id sp;
     Some (finally_id, bs)
   }"

definition frames_weight :: "finally_frame list \<Rightarrow> nat" where
  "frames_weight pf = sum_list (map (\<lambda>f. Suc (events_weight (ff_events f))) pf)"

lemma frames_weight_take:
  "vec_get pf i = Some f \<Longrightarrow> frames_weight (take (Suc i) pf) = Suc (events_weight (ff_events f)) + frames_weight (take i pf)"
  by (auto simp: frames_weight_def vec_get_eq_Some take_Suc_conv_app_nth)

lemma frames_weight_step:
  "vec_get pf (n - Suc 0) = Some f \<Longrightarrow> m < n \<Longrightarrow>
    frames_weight (take n pf) = Suc (events_weight (ff_events f)) + frames_weight (take (n - Suc 0) pf)"
  using frames_weight_take [of pf "n - 1" f] by (cases n) simp_all

lemma frames_weight_append [simp]:
  "frames_weight (pf @ [f]) = Suc (events_weight (ff_events f)) + frames_weight pf"
  by (simp add: frames_weight_def)

lemma event_weight_two [simp]: "Suc 0 < 2 * event_weight e"
  by (cases e) simp_all

text \<open>
  \<open>walk_event\<close> is the body of the loop of \<^verbatim>\<open>walk_with_finally\<close>. \<open>append_finally_path n\<close> is the loop of the function of that name when the frames with an index
  of \<open>n\<close> or more are done; it is called with the number of pending frames.
\<close>

function walk_with_finally ::
    "flow_event list \<Rightarrow> nat \<Rightarrow> nat \<Rightarrow> blocks \<Rightarrow> loop_targets list \<Rightarrow> finally_frame list \<Rightarrow> (nat \<times> blocks) option"
  and walk_event ::
    "flow_event \<Rightarrow> nat \<Rightarrow> nat \<Rightarrow> blocks \<Rightarrow> loop_targets list \<Rightarrow> finally_frame list \<Rightarrow> (nat \<times> blocks) option"
  and append_finally_path ::
    "nat \<Rightarrow> nat \<Rightarrow> nat \<Rightarrow> nat \<Rightarrow> blocks \<Rightarrow> loop_targets list \<Rightarrow> finally_frame list \<Rightarrow> nat \<Rightarrow> blocks option"
where
  "walk_with_finally [] cur exit bs lts pf = Some (cur, bs)"
| "walk_with_finally (event # events) cur exit bs lts pf = do {
     (cur, bs) \<leftarrow> walk_event event cur exit bs lts pf;
     walk_with_finally events cur exit bs lts pf
   }"
| "walk_event event cur exit bs lts pf =
     (if is_abrupt event then do {
        let (final_target, retained) = control_transfer_target event lts exit;
        bs \<leftarrow> abrupt_here bs cur event;
        bs \<leftarrow> (if length pf = retained
               then (if is_break_or_continue event then link bs cur final_target else Some bs)
               else append_finally_path (length pf) cur final_target exit bs lts pf retained);
        dead_block bs
      } else
      case event of
        Branch sp condition then_events else_events \<Rightarrow> do {
          (join, then_id, else_id, bs) \<leftarrow> branch_fork bs cur sp;
          (then_tail, bs) \<leftarrow> walk_with_finally then_events then_id exit bs lts pf;
          (else_tail, bs) \<leftarrow> walk_with_finally else_events else_id exit bs lts pf;
          bs \<leftarrow> link bs then_tail join;
          bs \<leftarrow> link bs else_tail join;
          Some (join, bs)
        }
      | Loop sp kind label condition_events update_events body \<Rightarrow> do {
          (header, body_id, after, bs) \<leftarrow> loop_fork bs cur sp;
          (condition_tail, bs) \<leftarrow> walk_with_finally condition_events header exit bs lts pf;
          (update_entry, bs) \<leftarrow> loop_wire bs cur kind header body_id after condition_tail update_events sp;
          let nested = lts @ [\<lparr>lt_label = label, lt_break_to = after,
            lt_continue_to = (if kind = LkDoWhile then header else update_entry),
            lt_retained = length pf\<rparr>];
          (body_tail, bs) \<leftarrow> walk_with_finally body body_id exit bs nested pf;
          bs \<leftarrow> link bs body_tail update_entry;
          if update_events = [] then Some (after, bs)
          else do {
            (update_tail, bs) \<leftarrow> walk_with_finally update_events update_entry exit bs nested pf;
            bs \<leftarrow> link bs update_tail header;
            Some (after, bs)
          }
        }
      | Try sp body catch_events finally_events catch_param catch_types catch_arms \<Rightarrow> do {
          (try_id, catch_id, bs) \<leftarrow> try_fork bs cur sp (has_catch catch_events catch_param catch_types catch_arms);
          let inner = pf @ [\<lparr>ff_span = sp, ff_events = finally_events\<rparr>];
          (try_tail, bs) \<leftarrow> walk_with_finally body try_id exit bs lts inner;
          (catch_tail, bs) \<leftarrow> (case catch_id of
              None \<Rightarrow> Some (None, bs)
            | Some i \<Rightarrow> do {
                (tail, bs) \<leftarrow> walk_with_finally catch_events i exit bs lts inner;
                Some (Some tail, bs)
              });
          let (finally_id, bs) = new_block bs (block_label ''finally@'' sp) (Some SbFinally);
          bs \<leftarrow> link bs try_tail finally_id;
          bs \<leftarrow> (case catch_tail of Some tail \<Rightarrow> link bs tail finally_id | None \<Rightarrow> Some bs);
          walk_with_finally finally_events finally_id exit bs lts pf
        }
      | Defer sp body \<Rightarrow> walk_with_finally body cur exit bs lts pf
      | Using sp body \<Rightarrow> walk_with_finally body cur exit bs lts pf
      | other \<Rightarrow> do {
          bs \<leftarrow> record_span bs cur (event_span event);
          bs \<leftarrow> push_event bs cur event;
          Some (cur, bs)
        })"
| "append_finally_path n cur final_target exit bs lts pf retained =
     (if retained < n then do {
        frame \<leftarrow> vec_get pf (n - 1);
        (finally_id, bs) \<leftarrow> copy_finally bs cur (ff_span frame);
        (cur, bs) \<leftarrow> walk_with_finally (ff_events frame) finally_id exit bs lts (take (n - 1) pf);
        append_finally_path (n - 1) cur final_target exit bs lts pf retained
      } else link bs cur final_target)"
  by pat_completeness auto
termination
proof (relation "measure (\<lambda>x. case x of
    Inl (es, cur, exit, bs, lts, pf) \<Rightarrow> Suc (2 * (events_weight es + frames_weight pf))
  | Inr (Inl (e, cur, exit, bs, lts, pf)) \<Rightarrow> 2 * (event_weight e + frames_weight pf)
  | Inr (Inr (n, cur, target, exit, bs, lts, pf, retained)) \<Rightarrow> Suc (2 * frames_weight (take n pf)))", goal_cases)
  case 1
  then show ?case by simp
qed (auto dest: frames_weight_step)

declare walk_event.simps [simp del]
declare append_finally_path.simps [simp del]

section \<open>Properties of walks\<close>

text \<open>
  A property of walks: of sequences (\<open>W\<close>), of single events (\<open>E\<close>) and of the copies of cleanup (\<open>A\<close>). It
  holds of all of them when it is passed on along the recursive calls, which copy cleanup regions
  on the way and so are not those of a structural recursion.
\<close>

locale walk_property =
  fixes W :: "flow_event list \<Rightarrow> nat \<Rightarrow> loop_targets list \<Rightarrow> finally_frame list \<Rightarrow> bool"
    and E :: "flow_event \<Rightarrow> nat \<Rightarrow> loop_targets list \<Rightarrow> finally_frame list \<Rightarrow> bool"
    and A :: "nat \<Rightarrow> nat \<Rightarrow> loop_targets list \<Rightarrow> finally_frame list \<Rightarrow> bool"
  assumes walk_nil: "W [] exit lts pf"
    and walk_cons: "E e exit lts pf \<Longrightarrow> W es exit lts pf \<Longrightarrow> W (e # es) exit lts pf"
    and at_abrupt: "is_abrupt e \<Longrightarrow> A (length pf) exit lts pf \<Longrightarrow> E e exit lts pf"
    and at_branch: "W a exit lts pf \<Longrightarrow> W b exit lts pf \<Longrightarrow> E (Branch sp cnd a b) exit lts pf"
    and at_loop: "W c exit lts pf \<Longrightarrow> (\<And>lt. W u exit (lts @ [lt]) pf) \<Longrightarrow> (\<And>lt. W b exit (lts @ [lt]) pf) \<Longrightarrow>
      E (Loop sp k l c u b) exit lts pf"
    and at_try: "W b exit lts (pf @ [\<lparr>ff_span = sp, ff_events = fs\<rparr>]) \<Longrightarrow> W c exit lts (pf @ [\<lparr>ff_span = sp, ff_events = fs\<rparr>]) \<Longrightarrow>
      W fs exit lts pf \<Longrightarrow> E (Try sp b c fs p ty arms) exit lts pf"
    and at_using: "W b exit lts pf \<Longrightarrow> E (Using sp b) exit lts pf"
    and at_defer: "W b exit lts pf \<Longrightarrow> E (Defer sp b) exit lts pf"
    and at_leaf: "\<not> is_region e \<Longrightarrow> \<not> is_abrupt e \<Longrightarrow> E e exit lts pf"
    and at_copy: "(0 < n \<Longrightarrow> n \<le> length pf \<Longrightarrow>
        W (ff_events (pf ! (n - 1))) exit lts (take (n - 1) pf) \<and> A (n - 1) exit lts pf) \<Longrightarrow> A n exit lts pf"
begin

lemma by_weight:
  "(\<forall>es exit lts pf. Suc (2 * (events_weight es + frames_weight pf)) = m \<longrightarrow> W es exit lts pf)
   \<and> (\<forall>e exit lts pf. 2 * (event_weight e + frames_weight pf) = m \<longrightarrow> E e exit lts pf)
   \<and> (\<forall>n exit lts pf. Suc (2 * frames_weight (take n pf)) = m \<longrightarrow> A n exit lts pf)"
proof (induction m rule: less_induct)
  case (less m)
  have W: "W es exit lts pf" if "Suc (2 * (events_weight es + frames_weight pf)) < m" for es exit lts pf
    using less.IH [OF that] by blast
  have E: "E e exit lts pf" if "2 * (event_weight e + frames_weight pf) < m" for e exit lts pf
    using less.IH [OF that] by blast
  have A: "A n exit lts pf" if "Suc (2 * frames_weight (take n pf)) < m" for n exit lts pf
    using less.IH [OF that] by blast
  show ?case
  proof (intro conjI allI impI)
    fix es exit lts pf
    assume m: "Suc (2 * (events_weight es + frames_weight pf)) = m"
    show "W es exit lts pf"
    proof (cases es)
      case (Cons e es')
      have "E e exit lts pf" "W es' exit lts pf"
        using m Cons event_weight_pos [of e] by (intro E W; simp del: event_weight_pos)+
      then show ?thesis unfolding Cons by (rule walk_cons)
    qed (simp add: walk_nil)
  next
    fix e exit lts pf
    assume m: "2 * (event_weight e + frames_weight pf) = m"
    show "E e exit lts pf"
    proof (cases "is_abrupt e")
      case True
      have "A (length pf) exit lts pf"
        using m event_weight_pos [of e] by (intro A) (simp del: event_weight_pos)
      with True show ?thesis by (rule at_abrupt)
    next
      case False
      show ?thesis
      proof (cases e)
        case (Branch sp c a b)
        with m show ?thesis by (simp add: at_branch W)
      next
        case (Loop sp k l c u b)
        with m show ?thesis by (simp add: at_loop W)
      next
        case (Try sp b c f p ty arms)
        with m show ?thesis by (simp add: at_try W)
      next
        case (Using sp b)
        with m show ?thesis by (simp add: at_using W)
      next
        case (Defer sp b)
        with m show ?thesis by (simp add: at_defer W)
      qed (use False in \<open>simp_all add: at_leaf\<close>)
    qed
  next
    fix n exit lts pf
    assume m: "Suc (2 * frames_weight (take n pf)) = m"
    show "A n exit lts pf"
    proof (rule at_copy)
      assume n: "0 < n" "n \<le> length pf"
      then have "vec_get pf (n - Suc 0) = Some (pf ! (n - 1))" by simp
      from frames_weight_step [OF this n(1)] m
      show "W (ff_events (pf ! (n - 1))) exit lts (take (n - 1) pf) \<and> A (n - 1) exit lts pf"
        by (intro conjI W A) simp_all
    qed
  qed
qed

lemma walks: "W es exit lts pf" and events: "E e exit lts pf" and copies: "A n exit lts pf"
  using by_weight by blast+

end

section \<open>Compaction\<close>

definition incoming_counts :: "blocks \<Rightarrow> nat list" where
  "incoming_counts bs =
     fold (\<lambda>b. fold (\<lambda>s inc. if unat s < length inc then inc[unat s := inc ! unat s + 1] else inc) (bb_successors b))
       bs (replicate (length bs) 0)"

definition keep_block :: "nat list \<Rightarrow> nat \<Rightarrow> nat \<Rightarrow> nat \<Rightarrow> basic_block \<Rightarrow> bool" where
  "keep_block incoming entry exit idx b \<longleftrightarrow>
     idx = entry \<or> idx = exit \<or> bb_events b \<noteq> []
     \<or> (case bb_synthetic_kind b of Some kind \<Rightarrow> kind \<noteq> SbUnreachable | None \<Rightarrow> False)
     \<or> 0 < incoming ! idx"

definition keep_flags :: "blocks \<Rightarrow> nat \<Rightarrow> nat \<Rightarrow> bool list" where
  "keep_flags bs entry exit = map (\<lambda>idx. keep_block (incoming_counts bs) entry exit idx (bs ! idx)) [0 ..< length bs]"

text \<open>The new index of each block; \<^verbatim>\<open>usize::MAX\<close>, the mark of a dropped one, is \<open>None\<close>.\<close>

fun remap_from :: "nat \<Rightarrow> bool list \<Rightarrow> nat option list" where
  "remap_from next [] = []"
| "remap_from next (True # ks) = Some next # remap_from (next + 1) ks"
| "remap_from next (False # ks) = None # remap_from next ks"

definition remap_successor :: "nat option list \<Rightarrow> block_id \<Rightarrow> block_id option" where
  "remap_successor remap s =
     (case vec_get remap (unat s) of Some (Some new_idx) \<Rightarrow> Some (of_nat new_idx) | _ \<Rightarrow> None)"

definition compact_block :: "nat option list \<Rightarrow> nat option \<times> basic_block \<Rightarrow> basic_block option" where
  "compact_block remap = (\<lambda>(new_id, b).
     case new_id of
       None \<Rightarrow> None
     | Some n \<Rightarrow> Some (b\<lparr>bb_id := of_nat n,
                        bb_successors := List.map_filter (remap_successor remap) (bb_successors b)\<rparr>))"

definition remapped_id :: "nat option list \<Rightarrow> nat \<Rightarrow> block_id option" where
  "remapped_id remap i = map_option (\<lambda>r. case r of Some n \<Rightarrow> of_nat n | None \<Rightarrow> invalid_id) (vec_get remap i)"

definition compact_ids :: "blocks \<Rightarrow> nat \<Rightarrow> nat \<Rightarrow> (block_id \<times> block_id \<times> blocks) option" where
  "compact_ids bs entry exit = do {
     let remap = remap_from 0 (keep_flags bs entry exit);
     let filtered = List.map_filter (compact_block remap) (zip remap bs);
     entry_id \<leftarrow> remapped_id remap entry;
     exit_id \<leftarrow> remapped_id remap exit;
     Some (entry_id, exit_id, filtered)
   }"

section \<open>The builder\<close>

definition walk :: "flow_event list \<Rightarrow> nat \<Rightarrow> nat \<Rightarrow> blocks \<Rightarrow> loop_targets list \<Rightarrow> (nat \<times> blocks) option" where
  "walk events current exit bs lts = walk_with_finally events current exit bs lts []"

text \<open>The first half of \<^verbatim>\<open>build_cfg_from_flow_in_span\<close>: the blocks before spans are filled and ids compacted.\<close>

definition build_raw :: "flow_event list \<Rightarrow> (nat \<times> nat \<times> blocks) option" where
  "build_raw events = do {
     let normalized_events = normalize_deferred_scopes events;
     let (exit, bs) = new_block [] ''exit'' (Some SbExit);
     let (entry, bs) = new_block bs ''entry'' (Some SbEntry);
     (tail, bs) \<leftarrow> walk normalized_events entry exit bs [];
     bs \<leftarrow> link bs tail exit;
     Some (entry, exit, bs)
   }"

definition fill_span :: "span option \<Rightarrow> basic_block \<Rightarrow> basic_block" where
  "fill_span function_span b =
     (case function_span of
        Some sp \<Rightarrow> (if span_file sp \<noteq> invalid_id \<and> span_file (bb_span b) = invalid_id then b\<lparr>bb_span := sp\<rparr> else b)
      | None \<Rightarrow> b)"

definition build_cfg_from_flow_in_span :: "string \<Rightarrow> span option \<Rightarrow> flow_event list \<Rightarrow> cfg option" where
  "build_cfg_from_flow_in_span function_name function_span events = do {
     (entry, exit, bs) \<leftarrow> build_raw events;
     (entry_id, exit_id, compacted) \<leftarrow> compact_ids (map (fill_span function_span) bs) entry exit;
     Some \<lparr>cfg_analysis_complete = True, cfg_incomplete_reasons = [], cfg_function = function_name,
           cfg_entry = entry_id, cfg_exit = exit_id, cfg_blocks = compacted\<rparr>
   }"

definition build_cfg_from_flow :: "string \<Rightarrow> flow_event list \<Rightarrow> cfg option" where
  "build_cfg_from_flow function_name events =
     build_cfg_from_flow_in_span function_name (event_envelope events) events"

end
