(* ===== verification/Cfg_Frame.thy ===== *)
theory Cfg_Frame
  imports Cfg_Builder
begin

text \<open>
  The frame of the CFG walk: the walk and the copies of cleanup always return (no index is out
  of range), they change no existing block but the one they extend, they keep ids and edges
  within the blocks that exist, and the block they hand back is still open.
\<close>

section \<open>Single updates\<close>

named_theorems blk \<open>the block operations, in range\<close>

lemma update_block_in [blk]: "i < length bs \<Longrightarrow> update_block bs i f = Some (bs[i := f (bs ! i)])"
  by (simp add: update_block_def)

definition open_block :: "basic_block \<Rightarrow> bool" where
  "open_block b \<longleftrightarrow> bb_successors b = [] \<and> bb_terminator b \<in> {TFallthrough, TUnreachable}"

definition left_block :: "basic_block \<Rightarrow> bool" where
  "left_block b \<longleftrightarrow> bb_terminator b \<in> {TReturn, TThrow}"

definition elen :: "blocks \<Rightarrow> nat \<Rightarrow> nat" where
  "elen bs i = length (bb_events (bs ! i))"

definition wf_blocks :: "blocks \<Rightarrow> bool" where
  "wf_blocks bs \<longleftrightarrow> (\<forall>i < length bs. bb_id (bs ! i) = of_nat i
     \<and> set (bb_successors (bs ! i)) \<subseteq> of_nat ` {..< length bs})"

text \<open>\<open>keeps c bs bs'\<close>: of the blocks of \<open>bs\<close> only \<open>c\<close> has changed, its events at most grew.\<close>

definition keeps :: "nat \<Rightarrow> blocks \<Rightarrow> blocks \<Rightarrow> bool" where
  "keeps c bs bs' \<longleftrightarrow> length bs \<le> length bs' \<and> (\<forall>i < length bs. i \<noteq> c \<longrightarrow> bs' ! i = bs ! i)
     \<and> (c < length bs \<longrightarrow> (\<exists>xs. bb_events (bs' ! c) = bb_events (bs ! c) @ xs)) \<and> (wf_blocks bs \<longrightarrow> wf_blocks bs')"

lemma keeps_refl [simp]: "keeps c bs bs"
  by (simp add: keeps_def)

lemma keeps_trans:
  assumes "keeps c bs bs1" "keeps d bs1 bs2" "d = c \<or> length bs \<le> d"
  shows "keeps c bs bs2"
  unfolding keeps_def
proof (intro conjI allI impI)
  show "length bs \<le> length bs2" "wf_blocks bs \<Longrightarrow> wf_blocks bs2"
    using assms(1,2) by (auto simp: keeps_def)
  show "bs2 ! i = bs ! i" if "i < length bs" "i \<noteq> c" for i
    using that assms by (auto simp: keeps_def)
  assume c: "c < length bs"
  show "\<exists>xs. bb_events (bs2 ! c) = bb_events (bs ! c) @ xs"
  proof (cases "d = c")
    case True
    with c assms(1,2) show ?thesis by (auto simp: keeps_def)
  next
    case False
    with c assms(3) have "bs2 ! c = bs1 ! c" using assms(1,2) by (auto simp: keeps_def)
    with c assms(1) show ?thesis by (simp add: keeps_def)
  qed
qed

lemma keeps_length: "keeps c bs bs' \<Longrightarrow> length bs \<le> length bs'"
  by (simp add: keeps_def)

lemma keeps_other: "keeps c bs bs' \<Longrightarrow> i < length bs \<Longrightarrow> i \<noteq> c \<Longrightarrow> bs' ! i = bs ! i"
  by (simp add: keeps_def)

lemma keeps_wf: "keeps c bs bs' \<Longrightarrow> wf_blocks bs \<Longrightarrow> wf_blocks bs'"
  by (simp add: keeps_def)

lemma keeps_update:
  assumes "bb_id b = bb_id (bs ! i)" "\<exists>xs. bb_events b = bb_events (bs ! i) @ xs"
    "set (bb_successors b) \<subseteq> set (bb_successors (bs ! i)) \<union> of_nat ` {..< length bs}"
  shows "keeps i bs (bs[i := b])"
proof -
  have "wf_blocks (bs[i := b])" if "wf_blocks bs"
    unfolding wf_blocks_def
  proof (intro allI impI)
    fix j
    assume j: "j < length (bs[i := b])"
    then have "set (bb_successors (bs ! j)) \<subseteq> of_nat ` {..< length bs}" "bb_id (bs ! j) = of_nat j"
      using that by (simp_all add: wf_blocks_def)
    with j assms(1,3) show "bb_id (bs[i := b] ! j) = of_nat j
        \<and> set (bb_successors (bs[i := b] ! j)) \<subseteq> of_nat ` {..< length (bs[i := b])}"
      by (cases "j = i") auto
  qed
  with assms show ?thesis by (auto simp: keeps_def)
qed

text \<open>A fresh block, as \<open>new_block\<close> makes it.\<close>

definition fresh_block :: "nat \<Rightarrow> string \<Rightarrow> synthetic_block_kind option \<Rightarrow> basic_block" where
  "fresh_block i label kind = \<lparr>bb_id = of_nat i, bb_label = label, bb_synthetic_kind = kind, bb_events = [],
     bb_successors = [], bb_terminator = TFallthrough, bb_span = span_new invalid_id 0 0\<rparr>"

lemma fresh_block_simps [simp]:
  "bb_id (fresh_block i l k) = of_nat i" "bb_events (fresh_block i l k) = []"
  "bb_successors (fresh_block i l k) = []" "bb_terminator (fresh_block i l k) = TFallthrough"
  "bb_synthetic_kind (fresh_block i l k) = k" "bb_label (fresh_block i l k) = l"
  "open_block (fresh_block i l k)"
  by (simp_all add: fresh_block_def open_block_def)

lemma new_block_fresh [blk]: "new_block bs label kind = (length bs, bs @ [fresh_block (length bs) label kind])"
  by (simp add: new_block_def fresh_block_def)

lemma keeps_fresh: "keeps c bs (bs @ [fresh_block (length bs) l k])"
proof -
  have "wf_blocks (bs @ [fresh_block (length bs) l k])" if "wf_blocks bs"
    using that by (auto simp: wf_blocks_def nth_append lessThan_Suc less_Suc_eq)
  then show ?thesis by (auto simp: keeps_def nth_append)
qed

text \<open>The operations as updates of one block.\<close>

definition linked :: "nat \<Rightarrow> basic_block \<Rightarrow> basic_block" where
  "linked to b = (if of_nat to \<in> set (bb_successors b) then b else b\<lparr>bb_successors := bb_successors b @ [of_nat to]\<rparr>)"

lemma linked_simps [simp]:
  "bb_id (linked j b) = bb_id b" "bb_events (linked j b) = bb_events b"
  "bb_terminator (linked j b) = bb_terminator b" "set (bb_successors (linked j b)) = insert (of_nat j) (set (bb_successors b))"
  "bb_synthetic_kind (linked j b) = bb_synthetic_kind b"
  by (auto simp: linked_def)

definition spanned :: "span \<Rightarrow> basic_block \<Rightarrow> basic_block" where
  "spanned sp b = (if span_file (bb_span b) = invalid_id then b\<lparr>bb_span := sp\<rparr> else b)"

lemma spanned_simps [simp]:
  "bb_id (spanned sp b) = bb_id b" "bb_events (spanned sp b) = bb_events b" "bb_synthetic_kind (spanned sp b) = bb_synthetic_kind b"
  "bb_terminator (spanned sp b) = bb_terminator b" "bb_successors (spanned sp b) = bb_successors b"
  "open_block (spanned sp b) = open_block b"
  by (auto simp: spanned_def open_block_def)

lemma link_in [blk]: "i < length bs \<Longrightarrow> link bs i j = Some (bs[i := linked j (bs ! i)])"
  by (simp add: link_def update_block_in linked_def Let_def)

lemma record_span_in [blk]: "i < length bs \<Longrightarrow> record_span bs i sp = Some (bs[i := spanned sp (bs ! i)])"
  by (simp add: record_span_def update_block_in spanned_def)

lemma set_terminator_in [blk]:
  "i < length bs \<Longrightarrow> set_terminator bs i t = Some (bs[i := (bs ! i)\<lparr>bb_terminator := t\<rparr>])"
  by (simp add: set_terminator_def update_block_in)

lemma push_event_in [blk]:
  "i < length bs \<Longrightarrow> push_event bs i e = Some (bs[i := (bs ! i)\<lparr>bb_events := bb_events (bs ! i) @ [e]\<rparr>])"
  by (simp add: push_event_def update_block_in)

lemma keeps_link: "j < length bs \<Longrightarrow> keeps i bs (bs[i := linked j (bs ! i)])"
  by (rule keeps_update) auto

lemma keeps_spanned: "keeps i bs (bs[i := spanned sp (bs ! i)])"
  by (rule keeps_update) auto

lemma keeps_terminator: "keeps i bs (bs[i := (bs ! i)\<lparr>bb_terminator := t\<rparr>])"
  by (rule keeps_update) auto

lemma keeps_event: "keeps i bs (bs[i := (bs ! i)\<lparr>bb_events := bb_events (bs ! i) @ [e]\<rparr>])"
  by (rule keeps_update) auto

text \<open>One block changed and some appended.\<close>

lemma keeps_extend:
  assumes "bb_id b = bb_id (bs ! c)" "\<exists>xs. bb_events b = bb_events (bs ! c) @ xs"
    "set (bb_successors b) \<subseteq> set (bb_successors (bs ! c)) \<union> of_nat ` {..< length bs + length fs}"
    "\<forall>k < length fs. bb_id (fs ! k) = of_nat (length bs + k)
       \<and> set (bb_successors (fs ! k)) \<subseteq> of_nat ` {..< length bs + length fs}"
  shows "keeps c bs (bs[c := b] @ fs)"
proof -
  have "wf_blocks (bs[c := b] @ fs)" if wf: "wf_blocks bs"
    unfolding wf_blocks_def
  proof (intro allI impI)
    fix j
    assume j: "j < length (bs[c := b] @ fs)"
    have "set (bb_successors (bs ! j)) \<subseteq> of_nat ` {..< length bs + length fs} \<and> bb_id (bs ! j) = of_nat j" if "j < length bs"
      using wf that by (force simp: wf_blocks_def)
    with j assms(1,3) assms(4) [rule_format, of "j - length bs"]
    show "bb_id ((bs[c := b] @ fs) ! j) = of_nat j
        \<and> set (bb_successors ((bs[c := b] @ fs) ! j)) \<subseteq> of_nat ` {..< length (bs[c := b] @ fs)}"
      by (cases "j < length bs"; cases "j = c") (auto simp: nth_append)
  qed
  with assms(2) show ?thesis by (auto simp: keeps_def nth_append)
qed

lemmas keeps_ops = keeps_link keeps_spanned keeps_terminator keeps_event keeps_fresh

section \<open>Growth and edges\<close>

text \<open>
  \<open>grows bs bs'\<close>: edges stay, events at most grow, and not at all once a block has an edge or
  leaves the function. A path of \<open>bs\<close> is then a path of \<open>bs'\<close>.
\<close>

definition grows_block :: "basic_block \<Rightarrow> basic_block \<Rightarrow> bool" where
  "grows_block b b' \<longleftrightarrow> set (bb_successors b) \<subseteq> set (bb_successors b')
     \<and> (\<exists>xs. bb_events b' = bb_events b @ xs) \<and> (bb_successors b \<noteq> [] \<longrightarrow> bb_events b' = bb_events b)
     \<and> (left_block b \<longrightarrow> b' = b)"

definition grows :: "blocks \<Rightarrow> blocks \<Rightarrow> bool" where
  "grows bs bs' \<longleftrightarrow> length bs \<le> length bs' \<and> (\<forall>i < length bs. grows_block (bs ! i) (bs' ! i))"

lemma grows_block_refl [simp]: "grows_block b b"
  by (simp add: grows_block_def)

lemma grows_block_trans: "grows_block a b \<Longrightarrow> grows_block b c \<Longrightarrow> grows_block a c"
  unfolding grows_block_def by (metis append_assoc subset_trans set_empty subset_empty)

lemma grows_refl [simp]: "grows bs bs"
  by (simp add: grows_def)

lemma grows_trans [trans]: "grows a b \<Longrightarrow> grows b c \<Longrightarrow> grows a c"
  unfolding grows_def by (meson grows_block_trans le_trans less_le_trans)

lemma grows_length: "grows bs bs' \<Longrightarrow> length bs \<le> length bs'"
  by (simp add: grows_def)

lemma grows_keeps: "keeps c bs bs' \<Longrightarrow> c < length bs \<Longrightarrow> open_block (bs ! c) \<Longrightarrow> grows bs bs'"
  by (auto simp: grows_def keeps_def grows_block_def open_block_def left_block_def)

lemma grows_update: "grows_block (bs ! i) b \<Longrightarrow> grows bs (bs[i := b])"
  by (cases "i < length bs") (auto simp: grows_def nth_list_update list_update_beyond)

lemma grows_append [simp]: "grows bs (bs @ cs)"
  by (simp add: grows_def nth_append)

lemma grows_block_linked: "\<not> left_block b \<Longrightarrow> grows_block b (linked j b)"
  by (auto simp: grows_block_def)

definition edge :: "blocks \<Rightarrow> nat \<Rightarrow> nat \<Rightarrow> bool" where
  "edge bs i j \<longleftrightarrow> i < length bs \<and> j < length bs \<and> of_nat j \<in> set (bb_successors (bs ! i))"

lemma edge_grows: "edge bs i j \<Longrightarrow> grows bs bs' \<Longrightarrow> edge bs' i j"
  by (auto simp: edge_def grows_def grows_block_def)

lemma edge_link: "i < length bs \<Longrightarrow> j < length bs \<Longrightarrow> edge (bs[i := linked j b]) i j"
  by (simp add: edge_def)

lemma elen_edge: "grows bs bs' \<Longrightarrow> edge bs i j \<Longrightarrow> elen bs' i = elen bs i"
  by (auto simp: edge_def grows_def grows_block_def elen_def)

lemma open_not_left [simp]: "open_block b \<Longrightarrow> \<not> left_block b"
  by (auto simp: open_block_def left_block_def)

section \<open>The straight-line parts of the arms\<close>

lemma branch_fork_eq:
  assumes "cur < length bs"
  shows "branch_fork bs cur sp = Some (length bs, Suc (length bs), Suc (Suc (length bs)),
    bs[cur := linked (Suc (Suc (length bs))) (linked (Suc (length bs)) ((spanned sp (bs ! cur))\<lparr>bb_terminator := TBranch\<rparr>))]
    @ [fresh_block (length bs) (block_label ''join@'' sp) (Some SbBranchJoin),
       fresh_block (Suc (length bs)) (block_label ''then@'' sp) (Some SbBranchThen),
       fresh_block (Suc (Suc (length bs))) (block_label ''else@'' sp) (Some SbBranchElse)])"
  using assms by (simp add: branch_fork_def blk list_update_append nth_append Let_def)

lemma loop_fork_eq:
  assumes "cur < length bs"
  shows "loop_fork bs cur sp = Some (length bs, Suc (length bs), Suc (Suc (length bs)),
    bs[cur := spanned sp (bs ! cur)]
    @ [fresh_block (length bs) (block_label ''loop-header@'' sp) (Some SbLoopHeader),
       fresh_block (Suc (length bs)) (block_label ''loop-body@'' sp) (Some SbLoopBody),
       fresh_block (Suc (Suc (length bs))) (block_label ''loop-after@'' sp) (Some SbLoopAfter)])"
  using assms by (simp add: loop_fork_def blk list_update_append nth_append Let_def)

definition anchor_block :: "nat \<Rightarrow> span \<Rightarrow> bool \<Rightarrow> basic_block" where
  "anchor_block i sp catches =
     (let b = linked (Suc i) (spanned sp (fresh_block i (block_label ''try_fork@'' sp) (Some SbTryFork)))
      in if catches then (linked (Suc (Suc i)) b)\<lparr>bb_terminator := TTryFork\<rparr> else b)"

lemma try_fork_eq:
  assumes "cur < length bs"
  shows "try_fork bs cur sp catches = Some (Suc (length bs), if catches then Some (Suc (Suc (length bs))) else None,
    bs[cur := linked (length bs) (spanned sp (bs ! cur))]
    @ [anchor_block (length bs) sp catches,
       fresh_block (Suc (length bs)) (block_label ''try@'' sp) (Some SbTryBody)]
    @ (if catches then [fresh_block (Suc (Suc (length bs))) (block_label ''catch@'' sp) (Some SbCatch)] else []))"
  using assms by (simp add: try_fork_def blk list_update_append nth_append Let_def anchor_block_def)

lemma abrupt_here_eq:
  assumes "cur < length bs"
  shows "abrupt_here bs cur e = Some (bs[cur := (spanned (event_span e) (bs ! cur))
    \<lparr>bb_terminator := abrupt_terminator e, bb_events := bb_events (bs ! cur) @ [e]\<rparr>])"
  using assms by (simp add: abrupt_here_def blk)

lemma dead_block_eq:
  "dead_block bs = Some (length bs, bs @ [(fresh_block (length bs) ''unreachable'' (Some SbUnreachable))
     \<lparr>bb_terminator := TUnreachable\<rparr>])"
  by (simp add: dead_block_def blk)

lemma copy_finally_eq:
  assumes "cur < length bs"
  shows "copy_finally bs cur sp = Some (length bs, bs[cur := linked (length bs) (bs ! cur)]
    @ [spanned sp (fresh_block (length bs) (block_label ''finally@'' sp) (Some SbFinally))])"
  using assms by (simp add: copy_finally_def blk list_update_append nth_append Let_def)

lemma loop_wire_eq:
  assumes "cur < length bs" "ct < length bs" "cur \<noteq> ct"
  shows "loop_wire bs cur k h b a ct us sp =
    (let bs1 = bs[cur := linked (if k = LkDoWhile then b else h) (bs ! cur),
                  ct := (let c = linked b ((bs ! ct)\<lparr>bb_terminator := TLoopHeader\<rparr>) in if k = LkLoop then c else linked a c)]
     in Some (if us = [] then (h, bs1)
              else (length bs, bs1 @ [fresh_block (length bs) (block_label ''loop-update@'' sp) (Some SbLoopUpdate)])))"
  using assms by (auto simp: loop_wire_def blk Let_def list_update_swap nth_list_update)

section \<open>What a walk keeps\<close>

definition ctx_ok :: "nat \<Rightarrow> loop_targets list \<Rightarrow> nat \<Rightarrow> bool" where
  "ctx_ok exit lts n \<longleftrightarrow> exit < n \<and> (\<forall>l \<in> set lts. lt_break_to l < n \<and> lt_continue_to l < n)"

lemma ctx_ok_mono: "ctx_ok exit lts n \<Longrightarrow> n \<le> m \<Longrightarrow> ctx_ok exit lts m"
  by (auto simp: ctx_ok_def)

lemma rev_nth_in: "i < length xs \<Longrightarrow> rev xs ! i \<in> set xs"
  by (metis length_rev nth_mem set_rev)

lemma selected_loop_in: "selected_loop t lts = Some l \<Longrightarrow> l \<in> set lts"
  by (cases "(t, lts)" rule: selected_loop.cases)
    (auto simp: vec_get_def find_Some_iff rev_nth_in split: if_splits)

lemma control_transfer_target_in: "ctx_ok exit lts n \<Longrightarrow> fst (control_transfer_target e lts exit) < n"
  by (cases e) (auto simp: ctx_ok_def dest: selected_loop_in split: option.split)

definition frame_ok :: "nat \<Rightarrow> blocks \<Rightarrow> nat \<Rightarrow> blocks \<Rightarrow> bool" where
  "frame_ok cur bs tail bs' \<longleftrightarrow> keeps cur bs bs' \<and> tail < length bs' \<and> open_block (bs' ! tail)
     \<and> (tail = cur \<or> length bs \<le> tail)"

definition walk_frame :: "flow_event list \<Rightarrow> nat \<Rightarrow> loop_targets list \<Rightarrow> finally_frame list \<Rightarrow> bool" where
  "walk_frame es exit lts pf \<longleftrightarrow> (\<forall>cur bs. cur < length bs \<longrightarrow> open_block (bs ! cur) \<longrightarrow> ctx_ok exit lts (length bs) \<longrightarrow>
     (\<exists>tail bs'. walk_with_finally es cur exit bs lts pf = Some (tail, bs') \<and> frame_ok cur bs tail bs'))"

definition event_frame :: "flow_event \<Rightarrow> nat \<Rightarrow> loop_targets list \<Rightarrow> finally_frame list \<Rightarrow> bool" where
  "event_frame e exit lts pf \<longleftrightarrow> (\<forall>cur bs. cur < length bs \<longrightarrow> open_block (bs ! cur) \<longrightarrow> ctx_ok exit lts (length bs) \<longrightarrow>
     (\<exists>tail bs'. walk_event e cur exit bs lts pf = Some (tail, bs') \<and> frame_ok cur bs tail bs'))"

definition append_frame :: "nat \<Rightarrow> nat \<Rightarrow> loop_targets list \<Rightarrow> finally_frame list \<Rightarrow> bool" where
  "append_frame n exit lts pf \<longleftrightarrow> (\<forall>cur target bs retained. cur < length bs \<longrightarrow> target < length bs \<longrightarrow>
     ctx_ok exit lts (length bs) \<longrightarrow> n \<le> length pf \<longrightarrow>
     (\<exists>bs'. append_finally_path n cur target exit bs lts pf retained = Some bs' \<and> keeps cur bs bs'
        \<and> bb_events (bs' ! cur) = bb_events (bs ! cur) \<and> bb_terminator (bs' ! cur) = bb_terminator (bs ! cur)))"

lemma walk_frameE:
  assumes "walk_frame es exit lts pf" "cur < length bs" "open_block (bs ! cur)" "ctx_ok exit lts (length bs)"
  obtains tail bs' where "walk_with_finally es cur exit bs lts pf = Some (tail, bs')"
    "keeps cur bs bs'" "tail < length bs'" "open_block (bs' ! tail)" "tail = cur \<or> length bs \<le> tail"
    "length bs \<le> length bs'" "ctx_ok exit lts (length bs')"
  using assms ctx_ok_mono [OF assms(4)] unfolding walk_frame_def frame_ok_def by (metis keeps_length)

lemma keeps_open: "keeps c bs bs' \<Longrightarrow> i < length bs \<Longrightarrow> i \<noteq> c \<Longrightarrow> open_block (bs ! i) \<Longrightarrow> open_block (bs' ! i)"
  by (simp add: keeps_other)

lemma keeps_snoc [simp]: "length bs \<le> c \<Longrightarrow> keeps c bs bs' \<longleftrightarrow> length bs \<le> length bs' \<and>
    (\<forall>i < length bs. bs' ! i = bs ! i) \<and> (wf_blocks bs \<longrightarrow> wf_blocks bs')"
  by (auto simp: keeps_def)


lemma frame_okD:
  assumes "frame_ok cur bs tail bs'"
  shows "keeps cur bs bs'" "tail < length bs'" "open_block (bs' ! tail)" "tail = cur \<or> length bs \<le> tail"
    "length bs \<le> length bs'"
  using assms by (auto simp: frame_ok_def keeps_def)

lemma walk_framed:
  assumes "walk_frame es exit lts pf" "cur < length bs" "open_block (bs ! cur)" "ctx_ok exit lts (length bs)"
  obtains tail bs' where "walk_with_finally es cur exit bs lts pf = Some (tail, bs')" "frame_ok cur bs tail bs'"
    "ctx_ok exit lts (length bs')" "grows bs bs'"
  using assms ctx_ok_mono [OF assms(4)] unfolding walk_frame_def
  by (metis frame_okD(1,5) grows_keeps)

lemma branch_fork_layout:
  assumes "cur < length bs"
  defines "n \<equiv> length bs"
  obtains bs1 where "branch_fork bs cur sp = Some (n, Suc n, Suc (Suc n), bs1)"
    "length bs1 = n + 3" "bs1 ! n = fresh_block n (block_label ''join@'' sp) (Some SbBranchJoin)"
    "open_block (bs1 ! Suc n)" "elen bs1 (Suc n) = 0" "open_block (bs1 ! Suc (Suc n))" "elen bs1 (Suc (Suc n)) = 0"
    "edge bs1 cur (Suc n)" "edge bs1 cur (Suc (Suc n))" "elen bs1 cur = elen bs cur" "keeps cur bs bs1"
proof -
  define b where "b = linked (Suc (Suc n)) (linked (Suc n) ((spanned sp (bs ! cur))\<lparr>bb_terminator := TBranch\<rparr>))"
  define fs where "fs = [fresh_block n (block_label ''join@'' sp) (Some SbBranchJoin),
       fresh_block (Suc n) (block_label ''then@'' sp) (Some SbBranchThen),
       fresh_block (Suc (Suc n)) (block_label ''else@'' sp) (Some SbBranchElse)]"
  define bs1 where "bs1 = bs[cur := b] @ fs"
  have "keeps cur bs bs1" unfolding bs1_def
    by (rule keeps_extend) (auto simp: b_def fs_def n_def less_Suc_eq numeral_3_eq_3 simp del: of_nat_Suc of_nat_add)
  moreover have "branch_fork bs cur sp = Some (n, Suc n, Suc (Suc n), bs1)"
    using assms(1) by (simp add: branch_fork_eq bs1_def b_def fs_def n_def)
  moreover have "bs1 ! cur = b" "bs1 ! n = fs ! 0" "bs1 ! Suc n = fs ! 1" "bs1 ! Suc (Suc n) = fs ! 2" "length bs1 = n + 3"
    using assms(1) by (simp_all add: bs1_def nth_append n_def fs_def)
  ultimately show thesis
    using assms(1) by (intro that) (simp_all add: fs_def elen_def edge_def b_def n_def)
qed

text \<open>The layout of a branch at block \<open>cur\<close>: the blocks made, the two walks, the edges.\<close>

lemma walk_Branch:
  assumes "walk_frame a exit lts pf" "walk_frame b exit lts pf"
    and pre: "cur < length bs" "open_block (bs ! cur)" "ctx_ok exit lts (length bs)"
  defines "n \<equiv> length bs"
  obtains bs1 tt bs2 et bs3 bs' where
    "walk_event (Branch sp c a b) cur exit bs lts pf = Some (n, bs')"
    "walk_with_finally a (Suc n) exit bs1 lts pf = Some (tt, bs2)"
    "walk_with_finally b (Suc (Suc n)) exit bs2 lts pf = Some (et, bs3)"
    "frame_ok cur bs n bs'" "grows bs1 bs'" "grows bs2 bs'" "grows bs3 bs'"
    "edge bs' cur (Suc n)" "edge bs' cur (Suc (Suc n))" "edge bs' tt n" "edge bs' et n"
    "elen bs' cur = elen bs cur" "elen bs1 (Suc n) = 0" "elen bs2 (Suc (Suc n)) = 0" "elen bs' n = 0"
    "elen bs' tt = elen bs2 tt" "elen bs' et = elen bs3 et"
    "length bs1 = n + 3" "open_block (bs1 ! Suc n)" "open_block (bs2 ! Suc (Suc n))"
    "ctx_ok exit lts (length bs1)" "ctx_ok exit lts (length bs2)"
proof -
  obtain bs1 where f: "branch_fork bs cur sp = Some (n, Suc n, Suc (Suc n), bs1)"
      and bs1: "length bs1 = n + 3" "bs1 ! n = fresh_block n (block_label ''join@'' sp) (Some SbBranchJoin)"
        "open_block (bs1 ! Suc n)" "elen bs1 (Suc n) = 0" "open_block (bs1 ! Suc (Suc n))" "elen bs1 (Suc (Suc n)) = 0"
        "edge bs1 cur (Suc n)" "edge bs1 cur (Suc (Suc n))" "elen bs1 cur = elen bs cur"
      and k1: "keeps cur bs bs1"
    using branch_fork_layout [OF pre(1), of sp] unfolding n_def .
  have ctx1: "ctx_ok exit lts (length bs1)" using pre(3) bs1(1) by (simp add: n_def ctx_ok_mono)
  have "Suc n < length bs1" using bs1(1) by simp
  from walk_framed [OF assms(1) this bs1(3) ctx1] obtain tt bs2
    where w2: "walk_with_finally a (Suc n) exit bs1 lts pf = Some (tt, bs2)" "frame_ok (Suc n) bs1 tt bs2"
      "ctx_ok exit lts (length bs2)" "grows bs1 bs2" .
  note k2 = frame_okD [OF w2(2)]
  have e2: "bs2 ! Suc (Suc n) = bs1 ! Suc (Suc n)" "bs2 ! n = bs1 ! n"
    using keeps_other [OF k2(1)] bs1(1) by simp_all
  then have o2: "open_block (bs2 ! Suc (Suc n))" "Suc (Suc n) < length bs2"
    using bs1(1,5) k2(5) by simp_all
  from walk_framed [OF assms(2) o2(2,1) w2(3)] obtain et bs3
    where w3: "walk_with_finally b (Suc (Suc n)) exit bs2 lts pf = Some (et, bs3)" "frame_ok (Suc (Suc n)) bs2 et bs3"
      "ctx_ok exit lts (length bs3)" "grows bs2 bs3" .
  note k3 = frame_okD [OF w3(2)]
  have ne: "tt \<noteq> et" "tt < length bs3" "n < length bs3" "tt \<noteq> n" "et \<noteq> n" "n \<noteq> cur"
    using k2(2,4,5) k3(2,4,5) bs1(1) pre(1) by (auto simp: n_def)
  have tt3: "bs3 ! tt = bs2 ! tt" using keeps_other [OF k3(1) k2(2)] k2(2,4) bs1(1) by auto
  define bs4 where "bs4 = bs3[tt := linked n (bs3 ! tt)]"
  define bs' where "bs' = bs4[et := linked n (bs4 ! et)]"
  have g4: "grows bs3 bs4" unfolding bs4_def
    using tt3 k2(3) by (intro grows_update grows_block_linked) simp
  have et4: "bs4 ! et = bs3 ! et" using ne by (simp add: bs4_def)
  then have g': "grows bs4 bs'" unfolding bs'_def
    using k3(3) by (intro grows_update grows_block_linked) simp
  from g4 g' have g3: "grows bs3 bs'" by (rule grows_trans)
  with w3(4) have g2: "grows bs2 bs'" by (rule grows_trans)
  with w2(4) have g1: "grows bs1 bs'" by (rule grows_trans)
  have ev: "walk_event (Branch sp c a b) cur exit bs lts pf = Some (n, bs')"
    using ne k3(2) et4 by (simp add: walk_event.simps is_abrupt_def f w2(1) w3(1) link_in bs4_def bs'_def)
  have edges: "edge bs' tt n" "edge bs' et n"
    using ne k3(2) by (auto simp: bs4_def bs'_def edge_def)
  have "keeps cur bs bs4" unfolding bs4_def
    using k2(4) bs1(1) ne(3) pre(1)
    by (intro keeps_trans [OF keeps_trans [OF keeps_trans [OF k1 k2(1)] k3(1)] keeps_link]) (auto simp: n_def)
  then have "keeps cur bs bs'" unfolding bs'_def
    using k3(4) k2(5) bs1(1) ne(3) pre(1)
    by (intro keeps_trans [OF _ keeps_link]) (auto simp: n_def bs4_def)
  moreover have n': "bs' ! n = bs1 ! n"
    using ne e2(2) keeps_other [OF k3(1), of n] k2(5) bs1(1) by (simp add: bs4_def bs'_def)
  ultimately have "frame_ok cur bs n bs'"
    using ne(3) bs1(2) by (simp add: frame_ok_def bs4_def bs'_def n_def)
  moreover have "elen bs' tt = elen bs2 tt" "elen bs' et = elen bs3 et"
    using ne tt3 et4 k3(2) by (simp_all add: elen_def bs4_def bs'_def)
  ultimately show thesis
    using that [OF ev w2(1) w3(1) _ g1 g2 g3 edge_grows [OF bs1(7) g1] edge_grows [OF bs1(8) g1] edges]
      elen_edge [OF g1 bs1(7)] bs1 o2(1) e2(1) n' ctx1 w2(3) by (simp add: elen_def)
qed

lemma try_fork_layout:
  assumes "cur < length bs" "open_block (bs ! cur)"
  defines "n \<equiv> length bs"
  obtains bs1 where "try_fork bs cur sp catches = Some (Suc n, if catches then Some (Suc (Suc n)) else None, bs1)"
    "length bs1 = (if catches then n + 3 else n + 2)" "open_block (bs1 ! Suc n)" "elen bs1 (Suc n) = 0"
    "catches \<longrightarrow> open_block (bs1 ! Suc (Suc n))" "catches \<longrightarrow> elen bs1 (Suc (Suc n)) = 0"
    "edge bs1 cur n" "edge bs1 n (Suc n)" "catches \<longrightarrow> edge bs1 n (Suc (Suc n))"
    "elen bs1 cur = elen bs cur" "elen bs1 n = 0" "keeps cur bs bs1"
proof -
  define b where "b = linked n (spanned sp (bs ! cur))"
  define fs where "fs = [anchor_block n sp catches, fresh_block (Suc n) (block_label ''try@'' sp) (Some SbTryBody)]
    @ (if catches then [fresh_block (Suc (Suc n)) (block_label ''catch@'' sp) (Some SbCatch)] else [])"
  define bs1 where "bs1 = bs[cur := b] @ fs"
  have anchor: "bb_id (anchor_block n sp x) = of_nat n" "bb_events (anchor_block n sp x) = []"
      "set (bb_successors (anchor_block n sp x)) = insert (of_nat (Suc n)) (if x then {of_nat (Suc (Suc n))} else {})" for x
    by (auto simp: anchor_block_def Let_def simp del: of_nat_Suc)
  have "keeps cur bs bs1" unfolding bs1_def
    by (rule keeps_extend)
      (auto simp: b_def fs_def n_def [symmetric] anchor less_Suc_eq numeral_3_eq_3 simp del: of_nat_Suc of_nat_add)
  moreover have "try_fork bs cur sp catches = Some (Suc n, if catches then Some (Suc (Suc n)) else None, bs1)"
    using assms(1) by (simp add: try_fork_eq bs1_def b_def fs_def n_def)
  moreover have "bs1 ! cur = b" "bs1 ! n = fs ! 0" "bs1 ! Suc n = fs ! 1" "bs1 ! Suc (Suc n) = fs ! 2"
      "length bs1 = (if catches then n + 3 else n + 2)"
    using assms(1) by (simp_all add: bs1_def nth_append n_def fs_def)
  ultimately show thesis
    using assms(1) by (intro that) (simp_all add: fs_def elen_def edge_def b_def n_def [symmetric] anchor del: of_nat_Suc)
qed

text \<open>Two tails linked to a fresh block.\<close>

lemma link_tails:
  assumes "i < length bs" "open_block (bs ! i)"
    "\<forall>k. j = Some k \<longrightarrow> k < length bs \<and> open_block (bs ! k) \<and> k \<noteq> i"
  defines "m \<equiv> length bs"
  obtains bs1 bs2 where "link (bs @ [fresh_block m l kd]) i m = Some bs1"
    "(case j of Some k \<Rightarrow> link bs1 k m | None \<Rightarrow> Some bs1) = Some bs2" "grows bs bs2" "edge bs2 i m"
    "\<forall>k. j = Some k \<longrightarrow> edge bs2 k m" "elen bs2 i = elen bs i" "\<forall>k. j = Some k \<longrightarrow> elen bs2 k = elen bs k"
    "bs2 ! m = fresh_block m l kd" "length bs2 = Suc m"
    "\<forall>c b0. keeps c b0 bs \<and> (i = c \<or> length b0 \<le> i) \<and> (\<forall>k. j = Some k \<longrightarrow> k = c \<or> length b0 \<le> k) \<longrightarrow> keeps c b0 bs2"
proof -
  define bs0 where "bs0 = bs @ [fresh_block m l kd]"
  define bs1 where "bs1 = bs0[i := linked m (bs0 ! i)]"
  define bs2 where "bs2 = (case j of Some k \<Rightarrow> bs1[k := linked m (bs1 ! k)] | None \<Rightarrow> bs1)"
  have len: "length bs0 = Suc m" "length bs1 = Suc m" "length bs2 = Suc m"
    by (simp_all add: bs0_def bs1_def bs2_def m_def split: option.split)
  have b0: "bs0 ! x = bs ! x" if "x < length bs" for x using that by (simp add: bs0_def nth_append)
  have b1: "bs1 ! x = bs0 ! x" if "x \<noteq> i" for x using that by (simp add: bs1_def)
  have g: "grows bs0 bs1" unfolding bs1_def
    using assms(1,2) b0 by (intro grows_update grows_block_linked) simp
  have g2: "grows bs1 bs2"
    using assms(3) b0 b1 by (auto simp: bs2_def split: option.split intro!: grows_update grows_block_linked)
  have "grows bs bs2" using grows_trans [OF grows_trans [OF _ g] g2] by (simp add: bs0_def)
  moreover have "link (bs @ [fresh_block m l kd]) i m = Some bs1"
    using assms(1) by (simp add: link_in bs1_def bs0_def m_def)
  moreover have "(case j of Some k \<Rightarrow> link bs1 k m | None \<Rightarrow> Some bs1) = Some bs2"
    using assms(3) len by (auto simp: link_in bs2_def m_def split: option.split)
  moreover have e1: "edge bs1 i m" using assms(1) len by (auto simp: edge_def bs1_def m_def)
  have "edge bs2 i m" using e1 g2 by (rule edge_grows)
  moreover have "edge bs2 k m" if "j = Some k" for k
    using that assms(3) [rule_format, OF that] len by (auto simp: edge_def bs2_def m_def)
  moreover have "elen bs2 i = elen bs i" using elen_edge [OF g2 e1] assms(1) b0 by (simp add: elen_def bs1_def bs0_def)
  moreover have "elen bs2 k = elen bs k" if "j = Some k" for k
    using that assms(3) [rule_format, OF that] b0 b1 len by (simp add: elen_def bs2_def m_def)
  moreover have "bs2 ! m = fresh_block m l kd"
    using assms(1,3) by (auto simp: bs2_def bs1_def bs0_def m_def nth_append split: option.split)
  moreover have "keeps c b bs2" if "keeps c b bs" "i = c \<or> length b \<le> i" "\<And>k. j = Some k \<Longrightarrow> k = c \<or> length b \<le> k" for c b
  proof -
    have "keeps c b bs0" unfolding bs0_def m_def using keeps_trans [OF that(1) keeps_fresh, of c] by simp
    then have "keeps c b bs1" unfolding bs1_def using that(2) len by (intro keeps_trans [OF _ keeps_link]) auto
    then show ?thesis unfolding bs2_def using that(3) len by (auto split: option.split intro!: keeps_trans [OF _ keeps_link])
  qed
  ultimately show thesis using len by (intro that [of bs1 bs2]) simp_all
qed

text \<open>The protected body and, if there is one, the handler, walked one after the other.\<close>

lemma walk_Try_arms:
  assumes "walk_frame b exit lts inner" "walk_frame c exit lts inner"
    and bs1: "length bs1 = (if catches then n + 3 else n + 2)" "open_block (bs1 ! Suc n)"
      "catches \<longrightarrow> open_block (bs1 ! Suc (Suc n))" "catches \<longrightarrow> elen bs1 (Suc (Suc n)) = 0"
    and ctx: "ctx_ok exit lts (length bs1)"
  obtains tt bs2 ct bs3 where "walk_with_finally b (Suc n) exit bs1 lts inner = Some (tt, bs2)"
    "(case (if catches then Some (Suc (Suc n)) else None) of None \<Rightarrow> Some (None, bs2)
        | Some i \<Rightarrow> do { (tail, bs) \<leftarrow> walk_with_finally c i exit bs2 lts inner; Some (Some tail, bs) }) = Some (ct, bs3)"
    "frame_ok (Suc n) bs1 tt bs2" "grows bs1 bs2" "grows bs2 bs3" "ctx_ok exit lts (length bs2)" "ctx_ok exit lts (length bs3)"
    "ct = None \<longleftrightarrow> \<not> catches" "bs3 ! tt = bs2 ! tt" "tt < length bs3"
    "\<forall>i. ct = Some i \<longrightarrow> walk_with_finally c (Suc (Suc n)) exit bs2 lts inner = Some (i, bs3)
       \<and> i < length bs3 \<and> open_block (bs3 ! i) \<and> i \<noteq> tt \<and> (i = Suc (Suc n) \<or> length bs1 \<le> i) \<and> elen bs2 (Suc (Suc n)) = 0
       \<and> open_block (bs2 ! Suc (Suc n)) \<and> Suc (Suc n) < length bs2"
    "\<forall>c0 b0. keeps c0 b0 bs1 \<and> length b0 \<le> n \<longrightarrow> keeps c0 b0 bs3"
proof -
  have "Suc n < length bs1" using bs1(1) by simp
  from walk_framed [OF assms(1) this bs1(2) ctx] obtain tt bs2
    where w2: "walk_with_finally b (Suc n) exit bs1 lts inner = Some (tt, bs2)" "frame_ok (Suc n) bs1 tt bs2"
      "ctx_ok exit lts (length bs2)" "grows bs1 bs2" .
  note k2 = frame_okD [OF w2(2)]
  have kp2: "keeps c0 b0 bs2" if "keeps c0 b0 bs1" "length b0 \<le> n" for c0 b0
    using keeps_trans [OF that(1) k2(1)] that(2) by simp
  show thesis
  proof (cases catches)
    case False
    then show thesis using that [OF w2(1) _ w2(2,4) grows_refl w2(3,3), of None] k2(2) kp2 by simp
  next
    case True
    then have e: "bs2 ! Suc (Suc n) = bs1 ! Suc (Suc n)" "Suc (Suc n) < length bs2"
      using keeps_other [OF k2(1)] bs1(1) k2(5) by simp_all
    then have o2: "open_block (bs2 ! Suc (Suc n))" "elen bs2 (Suc (Suc n)) = 0" 
      using True bs1(3,4) by (simp_all add: elen_def)
    from walk_framed [OF assms(2) e(2) o2(1) w2(3)] obtain ct bs3
      where w3: "walk_with_finally c (Suc (Suc n)) exit bs2 lts inner = Some (ct, bs3)"
        "frame_ok (Suc (Suc n)) bs2 ct bs3" "ctx_ok exit lts (length bs3)" "grows bs2 bs3" .
    note k3 = frame_okD [OF w3(2)]
    have ne: "ct \<noteq> tt" "tt \<noteq> Suc (Suc n)" using k2(2,4,5) k3(4) bs1(1) True by auto
    then have "bs3 ! tt = bs2 ! tt" using keeps_other [OF k3(1) k2(2)] by simp
    moreover have "keeps c0 b0 bs3" if "keeps c0 b0 bs1" "length b0 \<le> n" for c0 b0
      using keeps_trans [OF kp2 [OF that] k3(1)] that(2) by simp
    ultimately show thesis
      using True ne e o2 k2(2,5) k3 by (intro that [OF w2(1) _ w2(2,4) w3(4) w2(3) w3(3), of "Some ct"]) (auto simp: w3(1))
  qed
qed

lemma walk_Try:
  assumes frames: "walk_frame b exit lts (pf @ [\<lparr>ff_span = sp, ff_events = f\<rparr>])"
      "walk_frame c exit lts (pf @ [\<lparr>ff_span = sp, ff_events = f\<rparr>])" "walk_frame f exit lts pf"
    and pre: "cur < length bs" "open_block (bs ! cur)" "ctx_ok exit lts (length bs)"
  defines "n \<equiv> length bs" and "inner \<equiv> pf @ [\<lparr>ff_span = sp, ff_events = f\<rparr>]"
  obtains bs1 tt bs2 ct bs3 bs5 tail bs' where
    "walk_event (Try sp b c f p ty arms) cur exit bs lts pf = Some (tail, bs')"
    "walk_with_finally b (Suc n) exit bs1 lts inner = Some (tt, bs2)"
    "ct = None \<longleftrightarrow> \<not> has_catch c p ty arms"
    "\<forall>i. ct = Some i \<longrightarrow> walk_with_finally c (Suc (Suc n)) exit bs2 lts inner = Some (i, bs3) \<and> elen bs2 (Suc (Suc n)) = 0
       \<and> edge bs' n (Suc (Suc n)) \<and> edge bs' i (length bs3) \<and> elen bs' i = elen bs3 i \<and> open_block (bs2 ! Suc (Suc n))
       \<and> Suc (Suc n) < length bs2"
    "walk_with_finally f (length bs3) exit bs5 lts pf = Some (tail, bs')"
    "frame_ok cur bs tail bs'" "grows bs2 bs'" "grows bs3 bs'"
    "edge bs' cur n" "edge bs' n (Suc n)" "edge bs' tt (length bs3)"
    "elen bs' cur = elen bs cur" "elen bs' n = 0" "elen bs1 (Suc n) = 0" "elen bs5 (length bs3) = 0" "elen bs' tt = elen bs2 tt"
    "open_block (bs1 ! Suc n)" "Suc n < length bs1" "open_block (bs5 ! length bs3)" "length bs3 < length bs5"
    "ctx_ok exit lts (length bs1)" "ctx_ok exit lts (length bs2)" "ctx_ok exit lts (length bs5)"
proof -
  let ?catches = "has_catch c p ty arms"
  obtain bs1 where fk: "try_fork bs cur sp ?catches = Some (Suc n, if ?catches then Some (Suc (Suc n)) else None, bs1)"
    and bs1: "length bs1 = (if ?catches then n + 3 else n + 2)" "open_block (bs1 ! Suc n)" "elen bs1 (Suc n) = 0"
    "?catches \<longrightarrow> open_block (bs1 ! Suc (Suc n))" "?catches \<longrightarrow> elen bs1 (Suc (Suc n)) = 0"
    "edge bs1 cur n" "edge bs1 n (Suc n)" "?catches \<longrightarrow> edge bs1 n (Suc (Suc n))"
    "elen bs1 cur = elen bs cur" "elen bs1 n = 0" "keeps cur bs bs1"
    using try_fork_layout [OF pre(1,2), of sp ?catches] unfolding n_def .
  have ctx1: "ctx_ok exit lts (length bs1)" using pre(3) bs1(1) by (simp add: n_def ctx_ok_mono)
  obtain tt bs2 ct bs3 where w: "walk_with_finally b (Suc n) exit bs1 lts inner = Some (tt, bs2)"
    "(case (if ?catches then Some (Suc (Suc n)) else None) of None \<Rightarrow> Some (None, bs2)
        | Some i \<Rightarrow> do { (tail, bs) \<leftarrow> walk_with_finally c i exit bs2 lts inner; Some (Some tail, bs) }) = Some (ct, bs3)"
    and k2: "frame_ok (Suc n) bs1 tt bs2" and g12: "grows bs1 bs2" and g23: "grows bs2 bs3"
    and ctx2: "ctx_ok exit lts (length bs2)" and ctx3: "ctx_ok exit lts (length bs3)"
    and ct: "ct = None \<longleftrightarrow> \<not> ?catches" and tt: "bs3 ! tt = bs2 ! tt" "tt < length bs3"
    and cts: "\<forall>i. ct = Some i \<longrightarrow> walk_with_finally c (Suc (Suc n)) exit bs2 lts inner = Some (i, bs3)
       \<and> i < length bs3 \<and> open_block (bs3 ! i) \<and> i \<noteq> tt \<and> (i = Suc (Suc n) \<or> length bs1 \<le> i) \<and> elen bs2 (Suc (Suc n)) = 0
       \<and> open_block (bs2 ! Suc (Suc n)) \<and> Suc (Suc n) < length bs2"
    and kp: "\<forall>c0 b0. keeps c0 b0 bs1 \<and> length b0 \<le> n \<longrightarrow> keeps c0 b0 bs3"
    using walk_Try_arms [OF frames(1,2) [folded inner_def] bs1(1,2,4,5) ctx1] .
  define m where "m = length bs3"
  have ott: "open_block (bs3 ! tt)" "tt = Suc n \<or> length bs1 \<le> tt" using frame_okD [OF k2] tt by simp_all
  obtain bs4 bs5 where l: "link (bs3 @ [fresh_block m (block_label ''finally@'' sp) (Some SbFinally)]) tt m = Some bs4"
    "(case ct of Some k \<Rightarrow> link bs4 k m | None \<Rightarrow> Some bs4) = Some bs5" and g35: "grows bs3 bs5" and ett: "edge bs5 tt m"
    and ect: "\<forall>k. ct = Some k \<longrightarrow> edge bs5 k m" and ltt: "elen bs5 tt = elen bs3 tt"
    and lct: "\<forall>k. ct = Some k \<longrightarrow> elen bs5 k = elen bs3 k" and m5: "bs5 ! m = fresh_block m (block_label ''finally@'' sp) (Some SbFinally)"
    "length bs5 = Suc m"
    and kp5: "\<forall>c b0. keeps c b0 bs3 \<and> (tt = c \<or> length b0 \<le> tt) \<and> (\<forall>k. ct = Some k \<longrightarrow> k = c \<or> length b0 \<le> k) \<longrightarrow> keeps c b0 bs5"
    using link_tails [OF tt(2) ott(1), of ct "block_label ''finally@'' sp" "Some SbFinally"] cts unfolding m_def by blast
  have "m < length bs5" "open_block (bs5 ! m)" "elen bs5 m = 0" using m5 by (simp_all add: elen_def)
  note m_ok = this
  have ctx5: "ctx_ok exit lts (length bs5)" using ctx_ok_mono [OF ctx3, of "length bs5"] m5(2) by (simp add: m_def)
  from walk_framed [OF frames(3) m_ok(1,2) ctx5] obtain tail bs'
    where w': "walk_with_finally f m exit bs5 lts pf = Some (tail, bs')" "frame_ok m bs5 tail bs'"
      "ctx_ok exit lts (length bs')" "grows bs5 bs'" .
  note k' = frame_okD [OF w'(2)]
  have ev: "walk_event (Try sp b c f p ty arms) cur exit bs lts pf = Some (tail, bs')"
  proof (cases ct)
    case None
    with ct w(2) fk have "\<not> ?catches" "bs2 = bs3" "try_fork bs cur sp False = Some (Suc n, None, bs1)" by auto
    with None w(1) l w'(1) show ?thesis
      by (simp add: walk_event.simps is_abrupt_def inner_def new_block_fresh m_def Let_def)
  next
    case (Some i)
    with ct cts fk have "?catches" "walk_with_finally c (Suc (Suc n)) exit bs2 lts inner = Some (i, bs3)"
      "try_fork bs cur sp True = Some (Suc n, Some (Suc (Suc n)), bs1)" by auto
    with Some w(1) l w'(1) show ?thesis
      by (simp add: walk_event.simps is_abrupt_def inner_def new_block_fresh m_def Let_def)
  qed
  have g3: "grows bs3 bs'" using g35 w'(4) by (rule grows_trans)
  have g2: "grows bs2 bs'" using g23 g3 by (rule grows_trans)
  have g1: "grows bs1 bs'" using g12 g2 by (rule grows_trans)
  have n_le: "n + 2 \<le> length bs1" using bs1(1) by simp
  have "length bs1 \<le> length bs3" using grows_length [OF g12] grows_length [OF g23] by simp
  then have m_ge: "n + 2 \<le> m" using n_le by (simp add: m_def)
  have "keeps cur bs bs3" using kp bs1(11) by (simp add: n_def)
  moreover have "tt = cur \<or> length bs \<le> tt" using ott(2) n_le by (auto simp: n_def)
  moreover have "\<forall>k. ct = Some k \<longrightarrow> k = cur \<or> length bs \<le> k" using cts n_le by (auto simp: n_def)
  ultimately have "keeps cur bs bs5" using kp5 by blast
  then have "keeps cur bs bs'" by (rule keeps_trans [OF _ k'(1)]) (use m_ge in \<open>simp add: n_def\<close>)
  moreover have "length bs \<le> tail" using k'(4) m5(2) m_ge by (auto simp: n_def)
  ultimately have fr: "frame_ok cur bs tail bs'" using k'(2,3) by (simp add: frame_ok_def)
  have cat: "\<forall>i. ct = Some i \<longrightarrow> walk_with_finally c (Suc (Suc n)) exit bs2 lts inner = Some (i, bs3) \<and> elen bs2 (Suc (Suc n)) = 0
       \<and> edge bs' n (Suc (Suc n)) \<and> edge bs' i (length bs3) \<and> elen bs' i = elen bs3 i \<and> open_block (bs2 ! Suc (Suc n))
       \<and> Suc (Suc n) < length bs2"
  proof (intro allI impI)
    fix i
    assume i: "ct = Some i"
    then have "edge bs1 n (Suc (Suc n))" "edge bs5 i m" "elen bs5 i = elen bs3 i"
      using ct bs1(8) ect lct by simp_all
    then have "edge bs' n (Suc (Suc n))" "edge bs' i m" "elen bs' i = elen bs3 i"
      using edge_grows [OF _ g1] edge_grows [OF _ w'(4)] elen_edge [OF w'(4)] by simp_all
    then show "walk_with_finally c (Suc (Suc n)) exit bs2 lts inner = Some (i, bs3) \<and> elen bs2 (Suc (Suc n)) = 0
       \<and> edge bs' n (Suc (Suc n)) \<and> edge bs' i (length bs3) \<and> elen bs' i = elen bs3 i \<and> open_block (bs2 ! Suc (Suc n))
       \<and> Suc (Suc n) < length bs2"
      using cts i by (simp add: m_def)
  qed
  have "elen bs' tt = elen bs2 tt" using elen_edge [OF w'(4) ett] ltt tt(1) by (simp add: elen_def)
  then show thesis
    using that [OF ev w(1) ct cat, of bs5] w'(1) fr g2 g3 edge_grows [OF bs1(6) g1] edge_grows [OF bs1(7) g1]
      edge_grows [OF ett w'(4)] elen_edge [OF g1 bs1(6)] elen_edge [OF g1 bs1(7)] bs1(2,3,9,10) n_le m_ok ctx1 ctx2 ctx5
    by (simp add: m_def)
qed

lemma loop_fork_layout:
  assumes "cur < length bs" "open_block (bs ! cur)"
  defines "n \<equiv> length bs"
  obtains bs1 where "loop_fork bs cur sp = Some (n, Suc n, Suc (Suc n), bs1)" "length bs1 = n + 3" "keeps cur bs bs1"
    "open_block (bs1 ! n)" "open_block (bs1 ! Suc n)" "open_block (bs1 ! Suc (Suc n))" "open_block (bs1 ! cur)"
    "elen bs1 n = 0" "elen bs1 (Suc n) = 0" "elen bs1 (Suc (Suc n)) = 0" "elen bs1 cur = elen bs cur"
proof -
  define fs where "fs = [fresh_block n (block_label ''loop-header@'' sp) (Some SbLoopHeader),
       fresh_block (Suc n) (block_label ''loop-body@'' sp) (Some SbLoopBody),
       fresh_block (Suc (Suc n)) (block_label ''loop-after@'' sp) (Some SbLoopAfter)]"
  define bs1 where "bs1 = bs[cur := spanned sp (bs ! cur)] @ fs"
  have "keeps cur bs bs1" unfolding bs1_def
    by (rule keeps_extend) (auto simp: fs_def n_def less_Suc_eq numeral_3_eq_3 simp del: of_nat_Suc of_nat_add)
  moreover have "loop_fork bs cur sp = Some (n, Suc n, Suc (Suc n), bs1)"
    using assms(1) by (simp add: loop_fork_eq bs1_def fs_def n_def)
  moreover have "bs1 ! cur = spanned sp (bs ! cur)" "bs1 ! n = fs ! 0" "bs1 ! Suc n = fs ! 1" "bs1 ! Suc (Suc n) = fs ! 2"
      "length bs1 = n + 3"
    using assms(1) by (simp_all add: bs1_def nth_append n_def fs_def)
  ultimately show thesis using assms(2) by (intro that [of bs1]) (simp_all add: fs_def elen_def)
qed

lemma loop_wire_layout:
  assumes "cur < length bs" "ct < length bs" "cur \<noteq> ct" "open_block (bs ! cur)" "open_block (bs ! ct)"
    and "h < length bs" "b < length bs" "a < length bs"
  obtains ue bs1 where "loop_wire bs cur k h b a ct us sp = Some (ue, bs1)" "grows bs bs1" "length bs \<le> length bs1"
    "edge bs1 cur (if k = LkDoWhile then b else h)" "edge bs1 ct b" "k \<noteq> LkLoop \<longrightarrow> edge bs1 ct a"
    "elen bs1 cur = elen bs cur" "elen bs1 ct = elen bs ct" "ue < length bs1"
    "us = [] \<longrightarrow> ue = h" "us \<noteq> [] \<longrightarrow> length bs \<le> ue \<and> open_block (bs1 ! ue) \<and> elen bs1 ue = 0"
    "\<forall>i < length bs. i \<noteq> cur \<and> i \<noteq> ct \<longrightarrow> bs1 ! i = bs ! i"
    "\<forall>b0. keeps cur b0 bs \<and> (ct = cur \<or> length b0 \<le> ct) \<longrightarrow> keeps cur b0 bs1"
proof -
  define bc where "bc = linked (if k = LkDoWhile then b else h) (bs ! cur)"
  define bt where "bt = (let c = linked b ((bs ! ct)\<lparr>bb_terminator := TLoopHeader\<rparr>) in if k = LkLoop then c else linked a c)"
  define bs0 where "bs0 = bs[cur := bc, ct := bt]"
  define ue where "ue = (if us = [] then h else length bs)"
  define bs1 where "bs1 = (if us = [] then bs0
      else bs0 @ [fresh_block (length bs) (block_label ''loop-update@'' sp) (Some SbLoopUpdate)])"
  have bt: "bb_id bt = bb_id (bs ! ct)" "bb_events bt = bb_events (bs ! ct)"
      "set (bb_successors bt) = insert (of_nat b) ((if k = LkLoop then {} else {of_nat a}) \<union> set (bb_successors (bs ! ct)))"
    by (auto simp: bt_def Let_def)
  have len: "length bs0 = length bs" by (simp add: bs0_def)
  have at: "bs1 ! cur = bc" "bs1 ! ct = bt" "\<forall>i < length bs. i \<noteq> cur \<and> i \<noteq> ct \<longrightarrow> bs1 ! i = bs ! i"
    using assms(1-3) by (auto simp: bs1_def bs0_def nth_append)
  have "grows bs bs0" unfolding bs0_def
  proof (rule grows_trans)
    show "grows bs (bs[cur := bc])"
      using assms(4) unfolding bc_def by (intro grows_update grows_block_linked) simp
    show "grows (bs[cur := bc]) (bs[cur := bc, ct := bt])"
      using assms(3,5) bt by (intro grows_update) (auto simp: grows_block_def open_block_def left_block_def)
  qed
  then have "grows bs bs1" by (auto simp: bs1_def intro: grows_trans)
  moreover have "loop_wire bs cur k h b a ct us sp = Some (ue, bs1)"
    using assms(1-3) by (simp add: loop_wire_eq Let_def bs1_def bs0_def bc_def bt_def ue_def)
  moreover have "keeps cur b0 bs1" if "keeps cur b0 bs" "ct = cur \<or> length b0 \<le> ct" for b0
  proof -
    have "keeps cur bs (bs[cur := bc])" unfolding bc_def using assms(6,7) by (intro keeps_link) simp
    with that(1) have "keeps cur b0 (bs[cur := bc])" by (rule keeps_trans) simp
    moreover have "keeps ct (bs[cur := bc]) bs0" unfolding bs0_def
      by (rule keeps_update) (use assms(3,7,8) bt in auto)
    ultimately have "keeps cur b0 bs0" using that(2) by (rule keeps_trans)
    moreover have "keeps cur bs0 bs1" using keeps_fresh [of cur bs0] len by (simp add: bs1_def)
    ultimately show ?thesis by (rule keeps_trans) simp
  qed
  moreover have "edge bs1 cur (if k = LkDoWhile then b else h)" "edge bs1 ct b" "k \<noteq> LkLoop \<longrightarrow> edge bs1 ct a"
    using assms(1,2,6-8) at bt len by (auto simp: edge_def bs1_def bc_def)
  moreover have "elen bs1 cur = elen bs cur" "elen bs1 ct = elen bs ct"
    using at bt by (simp_all add: elen_def bc_def)
  moreover have "ue < length bs1" "us = [] \<longrightarrow> ue = h" "length bs \<le> length bs1"
      "us \<noteq> [] \<longrightarrow> length bs \<le> ue \<and> open_block (bs1 ! ue) \<and> elen bs1 ue = 0"
    using assms(6) len by (auto simp: ue_def bs1_def nth_append elen_def)
  ultimately show thesis using at(3) by (intro that [of ue bs1]) simp_all
qed

lemma link_tail:
  assumes "t < length bs" "\<not> left_block (bs ! t)" "j < length bs"
  obtains bs1 where "link bs t j = Some bs1" "grows bs bs1" "length bs1 = length bs" "edge bs1 t j"
    "elen bs1 t = elen bs t" "\<forall>i. i \<noteq> t \<longrightarrow> bs1 ! i = bs ! i"
    "\<forall>c b0. keeps c b0 bs \<and> (t = c \<or> length b0 \<le> t) \<longrightarrow> keeps c b0 bs1"
proof -
  define bs1 where "bs1 = bs[t := linked j (bs ! t)]"
  have "\<forall>c b0. keeps c b0 bs \<and> (t = c \<or> length b0 \<le> t) \<longrightarrow> keeps c b0 bs1"
    unfolding bs1_def using keeps_trans [OF _ keeps_link [OF assms(3)]] by auto
  moreover have "grows bs bs1" unfolding bs1_def using assms(2) by (intro grows_update grows_block_linked)
  ultimately show thesis
    using assms by (intro that [of bs1]) (simp_all add: bs1_def link_in edge_def elen_def)
qed

lemma walk_Loop:
  assumes fc: "walk_frame c exit lts pf" and fb: "\<And>lt. walk_frame b exit (lts @ [lt]) pf"
    and fu: "\<And>lt. walk_frame us exit (lts @ [lt]) pf"
    and pre: "cur < length bs" "open_block (bs ! cur)" "ctx_ok exit lts (length bs)"
  defines "n \<equiv> length bs"
  obtains bs1 ct bs2 ue bs3 nested bt bs4 bs5 ut bs6 bs' where
    "walk_event (Loop sp k l c us b) cur exit bs lts pf = Some (Suc (Suc n), bs')"
    "walk_with_finally c n exit bs1 lts pf = Some (ct, bs2)"
    "nested = lts @ [\<lparr>lt_label = l, lt_break_to = Suc (Suc n),
        lt_continue_to = (if k = LkDoWhile then n else ue), lt_retained = length pf\<rparr>]"
    "walk_with_finally b (Suc n) exit bs3 nested pf = Some (bt, bs4)"
    "us = [] \<longrightarrow> ue = n"
    "us \<noteq> [] \<longrightarrow> walk_with_finally us ue exit bs5 nested pf = Some (ut, bs6) \<and> elen bs5 ue = 0 \<and> grows bs6 bs'
       \<and> edge bs' ut n \<and> elen bs' ut = elen bs6 ut \<and> open_block (bs5 ! ue) \<and> ue < length bs5 \<and> ctx_ok exit nested (length bs5)"
    "frame_ok cur bs (Suc (Suc n)) bs'" "grows bs2 bs'" "grows bs4 bs'"
    "edge bs' cur (if k = LkDoWhile then Suc n else n)" "edge bs' ct (Suc n)" "k \<noteq> LkLoop \<longrightarrow> edge bs' ct (Suc (Suc n))"
    "edge bs' bt ue" "elen bs' cur = elen bs cur" "elen bs1 n = 0" "elen bs3 (Suc n) = 0" "elen bs' ct = elen bs2 ct"
    "elen bs' bt = elen bs4 bt" "elen bs' (Suc (Suc n)) = 0"
    "open_block (bs1 ! n)" "n < length bs1" "ctx_ok exit lts (length bs1)"
    "open_block (bs3 ! Suc n)" "Suc n < length bs3" "ctx_ok exit nested (length bs3)"
proof -
  obtain bs1 where fk: "loop_fork bs cur sp = Some (n, Suc n, Suc (Suc n), bs1)" and len1: "length bs1 = n + 3"
    and k1: "keeps cur bs bs1"
    and o1: "open_block (bs1 ! n)" "open_block (bs1 ! Suc n)" "open_block (bs1 ! Suc (Suc n))" "open_block (bs1 ! cur)"
    and e1: "elen bs1 n = 0" "elen bs1 (Suc n) = 0" "elen bs1 (Suc (Suc n)) = 0" "elen bs1 cur = elen bs cur"
    using loop_fork_layout [OF pre(1,2), of sp] unfolding n_def .
  have ctx1: "ctx_ok exit lts (length bs1)" using pre(3) len1 by (simp add: n_def ctx_ok_mono)
  have "n < length bs1" using len1 by simp
  from walk_framed [OF fc this o1(1) ctx1] obtain ct bs2
    where w2: "walk_with_finally c n exit bs1 lts pf = Some (ct, bs2)" "frame_ok n bs1 ct bs2"
      "ctx_ok exit lts (length bs2)" "grows bs1 bs2" .
  note k2 = frame_okD [OF w2(2)]
  have cur_n: "cur < n" "cur \<noteq> ct" using pre(1) k2(4) len1 by (auto simp: n_def)
  have at2: "bs2 ! cur = bs1 ! cur" "bs2 ! Suc n = bs1 ! Suc n" "bs2 ! Suc (Suc n) = bs1 ! Suc (Suc n)"
    using keeps_other [OF k2(1)] len1 cur_n by simp_all
  have len2: "n + 3 \<le> length bs2" using k2(5) len1 by simp
  have lt2: "cur < length bs2" "n < length bs2" "Suc n < length bs2" "Suc (Suc n) < length bs2" using len2 cur_n by simp_all
  have o2: "open_block (bs2 ! cur)" using at2 o1 by simp
  obtain ue bs3 where w3: "loop_wire bs2 cur k n (Suc n) (Suc (Suc n)) ct us sp = Some (ue, bs3)" and g23: "grows bs2 bs3"
    and len3: "length bs2 \<le> length bs3"
    and ed3: "edge bs3 cur (if k = LkDoWhile then Suc n else n)" "edge bs3 ct (Suc n)" "k \<noteq> LkLoop \<longrightarrow> edge bs3 ct (Suc (Suc n))"
    and el3: "elen bs3 cur = elen bs2 cur" "elen bs3 ct = elen bs2 ct" and ue: "ue < length bs3"
    "us = [] \<longrightarrow> ue = n" "us \<noteq> [] \<longrightarrow> length bs2 \<le> ue \<and> open_block (bs3 ! ue) \<and> elen bs3 ue = 0"
    and at3: "\<forall>i < length bs2. i \<noteq> cur \<and> i \<noteq> ct \<longrightarrow> bs3 ! i = bs2 ! i"
    and kp3: "\<forall>b0. keeps cur b0 bs2 \<and> (ct = cur \<or> length b0 \<le> ct) \<longrightarrow> keeps cur b0 bs3"
    using loop_wire_layout [OF lt2(1) k2(2) cur_n(2) o2 k2(3) lt2(2-4), of k us sp] .
  have ct_n: "ct = n \<or> n + 3 \<le> ct" using k2(4) len1 by simp
  have kb3: "keeps cur bs bs3"
    using kp3 keeps_trans [OF k1 k2(1)] ct_n by (auto simp: n_def)
  have at3': "bs3 ! Suc n = bs1 ! Suc n" "bs3 ! Suc (Suc n) = bs1 ! Suc (Suc n)" using at3 at2 lt2 cur_n ct_n by auto
  define nested where "nested = lts @ [\<lparr>lt_label = l, lt_break_to = Suc (Suc n),
        lt_continue_to = (if k = LkDoWhile then n else ue), lt_retained = length pf\<rparr>]"
  have ctx3: "ctx_ok exit nested (length bs3)"
    using ctx_ok_mono [OF w2(3) len3] lt2 len3 ue(1) by (auto simp: nested_def ctx_ok_def)
  have s3: "Suc n < length bs3" "open_block (bs3 ! Suc n)" using lt2 len3 at3' o1 by simp_all
  have fn: "walk_frame b exit nested pf" "walk_frame us exit nested pf" using fb fu by (simp_all add: nested_def)
  from walk_framed [OF fn(1) s3 ctx3] obtain bt bs4
    where w4: "walk_with_finally b (Suc n) exit bs3 nested pf = Some (bt, bs4)" "frame_ok (Suc n) bs3 bt bs4"
      "ctx_ok exit nested (length bs4)" "grows bs3 bs4" .
  note k4 = frame_okD [OF w4(2)]
  have kb4: "keeps cur bs bs4" using keeps_trans [OF kb3 k4(1)] by (simp add: n_def)
  have after4: "bs4 ! Suc (Suc n) = bs1 ! Suc (Suc n)" using keeps_other [OF k4(1)] lt2 len3 at3' by simp
  have bt_n: "bt = Suc n \<or> n + 3 \<le> bt" using k4(4) len2 len3 by auto
  have "ue < length bs4" using ue(1) k4(5) by simp
  from link_tail [OF k4(2) open_not_left [OF k4(3)] this] obtain bs5 where l5: "link bs4 bt ue = Some bs5"
    and g45: "grows bs4 bs5" and len5: "length bs5 = length bs4" and ed5: "edge bs5 bt ue" and el5: "elen bs5 bt = elen bs4 bt"
    and at5: "\<forall>i. i \<noteq> bt \<longrightarrow> bs5 ! i = bs4 ! i"
    and kp5: "\<forall>c b0. keeps c b0 bs4 \<and> (bt = c \<or> length b0 \<le> bt) \<longrightarrow> keeps c b0 bs5" .
  have kb5: "keeps cur bs bs5" using kp5 kb4 bt_n by (auto simp: n_def)
  have after5: "bs5 ! Suc (Suc n) = bs1 ! Suc (Suc n)" using at5 bt_n after4 by auto
  obtain ut bs6 bs' where fin: "(if us = [] then Some (Suc (Suc n), bs5) else do {
        (update_tail, bs) \<leftarrow> walk_with_finally us ue exit bs5 nested pf; bs \<leftarrow> link bs update_tail n; Some (Suc (Suc n), bs)
      }) = Some (Suc (Suc n), bs')"
    and up: "us \<noteq> [] \<longrightarrow> walk_with_finally us ue exit bs5 nested pf = Some (ut, bs6) \<and> elen bs5 ue = 0 \<and> grows bs6 bs'
       \<and> edge bs' ut n \<and> elen bs' ut = elen bs6 ut \<and> open_block (bs5 ! ue) \<and> ue < length bs5 \<and> ctx_ok exit nested (length bs5)"
    and g5: "grows bs5 bs'" and kb': "keeps cur bs bs'" and after': "bs' ! Suc (Suc n) = bs1 ! Suc (Suc n)"
  proof (cases "us = []")
    case True
    then show thesis using that [of bs5 0 bs5] kb5 after5 by simp
  next
    case False
    have ne: "ue \<noteq> bt" "ue \<noteq> Suc n" "n + 3 \<le> ue" using k4(4) ue False len2 by auto
    then have u5: "bs5 ! ue = bs3 ! ue" using at5 keeps_other [OF k4(1) ue(1)] by simp
    then have u5o: "ue < length bs5" "open_block (bs5 ! ue)" "elen bs5 ue = 0"
      using ue False len5 k4(5) by (simp_all add: elen_def)
    have ctx5: "ctx_ok exit nested (length bs5)" using w4(3) len5 by simp
    from walk_framed [OF fn(2) u5o(1,2) ctx5] obtain ut bs6
      where w6: "walk_with_finally us ue exit bs5 nested pf = Some (ut, bs6)" "frame_ok ue bs5 ut bs6" "grows bs5 bs6" .
    note k6 = frame_okD [OF w6(2)]
    have ut_n: "n + 3 \<le> ut" using k6(4) ne(3) len5 k4(5) len3 len2 by auto
    have "n < length bs6" using k6(2) ut_n by simp
    from link_tail [OF k6(2) open_not_left [OF k6(3)] this] obtain bs' where l6: "link bs6 ut n = Some bs'"
      and g6: "grows bs6 bs'" "edge bs' ut n" "elen bs' ut = elen bs6 ut" and at6: "\<forall>i. i \<noteq> ut \<longrightarrow> bs' ! i = bs6 ! i"
      and kp6: "\<forall>c b0. keeps c b0 bs6 \<and> (ut = c \<or> length b0 \<le> ut) \<longrightarrow> keeps c b0 bs'" by metis
    have "keeps cur bs bs6" using keeps_trans [OF kb5 k6(1)] ne(3) by (simp add: n_def)
    then have "keeps cur bs bs'" using kp6 ut_n by (simp add: n_def)
    moreover have "bs' ! Suc (Suc n) = bs1 ! Suc (Suc n)"
      using at6 ut_n keeps_other [OF k6(1), of "Suc (Suc n)"] ne(3) len5 k4(5) len3 lt2 after5 by simp
    ultimately show thesis
      using False w6(1) l6 u5o ctx5 g6 grows_trans [OF w6(3) g6(1)] by (intro that [of bs' ut bs6]) simp_all
  qed
  have ev: "walk_event (Loop sp k l c us b) cur exit bs lts pf = Some (Suc (Suc n), bs')"
    using fin w3 by (cases "us = []")
      (simp_all add: walk_event.simps is_abrupt_def fk w2(1) w4(1) l5 Let_def flip: nested_def split del: if_split)
  have g4: "grows bs4 bs'" using g45 g5 by (rule grows_trans)
  have g3: "grows bs3 bs'" using w4(4) g4 by (rule grows_trans)
  have g2: "grows bs2 bs'" using g23 g3 by (rule grows_trans)
  have fr: "frame_ok cur bs (Suc (Suc n)) bs'"
    using kb' after' o1(3) grows_length [OF g2] lt2 by (simp add: frame_ok_def n_def)
  have "elen bs' cur = elen bs cur" "elen bs' ct = elen bs2 ct" "elen bs' bt = elen bs4 bt" "elen bs' (Suc (Suc n)) = 0"
    using elen_edge [OF g3 ed3(1)] elen_edge [OF g3 ed3(2)] elen_edge [OF g5 ed5] el3 el5 e1 at2 after' by (simp_all add: elen_def)
  moreover have "k \<noteq> LkLoop \<longrightarrow> edge bs' ct (Suc (Suc n))" using ed3(3) edge_grows [OF _ g3] by blast
  ultimately show thesis
    using that [OF ev w2(1) nested_def w4(1) ue(2) up fr g2 g4 edge_grows [OF ed3(1) g3] edge_grows [OF ed3(2) g3]]
      edge_grows [OF ed5 g5] e1(1,2) o1(1) ctx1 s3 ctx3 at3' len1 by (simp add: elen_def)
qed

text \<open>One copy of a pending cleanup region, and the end of the path.\<close>

lemma append_step:
  assumes wf: "walk_frame (ff_events (pf ! (n - 1))) exit lts (take (n - 1) pf)" and af: "append_frame (n - 1) exit lts pf"
    and pre: "cur < length bs" "target < length bs" "ctx_ok exit lts (length bs)" "n \<le> length pf" "retained < n"
  obtains bs1 tail bs2 bs' where
    "append_finally_path n cur target exit bs lts pf retained = Some bs'"
    "walk_with_finally (ff_events (pf ! (n - 1))) (length bs) exit bs1 lts (take (n - 1) pf) = Some (tail, bs2)"
    "append_finally_path (n - 1) tail target exit bs2 lts pf retained = Some bs'"
    "keeps cur bs bs'" "edge bs' cur (length bs)" "bb_events (bs' ! cur) = bb_events (bs ! cur)"
    "bb_terminator (bs' ! cur) = bb_terminator (bs ! cur)"
    "elen bs1 (length bs) = 0" "open_block (bs1 ! length bs)" "length bs < length bs1" "grows bs2 bs'"
    "tail < length bs2" "open_block (bs2 ! tail)" "target < length bs2" "ctx_ok exit lts (length bs1)" "ctx_ok exit lts (length bs2)"
proof -
  define sp where "sp = ff_span (pf ! (n - 1))"
  define m where "m = length bs"
  define fs where "fs = [spanned sp (fresh_block m (block_label ''finally@'' sp) (Some SbFinally))]"
  define bs1 where "bs1 = bs[cur := linked m (bs ! cur)] @ fs"
  have c1: "copy_finally bs cur sp = Some (m, bs1)" using pre(1) by (simp add: copy_finally_eq bs1_def fs_def m_def)
  have k1: "keeps cur bs bs1" unfolding bs1_def
    by (rule keeps_extend) (auto simp: fs_def m_def simp del: of_nat_add)
  have at1: "bs1 ! cur = linked m (bs ! cur)" "bs1 ! m = fs ! 0" "length bs1 = Suc m"
    using pre(1) by (simp_all add: bs1_def nth_append m_def fs_def)
  have o1: "m < length bs1" "open_block (bs1 ! m)" "elen bs1 m = 0" using at1 by (simp_all add: fs_def elen_def)
  have ctx1: "ctx_ok exit lts (length bs1)" using ctx_ok_mono [OF pre(3)] at1 by (simp add: m_def)
  from walk_framed [OF wf o1(1,2) ctx1] obtain tail bs2
    where w2: "walk_with_finally (ff_events (pf ! (n - 1))) m exit bs1 lts (take (n - 1) pf) = Some (tail, bs2)"
      "frame_ok m bs1 tail bs2" "ctx_ok exit lts (length bs2)" "grows bs1 bs2" .
  note k2 = frame_okD [OF w2(2)]
  have tail_m: "m \<le> tail" "cur \<noteq> tail" "cur < m" using k2(4) at1(3) pre(1) by (auto simp: m_def)
  have t2: "target < length bs2" using pre(2) k2(5) at1(3) by (simp add: m_def)
  obtain bs' where a: "append_finally_path (n - 1) tail target exit bs2 lts pf retained = Some bs'" "keeps tail bs2 bs'"
    using af k2(2) t2 w2(3) pre(4) unfolding append_frame_def by (metis diff_le_self le_trans)
  have g': "grows bs2 bs'" using grows_keeps [OF a(2) k2(2,3)] .
  have "vec_get pf (n - 1) = Some (pf ! (n - 1))" using pre(4,5) by simp
  then have ap: "append_finally_path n cur target exit bs lts pf retained = Some bs'"
    using pre(5) c1 w2(1) a(1) by (simp add: append_finally_path.simps [of n] sp_def)
  have cur': "bs' ! cur = bs1 ! cur"
    using keeps_other [OF a(2), of cur] keeps_other [OF k2(1), of cur] tail_m at1(3) k2(5) by simp
  have "keeps cur bs bs2" using keeps_trans [OF k1 k2(1)] by (simp add: m_def)
  then have "keeps cur bs bs'" using keeps_trans [OF _ a(2)] tail_m(1) by (simp add: m_def)
  moreover have "edge bs' cur m"
  proof (rule edge_grows [OF _ g'], rule edge_grows [OF _ w2(4)])
    show "edge bs1 cur m" using at1 tail_m(3) by (simp add: edge_def)
  qed
  ultimately show thesis
    using that [OF ap _ a(1), of bs1] w2 cur' at1(1) o1 g' k2(2,3) t2 ctx1 by (simp add: m_def)
qed

lemma append_end:
  assumes "cur < length bs" "target < length bs" "\<not> retained < n"
  obtains bs' where "append_finally_path n cur target exit bs lts pf retained = Some bs'" "keeps cur bs bs'"
    "edge bs' cur target" "bb_events (bs' ! cur) = bb_events (bs ! cur)" "bb_terminator (bs' ! cur) = bb_terminator (bs ! cur)"
proof -
  define bs' where "bs' = bs[cur := linked target (bs ! cur)]"
  have "append_finally_path n cur target exit bs lts pf retained = Some bs'"
    using assms by (simp add: append_finally_path.simps [of n] link_in bs'_def)
  moreover have "keeps cur bs bs'" unfolding bs'_def by (rule keeps_link [OF assms(2)])
  ultimately show thesis using assms by (intro that [of bs']) (simp_all add: bs'_def edge_def)
qed

lemma append_framed:
  assumes "append_frame n exit lts pf" "cur < length bs" "target < length bs" "ctx_ok exit lts (length bs)" "n \<le> length pf"
  obtains bs' where "append_finally_path n cur target exit bs lts pf retained = Some bs'" "keeps cur bs bs'"
    "bb_events (bs' ! cur) = bb_events (bs ! cur)" "bb_terminator (bs' ! cur) = bb_terminator (bs ! cur)"
  using assms unfolding append_frame_def by metis

lemma append_frame_step:
  assumes "0 < n \<longrightarrow> n \<le> length pf \<longrightarrow> walk_frame (ff_events (pf ! (n - 1))) exit lts (take (n - 1) pf) \<and> append_frame (n - 1) exit lts pf"
  shows "append_frame n exit lts pf"
  unfolding append_frame_def
proof (intro allI impI)
  fix cur target :: nat and bs :: blocks and retained :: nat
  assume pre: "cur < length bs" "target < length bs" "ctx_ok exit lts (length bs)" "n \<le> length pf"
  show "\<exists>bs'. append_finally_path n cur target exit bs lts pf retained = Some bs' \<and> keeps cur bs bs'
        \<and> bb_events (bs' ! cur) = bb_events (bs ! cur) \<and> bb_terminator (bs' ! cur) = bb_terminator (bs ! cur)"
  proof (cases "retained < n")
    case True
    with assms pre(4) have "walk_frame (ff_events (pf ! (n - 1))) exit lts (take (n - 1) pf)" "append_frame (n - 1) exit lts pf"
      by auto
    from append_step [OF this pre True] show ?thesis by metis
  next
    case False
    from append_end [OF pre(1,2) False] show ?thesis by metis
  qed
qed

text \<open>An abrupt transfer: the event, its edge or the copies of the cleanup, and a dead block after it.\<close>

definition abrupt_block :: "basic_block \<Rightarrow> flow_event \<Rightarrow> basic_block" where
  "abrupt_block b e = (spanned (event_span e) b)\<lparr>bb_terminator := abrupt_terminator e, bb_events := bb_events b @ [e]\<rparr>"

lemma walk_abrupt:
  assumes af: "append_frame (length pf) exit lts pf" and e: "is_abrupt e"
    and pre: "cur < length bs" "open_block (bs ! cur)" "ctx_ok exit lts (length bs)"
    and tgt: "control_transfer_target e lts exit = (target, retained)"
  obtains bs1 bs2 dead bs' where
    "walk_event e cur exit bs lts pf = Some (dead, bs')" "frame_ok cur bs dead bs'"
    "bs1 = bs[cur := abrupt_block (bs ! cur) e]" "bs' ! cur = bs2 ! cur" "length bs2 \<le> length bs'"
    "length pf = retained \<longrightarrow> bs2 = (if is_break_or_continue e then bs1[cur := linked target (bs1 ! cur)] else bs1)"
    "length pf \<noteq> retained \<longrightarrow> append_finally_path (length pf) cur target exit bs1 lts pf retained = Some bs2"
    "\<forall>i < length bs2. bs' ! i = bs2 ! i" "length bs \<le> length bs2" "target < length bs"
    "elen bs' cur = Suc (elen bs cur)" "bb_events (bs' ! cur) = bb_events (bs ! cur) @ [e]"
proof -
  define bs1 where "bs1 = bs[cur := abrupt_block (bs ! cur) e]"
  have a1: "abrupt_here bs cur e = Some bs1" using pre(1) by (simp add: abrupt_here_eq bs1_def abrupt_block_def)
  have k1: "keeps cur bs bs1" unfolding bs1_def by (rule keeps_update) (auto simp: abrupt_block_def)
  have t: "target < length bs" using control_transfer_target_in [OF pre(3), of e] tgt by simp
  have b1: "length bs1 = length bs" "bs1 ! cur = abrupt_block (bs ! cur) e" using pre(1) by (simp_all add: bs1_def)
  obtain bs2 where a2: "(if length pf = retained
               then (if is_break_or_continue e then link bs1 cur target else Some bs1)
               else append_finally_path (length pf) cur target exit bs1 lts pf retained) = Some bs2"
    and k2: "keeps cur bs1 bs2" "bb_events (bs2 ! cur) = bb_events (bs1 ! cur)"
  proof (cases "length pf = retained")
    case True
    then show thesis
      using that [of "if is_break_or_continue e then bs1[cur := linked target (bs1 ! cur)] else bs1"]
        pre(1) b1 t keeps_link [of target bs1 cur] by (auto simp: link_in)
  next
    case False
    have "cur < length bs1" "target < length bs1" "ctx_ok exit lts (length bs1)" using pre(1,3) b1 t by simp_all
    from append_framed [OF af this order_refl, of retained] show thesis using that False by auto
  qed
  define d where "d = (fresh_block (length bs2) ''unreachable'' (Some SbUnreachable))\<lparr>bb_terminator := TUnreachable\<rparr>"
  define bs' where "bs' = bs2 @ [d]"
  have len2: "length bs \<le> length bs2" using keeps_length [OF k2(1)] b1 by simp
  have w: "walk_event e cur exit bs lts pf = Some (length bs2, bs')"
    using e tgt a1 a2 by (simp add: walk_event.simps dead_block_eq bs'_def d_def split del: if_split)
  have "keeps cur bs2 bs'" unfolding bs'_def
    using keeps_extend [of "bs2 ! cur" bs2 cur "[d]"] by (simp add: d_def)
  then have "keeps cur bs bs'" using keeps_trans [OF keeps_trans [OF k1 k2(1)]] by simp
  moreover have "open_block d" by (simp add: d_def open_block_def)
  ultimately have fr: "frame_ok cur bs (length bs2) bs'" using len2 by (simp add: frame_ok_def bs'_def)
  have "bb_events (bs' ! cur) = bb_events (bs ! cur) @ [e]" "bs' ! cur = bs2 ! cur"
    using k2(2) b1 len2 pre(1) by (simp_all add: bs'_def nth_append abrupt_block_def)
  then show thesis
    using that [OF w fr bs1_def, of bs2] a2 t len2 b1 pre(1)
    by (auto simp: bs'_def nth_append elen_def link_in split: if_splits)
qed

lemma walk_leaf:
  assumes "\<not> is_region e" "\<not> is_abrupt e" "cur < length bs"
  shows "walk_event e cur exit bs lts pf =
    Some (cur, bs[cur := (spanned (event_span e) (bs ! cur))\<lparr>bb_events := bb_events (bs ! cur) @ [e]\<rparr>])"
  using assms by (cases e) (simp_all add: walk_event.simps blk)

lemma event_frame_leaf:
  assumes "\<not> is_region e" "\<not> is_abrupt e"
  shows "event_frame e exit lts pf"
  unfolding event_frame_def frame_ok_def
proof (intro allI impI)
  fix cur and bs :: blocks
  let ?b = "(spanned (event_span e) (bs ! cur))\<lparr>bb_events := bb_events (bs ! cur) @ [e]\<rparr>"
  assume pre: "cur < length bs" "open_block (bs ! cur)"
  moreover have "keeps cur bs (bs[cur := ?b])" by (rule keeps_update) auto
  moreover have "open_block ?b" using pre(2) by (simp add: open_block_def)
  ultimately show "\<exists>tail bs'. walk_event e cur exit bs lts pf = Some (tail, bs') \<and> keeps cur bs bs' \<and> tail < length bs'
      \<and> open_block (bs' ! tail) \<and> (tail = cur \<or> length bs \<le> tail)"
    using walk_leaf [OF assms pre(1)] by (intro exI [of _ cur] exI [of _ "bs[cur := ?b]"] conjI) simp_all
qed

lemma walk_Using:
  "walk_event (Using sp b) cur exit bs lts pf = walk_with_finally b cur exit bs lts pf"
  "walk_event (Defer sp b) cur exit bs lts pf = walk_with_finally b cur exit bs lts pf"
  by (simp_all add: walk_event.simps is_abrupt_def)

lemma walk_frame_Cons:
  assumes "event_frame e exit lts pf" "walk_frame es exit lts pf"
  shows "walk_frame (e # es) exit lts pf"
  unfolding walk_frame_def
proof (intro allI impI)
  fix cur and bs :: blocks
  assume pre: "cur < length bs" "open_block (bs ! cur)" "ctx_ok exit lts (length bs)"
  then obtain c1 bs1 where w1: "walk_event e cur exit bs lts pf = Some (c1, bs1)" "frame_ok cur bs c1 bs1"
    using assms(1) unfolding event_frame_def by blast
  note k1 = frame_okD [OF w1(2)]
  from walk_framed [OF assms(2) k1(2,3) ctx_ok_mono [OF pre(3) k1(5)]] obtain tail bs'
    where w2: "walk_with_finally es c1 exit bs1 lts pf = Some (tail, bs')" "frame_ok c1 bs1 tail bs'" .
  note k2 = frame_okD [OF w2(2)]
  have "keeps cur bs bs'" using k1(1) k2(1) k1(4) by (rule keeps_trans)
  then have "frame_ok cur bs tail bs'" using k2 k1(4,5) by (auto simp: frame_ok_def)
  with w1(1) w2(1) show "\<exists>tail bs'. walk_with_finally (e # es) cur exit bs lts pf = Some (tail, bs') \<and> frame_ok cur bs tail bs'"
    by simp
qed

lemma event_frameI:
  assumes "\<And>cur bs. cur < length bs \<Longrightarrow> open_block (bs ! cur) \<Longrightarrow> ctx_ok exit lts (length bs) \<Longrightarrow>
    \<exists>tail bs'. walk_event e cur exit bs lts pf = Some (tail, bs') \<and> frame_ok cur bs tail bs'"
  shows "event_frame e exit lts pf"
  using assms by (simp add: event_frame_def)

lemma event_frame_abrupt:
  assumes "is_abrupt e" "append_frame (length pf) exit lts pf"
  shows "event_frame e exit lts pf"
proof (rule event_frameI)
  fix cur and bs :: blocks
  assume pre: "cur < length bs" "open_block (bs ! cur)" "ctx_ok exit lts (length bs)"
  obtain target retained where "control_transfer_target e lts exit = (target, retained)" by fastforce
  from walk_abrupt [OF assms(2,1) pre this]
  show "\<exists>tail bs'. walk_event e cur exit bs lts pf = Some (tail, bs') \<and> frame_ok cur bs tail bs'" by metis
qed

lemma event_frame_scope:
  "walk_frame b exit lts pf \<Longrightarrow> event_frame (Using sp b) exit lts pf" "walk_frame b exit lts pf \<Longrightarrow> event_frame (Defer sp b) exit lts pf"
  by (simp_all add: event_frame_def walk_frame_def walk_Using)

interpretation framed: walk_property walk_frame event_frame append_frame
proof (unfold_locales, goal_cases)
  case 1
  then show ?case by (simp add: walk_frame_def frame_ok_def)
next
  case 4
  then show ?case by (intro event_frameI) (erule (1) walk_Branch, assumption+, blast)
next
  case 5
  then show ?case by (intro event_frameI) (erule walk_Loop, assumption+, blast)
next
  case 6
  then show ?case by (intro event_frameI) (erule walk_Try, assumption+, blast)
next
  case 10
  then show ?case by (intro append_frame_step) simp
qed (simp_all add: walk_frame_Cons event_frame_abrupt event_frame_leaf event_frame_scope)

lemmas walk_frame_all = framed.walks and event_frame_all = framed.events and append_frame_all = framed.copies

end
