(* ===== verification/Cfg_Paths.thy ===== *)
theory Cfg_Paths
  imports Cfg_Frame
begin

text \<open>
  The control-flow graph covers every structured execution: an execution of the event tree is
  the event sequence of a path of the blocks the walk lays out. A path that falls through ends
  in the block the walk hands back; an abrupt one runs its own copies of the pending cleanup and
  ends at its loop or at the function exit.
\<close>

section \<open>Paths of the blocks under construction\<close>

text \<open>A position is a block and the number of its events already performed.\<close>

inductive run :: "blocks \<Rightarrow> nat \<times> nat \<Rightarrow> flow_event list \<Rightarrow> nat \<times> nat \<Rightarrow> bool" for bs where
  run_refl: "run bs x [] x"
| run_emit: "i < length bs \<Longrightarrow> k < elen bs i \<Longrightarrow> run bs (i, Suc k) t y \<Longrightarrow> run bs (i, k) (bb_events (bs ! i) ! k # t) y"
| run_jump: "edge bs i j \<Longrightarrow> k = elen bs i \<Longrightarrow> run bs (j, 0) t y \<Longrightarrow> run bs (i, k) t y"

lemma run_trans: "run bs x t1 y \<Longrightarrow> run bs y t2 z \<Longrightarrow> run bs x (t1 @ t2) z"
  by (induction rule: run.induct) (auto intro: run.intros)

lemma run_grows: "run bs x t y \<Longrightarrow> grows bs bs' \<Longrightarrow> run bs' x t y"
proof (induction rule: run.induct)
  case (run_emit i k t y)
  then obtain xs where "i < length bs'" "bb_events (bs' ! i) = bb_events (bs ! i) @ xs"
    by (auto simp: grows_def grows_block_def)
  with run_emit show ?case
    using run.run_emit [of i bs' k t y] by (simp add: elen_def nth_append)
next
  case (run_jump i j k t y)
  then show ?case using run.run_jump [of bs' i j k t y] by (simp add: edge_grows elen_edge)
qed (rule run.run_refl)

lemma run_edge: "edge bs i j \<Longrightarrow> run bs (i, elen bs i) [] (j, 0)"
  by (rule run_jump) (auto intro: run_refl)

lemma run_then_edge: "run bs x t (i, k) \<Longrightarrow> k = elen bs i \<Longrightarrow> edge bs i j \<Longrightarrow> run bs x t (j, 0)"
  using run_trans [OF _ run_edge] by fastforce

section \<open>Destinations\<close>

definition labels :: "loop_targets list \<Rightarrow> string option list" where
  "labels lts = rev (map lt_label lts)"

lemma labels_simps [simp]:
  "labels [] = []" "labels [lt] = [lt_label lt]" "labels (lts @ [lt]) = lt_label lt # labels lts" "labels (a @ b) = labels b @ labels a"
  "length (labels lts) = length lts"
  by (simp_all add: labels_def)

fun loop_depth :: "loop_targets list \<Rightarrow> outcome \<Rightarrow> nat" where
  "loop_depth lts (BreakTo i) = lt_retained (rev lts ! i)"
| "loop_depth lts (ContinueTo i) = lt_retained (rev lts ! i)"
| "loop_depth lts _ = 0"

fun dest :: "loop_targets list \<Rightarrow> nat \<Rightarrow> outcome \<Rightarrow> nat" where
  "dest lts exit (BreakTo i) = lt_break_to (rev lts ! i)"
| "dest lts exit (ContinueTo i) = lt_continue_to (rev lts ! i)"
| "dest lts exit _ = exit"

lemma find_position: "find P xs = map_option (\<lambda>i. xs ! i) (position P xs)"
proof (cases "position P xs")
  case None
  then have "find P xs = None" by (simp add: position_None find_None_iff)
  with None show ?thesis by simp
next
  case (Some i)
  then have "find P xs = Some (xs ! i)" by (auto simp: position_iff find_Some_iff)
  with Some show ?thesis by simp
qed

lemma position_map: "position P (map f xs) = position (\<lambda>x. P (f x)) xs"
  by (auto simp: position_def intro!: find_cong)

lemma selected_loop_index: "selected_loop t lts = map_option (\<lambda>i. rev lts ! i) (loop_index t (labels lts))"
proof (cases "(t, lts)" rule: selected_loop.cases)
  case (2 l lts')
  have "position (\<lambda>t. lt_label t = Some l) (rev lts) = position (\<lambda>x. x = Some l) (labels lts)"
    by (simp add: labels_def position_map rev_map)
  with 2 show ?thesis by (simp add: find_position)
qed (auto simp: labels_def vec_get_def word_less_nat_alt unat_eq_zero)

lemma loop_index_within: "loop_index t ls = Some i \<Longrightarrow> i < length ls"
  using loop_index_append(2) [of t ls i] .

lemma exec_within: "exec ls p t oc \<Longrightarrow> outcome_within (length ls) oc"
proof (induction rule: exec.induct)
  case (exec_abrupt e ls es)
  then show ?case by (cases e) (auto simp: is_abrupt_def loop_index_within split: option.split)
qed (auto dest: outer_outcome_within)

lemma transfer_target:
  fixes lts :: "loop_targets list"
  assumes "is_abrupt e"
  defines "oc \<equiv> abrupt_outcome (labels lts) e"
  shows "control_transfer_target e lts exit = (dest lts exit oc, loop_depth lts oc)" "oc \<noteq> Fall"
    "outcome_within (length lts) oc"
  using assms loop_index_within [of _ "labels lts"]
  by (cases e; auto simp: is_abrupt_def selected_loop_index split: option.split)+

text \<open>
  The copies of the cleanup on an early exit, innermost first: each falls through, or ends
  abruptly itself and replaces the exit.
\<close>

inductive unwinds :: "loop_targets list \<Rightarrow> finally_frame list \<Rightarrow> outcome \<Rightarrow> flow_event list \<Rightarrow> outcome \<Rightarrow> bool" for lts where
  unwinds_stop: "length pf \<le> loop_depth lts oc \<Longrightarrow> unwinds lts pf oc [] oc"
| unwinds_next: "loop_depth lts oc \<le> length pf \<Longrightarrow> exec (labels lts) (At (ff_events f)) t Fall \<Longrightarrow>
    unwinds lts pf oc ts oc' \<Longrightarrow> unwinds lts (pf @ [f]) oc (t @ ts) oc'"
| unwinds_replace: "loop_depth lts oc \<le> length pf \<Longrightarrow> exec (labels lts) (At (ff_events f)) t o2 \<Longrightarrow> o2 \<noteq> Fall \<Longrightarrow>
    unwinds lts pf o2 ts oc' \<Longrightarrow> unwinds lts (pf @ [f]) oc (t @ ts) oc'"

inductive_cases unwinds_snocE: "unwinds lts (pf @ [f]) oc ts oc'"

definition arrives :: "blocks \<Rightarrow> loop_targets list \<Rightarrow> nat \<Rightarrow> nat \<times> nat \<Rightarrow> flow_event list \<Rightarrow> outcome \<Rightarrow> bool" where
  "arrives bs lts exit pos t oc \<longleftrightarrow>
     run bs pos t (dest lts exit oc, 0)
     \<or> oc = Leave \<and> (\<exists>j < length bs. run bs pos t (j, elen bs j) \<and> left_block (bs ! j) \<and> bb_successors (bs ! j) = [])"

lemma arrives_grows: "arrives bs lts exit pos t oc \<Longrightarrow> grows bs bs' \<Longrightarrow> arrives bs' lts exit pos t oc"
proof (unfold arrives_def, elim disjE conjE exE)
  fix j
  assume "grows bs bs'" "j < length bs" "left_block (bs ! j)" "run bs pos t (j, elen bs j)" "bb_successors (bs ! j) = []"
  moreover from this have "bs' ! j = bs ! j" by (simp add: grows_def grows_block_def)
  moreover have "run bs' pos t (j, elen bs j)" using calculation by (simp add: run_grows)
  ultimately show "run bs' pos t (dest lts exit oc, 0) \<or> oc = Leave \<and>
      (\<exists>j < length bs'. run bs' pos t (j, elen bs' j) \<and> left_block (bs' ! j) \<and> bb_successors (bs' ! j) = [])"
    if "oc = Leave"
    using that grows_length [of bs bs'] by (intro disjI2 conjI exI [of _ j]) (simp_all add: elen_def)
qed (auto dest: run_grows)

lemma arrives_prepend:
  "run bs pos t pos' \<Longrightarrow> arrives bs lts exit pos' t' oc \<Longrightarrow> arrives bs lts exit pos (t @ t') oc"
  unfolding arrives_def by (blast intro: run_trans)

section \<open>What the walk of a sequence covers\<close>

definition sim :: "nat \<Rightarrow> loop_targets list \<Rightarrow> finally_frame list \<Rightarrow> point \<Rightarrow> nat \<times> nat \<Rightarrow> nat \<Rightarrow> blocks \<Rightarrow> bool" where
  "sim exit lts pf pt pos tail bs' \<longleftrightarrow>
     (\<forall>t. exec (labels lts) pt t Fall \<longrightarrow> run bs' pos t (tail, elen bs' tail))
     \<and> (\<forall>t oc ts oc'. exec (labels lts) pt t oc \<longrightarrow> oc \<noteq> Fall \<longrightarrow> unwinds lts pf oc ts oc' \<longrightarrow>
          arrives bs' lts exit pos (t @ ts) oc')"

lemma sim_fall: "sim exit lts pf pt pos tail bs' \<Longrightarrow> exec (labels lts) pt t Fall \<Longrightarrow> run bs' pos t (tail, elen bs' tail)"
  by (simp add: sim_def)

lemma sim_abrupt: "sim exit lts pf pt pos tail bs' \<Longrightarrow> exec (labels lts) pt t oc \<Longrightarrow> oc \<noteq> Fall \<Longrightarrow>
    unwinds lts pf oc ts oc' \<Longrightarrow> arrives bs' lts exit pos (t @ ts) oc'"
  by (simp add: sim_def)

definition frame_closed :: "finally_frame \<Rightarrow> bool" where
  "frame_closed f \<longleftrightarrow> list_all (targets_closed []) (ff_events f) \<and> list_all cleanup_closed (ff_events f) \<and> defer_free (ff_events f)"

text \<open>
  The loops a sequence can transfer to lie within the pending cleanup. In a copy of a cleanup
  region only the loops of the region itself are meant; its targets are closed under them.
\<close>

definition safe :: "loop_targets list \<Rightarrow> finally_frame list \<Rightarrow> flow_event list \<Rightarrow> bool" where
  "safe lts pf es \<longleftrightarrow> (\<exists>outer inner. lts = outer @ inner \<and> (\<forall>l \<in> set inner. lt_retained l \<le> length pf)
     \<and> (outer = [] \<or> list_all (targets_closed (labels inner)) es))"

definition sim_pre :: "flow_event list \<Rightarrow> loop_targets list \<Rightarrow> finally_frame list \<Rightarrow> bool" where
  "sim_pre es lts pf \<longleftrightarrow> safe lts pf es \<and> list_all cleanup_closed es \<and> defer_free es \<and> list_all frame_closed pf"

definition walk_sim :: "flow_event list \<Rightarrow> nat \<Rightarrow> loop_targets list \<Rightarrow> finally_frame list \<Rightarrow> bool" where
  "walk_sim es exit lts pf \<longleftrightarrow> (sim_pre es lts pf \<longrightarrow> (\<forall>cur bs tail bs'. cur < length bs \<longrightarrow> open_block (bs ! cur) \<longrightarrow>
     ctx_ok exit lts (length bs) \<longrightarrow> walk_with_finally es cur exit bs lts pf = Some (tail, bs') \<longrightarrow>
     sim exit lts pf (At es) (cur, elen bs cur) tail bs'))"

definition event_sim :: "flow_event \<Rightarrow> nat \<Rightarrow> loop_targets list \<Rightarrow> finally_frame list \<Rightarrow> bool" where
  "event_sim e exit lts pf \<longleftrightarrow> (sim_pre [e] lts pf \<longrightarrow> (\<forall>cur bs tail bs'. cur < length bs \<longrightarrow> open_block (bs ! cur) \<longrightarrow>
     ctx_ok exit lts (length bs) \<longrightarrow> walk_event e cur exit bs lts pf = Some (tail, bs') \<longrightarrow>
     sim exit lts pf (At [e]) (cur, elen bs cur) tail bs'))"

definition append_sim :: "nat \<Rightarrow> nat \<Rightarrow> loop_targets list \<Rightarrow> finally_frame list \<Rightarrow> bool" where
  "append_sim n exit lts pf \<longleftrightarrow> (n \<le> length pf \<longrightarrow> list_all frame_closed pf \<longrightarrow> (\<forall>cur bs oc bs' ts oc'. cur < length bs \<longrightarrow>
     dest lts exit oc < length bs \<longrightarrow> ctx_ok exit lts (length bs) \<longrightarrow> oc \<noteq> Fall \<longrightarrow>
     append_finally_path n cur (dest lts exit oc) exit bs lts pf (loop_depth lts oc) = Some bs' \<longrightarrow>
     unwinds lts (take n pf) oc ts oc' \<longrightarrow> arrives bs' lts exit (cur, elen bs cur) ts oc'))"

lemma safe_depth:
  assumes "safe lts pf es" "exec (labels lts) (At es) t oc"
  shows "loop_depth lts oc \<le> length pf"
proof -
  obtain outer inner where s: "lts = outer @ inner" "\<forall>l \<in> set inner. lt_retained l \<le> length pf"
      "outer = [] \<or> list_all (targets_closed (labels inner)) es"
    using assms(1) by (auto simp: safe_def)
  have "outcome_within (length inner) oc"
    using s(3) exec_within [OF assms(2)] exec_closed [OF assms(2), of "labels inner" "labels outer" "[]"] s(1) by auto
  then show ?thesis using s(1,2) by (cases oc) (auto simp: nth_append rev_nth_in)
qed

section \<open>Preconditions of the parts\<close>

lemma safeI: "lts = outer @ inner \<Longrightarrow> \<forall>l \<in> set inner. lt_retained l \<le> length pf \<Longrightarrow>
    outer = [] \<or> list_all (targets_closed (labels inner)) es \<Longrightarrow> safe lts pf es"
  by (auto simp: safe_def)

lemma safe_weaken:
  assumes "safe lts pf es" "length pf \<le> length pf'" "\<And>ls. list_all (targets_closed ls) es \<Longrightarrow> list_all (targets_closed ls) es'"
  shows "safe lts pf' es'"
proof -
  obtain outer inner where s: "lts = outer @ inner" "\<forall>l \<in> set inner. lt_retained l \<le> length pf"
      "outer = [] \<or> list_all (targets_closed (labels inner)) es"
    using assms(1) by (auto simp: safe_def)
  show ?thesis by (rule safeI [OF s(1)]) (use s(2,3) assms(2,3) in auto)
qed

lemma safe_loop:
  assumes "safe lts pf es" "lt_retained lt = length pf"
    "\<And>ls. list_all (targets_closed ls) es \<Longrightarrow> list_all (targets_closed (lt_label lt # ls)) es'"
  shows "safe (lts @ [lt]) pf es'"
proof -
  obtain outer inner where s: "lts = outer @ inner" "\<forall>l \<in> set inner. lt_retained l \<le> length pf"
      "outer = [] \<or> list_all (targets_closed (labels inner)) es"
    using assms(1) by (auto simp: safe_def)
  show ?thesis
    by (rule safeI [of _ outer "inner @ [lt]"]) (use s assms(2,3) in auto)
qed

lemma safe_closed: "list_all (targets_closed []) es \<Longrightarrow> safe lts pf es"
  by (rule safeI [of _ lts "[]"]) simp_all

lemma sim_pre_Cons: "sim_pre (e # es) lts pf \<Longrightarrow> sim_pre [e] lts pf \<and> sim_pre es lts pf"
  by (auto simp: sim_pre_def elim: safe_weaken)

lemma sim_pre_Branch: "sim_pre [Branch sp c a b] lts pf \<Longrightarrow> sim_pre a lts pf \<and> sim_pre b lts pf"
  by (auto simp: sim_pre_def elim: safe_weaken)

lemma sim_pre_Using: "sim_pre [Using sp b] lts pf \<Longrightarrow> sim_pre b lts pf"
  by (auto simp: sim_pre_def elim: safe_weaken)

lemma sim_pre_Try:
  assumes "sim_pre [Try sp b c f p ty arms] lts pf"
  defines "inner \<equiv> pf @ [\<lparr>ff_span = sp, ff_events = f\<rparr>]"
  shows "sim_pre b lts inner" "sim_pre c lts inner" "sim_pre f lts pf"
  using assms by (auto simp: sim_pre_def frame_closed_def elim: safe_weaken)

lemma sim_pre_Loop:
  assumes "sim_pre [Loop sp k l c u b] lts pf" "lt_retained lt = length pf" "lt_label lt = l"
  shows "sim_pre c lts pf" "sim_pre u (lts @ [lt]) pf" "sim_pre b (lts @ [lt]) pf"
  using assms by (auto simp: sim_pre_def elim: safe_weaken safe_loop)

lemma sim_pre_frame:
  assumes "list_all frame_closed pf" "n \<le> length pf" "0 < n"
  shows "sim_pre (ff_events (pf ! (n - 1))) lts (take (n - 1) pf)"
proof -
  have "frame_closed (pf ! (n - 1))" using assms by (simp add: list_all_length)
  moreover have "list_all frame_closed (take (n - 1) pf)" using assms(1) by (metis append_take_drop_id list_all_append)
  ultimately show ?thesis by (simp add: sim_pre_def frame_closed_def safe_closed)
qed

section \<open>Sequences\<close>

lemma exec_single:
  "is_region e \<Longrightarrow> \<not> is_defer e \<Longrightarrow> exec ls (At [e]) t oc \<longleftrightarrow> exec ls (InRegion e) t oc"
proof
  assume e: "is_region e" "\<not> is_defer e" and x: "exec ls (InRegion e) t oc"
  show "exec ls (At [e]) t oc"
  proof (cases "oc = Fall")
    case True
    with exec_seq [OF _ exec_nil, of ls e t] x show ?thesis by simp
  qed (use x in \<open>auto intro: exec_stop\<close>)
qed (auto elim!: exec_ConsE exec_NilE)

lemma abrupt_outcome_not_Fall: "abrupt_outcome ls e \<noteq> Fall"
  by (cases e) (simp_all split: option.split)

lemma exec_Cons_split:
  assumes "exec ls (At (e # es)) t oc" "\<not> is_defer e"
  shows "(\<exists>t1 t2. t = t1 @ t2 \<and> exec ls (At [e]) t1 Fall \<and> exec ls (At es) t2 oc) \<or> oc \<noteq> Fall \<and> exec ls (At [e]) t oc"
  using assms(1)
proof (rule exec_ConsE)
  fix t' 
  assume "t = e # t'" "\<not> is_region e" "\<not> is_abrupt e" "exec ls (At es) t' oc"
  moreover from this have "exec ls (At [e]) [e] Fall" using exec_leaf [OF _ _ exec_nil, of e ls] by simp
  ultimately show ?thesis by (intro disjI1 exI [of _ "[e]"] exI [of _ t']) simp
next
  assume "t = [e]" "oc = abrupt_outcome ls e" "is_abrupt e"
  then show ?thesis using exec_abrupt [of e ls "[]"] by (simp add: abrupt_outcome_not_Fall)
next
  fix t1 t2
  assume "t = t1 @ t2" "exec ls (InRegion e) t1 Fall" "exec ls (At es) t2 oc"
  moreover from this have "exec ls (At [e]) t1 Fall" using exec_InRegion by (simp add: exec_single)
  ultimately show ?thesis by blast
next
  assume "exec ls (InRegion e) t oc" "oc \<noteq> Fall"
  then show ?thesis by (auto intro: exec_stop)
qed (use assms(2) in auto)

lemma walk_simD:
  assumes "walk_sim es exit lts pf" "sim_pre es lts pf" "cur < length bs" "open_block (bs ! cur)" "ctx_ok exit lts (length bs)"
    "walk_with_finally es cur exit bs lts pf = Some (tail, bs')"
  shows "sim exit lts pf (At es) (cur, elen bs cur) tail bs'"
  using assms unfolding walk_sim_def by blast

lemma walk_sim_Nil: "walk_sim [] exit lts pf"
  by (auto simp: walk_sim_def sim_def elim!: exec_NilE intro: run_refl)

lemma walk_sim_Cons:
  assumes "event_sim e exit lts pf" "walk_sim es exit lts pf"
  shows "walk_sim (e # es) exit lts pf"
  unfolding walk_sim_def
proof (intro impI allI)
  fix cur bs tail bs'
  assume sp: "sim_pre (e # es) lts pf" and pre: "cur < length bs" "open_block (bs ! cur)" "ctx_ok exit lts (length bs)"
    and w: "walk_with_finally (e # es) cur exit bs lts pf = Some (tail, bs')"
  from w obtain c1 bs1 where w1: "walk_event e cur exit bs lts pf = Some (c1, bs1)"
      and w2: "walk_with_finally es c1 exit bs1 lts pf = Some (tail, bs')"
    by (auto split: bind_splits)
  have "frame_ok cur bs c1 bs1"
    using event_frame_all [of e exit lts pf] pre w1 unfolding event_frame_def by fastforce
  note k1 = frame_okD [OF this]
  have ctx1: "ctx_ok exit lts (length bs1)" using pre(3) k1(5) by (rule ctx_ok_mono)
  have s1: "sim exit lts pf (At [e]) (cur, elen bs cur) c1 bs1"
    using assms(1) sim_pre_Cons [OF sp] pre w1 unfolding event_sim_def by blast
  have s2: "sim exit lts pf (At es) (c1, elen bs1 c1) tail bs'"
    using walk_simD [OF assms(2) _ k1(2,3) ctx1 w2] sim_pre_Cons [OF sp] by blast
  have g: "grows bs1 bs'"
    using walk_framed [OF walk_frame_all k1(2,3) ctx1, of es pf] w2 by (metis option.inject prod.inject)
  have nd: "\<not> is_defer e" using sp by (simp add: sim_pre_def)
  show "sim exit lts pf (At (e # es)) (cur, elen bs cur) tail bs'"
    unfolding sim_def
  proof (intro conjI allI impI)
    fix t
    assume "exec (labels lts) (At (e # es)) t Fall"
    then obtain t1 t2 where "t = t1 @ t2" "exec (labels lts) (At [e]) t1 Fall" "exec (labels lts) (At es) t2 Fall"
      using exec_Cons_split [OF _ nd] by blast
    with run_trans [OF run_grows [OF sim_fall [OF s1] g] sim_fall [OF s2]]
    show "run bs' (cur, elen bs cur) t (tail, elen bs' tail)" by simp
  next
    fix t oc ts oc'
    assume x: "exec (labels lts) (At (e # es)) t oc" "oc \<noteq> Fall" "unwinds lts pf oc ts oc'"
    from exec_Cons_split [OF x(1) nd] show "arrives bs' lts exit (cur, elen bs cur) (t @ ts) oc'"
    proof (elim disjE exE conjE)
      fix t1 t2
      assume "t = t1 @ t2" "exec (labels lts) (At [e]) t1 Fall" "exec (labels lts) (At es) t2 oc"
      then show ?thesis
        using arrives_prepend [OF run_grows [OF sim_fall [OF s1] g] sim_abrupt [OF s2 _ x(2,3)]] by simp
    next
      assume "exec (labels lts) (At [e]) t oc"
      then show ?thesis using arrives_grows [OF sim_abrupt [OF s1 _ x(2,3)] g] by simp
    qed
  qed
qed

lemma walk_result:
  assumes "cur < length bs" "open_block (bs ! cur)" "ctx_ok exit lts (length bs)"
    "walk_with_finally es cur exit bs lts pf = Some (tail, bs')"
  shows "frame_ok cur bs tail bs'" "grows bs bs'"
  using walk_framed [OF walk_frame_all assms(1-3), of es pf] assms(4) by (metis option.inject prod.inject)+

section \<open>Leaves, branches and scopes\<close>

lemma event_simI:
  assumes "\<And>cur bs tail bs'. sim_pre [e] lts pf \<Longrightarrow> cur < length bs \<Longrightarrow> open_block (bs ! cur) \<Longrightarrow> ctx_ok exit lts (length bs) \<Longrightarrow>
    walk_event e cur exit bs lts pf = Some (tail, bs') \<Longrightarrow> sim exit lts pf (At [e]) (cur, elen bs cur) tail bs'"
  shows "event_sim e exit lts pf"
  using assms by (simp add: event_sim_def)

lemma event_sim_leaf:
  assumes "\<not> is_region e" "\<not> is_abrupt e"
  shows "event_sim e exit lts pf"
proof (rule event_simI)
  fix cur and bs :: blocks and tail bs'
  assume pre: "cur < length bs" and w: "walk_event e cur exit bs lts pf = Some (tail, bs')"
  let ?b = "(spanned (event_span e) (bs ! cur))\<lparr>bb_events := bb_events (bs ! cur) @ [e]\<rparr>"
  have r: "tail = cur" "bs' = bs[cur := ?b]" using w walk_leaf [OF assms pre, of exit lts pf] by auto
  have "run bs' (cur, elen bs cur) [bb_events (bs' ! cur) ! elen bs cur] (cur, Suc (elen bs cur))"
    by (rule run_emit) (use pre r in \<open>auto simp: elen_def intro: run_refl\<close>)
  then have "run bs' (cur, elen bs cur) [e] (cur, elen bs' cur)" using pre r by (simp add: elen_def)
  moreover have "oc = Fall \<and> t = [e]" if "exec (labels lts) (At [e]) t oc" for t oc
    using that assms by (auto elim!: exec_ConsE exec_NilE dest: exec_InRegion)
  ultimately show "sim exit lts pf (At [e]) (cur, elen bs cur) tail bs'"
    using r(1) by (auto simp: sim_def)
qed

lemma sim_region:
  assumes "is_region e" "\<not> is_defer e"
  shows "sim exit lts pf (At [e]) pos tail bs' \<longleftrightarrow> sim exit lts pf (InRegion e) pos tail bs'"
  using assms by (simp add: sim_def exec_single)

text \<open>A part that is entered by a silent path and left by an edge.\<close>

lemma sim_part_fall:
  assumes "sim exit lts pf pt (i, 0) q bs1" "grows bs1 bs'" "run bs' pos [] (i, 0)" "edge bs' q j" "elen bs' q = elen bs1 q"
    "exec (labels lts) pt t Fall"
  shows "run bs' pos t (j, 0)"
proof -
  have "run bs' (i, 0) t (q, elen bs' q)" using run_grows [OF sim_fall [OF assms(1,6)] assms(2)] assms(5) by simp
  from run_trans [OF assms(3) this] have "run bs' pos t (q, elen bs' q)" by simp
  with assms(4) show ?thesis by (auto intro: run_then_edge)
qed

lemma sim_part_abrupt:
  assumes "sim exit lts pf pt (i, 0) q bs1" "grows bs1 bs'" "run bs' pos [] (i, 0)"
    "exec (labels lts) pt t oc" "oc \<noteq> Fall" "unwinds lts pf oc ts oc'"
  shows "arrives bs' lts exit pos (t @ ts) oc'"
  using arrives_prepend [OF assms(3) arrives_grows [OF sim_abrupt [OF assms(1,4-6)] assms(2)]] by simp

lemma event_sim_Branch:
  assumes "walk_sim a exit lts pf" "walk_sim b exit lts pf"
  shows "event_sim (Branch sp c a b) exit lts pf"
proof (rule event_simI)
  fix cur and bs :: blocks and tail bs'
  assume sp: "sim_pre [Branch sp c a b] lts pf" and pre: "cur < length bs" "open_block (bs ! cur)" "ctx_ok exit lts (length bs)"
    and w: "walk_event (Branch sp c a b) cur exit bs lts pf = Some (tail, bs')"
  have sa: "sim_pre a lts pf" "sim_pre b lts pf" using sim_pre_Branch [OF sp] by simp_all
  show "sim exit lts pf (At [Branch sp c a b]) (cur, elen bs cur) tail bs'"
  proof (rule walk_Branch [where a = a and b = b and pf = pf and sp = sp and c = c, OF walk_frame_all walk_frame_all pre], goal_cases)
    case (1 bs1 tt bs2 et bs3 bs0)
    note l = 1
    have r: "tail = length bs" "bs0 = bs'" using w l(1) by simp_all
    note l = l [unfolded r(2)]
    have "Suc (length bs) < length bs1" "Suc (Suc (length bs)) < length bs2"
      using l(18) grows_length [OF walk_result(2) [OF _ l(19,21,2)]] by auto
    then have s1: "sim exit lts pf (At a) (Suc (length bs), 0) tt bs2" "sim exit lts pf (At b) (Suc (Suc (length bs)), 0) et bs3"
      using walk_simD [OF assms(1) sa(1) _ l(19,21,2)] walk_simD [OF assms(2) sa(2) _ l(20,22,3)] l(13,14) by simp_all
    have e: "run bs' (cur, elen bs cur) [] (Suc (length bs), 0)" "run bs' (cur, elen bs cur) [] (Suc (Suc (length bs)), 0)"
      using run_edge [OF l(8)] run_edge [OF l(9)] l(12) by simp_all
    have "sim exit lts pf (InRegion (Branch sp c a b)) (cur, elen bs cur) (length bs) bs'"
      unfolding sim_def
      using sim_part_fall [OF s1(1) l(6) e(1) l(10,16)] sim_part_fall [OF s1(2) l(7) e(2) l(11,17)]
        sim_part_abrupt [OF s1(1) l(6) e(1)] sim_part_abrupt [OF s1(2) l(7) e(2)] l(15)
      by (auto elim!: exec_BranchE)
    with r show ?case by (simp add: sim_region)
  qed
qed

lemma event_sim_Using:
  assumes "walk_sim b exit lts pf"
  shows "event_sim (Using sp b) exit lts pf"
proof (rule event_simI)
  fix cur and bs :: blocks and tail bs'
  assume "sim_pre [Using sp b] lts pf" "cur < length bs" "open_block (bs ! cur)" "ctx_ok exit lts (length bs)"
    "walk_event (Using sp b) cur exit bs lts pf = Some (tail, bs')"
  then have "sim exit lts pf (At b) (cur, elen bs cur) tail bs'"
    using walk_simD [OF assms sim_pre_Using] by (simp add: walk_Using)
  moreover have "exec ls (InRegion (Using sp b)) t oc \<longleftrightarrow> exec ls (At b) t oc" for ls t oc
    by (auto elim: exec_UsingE intro: exec_using)
  ultimately show "sim exit lts pf (At [Using sp b]) (cur, elen bs cur) tail bs'"
    by (simp add: sim_region) (simp add: sim_def)
qed

section \<open>Early exits through pending cleanup\<close>

lemma unwinds_done:
  assumes "unwinds lts pf oc ts oc'" "length pf \<le> loop_depth lts oc"
  shows "ts = []" "oc' = oc"
  using assms by (cases rule: unwinds.cases; simp)+

lemma take_last: "0 < n \<Longrightarrow> n \<le> length xs \<Longrightarrow> take n xs = take (n - 1) xs @ [xs ! (n - 1)]"
  by (cases n) (simp_all add: take_Suc_conv_app_nth)

lemma append_sim_step:
  assumes ws: "0 < n \<longrightarrow> n \<le> length pf \<longrightarrow> walk_sim (ff_events (pf ! (n - 1))) exit lts (take (n - 1) pf) \<and> append_sim (n - 1) exit lts pf"
  shows "append_sim n exit lts pf"
  unfolding append_sim_def
proof (intro impI allI)
  fix cur bs oc bs' ts oc'
  assume n: "n \<le> length pf" and fc: "list_all frame_closed pf"
    and pre: "cur < length bs" "dest lts exit oc < length bs" "ctx_ok exit lts (length bs)" and oc: "oc \<noteq> Fall"
    and ap: "append_finally_path n cur (dest lts exit oc) exit bs lts pf (loop_depth lts oc) = Some bs'"
    and un: "unwinds lts (take n pf) oc ts oc'"
  show "arrives bs' lts exit (cur, elen bs cur) ts oc'"
  proof (cases "loop_depth lts oc < n")
    case False
    then have "ts = []" "oc' = oc" using unwinds_done [OF un] n by simp_all
    moreover obtain b0 where "append_finally_path n cur (dest lts exit oc) exit bs lts pf (loop_depth lts oc) = Some b0"
        "keeps cur bs b0" "edge b0 cur (dest lts exit oc)" "bb_events (b0 ! cur) = bb_events (bs ! cur)"
        "bb_terminator (b0 ! cur) = bb_terminator (bs ! cur)"
      using append_end [OF pre(1,2) False] .
    then have "edge bs' cur (dest lts exit oc)" "elen bs' cur = elen bs cur"
      using ap by (simp_all add: elen_def)
    ultimately show ?thesis using run_edge [of bs' cur] by (simp add: arrives_def)
  next
    case True
    then have "0 < n" by simp
    with ws n have w: "walk_sim (ff_events (pf ! (n - 1))) exit lts (take (n - 1) pf)" "append_sim (n - 1) exit lts pf" by simp_all
    have sp: "sim_pre (ff_events (pf ! (n - 1))) lts (take (n - 1) pf)" using fc n \<open>0 < n\<close> by (rule sim_pre_frame)
    show ?thesis
    proof (rule append_step [OF walk_frame_all append_frame_all pre n True], goal_cases)
      case (1 bs1 tail bs2 bs0)
      note l = 1
      have "bs0 = bs'" using ap l(1) by simp
      note l = l [unfolded this]
      have s: "sim exit lts (take (n - 1) pf) (At (ff_events (pf ! (n - 1)))) (length bs, 0) tail bs2"
        using walk_simD [OF w(1) sp l(10,9,15,2)] l(8) by simp
      have e: "run bs' (cur, elen bs cur) [] (length bs, 0)" using run_edge [OF l(5)] l(6) by (simp add: elen_def)
      have a: "arrives bs' lts exit (tail, elen bs2 tail) ts2 oc2" if "unwinds lts (take (n - 1) pf) oc ts2 oc2" for ts2 oc2
        using w(2) n fc l(12,14,16,3) oc that unfolding append_sim_def by auto
      from un [unfolded take_last [OF \<open>0 < n\<close> n]] show ?case
      proof (rule unwinds_snocE)
        assume "length (take (n - 1) pf @ [pf ! (n - 1)]) \<le> loop_depth lts oc"
        then show ?case using True n by simp
      next
        fix t ts2
        assume t: "ts = t @ ts2" "exec (labels lts) (At (ff_events (pf ! (n - 1)))) t Fall" "unwinds lts (take (n - 1) pf) oc ts2 oc'"
        have "run bs' (length bs, 0) t (tail, elen bs2 tail)" using run_grows [OF sim_fall [OF s t(2)] l(11)] .
        from arrives_prepend [OF run_trans [OF e this] a [OF t(3)]] show ?case by (simp add: t(1))
      next
        fix t o2 ts2
        assume t: "ts = t @ ts2" "exec (labels lts) (At (ff_events (pf ! (n - 1)))) t o2" "o2 \<noteq> Fall"
          "unwinds lts (take (n - 1) pf) o2 ts2 oc'"
        from sim_part_abrupt [OF s l(11) e t(2-4)] show ?case by (simp add: t(1))
      qed
    qed
  qed
qed

lemma append_simD:
  assumes "append_sim n exit lts pf" "n \<le> length pf" "list_all frame_closed pf" "cur < length bs" "dest lts exit oc < length bs"
    "ctx_ok exit lts (length bs)" "oc \<noteq> Fall"
    "append_finally_path n cur (dest lts exit oc) exit bs lts pf (loop_depth lts oc) = Some bs'" "unwinds lts (take n pf) oc ts oc'"
  shows "arrives bs' lts exit (cur, elen bs cur) ts oc'"
  using assms unfolding append_sim_def by blast

lemma event_sim_abrupt:
  assumes as: "append_sim (length pf) exit lts pf" and e: "is_abrupt e"
  shows "event_sim e exit lts pf"
proof (rule event_simI)
  fix cur and bs :: blocks and tail bs'
  assume sp: "sim_pre [e] lts pf" and pre: "cur < length bs" "open_block (bs ! cur)" "ctx_ok exit lts (length bs)"
    and w: "walk_event e cur exit bs lts pf = Some (tail, bs')"
  define oc where "oc = abrupt_outcome (labels lts) e"
  note tt = transfer_target(1) [where lts = lts and exit = exit, OF e, folded oc_def]
    transfer_target(2,3) [where lts = lts, OF e, folded oc_def]
  have fc: "list_all frame_closed pf" using sp by (simp add: sim_pre_def)
  show "sim exit lts pf (At [e]) (cur, elen bs cur) tail bs'"
  proof (rule walk_abrupt [where pf = pf, OF append_frame_all e pre tt(1)], goal_cases)
    case (1 bs1 bs2 dead bs0)
    note l = 1
    have r: "bs0 = bs'" using w l(1) by simp
    note l = l [unfolded r]
    have len1: "length bs1 = length bs" "elen bs1 cur = Suc (elen bs cur)" "bs1 ! cur = abrupt_block (bs ! cur) e"
      using pre(1) l(3) by (simp_all add: elen_def abrupt_block_def)
    have g: "grows bs2 bs'" using l(5,8) by (simp add: grows_def)
    have emit: "run bs' (cur, elen bs cur) [e] (cur, Suc (elen bs cur))"
      using run_emit [of cur bs' "elen bs cur" "[]"] run_refl pre(1) l(5,9,11,12) by (simp add: elen_def nth_append)
    have arr: "arrives bs' lts exit (cur, Suc (elen bs cur)) ts oc'" if un: "unwinds lts pf oc ts oc'" for ts oc'
    proof (cases "length pf = loop_depth lts oc")
      case True
      then have ts: "ts = []" "oc' = oc" using unwinds_done [OF un] by simp_all
      show ?thesis
      proof (cases "is_break_or_continue e")
        case bc: True
        with True l(6) len1 pre(1) have "edge bs2 cur (dest lts exit oc)" using l(10) by (simp add: edge_def)
        then have "edge bs' cur (dest lts exit oc)" using g by (rule edge_grows)
        from run_edge [OF this] ts show ?thesis by (simp add: arrives_def l(11))
      next
        case False
        with True l(4,6) have "bs' ! cur = abrupt_block (bs ! cur) e" using len1 by simp
        moreover have "oc = Leave" "left_block (abrupt_block (bs ! cur) e)"
          using e False by (cases e; simp add: is_abrupt_def oc_def left_block_def abrupt_block_def)+
        moreover have "bb_successors (abrupt_block (bs ! cur) e) = []" using pre(2) by (simp add: abrupt_block_def open_block_def)
        ultimately show ?thesis using ts run_refl [of bs' "(cur, elen bs' cur)"] pre(1) l(5,9,11)
          by (auto simp: arrives_def intro!: exI [of _ cur])
      qed
    next
      case False
      then have "append_finally_path (length pf) cur (dest lts exit oc) exit bs1 lts pf (loop_depth lts oc) = Some bs2"
        using l(7) by simp
      then have "arrives bs2 lts exit (cur, elen bs1 cur) ts oc'"
        using pre(1,3) len1(1) l(10) un by (auto intro!: append_simD [OF as order_refl fc _ _ _ tt(2)])
      with g len1 show ?thesis by (simp add: arrives_grows)
    qed
    have only: "oc2 = oc" "t = [e]" if "exec (labels lts) (At [e]) t oc2" for t oc2
      using that e by (auto simp: oc_def elim!: exec_ConsE dest: exec_InRegion)
    show ?case
      unfolding sim_def
    proof (intro conjI allI impI)
      fix t assume "exec (labels lts) (At [e]) t Fall"
      then show "run bs' (cur, elen bs cur) t (tail, elen bs' tail)" using only(1) tt(2) by metis
    next
      fix t oc2 ts oc'
      assume x: "exec (labels lts) (At [e]) t oc2" "unwinds lts pf oc2 ts oc'"
      then show "arrives bs' lts exit (cur, elen bs cur) (t @ ts) oc'"
        using arrives_prepend [OF emit arr, of ts oc'] only [OF x(1)] by simp
    qed
  qed
qed

section \<open>Protected regions\<close>

lemma unwinds_snoc:
  assumes "exec (labels lts) (At (ff_events f)) t o2" "loop_depth lts o1 \<le> length pf"
    "unwinds lts pf (if o2 = Fall then o1 else o2) ts oc'"
  shows "unwinds lts (pf @ [f]) o1 (t @ ts) oc'"
  using assms by (cases "o2 = Fall") (auto intro: unwinds_next unwinds_replace)

lemma event_sim_Try:
  assumes "walk_sim b exit lts (pf @ [\<lparr>ff_span = sp, ff_events = f\<rparr>])" "walk_sim c exit lts (pf @ [\<lparr>ff_span = sp, ff_events = f\<rparr>])"
    "walk_sim f exit lts pf"
  shows "event_sim (Try sp b c f p ty arms) exit lts pf"
proof (rule event_simI)
  fix cur and bs :: blocks and tail bs'
  let ?e = "Try sp b c f p ty arms" and ?fr = "\<lparr>ff_span = sp, ff_events = f\<rparr>"
  assume pr: "sim_pre [?e] lts pf" and pre: "cur < length bs" "open_block (bs ! cur)" "ctx_ok exit lts (length bs)"
    and w: "walk_event ?e cur exit bs lts pf = Some (tail, bs')"
  note sp = sim_pre_Try [OF pr]
  have safe: "safe lts pf b" "safe lts pf c"
    using pr by (auto simp: sim_pre_def elim: safe_weaken)
  show "sim exit lts pf (At [?e]) (cur, elen bs cur) tail bs'"
  proof (rule walk_Try [where b = b and c = c and f = f and p = p and ty = ty and arms = arms and pf = pf and sp = sp,
        OF walk_frame_all walk_frame_all walk_frame_all pre], goal_cases)
    case (1 bs1 tt bs2 ct bs3 bs5 tl0 bs0)
    note l = 1
    have r: "tail = tl0" "bs0 = bs'" using w l(1) by simp_all
    note l = l [unfolded r(2), folded r(1)]
    let ?pos = "(cur, elen bs cur)" and ?n = "length bs"
    have en: "run bs' ?pos [] (?n, 0)" using run_edge [OF l(9)] l(12) by simp
    have eb: "run bs' ?pos [] (Suc ?n, 0)" using run_then_edge [OF en _ l(10)] l(13) by simp
    have sb: "sim exit lts (pf @ [?fr]) (At b) (Suc ?n, 0) tt bs2"
      using walk_simD [OF assms(1) sp(1) l(18,17,21,2)] l(14) by simp
    have sf: "sim exit lts pf (At f) (length bs3, 0) tail bs'"
      using walk_simD [OF assms(3) sp(3) l(20,19,23,5)] l(15) by simp
    \<comment> \<open>the body or the handler, then the cleanup\<close>
    have finish: "(oc = Fall \<longrightarrow> run bs' ?pos (t1 @ t2) (tail, elen bs' tail))
        \<and> (oc \<noteq> Fall \<longrightarrow> unwinds lts pf oc ts oc' \<longrightarrow> arrives bs' lts exit ?pos ((t1 @ t2) @ ts) oc')"
      if s: "sim exit lts (pf @ [?fr]) (At x) (i, 0) q bsx" "grows bsx bs'" "run bs' ?pos [] (i, 0)"
        "edge bs' q (length bs3)" "elen bs' q = elen bsx q" and sx: "safe lts pf x"
        and x: "exec (labels lts) (At x) t1 o1" "exec (labels lts) (At f) t2 o2" "oc = (if o2 = Fall then o1 else o2)"
      for x i q bsx t1 o1 t2 o2 oc ts oc'
    proof (cases "o1 = Fall")
      case True
      have r1: "run bs' ?pos t1 (length bs3, 0)" using sim_part_fall [OF s] x(1) True by blast
      show ?thesis
        using run_trans [OF r1 sim_fall [OF sf]] arrives_prepend [OF r1 sim_abrupt [OF sf x(2)]] x True by auto
    next
      case False
      have "unwinds lts (pf @ [?fr]) o1 (t2 @ ts) oc'" if "unwinds lts pf oc ts oc'"
        using unwinds_snoc [where f = ?fr, of lts t2 o2 o1 pf ts oc'] x(2,3) that safe_depth [OF sx x(1)] by simp
      with False x(1,3) sim_part_abrupt [OF s(1-3) x(1) False, of "t2 @ ts" oc'] show ?thesis by auto
    qed
    have catches: "edge bs' i (length bs3) \<and> elen bs' i = elen bs3 i \<and> run bs' ?pos [] (Suc (Suc ?n), 0)
        \<and> sim exit lts (pf @ [?fr]) (At c) (Suc (Suc ?n), 0) i bs3" if "ct = Some i" for i
    proof -
      note li = l(4) [rule_format, OF that]
      have "sim exit lts (pf @ [?fr]) (At c) (Suc (Suc ?n), 0) i bs3"
        using walk_simD [OF assms(2) sp(2) _ _ l(22)] li by fastforce
      moreover have "run bs' ?pos [] (Suc (Suc ?n), 0)" using run_then_edge [OF en] l(13) li by simp
      ultimately show ?thesis using li by simp
    qed
    have region: "(oc = Fall \<longrightarrow> run bs' ?pos t (tail, elen bs' tail))
        \<and> (oc \<noteq> Fall \<longrightarrow> unwinds lts pf oc ts oc' \<longrightarrow> arrives bs' lts exit ?pos (t @ ts) oc')"
      if "exec (labels lts) (InRegion ?e) t oc" for t oc ts oc'
      using that
    proof (rule exec_TryE)
      fix t1 o1 t2 o2
      assume "t = t1 @ t2" "oc = (if o2 = Fall then o1 else o2)" "exec (labels lts) (At b) t1 o1" "exec (labels lts) (At f) t2 o2"
      then show ?thesis using finish [OF sb l(7) eb l(11,16) safe(1)] by simp
    next
      fix t1 o1 t2 o2
      assume x: "t = t1 @ t2" "oc = (if o2 = Fall then o1 else o2)" "has_catch c p ty arms"
        "exec (labels lts) (At c) t1 o1" "exec (labels lts) (At f) t2 o2"
      then obtain i where "ct = Some i" using l(3) by auto
      with catches [of i] x show ?thesis using finish [of c "Suc (Suc ?n)" i bs3 t1 o1 t2 o2 oc ts oc'] l(8) safe(2) by simp
    qed
    then have "sim exit lts pf (InRegion ?e) ?pos tail bs'" by (simp add: sim_def)
    then show ?case by (simp add: sim_region)
  qed
qed

section \<open>Loops\<close>

lemma outer_dest:
  assumes "outer_outcome o1 = Some oc" "oc \<noteq> Fall"
  shows "dest (lts @ [lt]) exit o1 = dest lts exit oc" "loop_depth (lts @ [lt]) o1 = loop_depth lts oc" "o1 = Leave \<longleftrightarrow> oc = Leave"
  using assms by (cases o1 rule: outer_outcome.cases; auto)+

lemma closed_exec_lift:
  assumes "frame_closed f" "exec ls (At (ff_events f)) t oc"
  shows "exec ls' (At (ff_events f)) t oc" "oc = Fall \<or> oc = Leave"
proof -
  have "exec ([] @ ls') (At (ff_events f)) t oc \<and> outcome_within (length []) oc"
    using exec_closed [OF assms(2), where inner = "[]" and outer = ls and outer' = ls'] assms(1)
    by (simp add: frame_closed_def)
  then show "exec ls' (At (ff_events f)) t oc" "oc = Fall \<or> oc = Leave" by (simp, cases oc, auto)
qed

text \<open>Cleanup outside a loop runs the same way from within it.\<close>

lemma unwinds_lift:
  assumes "unwinds lts pf oc ts oc'" "list_all frame_closed pf" "oc \<noteq> Fall" "outer_outcome o1 = Some oc"
  shows "\<exists>o1'. unwinds (lts @ [lt]) pf o1 ts o1' \<and> outer_outcome o1' = Some oc' \<and> oc' \<noteq> Fall"
  using assms
proof (induction arbitrary: o1 rule: unwinds.induct)
  case (unwinds_stop pf oc)
  then show ?case using unwinds.unwinds_stop [of pf "lts @ [lt]" o1] outer_dest(2) [of o1 oc lts lt] by auto
next
  case (unwinds_next oc pf f t ts oc')
  then obtain o1' where "unwinds (lts @ [lt]) pf o1 ts o1'" "outer_outcome o1' = Some oc'" "oc' \<noteq> Fall" by auto
  moreover have "frame_closed f" using unwinds_next.prems by simp
  from closed_exec_lift(1) [OF this unwinds_next.hyps(2)]
  have "exec (labels (lts @ [lt])) (At (ff_events f)) t Fall" .
  moreover have "loop_depth (lts @ [lt]) o1 \<le> length pf"
    using unwinds_next.hyps(1) unwinds_next.prems outer_dest(2) [of o1 oc lts lt] by simp
  ultimately have "unwinds (lts @ [lt]) (pf @ [f]) o1 (t @ ts) o1'" by (intro unwinds.unwinds_next)
  with \<open>outer_outcome o1' = Some oc'\<close> \<open>oc' \<noteq> Fall\<close> show ?case by blast
next
  case (unwinds_replace oc pf f t o2 ts oc')
  have f: "frame_closed f" using unwinds_replace.prems by simp
  have "o2 = Leave" using closed_exec_lift(2) [OF f unwinds_replace.hyps(2)] unwinds_replace.hyps(3) by blast
  then obtain o1' where "unwinds (lts @ [lt]) pf Leave ts o1'" "outer_outcome o1' = Some oc'" "oc' \<noteq> Fall"
    using unwinds_replace.IH [of Leave] unwinds_replace.prems by auto
  moreover have "exec (labels (lts @ [lt])) (At (ff_events f)) t Leave"
    using closed_exec_lift(1) [OF f unwinds_replace.hyps(2)] \<open>o2 = Leave\<close> by simp
  moreover have "loop_depth (lts @ [lt]) o1 \<le> length pf"
    using unwinds_replace.hyps(1) unwinds_replace.prems outer_dest(2) [of o1 oc lts lt] by simp
  ultimately have "unwinds (lts @ [lt]) (pf @ [f]) o1 (t @ ts) o1'" by (intro unwinds.unwinds_replace [where ?o2.0 = Leave]) simp_all
  with \<open>outer_outcome o1' = Some oc'\<close> \<open>oc' \<noteq> Fall\<close> show ?case by blast
qed

definition loop_goal :: "blocks \<Rightarrow> loop_targets list \<Rightarrow> nat \<Rightarrow> finally_frame list \<Rightarrow> nat \<Rightarrow> nat \<times> nat \<Rightarrow> flow_event list \<Rightarrow> outcome \<Rightarrow> bool" where
  "loop_goal bs' lts exit pf after pos t oc \<longleftrightarrow> (oc = Fall \<longrightarrow> run bs' pos t (after, 0))
     \<and> (oc \<noteq> Fall \<longrightarrow> (\<forall>ts oc'. unwinds lts pf oc ts oc' \<longrightarrow> arrives bs' lts exit pos (t @ ts) oc'))"

lemma loop_goal_prepend:
  "run bs' pos t1 (j, 0) \<Longrightarrow> loop_goal bs' lts exit pf after (j, 0) t2 oc \<Longrightarrow> loop_goal bs' lts exit pf after pos (t1 @ t2) oc"
  by (auto simp: loop_goal_def intro: run_trans arrives_prepend)

lemma loop_part_stop:
  assumes s: "sim exit (lts @ [lt]) pf (At x) (i, 0) q bsx" and g: "grows bsx bs'" and fc: "list_all frame_closed pf"
    and lt: "lt_retained lt = length pf"
    and x: "exec (labels (lts @ [lt])) (At x) t o1" "outer_outcome o1 = Some oc"
  shows "loop_goal bs' lts exit pf (lt_break_to lt) (i, 0) t oc"
proof (cases "oc = Fall")
  case True
  then have o1: "o1 = BreakTo 0" using x(2) by (cases o1 rule: outer_outcome.cases) auto
  then have "unwinds (lts @ [lt]) pf o1 [] o1" using lt by (intro unwinds_stop) simp
  with sim_abrupt [OF s x(1) _ this] o1 have "arrives bsx (lts @ [lt]) exit (i, 0) t (BreakTo 0)" by simp
  from arrives_grows [OF this g] True show ?thesis by (simp add: arrives_def loop_goal_def)
next
  case False
  have "o1 \<noteq> Fall" using x(2) by auto
  show ?thesis
    unfolding loop_goal_def
  proof (intro conjI impI allI)
    fix ts oc'
    assume "unwinds lts pf oc ts oc'"
    then obtain o1' where o1': "unwinds (lts @ [lt]) pf o1 ts o1'" "outer_outcome o1' = Some oc'" "oc' \<noteq> Fall"
      using unwinds_lift [OF _ fc False x(2)] by blast
    from arrives_grows [OF sim_abrupt [OF s x(1) \<open>o1 \<noteq> Fall\<close> o1'(1)] g]
    show "arrives bs' lts exit (i, 0) (t @ ts) oc'"
      using outer_dest(1) [OF o1'(2,3), of lts lt exit] outer_dest(3) [OF o1'(2,3)] by (auto simp: arrives_def)
  qed (use False in simp)
qed

lemma loop_part_continue:
  assumes s: "sim exit (lts @ [lt]) pf (At x) (i, 0) q bsx" and g: "grows bsx bs'" and lt: "lt_retained lt = length pf"
    and x: "exec (labels (lts @ [lt])) (At x) t (ContinueTo 0)"
  shows "run bs' (i, 0) t (lt_continue_to lt, 0)"
proof -
  have "unwinds (lts @ [lt]) pf (ContinueTo 0) [] (ContinueTo 0)" using lt by (intro unwinds_stop) simp
  with sim_abrupt [OF s x _ this] have "arrives bsx (lts @ [lt]) exit (i, 0) t (ContinueTo 0)" by simp
  from arrives_grows [OF this g] show ?thesis by (simp add: arrives_def)
qed

lemma event_sim_Loop:
  assumes wc: "walk_sim c exit lts pf" and wb: "\<And>lt. walk_sim b exit (lts @ [lt]) pf" and wu: "\<And>lt. walk_sim us exit (lts @ [lt]) pf"
  shows "event_sim (Loop sp k l c us b) exit lts pf"
proof (rule event_simI)
  fix cur and bs :: blocks and tail bs'
  let ?e = "Loop sp k l c us b"
  assume pr: "sim_pre [?e] lts pf" and pre: "cur < length bs" "open_block (bs ! cur)" "ctx_ok exit lts (length bs)"
    and w: "walk_event ?e cur exit bs lts pf = Some (tail, bs')"
  have fc: "list_all frame_closed pf" using pr by (simp add: sim_pre_def)
  show "sim exit lts pf (At [?e]) (cur, elen bs cur) tail bs'"
  proof (rule walk_Loop [where c = c and b = b and us = us and k = k and l = l and pf = pf and sp = sp,
        OF walk_frame_all walk_frame_all walk_frame_all pre], goal_cases)
    case (1 bs1 ct bs2 ue bs3 nested bt bs4 bs5 ut bs6 bs0)
    note l = 1
    have r: "tail = Suc (Suc (length bs))" "bs0 = bs'" using w l(1) by simp_all
    note l = l [unfolded r(2)]
    define n where "n = length bs"
    define lt where "lt = \<lparr>lt_label = l, lt_break_to = Suc (Suc n),
        lt_continue_to = (if k = LkDoWhile then n else ue), lt_retained = length pf\<rparr>"
    have lt: "lt_retained lt = length pf" "lt_label lt = l" "lt_break_to lt = Suc (Suc n)"
        "lt_continue_to lt = (if k = LkDoWhile then n else ue)" "nested = lts @ [lt]"
      using l(3) by (simp_all add: lt_def n_def)
    note l = l [folded n_def, unfolded lt(5)]
    note sp = sim_pre_Loop [OF pr lt(1,2)]
    have sc: "sim exit lts pf (At c) (n, 0) ct bs2" using walk_simD [OF wc sp(1) l(21,20,22,2)] l(15) by simp
    have sb: "sim exit (lts @ [lt]) pf (At b) (Suc n, 0) bt bs4" using walk_simD [OF wb sp(3) l(24,23,25,4)] l(16) by simp
    have su: "sim exit (lts @ [lt]) pf (At us) (ue, 0) ut bs6" if "us \<noteq> []"
      using walk_simD [OF wu sp(2), of ue bs5 ut bs6] l(6) that by simp
    let ?goal = "loop_goal bs' lts exit pf (Suc (Suc n))"
    have to_body: "run bs' (n, 0) t (Suc n, 0)" if "exec (labels lts) (At c) t Fall" for t
      using sim_part_fall [OF sc l(8) run_refl l(11,17) that] .
    have body_next: "run bs' (Suc n, 0) t (ue, 0)"
      if "exec (l # labels lts) (At b) t o1" "o1 = Fall \<or> o1 = ContinueTo 0 \<and> k \<noteq> LkDoWhile" for t o1
      using that sim_part_fall [OF sb l(9) run_refl l(13,18)] loop_part_continue [OF sb l(9) lt(1)] lt(2,4) by auto
    have up_next: "run bs' (ue, 0) t (n, 0)"
      if x: "exec (l # labels lts) (At us) t o1" "o1 = Fall \<or> o1 = ContinueTo 0 \<and> k = LkDoWhile" for t o1
    proof (cases "us = []")
      case True
      with x l(5) show ?thesis by (auto elim!: exec_NilE intro: run_refl)
    next
      case False
      with l(6) have u: "grows bs6 bs'" "edge bs' ut n" "elen bs' ut = elen bs6 ut" by simp_all
      show ?thesis
        using x sim_part_fall [OF su [OF False] u(1) run_refl u(2,3)] loop_part_continue [OF su [OF False] u(1) lt(1)] lt(2,4) by auto
    qed
    have us_ne: "us \<noteq> []" if "exec ls (At us) t o1" "o1 \<noteq> Fall" for ls t o1
      using that by (auto elim!: exec_NilE)
    have phases: "(p = LoopHeadAt ?e \<longrightarrow> ?goal (n, 0) t oc) \<and> (p = LoopBodyAt ?e \<longrightarrow> ?goal (Suc n, 0) t oc)
        \<and> (p = LoopUpdateAt ?e \<longrightarrow> ?goal (ue, 0) t oc)" if "exec ls p t oc" "ls = labels lts" for ls p t oc
      using that
    proof (induction rule: exec.induct)
      case (exec_head_exit k' ls c' t sp' l' u' b')
      then show ?case using sim_part_fall [OF sc l(8) run_refl _ l(17)] l(12) by (auto simp: loop_goal_def)
    next
      case (exec_head_stop ls c' t oc sp' k' l' u' b')
      then show ?case using sim_part_abrupt [OF sc l(8) run_refl] by (auto simp: loop_goal_def)
    next
      case (exec_head_body ls c' t1 sp' k' l' u' b' t2 oc)
      then show ?case using loop_goal_prepend [OF to_body] by auto
    next
      case (exec_body_stop l' ls b' t o1 oc sp' k' c' u')
      then show ?case using loop_part_stop [OF sb l(9) fc lt(1)] lt(2,3) by auto
    next
      case (exec_body_next l' ls b' t1 o1 k' sp' c' u' t2 oc)
      then show ?case using loop_goal_prepend [OF body_next [of t1 o1]] by auto
    next
      case (exec_body_retest l' ls b' t1 sp' c' u' t2 oc)
      then show ?case using loop_goal_prepend [OF loop_part_continue [OF sb l(9) lt(1)]] lt(2,4) by auto
    next
      case (exec_update_stop l' ls u' t o1 oc sp' k' c' b')
      then show ?case using loop_part_stop [OF su _ fc lt(1)] l(6) us_ne lt(2,3) by fastforce
    next
      case (exec_update_head l' ls u' t1 o1 k' sp' c' b' t2 oc)
      then show ?case using loop_goal_prepend [OF up_next [of t1 o1]] by auto
    next
      case (exec_update_again l' ls u' t1 k' sp' c' b' t2 oc)
      then show ?case using loop_goal_prepend [OF loop_part_continue [OF su _ lt(1)]] l(6) us_ne lt(2,4) by fastforce
    qed simp_all
    have "?goal (cur, elen bs cur) t oc" if "exec (labels lts) (InRegion ?e) t oc" for t oc
      using that
    proof (rule exec_LoopE)
      assume "k \<noteq> LkDoWhile" "exec (labels lts) (LoopHeadAt ?e) t oc"
      with loop_goal_prepend [OF run_edge [OF l(10)]] l(14) phases show ?thesis by fastforce
    next
      assume "k = LkDoWhile" "exec (labels lts) (LoopBodyAt (Loop sp LkDoWhile l c us b)) t oc"
      with loop_goal_prepend [OF run_edge [OF l(10)]] l(14) phases show ?thesis by fastforce
    qed
    then have "sim exit lts pf (InRegion ?e) (cur, elen bs cur) tail bs'"
      using l(19) r(1) by (simp add: sim_def loop_goal_def n_def)
    then show ?case by (simp add: sim_region)
  qed
qed

section \<open>Every walk\<close>

interpretation simulated: walk_property walk_sim event_sim append_sim
proof (unfold_locales, goal_cases)
  case (5 c exit lts pf u b sp k l)
  then show ?case by (simp add: event_sim_Loop)
next
  case (8 b exit lts pf sp)
  then show ?case by (simp add: event_sim_def sim_pre_def)
next
  case 10
  then show ?case by (intro append_sim_step) simp
qed (simp_all add: walk_sim_Nil walk_sim_Cons event_sim_abrupt event_sim_Branch event_sim_Try event_sim_Using event_sim_leaf)

lemmas walk_sim_all = simulated.walks

end
