(* ===== verification/Cfg_Graph.thy ===== *)
theory Cfg_Graph
  imports Cfg_Paths
begin

text \<open>
  The finished graph of \<^verbatim>\<open>build_cfg_from_flow_in_span\<close>: what compaction keeps, and the properties of
  the builder as a whole.
\<close>

section \<open>Compaction\<close>

definition rank :: "bool list \<Rightarrow> nat \<Rightarrow> nat" where
  "rank ks i = length (filter (\<lambda>k. k) (take i ks))"

lemma rank_simps [simp]:
  "rank ks 0 = 0" "rank (k # ks) (Suc i) = (if k then Suc (rank ks i) else rank ks i)"
  by (simp_all add: rank_def)

lemma length_remap_from [simp]: "length (remap_from n ks) = length ks"
  by (induction n ks rule: remap_from.induct) simp_all

lemma remap_from_nth: "i < length ks \<Longrightarrow> remap_from n ks ! i = (if ks ! i then Some (n + rank ks i) else None)"
proof (induction n ks arbitrary: i rule: remap_from.induct)
  case (2 n ks)
  then show ?case by (cases i) simp_all
next
  case (3 n ks)
  then show ?case by (cases i) simp_all
qed simp

lemma rank_less: "i < length ks \<Longrightarrow> ks ! i \<Longrightarrow> rank ks i < length (filter (\<lambda>k. k) ks)"
proof (induction ks arbitrary: i)
  case (Cons k ks)
  then show ?case by (cases i) auto
qed simp

lemma rank_surj: "j < length (filter (\<lambda>k. k) ks) \<Longrightarrow> \<exists>i < length ks. ks ! i \<and> rank ks i = j"
proof (induction ks arbitrary: j)
  case (Cons k ks)
  show ?case
  proof (cases "k \<and> j = 0")
    case True
    then show ?thesis by (intro exI [of _ 0]) simp
  next
    case False
    with Cons.prems have "(if k then j - 1 else j) < length (filter (\<lambda>k. k) ks)" by (cases k) auto
    from Cons.IH [OF this] obtain i where "i < length ks" "ks ! i" "rank ks i = (if k then j - 1 else j)" by blast
    with False show ?thesis by (intro exI [of _ "Suc i"]) (cases k, auto)
  qed
qed simp

lemma compact_nth:
  assumes "i < length ks" "ks ! i" "length bs = length ks"
  shows "List.map_filter (compact_block rm) (zip (remap_from n ks) bs) ! rank ks i =
    (bs ! i)\<lparr>bb_id := of_nat (n + rank ks i), bb_successors := List.map_filter (remap_successor rm) (bb_successors (bs ! i))\<rparr>"
  using assms
proof (induction n ks arbitrary: i bs rule: remap_from.induct)
  case (2 n ks)
  then show ?case by (cases i; cases bs) (simp_all add: map_filter_simps compact_block_def)
next
  case (3 n ks)
  then show ?case by (cases i; cases bs) (simp_all add: map_filter_simps compact_block_def)
qed simp

lemma compact_length:
  "length bs = length ks \<Longrightarrow> length (List.map_filter (compact_block rm) (zip (remap_from n ks) bs)) = length (filter (\<lambda>k. k) ks)"
proof (induction n ks arbitrary: bs rule: remap_from.induct)
  case (2 n ks)
  then show ?case by (cases bs) (simp_all add: map_filter_simps compact_block_def)
next
  case (3 n ks)
  then show ?case by (cases bs) (simp_all add: map_filter_simps compact_block_def)
qed (simp add: map_filter_simps)

text \<open>A block with an incoming edge has a positive count.\<close>

definition bump :: "block_id \<Rightarrow> nat list \<Rightarrow> nat list" where
  "bump s inc = (if unat s < length inc then inc[unat s := inc ! unat s + 1] else inc)"

lemma bump_fold:
  "length (fold bump ss inc) = length inc"
  "i < length inc \<Longrightarrow> 0 < fold bump ss inc ! i \<longleftrightarrow> 0 < inc ! i \<or> i \<in> unat ` set ss"
  by (induction ss arbitrary: inc) (auto simp: bump_def nth_list_update)

lemma incoming_counts_pos:
  assumes "i < length bs"
  shows "0 < incoming_counts bs ! i \<longleftrightarrow> (\<exists>b \<in> set bs. i \<in> unat ` set (bb_successors b))"
proof -
  let ?step = "\<lambda>b. fold bump (bb_successors b)"
  have "length (fold ?step cs inc) = length inc
      \<and> (\<forall>i < length inc. 0 < fold ?step cs inc ! i \<longleftrightarrow>
          0 < inc ! i \<or> (\<exists>b \<in> set cs. i \<in> unat ` set (bb_successors b)))" for cs inc
    by (induction cs arbitrary: inc) (auto simp: bump_fold)
  from this [of bs "replicate (length bs) 0"] assms
  have "0 < fold ?step bs (replicate (length bs) 0) ! i \<longleftrightarrow> (\<exists>b \<in> set bs. i \<in> unat ` set (bb_successors b))"
    by simp
  moreover have "incoming_counts bs = fold ?step bs (replicate (length bs) 0)"
    by (simp add: incoming_counts_def bump_def [abs_def])
  ultimately show ?thesis by simp
qed

text \<open>What compaction does to a well-formed graph of at most \<open>2 ^ 32\<close> blocks: the kept blocks in order, with successors renumbered.\<close>

lemma keep_flags_nth:
  "i < length bs \<Longrightarrow> keep_flags bs entry exit ! i = keep_block (incoming_counts bs) entry exit i (bs ! i)"
  "length (keep_flags bs entry exit) = length bs"
  by (simp_all add: keep_flags_def)

lemma successor_kept:
  assumes "wf_blocks bs" "length bs \<le> 2 ^ 32" "b \<in> set bs" "s \<in> set (bb_successors b)"
  shows "unat s < length bs" "keep_flags bs entry exit ! unat s"
proof -
  obtain i where "i < length bs" "b = bs ! i" using assms(3) by (auto simp: in_set_conv_nth)
  then obtain j where "j < length bs" "s = of_nat j" using assms(1,4) unfolding wf_blocks_def by fastforce
  then show l: "unat s < length bs" using assms(2) by (simp add: unat_of_nat_u32)
  then show "keep_flags bs entry exit ! unat s"
    using assms(3,4) by (auto simp: keep_flags_nth keep_block_def incoming_counts_pos)
qed

lemma map_filter_map: "(\<And>x. x \<in> set xs \<Longrightarrow> f x = Some (g x)) \<Longrightarrow> List.map_filter f xs = map g xs"
  by (induction xs) (simp_all add: map_filter_simps)

lemma remap_successors:
  assumes "wf_blocks bs" "length bs \<le> 2 ^ 32" "b \<in> set bs"
  shows "List.map_filter (remap_successor (remap_from 0 (keep_flags bs entry exit))) (bb_successors b)
    = map (\<lambda>s. of_nat (rank (keep_flags bs entry exit) (unat s))) (bb_successors b)"
  by (rule map_filter_map) (use successor_kept [OF assms] in \<open>simp add: remap_successor_def remap_from_nth keep_flags_nth(2)\<close>)

definition compacted :: "blocks \<Rightarrow> bool list \<Rightarrow> blocks \<Rightarrow> bool" where
  "compacted bs ks cs \<longleftrightarrow> length ks = length bs \<and> length (filter (\<lambda>k. k) ks) = length cs \<and> length cs \<le> length bs
     \<and> (\<forall>i < length bs. ks ! i \<longrightarrow> rank ks i < length cs \<and> cs ! rank ks i = (bs ! i)\<lparr>bb_id := of_nat (rank ks i),
          bb_successors := map (\<lambda>s. of_nat (rank ks (unat s))) (bb_successors (bs ! i))\<rparr>
          \<and> (\<forall>s \<in> set (bb_successors (bs ! i)). unat s < length bs \<and> ks ! unat s))"

lemma compactedD:
  assumes "compacted bs ks cs" "i < length bs" "ks ! i"
  shows "rank ks i < length cs" "bb_id (cs ! rank ks i) = of_nat (rank ks i)" "bb_events (cs ! rank ks i) = bb_events (bs ! i)"
    "bb_terminator (cs ! rank ks i) = bb_terminator (bs ! i)" "elen cs (rank ks i) = elen bs i"
    "bb_successors (cs ! rank ks i) = map (\<lambda>s. of_nat (rank ks (unat s))) (bb_successors (bs ! i))"
    "s \<in> set (bb_successors (bs ! i)) \<Longrightarrow> unat s < length bs \<and> ks ! unat s"
    "bb_synthetic_kind (cs ! rank ks i) = bb_synthetic_kind (bs ! i)"
  using assms by (simp_all add: compacted_def elen_def)

lemma compact_ids_spec:
  assumes "wf_blocks bs" "length bs \<le> 2 ^ 32" "entry < length bs" "exit < length bs"
  obtains ks cs where "compact_ids bs entry exit = Some (of_nat (rank ks entry), of_nat (rank ks exit), cs)"
    "compacted bs ks cs" "ks ! entry" "ks ! exit" "ks = keep_flags bs entry exit"
proof -
  define ks where "ks = keep_flags bs entry exit"
  define cs where "cs = List.map_filter (compact_block (remap_from 0 ks)) (zip (remap_from 0 ks) bs)"
  have len: "length ks = length bs" by (simp add: ks_def keep_flags_nth)
  have kept: "ks ! entry" "ks ! exit" using assms by (simp_all add: ks_def keep_flags_nth keep_block_def)
  have lc: "length cs = length (filter (\<lambda>k. k) ks)" using len by (simp add: cs_def compact_length)
  have "compacted bs ks cs"
    unfolding compacted_def
  proof (intro conjI allI impI ballI)
    fix i
    assume i: "i < length bs" "ks ! i"
    then have b: "bs ! i \<in> set bs" by simp
    show "rank ks i < length cs" using i rank_less [of i ks] len lc by simp
    show "cs ! rank ks i = (bs ! i)\<lparr>bb_id := of_nat (rank ks i),
        bb_successors := map (\<lambda>s. of_nat (rank ks (unat s))) (bb_successors (bs ! i))\<rparr>"
      using compact_nth [of i ks bs "remap_from 0 ks" 0] i len remap_successors [OF assms(1,2) b, of entry exit]
      by (simp add: cs_def ks_def)
    show "unat s < length bs" "ks ! unat s" if "s \<in> set (bb_successors (bs ! i))" for s
      using successor_kept [OF assms(1,2) b that] by (simp_all add: ks_def)
  qed (use len lc in \<open>simp_all add: length_filter_le flip: len\<close>)
  moreover have "compact_ids bs entry exit = Some (of_nat (rank ks entry), of_nat (rank ks exit), cs)"
    using assms(3,4) kept len
    by (simp add: compact_ids_def ks_def [symmetric] cs_def [symmetric] remapped_id_def remap_from_nth)
  ultimately show thesis using that kept ks_def by blast
qed

lemma compacted_wf:
  assumes "compacted bs ks cs" "length bs \<le> 2 ^ 32"
  shows "wf_blocks cs"
  unfolding wf_blocks_def
proof (intro allI impI)
  fix j
  assume "j < length cs"
  then obtain i where "i < length bs" "ks ! i" "rank ks i = j"
    using rank_surj [of j ks] assms(1) by (auto simp: compacted_def)
  with compactedD [OF assms(1)] show "bb_id (cs ! j) = of_nat j \<and> set (bb_successors (cs ! j)) \<subseteq> of_nat ` {..< length cs}"
    by auto
qed

lemma compacted_edge:
  assumes "compacted bs ks cs" "length bs \<le> 2 ^ 32" "edge bs i j" "ks ! i"
  shows "edge cs (rank ks i) (rank ks j)" "ks ! j"
proof -
  have ij: "i < length bs" "j < length bs" "of_nat j \<in> set (bb_successors (bs ! i))" using assms(3) by (simp_all add: edge_def)
  then have u: "unat (of_nat j :: block_id) = j" using assms(2) by (simp add: unat_of_nat_u32)
  then show "ks ! j" using compactedD(7) [OF assms(1) ij(1) assms(4) ij(3)] by simp
  then show "edge cs (rank ks i) (rank ks j)"
    using compactedD [OF assms(1) ij(1) assms(4)] compactedD(1) [OF assms(1) ij(2)] ij u
    by (auto simp: edge_def intro!: image_eqI [of _ _ "of_nat j"])
qed

lemma compacted_run:
  assumes "run bs x t y" "compacted bs ks cs" "length bs \<le> 2 ^ 32" "ks ! fst x"
  shows "run cs (rank ks (fst x), snd x) t (rank ks (fst y), snd y) \<and> ks ! fst y"
  using assms
proof (induction rule: run.induct)
  case (run_emit i k t y)
  then have i: "i < length bs" "ks ! i" by simp_all
  note compactedD [OF run_emit.prems(1) i]
  with run_emit run.run_emit [of "rank ks i" cs k t "(rank ks (fst y), snd y)"] show ?case
    by (simp add: elen_def)
next
  case (run_jump i j k t y)
  then have "i < length bs" "ks ! i" by (simp_all add: edge_def)
  with run_jump have "elen cs (rank ks i) = elen bs i" by (simp add: compactedD)
  moreover note compacted_edge [OF run_jump.prems(1,2) run_jump.hyps(1)]
  ultimately show ?case using run_jump run.run_jump [of cs "rank ks i" "rank ks j" k t "(rank ks (fst y), snd y)"] by simp
qed (simp add: run_refl)

text \<open>Filling spans changes nothing a path depends on.\<close>

lemma fill_span_simps [simp]:
  "bb_id (fill_span fs b) = bb_id b" "bb_events (fill_span fs b) = bb_events b" "bb_successors (fill_span fs b) = bb_successors b"
  "bb_terminator (fill_span fs b) = bb_terminator b" "bb_synthetic_kind (fill_span fs b) = bb_synthetic_kind b"
  by (simp_all add: fill_span_def split: option.split)

lemma fill_span_wf: "wf_blocks (map (fill_span fs) bs) = wf_blocks bs"
  by (simp add: wf_blocks_def)

lemma fill_span_run: "run bs x t y \<Longrightarrow> run (map (fill_span fs) bs) x t y"
proof (induction rule: run.induct)
  case (run_emit i k t y)
  then show ?case using run.run_emit [of i "map (fill_span fs) bs" k t y] by (simp add: elen_def)
next
  case (run_jump i j k t y)
  then have "i < length bs" by (simp add: edge_def)
  with run_jump show ?case using run.run_jump [of "map (fill_span fs) bs" i j k t y] by (simp add: elen_def edge_def)
qed (rule run_refl)

section \<open>The steps of a walk\<close>

lemma walk_BranchE:
  assumes "walk_event (Branch sp c a b) cur exit bs lts pf = Some (tail, bs')"
  obtains th el b1 tt b2 et b3 b4 where "branch_fork bs cur sp = Some (tail, th, el, b1)"
    "walk_with_finally a th exit b1 lts pf = Some (tt, b2)" "walk_with_finally b el exit b2 lts pf = Some (et, b3)"
    "link b3 tt tail = Some b4" "link b4 et tail = Some bs'"
proof -
  note go = assms [unfolded walk_event.simps, simplified is_abrupt_def, simplified]
  then obtain j th el b1 where "branch_fork bs cur sp = Some (j, th, el, b1)" by (auto split: bind_splits)
  with go that show thesis by (auto split: bind_splits)
qed

lemma walk_LoopE:
  assumes "walk_event (Loop sp k l c u b) cur exit bs lts pf = Some (tail, bs')"
  obtains h bi b1 ct b2 ue b3 lt bt b4 b5 where "loop_fork bs cur sp = Some (h, bi, tail, b1)"
    "walk_with_finally c h exit b1 lts pf = Some (ct, b2)" "loop_wire b2 cur k h bi tail ct u sp = Some (ue, b3)"
    "lt = \<lparr>lt_label = l, lt_break_to = tail, lt_continue_to = (if k = LkDoWhile then h else ue), lt_retained = length pf\<rparr>"
    "walk_with_finally b bi exit b3 (lts @ [lt]) pf = Some (bt, b4)" "link b4 bt ue = Some b5"
    "u = [] \<longrightarrow> bs' = b5"
    "u \<noteq> [] \<longrightarrow> (\<exists>ut b6. walk_with_finally u ue exit b5 (lts @ [lt]) pf = Some (ut, b6) \<and> link b6 ut h = Some bs')"
proof -
  note go = assms [unfolded walk_event.simps, simplified is_abrupt_def, simplified, unfolded Let_def]
  obtain h bi a b1 where w1: "loop_fork bs cur sp = Some (h, bi, a, b1)"
    using go by (auto split: bind_splits)
  obtain ct b2 where w2: "walk_with_finally c h exit b1 lts pf = Some (ct, b2)"
    using go w1 by (auto split: bind_splits)
  obtain ue b3 where w3: "loop_wire b2 cur k h bi a ct u sp = Some (ue, b3)"
    using go w1 w2 by (auto split: bind_splits)
  define lt where "lt = \<lparr>lt_label = l, lt_break_to = a, lt_continue_to = (if k = LkDoWhile then h else ue), lt_retained = length pf\<rparr>"
  have go: "walk_with_finally b bi exit b3 (lts @ [lt]) pf \<bind> (\<lambda>(bt, bs). link bs bt ue \<bind> (\<lambda>bs.
      if u = [] then Some (a, bs) else walk_with_finally u ue exit bs (lts @ [lt]) pf \<bind> (\<lambda>(ut, bs). link bs ut h \<bind> (\<lambda>bs. Some (a, bs)))))
    = Some (tail, bs')"
    using go unfolding lt_def by (simp only: w1 w2 w3 Option.bind_lunit prod.case)
  then obtain bt b4 b5 where w4: "walk_with_finally b bi exit b3 (lts @ [lt]) pf = Some (bt, b4)" "link b4 bt ue = Some b5"
    by (auto split: bind_splits)
  have at: "a = tail" using go w4 by (auto split: bind_splits if_splits)
  show thesis
    by (rule that [OF w1 [unfolded at] w2 w3 [unfolded at] lt_def [unfolded at] w4])
      (use go w4 in \<open>auto split: bind_splits if_splits\<close>)
qed

lemma walk_TryE:
  assumes "walk_event (Try sp b c fs p ty arms) cur exit bs lts pf = Some (tail, bs')"
  obtains fr ti ci b1 tt b2 ct b3 b4 b5 where "fr = \<lparr>ff_span = sp, ff_events = fs\<rparr>"
    "try_fork bs cur sp (has_catch c p ty arms) = Some (ti, ci, b1)"
    "walk_with_finally b ti exit b1 lts (pf @ [fr]) = Some (tt, b2)"
    "ci = None \<longrightarrow> ct = None \<and> b3 = b2"
    "\<forall>i. ci = Some i \<longrightarrow> (\<exists>t. walk_with_finally c i exit b2 lts (pf @ [fr]) = Some (t, b3) \<and> ct = Some t)"
    "link (b3 @ [fresh_block (length b3) (block_label ''finally@'' sp) (Some SbFinally)]) tt (length b3) = Some b4"
    "ct = None \<longrightarrow> b5 = b4" "\<forall>t. ct = Some t \<longrightarrow> link b4 t (length b3) = Some b5"
    "walk_with_finally fs (length b3) exit b5 lts pf = Some (tail, bs')"
proof -
  define fr where "fr = \<lparr>ff_span = sp, ff_events = fs\<rparr>"
  note go = assms [unfolded walk_event.simps, simplified is_abrupt_def, simplified, unfolded Let_def new_block_fresh, simplified,
    folded fr_def]
  obtain ti ci b1 where w1: "try_fork bs cur sp (has_catch c p ty arms) = Some (ti, ci, b1)"
    using go by (auto split: bind_splits)
  obtain tt b2 where w2: "walk_with_finally b ti exit b1 lts (pf @ [fr]) = Some (tt, b2)"
    using go w1 by (auto split: bind_splits)
  obtain ct b3 where w3: "(case ci of None \<Rightarrow> Some (None, b2)
      | Some i \<Rightarrow> walk_with_finally c i exit b2 lts (pf @ [fr]) \<bind> (\<lambda>(t, bs). Some (Some t, bs))) = Some (ct, b3)"
    using go w1 w2 by (auto split: bind_splits)
  obtain b4 b5 where w4: "link (b3 @ [fresh_block (length b3) (block_label ''finally@'' sp) (Some SbFinally)]) tt (length b3) = Some b4"
      "(case ct of None \<Rightarrow> Some b4 | Some t \<Rightarrow> link b4 t (length b3)) = Some b5"
      "walk_with_finally fs (length b3) exit b5 lts pf = Some (tail, bs')"
    using go w1 w2 w3 by (auto split: bind_splits)
  show thesis
    by (rule that [of fr ti ci b1 tt b2 ct b3 b4 b5, OF fr_def w1 w2 _ _ w4(1) _ _ w4(3)]) (use w3 w4(2) in \<open>auto split: option.splits bind_splits\<close>)
qed

lemma walk_abruptE:
  assumes "walk_event e cur exit bs lts pf = Some (tail, bs')" "is_abrupt e"
  obtains b1 b2 where "abrupt_here bs cur e = Some b1" "dead_block b2 = Some (tail, bs')"
    "b2 = b1 \<or> link b1 cur (fst (control_transfer_target e lts exit)) = Some b2
     \<or> append_finally_path (length pf) cur (fst (control_transfer_target e lts exit)) exit b1 lts pf
         (snd (control_transfer_target e lts exit)) = Some b2"
proof -
  obtain ft ret where t: "control_transfer_target e lts exit = (ft, ret)" by fastforce
  note go = assms(1) [unfolded walk_event.simps if_P [OF assms(2)] t, simplified]
  obtain b1 b2 where w: "abrupt_here bs cur e = Some b1" "(if length pf = ret
      then if is_break_or_continue e then link b1 cur ft else Some b1
      else append_finally_path (length pf) cur ft exit b1 lts pf ret) = Some b2" "dead_block b2 = Some (tail, bs')"
    using go by (auto split: bind_splits)
  show thesis by (rule that [OF w(1,3)]) (use w(2) t in \<open>auto split: if_splits\<close>)
qed

lemma append_stepE:
  assumes "append_finally_path n cur target exit bs lts pf retained = Some bs'"
  obtains (stop) "link bs cur target = Some bs'"
  | (step) f fi b1 cur2 b2 where "0 < n" "vec_get pf (n - Suc 0) = Some f" "copy_finally bs cur (ff_span f) = Some (fi, b1)"
        "walk_with_finally (ff_events f) fi exit b1 lts (take (n - 1) pf) = Some (cur2, b2)"
        "append_finally_path (n - 1) cur2 target exit b2 lts pf retained = Some bs'"
proof (cases "retained < n")
  case True
  then show thesis using assms step by (auto simp: append_finally_path.simps [of n] split: bind_splits)
next
  case False
  then show thesis using assms stop by (simp add: append_finally_path.simps [of n])
qed

lemma walk_leafE:
  assumes "walk_event e cur exit bs lts pf = Some (tail, bs')" "\<not> is_abrupt e" "\<not> is_region e"
  obtains b1 where "record_span bs cur (event_span e) = Some b1" "push_event b1 cur e = Some bs'"
proof -
  have "walk_event e cur exit bs lts pf = do {
      bs \<leftarrow> record_span bs cur (event_span e); bs \<leftarrow> push_event bs cur e; Some (cur, bs) }"
    using assms(2,3) by (cases e) (simp_all add: walk_event.simps is_abrupt_def)
  with assms(1) that show thesis by (auto split: bind_splits)
qed

section \<open>The events of the graph\<close>

text \<open>
  \<open>leaves es\<close> are the events of a tree that are not regions. A walk adds exactly the leaves of its
  sequence to the blocks, and besides at most copies of the pending cleanup.
\<close>

definition leaves :: "flow_event list \<Rightarrow> flow_event set" where
  "leaves es = {e \<in> set (pre_order es). \<not> is_region e}"

lemma leaves_simps [simp]:
  "leaves [] = {}" "leaves (xs @ ys) = leaves xs \<union> leaves ys"
  by (auto simp: leaves_def)

lemma leaves_Cons: "leaves (e # es) = (if is_region e then leaves (nested_events e) else {e}) \<union> leaves es"
  by (cases e) (auto simp: leaves_def)

lemma normalize_leaves [simp]: "leaves (normalize_deferred_scopes es) = leaves es"
proof (induction es rule: normalize_deferred_scopes.induct)
  case (2 e es)
  then show ?case by (cases e) (auto simp: leaves_Cons)
qed simp

definition block_events :: "blocks \<Rightarrow> flow_event set" where
  "block_events bs = (\<Union>b \<in> set bs. set (bb_events b))"

lemma block_events_simps [simp]:
  "block_events [] = {}" "block_events (b # bs) = set (bb_events b) \<union> block_events bs"
  "block_events (bs @ cs) = block_events bs \<union> block_events cs"
  by (auto simp: block_events_def)

lemma block_events_update:
  assumes "update_block bs i f = Some bs'" "\<And>b. bb_events (f b) = bb_events b"
  shows "block_events bs' = block_events bs"
proof -
  have i: "i < length bs" "bs' = bs[i := f (bs ! i)]"
    using assms(1) by (auto simp: update_block_def vec_get_def vec_set_def split: bind_splits if_splits)
  have "map bb_events bs' = map bb_events bs"
    using i assms(2) by (intro nth_equalityI) (auto simp: nth_list_update)
  then have "\<Union> (set (map (set \<circ> bb_events) bs')) = \<Union> (set (map (set \<circ> bb_events) bs))"
    by (metis map_map)
  then show ?thesis by (simp add: block_events_def)
qed

lemma block_events_iff: "x \<in> block_events bs \<longleftrightarrow> (\<exists>j < length bs. x \<in> set (bb_events (bs ! j)))"
  unfolding block_events_def by (metis UN_iff in_set_conv_nth)

lemma block_events_push:
  assumes "push_event bs i e = Some bs'"
  shows "block_events bs' = insert e (block_events bs)"
proof -
  have i: "i < length bs" "bs' = bs[i := (bs ! i)\<lparr>bb_events := bb_events (bs ! i) @ [e]\<rparr>]"
    using assms by (auto simp: push_event_def update_block_def vec_get_def vec_set_def split: bind_splits if_splits)
  have "x \<in> block_events bs' \<longleftrightarrow> x \<in> insert e (block_events bs)" for x
    using i(1) unfolding insert_iff block_events_iff i(2)
    by (cases "x = e") (auto simp: nth_list_update split: if_splits)
  then show ?thesis by blast
qed

lemma link_events: "link bs i j = Some bs' \<Longrightarrow> block_events bs' = block_events bs"
  unfolding link_def Let_def by (erule block_events_update) simp

lemma record_span_events: "record_span bs i sp = Some bs' \<Longrightarrow> block_events bs' = block_events bs"
  unfolding record_span_def by (erule block_events_update) simp

lemma set_terminator_events: "set_terminator bs i t = Some bs' \<Longrightarrow> block_events bs' = block_events bs"
  unfolding set_terminator_def by (erule block_events_update) simp

lemmas blk_events = link_events record_span_events set_terminator_events

lemma fork_events:
  "branch_fork bs cur sp = Some (j, t, e, bs') \<Longrightarrow> block_events bs' = block_events bs"
  "loop_fork bs cur sp = Some (h, b, a, bs') \<Longrightarrow> block_events bs' = block_events bs"
  "loop_wire bs cur k h b a c us sp = Some (ue, bs') \<Longrightarrow> block_events bs' = block_events bs"
  by (clarsimp simp: branch_fork_def loop_fork_def loop_wire_def new_block_fresh split: bind_splits if_splits;
    (drule blk_events)+; simp)+

lemma region_events:
  "try_fork bs cur sp ca = Some (ti, ci, bs') \<Longrightarrow> block_events bs' = block_events bs"
  "copy_finally bs cur sp = Some (fi, bs') \<Longrightarrow> block_events bs' = block_events bs"
  "dead_block bs = Some (d, bs') \<Longrightarrow> block_events bs' = block_events bs"
  "abrupt_here bs cur e = Some bs' \<Longrightarrow> block_events bs' = insert e (block_events bs)"
  by (clarsimp simp: try_fork_def copy_finally_def dead_block_def abrupt_here_def new_block_fresh split: bind_splits if_splits;
    (drule blk_events block_events_push)+; simp)+

definition frame_leaves :: "finally_frame list \<Rightarrow> flow_event set" where
  "frame_leaves pf = (\<Union>f \<in> set pf. leaves (ff_events f))"

definition adds :: "blocks \<Rightarrow> flow_event set \<Rightarrow> flow_event set \<Rightarrow> blocks \<Rightarrow> bool" where
  "adds bs must may bs' \<longleftrightarrow> block_events bs \<union> must \<subseteq> block_events bs' \<and> block_events bs' \<subseteq> block_events bs \<union> must \<union> may"

definition walk_adds :: "flow_event list \<Rightarrow> nat \<Rightarrow> loop_targets list \<Rightarrow> finally_frame list \<Rightarrow> bool" where
  "walk_adds es exit lts pf \<longleftrightarrow> (\<forall>cur bs tail bs'. walk_with_finally es cur exit bs lts pf = Some (tail, bs') \<longrightarrow>
     adds bs (leaves es) (frame_leaves pf) bs')"

definition event_adds :: "flow_event \<Rightarrow> nat \<Rightarrow> loop_targets list \<Rightarrow> finally_frame list \<Rightarrow> bool" where
  "event_adds e exit lts pf \<longleftrightarrow> (\<forall>cur bs tail bs'. walk_event e cur exit bs lts pf = Some (tail, bs') \<longrightarrow>
     adds bs (leaves [e]) (frame_leaves pf) bs')"

definition append_adds :: "nat \<Rightarrow> nat \<Rightarrow> loop_targets list \<Rightarrow> finally_frame list \<Rightarrow> bool" where
  "append_adds n exit lts pf \<longleftrightarrow> (\<forall>cur target bs retained bs'.
     append_finally_path n cur target exit bs lts pf retained = Some bs' \<longrightarrow> adds bs {} (frame_leaves pf) bs')"

lemma frame_leaves_simps [simp]:
  "frame_leaves [] = {}" "frame_leaves (pf @ [f]) = frame_leaves pf \<union> leaves (ff_events f)"
  by (auto simp: frame_leaves_def)

lemma adds_walk:
  "walk_adds es exit lts pf \<Longrightarrow> walk_with_finally es cur exit bs lts pf = Some (tail, bs') \<Longrightarrow> adds bs (leaves es) (frame_leaves pf) bs'"
  by (simp add: walk_adds_def)

lemma adds_same: "block_events b = block_events a \<Longrightarrow> adds a {} P b"
  by (auto simp: adds_def)

lemma adds_trans: "adds a m P b \<Longrightarrow> adds b m' P c \<Longrightarrow> adds a (m \<union> m') P c"
  unfolding adds_def by blast

lemma adds_mono: "adds a m P b \<Longrightarrow> P \<subseteq> P' \<Longrightarrow> adds a m P' b"
  unfolding adds_def by blast

lemma adds_link: "link bs i j = Some bs' \<Longrightarrow> adds bs {} P bs'"
  by (intro adds_same link_events)

lemma event_adds_Branch:
  assumes a: "walk_adds a exit lts pf" and b: "walk_adds b exit lts pf"
  shows "event_adds (Branch sp c a b) exit lts pf"
  unfolding event_adds_def
proof (intro allI impI, erule walk_BranchE, goal_cases)
  case (1 cur bs tail bs' th el b1 tt b2 et b3 b4)
  from adds_trans [OF adds_same [OF fork_events(1) [OF 1(1)]] adds_trans [OF adds_walk [OF a 1(2)]
    adds_trans [OF adds_walk [OF b 1(3)] adds_trans [OF adds_link [OF 1(4)] adds_link [OF 1(5)]]]]]
  show ?case by (simp add: leaves_Cons)
qed

lemma event_adds_Loop:
  assumes c: "walk_adds c exit lts pf" and u: "\<And>lt. walk_adds u exit (lts @ [lt]) pf" and b: "\<And>lt. walk_adds b exit (lts @ [lt]) pf"
  shows "event_adds (Loop sp k l c u b) exit lts pf"
  unfolding event_adds_def
proof (intro allI impI, erule walk_LoopE, goal_cases)
  case (1 cur bs tail bs' h bi b1 ct b2 ue b3 lt bt b4 b5)
  have "adds b5 (leaves u) (frame_leaves pf) bs'"
  proof (cases "u = []")
    case True
    with 1(7) show ?thesis by (simp add: adds_def)
  next
    case False
    with 1(8) obtain ut b6 where "walk_with_finally u ue exit b5 (lts @ [lt]) pf = Some (ut, b6)" "link b6 ut h = Some bs'" by auto
    from adds_trans [OF adds_walk [OF u this(1)] adds_link [OF this(2)]] show ?thesis by simp
  qed
  from adds_trans [OF adds_same [OF fork_events(2) [OF 1(1)]] adds_trans [OF adds_walk [OF c 1(2)]
    adds_trans [OF adds_same [OF fork_events(3) [OF 1(3)]] adds_trans [OF adds_walk [OF b 1(5)]
    adds_trans [OF adds_link [OF 1(6)] this]]]]]
  show ?case by (simp add: leaves_Cons)
qed

lemma event_adds_Try:
  assumes b: "walk_adds b exit lts (pf @ [\<lparr>ff_span = sp, ff_events = fs\<rparr>])" and c: "walk_adds c exit lts (pf @ [\<lparr>ff_span = sp, ff_events = fs\<rparr>])"
    and f: "walk_adds fs exit lts pf"
  shows "event_adds (Try sp b c fs p ty arms) exit lts pf"
  unfolding event_adds_def
proof (intro allI impI, erule walk_TryE, goal_cases)
  case (1 cur bs tail bs' fr ti ci b1 tt b2 ct b3 b4 b5)
  have fr: "ff_events fr = fs" using 1(1) by simp
  note b = b [folded 1(1)] and c = c [folded 1(1)]
  let ?P = "frame_leaves (pf @ [fr])"
  have "ci = None \<longleftrightarrow> \<not> has_catch c p ty arms"
    using 1(2) by (auto simp: try_fork_def new_block_fresh split: bind_splits if_splits)
  then have hc: "c = []" if "ci = None" using that by (simp add: has_catch_def)
  have w3: "adds b2 (leaves c) ?P b3"
    using 1(4,5) hc adds_walk [OF c] by (cases ci) (auto simp: adds_same)
  have w4: "adds b3 {} ?P b4" "adds b4 {} ?P b5" "adds b5 (leaves fs) ?P bs'"
    using link_events [OF 1(6)] 1(7,8) adds_walk [OF f 1(9)]
    by (cases ct; auto simp: adds_same adds_def dest: link_events)+
  from adds_trans [OF adds_same [OF region_events(1) [OF 1(2)], where P = ?P] adds_trans [OF adds_walk [OF b 1(3)] adds_trans [OF w3
    adds_trans [OF w4(1) adds_trans [OF w4(2,3)]]]]]
  show ?case by (auto simp: leaves_Cons adds_def fr)
qed

lemma event_adds_leaf:
  assumes "\<not> is_abrupt e" "\<not> is_region e"
  shows "event_adds e exit lts pf"
  unfolding event_adds_def
proof (intro allI impI, erule walk_leafE [OF _ assms], goal_cases)
  case (1 cur bs tail bs' b1)
  from blk_events(2) [OF 1(1)] block_events_push [OF 1(2)] show ?case by (auto simp: leaves_Cons assms adds_def)
qed

lemma event_adds_abrupt:
  assumes "append_adds (length pf) exit lts pf" "is_abrupt e"
  shows "event_adds e exit lts pf"
  unfolding event_adds_def
proof (intro allI impI, erule walk_abruptE [OF _ assms(2)], goal_cases)
  case (1 cur bs tail bs' b1 b2)
  have "adds b1 {} (frame_leaves pf) b2"
    using 1(3) assms(1) by (auto simp: append_adds_def adds_same intro: adds_link)
  moreover have "\<not> is_region e" using assms(2) by (cases e) (simp_all add: is_abrupt_def)
  ultimately show ?case
    using region_events(3) [OF 1(2)] region_events(4) [OF 1(1)] by (auto simp: adds_def leaves_Cons)
qed

lemma append_adds_step:
  assumes "0 < n \<Longrightarrow> n \<le> length pf \<Longrightarrow> walk_adds (ff_events (pf ! (n - 1))) exit lts (take (n - 1) pf) \<and> append_adds (n - 1) exit lts pf"
  shows "append_adds n exit lts pf"
  unfolding append_adds_def
proof (intro allI impI, erule append_stepE, goal_cases)
  case (2 cur target bs retained bs' f fi b1 cur2 b2)
  have f: "f \<in> set pf" "n \<le> length pf" "f = pf ! (n - 1)" using 2(1,2) by (auto simp: vec_get_def split: if_splits)
  note ih = assms [OF 2(1) f(2), folded f(3)]
  from f(1) have "leaves (ff_events f) \<subseteq> frame_leaves pf" by (auto simp: frame_leaves_def)
  moreover have "frame_leaves (take (n - 1) pf) \<subseteq> frame_leaves pf" by (auto simp: frame_leaves_def dest: in_set_takeD)
  moreover have "adds b2 {} (frame_leaves pf) bs'" using ih 2(5) by (simp add: append_adds_def)
  moreover note adds_walk [OF conjunct1 [OF ih] 2(4)] region_events(2) [OF 2(3)]
  ultimately show ?case by (simp add: adds_def) blast
qed (rule adds_link)

lemma event_adds_scope:
  "walk_adds b exit lts pf \<Longrightarrow> event_adds (Using sp b) exit lts pf" "walk_adds b exit lts pf \<Longrightarrow> event_adds (Defer sp b) exit lts pf"
  by (simp_all add: event_adds_def walk_adds_def walk_Using leaves_Cons)

interpretation conserved: walk_property walk_adds event_adds append_adds
proof (unfold_locales, goal_cases)
  case (1 exit lts pf)
  then show ?case by (simp add: walk_adds_def adds_def)
next
  case (2 e exit lts pf es)
  then show ?case unfolding walk_adds_def event_adds_def
    by (auto simp: adds_def leaves_Cons [of e es] leaves_Cons [of e "[]"] split: bind_splits; blast)
next
  case 10
  then show ?case by (intro append_adds_step) simp
qed (simp_all add: event_adds_abrupt event_adds_Branch event_adds_Loop event_adds_Try event_adds_leaf event_adds_scope)

lemmas walk_adds_all = conserved.walks

lemma compact_events:
  assumes "entry < length bs" "exit < length bs"
  obtains entry_id exit_id cs where "compact_ids bs entry exit = Some (entry_id, exit_id, cs)" "block_events cs = block_events bs"
proof -
  define ks where "ks = keep_flags bs entry exit"
  define cs where "cs = List.map_filter (compact_block (remap_from 0 ks)) (zip (remap_from 0 ks) bs)"
  have len: "length ks = length bs" by (simp add: ks_def keep_flags_nth)
  have lc: "length cs = length (filter (\<lambda>k. k) ks)" using len by (simp add: cs_def compact_length)
  have nth: "bb_events (cs ! rank ks i) = bb_events (bs ! i)" "rank ks i < length cs" if i: "i < length bs" "ks ! i" for i
  proof -
    from i(1) have ik: "i < length ks" by (simp only: len)
    from compact_nth [OF ik i(2) len [symmetric], of "remap_from 0 ks" 0]
    show "bb_events (cs ! rank ks i) = bb_events (bs ! i)" unfolding cs_def by simp
    from rank_less [OF ik i(2)] show "rank ks i < length cs" by (simp only: lc)
  qed
  have kept: "ks ! i" if "i < length bs" "bb_events (bs ! i) \<noteq> []" for i
    using that by (simp add: ks_def keep_flags_nth keep_block_def)
  have "block_events cs \<subseteq> block_events bs"
  proof
    fix x
    assume "x \<in> block_events cs"
    then obtain j where j: "j < length cs" "x \<in> set (bb_events (cs ! j))" by (auto simp: block_events_iff)
    then obtain i where "i < length bs" "ks ! i" "rank ks i = j"
      using rank_surj [of j ks] len lc by auto
    with j nth show "x \<in> block_events bs" by (auto simp: block_events_iff)
  qed
  moreover have "block_events bs \<subseteq> block_events cs"
  proof
    fix x
    assume "x \<in> block_events bs"
    then obtain i where "i < length bs" "x \<in> set (bb_events (bs ! i))" by (auto simp: block_events_iff)
    moreover from this have "ks ! i" by (intro kept) auto
    ultimately show "x \<in> block_events cs" using nth [of i] by (auto simp: block_events_iff)
  qed
  moreover have "\<exists>a b. compact_ids bs entry exit = Some (a, b, cs)"
    using assms len by (simp add: compact_ids_def ks_def [symmetric] cs_def [symmetric] remapped_id_def Let_def)
  ultimately show thesis using that by blast
qed

section \<open>The builder\<close>

lemma build_raw_spec:
  obtains tail bs1 bs where "walk_with_finally (normalize_deferred_scopes events) 1 0
      [fresh_block 0 ''exit'' (Some SbExit), fresh_block 1 ''entry'' (Some SbEntry)] [] [] = Some (tail, bs1)"
    "build_raw events = Some (1, 0, bs)" "wf_blocks bs" "1 < length bs" "length bs1 = length bs"
    "bs ! 0 = fresh_block 0 ''exit'' (Some SbExit)" "grows bs1 bs" "edge bs tail 0" "elen bs tail = elen bs1 tail"
    "block_events bs = block_events bs1"
proof -
  let ?bs0 = "[fresh_block 0 ''exit'' (Some SbExit), fresh_block 1 ''entry'' (Some SbEntry)]"
  have wf0: "wf_blocks ?bs0" by (simp add: wf_blocks_def less_Suc_eq_0_disj All_less_Suc2)
  have cur: "1 < length ?bs0" "open_block (?bs0 ! 1)" "ctx_ok 0 [] (length ?bs0)" by (simp_all add: ctx_ok_def)
  from walk_framed [OF walk_frame_all cur]
  obtain tail bs1 where w: "walk_with_finally (normalize_deferred_scopes events) 1 0 ?bs0 [] [] = Some (tail, bs1)"
      "frame_ok 1 ?bs0 tail bs1" .
  note f = frame_okD [OF w(2)]
  define bs where "bs = bs1[tail := linked 0 (bs1 ! tail)]"
  have l: "link bs1 tail 0 = Some bs" using f(2) by (simp add: link_in bs_def)
  have t: "tail \<noteq> 0" using f(4) by auto
  have "keeps tail bs1 bs" unfolding bs_def using f(2) by (intro keeps_link) auto
  then have wf: "wf_blocks bs" using keeps_wf f(1) wf0 by blast
  show thesis
  proof (rule that [OF w(1) _ wf])
    show "build_raw events = Some (1, 0, bs)"
      using w(1) l by (simp add: build_raw_def new_block_fresh walk_def)
    show "1 < length bs" "length bs1 = length bs" using f(5) by (simp_all add: bs_def)
    show "bs ! 0 = fresh_block 0 ''exit'' (Some SbExit)" using t keeps_other [OF f(1), of 0] by (simp add: bs_def)
    show "grows bs1 bs" unfolding bs_def using f(3) by (intro grows_update grows_block_linked) simp
    show "edge bs tail 0" unfolding bs_def using f(2) by (intro edge_link) auto
    show "elen bs tail = elen bs1 tail" using f(2) by (simp add: bs_def elen_def)
    show "block_events bs = block_events bs1" by (rule link_events [OF l])
  qed
qed

lemma fill_span_events [simp]: "block_events (map (fill_span fs) bs) = block_events bs"
  by (simp add: block_events_def)

definition ends_in :: "blocks \<Rightarrow> nat \<Rightarrow> nat \<times> nat \<Rightarrow> flow_event list \<Rightarrow> outcome \<Rightarrow> bool" where
  "ends_in bs exit pos t oc \<longleftrightarrow> run bs pos t (exit, 0)
     \<or> oc = Leave \<and> (\<exists>j < length bs. run bs pos t (j, elen bs j) \<and> left_block (bs ! j) \<and> bb_successors (bs ! j) = [])"

lemma build_raw_covers:
  assumes "list_all cleanup_closed events" "exec [] (At events) t oc" "build_raw events = Some (entry, exit, raw)"
  shows "ends_in raw 0 (1, 0) t oc"
proof -
  let ?es = "normalize_deferred_scopes events"
  obtain tail bs1 bs where b: "walk_with_finally ?es 1 0
      [fresh_block 0 ''exit'' (Some SbExit), fresh_block 1 ''entry'' (Some SbEntry)] [] [] = Some (tail, bs1)"
    "build_raw events = Some (1, 0, bs)" "wf_blocks bs" "1 < length bs" "length bs1 = length bs"
    "bs ! 0 = fresh_block 0 ''exit'' (Some SbExit)" "grows bs1 bs" "edge bs tail 0" "elen bs tail = elen bs1 tail"
    "block_events bs = block_events bs1"
    by (rule build_raw_spec)
  have raw: "raw = bs" using assms(3) b(2) by simp
  have pre: "sim_pre ?es [] []"
    using assms(1) by (simp add: sim_pre_def safe_def normalize_cleanup_closed normalize_defer_free)
  have ex: "exec (labels []) (At ?es) t oc"
    using coversD [OF _ assms(2)] normalize_same_execs [of events] by (simp add: same_execs_def)
  have s: "sim 0 [] [] (At ?es) (1, 0) tail bs1"
    using walk_simD [OF walk_sim_all pre _ _ _ b(1)] by (simp add: ctx_ok_def elen_def)
  show ?thesis
  proof (cases "oc = Fall")
    case True
    with sim_fall [OF s] ex have "run bs (1, 0) t (tail, elen bs1 tail)" using run_grows b(7) by blast
    with b(8,9) show ?thesis using run_then_edge raw unfolding ends_in_def by metis
  next
    case False
    have "outcome_within 0 oc" using exec_within [OF ex] by simp
    with False have oc: "oc = Leave" by (cases oc) simp_all
    from sim_abrupt [OF s ex False unwinds_stop] have "arrives bs1 [] 0 (1, 0) t oc" by simp
    with b(7) have "arrives bs [] 0 (1, 0) t oc" by (rule arrives_grows [rotated])
    then show ?thesis using oc raw by (simp add: arrives_def ends_in_def)
  qed
qed

lemma fill_span_ends: "ends_in bs exit pos t oc \<Longrightarrow> ends_in (map (fill_span fs) bs) exit pos t oc"
  unfolding ends_in_def by (elim disjE conjE exE; rule disjI1 disjI2; force simp: elen_def left_block_def intro: fill_span_run)

lemma compacted_ends:
  assumes "ends_in bs exit (entry, 0) t oc" "compacted bs ks cs" "length bs \<le> 2 ^ 32" "ks ! entry" "ks ! exit"
  shows "ends_in cs (rank ks exit) (rank ks entry, 0) t oc"
  using assms(1) unfolding ends_in_def
proof (elim disjE conjE exE)
  assume "run bs (entry, 0) t (exit, 0)"
  from compacted_run [OF this assms(2,3)] assms(4)
  show "run cs (rank ks entry, 0) t (rank ks exit, 0) \<or> oc = Leave \<and> (\<exists>j < length cs. run cs (rank ks entry, 0) t (j, elen cs j)
      \<and> left_block (cs ! j) \<and> bb_successors (cs ! j) = [])" by simp
next
  fix j
  assume j: "oc = Leave" "j < length bs" "run bs (entry, 0) t (j, elen bs j)" "left_block (bs ! j)" "bb_successors (bs ! j) = []"
  from compacted_run [OF j(3) assms(2,3)] assms(4)
  have "run cs (rank ks entry, 0) t (rank ks j, elen bs j)" "ks ! j" by simp_all
  with j compactedD [OF assms(2) j(2)]
  show "run cs (rank ks entry, 0) t (rank ks exit, 0) \<or> oc = Leave \<and> (\<exists>j < length cs. run cs (rank ks entry, 0) t (j, elen cs j)
      \<and> left_block (cs ! j) \<and> bb_successors (cs ! j) = [])"
    by (intro disjI2 conjI exI [of _ "rank ks j"]) (simp_all add: left_block_def)
qed

lemma build_cfg_spec:
  assumes "build_raw events = Some (entry, exit, raw)" "length raw \<le> 2 ^ 32"
  obtains g ks where "build_cfg_from_flow_in_span name fs events = Some g" "cfg_entry g = of_nat (rank ks 1)"
    "cfg_exit g = of_nat (rank ks 0)" "compacted (map (fill_span fs) raw) ks (cfg_blocks g)" "ks ! 0" "ks ! 1"
    "ks = keep_flags (map (fill_span fs) raw) 1 0" "1 < length raw" "raw ! 0 = fresh_block 0 ''exit'' (Some SbExit)"
proof -
  obtain tail bs1 bs where b: "walk_with_finally (normalize_deferred_scopes events) 1 0
      [fresh_block 0 ''exit'' (Some SbExit), fresh_block 1 ''entry'' (Some SbEntry)] [] [] = Some (tail, bs1)"
    "build_raw events = Some (1, 0, bs)" "wf_blocks bs" "1 < length bs" "length bs1 = length bs"
    "bs ! 0 = fresh_block 0 ''exit'' (Some SbExit)" "grows bs1 bs" "edge bs tail 0" "elen bs tail = elen bs1 tail"
    "block_events bs = block_events bs1"
    by (rule build_raw_spec)
  have raw: "raw = bs" using assms(1) b(2) by simp
  let ?fb = "map (fill_span fs) raw"
  have pre: "wf_blocks ?fb" "length ?fb \<le> 2 ^ 32" "1 < length ?fb" "0 < length ?fb"
    using b(3,4) raw assms(2) by (auto simp: fill_span_wf)
  obtain ks cs where c: "compact_ids ?fb 1 0 = Some (of_nat (rank ks 1), of_nat (rank ks 0), cs)"
      "compacted ?fb ks cs" "ks ! 1" "ks ! 0" "ks = keep_flags ?fb 1 0"
    by (rule compact_ids_spec [OF pre])
  show thesis
    by (rule that [of "\<lparr>cfg_analysis_complete = True, cfg_incomplete_reasons = [], cfg_function = name,
        cfg_entry = of_nat (rank ks 1), cfg_exit = of_nat (rank ks 0), cfg_blocks = cs\<rparr>" ks])
      (use c b(2,4,6) raw in \<open>simp_all add: build_cfg_from_flow_in_span_def\<close>)
qed

lemma compacted_unat:
  assumes "compacted bs ks cs" "length bs \<le> 2 ^ 32" "i < length bs" "ks ! i"
  shows "unat (of_nat (rank ks i) :: block_id) = rank ks i"
proof -
  have "rank ks i < length cs" "length cs \<le> length bs" using assms compactedD(1) by (auto simp: compacted_def)
  with assms(2) show ?thesis by (simp add: unat_of_nat_u32)
qed

section \<open>Concrete trees\<close>

definition sp_at :: "u64 \<Rightarrow> span" where
  "sp_at n = span_new 0 n (n + 1)"

text \<open>
  The copies of a cleanup region on an early exit are walked with the loops around the exit, not
  with the loops around the region. Two copies of one cleanup that breaks, the one on the return
  out of the inner loop and the one on the normal path, break out of different loops.
\<close>

lemma finally_copies_disagree:
  "map_option (\<lambda>(_, _, bs). map (\<lambda>b. (bb_terminator b, map (\<lambda>s. bb_label (bs ! unat s)) (bb_successors b)))
       (filter (\<lambda>b. bb_label b = ''finally@2'') bs))
     (build_raw [Loop (sp_at 1) LkWhile None [] []
       [Try (sp_at 2) [Loop (sp_at 3) LkWhile None [] [] [Return (sp_at 4) None None None expression_flow_default]]
          [] [Break (sp_at 5) None] None [] []]])
   = Some [(TBreak, [''loop-after@3'']), (TBreak, [''loop-after@1''])]"
  by code_simp

text \<open>A protected return with cleanup: the cleanup event follows the return on the only path.\<close>

definition guarded_return :: "flow_event list" where
  "guarded_return = [Try (sp_at 1) [Return (sp_at 2) None None None expression_flow_default] [] [Await (sp_at 3) None] None [] []]"

lemma guarded_return_exec:
  "exec [] (At guarded_return) [Return (sp_at 2) None None None expression_flow_default, Await (sp_at 3) None] Leave"
proof -
  let ?r = "Return (sp_at 2) None None None expression_flow_default"
  have "exec [] (At [?r]) [?r] Leave" using exec_abrupt [of ?r "[]" "[]"] by (simp add: is_abrupt_def)
  moreover have "exec [] (At [Await (sp_at 3) None]) [Await (sp_at 3) None] Fall"
    by (rule exec_leaf) (simp_all add: is_abrupt_def exec_nil)
  ultimately have "exec [] (InRegion (hd guarded_return)) ([?r] @ [Await (sp_at 3) None]) (if Fall = Fall then Leave else Fall)"
    unfolding guarded_return_def list.sel by (rule exec_try)
  then show ?thesis unfolding guarded_return_def by (auto intro: exec_stop)
qed

lemma guarded_return_raw: "\<exists>raw. build_raw guarded_return = Some (1, 0, raw) \<and> length raw \<le> 2 ^ 32"
proof -
  have "map_option (\<lambda>(a, b, bs). (a, b, length bs)) (build_raw guarded_return) = Some (1, 0, 7)" by code_simp
  then obtain raw where "build_raw guarded_return = Some (1, 0, raw)" "length raw = 7" by auto
  then show ?thesis by (intro exI [of _ raw]) simp
qed

section \<open>Properties\<close>

text \<open>
  C11: building a control-flow graph returns on every event tree, without an index out of
  range, and the graph holds every event of the tree that is not a region (cleanup possibly
  several times) and no other event.
\<close>

theorem cfg_conserves_events:
  "\<exists>g. build_cfg_from_flow_in_span name fs events = Some g \<and> cfg_analysis_complete g \<and> cfg_function g = name
     \<and> block_events (cfg_blocks g) = leaves events"
proof -
  obtain tail bs1 bs where b: "walk_with_finally (normalize_deferred_scopes events) 1 0
      [fresh_block 0 ''exit'' (Some SbExit), fresh_block 1 ''entry'' (Some SbEntry)] [] [] = Some (tail, bs1)"
    "build_raw events = Some (1, 0, bs)" "wf_blocks bs" "1 < length bs" "length bs1 = length bs"
    "bs ! 0 = fresh_block 0 ''exit'' (Some SbExit)" "grows bs1 bs" "edge bs tail 0" "elen bs tail = elen bs1 tail"
    "block_events bs = block_events bs1"
    by (rule build_raw_spec)
  from adds_walk [OF walk_adds_all b(1)] have e: "block_events bs = leaves events" using b(10) by (auto simp: adds_def)
  have i: "1 < length (map (fill_span fs) bs)" "0 < length (map (fill_span fs) bs)" using b(4) by auto
  obtain a x cs where "compact_ids (map (fill_span fs) bs) 1 0 = Some (a, x, cs)" "block_events cs = block_events (map (fill_span fs) bs)"
    by (rule compact_events [OF i])
  with b(2) e show ?thesis by (simp add: build_cfg_from_flow_in_span_def)
qed

text \<open>
  C9: if the builder lays out at most \<open>2 ^ 32\<close> blocks, then in the graph it returns the id of every
  block is its index, every successor and the entry are blocks of the graph, and the exit is an
  empty block without successors.
\<close>

theorem cfg_well_formed:
  assumes "build_raw events = Some (entry, exit, raw)" "length raw \<le> 2 ^ 32"
    and "build_cfg_from_flow_in_span name fs events = Some g"
  shows "(\<forall>b \<in> set (cfg_blocks g). cfg_block g (bb_id b) = Some b \<and> (\<forall>s \<in> set (bb_successors b). cfg_block g s \<noteq> None))
    \<and> cfg_block g (cfg_entry g) \<noteq> None
    \<and> (\<exists>b. cfg_block g (cfg_exit g) = Some b \<and> bb_synthetic_kind b = Some SbExit \<and> bb_events b = [] \<and> bb_successors b = [])"
proof -
  obtain g' ks where g: "build_cfg_from_flow_in_span name fs events = Some g'" "cfg_entry g' = of_nat (rank ks 1)"
    "cfg_exit g' = of_nat (rank ks 0)" "compacted (map (fill_span fs) raw) ks (cfg_blocks g')" "ks ! 0" "ks ! 1"
    "ks = keep_flags (map (fill_span fs) raw) 1 0" "1 < length raw" "raw ! 0 = fresh_block 0 ''exit'' (Some SbExit)"
    by (rule build_cfg_spec [OF assms(1,2)])
  with assms(3) have gg: "g' = g" by simp
  note g = g [unfolded gg]
  let ?fb = "map (fill_span fs) raw"
  have l: "length ?fb \<le> 2 ^ 32" "1 < length ?fb" "0 < length ?fb" using assms(2) g(8) by auto
  have wf: "wf_blocks (cfg_blocks g)" by (rule compacted_wf [OF g(4) l(1)])
  have lc: "length (cfg_blocks g) \<le> 2 ^ 32" using g(4) l(1) by (simp add: compacted_def)
  have id: "cfg_block g (of_nat j) = Some (cfg_blocks g ! j)" if "j < length (cfg_blocks g)" for j
    using that lc by (simp add: cfg_block_def unat_of_nat_u32)
  have "cfg_block g (bb_id b) = Some b \<and> (\<forall>s \<in> set (bb_successors b). cfg_block g s \<noteq> None)" if "b \<in> set (cfg_blocks g)" for b
  proof -
    obtain j where j: "j < length (cfg_blocks g)" "b = cfg_blocks g ! j" using \<open>b \<in> _\<close> by (auto simp: in_set_conv_nth)
    with wf have "bb_id b = of_nat j" "set (bb_successors b) \<subseteq> of_nat ` {..< length (cfg_blocks g)}" by (simp_all add: wf_blocks_def)
    with j id show ?thesis by auto
  qed
  moreover have "cfg_block g (cfg_entry g) \<noteq> None" using id compactedD(1) [OF g(4) l(2) g(6)] g(2) by simp
  moreover note d = compactedD [OF g(4) l(3) g(5)]
  have "cfg_block g (cfg_exit g) = Some (cfg_blocks g ! rank ks 0)" using id [OF d(1)] g(3) by simp
  ultimately show ?thesis using d(3,6,8) g(9) l(3) by simp
qed

theorem cfg_well_formed_witness:
  "\<exists>g b. build_cfg_from_flow_in_span ''f'' None guarded_return = Some g
    \<and> cfg_block g (cfg_exit g) = Some b \<and> bb_synthetic_kind b = Some SbExit \<and> bb_successors b = []"
proof -
  obtain raw g where r: "build_raw guarded_return = Some (1, 0, raw)" "length raw \<le> 2 ^ 32"
      "build_cfg_from_flow_in_span ''f'' None guarded_return = Some g"
    using guarded_return_raw build_cfg_spec by metis
  from cfg_well_formed [OF this] r(3) show ?thesis by blast
qed

lemma built_covers:
  assumes "list_all cleanup_closed events" "exec [] (At events) t oc"
    and "build_raw events = Some (entry, exit, raw)" "length raw \<le> 2 ^ 32"
  shows "\<exists>g. build_cfg_from_flow_in_span name fs events = Some g
    \<and> ends_in (cfg_blocks g) (unat (cfg_exit g)) (unat (cfg_entry g), 0) t oc"
proof -
  obtain g ks where g: "build_cfg_from_flow_in_span name fs events = Some g" "cfg_entry g = of_nat (rank ks 1)"
    "cfg_exit g = of_nat (rank ks 0)" "compacted (map (fill_span fs) raw) ks (cfg_blocks g)" "ks ! 0" "ks ! 1"
    "ks = keep_flags (map (fill_span fs) raw) 1 0" "1 < length raw" "raw ! 0 = fresh_block 0 ''exit'' (Some SbExit)"
    by (rule build_cfg_spec [OF assms(3,4)])
  have l: "length (map (fill_span fs) raw) \<le> 2 ^ 32" using assms(4) by simp
  have "ends_in (map (fill_span fs) raw) 0 (1, 0) t oc"
    by (rule fill_span_ends [OF build_raw_covers [OF assms(1-3)]])
  from compacted_ends [OF this g(4) l g(6,5)] g(1-3) show ?thesis
    using compacted_unat [OF g(4) l _ g(5)] compacted_unat [OF g(4) l _ g(6)] g(8) by (intro exI [of _ g]) auto
qed

lemma built_shape:
  assumes "build_raw events = Some (entry, exit, raw)" "length raw \<le> 2 ^ 32"
    and "build_cfg_from_flow_in_span name fs events = Some g"
  shows "wf_blocks (cfg_blocks g) \<and> length (cfg_blocks g) \<le> 2 ^ 32 \<and> unat (cfg_entry g) < length (cfg_blocks g)"
proof -
  obtain ks where g: "cfg_entry g = of_nat (rank ks 1)" "compacted (map (fill_span fs) raw) ks (cfg_blocks g)" "ks ! 1" "1 < length raw"
    using build_cfg_spec [OF assms(1,2), where name = name and fs = fs] assms(3) by (metis option.inject)
  have l: "length (map (fill_span fs) raw) \<le> 2 ^ 32" "1 < length (map (fill_span fs) raw)" using assms(2) g(4) by simp_all
  have "length (cfg_blocks g) \<le> 2 ^ 32" using g(2) l(1) by (simp add: compacted_def)
  with compacted_wf [OF g(2) l(1)] compactedD(1) [OF g(2) l(2) g(3)] g(1) show ?thesis by (simp add: unat_of_nat_u32)
qed

text \<open>
  C2: every structured execution of an event tree (deferred scopes, cleanup on early exits,
  labelled and counted break and continue, and all loop kinds included) is the event sequence of a
  path of its graph from the entry to the exit or to the end of a block that returns or throws, if
  every break and continue in a cleanup region names a loop of that region and at most \<open>2 ^ 32\<close> blocks are laid out.
\<close>

theorem cfg_covers_executions:
  assumes "list_all cleanup_closed events" "exec [] (At events) t oc"
    and "build_raw events = Some (entry, exit, raw)" "length raw \<le> 2 ^ 32"
  shows "\<exists>g. build_cfg_from_flow_in_span name fs events = Some g
    \<and> ends_in (cfg_blocks g) (unat (cfg_exit g)) (unat (cfg_entry g), 0) t oc"
  by (rule built_covers [OF assms])

theorem cfg_covers_executions_witness:
  "\<exists>g. build_cfg_from_flow_in_span ''f'' None guarded_return = Some g
    \<and> ends_in (cfg_blocks g) (unat (cfg_exit g)) (unat (cfg_entry g), 0)
      [Return (sp_at 2) None None None expression_flow_default, Await (sp_at 3) None] Leave"
proof -
  obtain raw where r: "build_raw guarded_return = Some (1, 0, raw)" "length raw \<le> 2 ^ 32"
    using guarded_return_raw by blast
  show ?thesis
    by (rule cfg_covers_executions [OF _ guarded_return_exec r]) (simp add: guarded_return_def)
qed

end
