(* ===== verification/Abs_Value.thy ===== *)
theory Abs_Value
  imports Flow_Events
begin

text \<open>
  The abstract values of \<^verbatim>\<open>crates/abstract_interp/src/value.rs\<close>: integer ranges, the boolean
  domain, nullness, the value lattice with its join, and the facets read from a value. A value of
  type \<^verbatim>\<open>i64\<close> is an integer: the code only compares them. A string is the list of its bytes.

  The theorems relate every operation to the concrete values an abstract value stands for: a join
  stands for at least what its arguments stand for, and every facet holds of every value.
\<close>

section \<open>Integer ranges\<close>

record int_range =
  ir_min :: "int option"
  ir_max :: "int option"

definition ir_new :: "int option \<Rightarrow> int option \<Rightarrow> int_range" where
  "ir_new lo hi = \<lparr>ir_min = lo, ir_max = hi\<rparr>"

definition ir_singleton :: "int \<Rightarrow> int_range" where
  "ir_singleton v = \<lparr>ir_min = Some v, ir_max = Some v\<rparr>"

definition ir_unbounded :: int_range where
  "ir_unbounded = \<lparr>ir_min = None, ir_max = None\<rparr>"

fun join_lower_bound :: "int option \<Rightarrow> int option \<Rightarrow> int option" where
  "join_lower_bound (Some left) (Some right) = Some (min left right)"
| "join_lower_bound _ _ = None"

fun join_upper_bound :: "int option \<Rightarrow> int option \<Rightarrow> int option" where
  "join_upper_bound (Some left) (Some right) = Some (max left right)"
| "join_upper_bound _ _ = None"

definition ir_join :: "int_range \<Rightarrow> int_range \<Rightarrow> int_range" where
  "ir_join a b = \<lparr>ir_min = join_lower_bound (ir_min a) (ir_min b), ir_max = join_upper_bound (ir_max a) (ir_max b)\<rparr>"

definition ir_contains :: "int_range \<Rightarrow> int \<Rightarrow> bool" where
  "ir_contains r v \<longleftrightarrow> (case ir_min r of None \<Rightarrow> True | Some lo \<Rightarrow> lo \<le> v) \<and> (case ir_max r of None \<Rightarrow> True | Some hi \<Rightarrow> v \<le> hi)"

definition ir_is_singleton :: "int_range \<Rightarrow> int option" where
  "ir_is_singleton r = (case (ir_min r, ir_max r) of
     (Some lo, Some hi) \<Rightarrow> (if lo = hi then Some lo else None) | _ \<Rightarrow> None)"

section \<open>Booleans and nullness\<close>

record bool_domain =
  can_be_true :: bool
  can_be_false :: bool

definition bd_singleton :: "bool \<Rightarrow> bool_domain" where
  "bd_singleton v = \<lparr>can_be_true = v, can_be_false = (\<not> v)\<rparr>"

definition bd_any :: bool_domain where
  "bd_any = \<lparr>can_be_true = True, can_be_false = True\<rparr>"

definition bd_join :: "bool_domain \<Rightarrow> bool_domain \<Rightarrow> bool_domain" where
  "bd_join a b = \<lparr>can_be_true = (can_be_true a \<or> can_be_true b), can_be_false = (can_be_false a \<or> can_be_false b)\<rparr>"

definition is_definitely_true :: "bool_domain \<Rightarrow> bool" where
  "is_definitely_true d \<longleftrightarrow> can_be_true d \<and> \<not> can_be_false d"

definition is_definitely_false :: "bool_domain \<Rightarrow> bool" where
  "is_definitely_false d \<longleftrightarrow> can_be_false d \<and> \<not> can_be_true d"

datatype nullness = NlUnknown | NlNull | NlNonNull | NlMaybeNull

fun nl_join :: "nullness \<Rightarrow> nullness \<Rightarrow> nullness" where
  "nl_join NlUnknown _ = NlUnknown"
| "nl_join _ NlUnknown = NlUnknown"
| "nl_join NlNull NlNull = NlNull"
| "nl_join NlNonNull NlNonNull = NlNonNull"
| "nl_join _ _ = NlMaybeNull"

section \<open>Abstract values\<close>

type_synonym type_id = u32

datatype abstract_value =
  Unknown | ConstInt int | IntRange int_range | ConstBool bool | BoolV bool_domain | ConstString string
| StringWithLength int_range | NullV | Nullable abstract_value | ObjectV type_id
| SetV "abstract_value list" | TopV type_id

fun is_const :: "abstract_value \<Rightarrow> bool" where
  "is_const (ConstInt _) = True"
| "is_const (ConstBool _) = True"
| "is_const (ConstString _) = True"
| "is_const NullV = True"
| "is_const _ = False"

text \<open>
  The loop of a facet over the elements of a set: the facets are joined from left to right, and an
  element without the facet ends the computation with \<open>None\<close>.
\<close>

fun facet_loop :: "('r \<Rightarrow> 'r \<Rightarrow> 'r) \<Rightarrow> 'r option list \<Rightarrow> 'r option \<Rightarrow> 'r option" where
  "facet_loop f [] acc = acc"
| "facet_loop f (None # rs) acc = None"
| "facet_loop f (Some r # rs) acc = facet_loop f rs (Some (case acc of None \<Rightarrow> r | Some existing \<Rightarrow> f existing r))"

fun int_range_of :: "abstract_value \<Rightarrow> int_range option" where
  "int_range_of (ConstInt v) = Some (ir_singleton v)"
| "int_range_of (IntRange r) = Some r"
| "int_range_of (SetV vs) = facet_loop ir_join (map int_range_of vs) None"
| "int_range_of _ = None"

fun bool_domain_of :: "abstract_value \<Rightarrow> bool_domain option" where
  "bool_domain_of (ConstBool v) = Some (bd_singleton v)"
| "bool_domain_of (BoolV d) = Some d"
| "bool_domain_of (SetV vs) = facet_loop bd_join (map bool_domain_of vs) None"
| "bool_domain_of _ = None"

text \<open>\<^verbatim>\<open>Iterator::reduce\<close> with a default for the empty iterator.\<close>

fun reduce_or :: "'a \<Rightarrow> ('a \<Rightarrow> 'a \<Rightarrow> 'a) \<Rightarrow> 'a list \<Rightarrow> 'a" where
  "reduce_or d f [] = d"
| "reduce_or d f (x # xs) = fold (\<lambda>y acc. f acc y) xs x"

fun nullness_of :: "abstract_value \<Rightarrow> nullness" where
  "nullness_of Unknown = NlUnknown"
| "nullness_of NullV = NlNull"
| "nullness_of (Nullable _) = NlMaybeNull"
| "nullness_of (SetV vs) = reduce_or NlUnknown nl_join (map nullness_of vs)"
| "nullness_of _ = NlNonNull"

definition i64_max :: int where
  "i64_max = 2 ^ 63 - 1"

text \<open>\<^verbatim>\<open>i64::try_from\<close> of a length.\<close>

definition try_i64 :: "nat \<Rightarrow> int option" where
  "try_i64 n = (if int n \<le> i64_max then Some (int n) else None)"

fun string_length_range :: "abstract_value \<Rightarrow> int_range option" where
  "string_length_range (ConstString s) = map_option ir_singleton (try_i64 (length s))"
| "string_length_range (StringWithLength r) = Some r"
| "string_length_range (SetV vs) = facet_loop ir_join (map string_length_range vs) None"
| "string_length_range (Nullable v) = string_length_range v"
| "string_length_range _ = None"

fun with_null :: "abstract_value \<Rightarrow> abstract_value" where
  "with_null Unknown = Unknown"
| "with_null NullV = NullV"
| "with_null (Nullable v) = Nullable v"
| "with_null v = Nullable v"

definition set_widen_threshold :: nat where
  "set_widen_threshold = 8"

text \<open>A set after \<^verbatim>\<open>push\<close>es of the values it does not contain, widened when it has grown too large.\<close>

definition push_new :: "abstract_value \<Rightarrow> abstract_value list \<Rightarrow> abstract_value list" where
  "push_new v vs = (if v \<in> set vs then vs else vs @ [v])"

definition widened_set :: "abstract_value list \<Rightarrow> abstract_value" where
  "widened_set vs = (if set_widen_threshold < length vs then Unknown else SetV vs)"

definition length_or_max :: "string \<Rightarrow> int" where
  "length_or_max s = (case try_i64 (length s) of Some n \<Rightarrow> n | None \<Rightarrow> i64_max)"

function av_join :: "abstract_value \<Rightarrow> abstract_value \<Rightarrow> abstract_value" where
  "av_join a b =
     (if a = b then a
      else case (a, b) of
        (Unknown, _) \<Rightarrow> Unknown
      | (_, Unknown) \<Rightarrow> Unknown
      | (ConstInt left, ConstInt right) \<Rightarrow> IntRange (ir_join (ir_singleton left) (ir_singleton right))
      | (ConstInt v, IntRange rng) \<Rightarrow> IntRange (ir_join rng (ir_singleton v))
      | (IntRange rng, ConstInt v) \<Rightarrow> IntRange (ir_join rng (ir_singleton v))
      | (IntRange left, IntRange right) \<Rightarrow> IntRange (ir_join left right)
      | (ConstBool left, ConstBool right) \<Rightarrow> BoolV (bd_join (bd_singleton left) (bd_singleton right))
      | (ConstBool v, BoolV domain) \<Rightarrow> BoolV (bd_join domain (bd_singleton v))
      | (BoolV domain, ConstBool v) \<Rightarrow> BoolV (bd_join domain (bd_singleton v))
      | (BoolV left, BoolV right) \<Rightarrow> BoolV (bd_join left right)
      | (ConstString left, StringWithLength right) \<Rightarrow> StringWithLength (ir_join (ir_singleton (length_or_max left)) right)
      | (StringWithLength right, ConstString left) \<Rightarrow> StringWithLength (ir_join (ir_singleton (length_or_max left)) right)
      | (StringWithLength left, StringWithLength right) \<Rightarrow> StringWithLength (ir_join left right)
      | (NullV, v) \<Rightarrow> with_null v
      | (v, NullV) \<Rightarrow> with_null v
      | (Nullable left, Nullable right) \<Rightarrow> Nullable (av_join left right)
      | (Nullable left, v) \<Rightarrow> Nullable (av_join left v)
      | (v, Nullable left) \<Rightarrow> Nullable (av_join left v)
      | (SetV left, SetV right) \<Rightarrow> widened_set (fold push_new right left)
      | (SetV vs, v) \<Rightarrow> widened_set (push_new v vs)
      | (v, SetV vs) \<Rightarrow> widened_set (push_new v vs)
      | (left, right) \<Rightarrow> SetV [left, right])"
  by pat_completeness auto
termination
  by (relation "measure (\<lambda>(a, b). size a + size b)") auto

declare av_join.simps [simp del]

section \<open>What an abstract value stands for\<close>

text \<open>
  Concrete values; \<open>ty\<close> is the extension of a type. A string a program holds is shorter than \<open>2 ^ 63\<close>
  bytes, as every allocation is.
\<close>

datatype cval = CInt int | CBool bool | CStr string | CNull | CObj nat

fun representable :: "cval \<Rightarrow> bool" where
  "representable (CStr s) \<longleftrightarrow> int (length s) \<le> i64_max"
| "representable _ \<longleftrightarrow> True"

fun stands_for :: "(type_id \<Rightarrow> cval \<Rightarrow> bool) \<Rightarrow> abstract_value \<Rightarrow> cval \<Rightarrow> bool" where
  "stands_for ty Unknown c \<longleftrightarrow> True"
| "stands_for ty (ConstInt n) c \<longleftrightarrow> c = CInt n"
| "stands_for ty (IntRange r) c \<longleftrightarrow> (case c of CInt n \<Rightarrow> ir_contains r n | _ \<Rightarrow> False)"
| "stands_for ty (ConstBool b) c \<longleftrightarrow> c = CBool b"
| "stands_for ty (BoolV d) c \<longleftrightarrow> (case c of CBool b \<Rightarrow> (if b then can_be_true d else can_be_false d) | _ \<Rightarrow> False)"
| "stands_for ty (ConstString s) c \<longleftrightarrow> c = CStr s"
| "stands_for ty (StringWithLength r) c \<longleftrightarrow> (case c of CStr s \<Rightarrow> ir_contains r (int (length s)) | _ \<Rightarrow> False)"
| "stands_for ty NullV c \<longleftrightarrow> c = CNull"
| "stands_for ty (Nullable v) c \<longleftrightarrow> c = CNull \<or> stands_for ty v c"
| "stands_for ty (ObjectV t) c \<longleftrightarrow> ty t c"
| "stands_for ty (SetV vs) c \<longleftrightarrow> list_ex (\<lambda>v. stands_for ty v c) vs"
| "stands_for ty (TopV t) c \<longleftrightarrow> ty t c"

named_theorems absval \<open>the parts of the value lattice\<close>

lemma ir_join_contains [absval]: "ir_contains a n \<or> ir_contains b n \<Longrightarrow> ir_contains (ir_join a b) n"
  by (cases "ir_min a"; cases "ir_min b"; cases "ir_max a"; cases "ir_max b") (auto simp: ir_contains_def ir_join_def)

lemma ir_singleton_contains [absval, simp]: "ir_contains (ir_singleton v) n \<longleftrightarrow> n = v"
  by (auto simp: ir_contains_def ir_singleton_def)

lemma bd_join_true [absval, simp]: "can_be_true (bd_join a b) = (can_be_true a \<or> can_be_true b)"
  and bd_join_false [absval, simp]: "can_be_false (bd_join a b) = (can_be_false a \<or> can_be_false b)"
  by (simp_all add: bd_join_def)

lemma bd_singleton_simps [absval, simp]: "can_be_true (bd_singleton v) = v" "can_be_false (bd_singleton v) = (\<not> v)"
  by (simp_all add: bd_singleton_def)

lemma push_new_set [simp]: "set (push_new v vs) = insert v (set vs)"
  by (auto simp: push_new_def)

lemma fold_push_new_set [simp]: "set (fold push_new ws vs) = set ws \<union> set vs"
  by (induction ws arbitrary: vs) auto

lemma stands_for_with_null [simp]: "stands_for ty (with_null v) c \<longleftrightarrow> c = CNull \<or> stands_for ty v c"
  by (cases v) auto

lemma stands_for_widened [simp]: "stands_for ty (widened_set vs) c \<longleftrightarrow>
    set_widen_threshold < length vs \<or> (\<exists>v \<in> set vs. stands_for ty v c)"
  by (auto simp: widened_set_def list_ex_iff)

lemma length_or_max_rep: "representable (CStr s) \<Longrightarrow> length_or_max s = int (length s)"
  by (simp add: length_or_max_def try_i64_def)

text \<open>The recursive arms of the join, and the others on their own.\<close>

fun is_nullable :: "abstract_value \<Rightarrow> bool" where
  "is_nullable (Nullable _) = True"
| "is_nullable _ = False"

lemma av_join_same [simp]: "av_join a a = a"
  by (simp add: av_join.simps)

lemma av_join_unknown [simp]: "av_join Unknown b = Unknown" "av_join a Unknown = Unknown"
  by (simp_all add: av_join.simps) (cases a, simp_all)

lemma av_join_null [simp]: "av_join NullV b = with_null b" "av_join a NullV = with_null a"
  by (cases b; simp add: av_join.simps) (cases a; simp add: av_join.simps)

lemma av_join_Nullable:
  "av_join (Nullable l) (Nullable r) = Nullable (av_join l r)"
  "\<not> is_nullable b \<Longrightarrow> b \<noteq> Unknown \<Longrightarrow> b \<noteq> NullV \<Longrightarrow> av_join (Nullable l) b = Nullable (av_join l b)"
  "\<not> is_nullable a \<Longrightarrow> a \<noteq> Unknown \<Longrightarrow> a \<noteq> NullV \<Longrightarrow> av_join a (Nullable l) = Nullable (av_join l a)"
proof -
  show "av_join (Nullable l) (Nullable r) = Nullable (av_join l r)" by (simp add: av_join.simps [of "Nullable l"])
  show "av_join (Nullable l) b = Nullable (av_join l b)" if "\<not> is_nullable b" "b \<noteq> Unknown" "b \<noteq> NullV"
    using that unfolding av_join.simps [of "Nullable l"] by (cases b) simp_all
  show "av_join a (Nullable l) = Nullable (av_join l a)" if "\<not> is_nullable a" "a \<noteq> Unknown" "a \<noteq> NullV"
    using that unfolding av_join.simps [of _ "Nullable l"] by (cases a) simp_all
qed

text \<open>The induction scheme of a property of joins.\<close>

lemma av_join_induct [case_names unknown null_left null_right both left right flat]:
  assumes "\<And>a b. a = Unknown \<or> b = Unknown \<Longrightarrow> P a b" "\<And>b. P NullV b" "\<And>a. P a NullV"
    and "\<And>l r. P l r \<Longrightarrow> P (Nullable l) (Nullable r)"
    and "\<And>l b. \<not> is_nullable b \<Longrightarrow> b \<noteq> Unknown \<Longrightarrow> b \<noteq> NullV \<Longrightarrow> P l b \<Longrightarrow> P (Nullable l) b"
    and "\<And>l a. \<not> is_nullable a \<Longrightarrow> a \<noteq> Unknown \<Longrightarrow> a \<noteq> NullV \<Longrightarrow> P l a \<Longrightarrow> P a (Nullable l)"
    and "\<And>a b. \<not> is_nullable a \<Longrightarrow> \<not> is_nullable b \<Longrightarrow> a \<noteq> Unknown \<Longrightarrow> b \<noteq> Unknown \<Longrightarrow> a \<noteq> NullV \<Longrightarrow> b \<noteq> NullV \<Longrightarrow> P a b"
  shows "P a b"
proof (induction "size a + size b" arbitrary: a b rule: less_induct)
  case less
  have IH: "P l r" if "size l + size r < size a + size b" for l r using less that by blast
  consider "a = Unknown \<or> b = Unknown" | "a = NullV" | "b = NullV" | l r where "a = Nullable l" "b = Nullable r"
    | l where "a = Nullable l" "\<not> is_nullable b" "b \<noteq> Unknown" "b \<noteq> NullV"
    | l where "b = Nullable l" "\<not> is_nullable a" "a \<noteq> Unknown" "a \<noteq> NullV"
    | "\<not> is_nullable a" "\<not> is_nullable b" "a \<noteq> Unknown" "b \<noteq> Unknown" "a \<noteq> NullV" "b \<noteq> NullV"
    by (metis is_nullable.elims(2))
  then show ?case
    by cases (use assms IH in auto)
qed

lemma av_join_covers:
  assumes "representable c" "stands_for ty a c \<or> stands_for ty b c"
  shows "stands_for ty (av_join a b) c"
  using assms(2)
proof (induction a b rule: av_join_induct)
  case (flat a b)
  with assms(1) show ?case
    unfolding av_join.simps [of a b]
    by (cases a; cases b; auto simp: list_ex_iff length_or_max_rep split: cval.splits intro!: ir_join_contains)
qed (auto simp: av_join_Nullable)

section \<open>Facets\<close>

lemma facet_loop_covers:
  assumes "\<And>a b. P a \<or> P b \<Longrightarrow> P (f a b)" "facet_loop f rs acc = Some r"
  shows "(\<exists>x. Some x \<in> set rs \<and> P x) \<or> (\<exists>a. acc = Some a \<and> P a) \<Longrightarrow> P r" "None \<notin> set rs"
proof -
  have "((\<exists>x. Some x \<in> set rs \<and> P x) \<or> (\<exists>a. acc = Some a \<and> P a) \<longrightarrow> P r) \<and> None \<notin> set rs"
    using assms(2)
  proof (induction rs arbitrary: acc)
    case (Cons x rs)
    then obtain r' where x: "x = Some r'" by (cases x) auto
    let ?acc = "Some (case acc of None \<Rightarrow> r' | Some existing \<Rightarrow> f existing r')"
    have "P r' \<or> (\<exists>a. acc = Some a \<and> P a) \<Longrightarrow> \<exists>a. ?acc = Some a \<and> P a" using assms(1) by (cases acc) auto
    with Cons.IH [of ?acc] Cons.prems x show ?case by auto
  qed auto
  then show "(\<exists>x. Some x \<in> set rs \<and> P x) \<or> (\<exists>a. acc = Some a \<and> P a) \<Longrightarrow> P r" "None \<notin> set rs" by blast+
qed

lemma facet_set:
  assumes "facet_loop f (map g vs) None = Some r" "v \<in> set vs" "\<And>a b. P a \<or> P b \<Longrightarrow> P (f a b)" "\<And>x. g v = Some x \<Longrightarrow> P x"
  shows "P r"
proof -
  have "g v \<noteq> None" using facet_loop_covers(2) [of P f, OF assms(3,1)] assms(2) by (metis image_eqI set_map)
  then show ?thesis using facet_loop_covers(1) [of P f, OF assms(3,1)] assms(2,4) by (metis image_eqI not_None_eq set_map)
qed

lemma int_range_covers:
  "int_range_of v = Some r \<Longrightarrow> stands_for ty v c \<Longrightarrow> \<exists>n. c = CInt n \<and> ir_contains r n"
proof (induction v arbitrary: r)
  case (SetV vs)
  then obtain v where v: "v \<in> set vs" "stands_for ty v c" by (auto simp: list_ex_iff)
  show ?case
    by (rule facet_set [OF SetV.prems(1) [unfolded int_range_of.simps] v(1), where P = "\<lambda>r. \<exists>n. c = CInt n \<and> ir_contains r n"])
      (use SetV.IH [OF v(1) _ v(2)] in \<open>auto intro: ir_join_contains\<close>)
qed (auto split: cval.splits)

fun bool_ok :: "bool_domain \<Rightarrow> cval \<Rightarrow> bool" where
  "bool_ok d (CBool True) \<longleftrightarrow> can_be_true d"
| "bool_ok d (CBool False) \<longleftrightarrow> can_be_false d"
| "bool_ok d _ \<longleftrightarrow> False"

lemma bd_join_ok: "bool_ok a c \<or> bool_ok b c \<Longrightarrow> bool_ok (bd_join a b) c"
  by (cases "(a, c)" rule: bool_ok.cases) auto

lemma bool_domain_covers: "bool_domain_of v = Some d \<Longrightarrow> stands_for ty v c \<Longrightarrow> bool_ok d c"
proof (induction v arbitrary: d)
  case (SetV vs)
  then obtain v where v: "v \<in> set vs" "stands_for ty v c" by (auto simp: list_ex_iff)
  show ?case
    by (rule facet_set [OF SetV.prems(1) [unfolded bool_domain_of.simps] v(1), where P = "\<lambda>d. bool_ok d c", OF bd_join_ok])
      (use SetV.IH [OF v(1) _ v(2)] in auto)
next
  case (ConstBool b)
  then show ?case by (cases b) auto
next
  case (BoolV d)
  then show ?case by (cases "(d, c)" rule: bool_ok.cases) auto
qed auto

lemma string_length_covers:
  "string_length_range v = Some r \<Longrightarrow> stands_for ty v c \<Longrightarrow> c = CNull \<or> (\<exists>s. c = CStr s \<and> ir_contains r (int (length s)))"
proof (induction v arbitrary: r)
  case (SetV vs)
  then obtain v where v: "v \<in> set vs" "stands_for ty v c" by (auto simp: list_ex_iff)
  show ?case
    by (rule facet_set [OF SetV.prems(1) [unfolded string_length_range.simps] v(1),
        where P = "\<lambda>r. c = CNull \<or> (\<exists>s. c = CStr s \<and> ir_contains r (int (length s)))"])
      (use SetV.IH [OF v(1) _ v(2)] in \<open>auto intro: ir_join_contains\<close>)
qed (auto simp: try_i64_def split: cval.splits if_splits)

fun null_ok :: "nullness \<Rightarrow> cval \<Rightarrow> bool" where
  "null_ok NlNull c \<longleftrightarrow> c = CNull"
| "null_ok NlNonNull c \<longleftrightarrow> c \<noteq> CNull"
| "null_ok _ c \<longleftrightarrow> True"

lemma nl_join_ok: "null_ok a c \<or> null_ok b c \<Longrightarrow> null_ok (nl_join a b) c"
  by (cases a; cases b) auto

lemma nullness_covers:
  assumes "\<And>t. \<not> ty t CNull"
  shows "stands_for ty v c \<Longrightarrow> null_ok (nullness_of v) c"
proof (induction v)
  case (SetV vs)
  then obtain v where v: "v \<in> set vs" "null_ok (nullness_of v) c" by (auto simp: list_ex_iff)
  have "null_ok (fold (\<lambda>y acc. nl_join acc y) ns n) c" if "null_ok n c \<or> (\<exists>m \<in> set ns. null_ok m c)" for ns n
    using that by (induction ns arbitrary: n) (auto simp: nl_join_ok)
  from this [of "hd (map nullness_of vs)" "tl (map nullness_of vs)"] v show ?case by (cases vs) (auto simp: image_iff)
qed (use assms in \<open>auto split: cval.splits\<close>)

section \<open>The shape of joined values\<close>

text \<open>
  A set holds at most eight distinct values, none of which is a set, null or nullable, and a
  nullable value is not nullable twice.
\<close>

fun plain_value :: "abstract_value \<Rightarrow> bool" where
  "plain_value Unknown = False"
| "plain_value NullV = False"
| "plain_value (Nullable _) = False"
| "plain_value (SetV _) = False"
| "plain_value _ = True"

fun wf_value :: "abstract_value \<Rightarrow> bool" where
  "wf_value (Nullable v) \<longleftrightarrow> \<not> is_nullable v \<and> v \<noteq> NullV \<and> wf_value v"
| "wf_value (SetV vs) \<longleftrightarrow> length vs \<le> set_widen_threshold \<and> distinct vs \<and> list_all plain_value vs"
| "wf_value _ \<longleftrightarrow> True"

lemma push_new_props:
  "distinct vs \<Longrightarrow> distinct (push_new v vs)"
  "plain_value v \<Longrightarrow> list_all plain_value vs \<Longrightarrow> list_all plain_value (push_new v vs)"
  by (auto simp: push_new_def)

lemma fold_push_new_props:
  "distinct vs \<Longrightarrow> distinct (fold push_new ws vs)"
  "list_all plain_value ws \<Longrightarrow> list_all plain_value vs \<Longrightarrow> list_all plain_value (fold push_new ws vs)"
  by (induction ws arbitrary: vs) (auto simp: push_new_props)

lemma wf_widened: "distinct vs \<Longrightarrow> list_all plain_value vs \<Longrightarrow> wf_value (widened_set vs)"
  by (simp add: widened_set_def)

lemma widened_shape [simp]: "widened_set vs \<noteq> NullV" "\<not> is_nullable (widened_set vs)"
  by (simp_all add: widened_set_def)

lemma av_join_shape:
  assumes "\<not> is_nullable a" "\<not> is_nullable b" "a \<noteq> NullV" "b \<noteq> NullV"
  shows "\<not> is_nullable (av_join a b)" "av_join a b \<noteq> NullV"
  using assms unfolding av_join.simps [of a b]
  by (cases a; cases b; simp)+

lemma av_join_wf: "wf_value a \<Longrightarrow> wf_value b \<Longrightarrow> wf_value (av_join a b)"
proof (induction a b rule: av_join_induct)
  case (flat a b)
  then show ?case unfolding av_join.simps [of a b]
    by (cases a; cases b; simp add: wf_widened push_new_props fold_push_new_props set_widen_threshold_def)
next
  case (null_left b)
  then show ?case by (cases b) simp_all
next
  case (null_right a)
  then show ?case by (cases a) simp_all
qed (auto simp: av_join_Nullable av_join_shape)

section \<open>Properties\<close>

text \<open>
  C25: the join of two abstract values stands for every concrete value that either of them stands
  for, whatever the extensions of the types are.
\<close>

theorem join_over_approximates:
  assumes "representable c" "stands_for ty a c \<or> stands_for ty b c"
  shows "stands_for ty (av_join a b) c"
  using assms by (rule av_join_covers)

theorem join_over_approximates_witness:
  "stands_for (\<lambda>_ _. False) (av_join (ConstString ''ab'') (StringWithLength (ir_singleton 5))) (CStr ''ab'')"
  by (rule join_over_approximates) (simp_all add: i64_max_def)

text \<open>
  C31: joins keep sets at eight elements or fewer, without duplicates and without null, unknown
  or nested sets in them, and never make a value nullable twice.
\<close>

theorem join_keeps_shape:
  assumes "wf_value a" "wf_value b"
  shows "wf_value (av_join a b)"
  using assms by (rule av_join_wf)

theorem join_keeps_shape_witness:
  "wf_value (av_join (SetV [ConstInt 1, ConstBool True]) (Nullable (ConstString ''x'')))"
  by (rule join_keeps_shape) (simp_all add: set_widen_threshold_def)

text \<open>
  Every facet read from an abstract value holds of each concrete value it stands for: the
  integer range, the boolean domain, the range of string lengths (null aside) and the nullness, if
  null belongs to no type.
\<close>

theorem facets_sound:
  assumes "stands_for ty v c" "\<forall>t. \<not> ty t CNull"
  shows "(\<forall>r. int_range_of v = Some r \<longrightarrow> (\<exists>n. c = CInt n \<and> ir_contains r n))
    \<and> (\<forall>d. bool_domain_of v = Some d \<longrightarrow> bool_ok d c)
    \<and> (\<forall>r. string_length_range v = Some r \<longrightarrow> c = CNull \<or> (\<exists>s. c = CStr s \<and> ir_contains r (int (length s))))
    \<and> null_ok (nullness_of v) c"
  using int_range_covers [OF _ assms(1)] bool_domain_covers [OF _ assms(1)] string_length_covers [OF _ assms(1)]
    nullness_covers [OF _ assms(1)] assms(2) by blast

theorem facets_sound_witness:
  "null_ok (nullness_of (SetV [ConstInt 3, IntRange (ir_new (Some 5) None)])) (CInt 7)"
  using facets_sound [of "\<lambda>_ _. False" "SetV [ConstInt 3, IntRange (ir_new (Some 5) None)]" "CInt 7"]
  by (simp add: ir_contains_def ir_new_def)

end
