(* ===== verification/Abs_Interp.thy ===== *)
theory Abs_Interp
  imports Abs_Value Cfg_Builder "HOL-Library.AList"
begin

text \<open>
  The abstract interpreter of \<^verbatim>\<open>crates/abstract_interp\<close>: the execution state and its merge
  (\<^verbatim>\<open>state.rs\<close>), and the bounded trace of a control-flow graph (\<^verbatim>\<open>lib.rs\<close>).

  A hash map is the list of its entries in its iteration order, with distinct keys. The result
  \<open>None\<close> of the interpreter is a panic or a loop that does not end; \<^verbatim>\<open>debug\<close> stands for the derived
  \<^verbatim>\<open>Debug\<close> rendering of an event, which the interpreter puts into messages of events it does not expect.
\<close>

section \<open>The execution state\<close>

type_synonym u16 = "16 word"

record constraint =
  ct_text :: string

datatype relation_op = OpEq | OpNotEq | OpLt | OpLe | OpGt | OpGe

datatype relation_term = RtVar string | RtInt int | RtBool bool | RtNull

record value_relation =
  vr_left :: string
  vr_op :: relation_op
  vr_right :: relation_term

record frame =
  fr_caller :: func_id
  fr_return_bb :: block_id

record exec_state =
  es_locals :: "(string \<times> abstract_value) list"
  es_path_constraints :: "constraint list"
  es_relations :: "value_relation list"
  es_call_stack :: "frame list"
  es_current_func :: func_id
  es_current_bb :: block_id

definition es_new :: "func_id \<Rightarrow> block_id \<Rightarrow> exec_state" where
  "es_new func entry = \<lparr>es_locals = [], es_path_constraints = [], es_relations = [], es_call_stack = [],
     es_current_func = func, es_current_bb = entry\<rparr>"

text \<open>The first loop of \<^verbatim>\<open>merge_from\<close>: a binding the other state does not have is forgotten.\<close>

definition forget_missing ::
  "(string \<times> abstract_value) list \<Rightarrow> (string \<times> abstract_value) list \<Rightarrow> (string \<times> abstract_value) list \<times> bool" where
  "forget_missing other locals =
     (map (\<lambda>(name, existing). if map_of other name = None \<and> existing \<noteq> Unknown then (name, Unknown) else (name, existing)) locals,
      list_ex (\<lambda>(name, existing). map_of other name = None \<and> existing \<noteq> Unknown) locals)"

text \<open>The body of its second loop.\<close>

definition merge_local ::
  "string \<times> abstract_value \<Rightarrow> (string \<times> abstract_value) list \<times> bool \<Rightarrow> (string \<times> abstract_value) list \<times> bool" where
  "merge_local = (\<lambda>(name, v) (locals, changed).
     case map_of locals name of
       Some existing \<Rightarrow>
         (let joined = av_join existing v in
          if existing \<noteq> joined then (AList.update name joined locals, True) else (locals, changed))
     | None \<Rightarrow> (AList.update name Unknown locals, True))"

definition merge_from :: "exec_state \<Rightarrow> exec_state \<Rightarrow> exec_state \<times> bool" where
  "merge_from self other =
     (let (locals, changed) = fold merge_local (es_locals other) (forget_missing (es_locals other) (es_locals self));
          constraints = filter (\<lambda>c. c \<in> set (es_path_constraints other)) (es_path_constraints self);
          relations = filter (\<lambda>r. r \<in> set (es_relations other)) (es_relations self)
      in (self\<lparr>es_locals := locals, es_path_constraints := constraints, es_relations := relations\<rparr>,
          changed \<or> length constraints \<noteq> length (es_path_constraints self) \<or> length relations \<noteq> length (es_relations self)))"

definition assume_relation :: "value_relation \<Rightarrow> exec_state \<Rightarrow> exec_state" where
  "assume_relation relation s =
     (if relation \<in> set (es_relations s) then s else s\<lparr>es_relations := es_relations s @ [relation]\<rparr>)"

section \<open>The trace\<close>

record trace_limits =
  max_steps :: u32
  max_call_depth :: u16
  max_loop_iters :: u16
  max_branches :: u32

definition trace_limits_default :: trace_limits where
  "trace_limits_default = \<lparr>max_steps = 4096, max_call_depth = 32, max_loop_iters = 16, max_branches = 256\<rparr>"

datatype step_kind =
  SkEnterFunction | SkEvalExpr | SkAssign | SkBranchSplit | SkBranchTaken | SkCall | SkReturn | SkThrow
| SkAwait | SkYield | SkLifecycle | SkMerge | SkDiagnostic

record raw_step =
  st_id :: u32
  st_path_id :: u32
  st_kind :: step_kind
  st_span :: span
  st_func :: func_id
  st_message :: string

record raw_trace =
  tr_steps :: "raw_step list"
  tr_truncated :: bool
  tr_truncation_reasons :: "string list"
  tr_incomplete_reasons :: "string list"

definition raw_trace_default :: raw_trace where
  "raw_trace_default = \<lparr>tr_steps = [], tr_truncated = False, tr_truncation_reasons = [], tr_incomplete_reasons = []\<rparr>"

definition mark_truncated :: "string \<Rightarrow> raw_trace \<Rightarrow> raw_trace" where
  "mark_truncated reason t = t\<lparr>tr_truncated := True,
     tr_truncation_reasons := (if reason \<in> set (tr_truncation_reasons t) then tr_truncation_reasons t
                               else tr_truncation_reasons t @ [reason])\<rparr>"

definition mark_incomplete :: "string \<Rightarrow> raw_trace \<Rightarrow> raw_trace" where
  "mark_incomplete reason t =
     (if reason = [] then t
      else if reason \<in> set (tr_incomplete_reasons t) then t
      else t\<lparr>tr_incomplete_reasons := tr_incomplete_reasons t @ [reason]\<rparr>)"

section \<open>Events\<close>

fun scalar_value :: "static_scalar_value \<Rightarrow> abstract_value" where
  "scalar_value (ScInteger v) = ConstInt v"
| "scalar_value (ScBoolean v) = ConstBool v"
| "scalar_value (ScString v) = ConstString v"
| "scalar_value ScNull = NullV"

definition assigned_scalar :: "assignment_value_fact list \<Rightarrow> span \<Rightarrow> string \<Rightarrow> static_scalar_value option" where
  "assigned_scalar facts sp target =
     (case assignment_value_fact_for_span facts sp of
        Some f \<Rightarrow> (if av_target f = Some target then av_static_value f else None)
      | None \<Rightarrow> None)"

fun apply_event :: "assignment_value_fact list \<Rightarrow> flow_event \<Rightarrow> exec_state \<Rightarrow> exec_state" where
  "apply_event facts (Assign sp target source_name source_call _ _ _ _) s =
     (let v = (case assigned_scalar facts sp target of
                 Some scalar \<Rightarrow> scalar_value scalar
               | None \<Rightarrow>
                   (if source_call = None
                    then (case Option.bind source_name (map_of (es_locals s)) of Some v \<Rightarrow> v | None \<Rightarrow> Unknown)
                    else Unknown))
      in s\<lparr>es_locals := AList.update target v (es_locals s)\<rparr>)"
| "apply_event facts _ s = s"

fun classify_event :: "(flow_event \<Rightarrow> string) \<Rightarrow> flow_event \<Rightarrow> step_kind \<times> string" where
  "classify_event debug (Call _ name _ _ _ _) = (SkCall, ''call '' @ name)"
| "classify_event debug (Assign _ target source_name source_call source_call_args source_names _ _) =
     (SkAssign, assignment_trace_message ''assign'' target source_name source_call source_call_args source_names)"
| "classify_event debug (Return _ _ _ _ _) = (SkReturn, ''return'')"
| "classify_event debug (Throw _ _ _) = (SkThrow, ''throw'')"
| "classify_event debug (Await _ _) = (SkAwait, ''await'')"
| "classify_event debug (Yield _ value_text _) =
     (SkYield, case value_text of Some text \<Rightarrow> ''yield '' @ text | None \<Rightarrow> ''yield'')"
| "classify_event debug (Break _ _) = (SkDiagnostic, ''break'')"
| "classify_event debug (Continue _ _) = (SkDiagnostic, ''continue'')"
| "classify_event debug (Lifecycle _ name transition) = (SkLifecycle, ''lifecycle '' @ name @ '' -> '' @ transition)"
| "classify_event debug other = (SkDiagnostic, debug other)"

section \<open>The loop\<close>

type_synonym work_item = "block_id \<times> u32 \<times> exec_state"

record interp =
  in_trace :: raw_trace
  in_next_step :: u32
  in_next_path :: u32
  in_worklist :: "work_item list"
  in_visits :: "((block_id \<times> u32) \<times> u16) list"
  in_incoming :: "(block_id \<times> exec_state) list"
  in_branches :: u32

text \<open>The local variables that do not change during a run.\<close>

record interp_env =
  ie_func :: func_id
  ie_cfg :: cfg
  ie_limits :: trace_limits
  ie_facts :: "assignment_value_fact list"
  ie_debug :: "flow_event \<Rightarrow> string"

text \<open>The closure \<^verbatim>\<open>emit\<close>: \<open>None\<close> and the marked trace when the budget is exhausted.\<close>

definition emit :: "interp_env \<Rightarrow> step_kind \<Rightarrow> u32 \<Rightarrow> span \<Rightarrow> string \<Rightarrow> interp \<Rightarrow> raw_trace + interp" where
  "emit env kind path_id sp message st =
     (if max_steps (ie_limits env) \<le> in_next_step st then Inl (mark_truncated ''max-steps'' (in_trace st))
      else Inr (st\<lparr>in_trace := (in_trace st)\<lparr>tr_steps := tr_steps (in_trace st) @
                      [\<lparr>st_id = in_next_step st, st_path_id = path_id, st_kind = kind, st_span = sp,
                        st_func = ie_func env, st_message = message\<rparr>]\<rparr>,
                   in_next_step := in_next_step st + 1\<rparr>))"

fun emit_events :: "interp_env \<Rightarrow> u32 \<Rightarrow> flow_event list \<Rightarrow> exec_state \<Rightarrow> interp \<Rightarrow> raw_trace + exec_state \<times> interp" where
  "emit_events env path_id [] s st = Inr (s, st)"
| "emit_events env path_id (event # events) s st =
     (let s = apply_event (ie_facts env) event s;
          (kind, message) = classify_event (ie_debug env) event
      in case emit env kind path_id (event_span event) message st of
           Inl t \<Rightarrow> Inl t
         | Inr st \<Rightarrow> emit_events env path_id events s st)"

definition push_item :: "work_item \<Rightarrow> interp \<Rightarrow> interp" where
  "push_item w st = st\<lparr>in_worklist := in_worklist st @ [w]\<rparr>"

text \<open>\<open>idx\<close> counts the successors already pushed; \<open>Inl\<close> is the trace of a run that stops on an overflow of path ids.\<close>

fun push_branch_successors :: "nat \<Rightarrow> block_id list \<Rightarrow> u32 \<Rightarrow> exec_state \<Rightarrow> interp \<Rightarrow> raw_trace + interp" where
  "push_branch_successors idx [] parent_path parent_state st = Inr st"
| "push_branch_successors idx (successor # successors) parent_path parent_state st =
     (case (if idx = 0 then Some (parent_path, in_next_path st)
            else map_option (\<lambda>new_id. (new_id, new_id)) (checked_add (in_next_path st) 1)) of
        None \<Rightarrow> Inl (mark_truncated ''path-id-overflow'' (in_trace st))
      | Some (successor_path, next_path) \<Rightarrow>
          push_branch_successors (idx + 1) successors parent_path parent_state
            (push_item (successor, successor_path,
               parent_state\<lparr>es_current_bb := successor,
                 es_path_constraints := es_path_constraints parent_state @ [\<lparr>ct_text = ''branch successor '' @ show_nat idx\<rparr>]\<rparr>)
              (st\<lparr>in_next_path := next_path\<rparr>)))"

definition push_successors :: "block_id list \<Rightarrow> u32 \<Rightarrow> exec_state \<Rightarrow> interp \<Rightarrow> interp" where
  "push_successors successors path_id s st =
     fold (\<lambda>successor. push_item (successor, path_id, s\<lparr>es_current_bb := successor\<rparr>)) successors st"

text \<open>The arms of the match on the terminator. \<open>None\<close> is the overflow of the branch counter, a panic.\<close>

definition count_branch :: "interp_env \<Rightarrow> interp \<Rightarrow> (raw_trace + interp) option" where
  "count_branch env st = do {
     n \<leftarrow> checked_add (in_branches st) 1;
     let st = st\<lparr>in_branches := n\<rparr>;
     Some (if max_branches (ie_limits env) < n then Inl (mark_truncated ''max-branches'' (in_trace st)) else Inr st)
   }"

fun leave_block :: "interp_env \<Rightarrow> basic_block \<Rightarrow> u32 \<Rightarrow> exec_state \<Rightarrow> interp \<Rightarrow> (raw_trace + interp) option" where
  "leave_block env block path_id s st =
     (case bb_terminator block of
        TTryFork \<Rightarrow> do {
          counted \<leftarrow> count_branch env st;
          Some (case counted of
            Inl t \<Rightarrow> Inl t
          | Inr st \<Rightarrow> push_branch_successors 0 (bb_successors block) path_id s st)
        }
      | TBranch \<Rightarrow> do {
          counted \<leftarrow> count_branch env st;
          Some (case counted of
            Inl t \<Rightarrow> Inl t
          | Inr st \<Rightarrow>
              (case emit env SkBranchSplit path_id (bb_span block) ''branch'' st of
                 Inl t \<Rightarrow> Inl t
               | Inr st \<Rightarrow> push_branch_successors 0 (bb_successors block) path_id s st))
        }
      | TUnreachable \<Rightarrow> Some (Inr st)
      | _ \<Rightarrow> Some (Inr (push_successors (bb_successors block) path_id s st)))"

text \<open>The state a block is entered with: the stored state absorbs the incoming one, and replaces it if it grew.\<close>

definition enter_block :: "interp_env \<Rightarrow> basic_block \<Rightarrow> block_id \<Rightarrow> u32 \<Rightarrow> exec_state \<Rightarrow> interp \<Rightarrow> raw_trace + exec_state \<times> interp" where
  "enter_block env block block_id path_id s st =
     (case map_of (in_incoming st) block_id of
        Some existing \<Rightarrow>
          (let (merged, changed) = merge_from existing s;
               st = st\<lparr>in_incoming := AList.update block_id merged (in_incoming st)\<rparr>
           in if changed then
                (case emit env SkMerge path_id (bb_span block) ''merge abstract state'' st of
                   Inl t \<Rightarrow> Inl t
                 | Inr st \<Rightarrow> Inr (merged, st))
              else Inr (s, st))
      | None \<Rightarrow> Inr (s, st\<lparr>in_incoming := AList.update block_id s (in_incoming st)\<rparr>))"

text \<open>One turn of the loop on the last item of a worklist.\<close>

definition interp_turn :: "interp_env \<Rightarrow> work_item \<Rightarrow> interp \<Rightarrow> (raw_trace + interp) option" where
  "interp_turn env = (\<lambda>(block_id, path_id, s) st.
     let visit_count = (case map_of (in_visits st) (block_id, path_id) of Some n \<Rightarrow> n | None \<Rightarrow> 0);
         st = st\<lparr>in_visits := AList.update (block_id, path_id) visit_count (in_visits st)\<rparr>
     in if max_loop_iters (ie_limits env) \<le> visit_count then
          Some (Inr (st\<lparr>in_trace := mark_truncated ''max-loop-iters'' (in_trace st)\<rparr>))
        else
          (let st = st\<lparr>in_visits := AList.update (block_id, path_id) (visit_count + 1) (in_visits st)\<rparr>
           in case cfg_block (ie_cfg env) block_id of
                None \<Rightarrow> Some (Inr (st\<lparr>in_trace := mark_incomplete (''cfg-missing-block:'' @ show_nat (unat block_id)) (in_trace st)\<rparr>))
              | Some block \<Rightarrow>
                  (case enter_block env block block_id path_id (s\<lparr>es_current_bb := block_id\<rparr>) st of
                     Inl t \<Rightarrow> Some (Inl t)
                   | Inr (s, st) \<Rightarrow>
                       (case emit_events env path_id (bb_events block) s st of
                          Inl t \<Rightarrow> Some (Inl t)
                        | Inr (s, st) \<Rightarrow> leave_block env block path_id s st))))"

partial_function (option) interp_loop :: "interp_env \<Rightarrow> interp \<Rightarrow> raw_trace option" where
  "interp_loop env st =
     (if in_worklist st = [] then Some (in_trace st)
      else do {
        turn \<leftarrow> interp_turn env (last (in_worklist st)) (st\<lparr>in_worklist := butlast (in_worklist st)\<rparr>);
        case turn of
          Inl t \<Rightarrow> Some t
        | Inr st \<Rightarrow> interp_loop env st
      })"

declare interp_loop.simps [code]

definition run_entry_with_assignment_values ::
  "(flow_event \<Rightarrow> string) \<Rightarrow> func_id \<Rightarrow> cfg \<Rightarrow> trace_limits \<Rightarrow> assignment_value_fact list \<Rightarrow> raw_trace option" where
  "run_entry_with_assignment_values debug func g limits facts =
     (let trace = fold mark_incomplete (cfg_incomplete_reasons g) raw_trace_default;
          trace = (if \<not> cfg_analysis_complete g \<and> tr_incomplete_reasons trace = []
                   then mark_incomplete ''cfg-incomplete'' trace else trace)
      in case cfg_block g (cfg_entry g) of
           None \<Rightarrow> Some (mark_incomplete ''cfg-missing-entry'' trace)
         | Some block \<Rightarrow>
             (let env = \<lparr>ie_func = func, ie_cfg = g, ie_limits = limits, ie_facts = facts, ie_debug = debug\<rparr>;
                  st = \<lparr>in_trace = trace, in_next_step = 0, in_next_path = 1, in_worklist = [], in_visits = [],
                        in_incoming = [], in_branches = 0\<rparr>
              in case emit env SkEnterFunction 1 (bb_span block) (''enter '' @ show_nat (unat func)) st of
                   Inl t \<Rightarrow> Some t
                 | Inr st \<Rightarrow> interp_loop env (push_item (cfg_entry g, 1, es_new func (cfg_entry g)) st)))"

definition run_entry :: "(flow_event \<Rightarrow> string) \<Rightarrow> func_id \<Rightarrow> cfg \<Rightarrow> trace_limits \<Rightarrow> raw_trace option" where
  "run_entry debug func g limits = run_entry_with_assignment_values debug func g limits []"

end
