(* ===== verification/Abs_Trace.thy ===== *)
theory Abs_Trace
  imports Abs_Interp
begin

text \<open>
  What the abstract interpreter guarantees: the merge of two execution states stands for every
  store either of them stands for and reports exactly whether it changed the state; a run always
  returns; its trace is within the budget and numbered without gaps; and a trace that is not
  truncated has a step for every event of every block the control flow can reach.
\<close>

section \<open>Merging states\<close>

lemma forget_missing_map:
  "map_of (fst (forget_missing other locals)) n =
     (case map_of locals n of None \<Rightarrow> None | Some v \<Rightarrow> Some (if map_of other n = None then Unknown else v))"
  by (induction locals) (auto simp: forget_missing_def split: option.splits if_splits)

lemma forget_missing_keys [simp]: "map fst (fst (forget_missing other locals)) = map fst locals"
  by (auto simp: forget_missing_def)

lemma forget_missing_changed:
  "\<not> snd (forget_missing other locals) \<Longrightarrow> fst (forget_missing other locals) = locals"
  by (induction locals) (auto simp: forget_missing_def split: if_splits)

lemma merge_local_map:
  "map_of (fst (merge_local (n, v) (locals, ch))) =
     (map_of locals)(n \<mapsto> (case map_of locals n of Some a \<Rightarrow> av_join a v | None \<Rightarrow> Unknown))"
  by (auto simp: merge_local_def update_conv' Let_def fun_upd_idem_iff split: option.split)

lemma fold_merge_map:
  assumes "distinct (map fst other)"
  shows "map_of (fst (fold merge_local other (locals, ch))) n =
    (case map_of other n of
       None \<Rightarrow> map_of locals n
     | Some v \<Rightarrow> Some (case map_of locals n of Some a \<Rightarrow> av_join a v | None \<Rightarrow> Unknown))"
  using assms
proof (induction other arbitrary: locals ch)
  case (Cons x other)
  obtain k v where x: "x = (k, v)" by fastforce
  obtain l' ch' where m: "merge_local (k, v) (locals, ch) = (l', ch')" by fastforce
  have l': "map_of l' = (map_of locals)(k \<mapsto> (case map_of locals k of Some a \<Rightarrow> av_join a v | None \<Rightarrow> Unknown))"
    using merge_local_map [of k v locals ch] m by simp
  have "map_of other k = None" using Cons.prems x by (simp add: map_of_eq_None_iff)
  then show ?case using Cons.IH [of l' ch'] Cons.prems x m l' by (auto split: option.split)
qed (simp split: option.split)

lemma merge_local_grows: "snd (merge_local x (locals, ch)) = ch \<and> fst (merge_local x (locals, ch)) = locals \<or> snd (merge_local x (locals, ch))"
  by (cases x) (auto simp: merge_local_def Let_def split: option.split)

lemma fold_merge_unchanged:
  "\<not> snd (fold merge_local other (locals, ch)) \<Longrightarrow> fst (fold merge_local other (locals, ch)) = locals \<and> \<not> ch"
proof (induction other arbitrary: locals ch)
  case (Cons x other)
  obtain l' ch' where m: "merge_local x (locals, ch) = (l', ch')" by fastforce
  with Cons merge_local_grows [of x locals ch] show ?case by fastforce
qed simp

lemma fold_merge_noop:
  "\<forall>(n, v) \<in> set other. \<exists>a. map_of locals n = Some a \<and> av_join a v = a \<Longrightarrow> fold merge_local other (locals, ch) = (locals, ch)"
  by (induction other) (auto simp: merge_local_def)

lemma fold_merge_changed:
  assumes "distinct (map fst other)" "map_of (fst (fold merge_local other (locals, ch))) = map_of locals"
  shows "snd (fold merge_local other (locals, ch)) = ch"
proof -
  have "\<exists>a. map_of locals n = Some a \<and> av_join a v = a" if "(n, v) \<in> set other" for n v
  proof -
    have "map_of other n = Some v" using that assms(1) by simp
    with fun_cong [OF assms(2), of n] show ?thesis
      unfolding fold_merge_map [OF assms(1)] by (cases "map_of locals n") auto
  qed
  then have "fold merge_local other (locals, ch) = (locals, ch)" by (intro fold_merge_noop) blast
  then show ?thesis by simp
qed

definition merged_binding :: "abstract_value option \<Rightarrow> abstract_value option \<Rightarrow> abstract_value option" where
  "merged_binding a b = (case (a, b) of (Some x, Some y) \<Rightarrow> Some (av_join x y) | (None, None) \<Rightarrow> None | _ \<Rightarrow> Some Unknown)"

lemma merge_from_locals:
  assumes "distinct (map fst (es_locals other))"
  shows "map_of (es_locals (fst (merge_from self other))) n = merged_binding (map_of (es_locals self) n) (map_of (es_locals other) n)"
proof -
  obtain l ch where f: "forget_missing (es_locals other) (es_locals self) = (l, ch)" by fastforce
  obtain l' ch' where m: "fold merge_local (es_locals other) (l, ch) = (l', ch')" by fastforce
  have "map_of l' n = merged_binding (map_of (es_locals self) n) (map_of (es_locals other) n)"
    using fold_merge_map [OF assms, of l ch n] forget_missing_map [of "es_locals other" "es_locals self" n] f m
    by (auto simp: merged_binding_def split: option.splits)
  then show ?thesis using f m by (simp add: merge_from_def Let_def)
qed

lemma filter_same: "length (filter P xs) = length xs \<longleftrightarrow> filter P xs = xs"
proof (induction xs)
  case (Cons x xs)
  have "length (filter P xs) \<noteq> Suc (length xs)" using length_filter_le [of P xs] by linarith
  with Cons show ?case by (auto dest: arg_cong [where f = length])
qed simp

lemma merge_from_changed:
  assumes "distinct (map fst (es_locals self))" "distinct (map fst (es_locals other))"
  shows "snd (merge_from self other) \<longleftrightarrow> fst (merge_from self other) \<noteq> self"
proof -
  obtain l ch where f: "forget_missing (es_locals other) (es_locals self) = (l, ch)" by fastforce
  obtain l' ch' where m: "fold merge_local (es_locals other) (l, ch) = (l', ch')" by fastforce
  have "ch' \<longleftrightarrow> l' \<noteq> es_locals self"
  proof
    assume "ch'"
    show "l' \<noteq> es_locals self"
    proof
      assume eq: "l' = es_locals self"
      have "\<not> ch"
      proof
        assume ch
        then obtain n v where "(n, v) \<in> set (es_locals self)" "map_of (es_locals other) n = None" "v \<noteq> Unknown"
          using f by (auto simp: forget_missing_def list_ex_iff)
        moreover from this have "map_of (es_locals self) n = Some v" using assms(1) by simp
        ultimately show False
          using merge_from_locals [OF assms(2), of self n] eq f m by (simp add: merge_from_def merged_binding_def Let_def)
      qed
      moreover from this have "l = es_locals self" using forget_missing_changed [of "es_locals other" "es_locals self"] f by simp
      ultimately show False using fold_merge_changed [OF assms(2), of l ch] m eq \<open>ch'\<close> by simp
    qed
  next
    assume "l' \<noteq> es_locals self"
    then show ch' using fold_merge_unchanged [of "es_locals other" l ch] m f
      forget_missing_changed [of "es_locals other" "es_locals self"] by fastforce
  qed
  then show ?thesis using f m
    by (cases self) (auto simp: merge_from_def filter_same Let_def)
qed

section \<open>Stores\<close>

text \<open>
  A store gives every name a value. A state stands for a store when each of its bindings does. An
  assignment with a static scalar stores that scalar, a copy of a bare name the value of that name,
  and any other assignment any value.
\<close>

definition models :: "(type_id \<Rightarrow> cval \<Rightarrow> bool) \<Rightarrow> exec_state \<Rightarrow> (string \<Rightarrow> cval) \<Rightarrow> bool" where
  "models ty s \<sigma> \<longleftrightarrow> (\<forall>n v. map_of (es_locals s) n = Some v \<longrightarrow> stands_for ty v (\<sigma> n))"

fun scalar_cval :: "static_scalar_value \<Rightarrow> cval" where
  "scalar_cval (ScInteger v) = CInt v"
| "scalar_cval (ScBoolean v) = CBool v"
| "scalar_cval (ScString v) = CStr v"
| "scalar_cval ScNull = CNull"

fun assigns :: "assignment_value_fact list \<Rightarrow> flow_event \<Rightarrow> (string \<Rightarrow> cval) \<Rightarrow> (string \<Rightarrow> cval) \<Rightarrow> bool" where
  "assigns facts (Assign sp target source_name source_call _ _ _ _) \<sigma> \<sigma>' \<longleftrightarrow>
     (\<exists>c. \<sigma>' = \<sigma>(target := c) \<and>
        (case assigned_scalar facts sp target of
           Some scalar \<Rightarrow> c = scalar_cval scalar
         | None \<Rightarrow> source_call = None \<longrightarrow> (\<forall>n. source_name = Some n \<longrightarrow> c = \<sigma> n)))"
| "assigns facts _ \<sigma> \<sigma>' \<longleftrightarrow> \<sigma>' = \<sigma>"

lemma scalar_value_stands [simp]: "stands_for ty (scalar_value sc) (scalar_cval sc)"
  by (cases sc) auto

lemma apply_event_models:
  assumes "models ty s \<sigma>" "assigns facts e \<sigma> \<sigma>'"
  shows "models ty (apply_event facts e s) \<sigma>'"
  using assms
proof (cases e)
  case (Assign sp target source_name source_call a b c d)
  then show ?thesis using assms
    by (auto simp: models_def update_conv' Let_def bind_eq_Some_conv split: option.splits if_splits)
qed auto

definition state_ok :: "exec_state \<Rightarrow> bool" where
  "state_ok s \<longleftrightarrow> distinct (map fst (es_locals s)) \<and> (\<forall>n v. map_of (es_locals s) n = Some v \<longrightarrow> wf_value v)"

lemma apply_event_ok: "state_ok s \<Longrightarrow> state_ok (apply_event facts e s)"
proof (cases e)
  case (Assign sp target source_name source_call a b c d)
  moreover have "wf_value (scalar_value sc)" for sc by (cases sc) auto
  moreover assume "state_ok s"
  ultimately show ?thesis
    by (auto simp: state_ok_def update_conv' distinct_update Let_def bind_eq_Some_conv split: option.splits if_splits)
qed auto

lemma merge_local_distinct: "distinct (map fst (fst x)) \<Longrightarrow> distinct (map fst (fst (merge_local b x)))"
  by (cases x; cases b) (auto simp: merge_local_def Let_def distinct_update split: option.split)

lemma merge_from_ok:
  assumes "state_ok self" "state_ok other"
  shows "state_ok (fst (merge_from self other))"
proof -
  have d: "distinct (map fst (fst (fold merge_local os x)))" if "distinct (map fst (fst x))" for os x
    using that by (induction os arbitrary: x) (auto simp: merge_local_distinct)
  have "distinct (map fst (es_locals (fst (merge_from self other))))"
    using d [of "forget_missing (es_locals other) (es_locals self)" "es_locals other"] assms(1)
    by (auto simp: merge_from_def state_ok_def Let_def split: prod.split)
  moreover have "wf_value v" if "merged_binding (map_of (es_locals self) n) (map_of (es_locals other) n) = Some v" for n v
    using that assms by (auto simp: merged_binding_def state_ok_def av_join_wf split: option.splits)
  ultimately show ?thesis using assms merge_from_locals [of other self] by (simp add: state_ok_def)
qed

lemma merge_from_models:
  assumes "distinct (map fst (es_locals other))" "\<forall>n. representable (\<sigma> n)" "models ty self \<sigma> \<or> models ty other \<sigma>"
  shows "models ty (fst (merge_from self other)) \<sigma>"
  unfolding models_def merge_from_locals [OF assms(1)]
proof (intro allI impI)
  fix n v
  assume "merged_binding (map_of (es_locals self) n) (map_of (es_locals other) n) = Some v"
  then show "stands_for ty v (\<sigma> n)"
    using assms(2,3) av_join_covers [of "\<sigma> n" ty]
    by (auto simp: merged_binding_def models_def split: option.splits)
qed

section \<open>The trace under construction\<close>

definition trace_ok :: "interp_env \<Rightarrow> raw_trace \<Rightarrow> bool" where
  "trace_ok env t \<longleftrightarrow> map st_id (tr_steps t) = map of_nat [0 ..< length (tr_steps t)]
     \<and> length (tr_steps t) \<le> unat (max_steps (ie_limits env))
     \<and> (tr_truncated t \<longleftrightarrow> tr_truncation_reasons t \<noteq> []) \<and> distinct (tr_truncation_reasons t)
     \<and> (\<forall>s \<in> set (tr_steps t). st_func s = ie_func env)"

definition interp_ok :: "interp_env \<Rightarrow> interp \<Rightarrow> bool" where
  "interp_ok env st \<longleftrightarrow> trace_ok env (in_trace st) \<and> in_next_step st = of_nat (length (tr_steps (in_trace st)))"

definition extends :: "raw_trace \<Rightarrow> raw_trace \<Rightarrow> bool" where
  "extends t t' \<longleftrightarrow> set (tr_steps t) \<subseteq> set (tr_steps t') \<and> (tr_truncated t \<longrightarrow> tr_truncated t')"

definition adv :: "interp_env \<Rightarrow> interp \<Rightarrow> interp \<Rightarrow> bool" where
  "adv env st st' \<longleftrightarrow> (interp_ok env st \<longrightarrow> interp_ok env st') \<and> extends (in_trace st) (in_trace st')
     \<and> in_visits st' = in_visits st \<and> set (in_worklist st) \<subseteq> set (in_worklist st')"

definition stopped :: "interp_env \<Rightarrow> interp \<Rightarrow> raw_trace \<Rightarrow> bool" where
  "stopped env st t \<longleftrightarrow> tr_truncated t \<and> (interp_ok env st \<longrightarrow> trace_ok env t)"

lemma adv_refl [simp]: "adv env st st"
  by (simp add: adv_def extends_def)

lemma adv_trans: "adv env a b \<Longrightarrow> adv env b c \<Longrightarrow> adv env a c"
  by (auto simp: adv_def extends_def)

lemma stopped_adv: "adv env a b \<Longrightarrow> stopped env b t \<Longrightarrow> stopped env a t"
  by (simp add: adv_def stopped_def)

lemma mark_truncated_ok: "trace_ok env t \<Longrightarrow> trace_ok env (mark_truncated r t)" "tr_truncated (mark_truncated r t)"
  by (auto simp: trace_ok_def mark_truncated_def)

lemma mark_incomplete_ok: "trace_ok env (mark_incomplete r t) = trace_ok env t" "tr_steps (mark_incomplete r t) = tr_steps t"
  "tr_truncated (mark_incomplete r t) = tr_truncated t"
  by (auto simp: trace_ok_def mark_incomplete_def)

lemma stopped_mark: "stopped env st (mark_truncated r (in_trace st))"
  by (simp add: stopped_def mark_truncated_ok interp_ok_def)

definition has_step :: "interp_env \<Rightarrow> flow_event \<Rightarrow> raw_trace \<Rightarrow> bool" where
  "has_step env e t \<longleftrightarrow> (\<exists>s \<in> set (tr_steps t). st_span s = event_span e \<and> (st_kind s, st_message s) = classify_event (ie_debug env) e)"

lemma has_step_extends: "has_step env e t \<Longrightarrow> extends t t' \<Longrightarrow> has_step env e t'"
  by (auto simp: has_step_def extends_def)

lemma emit_Inl: "emit env k p sp m st = Inl t \<Longrightarrow> stopped env st t"
  by (auto simp: emit_def stopped_mark split: if_splits)

lemma emit_Inr:
  assumes "emit env k p sp m st = Inr st'"
  shows "adv env st st'" "in_worklist st' = in_worklist st" "in_incoming st' = in_incoming st"
    "\<exists>s \<in> set (tr_steps (in_trace st')). st_span s = sp \<and> st_kind s = k \<and> st_message s = m"
proof -
  have lt: "in_next_step st < max_steps (ie_limits env)" and st': "st' = st\<lparr>in_trace := (in_trace st)\<lparr>tr_steps := tr_steps (in_trace st) @
      [\<lparr>st_id = in_next_step st, st_path_id = p, st_kind = k, st_span = sp, st_func = ie_func env, st_message = m\<rparr>]\<rparr>,
      in_next_step := in_next_step st + 1\<rparr>"
    using assms by (auto simp: emit_def split: if_splits)
  have "interp_ok env st'" if "interp_ok env st"
  proof -
    let ?n = "length (tr_steps (in_trace st))"
    have n: "in_next_step st = of_nat ?n" "?n \<le> unat (max_steps (ie_limits env))" using that by (simp_all add: interp_ok_def trace_ok_def)
    have "unat (of_nat ?n :: u32) = ?n" using le_less_trans [OF n(2) unsigned_less] by (simp add: unat_of_nat_u32)
    with lt n(1) have "Suc ?n \<le> unat (max_steps (ie_limits env))" by (simp add: word_less_nat_alt)
    with that n(1) show ?thesis by (auto simp: interp_ok_def trace_ok_def st' algebra_simps)
  qed
  then show "adv env st st'" by (auto simp: adv_def extends_def st')
  show "in_worklist st' = in_worklist st" "in_incoming st' = in_incoming st" by (simp_all add: st')
  show "\<exists>s \<in> set (tr_steps (in_trace st')). st_span s = sp \<and> st_kind s = k \<and> st_message s = m" by (simp add: st')
qed

lemma emit_adv: "emit env k p sp m st = Inr st' \<Longrightarrow> adv env st st' \<and> in_worklist st' = in_worklist st"
  using emit_Inr by blast

lemma emit_events_Inl: "emit_events env p es s st = Inl t \<Longrightarrow> stopped env st t"
proof (induction env p es s st rule: emit_events.induct)
  case (2 env p e es s st)
  show ?case
  proof (cases "emit env (fst (classify_event (ie_debug env) e)) p (event_span e) (snd (classify_event (ie_debug env) e)) st")
    case (Inl t')
    with 2 show ?thesis by (auto simp: Let_def split: prod.splits dest: emit_Inl)
  next
    case (Inr st')
    with 2 have "stopped env st' t" by (auto simp: Let_def split: prod.splits)
    then show ?thesis using emit_Inr(1) [OF Inr] stopped_adv by blast
  qed
qed simp

lemma emit_events_Inr:
  "emit_events env p es s st = Inr (s', st') \<Longrightarrow> adv env st st' \<and> in_worklist st' = in_worklist st \<and> in_incoming st' = in_incoming st
     \<and> (\<forall>e \<in> set es. has_step env e (in_trace st'))"
proof (induction env p es s st rule: emit_events.induct)
  case (2 env p e es s st)
  show ?case
  proof (cases "emit env (fst (classify_event (ie_debug env) e)) p (event_span e) (snd (classify_event (ie_debug env) e)) st")
    case (Inl t')
    with 2 show ?thesis by (auto simp: Let_def split: prod.splits)
  next
    case (Inr st1)
    note m = emit_Inr [OF Inr]
    from Inr 2 have ih: "adv env st1 st' \<and> in_worklist st' = in_worklist st1 \<and> in_incoming st' = in_incoming st1
        \<and> (\<forall>e \<in> set es. has_step env e (in_trace st'))"
      by (auto simp: Let_def split: prod.splits)
    have "has_step env e (in_trace st1)" using m(4) by (auto simp: has_step_def)
    then have "has_step env e (in_trace st')" using ih has_step_extends by (auto simp: adv_def)
    with ih m adv_trans show ?thesis by auto
  qed
qed simp

lemma push_item_adv: "adv env st (push_item w st)"
  by (auto simp: adv_def extends_def push_item_def interp_ok_def)

lemma push_successors_adv:
  "adv env st (push_successors ss p s st)" "set ss \<subseteq> fst ` set (in_worklist (push_successors ss p s st))"
proof -
  have "adv env st (push_successors ss p s st) \<and> set ss \<subseteq> fst ` set (in_worklist (push_successors ss p s st))"
    unfolding push_successors_def
  proof (induction ss arbitrary: st)
    case (Cons x ss)
    let ?w = "(x, p, s\<lparr>es_current_bb := x\<rparr>)"
    let ?fin = "fold (\<lambda>x. push_item (x, p, s\<lparr>es_current_bb := x\<rparr>)) ss (push_item ?w st)"
    from Cons [of "push_item ?w st"] have ih: "adv env (push_item ?w st) ?fin" "set ss \<subseteq> fst ` set (in_worklist ?fin)" by simp_all
    have "?w \<in> set (in_worklist ?fin)" using ih(1) by (auto simp: push_item_def adv_def)
    then have "x \<in> fst ` set (in_worklist ?fin)" by (rule rev_image_eqI) simp
    with ih adv_trans [OF push_item_adv ih(1)] show ?case by simp
  qed simp
  then show "adv env st (push_successors ss p s st)" "set ss \<subseteq> fst ` set (in_worklist (push_successors ss p s st))" by auto
qed

lemma next_path_adv: "adv env st (st\<lparr>in_next_path := n\<rparr>)" "adv env st (st\<lparr>in_branches := n'\<rparr>)" "adv env st (st\<lparr>in_incoming := inc\<rparr>)"
  by (auto simp: adv_def extends_def interp_ok_def)

lemma push_branch_case:
  "case push_branch_successors i ss p s st of
     Inl t \<Rightarrow> stopped env st t
   | Inr st' \<Rightarrow> adv env st st' \<and> set ss \<subseteq> fst ` set (in_worklist st')"
proof (induction i ss p s st rule: push_branch_successors.induct)
  case (2 i x ss p s st)
  let ?pick = "if i = 0 then Some (p, in_next_path st) else map_option (\<lambda>new_id. (new_id, new_id)) (checked_add (in_next_path st) 1)"
  show ?case
  proof (cases ?pick)
    case None
    then have "push_branch_successors i (x # ss) p s st = Inl (mark_truncated ''path-id-overflow'' (in_trace st))" by simp
    then show ?thesis by (simp only: sum.case stopped_mark)
  next
    case (Some pick)
    obtain sp np where pk: "pick = (sp, np)" by fastforce
    let ?w = "(x, sp, s\<lparr>es_current_bb := x, es_path_constraints := es_path_constraints s @ [\<lparr>ct_text = ''branch successor '' @ show_nat i\<rparr>]\<rparr>)"
    let ?st1 = "push_item ?w (st\<lparr>in_next_path := np\<rparr>)"
    have st1: "adv env st ?st1" using adv_trans [OF next_path_adv(1) push_item_adv] .
    have x: "?w \<in> set (in_worklist ?st1)" by (simp add: push_item_def)
    have eq: "push_branch_successors i (x # ss) p s st = push_branch_successors (i + 1) ss p s ?st1"
      using Some unfolding push_branch_successors.simps pk by simp
    note ih = "2.IH" [OF Some [unfolded pk] refl]
    show ?thesis
    proof (cases "push_branch_successors (i + 1) ss p s ?st1")
      case (Inl t)
      with ih have "stopped env ?st1 t" by simp
      then have "stopped env st t" by (rule stopped_adv [OF st1])
      then show ?thesis unfolding eq Inl by simp
    next
      case (Inr st')
      with ih have i: "adv env ?st1 st'" "set ss \<subseteq> fst ` set (in_worklist st')" by simp_all
      then have "?w \<in> set (in_worklist st')" using x by (auto simp: adv_def)
      then have "x \<in> fst ` set (in_worklist st')" by (rule rev_image_eqI) simp
      with i adv_trans [OF st1 i(1)] show ?thesis unfolding eq Inr by simp
    qed
  qed
qed simp

lemma push_branch_adv:
  "push_branch_successors i ss p s st = Inl t \<Longrightarrow> stopped env st t"
  "push_branch_successors i ss p s st = Inr st' \<Longrightarrow> adv env st st' \<and> set ss \<subseteq> fst ` set (in_worklist st')"
  using push_branch_case [where i = i and ss = ss and p = p and s = s and st = st and env = env] by simp_all

lemma count_branch_adv:
  "count_branch env st = Some (Inl t) \<Longrightarrow> stopped env st t"
  "count_branch env st = Some (Inr st') \<Longrightarrow> adv env st st' \<and> in_worklist st' = in_worklist st"
  by (auto simp: count_branch_def Let_def stopped_def mark_truncated_ok interp_ok_def next_path_adv split: bind_splits if_splits)

lemma leave_block_Inl: "leave_block env b p s st = Some (Inl t) \<Longrightarrow> stopped env st t"
  by (auto split: terminator.splits bind_splits sum.splits
      dest: count_branch_adv push_branch_adv(1) [where env = env] emit_Inl emit_Inr(1) intro: stopped_adv adv_trans)

lemma leave_block_Inr:
  "leave_block env b p s st = Some (Inr st') \<Longrightarrow>
     adv env st st' \<and> (bb_terminator b \<noteq> TUnreachable \<longrightarrow> set (bb_successors b) \<subseteq> fst ` set (in_worklist st'))"
  using push_successors_adv(1) [of env st "bb_successors b" p s] push_successors_adv(2) [of "bb_successors b" p s st]
  by (auto split: terminator.splits bind_splits sum.splits
      dest!: count_branch_adv push_branch_adv(2) [where env = env] emit_Inr(1) intro: adv_trans)

lemma enter_block_Inl: "enter_block env b i p s st = Inl t \<Longrightarrow> stopped env st t"
  by (auto simp: enter_block_def Let_def split: option.splits prod.splits if_splits sum.splits
      dest!: emit_Inl intro: stopped_adv [OF next_path_adv(3)])

lemma enter_block_Inr: "enter_block env b i p s st = Inr (s', st') \<Longrightarrow> adv env st st' \<and> in_worklist st' = in_worklist st"
  by (auto simp: enter_block_def Let_def next_path_adv split: option.splits prod.splits if_splits sum.splits
      dest!: emit_adv intro: adv_trans [OF next_path_adv(3)])

section \<open>One turn\<close>

definition visit_count :: "interp \<Rightarrow> block_id \<times> u32 \<Rightarrow> u16" where
  "visit_count st k = (case map_of (in_visits st) k of Some n \<Rightarrow> n | None \<Rightarrow> 0)"

text \<open>A turn that goes on either gives up its item, marking the trace, or visits the block of the item once more.\<close>

definition turn_ok :: "interp_env \<Rightarrow> work_item \<Rightarrow> interp \<Rightarrow> interp \<Rightarrow> bool" where
  "turn_ok env w st st' \<longleftrightarrow>
     (interp_ok env st \<longrightarrow> interp_ok env st') \<and> extends (in_trace st) (in_trace st') \<and> set (in_worklist st) \<subseteq> set (in_worklist st')
     \<and> (let k = (fst w, fst (snd w)) in
         tr_truncated (in_trace st') \<and> in_worklist st' = in_worklist st \<and> visit_count st' = visit_count st
         \<or> visit_count st k < max_loop_iters (ie_limits env) \<and> visit_count st' = (visit_count st)(k := visit_count st k + 1)
           \<and> (\<forall>b. cfg_block (ie_cfg env) (fst w) = Some b \<longrightarrow>
                (\<forall>e \<in> set (bb_events b). has_step env e (in_trace st'))
                \<and> (bb_terminator b \<noteq> TUnreachable \<longrightarrow> set (bb_successors b) \<subseteq> fst ` set (in_worklist st'))))"

lemma visit_count_update: "visit_count (st\<lparr>in_visits := AList.update k n (in_visits st)\<rparr>) = (visit_count st)(k := n)"
  by (auto simp: visit_count_def update_conv')

lemma visit_count_adv: "adv env st st' \<Longrightarrow> visit_count st' = visit_count st"
  by (auto simp: visit_count_def adv_def)

lemma interp_turn_case:
  assumes "interp_turn env w st = Some r"
  shows "case r of Inl t \<Rightarrow> stopped env st t | Inr st' \<Rightarrow> turn_ok env w st st'"
proof -
  obtain i p s where w: "w = (i, p, s)" by (cases w)
  let ?n = "visit_count st (i, p)"
  define st1 where "st1 = st\<lparr>in_visits := AList.update (i, p) ?n (in_visits st)\<rparr>"
  define st2 where "st2 = st1\<lparr>in_visits := AList.update (i, p) (?n + 1) (in_visits st1)\<rparr>"
  have v1: "visit_count st1 = visit_count st" unfolding st1_def visit_count_update by auto
  have vc2: "visit_count st2 = (visit_count st)((i, p) := ?n + 1)" unfolding st2_def visit_count_update v1 ..
  have same: "in_trace st2 = in_trace st" "in_worklist st2 = in_worklist st" "in_trace st1 = in_trace st"
      "in_worklist st1 = in_worklist st" "interp_ok env st2 = interp_ok env st"
    by (simp_all add: st1_def st2_def interp_ok_def)
  show ?thesis
  proof (cases "max_loop_iters (ie_limits env) \<le> ?n")
    case True
    then have "r = Inr (st1\<lparr>in_trace := mark_truncated ''max-loop-iters'' (in_trace st1)\<rparr>)"
      using assms by (simp add: interp_turn_def w Let_def st1_def visit_count_def)
    moreover have "visit_count (st1\<lparr>in_trace := t\<rparr>) = visit_count st" for t using v1 by (simp add: visit_count_def fun_eq_iff)
    ultimately show ?thesis
      using same by (auto simp: turn_ok_def mark_truncated_ok extends_def interp_ok_def st1_def mark_truncated_def trace_ok_def)
  next
    case False
    then have lt: "?n < max_loop_iters (ie_limits env)" by simp
    from False assms have go: "(case cfg_block (ie_cfg env) i of
        None \<Rightarrow> Some (Inr (st2\<lparr>in_trace := mark_incomplete (''cfg-missing-block:'' @ show_nat (unat i)) (in_trace st2)\<rparr>))
      | Some block \<Rightarrow> (case enter_block env block i p (s\<lparr>es_current_bb := i\<rparr>) st2 of
          Inl t \<Rightarrow> Some (Inl t)
        | Inr (s, st) \<Rightarrow> (case emit_events env p (bb_events block) s st of
            Inl t \<Rightarrow> Some (Inl t)
          | Inr (s, st) \<Rightarrow> leave_block env block p s st))) = Some r"
      by (simp add: interp_turn_def w Let_def visit_count_def [symmetric] st1_def [symmetric] st2_def [symmetric])
    show ?thesis
    proof (cases "cfg_block (ie_cfg env) i")
      case None
      with go have r: "r = Inr (st2\<lparr>in_trace := mark_incomplete (''cfg-missing-block:'' @ show_nat (unat i)) (in_trace st2)\<rparr>)" by simp
      have "visit_count (st2\<lparr>in_trace := t\<rparr>) = visit_count st2" for t by (simp add: visit_count_def fun_eq_iff)
      with None lt vc2 same show ?thesis
        unfolding r by (auto simp: turn_ok_def w mark_incomplete_ok extends_def interp_ok_def st2_def st1_def)
    next
      case (Some b)
      show ?thesis
      proof (cases "enter_block env b i p (s\<lparr>es_current_bb := i\<rparr>) st2")
        case (Inl t)
        with Some go enter_block_Inl [OF Inl] show ?thesis using same(5) by (auto simp: stopped_def)
      next
        case (Inr x)
        obtain s3 st3 where x: "x = (s3, st3)" by fastforce
        note e3 = enter_block_Inr [OF Inr [unfolded x]]
        show ?thesis
        proof (cases "emit_events env p (bb_events b) s3 st3")
          case (Inl t)
          with Some go Inr x have "r = Inl t" by simp
          moreover have "stopped env st2 t" using stopped_adv [OF conjunct1 [OF e3] emit_events_Inl [OF Inl]] .
          ultimately show ?thesis using same(5) by (auto simp: stopped_def)
        next
          case (Inr y)
          obtain s4 st4 where y: "y = (s4, st4)" by fastforce
          note e4 = emit_events_Inr [OF Inr [unfolded y]]
          have a24: "adv env st2 st4" using e3 e4 adv_trans by blast
          have lv: "leave_block env b p s4 st4 = Some r"
            using go Some Inr y x \<open>enter_block env b i p _ st2 = Inr x\<close> by simp
          show ?thesis
          proof (cases r)
            case (Inl t)
            have "stopped env st2 t" using stopped_adv [OF a24 leave_block_Inl] lv Inl by blast
            then show ?thesis using same(5) Inl by (auto simp: stopped_def)
          next
            case (Inr st5)
            note l5 = leave_block_Inr [OF lv [unfolded Inr]]
            have a25: "adv env st2 st5" using adv_trans [OF a24] l5 by blast
            have "\<forall>e \<in> set (bb_events b). has_step env e (in_trace st5)"
              using e4 l5 has_step_extends by (auto simp: adv_def)
            with l5 a25 lt Some visit_count_adv [OF a25] vc2 same show ?thesis
              unfolding Inr by (auto simp: turn_ok_def w adv_def)
          qed
        qed
      qed
    qed
  qed
qed

section \<open>Every run returns\<close>

text \<open>The branch counter stays within the budget, so it does not overflow unless the budget is the largest number.\<close>

lemma emit_branches: "emit env k p sp m st = Inr st' \<Longrightarrow> in_branches st' = in_branches st"
  by (auto simp: emit_def split: if_splits)

lemma emit_events_branches: "emit_events env p es s st = Inr (s', st') \<Longrightarrow> in_branches st' = in_branches st"
  by (induction env p es s st rule: emit_events.induct) (auto simp: Let_def split: prod.splits sum.splits dest: emit_branches)

lemma enter_block_branches: "enter_block env b i p s st = Inr (s', st') \<Longrightarrow> in_branches st' = in_branches st"
  by (auto simp: enter_block_def Let_def split: option.splits prod.splits if_splits sum.splits dest!: emit_branches)

lemma push_branch_branches: "push_branch_successors i ss p s st = Inr st' \<Longrightarrow> in_branches st' = in_branches st"
  by (induction i ss p s st rule: push_branch_successors.induct) (auto simp: push_item_def split: option.splits prod.splits if_splits)

lemma push_successors_branches [simp]: "in_branches (push_successors ss p s st) = in_branches st"
  by (induction ss arbitrary: st) (simp_all add: push_successors_def push_item_def)

lemma count_branch_bounded:
  assumes "in_branches st \<le> max_branches (ie_limits env)" "max_branches (ie_limits env) \<noteq> - 1"
  shows "\<exists>r. count_branch env st = Some r" "count_branch env st = Some (Inr st') \<Longrightarrow> in_branches st' \<le> max_branches (ie_limits env)"
proof -
  have "in_branches st \<noteq> - 1" using assms word_order.extremum_unique by fastforce
  then have "unat (in_branches st) \<noteq> unat (- 1 :: u32)" by (simp only: word_unat_eq_iff not_False_eq_True)
  then have "unat (in_branches st) \<noteq> 2 ^ 32 - 1" by (simp add: unat_minus_one)
  then have "unat (in_branches st) + 1 < 2 ^ 32" using unsigned_less [of "in_branches st", where 'a = nat] by simp
  then show "\<exists>r. count_branch env st = Some r" by (simp add: count_branch_def checked_add_def Let_def)
  show "count_branch env st = Some (Inr st') \<Longrightarrow> in_branches st' \<le> max_branches (ie_limits env)"
    by (auto simp: count_branch_def Let_def split: bind_splits if_splits)
qed

lemma leave_block_bounded:
  assumes "in_branches st \<le> max_branches (ie_limits env)" "max_branches (ie_limits env) \<noteq> - 1"
  shows "\<exists>r. leave_block env b p s st = Some r"
    "leave_block env b p s st = Some (Inr st') \<Longrightarrow> in_branches st' \<le> max_branches (ie_limits env)"
proof -
  obtain r where r: "count_branch env st = Some r" using count_branch_bounded(1) [OF assms] by blast
  then show "\<exists>r. leave_block env b p s st = Some r" by (auto split: terminator.split)
  show "leave_block env b p s st = Some (Inr st') \<Longrightarrow> in_branches st' \<le> max_branches (ie_limits env)"
    using r count_branch_bounded(2) [OF assms] assms(1)
    by (auto split: terminator.splits sum.splits dest!: push_branch_branches emit_branches)
qed

lemma interp_turn_bounded:
  assumes "in_branches st \<le> max_branches (ie_limits env)" "max_branches (ie_limits env) \<noteq> - 1"
  shows "\<exists>r. interp_turn env w st = Some r \<and> (\<forall>st'. r = Inr st' \<longrightarrow> in_branches st' \<le> max_branches (ie_limits env))"
proof -
  obtain i p s where w: "w = (i, p, s)" by (cases w)
  have leave: "\<exists>r. leave_block env b p' s' st' = Some r \<and> (\<forall>st''. r = Inr st'' \<longrightarrow> in_branches st'' \<le> max_branches (ie_limits env))"
    if "in_branches st' = in_branches st" for b p' s' st'
    using leave_block_bounded [of st' env b p' s'] assms that by (metis (no_types, lifting))
  show ?thesis
    using assms(1) leave
    by (auto simp: interp_turn_def w Let_def simp del: leave_block.simps
        split: option.split sum.split dest!: enter_block_branches emit_events_branches)
qed

definition visit_budget :: "interp_env \<Rightarrow> interp \<Rightarrow> nat" where
  "visit_budget env st = (\<Sum>k \<in> UNIV. unat (max_loop_iters (ie_limits env)) - unat (visit_count st k))"

lemma word_Suc_less: "(n :: 'w::len word) < m \<Longrightarrow> unat (n + 1) = Suc (unat n)"
  by (metis Suc_eq_plus1 add.commute unat_1 unatSuc word_less_nat_alt word_order.extremum_strict add_eq_0_iff)

lemma turn_budget:
  assumes "turn_ok env w st st'"
  shows "visit_budget env st' < visit_budget env st \<or> visit_budget env st' = visit_budget env st \<and> in_worklist st' = in_worklist st"
proof -
  let ?k = "(fst w, fst (snd w))"
  let ?m = "max_loop_iters (ie_limits env)"
  consider "in_worklist st' = in_worklist st" "visit_count st' = visit_count st"
    | "visit_count st ?k < ?m" "visit_count st' = (visit_count st)(?k := visit_count st ?k + 1)"
    using assms by (auto simp: turn_ok_def Let_def)
  then show ?thesis
  proof cases
    case 2
    have "unat (visit_count st ?k) < unat ?m" using 2(1) by (simp add: word_less_nat_alt)
    then have "visit_budget env st' < visit_budget env st"
      unfolding visit_budget_def 2(2) by (intro sum_strict_mono_ex1) (auto simp: word_Suc_less [OF 2(1)])
    then show ?thesis ..
  qed (simp add: visit_budget_def)
qed

lemma interp_loop_returns:
  assumes "max_branches (ie_limits env) \<noteq> - 1"
  shows "in_branches st \<le> max_branches (ie_limits env) \<Longrightarrow> \<exists>t. interp_loop env st = Some t"
proof (induction "(visit_budget env st, length (in_worklist st))" arbitrary: st rule: wf_induct_rule [OF wf_lex_prod [OF wf_less_than wf_less_than]])
  case 1
  show ?case
  proof (cases "in_worklist st = []")
    case True
    then show ?thesis by (simp add: interp_loop.simps)
  next
    case False
    let ?st0 = "st\<lparr>in_worklist := butlast (in_worklist st)\<rparr>"
    let ?w = "last (in_worklist st)"
    have vc: "visit_budget env ?st0 = visit_budget env st" by (simp add: visit_budget_def visit_count_def)
    obtain r where r: "interp_turn env ?w ?st0 = Some r" "\<forall>st'. r = Inr st' \<longrightarrow> in_branches st' \<le> max_branches (ie_limits env)"
      using interp_turn_bounded [of ?st0 env ?w] assms 1(2) by auto
    show ?thesis
    proof (cases r)
      case (Inl t)
      with False r show ?thesis by (simp add: interp_loop.simps [of env st])
    next
      case (Inr st')
      have "turn_ok env ?w ?st0 st'" using interp_turn_case [OF r(1)] Inr by simp
      from turn_budget [OF this] vc False
      have "((visit_budget env st', length (in_worklist st')), (visit_budget env st, length (in_worklist st))) \<in> less_than <*lex*> less_than"
        by auto
      from 1(1) [OF this] r Inr obtain t where "interp_loop env st' = Some t" by blast
      with False r Inr show ?thesis by (simp add: interp_loop.simps [of env st])
    qed
  qed
qed

section \<open>What a finished trace covers\<close>

definition visited :: "interp \<Rightarrow> block_id set" where
  "visited st = {b. \<exists>p. visit_count st (b, p) \<noteq> 0}"

text \<open>The blocks of \<open>V\<close> have steps for all their events, and their successors are in \<open>W\<close>.\<close>

definition covered :: "interp_env \<Rightarrow> raw_trace \<Rightarrow> block_id set \<Rightarrow> block_id set \<Rightarrow> bool" where
  "covered env t V W \<longleftrightarrow> (\<forall>i \<in> V. \<forall>b. cfg_block (ie_cfg env) i = Some b \<longrightarrow>
     (\<forall>e \<in> set (bb_events b). has_step env e t) \<and> (bb_terminator b \<noteq> TUnreachable \<longrightarrow> set (bb_successors b) \<subseteq> W))"

definition pending_blocks :: "interp \<Rightarrow> block_id set" where
  "pending_blocks st = fst ` set (in_worklist st)"

lemma covered_mono: "covered env t V W \<Longrightarrow> extends t t' \<Longrightarrow> W \<subseteq> W' \<Longrightarrow> covered env t' V W'"
  unfolding covered_def by (blast intro: has_step_extends)

lemma turn_covers:
  assumes "turn_ok env w st st'" "covered env (in_trace st) (visited st) (insert (fst w) (visited st \<union> pending_blocks st))"
    "\<not> tr_truncated (in_trace st')"
  shows "covered env (in_trace st') (visited st') (visited st' \<union> pending_blocks st')"
    "insert (fst w) (visited st \<union> pending_blocks st) \<subseteq> visited st' \<union> pending_blocks st'"
proof -
  let ?k = "(fst w, fst (snd w))"
  have t: "visit_count st ?k < max_loop_iters (ie_limits env)" "visit_count st' = (visit_count st)(?k := visit_count st ?k + 1)"
      "extends (in_trace st) (in_trace st')" "set (in_worklist st) \<subseteq> set (in_worklist st')"
      "covered env (in_trace st') {fst w} (pending_blocks st')"
    using assms(1,3) by (auto simp: turn_ok_def Let_def covered_def pending_blocks_def)
  have "visit_count st ?k + 1 \<noteq> 0" using word_Suc_less [OF t(1)] by (metis nat.distinct(1) unsigned_0)
  then have v: "visited st' = insert (fst w) (visited st)"
    unfolding visited_def t(2) by (auto split: if_splits)
  moreover have p: "pending_blocks st \<subseteq> pending_blocks st'" using t(4) by (auto simp: pending_blocks_def)
  ultimately show "insert (fst w) (visited st \<union> pending_blocks st) \<subseteq> visited st' \<union> pending_blocks st'" by blast
  have "covered env (in_trace st') (visited st) (visited st' \<union> pending_blocks st')"
    by (rule covered_mono [OF assms(2) t(3)]) (use v p in blast)
  moreover have "covered env (in_trace st') {fst w} (visited st' \<union> pending_blocks st')" using t(5) unfolding covered_def by blast
  ultimately show "covered env (in_trace st') (visited st') (visited st' \<union> pending_blocks st')"
    unfolding v by (auto simp: covered_def)
qed

lemma pop_worklist:
  assumes "in_worklist st \<noteq> []"
  defines "st0 \<equiv> st\<lparr>in_worklist := butlast (in_worklist st)\<rparr>"
  shows "visited st0 = visited st" "insert (fst (last (in_worklist st))) (pending_blocks st0) = pending_blocks st"
    "in_trace st0 = in_trace st" "interp_ok env st0 = interp_ok env st"
proof -
  have "set (in_worklist st) = insert (last (in_worklist st)) (set (butlast (in_worklist st)))"
    using assms(1) by (metis append_butlast_last_id list.simps(15) rotate1.simps(2) set_rotate1)
  then show "insert (fst (last (in_worklist st))) (pending_blocks st0) = pending_blocks st"
    by (simp add: pending_blocks_def st0_def)
qed (simp_all add: st0_def visited_def visit_count_def interp_ok_def)

lemma interp_loop_result:
  assumes "interp_loop env st = Some t"
  shows "(interp_ok env st \<longrightarrow> trace_ok env t) \<and> (tr_truncated (in_trace st) \<longrightarrow> tr_truncated t)
    \<and> (tr_truncated t \<or> (covered env (in_trace st) (visited st) (visited st \<union> pending_blocks st) \<longrightarrow>
         (\<exists>V. visited st \<union> pending_blocks st \<subseteq> V \<and> covered env t V V)))"
proof (rule interp_loop.raw_induct [where P = "\<lambda>env st t. (interp_ok env st \<longrightarrow> trace_ok env t)
    \<and> (tr_truncated (in_trace st) \<longrightarrow> tr_truncated t)
    \<and> (tr_truncated t \<or> (covered env (in_trace st) (visited st) (visited st \<union> pending_blocks st) \<longrightarrow>
         (\<exists>V. visited st \<union> pending_blocks st \<subseteq> V \<and> covered env t V V)))", OF _ assms], goal_cases)
  case (1 loop env st t)
  note step = 1
  show ?case
  proof (cases "in_worklist st = []")
    case True
    with step(2) have "t = in_trace st" "pending_blocks st = {}" by (simp_all add: pending_blocks_def)
    then show ?thesis by (auto simp: interp_ok_def)
  next
    case False
    let ?w = "last (in_worklist st)"
    let ?st0 = "st\<lparr>in_worklist := butlast (in_worklist st)\<rparr>"
    note pop = pop_worklist [OF False]
    obtain r where r: "interp_turn env ?w ?st0 = Some r" "(case r of Inl t \<Rightarrow> Some t | Inr st \<Rightarrow> loop env st) = Some t"
      using step(2) False by (auto split: bind_splits)
    note turn = interp_turn_case [OF r(1)]
    show ?thesis
    proof (cases r)
      case (Inl t')
      with turn r(2) have "stopped env ?st0 t" by simp
      then show ?thesis using pop(4) by (simp add: stopped_def)
    next
      case (Inr st')
      with turn r(2) have ok: "turn_ok env ?w ?st0 st'" "loop env st' = Some t" by simp_all
      note ih = step(1) [OF ok(2)]
      have ext: "extends (in_trace st) (in_trace st')" "interp_ok env st \<longrightarrow> interp_ok env st'"
        using ok(1) pop(4) by (simp_all add: turn_ok_def)
      have "\<exists>V. visited st \<union> pending_blocks st \<subseteq> V \<and> covered env t V V"
        if nt: "\<not> tr_truncated t" and c: "covered env (in_trace st) (visited st) (visited st \<union> pending_blocks st)"
      proof -
        have nt': "\<not> tr_truncated (in_trace st')" using nt ih by blast
        have eq: "insert (fst ?w) (visited ?st0 \<union> pending_blocks ?st0) = visited st \<union> pending_blocks st" using pop(1,2) by auto
        have "covered env (in_trace ?st0) (visited ?st0) (insert (fst ?w) (visited ?st0 \<union> pending_blocks ?st0))"
          using c by (simp only: eq) (simp only: pop(1,3))
        note tc = turn_covers [OF ok(1) this nt']
        with ih nt obtain V where "visited st' \<union> pending_blocks st' \<subseteq> V" "covered env t V V" by auto
        with tc(2) show ?thesis unfolding eq by (intro exI [of _ V]) (simp only: order_trans [OF tc(2)] simp_thms)
      qed
      with ih ext show ?thesis by (auto simp: extends_def)
    qed
  qed
qed

section \<open>Whole runs\<close>

text \<open>The control flow the interpreter follows: from a block it does not take to be unreachable to its successors.\<close>

inductive flows_to :: "cfg \<Rightarrow> block_id \<Rightarrow> block_id \<Rightarrow> bool" for g where
  flows_refl: "flows_to g i i"
| flows_step: "flows_to g i j \<Longrightarrow> cfg_block g j = Some b \<Longrightarrow> bb_terminator b \<noteq> TUnreachable \<Longrightarrow>
    k \<in> set (bb_successors b) \<Longrightarrow> flows_to g i k"

lemma covered_flows: "flows_to (ie_cfg env) i j \<Longrightarrow> covered env t V V \<Longrightarrow> i \<in> V \<Longrightarrow> j \<in> V"
  by (induction rule: flows_to.induct) (auto simp: covered_def)

definition run_env :: "(flow_event \<Rightarrow> string) \<Rightarrow> func_id \<Rightarrow> cfg \<Rightarrow> trace_limits \<Rightarrow> assignment_value_fact list \<Rightarrow> interp_env" where
  "run_env debug func g limits facts = \<lparr>ie_func = func, ie_cfg = g, ie_limits = limits, ie_facts = facts, ie_debug = debug\<rparr>"

lemma fold_mark_incomplete: "trace_ok env (fold mark_incomplete rs t) = trace_ok env t" "tr_steps (fold mark_incomplete rs t) = tr_steps t"
  by (induction rs arbitrary: t) (simp_all add: mark_incomplete_ok)

lemma trace_ok_default [simp]: "trace_ok env raw_trace_default"
  by (simp add: trace_ok_def raw_trace_default_def)

text \<open>A run has no entry block, no budget for a first step, or is the loop from the state after that step.\<close>

lemma run_cases:
  fixes debug func g limits facts
  defines "env \<equiv> run_env debug func g limits facts"
  obtains (no_entry) t where "run_entry_with_assignment_values debug func g limits facts = Some t" "trace_ok env t" "cfg_block g (cfg_entry g) = None"
  | (no_step) t where "run_entry_with_assignment_values debug func g limits facts = Some t" "trace_ok env t" "tr_truncated t"
  | (loop) st where "run_entry_with_assignment_values debug func g limits facts = interp_loop env st" "interp_ok env st"
      "in_branches st = 0" "visited st = {}" "pending_blocks st = {cfg_entry g}"
proof -
  define t0 where "t0 = fold mark_incomplete (cfg_incomplete_reasons g) raw_trace_default"
  define t1 where "t1 = (if \<not> cfg_analysis_complete g \<and> tr_incomplete_reasons t0 = [] then mark_incomplete ''cfg-incomplete'' t0 else t0)"
  have t1: "trace_ok env t1" "tr_steps t1 = []"
    by (simp_all add: t1_def t0_def mark_incomplete_ok fold_mark_incomplete) (simp_all add: raw_trace_default_def)
  define st where "st = \<lparr>in_trace = t1, in_next_step = 0, in_next_path = 1, in_worklist = [], in_visits = [], in_incoming = [], in_branches = 0\<rparr>"
  have ok: "interp_ok env st" using t1 by (simp add: interp_ok_def st_def)
  show thesis
  proof (cases "cfg_block g (cfg_entry g)")
    case None
    then show thesis using t1 no_entry [of "mark_incomplete ''cfg-missing-entry'' t1"]
      by (simp add: run_entry_with_assignment_values_def t0_def [symmetric] t1_def [symmetric] mark_incomplete_ok)
  next
    case (Some b)
    let ?emit = "emit env SkEnterFunction 1 (bb_span b) (''enter '' @ show_nat (unat func)) st"
    have run: "run_entry_with_assignment_values debug func g limits facts =
        (case ?emit of Inl t \<Rightarrow> Some t | Inr st \<Rightarrow> interp_loop env (push_item (cfg_entry g, 1, es_new func (cfg_entry g)) st))"
      using Some unfolding env_def run_env_def st_def
      by (simp add: run_entry_with_assignment_values_def t0_def [symmetric] t1_def [symmetric] Let_def)
    show thesis
    proof (cases ?emit)
      case (Inl t)
      with run emit_Inl [OF Inl] ok show thesis using no_step by (simp add: stopped_def)
    next
      case (Inr st')
      note e = emit_Inr [OF Inr]
      let ?st = "push_item (cfg_entry g, 1, es_new func (cfg_entry g)) st'"
      have "interp_ok env ?st" using ok e(1) push_item_adv by (simp add: adv_def)
      moreover have "visit_count st' = (\<lambda>_. 0)" using e(1) by (auto simp: adv_def st_def visit_count_def)
      ultimately show thesis
        using Inr run e(2) emit_branches [OF Inr] by (intro loop [of ?st]) (auto simp: st_def push_item_def pending_blocks_def visited_def visit_count_def fun_eq_iff)
    qed
  qed
qed

lemma run_returns:
  assumes "max_branches limits \<noteq> - 1"
  shows "\<exists>t. run_entry_with_assignment_values debug func g limits facts = Some t"
proof (cases rule: run_cases [where debug = debug and func = func and g = g and limits = limits and facts = facts])
  case (loop st)
  then show ?thesis using interp_loop_returns [of "run_env debug func g limits facts" st] assms by (simp add: run_env_def)
qed auto

lemma run_trace_ok:
  assumes "run_entry_with_assignment_values debug func g limits facts = Some t"
  shows "trace_ok (run_env debug func g limits facts) t"
proof (cases rule: run_cases [where debug = debug and func = func and g = g and limits = limits and facts = facts])
  case (loop st)
  with assms interp_loop_result [of "run_env debug func g limits facts" st t] show ?thesis by simp
qed (use assms in simp_all)

lemma run_covers:
  assumes "run_entry_with_assignment_values debug func g limits facts = Some t" "\<not> tr_truncated t"
    and "flows_to g (cfg_entry g) i" "cfg_block g i = Some b" "e \<in> set (bb_events b)"
  shows "has_step (run_env debug func g limits facts) e t"
proof (cases rule: run_cases [where debug = debug and func = func and g = g and limits = limits and facts = facts])
  case (no_entry t')
  from assms(3) have "cfg_entry g = i" using no_entry(3)
    by (induction "cfg_entry g" i rule: flows_to.induct) auto
  with no_entry(3) assms(4) show ?thesis by simp
next
  case (loop st)
  let ?env = "run_env debug func g limits facts"
  have "covered ?env (in_trace st) (visited st) (visited st \<union> pending_blocks st)" using loop(4) by (simp add: covered_def)
  with interp_loop_result [of ?env st t] loop assms(1,2)
  obtain V where V: "cfg_entry g \<in> V" "covered ?env t V V" by auto
  have g: "ie_cfg ?env = g" by (simp add: run_env_def)
  have "i \<in> V" using covered_flows [of ?env "cfg_entry g" i t V] assms(3) V g by simp
  with V(2) assms(4,5) g show ?thesis unfolding covered_def by auto
qed (use assms in simp_all)

section \<open>Blocks\<close>

fun assigns_all :: "assignment_value_fact list \<Rightarrow> flow_event list \<Rightarrow> (string \<Rightarrow> cval) \<Rightarrow> (string \<Rightarrow> cval) \<Rightarrow> bool" where
  "assigns_all facts [] \<sigma> \<sigma>' \<longleftrightarrow> \<sigma>' = \<sigma>"
| "assigns_all facts (e # es) \<sigma> \<sigma>' \<longleftrightarrow> (\<exists>\<sigma>1. assigns facts e \<sigma> \<sigma>1 \<and> assigns_all facts es \<sigma>1 \<sigma>')"

lemma emit_events_state: "emit_events env p es s st = Inr (s', st') \<Longrightarrow> s' = fold (apply_event (ie_facts env)) es s"
  by (induction env p es s st rule: emit_events.induct) (auto simp: Let_def split: prod.splits sum.splits)

lemma assigns_all_models: "assigns_all facts es \<sigma> \<sigma>' \<Longrightarrow> models ty s \<sigma> \<Longrightarrow> models ty (fold (apply_event facts) es s) \<sigma>'"
  by (induction es arbitrary: s \<sigma>) (auto dest: apply_event_models)

section \<open>Properties\<close>

text \<open>
  C8: a run of the interpreter returns a trace for every graph, also an ill-formed or cyclic one,
  and for all limits, unless the branch budget is the largest number, where its counter could overflow.
\<close>

theorem interpreter_returns:
  assumes "max_branches limits \<noteq> - 1"
  shows "\<exists>t. run_entry_with_assignment_values debug func g limits facts = Some t"
  using assms by (rule run_returns)

text \<open>A loop header that is its own successor.\<close>

definition spinning :: cfg where
  "spinning = cfg_default\<lparr>cfg_blocks := [\<lparr>bb_id = 0, bb_label = ''header'', bb_synthetic_kind = None, bb_events = [],
     bb_successors = [0], bb_terminator = TLoopHeader, bb_span = span_new 0 0 0\<rparr>]\<rparr>"

theorem interpreter_returns_witness:
  "map_option bb_successors (cfg_block spinning (cfg_entry spinning)) = Some [cfg_entry spinning]
    \<and> (\<exists>t. run_entry_with_assignment_values (\<lambda>_. []) 0 spinning trace_limits_default [] = Some t)"
  using interpreter_returns [of trace_limits_default "\<lambda>_. []" 0 spinning "[]"]
  by (simp add: trace_limits_default_def) (simp add: spinning_def cfg_default_def cfg_block_def)

text \<open>
  C24: if a trace is not truncated, it has a step for every event of every block that control can
  reach from the entry, with the span, kind and message of the event.
\<close>

theorem untruncated_trace_covers:
  assumes "run_entry_with_assignment_values debug func g limits facts = Some t" "\<not> tr_truncated t"
    and "flows_to g (cfg_entry g) i" "cfg_block g i = Some b" "e \<in> set (bb_events b)"
  shows "\<exists>s \<in> set (tr_steps t). st_span s = event_span e \<and> (st_kind s, st_message s) = classify_event debug e"
  using run_covers [OF assms] by (simp add: has_step_def run_env_def)

definition awaiting :: cfg where
  "awaiting = \<lparr>cfg_analysis_complete = True, cfg_incomplete_reasons = [], cfg_function = ''f'', cfg_entry = 0, cfg_exit = 1,
     cfg_blocks = [\<lparr>bb_id = 0, bb_label = ''entry'', bb_synthetic_kind = Some SbEntry, bb_events = [], bb_successors = [1],
         bb_terminator = TFallthrough, bb_span = span_new 0 0 1\<rparr>,
       \<lparr>bb_id = 1, bb_label = ''exit'', bb_synthetic_kind = Some SbExit, bb_events = [Await (span_new 0 0 1) None], bb_successors = [],
         bb_terminator = TFallthrough, bb_span = span_new 0 0 1\<rparr>]\<rparr>"

theorem untruncated_trace_covers_witness:
  "\<exists>t. run_entry_with_assignment_values (\<lambda>_. []) 0 awaiting trace_limits_default [] = Some t \<and>
     (\<exists>s \<in> set (tr_steps t). st_span s = span_new 0 0 1 \<and> (st_kind s, st_message s) = (SkAwait, ''await''))"
proof -
  have "map_option tr_truncated (run_entry_with_assignment_values (\<lambda>_. []) 0 awaiting trace_limits_default []) = Some False"
    by code_simp
  then obtain t where t: "run_entry_with_assignment_values (\<lambda>_. []) 0 awaiting trace_limits_default [] = Some t" "\<not> tr_truncated t"
    by auto
  have "flows_to awaiting (cfg_entry awaiting) 1"
    by (rule flows_step [OF flows_refl, where b = "cfg_blocks awaiting ! 0"]) (simp_all add: awaiting_def cfg_block_def)
  from untruncated_trace_covers [OF t this, of "cfg_blocks awaiting ! 1" "Await (span_new 0 0 1) None"] t(1) show ?thesis
    by (simp add: awaiting_def cfg_block_def)
qed

text \<open>
  C30: the steps of a trace are numbered from zero without gaps, there are at most as many as the
  budget allows, and the trace is marked truncated exactly if it gives a reason.
\<close>

theorem trace_within_budget:
  assumes "run_entry_with_assignment_values debug func g limits facts = Some t"
  shows "length (tr_steps t) \<le> unat (max_steps limits) \<and> map st_id (tr_steps t) = map of_nat [0 ..< length (tr_steps t)]
    \<and> (tr_truncated t \<longleftrightarrow> tr_truncation_reasons t \<noteq> []) \<and> distinct (tr_truncation_reasons t)
    \<and> (\<forall>s \<in> set (tr_steps t). st_func s = func)"
  using run_trace_ok [OF assms] by (simp add: trace_ok_def run_env_def)

theorem trace_within_budget_witness:
  "\<exists>t. run_entry_with_assignment_values (\<lambda>_. []) 0 awaiting trace_limits_default [] = Some t \<and> length (tr_steps t) \<le> 4096"
proof -
  obtain t where t: "run_entry_with_assignment_values (\<lambda>_. []) 0 awaiting trace_limits_default [] = Some t"
    using run_returns [of trace_limits_default "\<lambda>_. []" 0 awaiting "[]"] by (auto simp: trace_limits_default_def)
  from trace_within_budget [OF this] have "length (tr_steps t) \<le> 4096" by (simp add: trace_limits_default_def)
  with t show ?thesis by blast
qed

text \<open>
  C28: merging a state into another joins the bindings both have and forgets the others, reports a
  change exactly if the state differs afterwards, and stands for every store either state stood for.
\<close>

theorem merge_exact:
  assumes "distinct (map fst (es_locals self))" "distinct (map fst (es_locals other))"
  shows "map_of (es_locals (fst (merge_from self other))) n = merged_binding (map_of (es_locals self) n) (map_of (es_locals other) n)
    \<and> (snd (merge_from self other) \<longleftrightarrow> fst (merge_from self other) \<noteq> self)
    \<and> (\<forall>ty \<sigma>. (\<forall>n. representable (\<sigma> n)) \<longrightarrow> models ty self \<sigma> \<or> models ty other \<sigma> \<longrightarrow> models ty (fst (merge_from self other)) \<sigma>)"
  using merge_from_locals [OF assms(2)] merge_from_changed [OF assms] merge_from_models [OF assms(2)] by blast

theorem merge_exact_witness:
  "snd (merge_from ((es_new 0 0)\<lparr>es_locals := [(''x'', ConstInt 1)]\<rparr>) ((es_new 0 0)\<lparr>es_locals := [(''x'', ConstInt 2)]\<rparr>)) \<longleftrightarrow>
   fst (merge_from ((es_new 0 0)\<lparr>es_locals := [(''x'', ConstInt 1)]\<rparr>) ((es_new 0 0)\<lparr>es_locals := [(''x'', ConstInt 2)]\<rparr>))
     \<noteq> (es_new 0 0)\<lparr>es_locals := [(''x'', ConstInt 1)]\<rparr>"
  using merge_exact [of "(es_new 0 0)\<lparr>es_locals := [(''x'', ConstInt 1)]\<rparr>" "(es_new 0 0)\<lparr>es_locals := [(''x'', ConstInt 2)]\<rparr>"] by simp

text \<open>
  C29: if a state stands for a store, the state after the events of a block stands for every store
  the assignments of these events can lead to.
\<close>

theorem events_sound:
  assumes "emit_events env p es s st = Inr (s', st')" "models ty s \<sigma>" "assigns_all (ie_facts env) es \<sigma> \<sigma>'"
  shows "models ty s' \<sigma>'"
  using assigns_all_models [OF assms(3,2)] emit_events_state [OF assms(1)] by simp

theorem events_sound_witness:
  "models (\<lambda>_ _. False) ((es_new 0 0)\<lparr>es_locals := [(''y'', ConstInt 4), (''x'', ConstInt 4)]\<rparr>) (\<lambda>_. CInt 4)"
proof -
  let ?env = "run_env (\<lambda>_. []) 0 awaiting trace_limits_default []"
  let ?st = "\<lparr>in_trace = raw_trace_default, in_next_step = 0, in_next_path = 1, in_worklist = [], in_visits = [], in_incoming = [], in_branches = 0\<rparr>"
  let ?e = "Assign (span_new 0 0 1) ''x'' (Some ''y'') None [] [] True None"
  let ?s = "(es_new 0 0)\<lparr>es_locals := [(''y'', ConstInt 4)]\<rparr>"
  have none: "assigned_scalar [] sp t = None" for sp t
    by (simp add: assigned_scalar_def assignment_value_fact_for_span_def partition_point_def partition_search.simps Let_def)
  have "\<exists>st'. emit_events ?env 1 [?e] ?s ?st = Inr ((es_new 0 0)\<lparr>es_locals := [(''y'', ConstInt 4), (''x'', ConstInt 4)]\<rparr>, st')"
    by (simp add: run_env_def emit_def trace_limits_default_def none Let_def)
  then obtain st' where r: "emit_events ?env 1 [?e] ?s ?st = Inr ((es_new 0 0)\<lparr>es_locals := [(''y'', ConstInt 4), (''x'', ConstInt 4)]\<rparr>, st')" ..
  show ?thesis
    by (rule events_sound [OF r, of _ "\<lambda>_. CInt 4"]) (auto simp: models_def none run_env_def intro!: exI [of _ "\<lambda>_. CInt 4"] exI [of _ "CInt 4"])
qed

end
