(* ===== verification/Trace_Coverage.thy ===== *)
theory Trace_Coverage
  imports Cfg_Graph Abs_Trace
begin

text \<open>
  The builder and the interpreter together: the paths of a built graph never pass through a block
  the interpreter takes to be unreachable, so a trace that is not truncated has a step for every
  event of every structured execution of the tree the graph was built from.
\<close>

section \<open>No edge leads to a placeholder of unreachable code\<close>

definition alive :: "blocks \<Rightarrow> nat \<Rightarrow> bool" where
  "alive bs j \<longleftrightarrow> j < length bs \<and> bb_synthetic_kind (bs ! j) \<noteq> Some SbUnreachable"

definition live_block :: "blocks \<Rightarrow> basic_block \<Rightarrow> bool" where
  "live_block bs b \<longleftrightarrow> (bb_terminator b = TUnreachable \<longrightarrow> bb_synthetic_kind b = Some SbUnreachable)
     \<and> (\<forall>s \<in> set (bb_successors b). \<exists>j. s = of_nat j \<and> alive bs j)"

definition same_kinds :: "blocks \<Rightarrow> blocks \<Rightarrow> bool" where
  "same_kinds bs bs' \<longleftrightarrow> length bs \<le> length bs' \<and> (\<forall>i < length bs. bb_synthetic_kind (bs' ! i) = bb_synthetic_kind (bs ! i))"

definition lives :: "blocks \<Rightarrow> blocks \<Rightarrow> bool" where
  "lives bs bs' \<longleftrightarrow> same_kinds bs bs' \<and> ((\<forall>b \<in> set bs. live_block bs b) \<longrightarrow> (\<forall>b \<in> set bs'. live_block bs' b))"

lemma same_kinds_refl [simp]: "same_kinds bs bs"
  by (simp add: same_kinds_def)

lemma same_kinds_trans: "same_kinds a b \<Longrightarrow> same_kinds b c \<Longrightarrow> same_kinds a c"
  by (auto simp: same_kinds_def)

lemma lives_refl [simp]: "lives bs bs"
  by (simp add: lives_def)

lemma lives_trans: "lives a b \<Longrightarrow> lives b c \<Longrightarrow> lives a c"
  by (auto simp: lives_def intro: same_kinds_trans)

lemma alive_lives: "lives bs bs' \<Longrightarrow> alive bs j \<Longrightarrow> alive bs' j"
  by (auto simp: lives_def same_kinds_def alive_def)

lemma lives_update:
  assumes "update_block bs i f = Some bs'" "\<And>b. bb_synthetic_kind (f b) = bb_synthetic_kind b"
    "live_block bs (bs ! i) \<Longrightarrow> live_block bs (f (bs ! i))"
  shows "lives bs bs'"
proof -
  have i: "i < length bs" "bs' = bs[i := f (bs ! i)]"
    using assms(1) by (auto simp: update_block_def vec_get_def vec_set_def split: bind_splits if_splits)
  have k: "same_kinds bs bs'" using i assms(2) by (auto simp: same_kinds_def nth_list_update)
  have al: "alive bs' = alive bs" using i assms(2) by (auto simp: alive_def fun_eq_iff nth_list_update)
  have "live_block bs' b" if "\<forall>b \<in> set bs. live_block bs b" "b \<in> set bs'" for b
  proof -
    have "b = f (bs ! i) \<or> b \<in> set bs" using that(2) set_update_subset_insert i(2) by fastforce
    then have "live_block bs b" using that(1) assms(3) i(1) by auto
    then show ?thesis by (simp add: live_block_def al)
  qed
  with k show ?thesis by (simp add: lives_def)
qed

lemma lives_link: "link bs i j = Some bs' \<Longrightarrow> alive bs j \<Longrightarrow> lives bs bs'"
  unfolding link_def Let_def by (erule lives_update) (auto simp: live_block_def)

lemma lives_record_span: "record_span bs i sp = Some bs' \<Longrightarrow> lives bs bs'"
  unfolding record_span_def by (erule lives_update) (auto simp: live_block_def)

lemma lives_terminator: "set_terminator bs i t = Some bs' \<Longrightarrow> t \<noteq> TUnreachable \<Longrightarrow> lives bs bs'"
  unfolding set_terminator_def by (erule lives_update) (auto simp: live_block_def)

lemma lives_push: "push_event bs i e = Some bs' \<Longrightarrow> lives bs bs'"
  unfolding push_event_def by (erule lives_update) (auto simp: live_block_def)

lemma lives_append: "\<forall>c \<in> set cs. bb_successors c = [] \<and> (bb_terminator c = TUnreachable \<longrightarrow> bb_synthetic_kind c = Some SbUnreachable) \<Longrightarrow>
    lives bs (bs @ cs)"
  by (auto simp: lives_def same_kinds_def live_block_def alive_def nth_append) (metis nth_append trans_less_add1)+

lemma lives_fresh: "lives bs (bs @ [fresh_block n l k])"
  by (rule lives_append) simp

lemma branch_fork_lives:
  assumes "branch_fork bs cur sp = Some (j, t, e, bs')"
  shows "lives bs bs'" "alive bs' j"
proof -
  obtain x1 x2 x4 l1 l2 l3 where w: "record_span bs cur sp = Some x1" "set_terminator x1 cur TBranch = Some x2" "j = length x2"
      "link (x2 @ [fresh_block (length x2) l1 (Some SbBranchJoin), fresh_block (Suc (length x2)) l2 (Some SbBranchThen),
        fresh_block (Suc (Suc (length x2))) l3 (Some SbBranchElse)]) cur (Suc (length x2)) = Some x4"
      "link x4 cur (Suc (Suc (length x2))) = Some bs'"
    using assms by (auto simp: branch_fork_def new_block_fresh split: bind_splits)
  let ?x3 = "x2 @ [fresh_block (length x2) l1 (Some SbBranchJoin), fresh_block (Suc (length x2)) l2 (Some SbBranchThen),
        fresh_block (Suc (Suc (length x2))) l3 (Some SbBranchElse)]"
  have al: "alive ?x3 (length x2)" "alive ?x3 (Suc (length x2))" "alive ?x3 (Suc (Suc (length x2)))"
    by (simp_all add: alive_def nth_append)
  have l3: "lives bs ?x3"
    using lives_trans [OF lives_record_span [OF w(1)] lives_trans [OF lives_terminator [OF w(2)] lives_append]] by simp
  note l4 = lives_link [OF w(4) al(2)]
  note l5 = lives_link [OF w(5) alive_lives [OF l4 al(3)]]
  show "lives bs bs'" using lives_trans [OF l3 lives_trans [OF l4 l5]] .
  show "alive bs' j" unfolding w(3) using alive_lives [OF l5 alive_lives [OF l4 al(1)]] .
qed

lemma loop_fork_lives:
  assumes "loop_fork bs cur sp = Some (h, b, a, bs')"
  shows "lives bs bs'" "alive bs' h" "alive bs' b" "alive bs' a"
proof -
  obtain x l1 l2 l3 where w: "record_span bs cur sp = Some x" "h = length x" "b = Suc (length x)" "a = Suc (Suc (length x))"
      "bs' = x @ [fresh_block (length x) l1 (Some SbLoopHeader), fresh_block (Suc (length x)) l2 (Some SbLoopBody),
        fresh_block (Suc (Suc (length x))) l3 (Some SbLoopAfter)]"
    using assms by (auto simp: loop_fork_def new_block_fresh split: bind_splits)
  show "lives bs bs'" unfolding w(5) by (rule lives_trans [OF lives_record_span [OF w(1)] lives_append]) simp
  show "alive bs' h" "alive bs' b" "alive bs' a" by (simp_all add: w alive_def nth_append)
qed

lemma loop_wire_lives:
  assumes "loop_wire bs cur k h b a c us sp = Some (ue, bs')" "alive bs h" "alive bs b" "alive bs a"
  shows "lives bs bs'" "alive bs' ue"
proof -
  obtain x1 x2 x3 x4 where w: "set_terminator bs c TLoopHeader = Some x1"
      "link x1 cur (if k = LkDoWhile then b else h) = Some x2" "link x2 c b = Some x3"
      "x4 = x3 \<or> link x3 c a = Some x4"
      "us = [] \<and> ue = h \<and> bs' = x4 \<or> ue = length x4 \<and> bs' = x4 @ [fresh_block (length x4) (block_label ''loop-update@'' sp) (Some SbLoopUpdate)]"
    using assms(1) by (cases "k = LkDoWhile"; cases "k = LkLoop") (auto simp: loop_wire_def new_block_fresh split: bind_splits if_splits)
  note l1 = lives_terminator [OF w(1), simplified]
  have l2: "lives x1 x2" by (rule lives_link [OF w(2)]) (use alive_lives [OF l1] assms in auto)
  have l3: "lives x2 x3" by (rule lives_link [OF w(3)]) (use alive_lives [OF l2] alive_lives [OF l1] assms in auto)
  have l4: "lives x3 x4" using w(4) lives_link [of x3 c a x4] alive_lives [OF l3 alive_lives [OF l2 alive_lives [OF l1 assms(4)]]] by auto
  have l5: "lives x4 bs'" using w(5) by (auto intro: lives_fresh)
  show "lives bs bs'" using lives_trans [OF l1 lives_trans [OF l2 lives_trans [OF l3 lives_trans [OF l4 l5]]]] .
  then show "alive bs' ue" using w(5) alive_lives [OF _ assms(2)] by (auto simp: alive_def)
qed

lemma try_fork_lives:
  assumes "try_fork bs cur sp ca = Some (ti, ci, bs')"
  shows "lives bs bs'"
proof -
  obtain x1 x2 x3 x4 l1 l2 where w: "record_span bs cur sp = Some x1"
      "link (x1 @ [fresh_block (length x1) l1 (Some SbTryFork)]) cur (length x1) = Some x2" "record_span x2 (length x1) sp = Some x3"
      "link (x3 @ [fresh_block (length x3) l2 (Some SbTryBody)]) (length x1) (length x3) = Some x4"
      "bs' = x4 \<or> (\<exists>x5. link (x4 @ [fresh_block (length x4) (block_label ''catch@'' sp) (Some SbCatch)]) (length x1) (length x4) = Some x5
         \<and> set_terminator x5 (length x1) TTryFork = Some bs')"
    using assms by (auto simp: try_fork_def new_block_fresh split: bind_splits if_splits)
  have fr: "alive (x @ [fresh_block (length x) l (Some kd)]) (length x)" if "kd \<noteq> SbUnreachable" for x l kd
    using that by (simp add: alive_def)
  have l4: "lives x4 bs'"
    using w(5)
  proof (elim disjE exE conjE)
    fix x5
    assume x5: "link (x4 @ [fresh_block (length x4) (block_label ''catch@'' sp) (Some SbCatch)]) (length x1) (length x4) = Some x5"
      "set_terminator x5 (length x1) TTryFork = Some bs'"
    show ?thesis by (rule lives_trans [OF lives_fresh lives_trans [OF lives_link [OF x5(1) fr] lives_terminator [OF x5(2)]]]) simp_all
  qed simp
  have l2: "lives x1 x2" by (rule lives_trans [OF lives_fresh lives_link [OF w(2) fr]]) simp
  have l3: "lives x3 x4" by (rule lives_trans [OF lives_fresh lives_link [OF w(4) fr]]) simp
  show ?thesis
    using lives_trans [OF lives_record_span [OF w(1)] lives_trans [OF l2 lives_trans [OF lives_record_span [OF w(3)] lives_trans [OF l3 l4]]]] .
qed

lemma copy_finally_lives:
  assumes "copy_finally bs cur sp = Some (fi, bs')"
  shows "lives bs bs'"
proof -
  obtain x1 l where w: "link (bs @ [fresh_block (length bs) l (Some SbFinally)]) cur (length bs) = Some x1" "record_span x1 (length bs) sp = Some bs'"
    using assms by (auto simp: copy_finally_def new_block_fresh split: bind_splits)
  show ?thesis
    by (rule lives_trans [OF lives_fresh lives_trans [OF lives_link [OF w(1)] lives_record_span [OF w(2)]]]) (simp add: alive_def)
qed

lemma dead_block_lives:
  assumes "dead_block bs = Some (d, bs')"
  shows "lives bs bs'"
proof -
  have "bs' = bs @ [(fresh_block (length bs) ''unreachable'' (Some SbUnreachable))\<lparr>bb_terminator := TUnreachable\<rparr>]"
    using assms by (auto simp: dead_block_def new_block_fresh set_terminator_in split: bind_splits)
  then show ?thesis by (simp add: lives_append fresh_block_def)
qed

lemma abrupt_here_lives:
  assumes "abrupt_here bs cur e = Some bs'" "is_abrupt e"
  shows "lives bs bs'"
proof -
  obtain x1 x2 where w: "record_span bs cur (event_span e) = Some x1" "set_terminator x1 cur (abrupt_terminator e) = Some x2"
      "push_event x2 cur e = Some bs'"
    using assms by (auto simp: abrupt_here_def split: bind_splits)
  have "abrupt_terminator e \<noteq> TUnreachable" by (cases e) simp_all
  with w show ?thesis using lives_trans [OF lives_record_span lives_trans [OF lives_terminator lives_push]] by blast
qed

section \<open>Every walk keeps them apart\<close>

definition targets_alive :: "nat \<Rightarrow> loop_targets list \<Rightarrow> blocks \<Rightarrow> bool" where
  "targets_alive exit lts bs \<longleftrightarrow> alive bs exit \<and> (\<forall>l \<in> set lts. alive bs (lt_break_to l) \<and> alive bs (lt_continue_to l))"

lemma targets_alive_lives: "lives bs bs' \<Longrightarrow> targets_alive exit lts bs \<Longrightarrow> targets_alive exit lts bs'"
  by (auto simp: targets_alive_def alive_lives)

lemma control_transfer_alive: "targets_alive exit lts bs \<Longrightarrow> alive bs (fst (control_transfer_target e lts exit))"
  by (cases e) (auto simp: targets_alive_def dest: selected_loop_in split: option.split)

definition walk_lives :: "flow_event list \<Rightarrow> nat \<Rightarrow> loop_targets list \<Rightarrow> finally_frame list \<Rightarrow> bool" where
  "walk_lives es exit lts pf \<longleftrightarrow> (\<forall>cur bs tail bs'. walk_with_finally es cur exit bs lts pf = Some (tail, bs') \<longrightarrow>
     targets_alive exit lts bs \<longrightarrow> lives bs bs')"

definition event_lives :: "flow_event \<Rightarrow> nat \<Rightarrow> loop_targets list \<Rightarrow> finally_frame list \<Rightarrow> bool" where
  "event_lives e exit lts pf \<longleftrightarrow> (\<forall>cur bs tail bs'. walk_event e cur exit bs lts pf = Some (tail, bs') \<longrightarrow>
     targets_alive exit lts bs \<longrightarrow> lives bs bs')"

definition append_lives :: "nat \<Rightarrow> nat \<Rightarrow> loop_targets list \<Rightarrow> finally_frame list \<Rightarrow> bool" where
  "append_lives n exit lts pf \<longleftrightarrow> (\<forall>cur target bs retained bs'.
     append_finally_path n cur target exit bs lts pf retained = Some bs' \<longrightarrow> targets_alive exit lts bs \<longrightarrow> alive bs target \<longrightarrow> lives bs bs')"

lemma walk_livesD:
  "walk_lives es exit lts pf \<Longrightarrow> walk_with_finally es cur exit b1 lts pf = Some (tail, b2) \<Longrightarrow> lives bs b1 \<Longrightarrow>
     targets_alive exit lts bs \<Longrightarrow> lives bs b2"
  unfolding walk_lives_def using lives_trans targets_alive_lives by blast

lemma link_livesD: "link b1 i j = Some b2 \<Longrightarrow> lives bs b1 \<Longrightarrow> alive b1 j \<Longrightarrow> lives bs b2"
  using lives_link lives_trans by blast

lemma event_lives_Branch:
  assumes "walk_lives a exit lts pf" "walk_lives b exit lts pf"
  shows "event_lives (Branch sp c a b) exit lts pf"
  unfolding event_lives_def
proof (intro allI impI, erule walk_BranchE, goal_cases)
  case (1 cur bs tail bs' th el b1 tt b2 et b3 b4)
  note f = branch_fork_lives [OF 1(2)]
  note t1 = targets_alive_lives [OF f(1) 1(1)]
  note w2 = walk_livesD [OF assms(1) 1(3) lives_refl t1]
  note w3 = walk_livesD [OF assms(2) 1(4) w2 t1]
  note w4 = link_livesD [OF 1(5) w3 alive_lives [OF w3 f(2)]]
  note w5 = link_livesD [OF 1(6) w4 alive_lives [OF w4 f(2)]]
  show ?case using lives_trans [OF f(1) w5] .
qed

lemma event_lives_Loop:
  assumes "walk_lives c exit lts pf" "\<And>lt. walk_lives u exit (lts @ [lt]) pf" "\<And>lt. walk_lives b exit (lts @ [lt]) pf"
  shows "event_lives (Loop sp k l c u b) exit lts pf"
  unfolding event_lives_def
proof (intro allI impI, erule walk_LoopE, goal_cases)
  case (1 cur bs tail bs' h bi b1 ct b2 ue b3 lt bt b4 b5)
  note f = loop_fork_lives [OF 1(2)]
  note t1 = targets_alive_lives [OF f(1) 1(1)]
  note w2 = walk_livesD [OF assms(1) 1(3) lives_refl t1]
  note w3 = loop_wire_lives [OF 1(4) alive_lives [OF w2 f(2)] alive_lives [OF w2 f(3)] alive_lives [OF w2 f(4)]]
  note l3 = lives_trans [OF w2 w3(1)]
  have t3: "targets_alive exit (lts @ [lt]) b3"
    using targets_alive_lives [OF l3 t1] w3(2) alive_lives [OF l3 f(2)] alive_lives [OF l3 f(4)] 1(5) by (simp add: targets_alive_def)
  note w4 = walk_livesD [OF assms(3) 1(6) lives_refl t3]
  note w5 = link_livesD [OF 1(7) w4 alive_lives [OF w4 w3(2)]]
  have "lives b3 bs'"
  proof (cases "u = []")
    case True
    with 1(8) w5 show ?thesis by simp
  next
    case False
    with 1(9) obtain ut b6 where u: "walk_with_finally u ue exit b5 (lts @ [lt]) pf = Some (ut, b6)" "link b6 ut h = Some bs'" by auto
    note w6 = walk_livesD [OF assms(2) u(1) w5 t3]
    show ?thesis using link_livesD [OF u(2) w6 alive_lives [OF w6 alive_lives [OF l3 f(2)]]] .
  qed
  with lives_trans [OF f(1) l3] show ?case using lives_trans by blast
qed

lemma event_lives_Try:
  assumes "walk_lives b exit lts (pf @ [\<lparr>ff_span = sp, ff_events = fs\<rparr>])" "walk_lives c exit lts (pf @ [\<lparr>ff_span = sp, ff_events = fs\<rparr>])"
    "walk_lives fs exit lts pf"
  shows "event_lives (Try sp b c fs p ty arms) exit lts pf"
  unfolding event_lives_def
proof (intro allI impI, erule walk_TryE, goal_cases)
  case (1 cur bs tail bs' fr ti ci b1 tt b2 ct b3 b4 b5)
  note assms = assms [folded 1(2)]
  note f = try_fork_lives [OF 1(3)]
  note w2 = walk_livesD [OF assms(1) 1(4) f 1(1)]
  have w3: "lives bs b3" using 1(5,6) w2 walk_livesD [OF assms(2) _ w2 1(1)] by (cases ci) auto
  let ?x = "b3 @ [fresh_block (length b3) (block_label ''finally@'' sp) (Some SbFinally)]"
  have x: "alive ?x (length b3)" "lives bs ?x" using lives_trans [OF w3 lives_fresh] by (simp_all add: alive_def)
  note w4 = link_livesD [OF 1(7) x(2,1)]
  have "alive b4 (length b3)" using alive_lives [OF lives_link [OF 1(7) x(1)] x(1)] .
  then have "lives bs b5" using 1(8,9) w4 link_livesD [OF _ w4] by (cases ct) auto
  from walk_livesD [OF assms(3) 1(10) this 1(1)] show ?case .
qed

lemma event_lives_abrupt:
  assumes "append_lives (length pf) exit lts pf" "is_abrupt e"
  shows "event_lives e exit lts pf"
  unfolding event_lives_def
proof (intro allI impI, erule walk_abruptE [OF _ assms(2)], goal_cases)
  case (1 cur bs tail bs' b1 b2)
  note l1 = abrupt_here_lives [OF 1(2) assms(2)]
  note t1 = targets_alive_lives [OF l1 1(1)]
  have "lives b1 b2" using 1(4) assms(1) t1 control_transfer_alive [OF t1] by (auto simp: append_lives_def intro: lives_link)
  from lives_trans [OF l1 lives_trans [OF this dead_block_lives [OF 1(3)]]] show ?case .
qed

lemma append_lives_step:
  assumes "0 < n \<Longrightarrow> n \<le> length pf \<Longrightarrow> walk_lives (ff_events (pf ! (n - 1))) exit lts (take (n - 1) pf) \<and> append_lives (n - 1) exit lts pf"
  shows "append_lives n exit lts pf"
  unfolding append_lives_def
proof (intro allI impI, erule append_stepE, goal_cases)
  case (2 cur target bs retained bs' f fi b1 cur2 b2)
  have f: "n \<le> length pf" "f = pf ! (n - 1)" using 2(3,4) by (auto simp: vec_get_def split: if_splits)
  note ih = assms [OF 2(3) f(1), folded f(2)]
  note w = walk_livesD [OF conjunct1 [OF ih] 2(6) copy_finally_lives [OF 2(5)] 2(1)]
  have "lives b2 bs'" using ih 2(7) targets_alive_lives [OF w 2(1)] alive_lives [OF w 2(2)] by (simp add: append_lives_def)
  with w show ?case by (rule lives_trans)
qed (rule lives_link)

lemma walk_lives_Cons:
  assumes "event_lives e exit lts pf" "walk_lives es exit lts pf"
  shows "walk_lives (e # es) exit lts pf"
  unfolding walk_lives_def
proof (intro allI impI)
  fix cur bs tail bs'
  assume w: "walk_with_finally (e # es) cur exit bs lts pf = Some (tail, bs')" "targets_alive exit lts bs"
  then obtain c1 b1 where s: "walk_event e cur exit bs lts pf = Some (c1, b1)" "walk_with_finally es c1 exit b1 lts pf = Some (tail, bs')"
    by (auto split: bind_splits)
  have "lives bs b1" using assms(1) s(1) w(2) by (simp add: event_lives_def)
  from walk_livesD [OF assms(2) s(2) this w(2)] show "lives bs bs'" .
qed

lemma event_lives_leaf: "\<not> is_region e \<Longrightarrow> \<not> is_abrupt e \<Longrightarrow> event_lives e exit lts pf"
  unfolding event_lives_def using lives_trans [OF lives_record_span lives_push] by (auto elim!: walk_leafE)

lemma event_lives_scope:
  "walk_lives b exit lts pf \<Longrightarrow> event_lives (Using sp b) exit lts pf" "walk_lives b exit lts pf \<Longrightarrow> event_lives (Defer sp b) exit lts pf"
  by (simp_all add: event_lives_def walk_lives_def walk_Using)

interpretation separated: walk_property walk_lives event_lives append_lives
proof (unfold_locales, goal_cases)
  case (1 exit lts pf)
  then show ?case by (simp add: walk_lives_def)
next
  case 10
  then show ?case by (intro append_lives_step) simp
qed (simp_all add: walk_lives_Cons event_lives_abrupt event_lives_Branch event_lives_Loop event_lives_Try event_lives_leaf event_lives_scope)

lemma build_raw_live:
  assumes "build_raw events = Some (entry, exit, raw)"
  shows "\<forall>b \<in> set raw. live_block raw b" "alive raw 1"
proof -
  let ?bs0 = "[fresh_block 0 ''exit'' (Some SbExit), fresh_block 1 ''entry'' (Some SbEntry)]"
  obtain tail bs1 where w: "walk_with_finally (normalize_deferred_scopes events) 1 0 ?bs0 [] [] = Some (tail, bs1)" "link bs1 tail 0 = Some raw"
    using assms by (auto simp: build_raw_def new_block_fresh walk_def split: bind_splits)
  have a0: "alive ?bs0 0" "alive ?bs0 1" by (simp_all add: alive_def)
  have l1: "lives ?bs0 bs1" using separated.walks w(1) a0(1) by (simp add: walk_lives_def targets_alive_def)
  have l: "lives ?bs0 raw" using lives_trans [OF l1 lives_link [OF w(2) alive_lives [OF l1 a0(1)]]] .
  have "\<forall>b \<in> set ?bs0. live_block ?bs0 b" by (simp add: live_block_def)
  with l show "\<forall>b \<in> set raw. live_block raw b" unfolding lives_def by blast
  show "alive raw 1" by (rule alive_lives [OF l a0(2)])
qed

section \<open>Paths of the graph are control flow the interpreter follows\<close>

lemma edge_alive:
  assumes "\<forall>b \<in> set bs. live_block bs b" "length bs \<le> 2 ^ 32" "edge bs i j"
  shows "alive bs j"
proof -
  have ij: "i < length bs" "j < length bs" "of_nat j \<in> set (bb_successors (bs ! i))" using assms(3) by (simp_all add: edge_def)
  then obtain j' where "of_nat j = (of_nat j' :: block_id)" "alive bs j'" using assms(1) unfolding live_block_def by (meson nth_mem)
  moreover from this have "j = j'" using ij(2) assms(2) by (metis alive_def less_le_trans unat_of_nat_u32)
  ultimately show ?thesis by simp
qed

lemma alive_flows:
  assumes "\<forall>b \<in> set bs. live_block bs b" "length bs \<le> 2 ^ 32" "alive bs i" "edge bs i j"
  shows "bb_terminator (bs ! i) \<noteq> TUnreachable"
  using assms by (auto simp: alive_def live_block_def)

text \<open>
  A path of the blocks before compaction, from a kept block the interpreter reaches: the
  interpreter reaches the blocks of all its events.
\<close>

lemma run_flows:
  assumes "run bs x t y" "\<forall>b \<in> set bs. live_block bs b" "length bs \<le> 2 ^ 32"
    and "compacted bs ks (cfg_blocks g)" "alive bs (fst x)" "ks ! fst x" "flows_to g (cfg_entry g) (of_nat (rank ks (fst x)))" "e \<in> set t"
  shows "\<exists>i b. flows_to g (cfg_entry g) i \<and> cfg_block g i = Some b \<and> e \<in> set (bb_events b)"
  using assms
proof (induction rule: run.induct)
  case (run_emit i k t y)
  have i: "i < length bs" "ks ! i" using run_emit by simp_all
  note c = compactedD [OF run_emit.prems(3) i]
  have b: "cfg_block g (of_nat (rank ks i)) = Some (cfg_blocks g ! rank ks i)"
    using c(1) compacted_unat [OF run_emit.prems(3,2) i] by (simp add: cfg_block_def)
  have "bb_events (bs ! i) ! k \<in> set (bb_events (bs ! i))" using run_emit.hyps(2) by (simp add: elen_def)
  with b c(3) run_emit show ?case by auto
next
  case (run_jump i j k t y)
  have i: "i < length bs" "j < length bs" "ks ! i" "of_nat j \<in> set (bb_successors (bs ! i))" using run_jump by (simp_all add: edge_def)
  note c = compactedD [OF run_jump.prems(3) i(1,3)]
  have b: "cfg_block g (of_nat (rank ks i)) = Some (cfg_blocks g ! rank ks i)"
    using c(1) compacted_unat [OF run_jump.prems(3,2) i(1,3)] by (simp add: cfg_block_def)
  have u: "unat (of_nat j :: block_id) = j" using i(2) run_jump.prems(2) by (simp add: unat_of_nat_u32)
  have kj: "ks ! j" using compacted_edge(2) [OF run_jump.prems(3,2) run_jump.hyps(1) i(3)] .
  have tm: "bb_terminator (cfg_blocks g ! rank ks i) \<noteq> TUnreachable"
    using alive_flows [OF run_jump.prems(1,2) _ run_jump.hyps(1)] run_jump.prems(4) c(4) by simp
  have "of_nat (rank ks j) \<in> set (bb_successors (cfg_blocks g ! rank ks i))"
    unfolding c(6) using i(4) u by (auto intro!: image_eqI [of _ _ "of_nat j"])
  with run_jump.prems(6) b tm have "flows_to g (cfg_entry g) (of_nat (rank ks j))" by (auto intro: flows_step)
  with run_jump.IH run_jump.prems kj edge_alive [OF run_jump.prems(1,2) run_jump.hyps(1)] show ?case by simp
qed simp

lemma fill_span_live:
  assumes "\<forall>b \<in> set bs. live_block bs b"
  shows "\<forall>b \<in> set (map (fill_span fs) bs). live_block (map (fill_span fs) bs) b" "alive (map (fill_span fs) bs) j = alive bs j"
proof -
  have a: "alive (map (fill_span fs) bs) j = alive bs j" for j by (auto simp: alive_def)
  with assms show "\<forall>b \<in> set (map (fill_span fs) bs). live_block (map (fill_span fs) bs) b" "alive (map (fill_span fs) bs) j = alive bs j"
    by (simp_all add: live_block_def)
qed

section \<open>Properties\<close>

text \<open>
  C3: take an event tree in whose cleanup regions every break and continue names a loop of the region itself,
  and whose graph has at most \<open>2 ^ 32\<close> blocks before compaction. If a trace of the graph is not truncated, it has a step, with the
  event's span, kind and message, for every event of every structured execution of the tree.
\<close>

theorem trace_covers_executions:
  assumes "list_all cleanup_closed events" "exec [] (At events) t oc"
    and "build_raw events = Some (entry, exit, raw)" "length raw \<le> 2 ^ 32"
    and "build_cfg_from_flow_in_span name fs events = Some g"
    and "run_entry_with_assignment_values debug func g limits facts = Some trace" "\<not> tr_truncated trace"
    and "e \<in> set t"
  shows "has_step (run_env debug func g limits facts) e trace"
proof -
  let ?fb = "map (fill_span fs) raw"
  obtain g' ks where g: "build_cfg_from_flow_in_span name fs events = Some g'" "cfg_entry g' = of_nat (rank ks 1)"
    "cfg_exit g' = of_nat (rank ks 0)" "compacted ?fb ks (cfg_blocks g')" "ks ! 0" "ks ! 1"
    "ks = keep_flags ?fb 1 0" "1 < length raw" "raw ! 0 = fresh_block 0 ''exit'' (Some SbExit)"
    by (rule build_cfg_spec [OF assms(3,4)])
  have gg: "g' = g" using assms(5) g(1) by simp
  note g = g [unfolded gg]
  note lv = fill_span_live [OF build_raw_live(1) [OF assms(3)], of fs]
  have al: "alive ?fb 1" using lv(2) build_raw_live(2) [OF assms(3)] by simp
  obtain y where "run raw (1, 0) t y" using build_raw_covers [OF assms(1-3)] by (auto simp: ends_in_def)
  from fill_span_run [OF this, of fs] have r: "run ?fb (1, 0) t y" .
  have "flows_to g (cfg_entry g) (of_nat (rank ks 1))" unfolding g(2) [symmetric] by (rule flows_refl)
  with run_flows [OF r lv(1) _ g(4)] al g(6) assms(4,8) obtain i b
    where "flows_to g (cfg_entry g) i" "cfg_block g i = Some b" "e \<in> set (bb_events b)" by (metis fst_conv length_map)
  from run_covers [OF assms(6,7) this] show ?thesis .
qed

theorem trace_covers_executions_witness:
  "\<exists>g trace. build_cfg_from_flow_in_span ''f'' None guarded_return = Some g
    \<and> run_entry_with_assignment_values (\<lambda>_. []) 0 g trace_limits_default [] = Some trace
    \<and> has_step (run_env (\<lambda>_. []) 0 g trace_limits_default []) (Await (sp_at 3) None) trace"
proof -
  obtain raw where r: "build_raw guarded_return = Some (1, 0, raw)" "length raw \<le> 2 ^ 32"
    using guarded_return_raw by blast
  have "map_option tr_truncated (do {
      g \<leftarrow> build_cfg_from_flow_in_span ''f'' None guarded_return;
      run_entry_with_assignment_values (\<lambda>_. []) 0 g trace_limits_default [] }) = Some False"
    by code_simp
  then obtain g trace where g: "build_cfg_from_flow_in_span ''f'' None guarded_return = Some g"
      "run_entry_with_assignment_values (\<lambda>_. []) 0 g trace_limits_default [] = Some trace" "\<not> tr_truncated trace"
    by (auto split: bind_splits)
  have "list_all cleanup_closed guarded_return" by (simp add: guarded_return_def)
  from trace_covers_executions [OF this guarded_return_exec r g, of "Await (sp_at 3) None"] g(1,2) show ?thesis by auto
qed

end
