(* ===== verification/Qualified_Names.thy ===== *)
theory Qualified_Names
  imports Flow_Events
begin

text \<open>
  The language-neutral helpers for compiler-qualified names of \<^verbatim>\<open>crates/common/src/names.rs\<close>: the
  scan for the last top-level punctuation boundary, and what is derived from it (tail, owner,
  segments, prefixes, splits, the canonical dotted form), with the suffix that a declaration
  name selects.

  A Rust \<^verbatim>\<open>char\<close> is the list of bytes of its UTF-8 encoding. \<^verbatim>\<open>char::is_alphanumeric\<close> is
  written out for ASCII; for the other characters it is a table of the Unicode standard, the
  argument \<open>uni\<close>. Slices are taken at the indices the scan returns; \<open>qualified_boundary_spec\<close> shows
  that these are positions of characters, so that no slice panics.

  Shown: where boundaries are, that segments of a dotted name are its parts and the canonical
  form of a dotted name is the name itself, and that the two searches for the suffix of a declaration
  agree for every declaration name that has no punctuation (and not in general).
\<close>

section \<open>Characters of a string\<close>

definition continuation :: "char \<Rightarrow> bool" where
  "continuation c \<longleftrightarrow> 0x80 \<le> (of_char c :: nat) \<and> (of_char c :: nat) < 0xC0"

function utf8_chars :: "string \<Rightarrow> string list" where
  "utf8_chars [] = []"
| "utf8_chars (c # cs) = (c # takeWhile continuation cs) # utf8_chars (dropWhile continuation cs)"
  by pat_completeness auto
termination
  by (relation "measure length") (auto simp: length_dropWhile_le le_imp_less_Suc)

fun char_indices_from :: "nat \<Rightarrow> string list \<Rightarrow> (nat \<times> string) list" where
  "char_indices_from i [] = []"
| "char_indices_from i (ch # chs) = (i, ch) # char_indices_from (i + length ch) chs"

definition char_indices :: "string \<Rightarrow> (nat \<times> string) list" where
  "char_indices s = char_indices_from 0 (utf8_chars s)"

definition is_ascii_alphanumeric :: "string \<Rightarrow> bool" where
  "is_ascii_alphanumeric ch \<longleftrightarrow>
     (case ch of
        [c] \<Rightarrow> (let n = of_char c :: nat in
                48 \<le> n \<and> n \<le> 57 \<or> 65 \<le> n \<and> n \<le> 90 \<or> 97 \<le> n \<and> n \<le> 122)
      | _ \<Rightarrow> False)"

definition is_alphanumeric :: "(string \<Rightarrow> bool) \<Rightarrow> string \<Rightarrow> bool" where
  "is_alphanumeric uni ch \<longleftrightarrow> (if length ch = 1 then is_ascii_alphanumeric ch else uni ch)"

text \<open>\<^verbatim>\<open>strip_prefix\<close>, \<^verbatim>\<open>strip_suffix\<close>, \<^verbatim>\<open>trim_start\<close>, \<^verbatim>\<open>trim_start_matches\<close>, \<^verbatim>\<open>match_indices\<close>.\<close>

definition str_strip_prefix :: "string \<Rightarrow> string \<Rightarrow> string option" where
  "str_strip_prefix p s = (if take (length p) s = p then Some (drop (length p) s) else None)"

definition str_strip_suffix :: "string \<Rightarrow> string \<Rightarrow> string option" where
  "str_strip_suffix p s =
     (let n = length s - length p in
      if length p \<le> length s \<and> drop n s = p then Some (take n s) else None)"

definition str_trim_start :: "string \<Rightarrow> string" where
  "str_trim_start s = strip_start white_space s"

definition str_trim_end :: "string \<Rightarrow> string" where
  "str_trim_end s = rev (strip_start (map rev white_space) (rev s))"

definition trim_start_matches :: "(string \<Rightarrow> bool) \<Rightarrow> string \<Rightarrow> string" where
  "trim_start_matches P s = concat (dropWhile P (utf8_chars s))"

function match_indices_from :: "string \<Rightarrow> nat \<Rightarrow> string \<Rightarrow> nat list" where
  "match_indices_from p i s =
     (if s = [] \<or> p = [] then []
      else if take (length p) s = p then i # match_indices_from p (i + length p) (drop (length p) s)
      else match_indices_from p (i + 1) (drop 1 s))"
  by pat_completeness auto
termination
  by (relation "measure (\<lambda>(p, i, s). length s)") auto

declare match_indices_from.simps [simp del]

section \<open>The boundary scan\<close>

definition is_name_segment_char :: "(string \<Rightarrow> bool) \<Rightarrow> string \<Rightarrow> bool" where
  "is_name_segment_char uni ch \<longleftrightarrow> ch = ''_'' \<or> is_alphanumeric uni ch"

definition is_name_punctuation :: "(string \<Rightarrow> bool) \<Rightarrow> string \<Rightarrow> bool" where
  "is_name_punctuation uni ch \<longleftrightarrow> \<not> is_name_segment_char uni ch"

record scan =
  sc_depth :: u32
  sc_punctuation_start :: "nat option"
  sc_last_boundary :: "(nat \<times> nat) option"
  sc_previous_was_name :: bool

definition opens :: "string \<Rightarrow> bool" where
  "opens ch \<longleftrightarrow> ch = ''('' \<or> ch = ''['' \<or> ch = ''{'' \<or> ch = ''<''"

definition closes :: "string \<Rightarrow> bool" where
  "closes ch \<longleftrightarrow> ch = '')'' \<or> ch = '']'' \<or> ch = ''}'' \<or> ch = ''>''"

definition ends_in_name :: "(string \<Rightarrow> bool) \<Rightarrow> string \<Rightarrow> bool" where
  "ends_in_name uni s \<longleftrightarrow> utf8_chars s \<noteq> [] \<and> is_name_segment_char uni (last (utf8_chars s))"

definition boundary_step :: "(string \<Rightarrow> bool) \<Rightarrow> string \<Rightarrow> nat \<times> string \<Rightarrow> scan \<Rightarrow> scan" where
  "boundary_step uni name = (\<lambda>(index, ch) st.
     if opens ch then
       st\<lparr>sc_depth := saturating_add (sc_depth st) 1, sc_punctuation_start := None, sc_previous_was_name := False\<rparr>
     else if closes ch \<and> 0 < sc_depth st then
       (let depth = saturating_sub (sc_depth st) 1 in
        st\<lparr>sc_depth := depth, sc_punctuation_start := None, sc_previous_was_name := (depth = 0)\<rparr>)
     else if sc_depth st = 0 \<and> is_name_segment_char uni ch then
       st\<lparr>sc_punctuation_start := None,
          sc_last_boundary :=
            (case sc_punctuation_start st of
               Some start \<Rightarrow>
                 (if sc_previous_was_name st \<or> ends_in_name uni (take start name) then Some (start, index)
                  else sc_last_boundary st)
             | None \<Rightarrow> sc_last_boundary st),
          sc_previous_was_name := True\<rparr>
     else if sc_depth st = 0 then
       st\<lparr>sc_punctuation_start := Some (case sc_punctuation_start st of Some start \<Rightarrow> start | None \<Rightarrow> index)\<rparr>
     else st)"

definition scan_start :: scan where
  "scan_start = \<lparr>sc_depth = 0, sc_punctuation_start = None, sc_last_boundary = None, sc_previous_was_name = False\<rparr>"

definition qualified_boundary :: "(string \<Rightarrow> bool) \<Rightarrow> string \<Rightarrow> (nat \<times> nat) option" where
  "qualified_boundary uni name =
     sc_last_boundary (fold (boundary_step uni name) (char_indices name) scan_start)"

section \<open>Parts of a qualified name\<close>

definition short_qualified_tail :: "(string \<Rightarrow> bool) \<Rightarrow> string \<Rightarrow> string" where
  "short_qualified_tail uni name =
     (case qualified_boundary uni name of Some (_, tail_start) \<Rightarrow> drop tail_start name | None \<Rightarrow> name)"

definition starts_at_qualified_name_boundary :: "(string \<Rightarrow> bool) \<Rightarrow> string \<Rightarrow> bool" where
  "starts_at_qualified_name_boundary uni suffix \<longleftrightarrow>
     utf8_chars suffix \<noteq> [] \<and> \<not> is_name_segment_char uni (hd (utf8_chars suffix))"

definition ends_at_qualified_name_boundary :: "(string \<Rightarrow> bool) \<Rightarrow> string \<Rightarrow> bool" where
  "ends_at_qualified_name_boundary uni prefix \<longleftrightarrow>
     utf8_chars prefix \<noteq> [] \<and> \<not> is_name_segment_char uni (last (utf8_chars prefix))"

text \<open>The general search of \<^verbatim>\<open>declaration_qualified_suffix\<close>, without its fast path.\<close>

definition aligned :: "(string \<Rightarrow> bool) \<Rightarrow> string \<Rightarrow> string \<Rightarrow> nat \<Rightarrow> bool" where
  "aligned uni decl_name qualified_name start \<longleftrightarrow>
     (let stop = start + length decl_name in
      (start = 0 \<or> ends_at_qualified_name_boundary uni (take start qualified_name))
      \<and> (stop = length qualified_name \<or> starts_at_qualified_name_boundary uni (drop stop qualified_name)))"

definition suffix_search :: "(string \<Rightarrow> bool) \<Rightarrow> string \<Rightarrow> string \<Rightarrow> string option" where
  "suffix_search uni decl_name qualified_name =
     (case filter (aligned uni decl_name qualified_name) (match_indices_from decl_name 0 qualified_name) of
        [] \<Rightarrow> None
      | starts \<Rightarrow> Some (drop (last starts) qualified_name))"

definition declaration_qualified_suffix :: "(string \<Rightarrow> bool) \<Rightarrow> string \<Rightarrow> string \<Rightarrow> string option" where
  "declaration_qualified_suffix uni decl_name0 qualified_name0 =
     (let decl_name = str_trim decl_name0; qualified_name = str_trim qualified_name0 in
      if decl_name = [] \<or> qualified_name = [] then None
      else case str_strip_suffix decl_name qualified_name of
             Some prefix \<Rightarrow>
               (if prefix = [] \<or> ends_at_qualified_name_boundary uni prefix
                then Some (drop (length prefix) qualified_name)
                else suffix_search uni decl_name qualified_name)
           | None \<Rightarrow> suffix_search uni decl_name qualified_name)"

definition qualified_names_match :: "(string \<Rightarrow> bool) \<Rightarrow> string \<Rightarrow> string \<Rightarrow> bool" where
  "qualified_names_match uni left right \<longleftrightarrow>
     left = right
     \<or> short_qualified_tail uni left \<noteq> [] \<and> short_qualified_tail uni left = short_qualified_tail uni right"

definition trim_leading_name_punctuation :: "(string \<Rightarrow> bool) \<Rightarrow> string \<Rightarrow> string" where
  "trim_leading_name_punctuation uni v = trim_start_matches (is_name_punctuation uni) v"

definition qualified_name_owner :: "(string \<Rightarrow> bool) \<Rightarrow> string \<Rightarrow> string option" where
  "qualified_name_owner uni name =
     (case qualified_boundary uni name of
        None \<Rightarrow> None
      | Some (separator_start, _) \<Rightarrow>
          (let owner = str_trim (take separator_start name) in if owner \<noteq> [] then Some owner else None))"

text \<open>The loop of \<^verbatim>\<open>qualified_name_segments\<close>, with the list in its final order.\<close>

lemma strip_start_length: "length (strip_start ws s) \<le> length s"
proof (induction ws s rule: strip_start.induct)
  case (1 ws s)
  then show ?case by (subst strip_start.simps) (force split: option.split)
qed

lemma str_trim_length: "length (str_trim s) \<le> length s"
  using strip_start_length [of "map rev white_space" "rev (strip_start white_space s)"]
    strip_start_length [of white_space s]
  by (simp add: str_trim_def)

lemma strip_start_suffix: "\<exists>p. s = p @ strip_start ws s"
proof (induction ws s rule: strip_start.induct)
  case (1 ws s)
  show ?case
  proof (cases "find (\<lambda>w. w \<noteq> [] \<and> take (length w) s = w) ws")
    case (Some w)
    from 1 [OF Some] obtain p where "drop (length w) s = p @ strip_start ws (drop (length w) s)" by blast
    moreover have "strip_start ws s = strip_start ws (drop (length w) s)"
      using Some by (simp add: strip_start.simps [of ws s])
    ultimately have "s = (take (length w) s @ p) @ strip_start ws s"
      by (metis append.assoc append_take_drop_id)
    then show ?thesis by blast
  qed (simp add: strip_start.simps [of ws s])
qed

lemma owner_shorter:
  "str_trim (take n s) \<noteq> s \<Longrightarrow> length (str_trim (take n s)) < length s"
proof (rule ccontr)
  assume ne: "str_trim (take n s) \<noteq> s" and "\<not> length (str_trim (take n s)) < length s"
  moreover have "length (str_trim (take n s)) \<le> length (take n s)" by (rule str_trim_length)
  ultimately have len: "length (str_trim (take n s)) = length (take n s)" "take n s = s" by auto
  obtain p where p: "s = p @ strip_start white_space s" using strip_start_suffix by blast
  obtain q where q: "rev (strip_start white_space s) = q @ strip_start (map rev white_space) (rev (strip_start white_space s))"
    using strip_start_suffix by blast
  have "length (str_trim s) + length q + length p = length s"
    using p q by (metis add.commute length_append length_rev str_trim_def)
  with len have "p = []" "q = []" by auto
  with p q have "str_trim s = s" by (metis append_Nil rev_rev_ident str_trim_def)
  with ne len show False by simp
qed

function segments_loop :: "(string \<Rightarrow> bool) \<Rightarrow> string \<Rightarrow> string list \<Rightarrow> string list" where
  "segments_loop uni remaining found =
     (case qualified_boundary uni remaining of
        None \<Rightarrow> (if remaining \<noteq> [] then remaining # found else found)
      | Some (separator_start, tail_start) \<Rightarrow>
          (let tail = str_trim (drop tail_start remaining);
               found = (if tail \<noteq> [] then tail # found else found);
               owner = str_trim (take separator_start remaining)
           in if owner = [] \<or> owner = remaining
              then (if remaining \<noteq> [] then remaining # found else found)
              else segments_loop uni owner found))"
  by pat_completeness auto
termination
  by (relation "measure (\<lambda>(uni, remaining, found). length remaining)") (auto simp: owner_shorter)

declare segments_loop.simps [simp del]

definition qualified_name_segments :: "(string \<Rightarrow> bool) \<Rightarrow> string \<Rightarrow> string list" where
  "qualified_name_segments uni name = segments_loop uni (str_trim name) []"

function prefixes_loop :: "(string \<Rightarrow> bool) \<Rightarrow> string \<Rightarrow> string list \<Rightarrow> string list" where
  "prefixes_loop uni remaining found =
     (case qualified_boundary uni remaining of
        None \<Rightarrow> found
      | Some (separator_start, _) \<Rightarrow>
          (let owner = str_trim (take separator_start remaining)
           in if owner = [] \<or> owner = remaining then found else prefixes_loop uni owner (owner # found)))"
  by pat_completeness auto
termination
  by (relation "measure (\<lambda>(uni, remaining, found). length remaining)") (auto simp: owner_shorter)

declare prefixes_loop.simps [simp del]

definition qualified_name_prefixes :: "(string \<Rightarrow> bool) \<Rightarrow> string \<Rightarrow> string list" where
  "qualified_name_prefixes uni name =
     (let remaining = str_trim name in
      if remaining = [] then [] else prefixes_loop uni remaining [remaining])"

definition split_qualified_name_head_tail :: "(string \<Rightarrow> bool) \<Rightarrow> string \<Rightarrow> (string \<times> string) option" where
  "split_qualified_name_head_tail uni name =
     (let trimmed = str_trim name; prefixes = qualified_name_prefixes uni trimmed in
      if length prefixes < 2 then None
      else do {
        head \<leftarrow> vec_get prefixes 0;
        rest \<leftarrow> str_strip_prefix head trimmed;
        let tail = str_trim (trim_start_matches (is_name_punctuation uni) rest);
        if head \<noteq> [] \<and> tail \<noteq> [] then Some (head, tail) else None
      })"

definition split_qualified_name_owner_tail :: "(string \<Rightarrow> bool) \<Rightarrow> string \<Rightarrow> (string \<times> string) option" where
  "split_qualified_name_owner_tail uni name =
     (let trimmed = str_trim name in do {
        owner \<leftarrow> qualified_name_owner uni trimmed;
        let tail = str_trim (short_qualified_tail uni trimmed);
        if owner \<noteq> [] \<and> tail \<noteq> [] then Some (owner, tail) else None
      })"

definition normalize_qualified_name :: "(string \<Rightarrow> bool) \<Rightarrow> string \<Rightarrow> string" where
  "normalize_qualified_name uni name =
     (let segments = qualified_name_segments uni name in
      if length segments \<le> 1 then str_trim name else str_join ''.'' segments)"

section \<open>Characters and indices\<close>

lemma concat_utf8_chars [simp]: "concat (utf8_chars s) = s"
  by (induction s rule: utf8_chars.induct) (simp_all add: takeWhile_dropWhile_id)

lemma utf8_chars_nonempty: "ch \<in> set (utf8_chars s) \<Longrightarrow> ch \<noteq> []"
  by (induction s rule: utf8_chars.induct) auto

lemma utf8_chars_eq_Nil [simp]: "utf8_chars s = [] \<longleftrightarrow> s = []"
  by (cases s) simp_all

lemma takeWhile_stop: "b = [] \<or> \<not> P (hd b) \<Longrightarrow> takeWhile P (cs @ b) = takeWhile P cs"
  by (induction cs) (cases b; auto)+

lemma dropWhile_stop: "b = [] \<or> \<not> P (hd b) \<Longrightarrow> dropWhile P (cs @ b) = dropWhile P cs @ b"
  by (induction cs) (cases b; auto)+

lemma utf8_chars_append:
  assumes "b = [] \<or> \<not> continuation (hd b)"
  shows "utf8_chars (a @ b) = utf8_chars a @ utf8_chars b"
  using assms
  by (induction a rule: utf8_chars.induct) (simp_all add: takeWhile_stop dropWhile_stop)

lemma utf8_chars_bytes:
  "list_all (\<lambda>c. \<not> continuation c) s \<Longrightarrow> utf8_chars s = map (\<lambda>c. [c]) s"
proof (induction s)
  case (Cons c cs)
  then show ?case by (cases cs) simp_all
qed simp

lemma char_indices_from_append:
  "char_indices_from i (xs @ ys) = char_indices_from i xs @ char_indices_from (i + length (concat xs)) ys"
  by (induction xs arbitrary: i) (simp_all add: add.assoc)

section \<open>Where a boundary is\<close>

text \<open>What the scan knows after the characters \<open>cs\<close>.\<close>

definition scanned :: "(string \<Rightarrow> bool) \<Rightarrow> string list \<Rightarrow> scan \<Rightarrow> bool" where
  "scanned uni cs st \<longleftrightarrow>
     (sc_previous_was_name st \<longrightarrow> cs \<noteq> []) \<and> (sc_depth st \<noteq> 0 \<longrightarrow> sc_punctuation_start st = None)
     \<and> (\<forall>p. sc_punctuation_start st = Some p \<longrightarrow>
          (\<exists>c1 c2. cs = c1 @ c2 \<and> p = length (concat c1) \<and> c2 \<noteq> [] \<and> list_all (is_name_punctuation uni) c2
             \<and> (sc_previous_was_name st \<longrightarrow> c1 \<noteq> [])))
     \<and> (\<forall>a b. sc_last_boundary st = Some (a, b) \<longrightarrow>
          (\<exists>c1 c2 ch c3. cs = c1 @ c2 @ ch # c3 \<and> a = length (concat c1) \<and> b = length (concat (c1 @ c2))
             \<and> c1 \<noteq> [] \<and> c2 \<noteq> [] \<and> list_all (is_name_punctuation uni) c2 \<and> is_name_segment_char uni ch))"

lemma scanned_start: "scanned uni [] scan_start"
  by (simp add: scanned_def scan_start_def)

lemma scanned_boundary:
  assumes "scanned uni cs st" "sc_last_boundary st = Some (a, b)"
  shows "\<exists>c1 c2 ch c3. cs @ [x] = c1 @ c2 @ ch # c3 \<and> a = length (concat c1) \<and> b = length (concat (c1 @ c2))
    \<and> c1 \<noteq> [] \<and> c2 \<noteq> [] \<and> list_all (is_name_punctuation uni) c2 \<and> is_name_segment_char uni ch"
proof -
  from assms obtain c1 c2 ch c3 where "cs = c1 @ c2 @ ch # c3" "a = length (concat c1)" "b = length (concat (c1 @ c2))"
      "c1 \<noteq> []" "c2 \<noteq> []" "list_all (is_name_punctuation uni) c2" "is_name_segment_char uni ch"
    unfolding scanned_def by blast
  then show ?thesis by (intro exI [of _ c1] exI [of _ c2] exI [of _ ch] exI [of _ "c3 @ [x]"]) simp
qed

lemma scanned_step:
  assumes "scanned uni cs st" and name: "name = concat (cs @ ch # rest)" and ne: "\<forall>c \<in> set cs. c \<noteq> []"
  shows "scanned uni (cs @ [ch]) (boundary_step uni name (length (concat cs), ch) st)"
proof -
  note last = scanned_boundary [OF assms(1), where x = ch]
  consider (reset) "opens ch \<or> closes ch \<and> 0 < sc_depth st"
    | (name) "\<not> opens ch" "\<not> (closes ch \<and> 0 < sc_depth st)" "sc_depth st = 0" "is_name_segment_char uni ch"
    | (punct) "\<not> opens ch" "\<not> (closes ch \<and> 0 < sc_depth st)" "sc_depth st = 0" "\<not> is_name_segment_char uni ch"
    | (inside) "\<not> opens ch" "\<not> (closes ch \<and> 0 < sc_depth st)" "sc_depth st \<noteq> 0"
    by blast
  then show ?thesis
  proof cases
    case reset
    then show ?thesis using last by (auto simp: boundary_step_def scanned_def Let_def)
  next
    case name
    have "\<exists>c1 c2 c c3. cs @ [ch] = c1 @ c2 @ c # c3 \<and> start = length (concat c1) \<and> length (concat cs) = length (concat (c1 @ c2))
        \<and> c1 \<noteq> [] \<and> c2 \<noteq> [] \<and> list_all (is_name_punctuation uni) c2 \<and> is_name_segment_char uni c"
      if start: "sc_punctuation_start st = Some start"
        and or: "sc_previous_was_name st \<or> ends_in_name uni (take start (concat (cs @ ch # rest)))" for start
    proof -
      from assms(1) start obtain c1 c2 where c: "cs = c1 @ c2" "start = length (concat c1)" "c2 \<noteq> []"
          "list_all (is_name_punctuation uni) c2" "sc_previous_was_name st \<longrightarrow> c1 \<noteq> []"
        unfolding scanned_def by blast
      have "c1 \<noteq> []" using or c(1,2,5) by (auto simp: ends_in_name_def)
      with c name show ?thesis by (intro exI [of _ c1] exI [of _ c2] exI [of _ ch] exI [of _ "[]"]) simp
    qed
    then show ?thesis using name last assms(2) by (auto simp: boundary_step_def scanned_def split: option.splits if_splits)
  next
    case punct
    have "\<exists>c1 c2. cs @ [ch] = c1 @ c2 \<and> (case sc_punctuation_start st of Some p \<Rightarrow> p | None \<Rightarrow> length (concat cs)) = length (concat c1)
        \<and> c2 \<noteq> [] \<and> list_all (is_name_punctuation uni) c2 \<and> (sc_previous_was_name st \<longrightarrow> c1 \<noteq> [])"
    proof (cases "sc_punctuation_start st")
      case None
      with assms(1) punct show ?thesis
        by (intro exI [of _ cs] exI [of _ "[ch]"]) (auto simp: is_name_punctuation_def scanned_def)
    next
      case (Some p)
      with assms(1) obtain c1 c2 where "cs = c1 @ c2" "p = length (concat c1)" "c2 \<noteq> []"
          "list_all (is_name_punctuation uni) c2" "sc_previous_was_name st \<longrightarrow> c1 \<noteq> []"
        unfolding scanned_def by blast
      with Some punct show ?thesis
        by (intro exI [of _ c1] exI [of _ "c2 @ [ch]"]) (simp add: is_name_punctuation_def)
    qed
    then show ?thesis using punct last assms(1) by (auto simp: boundary_step_def scanned_def)
  next
    case inside
    then show ?thesis using last assms(1) by (auto simp: boundary_step_def scanned_def)
  qed
qed

lemma scanned_fold:
  assumes "scanned uni cs st" "\<forall>c \<in> set (cs @ rest). c \<noteq> []" "name = concat (cs @ rest)"
  shows "scanned uni (cs @ rest) (fold (boundary_step uni name) (char_indices_from (length (concat cs)) rest) st)"
  using assms
proof (induction rest arbitrary: cs st)
  case (Cons ch rest)
  have "scanned uni (cs @ [ch]) (boundary_step uni name (length (concat cs), ch) st)"
    by (rule scanned_step) (use Cons.prems in auto)
  from Cons.IH [OF this] Cons.prems show ?case by simp
qed simp

text \<open>
  A boundary is a non-empty run of punctuation between a non-empty prefix and a character of a
  name; both of its ends are positions of characters.
\<close>

lemma qualified_boundary_spec:
  assumes "qualified_boundary uni name = Some (a, b)"
  shows "\<exists>c1 c2 ch c3. utf8_chars name = c1 @ c2 @ ch # c3 \<and> a = length (concat c1) \<and> b = length (concat (c1 @ c2))
    \<and> c1 \<noteq> [] \<and> c2 \<noteq> [] \<and> list_all (is_name_punctuation uni) c2 \<and> is_name_segment_char uni ch"
proof -
  have "scanned uni ([] @ utf8_chars name)
      (fold (boundary_step uni name) (char_indices_from (length (concat ([] :: string list))) (utf8_chars name)) scan_start)"
    by (rule scanned_fold) (auto simp: scanned_start dest: utf8_chars_nonempty)
  with assms show ?thesis unfolding qualified_boundary_def char_indices_def scanned_def by auto
qed

section \<open>Dotted names\<close>

text \<open>
  Canonical places: ASCII identifiers joined by dots, and the wildcards below such a place, which
  end in a star.
\<close>

definition ident_byte :: "char \<Rightarrow> bool" where
  "ident_byte c \<longleftrightarrow> c = CHR ''_'' \<or> is_ascii_alphanumeric [c]"

definition ident_text :: "string \<Rightarrow> bool" where
  "ident_text s \<longleftrightarrow> s \<noteq> [] \<and> list_all ident_byte s"

definition dotted :: "string \<Rightarrow> bool" where
  "dotted s \<longleftrightarrow> list_all ident_text (str_split (CHR ''.'') s)"

definition wildcard_suffix :: "string \<Rightarrow> bool" where
  "wildcard_suffix suf \<longleftrightarrow> suf = [] \<or> suf = ''.*''"

lemma ident_byte_code: "ident_byte c \<Longrightarrow> 48 \<le> (of_char c :: nat) \<and> (of_char c :: nat) \<le> 122"
  by (auto simp: ident_byte_def is_ascii_alphanumeric_def Let_def)

lemma ident_byte_name: "ident_byte c \<Longrightarrow> is_name_segment_char uni [c]"
  by (auto simp: ident_byte_def is_name_segment_char_def is_alphanumeric_def)

lemma ident_byte_plain:
  assumes "ident_byte c"
  shows "\<not> continuation c" "\<not> opens [c]" "\<not> closes [c]" "c \<noteq> CHR ''.''" "c \<noteq> CHR ''*''"
  using assms by (auto simp: ident_byte_def is_ascii_alphanumeric_def opens_def closes_def continuation_def Let_def)

lemma dot_plain [simp]:
  "\<not> continuation (CHR ''.'')" "\<not> continuation (CHR ''*'')"
  "\<not> opens ''.''" "\<not> closes ''.''" "\<not> opens ''*''" "\<not> closes ''*''"
  "\<not> is_name_segment_char uni ''.''" "\<not> is_name_segment_char uni ''*''"
  by (simp_all add: continuation_def opens_def closes_def is_name_segment_char_def is_alphanumeric_def
      is_ascii_alphanumeric_def)

lemma ident_text_chars: "ident_text s \<Longrightarrow> utf8_chars s = map (\<lambda>c. [c]) s"
  by (rule utf8_chars_bytes) (auto simp: ident_text_def list_all_iff dest: ident_byte_plain)

subsection \<open>Splitting and joining\<close>

lemma str_split_nonempty [simp]: "str_split c s \<noteq> []"
  by (induction c s rule: str_split.induct) (auto split: list.splits)

lemma str_join_Cons: "ps \<noteq> [] \<Longrightarrow> str_join sep (p # ps) = p @ sep @ str_join sep ps"
  by (cases ps) simp_all

lemma str_join_snoc: "ps \<noteq> [] \<Longrightarrow> str_join sep (ps @ [p]) = str_join sep ps @ sep @ p"
proof (induction ps)
  case (Cons q ps)
  then show ?case by (cases ps) (simp_all add: str_join_Cons)
qed simp

lemma str_join_split: "str_join [c] (str_split c s) = s"
proof (induction c s rule: str_split.induct)
  case (2 c x xs)
  show ?case
  proof (cases "str_split c xs")
    case (Cons p ps)
    with 2 show ?thesis by (cases ps) (auto simp: str_join_Cons)
  qed simp
qed simp

lemma str_split_join:
  "ps \<noteq> [] \<Longrightarrow> list_all (\<lambda>p. c \<notin> set p) ps \<Longrightarrow> str_split c (str_join [c] ps) = ps"
proof (induction ps)
  case (Cons p ps)
  have nodot: "c \<notin> set q \<Longrightarrow> str_split c q = [q]" for q by (induction q) auto
  have pre: "c \<notin> set q \<Longrightarrow> str_split c (q @ c # r) = q # str_split c r" for q r
    by (induction q) auto
  from Cons show ?case by (cases "ps = []") (simp_all add: nodot pre str_join_Cons)
qed simp

subsection \<open>Identifiers\<close>

text \<open>
  An identifier in general: characters in well-formed UTF-8 (the first byte says how many continuation bytes follow),
  ASCII letters, digits and underscores or, beyond ASCII, alphanumeric in the table \<open>uni\<close>, and none of them white space.
\<close>

definition utf8_tail :: "char \<Rightarrow> nat" where
  "utf8_tail c = (let n = of_char c :: nat in if n < 0xC0 then 0 else if n < 0xE0 then 1 else if n < 0xF0 then 2 else 3)"

definition utf8_char :: "string \<Rightarrow> bool" where
  "utf8_char ch \<longleftrightarrow>
     (case ch of [] \<Rightarrow> False | c # cs \<Rightarrow> \<not> continuation c \<and> list_all continuation cs \<and> length cs = utf8_tail c)"

definition name_char :: "(string \<Rightarrow> bool) \<Rightarrow> string \<Rightarrow> bool" where
  "name_char uni ch \<longleftrightarrow>
     utf8_char ch \<and> ch \<notin> set white_space \<and> (if length ch = 1 then ident_byte (hd ch) else uni ch)"

definition is_identifier :: "(string \<Rightarrow> bool) \<Rightarrow> string \<Rightarrow> bool" where
  "is_identifier uni s \<longleftrightarrow> s \<noteq> [] \<and> list_all (name_char uni) (utf8_chars s)"

lemma utf8_charD:
  assumes "utf8_char ch"
  shows "ch \<noteq> []" "\<not> continuation (hd ch)" "list_all continuation (tl ch)" "length ch = Suc (utf8_tail (hd ch))"
  using assms by (auto simp: utf8_char_def split: list.splits)

lemma name_char_segment: "name_char uni ch \<Longrightarrow> is_name_segment_char uni ch"
  by (cases ch) (auto simp: name_char_def is_name_segment_char_def is_alphanumeric_def ident_byte_def split: if_splits)

lemma white_space_chars: "w \<in> set white_space \<Longrightarrow> utf8_char w"
proof -
  have "list_all utf8_char white_space" by code_simp
  then show "w \<in> set white_space \<Longrightarrow> utf8_char w" by (simp add: list_all_iff)
qed

text \<open>Two characters at the start, or at the end, of one string are the same.\<close>

lemma utf8_char_prefix: "utf8_char a \<Longrightarrow> utf8_char b \<Longrightarrow> a @ r = b @ t \<Longrightarrow> a = b"
  using utf8_charD(1,4) [of a] utf8_charD(1,4) [of b] by (metis append_eq_append_conv hd_append2)

lemma utf8_char_suffix:
  assumes "utf8_char a" "utf8_char b" "r @ a = t @ b"
  shows "a = b"
proof -
  have inner: "x = y" if x: "utf8_char x" and y: "utf8_char y" and e: "x = us @ y" for x y us
  proof (cases us)
    case (Cons c cs)
    with e have "y \<noteq> []" "hd y \<in> set (tl x)" using utf8_charD(1) [OF y] by auto
    with utf8_charD(3) [OF x] utf8_charD(2) [OF y] show ?thesis by (auto simp: list_all_iff)
  qed (use e in simp)
  from assms(3) obtain us where "r @ us = t \<and> a = us @ b \<or> r = t @ us \<and> us @ a = b" by (auto simp: append_eq_append_conv2)
  with inner assms(1,2) show ?thesis by metis
qed

lemma identifier_ends:
  assumes "is_identifier uni s"
  obtains a r q b where "s = a @ r" "name_char uni a" "s = q @ b" "name_char uni b"
proof -
  from assms have ne: "utf8_chars s \<noteq> []" and all: "list_all (name_char uni) (utf8_chars s)" by (simp_all add: is_identifier_def)
  have "s = concat (utf8_chars s)" by simp
  also have "\<dots> = hd (utf8_chars s) @ concat (tl (utf8_chars s))" using ne by (cases "utf8_chars s") simp_all
  finally have 1: "s = hd (utf8_chars s) @ concat (tl (utf8_chars s))" .
  have "s = concat (butlast (utf8_chars s) @ [last (utf8_chars s)])" using ne by simp
  then have 2: "s = concat (butlast (utf8_chars s)) @ last (utf8_chars s)" by (simp del: append_butlast_last_id)
  show thesis using that [OF 1 _ 2] all ne by (simp add: list_all_iff)
qed

lemma identifier_hd: "is_identifier uni s \<Longrightarrow> s \<noteq> [] \<and> \<not> continuation (hd s)"
  by (erule identifier_ends) (auto simp: name_char_def hd_append dest: utf8_charD(1,2))

subsection \<open>The scan of a dotted name\<close>

abbreviation scan_chars :: "(string \<Rightarrow> bool) \<Rightarrow> string \<Rightarrow> nat \<Rightarrow> string list \<Rightarrow> scan \<Rightarrow> scan" where
  "scan_chars uni name i chs \<equiv> fold (boundary_step uni name) (char_indices_from i chs)"

lemma name_not_bracket: "is_name_segment_char uni ch \<Longrightarrow> \<not> opens ch \<and> \<not> closes ch"
  by (auto simp: opens_def closes_def is_name_segment_char_def is_alphanumeric_def is_ascii_alphanumeric_def)

lemma scan_ident_in:
  "list_all (is_name_segment_char uni) chs \<Longrightarrow>
    scan_chars uni name i chs \<lparr>sc_depth = 0, sc_punctuation_start = None, sc_last_boundary = b, sc_previous_was_name = True\<rparr>
    = \<lparr>sc_depth = 0, sc_punctuation_start = None, sc_last_boundary = b, sc_previous_was_name = True\<rparr>"
  by (induction chs arbitrary: i) (simp_all add: boundary_step_def name_not_bracket [of uni])

lemma scan_ident:
  assumes "is_identifier uni s" "sc_depth st = 0"
  shows "scan_chars uni name i (utf8_chars s) st =
    \<lparr>sc_depth = 0, sc_punctuation_start = None,
      sc_last_boundary = (case sc_punctuation_start st of
          Some p \<Rightarrow> (if sc_previous_was_name st \<or> ends_in_name uni (take p name) then Some (p, i) else sc_last_boundary st)
        | None \<Rightarrow> sc_last_boundary st),
      sc_previous_was_name = True\<rparr>"
proof -
  from assms(1) obtain c cs where s: "utf8_chars s = c # cs" "is_name_segment_char uni c" "list_all (is_name_segment_char uni) cs"
    by (cases "utf8_chars s") (auto simp: is_identifier_def list_all_iff dest: name_char_segment)
  with assms(2) have "boundary_step uni name (i, c) st = \<lparr>sc_depth = 0, sc_punctuation_start = None,
      sc_last_boundary = (case sc_punctuation_start st of
          Some p \<Rightarrow> (if sc_previous_was_name st \<or> ends_in_name uni (take p name) then Some (p, i) else sc_last_boundary st)
        | None \<Rightarrow> sc_last_boundary st),
      sc_previous_was_name = True\<rparr>"
    by (simp add: boundary_step_def name_not_bracket [of uni])
  with s show ?thesis by (simp add: scan_ident_in)
qed

lemma scan_punctuation:
  assumes "ch = ''.'' \<or> ch = ''*''" "sc_depth st = 0"
  shows "boundary_step uni name (i, ch) st =
    st\<lparr>sc_punctuation_start := Some (case sc_punctuation_start st of Some start \<Rightarrow> start | None \<Rightarrow> i)\<rparr>"
  using assms by (auto simp: boundary_step_def)

definition dotted_boundary :: "string list \<Rightarrow> (nat \<times> nat) option" where
  "dotted_boundary ids =
     (if length ids \<le> 1 then None
      else Some (length (str_join ''.'' (butlast ids)), Suc (length (str_join ''.'' (butlast ids)))))"

lemma chars_dot: "utf8_chars (a @ CHR ''.'' # b) = utf8_chars a @ ''.'' # utf8_chars b" if "b = [] \<or> \<not> continuation (hd b)"
  using utf8_chars_append [of "CHR ''.'' # b" a] utf8_chars_append [OF that, of "''.''"] by simp

lemma scan_dotted:
  assumes "ids \<noteq> []" "list_all (is_identifier uni) ids"
  shows "scan_chars uni name 0 (utf8_chars (str_join ''.'' ids)) scan_start =
    \<lparr>sc_depth = 0, sc_punctuation_start = None, sc_last_boundary = dotted_boundary ids, sc_previous_was_name = True\<rparr>"
  using assms
proof (induction ids rule: rev_induct)
  case (snoc x ids)
  show ?case
  proof (cases "ids = []")
    case True
    with snoc show ?thesis by (simp add: scan_ident scan_start_def dotted_boundary_def)
  next
    case False
    with snoc identifier_hd [of uni x] show ?thesis
      by (simp add: str_join_snoc chars_dot char_indices_from_append scan_ident scan_punctuation dotted_boundary_def)
  qed
qed simp

lemma boundary_names:
  assumes "ids \<noteq> []" "list_all (is_identifier uni) ids" "wildcard_suffix suf"
  shows "qualified_boundary uni (str_join ''.'' ids @ suf) = dotted_boundary ids"
proof -
  have "utf8_chars (str_join ''.'' ids @ ''.*'') = utf8_chars (str_join ''.'' ids) @ [''.'', ''*'']"
    using chars_dot [of "''*''"] by simp
  then show ?thesis using assms
    by (auto simp: qualified_boundary_def char_indices_def char_indices_from_append scan_dotted wildcard_suffix_def
        scan_punctuation)
qed

subsection \<open>A dotted name is canonical\<close>

lemma strip_start_none:
  assumes "\<And>w. w \<in> set ws \<Longrightarrow> w \<noteq> [] \<Longrightarrow> take (length w) s \<noteq> w"
  shows "strip_start ws s = s"
proof -
  have "find (\<lambda>w. w \<noteq> [] \<and> take (length w) s = w) ws = None" using assms by (auto simp: find_None_iff)
  then show ?thesis by (simp add: strip_start.simps [of ws s])
qed

lemma str_trim_chars:
  assumes "s = a @ r" "utf8_char a" "a \<notin> set white_space" and "s = q @ b" "utf8_char b" "b \<notin> set white_space"
  shows "str_trim s = s"
proof -
  have "strip_start white_space s = s"
  proof (rule strip_start_none, rule notI)
    fix w assume w: "w \<in> set white_space" "take (length w) s = w"
    then have "a @ r = w @ drop (length w) s" using assms(1) by (metis append_take_drop_id)
    from utf8_char_prefix [OF assms(2) white_space_chars [OF w(1)] this] assms(3) w(1) show False by simp
  qed
  moreover have "strip_start (map rev white_space) (rev s) = rev s"
  proof (rule strip_start_none, rule notI)
    fix v assume v: "v \<in> set (map rev white_space)" "take (length v) (rev s) = v"
    then obtain w where w: "w \<in> set white_space" "v = rev w" by auto
    have "rev s = v @ drop (length v) (rev s)" using v(2) by (metis append_take_drop_id)
    then have "q @ b = rev (drop (length v) (rev s)) @ w" using assms(4) w(2) by (metis rev_append rev_rev_ident)
    from utf8_char_suffix [OF assms(5) white_space_chars [OF w(1)] this] assms(6) w(1) show False by simp
  qed
  ultimately show ?thesis by (simp add: str_trim_def)
qed

lemma str_trim_names:
  assumes "ids \<noteq> []" "list_all (is_identifier uni) ids" "wildcard_suffix suf"
  shows "str_trim (str_join ''.'' ids @ suf) = str_join ''.'' ids @ suf" "str_join ''.'' ids @ suf \<noteq> []"
proof -
  define x xs y ys where "x = hd ids" "xs = tl ids" "y = last ids" "ys = butlast ids"
  then have ids: "ids = x # xs" "ids = ys @ [y]" "is_identifier uni x" "is_identifier uni y" using assms(1,2) by (auto simp: list_all_iff)
  obtain a r where a: "x = a @ r" "name_char uni a" using ids(3) by (rule identifier_ends)
  obtain q b where b: "y = q @ b" "name_char uni b" using ids(4) by (rule identifier_ends)
  have front: "\<exists>t. str_join ''.'' ids = a @ t" using a(1) unfolding ids(1) by (cases "xs = []") (auto simp: str_join_Cons)
  have rear: "\<exists>t. str_join ''.'' ids = t @ b" using b(1) unfolding ids(2) by (cases "ys = []") (auto simp: str_join_snoc)
  from front rear obtain t u where t: "str_join ''.'' ids = a @ t" "str_join ''.'' ids = u @ b" by blast
  have star: "utf8_char ''*''" "''*'' \<notin> set white_space" by code_simp+
  consider "suf = []" | "suf = ''.*''" using assms(3) by (auto simp: wildcard_suffix_def)
  then show "str_trim (str_join ''.'' ids @ suf) = str_join ''.'' ids @ suf"
  proof cases
    case 1
    then show ?thesis using str_trim_chars [OF t(1) _ _ t(2)] a(2) b(2) by (simp add: name_char_def)
  next
    case 2
    have "str_join ''.'' ids @ suf = a @ (t @ suf)" "str_join ''.'' ids @ suf = (str_join ''.'' ids @ ''.'') @ ''*''"
      using t(1) 2 by simp_all
    from str_trim_chars [OF this(1) _ _ this(2)] a(2) star show ?thesis by (simp add: name_char_def)
  qed
  show "str_join ''.'' ids @ suf \<noteq> []" using t(1) a(2) by (auto simp: name_char_def dest: utf8_charD)
qed

lemma segments_names:
  assumes "ids \<noteq> []" "list_all (is_identifier uni) ids" "wildcard_suffix suf"
  shows "segments_loop uni (str_join ''.'' ids @ suf) found = butlast ids @ (last ids @ suf) # found"
  using assms
proof (induction ids arbitrary: suf found rule: rev_induct)
  case (snoc x ids)
  show ?case
  proof (cases "ids = []")
    case True
    then have b: "qualified_boundary uni (x @ suf) = None"
      using boundary_names [of "[x]" uni suf] snoc.prems by (simp add: dotted_boundary_def)
    with True snoc.prems str_trim_names(2) [of "[x]" uni suf] show ?thesis by (simp add: segments_loop.simps [of uni "x @ suf"])
  next
    case False
    let ?o = "str_join ''.'' ids" and ?s = "str_join ''.'' (ids @ [x]) @ suf"
    have s: "?s = ?o @ ''.'' @ x @ suf" using False by (simp add: str_join_snoc)
    have b: "qualified_boundary uni ?s = Some (length ?o, Suc (length ?o))"
      using boundary_names [OF _ snoc.prems(2,3)] False by (simp add: dotted_boundary_def)
    have o: "str_trim ?o = ?o" "?o \<noteq> []"
      using False snoc.prems str_trim_names [of ids uni "[]"] by (simp_all add: wildcard_suffix_def)
    have t: "str_trim (x @ suf) = x @ suf" "x @ suf \<noteq> []"
      using snoc.prems str_trim_names [of "[x]" uni suf] by simp_all
    have "segments_loop uni ?s found = segments_loop uni (?o @ []) ((x @ suf) # found)"
      using b o t by (subst segments_loop.simps) (simp add: s Let_def)
    also have "\<dots> = butlast ids @ (last ids @ []) # (x @ suf) # found"
      by (rule snoc.IH) (use False snoc.prems in \<open>simp_all add: wildcard_suffix_def\<close>)
    finally show ?thesis using False by (metis append.assoc append_Cons append_Nil append_Nil2 append_butlast_last_id butlast_snoc last_snoc)
  qed
qed simp

lemma join_last: "ids \<noteq> [] \<Longrightarrow> str_join sep (butlast ids @ [last ids @ suf]) = str_join sep ids @ suf"
proof (induction ids rule: rev_induct)
  case (snoc x ids)
  then show ?case by (cases "ids = []") (simp_all add: str_join_snoc)
qed simp

lemma normalize_names:
  assumes "ids \<noteq> []" "list_all (is_identifier uni) ids" "wildcard_suffix suf"
  shows "normalize_qualified_name uni (str_join ''.'' ids @ suf) = str_join ''.'' ids @ suf"
  using segments_names [OF assms, of "[]"] str_trim_names(1) [OF assms] join_last [OF assms(1)]
  by (simp add: normalize_qualified_name_def qualified_name_segments_def)

subsection \<open>ASCII identifiers\<close>

lemma ident_text_bytes: "ident_text s \<Longrightarrow> list_all (\<lambda>c. \<not> continuation c) s"
  by (auto simp: ident_text_def list_all_iff dest: ident_byte_plain)

lemma dotted_bytes:
  "list_all ident_text ids \<Longrightarrow> wildcard_suffix suf \<Longrightarrow> list_all (\<lambda>c. \<not> continuation c) (str_join ''.'' ids @ suf)"
proof (induction ids)
  case (Cons x ids)
  then show ?case by (cases "ids = []") (auto simp: str_join_Cons ident_text_bytes)
qed (auto simp: wildcard_suffix_def)

definition graphic :: "char \<Rightarrow> bool" where
  "graphic c \<longleftrightarrow> 0x21 \<le> (of_char c :: nat) \<and> (of_char c :: nat) \<le> 0x7E"

lemma white_space_not_graphic:
  "w \<in> set white_space \<Longrightarrow> w \<noteq> [] \<and> \<not> graphic (hd w) \<and> \<not> graphic (last w)"
  by (auto simp: white_space_def graphic_def)

lemma strip_start_same:
  assumes "\<And>w. w \<in> set ws \<Longrightarrow> w \<noteq> [] \<Longrightarrow> s \<noteq> [] \<Longrightarrow> hd w \<noteq> hd s"
  shows "strip_start ws s = s"
proof (rule strip_start_none, rule notI)
  fix w assume w: "w \<in> set ws" "w \<noteq> []" "take (length w) s = w"
  then have "s \<noteq> []" by auto
  moreover from this have "hd w = hd s" using w(2,3) by (metis hd_take length_greater_0_conv)
  ultimately show False using assms w by blast
qed

lemma str_trim_graphic:
  assumes "s \<noteq> [] \<Longrightarrow> graphic (hd s) \<and> graphic (last s)"
  shows "str_trim s = s"
proof -
  have "strip_start white_space s = s"
    by (rule strip_start_same) (use assms white_space_not_graphic in metis)
  moreover have "strip_start (map rev white_space) (rev s) = rev s"
  proof (rule strip_start_same)
    fix w assume "w \<in> set (map rev white_space)" "w \<noteq> []" "rev s \<noteq> []"
    moreover from this obtain v where "v \<in> set white_space" "w = rev v" by auto
    ultimately show "hd w \<noteq> hd (rev s)" using assms white_space_not_graphic [of v] by (auto simp: hd_rev)
  qed
  ultimately show ?thesis by (simp add: str_trim_def)
qed

text \<open>A string with nothing to trim at its ends is evaluated without the table of white space.\<close>

lemma str_trim_code [code]:
  "str_trim s = (if s = [] \<or> graphic (hd s) \<and> graphic (last s) then s
     else rev (strip_start (map rev white_space) (rev (strip_start white_space s))))"
  using str_trim_graphic [of s] by (auto simp: str_trim_def)

lemma ident_byte_graphic: "ident_byte c \<Longrightarrow> graphic c"
  using ident_byte_code by (fastforce simp: graphic_def)

lemma dotted_ends:
  assumes "ids \<noteq> []" "list_all ident_text ids" "wildcard_suffix suf"
  shows "str_join ''.'' ids @ suf \<noteq> []" "ident_byte (hd (str_join ''.'' ids @ suf))"
    "graphic (last (str_join ''.'' ids @ suf))"
proof -
  have "str_join ''.'' ids \<noteq> [] \<and> ident_byte (hd (str_join ''.'' ids)) \<and> ident_byte (last (str_join ''.'' ids))"
    using assms(1,2)
  proof (induction ids)
    case (Cons x ids)
    then have "x \<noteq> []" "ident_byte (hd x)" "ident_byte (last x)" by (auto simp: ident_text_def list_all_iff)
    with Cons show ?case by (cases "ids = []") (auto simp: str_join_Cons)
  qed simp
  with assms(3) show "str_join ''.'' ids @ suf \<noteq> []" "ident_byte (hd (str_join ''.'' ids @ suf))"
    "graphic (last (str_join ''.'' ids @ suf))"
    by (auto simp: wildcard_suffix_def ident_byte_graphic) (auto simp: graphic_def)
qed

lemma ident_text_identifier: "ident_text s \<Longrightarrow> is_identifier uni s"
proof -
  assume s: "ident_text s"
  have "name_char uni [c]" if "ident_byte c" for c
  proof -
    have "(of_char c :: nat) < 0xC0" using ident_byte_code [OF that] by linarith
    then have "utf8_char [c]" using ident_byte_plain(1) [OF that] by (simp add: utf8_char_def utf8_tail_def Let_def)
    moreover have "[c] \<notin> set white_space" using white_space_not_graphic [of "[c]"] ident_byte_graphic [OF that] by auto
    ultimately show ?thesis using that by (simp add: name_char_def)
  qed
  with s show ?thesis by (auto simp: is_identifier_def ident_text_chars list_all_iff) (auto simp: ident_text_def list_all_iff)
qed

lemma ident_texts_identifiers: "list_all ident_text ids \<Longrightarrow> list_all (is_identifier uni) ids"
  by (auto simp: list_all_iff intro: ident_text_identifier)

lemmas boundary_dotted = boundary_names [OF _ ident_texts_identifiers]
  and str_trim_dotted = str_trim_names(1) [OF _ ident_texts_identifiers]
  and normalize_dotted = normalize_names [OF _ ident_texts_identifiers]

section \<open>The suffix of a declaration\<close>

lemma match_indices_bound:
  "j \<in> set (match_indices_from p i s) \<Longrightarrow> i \<le> j \<and> j + length p \<le> i + length s"
proof (induction p i s rule: match_indices_from.induct)
  case (1 p i s)
  show ?case
  proof (cases "s = [] \<or> p = []")
    case True
    with 1(3) show ?thesis by (simp add: match_indices_from.simps)
  next
    case False
    show ?thesis
    proof (cases "take (length p) s = p")
      case True
      then have "length p \<le> length s" by (metis length_take min.cobounded1)
      with True False 1 show ?thesis by (auto simp: match_indices_from.simps [of p i s])
    next
      case ne: False
      moreover from False have "Suc (length s - Suc 0) = length s" by simp
      ultimately show ?thesis using False 1(2,3) by (auto simp: match_indices_from.simps [of p i s] simp del: Suc_diff_Suc)
    qed
  qed
qed

lemma match_indices_sorted: "sorted_wrt (<) (match_indices_from p i s)"
proof (induction p i s rule: match_indices_from.induct)
  case (1 p i s)
  show ?case
  proof (cases "s = [] \<or> p = [] \<or> take (length p) s \<noteq> p")
    case True
    with 1 show ?thesis by (subst match_indices_from.simps) auto
  next
    case False
    then have "0 < length p" by simp
    then have "i < j" if "j \<in> set (match_indices_from p (i + length p) (drop (length p) s))" for j
      using match_indices_bound [OF that] by linarith
    with False 1 show ?thesis by (subst match_indices_from.simps) simp
  qed
qed

definition name_text :: "(string \<Rightarrow> bool) \<Rightarrow> string \<Rightarrow> bool" where
  "name_text uni d \<longleftrightarrow> d \<noteq> [] \<and> \<not> continuation (hd d) \<and> list_all (is_name_segment_char uni) (utf8_chars d)"

text \<open>
  Two occurrences of a name without punctuation that overlap are not both aligned: the character before the second is one of
  the name.
\<close>

lemma overlap_inside_name:
  assumes d: "name_text uni d" and pre: "d = pre @ d2" "pre \<noteq> []" "d2 @ r = d"
  shows "\<not> ends_at_qualified_name_boundary uni (past @ pre)"
proof -
  from pre d have "hd pre = hd d" "d2 \<noteq> [] \<Longrightarrow> hd d2 = hd d"
    by (metis hd_append2)+
  with d have hd: "\<not> continuation (hd pre)" "d2 = [] \<or> \<not> continuation (hd d2)"
    by (auto simp: name_text_def)
  have "utf8_chars d = utf8_chars pre @ utf8_chars d2" unfolding pre(1) by (rule utf8_chars_append [OF hd(2)])
  then have "last (utf8_chars pre) \<in> set (utf8_chars d)" using pre(2) by simp
  with d have "is_name_segment_char uni (last (utf8_chars pre))" by (auto simp: name_text_def list_all_iff)
  moreover have "utf8_chars (past @ pre) = utf8_chars past @ utf8_chars pre"
    by (rule utf8_chars_append) (use hd in simp)
  ultimately show ?thesis using pre(2) by (simp add: ends_at_qualified_name_boundary_def)
qed

lemma aligned_suffix_found:
  assumes "name_text uni d" "s = pre @ d"
    "past @ pre = [] \<or> ends_at_qualified_name_boundary uni (past @ pre)"
  shows "i + length pre \<in> set (match_indices_from d i s)"
  using assms
proof (induction d i s arbitrary: pre past rule: match_indices_from.induct)
  case (1 d i s)
  from 1(3,4) have ne: "s \<noteq> []" "d \<noteq> []" by (auto simp: name_text_def)
  show ?case
  proof (cases "take (length d) s = d")
    case True
    consider "pre = []" | "length d \<le> length pre" | "pre \<noteq> []" "length pre < length d" by linarith
    then show ?thesis
    proof cases
      case 1
      with True ne show ?thesis by (simp add: match_indices_from.simps [of d i s])
    next
      case 2
      let ?pre = "drop (length d) pre"
      have "take (length d) pre = d" using True "1.prems"(2) 2 by simp
      then have pre: "pre = d @ ?pre" by (metis append_take_drop_id)
      then have "i + length d + length ?pre \<in> set (match_indices_from d (i + length d) (drop (length d) s))"
        using "1.prems" ne True 2 by (intro "1.IH"(1) [where past = "past @ d"]) auto
      moreover have "i + length pre = i + length d + length ?pre" using 2 by simp
      moreover have "match_indices_from d i s = i # match_indices_from d (i + length d) (drop (length d) s)"
        using True ne by (subst match_indices_from.simps) simp
      ultimately show ?thesis by (metis list.set_intros(2))
    next
      case 3
      let ?d2 = "drop (length pre) d"
      have "take (length pre) d = pre"
        using arg_cong [OF True, of "take (length pre)"] "1.prems"(2) 3(2) by (simp add: min_def)
      then have d: "d = pre @ ?d2" by (metis append_take_drop_id)
      have "?d2 @ drop (length d) s = d"
      proof -
        have "pre @ d = d @ drop (length d) s" using True "1.prems"(2) by (metis append_take_drop_id)
        also have "\<dots> = pre @ ?d2 @ drop (length d) s" using d by (metis append.assoc)
        finally show ?thesis by (simp only: same_append_eq)
      qed
      from overlap_inside_name [OF "1.prems"(1) d 3(1) this] "1.prems"(3) 3(1) show ?thesis by simp
    qed
  next
    case False
    with "1.prems"(2) obtain c cs where pre: "pre = c # cs" by (cases pre) auto
    then have "i + 1 + length cs \<in> set (match_indices_from d (i + 1) (drop 1 s))"
      using "1.prems" ne False by (intro "1.IH"(2) [where past = "past @ [c]"]) auto
    with False ne pre show ?thesis by (subst match_indices_from.simps) simp
  qed
qed

lemma suffix_search_last:
  assumes d: "name_text uni d" and q: "q = pre @ d" and edge: "pre = [] \<or> ends_at_qualified_name_boundary uni pre"
  shows "suffix_search uni d q = Some d"
proof -
  let ?ms = "filter (aligned uni d q) (match_indices_from d 0 q)"
  have "length pre \<in> set (match_indices_from d 0 q)"
    using aligned_suffix_found [OF d q, of "[]" 0] edge by simp
  moreover have "aligned uni d q (length pre)" using q edge by (auto simp: aligned_def Let_def)
  ultimately have mem: "length pre \<in> set ?ms" by simp
  have sorted: "sorted_wrt (<) ?ms" by (rule sorted_wrt_filter [OF match_indices_sorted])
  have "last ?ms = length pre"
  proof (rule ccontr)
    assume "last ?ms \<noteq> length pre"
    from mem obtain xs ys where split: "?ms = xs @ length pre # ys" by (meson split_list)
    with \<open>last ?ms \<noteq> length pre\<close> have "ys \<noteq> []" by auto
    with sorted split have "length pre < last ?ms" by (auto simp: sorted_wrt_append)
    moreover have "last ?ms \<in> set ?ms" using mem by (metis empty_iff last_in_set list.set(1))
    then have "last ?ms \<in> set (match_indices_from d 0 q)" by simp
    then have "last ?ms + length d \<le> length q" using match_indices_bound [of "last ?ms" d 0 q] by simp
    ultimately show False using q by simp
  qed
  moreover have "?ms \<noteq> []" using mem by (metis empty_iff empty_set)
  ultimately show ?thesis using q by (auto simp: suffix_search_def split: list.split)
qed

section \<open>Properties\<close>

text \<open>
  C23: the segments of identifiers joined by dots are the identifiers, the canonical form of such a name is the
  name itself, and it splits into its owner and its last identifier; the wildcard below a name is canonical too.
  An identifier is any non-empty string of well-formed UTF-8 characters, of one or more bytes, that are underscores or
  alphanumeric (for characters beyond ASCII, in the table \<open>uni\<close>) and not white space.
\<close>

theorem dotted_name_roundtrip:
  assumes "ids \<noteq> []" "list_all (is_identifier uni) ids"
  shows "qualified_name_segments uni (str_join ''.'' ids) = ids
    \<and> normalize_qualified_name uni (str_join ''.'' ids) = str_join ''.'' ids
    \<and> normalize_qualified_name uni (str_join ''.'' ids @ ''.*'') = str_join ''.'' ids @ ''.*''
    \<and> split_qualified_name_owner_tail uni (str_join ''.'' ids)
      = (if length ids = 1 then None else Some (str_join ''.'' (butlast ids), last ids))"
proof -
  have w: "wildcard_suffix []" "wildcard_suffix ''.*''" by (simp_all add: wildcard_suffix_def)
  have t: "str_trim (str_join ''.'' ids) = str_join ''.'' ids" using str_trim_names(1) [OF assms w(1)] by simp
  have b: "qualified_boundary uni (str_join ''.'' ids) = dotted_boundary ids"
    using boundary_names [OF assms w(1)] by simp
  have "split_qualified_name_owner_tail uni (str_join ''.'' ids)
      = (if length ids = 1 then None else Some (str_join ''.'' (butlast ids), last ids))"
  proof (cases "length ids = 1")
    case True
    with b t show ?thesis
      by (simp add: split_qualified_name_owner_tail_def qualified_name_owner_def dotted_boundary_def Let_def)
  next
    case False
    define os x where "os = butlast ids" and "x = last ids"
    with assms(1) have ids: "ids = os @ [x]" by simp
    with False have os: "os \<noteq> []" by auto
    have ids_ok: "list_all (is_identifier uni) os" "list_all (is_identifier uni) [x]" using assms(2) ids by simp_all
    have "str_trim (str_join ''.'' os) = str_join ''.'' os" "str_join ''.'' os \<noteq> []" "str_trim x = x" "x \<noteq> []"
      using str_trim_names [OF os ids_ok(1) w(1)] str_trim_names [OF _ ids_ok(2) w(1)] by simp_all
    with b t os show ?thesis
      by (simp add: ids split_qualified_name_owner_tail_def qualified_name_owner_def short_qualified_tail_def
          dotted_boundary_def str_join_snoc)
  qed
  with segments_names [OF assms w(1), of "[]"] normalize_names [OF assms w(1)]
    normalize_names [OF assms w(2)] t assms(1)
  show ?thesis by (simp add: qualified_name_segments_def)
qed

text \<open>The name of a field with an accent, whose last character is two bytes.\<close>

definition accented :: string where
  "accented = ''caf'' @ [char_of (0xC3 :: nat), char_of (0xA9 :: nat)]"

theorem dotted_name_roundtrip_witness:
  "list_all (is_identifier (\<lambda>ch. length ch = 2)) [''obj'', accented] \<and> length (utf8_chars accented) = 4
    \<and> qualified_name_segments (\<lambda>ch. length ch = 2) (''obj.'' @ accented) = [''obj'', accented]
    \<and> split_qualified_name_owner_tail (\<lambda>ch. length ch = 2) (''obj.'' @ accented) = Some (''obj'', accented)"
proof -
  have ok: "list_all (is_identifier (\<lambda>ch. length ch = 2)) [''obj'', accented]" "length (utf8_chars accented) = 4" by code_simp+
  from dotted_name_roundtrip [OF _ ok(1)] ok show ?thesis by simp
qed

text \<open>
  For a declaration name without punctuation, the fast path of \<^verbatim>\<open>declaration_qualified_suffix\<close> returns what
  the general search returns, so the function is that search.
\<close>

theorem suffix_paths_agree:
  assumes "name_text uni (str_trim decl_name)"
  shows "declaration_qualified_suffix uni decl_name qualified_name
    = (if str_trim qualified_name = [] then None
       else suffix_search uni (str_trim decl_name) (str_trim qualified_name))"
proof -
  define d q where "d = str_trim decl_name" and "q = str_trim qualified_name"
  have d: "name_text uni d" "d \<noteq> []" using assms by (simp_all add: d_def name_text_def)
  have fast: "suffix_search uni d q = Some (drop (length pre) q)"
    if "str_strip_suffix d q = Some pre" "pre = [] \<or> ends_at_qualified_name_boundary uni pre" for pre
  proof -
    have q: "q = pre @ d" using that(1) by (auto simp: str_strip_suffix_def Let_def split: if_splits) (metis append_take_drop_id)
    then show ?thesis using suffix_search_last [OF d(1) q that(2)] by simp
  qed
  show ?thesis
  proof (cases "str_strip_suffix d q")
    case None
    with d show ?thesis by (simp add: declaration_qualified_suffix_def flip: d_def q_def)
  next
    case (Some pre)
    with d fast [OF Some] show ?thesis by (simp add: declaration_qualified_suffix_def flip: d_def q_def)
  qed
qed

theorem suffix_paths_agree_witness:
  "name_text (\<lambda>_. False) (str_trim ''run'')
    \<and> declaration_qualified_suffix (\<lambda>_. False) ''run'' ''runner.run'' = suffix_search (\<lambda>_. False) ''run'' ''runner.run''"
proof -
  have ok: "name_text (\<lambda>_. False) (str_trim ''run'')" "str_trim ''run'' = ''run''" "str_trim ''runner.run'' = ''runner.run''"
    by code_simp+
  from suffix_paths_agree [OF ok(1), of "''runner.run''"] ok show ?thesis by simp
qed

text \<open>
  With punctuation in the declaration name the two searches differ: occurrences may overlap, and the general search takes the
  leftmost of two that do.
\<close>

lemma suffix_paths_differ:
  "declaration_qualified_suffix (\<lambda>_. False) ''a.a'' ''a.a.a'' = Some ''a.a''"
  "suffix_search (\<lambda>_. False) ''a.a'' ''a.a.a'' = Some ''a.a.a''"
  by code_simp+

end
