(* ===== verification/Taint_Text.thy ===== *)
theory Taint_Text
  imports Qualified_Names
begin

text \<open>
  How the taint passes read the names an adapter emits: \<^verbatim>\<open>crates/taint/src/text.rs\<close> and
  \<^verbatim>\<open>crates/taint/src/tokens.rs\<close>. A taint state is the set of the tainted names; \<open>obj.*\<close> in it
  taints everything below \<open>obj\<close>.

  Shown: every question asked of a state is monotone in it, and canonical places are fixed by the
  normalisers.
\<close>

type_synonym token_set = "string set"

section \<open>Names in taint facts\<close>

definition normalise_qualified_text :: "(string \<Rightarrow> bool) \<Rightarrow> string \<Rightarrow> string" where
  "normalise_qualified_text uni text =
     normalize_qualified_name uni (trim_leading_name_punctuation uni (str_trim text))"

definition base_char :: "string \<Rightarrow> bool" where
  "base_char ch \<longleftrightarrow> ch \<in> {''.'', ''_'', ''$'', ''@'', ''%''} \<or> is_ascii_alphanumeric ch"

text \<open>\<^verbatim>\<open>split_once\<close> and \<^verbatim>\<open>rsplit_once\<close> at one character.\<close>

definition split_once :: "char \<Rightarrow> string \<Rightarrow> (string \<times> string) option" where
  "split_once c s =
     (if c \<in> set s then Some (takeWhile (\<lambda>x. x \<noteq> c) s, drop 1 (dropWhile (\<lambda>x. x \<noteq> c) s)) else None)"

definition rsplit_once :: "char \<Rightarrow> string \<Rightarrow> (string \<times> string) option" where
  "rsplit_once c s = map_option (\<lambda>(a, b). (rev b, rev a)) (split_once c (rev s))"

definition push_qualified_base :: "(string \<Rightarrow> bool) \<Rightarrow> string \<Rightarrow> string list \<Rightarrow> string list" where
  "push_qualified_base uni segment bases =
     (case split_once (CHR ''.'') segment of
        None \<Rightarrow> bases
      | Some (base0, _) \<Rightarrow>
          (let base1 = str_trim base0 in
           if base1 = [] then bases
           else let base = trim_start_matches (is_name_punctuation uni) base1 in
             if base = [] then bases
             else
               (let bases = (if base \<in> set bases then bases else bases @ [base]);
                    sigil_stripped = trim_start_matches (is_name_punctuation uni) base
                in if sigil_stripped \<noteq> base \<and> sigil_stripped \<noteq> [] \<and> sigil_stripped \<notin> set bases
                   then bases @ [sigil_stripped] else bases)))"

fun collect_bases_loop :: "(string \<Rightarrow> bool) \<Rightarrow> string list \<Rightarrow> string \<Rightarrow> string list \<Rightarrow> string list" where
  "collect_bases_loop uni [] segment bases = bases"
| "collect_bases_loop uni (ch # chs) segment bases =
     (if base_char ch then collect_bases_loop uni chs (segment @ ch) bases
      else collect_bases_loop uni chs [] (push_qualified_base uni segment bases))"

definition collect_qualified_access_bases :: "(string \<Rightarrow> bool) \<Rightarrow> string \<Rightarrow> string list \<Rightarrow> string list" where
  "collect_qualified_access_bases uni text bases = collect_bases_loop uni (utf8_chars text @ ['' '']) [] bases"

definition qualified_access_bases :: "(string \<Rightarrow> bool) \<Rightarrow> string \<Rightarrow> string list" where
  "qualified_access_bases uni text = collect_qualified_access_bases uni (normalise_qualified_text uni text) []"

definition text_looks_qualified :: "(string \<Rightarrow> bool) \<Rightarrow> string \<Rightarrow> bool" where
  "text_looks_qualified uni text \<longleftrightarrow> qualified_name_owner uni (str_trim text) \<noteq> None"

text \<open>The loop after the opening quote; \<open>escaped\<close> is the flag of the source.\<close>

fun literal_loop :: "string \<Rightarrow> nat \<Rightarrow> (nat \<times> string) list \<Rightarrow> bool \<Rightarrow> bool" where
  "literal_loop quote len [] escaped = False"
| "literal_loop quote len ((offset, ch) # chs) escaped =
     (if escaped then literal_loop quote len chs False
      else if ch = [CHR 0x5C] then literal_loop quote len chs True
      else if ch = quote then offset + length ch = len
      else literal_loop quote len chs False)"

definition is_quoted_literal :: "string \<Rightarrow> bool" where
  "is_quoted_literal text =
     (let trimmed = str_trim text in
      case char_indices trimmed of
        [] \<Rightarrow> False
      | (_, quote) # chs \<Rightarrow>
          (if quote = [CHR 0x22] \<or> quote = [CHR 0x27] \<or> quote = [CHR 0x60]
           then literal_loop quote (length trimmed) chs False else False))"

section \<open>Questions to a state\<close>

definition canonical_bare_name :: "(string \<Rightarrow> bool) \<Rightarrow> string \<Rightarrow> string" where
  "canonical_bare_name uni text =
     str_trim (trim_start_matches (is_name_punctuation uni) (normalise_qualified_text uni text))"

definition push_distinct :: "(string \<Rightarrow> bool) \<Rightarrow> string \<Rightarrow> string list \<Rightarrow> string list" where
  "push_distinct uni name0 distinct_names =
     (let name = str_trim name0 in
      if name = [] \<or> is_quoted_literal name then distinct_names
      else let canonical = canonical_bare_name uni name in
        if canonical = [] \<or> canonical \<in> set distinct_names then distinct_names
        else distinct_names @ [canonical])"

definition rhs_has_descendant_shape :: "(string \<Rightarrow> bool) \<Rightarrow> string list \<Rightarrow> bool" where
  "rhs_has_descendant_shape uni source_names \<longleftrightarrow> 1 < length (fold (push_distinct uni) source_names [])"

definition wildcard_matches :: "(string \<Rightarrow> bool) \<Rightarrow> string \<Rightarrow> string \<Rightarrow> bool" where
  "wildcard_matches uni normalised_text seed \<longleftrightarrow>
     (case str_strip_suffix ''.*'' seed of
        None \<Rightarrow> False
      | Some prefix0 \<Rightarrow>
          (let prefix = normalise_qualified_text uni prefix0 in
           prefix \<noteq> []
           \<and> (normalised_text = prefix
              \<or> (case str_strip_prefix prefix normalised_text of
                   Some rest \<Rightarrow> take 1 rest = ''.''
                 | None \<Rightarrow> False))))"

definition qualified_wildcard_seed_matches :: "(string \<Rightarrow> bool) \<Rightarrow> string \<Rightarrow> token_set \<Rightarrow> bool" where
  "qualified_wildcard_seed_matches uni normalised_text state \<longleftrightarrow> (\<exists>seed \<in> state. wildcard_matches uni normalised_text seed)"

definition projection_char :: "string \<Rightarrow> bool" where
  "projection_char ch \<longleftrightarrow>
     ch \<in> {''.'', ''_'', ''$'', ''@'', ''%'', '']'', ''['', [CHR 0x27], [CHR 0x22]} \<or> is_ascii_alphanumeric ch"

text \<open>The candidate before an opening parenthesis: the longest run of projection characters that ends there.\<close>

definition call_candidate :: "string \<Rightarrow> string" where
  "call_candidate before_call = str_trim (concat (rev (takeWhile projection_char (rev (utf8_chars before_call)))))"

definition projection_tainted_at :: "(string \<Rightarrow> bool) \<Rightarrow> string \<Rightarrow> token_set \<Rightarrow> nat \<Rightarrow> bool" where
  "projection_tainted_at uni text state open_paren \<longleftrightarrow>
     (case rsplit_once (CHR ''.'') (call_candidate (str_trim_end (take open_paren text))) of
        None \<Rightarrow> False
      | Some (receiver0, method) \<Rightarrow>
          str_trim receiver0 \<noteq> [] \<and> str_trim method \<noteq> []
          \<and> (let receiver = normalise_qualified_text uni receiver0 in
             receiver \<noteq> [] \<and> (receiver \<in> state \<or> qualified_wildcard_seed_matches uni receiver state)))"

definition receiver_method_projection_in_text_is_tainted :: "(string \<Rightarrow> bool) \<Rightarrow> string \<Rightarrow> token_set \<Rightarrow> bool" where
  "receiver_method_projection_in_text_is_tainted uni text state \<longleftrightarrow>
     list_ex (projection_tainted_at uni text state) (match_indices_from ''('' 0 text)"

definition receiver_method_projection_is_tainted :: "(string \<Rightarrow> bool) \<Rightarrow> string \<Rightarrow> token_set \<Rightarrow> bool \<Rightarrow> bool" where
  "receiver_method_projection_is_tainted uni text state normalize_scoped_names \<longleftrightarrow>
     receiver_method_projection_in_text_is_tainted uni text state
     \<or> normalize_scoped_names
       \<and> (let normalised = normalize_qualified_name uni (normalise_qualified_text uni text) in
          normalised \<noteq> text \<and> receiver_method_projection_in_text_is_tainted uni normalised state)"

section \<open>Monotonicity\<close>

lemma wildcard_mono:
  "A \<subseteq> B \<Longrightarrow> qualified_wildcard_seed_matches uni s A \<Longrightarrow> qualified_wildcard_seed_matches uni s B"
  by (auto simp: qualified_wildcard_seed_matches_def)

lemma projection_at_mono:
  "A \<subseteq> B \<Longrightarrow> projection_tainted_at uni s A i \<Longrightarrow> projection_tainted_at uni s B i"
  using wildcard_mono [of A B uni]
  by (auto simp: projection_tainted_at_def Let_def split: option.splits prod.splits)

lemma receiver_projection_mono:
  "A \<subseteq> B \<Longrightarrow> receiver_method_projection_is_tainted uni s A b \<Longrightarrow> receiver_method_projection_is_tainted uni s B b"
  unfolding receiver_method_projection_is_tainted_def receiver_method_projection_in_text_is_tainted_def list_ex_iff Let_def
  using projection_at_mono [of A B uni] by blast

section \<open>Canonical places\<close>

text \<open>A place is \<open>canonical\<close> if it is identifiers joined by dots, possibly with the wildcard at its end.\<close>

definition canonical :: "string \<Rightarrow> bool" where
  "canonical s \<longleftrightarrow> dotted s \<or> (case str_strip_suffix ''.*'' s of Some p \<Rightarrow> dotted p | None \<Rightarrow> False)"

lemma ident_text_no_dot: "ident_text p \<Longrightarrow> CHR ''.'' \<notin> set p"
  by (auto simp: ident_text_def list_all_iff dest: ident_byte_plain)

lemma dotted_iff: "dotted s \<longleftrightarrow> (\<exists>ids. ids \<noteq> [] \<and> list_all ident_text ids \<and> s = str_join ''.'' ids)"
proof
  assume "dotted s"
  then show "\<exists>ids. ids \<noteq> [] \<and> list_all ident_text ids \<and> s = str_join ''.'' ids"
    unfolding dotted_def by (intro exI [of _ "str_split (CHR ''.'') s"]) (simp add: str_join_split)
next
  assume "\<exists>ids. ids \<noteq> [] \<and> list_all ident_text ids \<and> s = str_join ''.'' ids"
  then obtain ids where "ids \<noteq> []" "list_all ident_text ids" "s = str_join ''.'' ids" by blast
  moreover from this have "str_split (CHR ''.'') s = ids"
    by (simp add: str_split_join list.pred_mono_strong [OF _ ident_text_no_dot])
  ultimately show "dotted s" by (simp add: dotted_def)
qed

lemma strip_suffix_Some: "str_strip_suffix p s = Some r \<longleftrightarrow> s = r @ p"
  by (auto simp: str_strip_suffix_def Let_def split: if_splits) (metis append_take_drop_id)+

lemma strip_prefix_Some: "str_strip_prefix p s = Some r \<longleftrightarrow> s = p @ r"
  by (auto simp: str_strip_prefix_def split: if_splits) (metis append_take_drop_id)

lemma canonicalE:
  assumes "canonical s"
  obtains ids suf where "ids \<noteq> []" "list_all ident_text ids" "wildcard_suffix suf" "s = str_join ''.'' ids @ suf"
proof -
  from assms consider "dotted s" | p where "dotted p" "s = p @ ''.*''"
    by (auto simp: canonical_def strip_suffix_Some split: option.splits)
  then show ?thesis
  proof cases
    case 1
    then show ?thesis using that [of _ "[]"] by (auto simp: dotted_iff wildcard_suffix_def)
  next
    case 2
    then show ?thesis using that [of _ "''.*''"] by (auto simp: dotted_iff wildcard_suffix_def)
  qed
qed

lemma canonicalI:
  "ids \<noteq> [] \<Longrightarrow> list_all ident_text ids \<Longrightarrow> wildcard_suffix suf \<Longrightarrow> canonical (str_join ''.'' ids @ suf)"
proof -
  assume ids: "ids \<noteq> []" "list_all ident_text ids" "wildcard_suffix suf"
  then have "dotted (str_join ''.'' ids)" by (auto simp: dotted_iff)
  moreover have "str_strip_suffix ''.*'' (str_join ''.'' ids @ ''.*'') = Some (str_join ''.'' ids)"
    by (simp add: strip_suffix_Some)
  ultimately show ?thesis using ids(3) by (auto simp: canonical_def wildcard_suffix_def)
qed

lemma dotted_canonical: "dotted s \<Longrightarrow> canonical s"
  by (simp add: canonical_def)

lemma canonical_hd: "canonical s \<Longrightarrow> s \<noteq> [] \<and> ident_byte (hd s)"
  by (erule canonicalE) (simp only: dotted_ends simp_thms not_False_eq_True)

lemma trim_start_canonical:
  assumes "canonical s"
  shows "trim_start_matches (is_name_punctuation uni) s = s"
proof -
  from assms obtain ids suf where s: "list_all ident_text ids" "wildcard_suffix suf" "s = str_join ''.'' ids @ suf"
    by (rule canonicalE)
  have c: "utf8_chars s = map (\<lambda>c. [c]) s" unfolding s(3) by (rule utf8_chars_bytes [OF dotted_bytes [OF s(1,2)]])
  from canonical_hd [OF assms] obtain x xs where "s = x # xs" "ident_byte x" by (cases s) auto
  with c show ?thesis by (simp add: trim_start_matches_def is_name_punctuation_def ident_byte_name concat_map_singleton)
qed

lemma str_trim_canonical: "canonical s \<Longrightarrow> str_trim s = s"
  by (erule canonicalE) (simp add: str_trim_dotted)

lemma normalise_canonical: "canonical s \<Longrightarrow> normalise_qualified_text uni s = s"
  using trim_start_canonical [of s uni]
  by (frule_tac str_trim_canonical, elim canonicalE)
    (simp add: normalise_qualified_text_def trim_leading_name_punctuation_def normalize_dotted canonicalI)

lemma canonical_bare_canonical: "canonical s \<Longrightarrow> canonical_bare_name uni s = s"
  by (simp add: canonical_bare_name_def normalise_canonical trim_start_canonical str_trim_canonical)

lemmas canonical_simps = str_trim_canonical trim_start_canonical normalise_canonical canonical_bare_canonical

text \<open>A dotted place looks qualified exactly when it has a dot.\<close>

lemma looks_qualified_dotted:
  assumes "dotted s"
  shows "text_looks_qualified uni s \<longleftrightarrow> CHR ''.'' \<in> set s"
proof -
  from assms obtain ids where ids: "ids \<noteq> []" "list_all ident_text ids" "s = str_join ''.'' ids"
    by (auto simp: dotted_iff)
  have b: "qualified_boundary uni s = dotted_boundary ids"
    using boundary_dotted [OF ids(1,2), of "[]" uni] ids(3) by (simp add: wildcard_suffix_def)
  have t: "str_trim s = s" by (rule str_trim_canonical [OF dotted_canonical [OF assms]])
  show ?thesis
  proof (cases "length ids = 1")
    case True
    then obtain x where "ids = [x]" by (cases ids) auto
    with ids b t show ?thesis
      by (simp add: text_looks_qualified_def qualified_name_owner_def dotted_boundary_def ident_text_no_dot)
  next
    case False
    define os x where "os = butlast ids" and "x = last ids"
    with ids(1) have split: "ids = os @ [x]" by simp
    with False have os: "os \<noteq> []" by auto
    with ids(2) split have "canonical (str_join ''.'' os)" by (auto intro!: dotted_canonical simp: dotted_iff)
    then have "str_trim (str_join ''.'' os) = str_join ''.'' os" "str_join ''.'' os \<noteq> []"
      using str_trim_canonical canonical_hd by blast+
    with b t os show ?thesis unfolding ids(3) split
      by (simp add: text_looks_qualified_def qualified_name_owner_def dotted_boundary_def str_join_snoc)
  qed
qed

end
