(* ===== verification/Taint_Assign.thy ===== *)
theory Taint_Assign
  imports Taint_Text Flow_Lowering
begin

text \<open>
  The assign-chain pass of \<^verbatim>\<open>crates/taint/src/assignment.rs\<close>: one walk over an event tree that
  follows assignments from tainted names, with loops iterated until the state has stopped growing.

  Shown: the pass returns on every tree, for the state only grows and only by names the tree
  mentions; after the lowering of deferred scopes its result contains what the copies along any
  execution taint. Two evaluated examples show where the documentation of the pass overstates it: more taint before an
  assignment can mean less after it, and a deferred body is walked before the code it runs after.
\<close>

section \<open>The transfer of an assignment\<close>

definition chain_text_is_tainted :: "(string \<Rightarrow> bool) \<Rightarrow> string \<Rightarrow> token_set \<Rightarrow> bool" where
  "chain_text_is_tainted uni text tainted \<longleftrightarrow>
     (let trimmed = str_trim text in
      trimmed \<noteq> []
      \<and> (trimmed \<in> tainted
         \<or> (let normalised = normalise_qualified_text uni trimmed in
            receiver_method_projection_is_tainted uni trimmed tainted False
            \<or> text_looks_qualified uni trimmed \<and> qualified_wildcard_seed_matches uni normalised tainted
            \<or> normalised \<noteq> trimmed \<and> normalised \<in> tainted)))"

definition actual_has_descendant_taint :: "(string \<Rightarrow> bool) \<Rightarrow> string \<Rightarrow> token_set \<Rightarrow> bool" where
  "actual_has_descendant_taint uni text tainted \<longleftrightarrow>
     (let normalised = normalise_qualified_text uni (str_trim text) in
      normalised \<noteq> [] \<and> qualified_wildcard_seed_matches uni normalised tainted)"

definition chain_insert_descendant :: "(string \<Rightarrow> bool) \<Rightarrow> string \<Rightarrow> token_set \<Rightarrow> token_set" where
  "chain_insert_descendant uni target0 tainted =
     (let target = str_trim (normalise_qualified_text uni target0) in
      if target = [] \<or> text_looks_qualified uni target \<or> str_strip_suffix ''.*'' target \<noteq> None then tainted
      else insert (target @ ''.*'') tainted)"

definition qualified_source_bases :: "(string \<Rightarrow> bool) \<Rightarrow> string list \<Rightarrow> token_set" where
  "qualified_source_bases uni source_names = set (concat (map (qualified_access_bases uni) source_names))"

definition chain_assign ::
  "(string \<Rightarrow> bool) \<Rightarrow> string \<Rightarrow> string option \<Rightarrow> string option \<Rightarrow> string list \<Rightarrow> token_set \<Rightarrow> token_set" where
  "chain_assign uni target source_name source_call source_names tainted =
     (let whole = (let tainted = insert target tainted in
                   if rhs_has_descendant_shape uni source_names
                   then chain_insert_descendant uni target tainted else tainted);
          bases = qualified_source_bases uni source_names
      in if target = [] then tainted
         else if (case source_name of Some source \<Rightarrow> chain_text_is_tainted uni source tainted | None \<Rightarrow> False) then whole
         else if list_ex (\<lambda>source. source \<noteq> [] \<and> actual_has_descendant_taint uni source tainted) source_names
         then chain_insert_descendant uni target tainted
         else if (case source_call of Some callee \<Rightarrow> chain_text_is_tainted uni callee tainted | None \<Rightarrow> False) then whole
         else if list_ex (\<lambda>name. name \<noteq> [] \<and> canonical_bare_name uni name \<notin> bases
                            \<and> chain_text_is_tainted uni name tainted) source_names then whole
         else tainted)"

section \<open>The walk\<close>

function throw_taints_catch :: "flow_event list \<Rightarrow> token_set \<Rightarrow> bool" where
  "throw_taints_catch [] tainted = False"
| "throw_taints_catch (event # events) tainted =
     ((case event of
         Throw _ (Some thrown_name) _ \<Rightarrow> thrown_name \<noteq> [] \<and> thrown_name \<in> tainted
       | Branch _ _ then_events else_events \<Rightarrow>
           throw_taints_catch then_events tainted \<or> throw_taints_catch else_events tainted
       | Loop _ _ _ condition_events update_events body \<Rightarrow>
           throw_taints_catch condition_events tainted \<or> throw_taints_catch body tainted
           \<or> throw_taints_catch update_events tainted
       | Try _ body catch_events finally_events _ _ _ \<Rightarrow>
           throw_taints_catch body tainted \<or> throw_taints_catch catch_events tainted
           \<or> throw_taints_catch finally_events tainted
       | Defer _ body \<Rightarrow> throw_taints_catch body tainted
       | Using _ body \<Rightarrow> throw_taints_catch body tainted
       | _ \<Rightarrow> False)
      \<or> throw_taints_catch events tainted)"
  by pat_completeness auto
termination
  by (relation "measure (\<lambda>(es, _). events_weight es)") auto

text \<open>The \<^verbatim>\<open>loop\<close> of the source, which stops when a round leaves the number of tainted names as it was.\<close>

partial_function (option) grow_loop :: "(token_set \<Rightarrow> token_set option) \<Rightarrow> token_set \<Rightarrow> token_set option" where
  "grow_loop round tainted = do {
     tainted' \<leftarrow> round tainted;
     if card tainted' = card tainted then Some tainted' else grow_loop round tainted'
   }"

declare grow_loop.simps [code]

function walk_events :: "(string \<Rightarrow> bool) \<Rightarrow> flow_event list \<Rightarrow> token_set \<Rightarrow> token_set option"
  and walk_taint_event :: "(string \<Rightarrow> bool) \<Rightarrow> flow_event \<Rightarrow> token_set \<Rightarrow> token_set option"
where
  "walk_events uni [] tainted = Some tainted"
| "walk_events uni (event # events) tainted = do {
     tainted \<leftarrow> walk_taint_event uni event tainted;
     walk_events uni events tainted
   }"
| "walk_taint_event uni event tainted =
     (case event of
        Assign _ target source_name source_call _ source_names _ _ \<Rightarrow>
          Some (chain_assign uni target source_name source_call source_names tainted)
      | Branch _ _ then_events else_events \<Rightarrow> do {
          then_taints \<leftarrow> walk_events uni then_events tainted;
          else_taints \<leftarrow> walk_events uni else_events tainted;
          Some (tainted \<union> then_taints \<union> else_taints)
        }
      | Loop _ loop_kind _ condition_events update_events body \<Rightarrow>
          grow_loop (\<lambda>tainted.
            if loop_kind = LkDoWhile then do {
              tainted \<leftarrow> walk_events uni body tainted;
              tainted \<leftarrow> walk_events uni update_events tainted;
              walk_events uni condition_events tainted
            } else do {
              tainted \<leftarrow> walk_events uni condition_events tainted;
              tainted \<leftarrow> walk_events uni body tainted;
              walk_events uni update_events tainted
            }) tainted
      | Try _ body catch_events finally_events catch_param _ _ \<Rightarrow> do {
          tainted \<leftarrow> walk_events uni body tainted;
          let tainted = (case catch_param of
              Some param \<Rightarrow> (if throw_taints_catch body tainted \<and> param \<noteq> [] then insert param tainted else tainted)
            | None \<Rightarrow> tainted);
          tainted \<leftarrow> walk_events uni catch_events tainted;
          walk_events uni finally_events tainted
        }
      | Defer _ body \<Rightarrow> walk_events uni body tainted
      | Using _ body \<Rightarrow> walk_events uni body tainted
      | _ \<Rightarrow> Some tainted)"
  by pat_completeness auto
termination
  by (relation "measure (\<lambda>x. case x of Inl (_, es, _) \<Rightarrow> Suc (2 * events_weight es)
      | Inr (_, e, _) \<Rightarrow> 2 * event_weight e)") auto

declare walk_taint_event.simps [simp del]

definition assign_chain_taints :: "(string \<Rightarrow> bool) \<Rightarrow> token_set \<Rightarrow> flow_event list \<Rightarrow> token_set option" where
  "assign_chain_taints uni seed events = walk_events uni events seed"

definition target_is_tainted :: "(string \<Rightarrow> bool) \<Rightarrow> token_set \<Rightarrow> string \<Rightarrow> flow_event list \<Rightarrow> bool option" where
  "target_is_tainted uni seed target events = map_option (\<lambda>s. target \<in> s) (assign_chain_taints uni seed events)"

section \<open>The state grows within a finite universe\<close>

text \<open>The names an event can add.\<close>

fun event_tokens :: "(string \<Rightarrow> bool) \<Rightarrow> flow_event \<Rightarrow> token_set" where
  "event_tokens uni (Assign _ target _ _ _ _ _ _) = {target, str_trim (normalise_qualified_text uni target) @ ''.*''}"
| "event_tokens uni (Try _ _ _ _ (Some param) _ _) = {param}"
| "event_tokens uni _ = {}"

definition tree_tokens :: "(string \<Rightarrow> bool) \<Rightarrow> flow_event list \<Rightarrow> token_set" where
  "tree_tokens uni es = (\<Union>e \<in> set (pre_order es). event_tokens uni e)"

lemma finite_tree_tokens [simp]: "finite (tree_tokens uni es)"
proof -
  have "finite (event_tokens uni e)" for e by (cases "(uni, e)" rule: event_tokens.cases) simp_all
  then show ?thesis by (simp add: tree_tokens_def)
qed

lemma tree_tokens_Nil [simp]: "tree_tokens uni [] = {}"
  by (simp add: tree_tokens_def)

lemma tree_tokens_Cons:
  "tree_tokens uni (e # es) = event_tokens uni e \<union> tree_tokens uni (nested_events e) \<union> tree_tokens uni es"
  by (auto simp: tree_tokens_def pre_order_append)

text \<open>\<open>grows_in U f\<close>: on finite states \<open>f\<close> returns, and adds only elements of \<open>U\<close>.\<close>

definition grows_in :: "'a set \<Rightarrow> ('a set \<Rightarrow> 'a set option) \<Rightarrow> bool" where
  "grows_in U f \<longleftrightarrow> (\<forall>S. finite S \<longrightarrow> (\<exists>S'. f S = Some S' \<and> S \<subseteq> S' \<and> S' \<subseteq> S \<union> U))"

lemma grows_inE:
  assumes "grows_in U f" "finite S"
  obtains S' where "f S = Some S'" "S \<subseteq> S'" "S' \<subseteq> S \<union> U"
  using assms unfolding grows_in_def by blast

lemma grows_in_mono: "grows_in U f \<Longrightarrow> U \<subseteq> V \<Longrightarrow> grows_in V f"
  unfolding grows_in_def by (meson Un_mono order_refl subset_trans)

lemma grows_in_Some: "grows_in U (\<lambda>S. Some S)"
  by (simp add: grows_in_def)

lemma grows_in_total: "(\<And>S. S \<subseteq> f S \<and> f S \<subseteq> S \<union> U) \<Longrightarrow> grows_in U (\<lambda>S. Some (f S))"
  by (simp add: grows_in_def)

lemma grows_in_bind:
  assumes f: "grows_in U f" and g: "grows_in U g" and fin: "finite U"
  shows "grows_in U (\<lambda>S. Option.bind (f S) g)"
  unfolding grows_in_def
proof (intro allI impI)
  fix S :: "'a set" assume S: "finite S"
  from f S obtain S1 where S1: "f S = Some S1" "S \<subseteq> S1" "S1 \<subseteq> S \<union> U" by (rule grows_inE)
  have "finite S1" using S1(3) S fin by (meson finite_Un finite_subset)
  with g obtain S2 where "g S1 = Some S2" "S1 \<subseteq> S2" "S2 \<subseteq> S1 \<union> U" by (rule grows_inE)
  with S1 show "\<exists>S'. Option.bind (f S) g = Some S' \<and> S \<subseteq> S' \<and> S' \<subseteq> S \<union> U" by auto
qed

text \<open>The loop over such a function returns a state that a further round leaves alone.\<close>

lemma grow_loop_returns:
  assumes f: "grows_in U f" and fin: "finite U" and "finite S"
  shows "\<exists>S'. grow_loop f S = Some S' \<and> S \<subseteq> S' \<and> S' \<subseteq> S \<union> U \<and> f S' = Some S'"
  using assms(3)
proof (induction "card (U - S)" arbitrary: S rule: less_induct)
  case less
  from f less.prems obtain T where T: "f S = Some T" "S \<subseteq> T" "T \<subseteq> S \<union> U" by (rule grows_inE)
  have finT: "finite T" using T(3) less.prems fin by (meson finite_Un finite_subset)
  show ?case
  proof (cases "card T = card S")
    case True
    then have "T = S" using T(2) finT by (metis card_subset_eq)
    with T True show ?thesis by (auto simp: grow_loop.simps [of f S])
  next
    case False
    then have "S \<noteq> T" by auto
    with T(2) obtain x where "x \<in> T" "x \<notin> S" by blast
    with T have "U - T \<subset> U - S" by auto
    with fin have "card (U - T) < card (U - S)" by (meson finite_Diff psubset_card_mono)
    from less.hyps [OF this finT] obtain S' where S': "grow_loop f T = Some S'" "T \<subseteq> S'" "S' \<subseteq> T \<union> U" "f S' = Some S'"
      by blast
    moreover have "grow_loop f S = grow_loop f T" using T(1) False by (simp add: grow_loop.simps [of f S])
    ultimately show ?thesis using T by auto
  qed
qed

lemma chain_insert_descendant_grows:
  "S \<subseteq> chain_insert_descendant uni target S"
  "chain_insert_descendant uni target S \<subseteq> insert (str_trim (normalise_qualified_text uni target) @ ''.*'') S"
  by (auto simp: chain_insert_descendant_def Let_def)

lemma chain_assign_grows:
  "S \<subseteq> chain_assign uni target sn sc ns S
    \<and> chain_assign uni target sn sc ns S \<subseteq> S \<union> {target, str_trim (normalise_qualified_text uni target) @ ''.*''}"
proof -
  note d = chain_insert_descendant_grows [where S = S and uni = uni and target = target]
    chain_insert_descendant_grows [where S = "insert target S" and uni = uni and target = target]
  show ?thesis unfolding chain_assign_def Let_def using d by (auto split: if_splits)
qed

lemma tree_tokens_append [simp]: "tree_tokens uni (as @ bs) = tree_tokens uni as \<union> tree_tokens uni bs"
  by (auto simp: tree_tokens_def pre_order_append)

lemma walk_event_grows:
  assumes IH: "\<And>es. events_weight es < event_weight e \<Longrightarrow> grows_in (tree_tokens uni es) (walk_events uni es)"
  shows "grows_in (event_tokens uni e \<union> tree_tokens uni (nested_events e)) (walk_taint_event uni e)"
proof -
  have part: "grows_in U (walk_events uni es)" if "events_weight es < event_weight e" "tree_tokens uni es \<subseteq> U" for es U
    using IH [OF that(1)] that(2) by (rule grows_in_mono)
  show ?thesis
  proof (cases e)
    case (Assign sp target sn sc args ns d k)
    then show ?thesis
      using grows_in_total [OF chain_assign_grows [where uni = uni and target = target and sn = sn and sc = sc and ns = ns]]
      by (simp add: walk_taint_event.simps [abs_def])
  next
    case (Branch sp c a b)
    let ?U = "tree_tokens uni a \<union> tree_tokens uni b"
    have "grows_in ?U (walk_events uni a)" "grows_in ?U (walk_events uni b)" by (rule part; simp add: Branch)+
    then have "grows_in ?U (walk_taint_event uni e)"
      unfolding grows_in_def Branch walk_taint_event.simps by (fastforce elim: grows_inE)
    then show ?thesis by (simp add: Branch)
  next
    case (Loop sp k l c u b)
    let ?U = "tree_tokens uni c \<union> tree_tokens uni u \<union> tree_tokens uni b"
    have parts: "grows_in ?U (walk_events uni c)" "grows_in ?U (walk_events uni u)" "grows_in ?U (walk_events uni b)"
      by (rule part; auto simp: Loop)+
    have "grows_in ?U (\<lambda>S. if k = LkDoWhile
        then do { S \<leftarrow> walk_events uni b S; S \<leftarrow> walk_events uni u S; walk_events uni c S }
        else do { S \<leftarrow> walk_events uni c S; S \<leftarrow> walk_events uni b S; walk_events uni u S })"
      by (cases "k = LkDoWhile") (simp_all add: parts grows_in_bind)
    from grow_loop_returns [OF this] have "grows_in ?U (walk_taint_event uni e)"
      unfolding grows_in_def Loop walk_taint_event.simps by fastforce
    then show ?thesis by (rule grows_in_mono) (auto simp: Loop)
  next
    case (Try sp b c f p ty arms)
    let ?U = "event_tokens uni e \<union> tree_tokens uni b \<union> tree_tokens uni c \<union> tree_tokens uni f"
    have parts: "grows_in ?U (walk_events uni b)" "grows_in ?U (walk_events uni c)" "grows_in ?U (walk_events uni f)"
      by (rule part; auto simp: Try)+
    have fin: "finite ?U" by (cases p) (simp_all add: Try)
    have bind: "grows_in ?U (\<lambda>S. Some (case p of
        Some param \<Rightarrow> (if throw_taints_catch b S \<and> param \<noteq> [] then insert param S else S) | None \<Rightarrow> S))"
      by (rule grows_in_total) (auto simp: Try split: option.splits)
    have "grows_in ?U (\<lambda>S. Option.bind (walk_events uni b S) (\<lambda>S. Option.bind (Some (case p of
        Some param \<Rightarrow> (if throw_taints_catch b S \<and> param \<noteq> [] then insert param S else S) | None \<Rightarrow> S))
        (\<lambda>S. Option.bind (walk_events uni c S) (walk_events uni f))))"
      by (intro grows_in_bind parts bind fin)
    then have "grows_in ?U (walk_taint_event uni e)"
      by (simp add: walk_taint_event.simps [abs_def] Try Let_def)
    then show ?thesis by (rule grows_in_mono) (auto simp: Try)
  next
    case (Defer sp b)
    have "grows_in (tree_tokens uni b) (walk_events uni b)" by (rule part) (simp_all add: Defer)
    then show ?thesis by (simp add: walk_taint_event.simps [abs_def] Defer)
  next
    case (Using sp b)
    have "grows_in (tree_tokens uni b) (walk_events uni b)" by (rule part) (simp_all add: Using)
    then show ?thesis by (simp add: walk_taint_event.simps [abs_def] Using)
  qed (simp_all add: walk_taint_event.simps [abs_def] grows_in_Some)
qed

lemma walk_grows: "grows_in (tree_tokens uni es) (walk_events uni es)"
proof (induction "events_weight es" arbitrary: es rule: less_induct)
  case less
  show ?case
  proof (cases es)
    case Nil
    then show ?thesis by (simp add: grows_in_def)
  next
    case (Cons e rest)
    let ?U = "tree_tokens uni es"
    have fin: "finite ?U" by simp
    have "grows_in (event_tokens uni e \<union> tree_tokens uni (nested_events e)) (walk_taint_event uni e)"
      by (rule walk_event_grows) (rule less.hyps, simp add: Cons)
    then have "grows_in ?U (walk_taint_event uni e)" by (rule grows_in_mono) (auto simp: Cons tree_tokens_Cons)
    moreover have "grows_in (tree_tokens uni rest) (walk_events uni rest)"
      by (rule less.hyps) (simp add: Cons)
    then have "grows_in ?U (walk_events uni rest)" by (rule grows_in_mono) (auto simp: Cons tree_tokens_Cons)
    ultimately have "grows_in ?U (\<lambda>S. Option.bind (walk_taint_event uni e S) (walk_events uni rest))"
      by (rule grows_in_bind) (rule fin)
    moreover have "walk_events uni es = (\<lambda>S. Option.bind (walk_taint_event uni e S) (walk_events uni rest))"
      by (rule ext) (simp add: Cons)
    ultimately show ?thesis by simp
  qed
qed

lemma walkE:
  assumes "walk_events uni es S = Some S'" "finite S"
  shows "S \<subseteq> S'" "finite S'"
proof -
  from walk_grows [of uni es] assms have *: "S \<subseteq> S'" "S' \<subseteq> S \<union> tree_tokens uni es" by (auto elim!: grows_inE)
  then show "S \<subseteq> S'" "finite S'" using assms(2) by (auto intro: finite_subset)
qed

lemma walk_taintE:
  assumes "walk_taint_event uni e S = Some S'" "finite S"
  shows "S \<subseteq> S'" "finite S'"
  using assms walkE [of uni "[e]" S S'] by simp_all

section \<open>Copies along an execution\<close>

text \<open>A copy \<open>target = source\<close> of a tainted place taints its target, and nothing loses its taint.\<close>

fun copy_event :: "(string \<Rightarrow> bool) \<Rightarrow> flow_event \<Rightarrow> token_set \<Rightarrow> token_set" where
  "copy_event uni (Assign _ target (Some source) _ _ _ _ _) S =
     (if target \<noteq> [] \<and> chain_text_is_tainted uni source S then insert target S else S)"
| "copy_event uni _ S = S"

abbreviation copies :: "(string \<Rightarrow> bool) \<Rightarrow> flow_event list \<Rightarrow> token_set \<Rightarrow> token_set" where
  "copies uni t S \<equiv> fold (copy_event uni) t S"

lemma chain_text_mono: "A \<subseteq> B \<Longrightarrow> chain_text_is_tainted uni s A \<Longrightarrow> chain_text_is_tainted uni s B"
  using wildcard_mono [of A B uni] receiver_projection_mono [of A B uni]
  by (auto simp: chain_text_is_tainted_def Let_def)

lemma chain_assign_copy:
  assumes "target \<noteq> []" "chain_text_is_tainted uni source S"
  shows "target \<in> chain_assign uni target (Some source) sc ns S"
  using assms chain_insert_descendant_grows(1) [where S = "insert target S" and uni = uni and target = target]
  by (auto simp: chain_assign_def Let_def)

lemma copy_event_covered:
  assumes "walk_taint_event uni e S = Some S'" "finite S" "A \<subseteq> S"
  shows "copy_event uni e A \<subseteq> S'"
proof -
  have "S \<subseteq> S'" by (rule walk_taintE [OF assms(1,2)])
  moreover have "target \<in> S'" if e: "e = Assign sp target (Some source) sc args ns d k"
    and t: "target \<noteq> []" "chain_text_is_tainted uni source A" for sp target source sc args ns d k
    using assms(1) chain_assign_copy [OF t(1) chain_text_mono [OF assms(3) t(2)], of sc ns]
    by (auto simp: e walk_taint_event.simps)
  ultimately show ?thesis using assms(3) by (cases "(uni, e, A)" rule: copy_event.cases) (auto split: if_splits)
qed

definition loop_closed :: "(string \<Rightarrow> bool) \<Rightarrow> flow_event list list \<Rightarrow> token_set \<Rightarrow> bool" where
  "loop_closed uni parts S \<longleftrightarrow> (\<forall>es \<in> set parts. walk_events uni es S = Some S)"

lemma phases_closed:
  assumes "Option.bind (walk_events uni x S) (\<lambda>S. Option.bind (walk_events uni y S) (walk_events uni z)) = Some S" "finite S"
  shows "loop_closed uni [x, y, z] S"
proof -
  from assms(1) obtain S1 S2 where w: "walk_events uni x S = Some S1" "walk_events uni y S1 = Some S2" "walk_events uni z S2 = Some S"
    by (auto simp: bind_eq_Some_conv)
  from walkE [OF w(1) assms(2)] have S1: "S \<subseteq> S1" "finite S1" .
  from walkE [OF w(2) S1(2)] have S2: "S1 \<subseteq> S2" "finite S2" .
  from walkE(1) [OF w(3) S2(2)] S1 S2 have "S1 = S" "S2 = S" by auto
  with w show ?thesis by (simp add: loop_closed_def)
qed

lemma walk_Loop_closed:
  assumes "walk_taint_event uni (Loop sp k l c u b) S = Some F" "finite S"
  shows "S \<subseteq> F" "finite F" "loop_closed uni [c, b, u] F"
proof -
  show F: "S \<subseteq> F" "finite F" by (rule walk_taintE [OF assms])+
  let ?f = "\<lambda>S. if k = LkDoWhile
    then do { S \<leftarrow> walk_events uni b S; S \<leftarrow> walk_events uni u S; walk_events uni c S }
    else do { S \<leftarrow> walk_events uni c S; S \<leftarrow> walk_events uni b S; walk_events uni u S }"
  let ?U = "tree_tokens uni (c @ u @ b)"
  have "grows_in ?U (walk_events uni es)" if "es \<in> {c, u, b}" for es
    using walk_grows by (rule grows_in_mono) (use that in auto)
  then have "grows_in ?U ?f" by (cases "k = LkDoWhile") (simp_all add: grows_in_bind del: tree_tokens_append)
  from grow_loop_returns [OF this _ assms(2)] obtain F' where F': "grow_loop ?f S = Some F'" "?f F' = Some F'" by auto
  from F'(1) assms(1) have eq: "F' = F" by (simp add: walk_taint_event.simps)
  have "?f F = Some F" using F'(2) unfolding eq .
  then have "loop_closed uni [b, u, c] F \<or> loop_closed uni [c, b, u] F"
    using phases_closed [of uni b F u c] phases_closed [of uni c F b u] F(2) by (cases "k = LkDoWhile") simp_all
  then show "loop_closed uni [c, b, u] F" by (auto simp: loop_closed_def)
qed

lemma walk_Try_parts:
  assumes "walk_taint_event uni (Try sp b c f p ty arms) S = Some S'" "finite S"
  obtains S1 S2 S3 where "walk_events uni b S = Some S1" "S \<subseteq> S1" "S1 \<subseteq> S2" "finite S2"
    "walk_events uni c S2 = Some S3" "S2 \<subseteq> S3" "finite S3" "walk_events uni f S3 = Some S'"
proof -
  from assms(1) obtain S1 where S1: "walk_events uni b S = Some S1" by (auto simp: walk_taint_event.simps bind_eq_Some_conv)
  define S2 where "S2 = (case p of
      Some param \<Rightarrow> (if throw_taints_catch b S1 \<and> param \<noteq> [] then insert param S1 else S1) | None \<Rightarrow> S1)"
  from assms(1) S1 have "Option.bind (walk_events uni c S2) (walk_events uni f) = Some S'"
    by (simp add: walk_taint_event.simps S2_def)
  then obtain S3 where S3: "walk_events uni c S2 = Some S3" "walk_events uni f S3 = Some S'" by (auto simp: bind_eq_Some_conv)
  from walkE [OF S1 assms(2)] have "S \<subseteq> S1" "finite S1" .
  moreover from this have S2: "S1 \<subseteq> S2" "finite S2" by (auto simp: S2_def split: option.split)
  moreover from walkE [OF S3(1) S2(2)] have "S2 \<subseteq> S3" "finite S3" .
  ultimately show thesis using S1 S3 by (intro that)
qed

text \<open>What the walk has computed at a point of a tree: from the state \<open>S\<close> there to \<open>S'\<close> after it.\<close>

fun point_walk :: "(string \<Rightarrow> bool) \<Rightarrow> point \<Rightarrow> token_set \<Rightarrow> token_set \<Rightarrow> bool" where
  "point_walk uni (At es) S S' \<longleftrightarrow> defer_free es \<and> walk_events uni es S = Some S'"
| "point_walk uni (InRegion e) S S' \<longleftrightarrow> defer_free [e] \<and> walk_taint_event uni e S = Some S'"
| "point_walk uni (LoopHeadAt e) S S' \<longleftrightarrow> (case e of Loop _ _ _ c u b \<Rightarrow>
     defer_free [e] \<and> loop_closed uni [c, b, u] S \<and> S' = S | _ \<Rightarrow> False)"
| "point_walk uni (LoopBodyAt e) S S' \<longleftrightarrow> (case e of Loop _ _ _ c u b \<Rightarrow>
     defer_free [e] \<and> loop_closed uni [c, b, u] S \<and> S' = S | _ \<Rightarrow> False)"
| "point_walk uni (LoopUpdateAt e) S S' \<longleftrightarrow> (case e of Loop _ _ _ c u b \<Rightarrow>
     defer_free [e] \<and> loop_closed uni [c, b, u] S \<and> S' = S | _ \<Rightarrow> False)"

lemma point_walkE:
  assumes "point_walk uni p S S'" "finite S"
  shows "S \<subseteq> S'" "finite S'"
  using assms by (cases p; auto dest: walkE walk_taintE split: flow_event.splits)+

lemma loop_point [simp]:
  "point_walk uni (LoopHeadAt (Loop sp k l c u b)) S S' \<longleftrightarrow>
     defer_free [Loop sp k l c u b] \<and> loop_closed uni [c, b, u] S \<and> S' = S"
  "point_walk uni (LoopBodyAt (Loop sp k l c u b)) S S' \<longleftrightarrow>
     defer_free [Loop sp k l c u b] \<and> loop_closed uni [c, b, u] S \<and> S' = S"
  "point_walk uni (LoopUpdateAt (Loop sp k l c u b)) S S' \<longleftrightarrow>
     defer_free [Loop sp k l c u b] \<and> loop_closed uni [c, b, u] S \<and> S' = S"
  by simp_all

lemma closed_part:
  "defer_free [Loop sp k l c u b] \<Longrightarrow> loop_closed uni [c, b, u] S \<Longrightarrow> es \<in> {c, b, u} \<Longrightarrow> point_walk uni (At es) S S"
  by (auto simp: loop_closed_def)

lemma exec_copies:
  assumes "exec ls p t oc" "point_walk uni p S S'" "finite S" "A \<subseteq> S"
  shows "copies uni t A \<subseteq> S'"
  using assms
proof (induction arbitrary: S S' A rule: exec.induct)
  case (exec_leaf e ls es t oc)
  then obtain S1 where S1: "walk_taint_event uni e S = Some S1" "walk_events uni es S1 = Some S'" "defer_free es"
    by (auto simp: bind_eq_Some_conv)
  have "copy_event uni e A \<subseteq> S1" by (rule copy_event_covered [OF S1(1) exec_leaf.prems(2,3)])
  with exec_leaf.IH [of S1 S' "copy_event uni e A"] S1 walk_taintE(2) [OF S1(1) exec_leaf.prems(2)] show ?case by simp
next
  case (exec_abrupt e ls es)
  then have "copy_event uni e A = A" by (cases e) (simp_all add: is_abrupt_def)
  with exec_abrupt point_walkE(1) [OF exec_abrupt.prems(1,2)] show ?case by auto
next
  case (exec_seq ls e t1 es t2 oc)
  then obtain S1 where S1: "walk_taint_event uni e S = Some S1" "walk_events uni es S1 = Some S'" "defer_free [e]" "defer_free es"
    by (auto simp: bind_eq_Some_conv)
  have "copies uni t1 A \<subseteq> S1" by (rule exec_seq.IH(1)) (use S1 exec_seq.prems in simp_all)
  with exec_seq.IH(2) [of S1 S' "copies uni t1 A"] S1 walk_taintE(2) [OF S1(1) exec_seq.prems(2)] show ?case by simp
next
  case (exec_stop ls e t oc es)
  then obtain S1 where S1: "walk_taint_event uni e S = Some S1" "walk_events uni es S1 = Some S'" "defer_free [e]"
    by (auto simp: bind_eq_Some_conv)
  have "copies uni t A \<subseteq> S1" by (rule exec_stop.IH) (use S1 exec_stop.prems in simp_all)
  with walkE(1) [OF S1(2) walk_taintE(2) [OF S1(1) exec_stop.prems(2)]] show ?case by simp
next
  case (exec_then ls a t oc sp c b)
  then obtain S1 where "walk_events uni a S = Some S1" "S1 \<subseteq> S'" "defer_free a"
    by (auto simp: bind_eq_Some_conv walk_taint_event.simps)
  with exec_then.IH [of S S1 A] exec_then.prems show ?case by auto
next
  case (exec_else ls b t oc sp c a)
  then obtain S1 where "walk_events uni b S = Some S1" "S1 \<subseteq> S'" "defer_free b"
    by (auto simp: bind_eq_Some_conv walk_taint_event.simps)
  with exec_else.IH [of S S1 A] exec_else.prems show ?case by auto
next
  case (exec_using ls b t oc sp)
  then show ?case by (auto simp: walk_taint_event.simps)
next
  case (exec_try ls b t1 o1 f t2 o2 sp c p ty arms)
  then have "walk_taint_event uni (Try sp b c f p ty arms) S = Some S'" by simp
  from this exec_try.prems(2) obtain S1 S2 S3 where w: "walk_events uni b S = Some S1" "S1 \<subseteq> S2" "S2 \<subseteq> S3" "finite S3"
      "walk_events uni f S3 = Some S'" by (rule walk_Try_parts)
  have "copies uni t1 A \<subseteq> S1" by (rule exec_try.IH(1)) (use w exec_try.prems in simp_all)
  with w have "copies uni t1 A \<subseteq> S3" by auto
  with exec_try.IH(2) [of S3 S' "copies uni t1 A"] w exec_try.prems show ?case by simp
next
  case (exec_catch c p ty arms ls t1 o1 f t2 o2 sp b)
  then have "walk_taint_event uni (Try sp b c f p ty arms) S = Some S'" by simp
  from this exec_catch.prems(2) obtain S1 S2 S3 where w: "S \<subseteq> S1" "S1 \<subseteq> S2" "finite S2" "walk_events uni c S2 = Some S3"
      "finite S3" "walk_events uni f S3 = Some S'" by (rule walk_Try_parts)
  have "copies uni t1 A \<subseteq> S3" by (rule exec_catch.IH(1) [of S2]) (use w exec_catch.prems in auto)
  with exec_catch.IH(2) [of S3 S' "copies uni t1 A"] w exec_catch.prems show ?case by simp
next
  case (exec_pre_test k ls sp l c u b t oc)
  then have w: "walk_taint_event uni (Loop sp k l c u b) S = Some S'" by simp
  from walk_Loop_closed [OF w exec_pre_test.prems(2)] exec_pre_test.IH [of S' S' A] exec_pre_test.prems show ?case by auto
next
  case (exec_post_test ls sp l c u b t oc)
  then have w: "walk_taint_event uni (Loop sp LkDoWhile l c u b) S = Some S'" by simp
  from walk_Loop_closed [OF w exec_post_test.prems(2)] exec_post_test.IH [of S' S' A] exec_post_test.prems show ?case by auto
next
  case (exec_head_exit k ls c t sp l u b)
  then show ?case using closed_part [of sp k l c u b uni S c] by simp
next
  case (exec_head_stop ls c t oc sp k l u b)
  then show ?case using closed_part [of sp k l c u b uni S c] by simp
next
  case (exec_head_body ls c t1 sp k l u b t2 oc)
  then have "copies uni t1 A \<subseteq> S" using closed_part [of sp k l c u b uni S c] by simp
  with exec_head_body.IH(2) [of S S' "copies uni t1 A"] exec_head_body.prems show ?case by simp
next
  case (exec_body_stop l ls b t o1 oc sp k c u)
  then show ?case using closed_part [of sp k l c u b uni S b] by simp
next
  case (exec_body_next l ls b t1 o1 k sp c u t2 oc)
  then have "copies uni t1 A \<subseteq> S" using closed_part [of sp k l c u b uni S b] by simp
  with exec_body_next.IH(2) [of S S' "copies uni t1 A"] exec_body_next.prems show ?case by simp
next
  case (exec_body_retest l ls b t1 sp c u t2 oc)
  then have "copies uni t1 A \<subseteq> S" using closed_part [of sp LkDoWhile l c u b uni S b] by simp
  with exec_body_retest.IH(2) [of S S' "copies uni t1 A"] exec_body_retest.prems show ?case by simp
next
  case (exec_update_stop l ls u t o1 oc sp k c b)
  then show ?case using closed_part [of sp k l c u b uni S u] by simp
next
  case (exec_update_head l ls u t1 o1 k sp c b t2 oc)
  then have "copies uni t1 A \<subseteq> S" using closed_part [of sp k l c u b uni S u] by simp
  with exec_update_head.IH(2) [of S S' "copies uni t1 A"] exec_update_head.prems show ?case by simp
next
  case (exec_update_again l ls u t1 k sp c b t2 oc)
  then have "copies uni t1 A \<subseteq> S" using closed_part [of sp k l c u b uni S u] by simp
  with exec_update_again.IH(2) [of S S' "copies uni t1 A"] exec_update_again.prems show ?case by simp
qed (simp_all add: is_abrupt_def)

section \<open>Properties\<close>

text \<open>
  C16: the assign-chain pass returns on every event tree, loops included; its result contains the seed, and
  apart from the seed only targets of assignments of the tree, wildcards below them, and parameters of
  its handlers.
\<close>

theorem assign_chain_returns:
  assumes "finite seed"
  shows "\<exists>tainted. assign_chain_taints uni seed es = Some tainted
    \<and> seed \<subseteq> tainted \<and> tainted \<subseteq> seed \<union> tree_tokens uni es"
  using grows_inE [OF walk_grows assms, of uni es] unfolding assign_chain_taints_def by blast

definition copy_loop :: "flow_event list" where
  "copy_loop = (let sp = span_new 0 0 1 in
     [Loop sp LkWhile None [] [] [Assign sp ''z'' (Some ''y'') None [] [] False None,
        Assign sp ''y'' (Some ''x'') None [] [] False None]])"

theorem assign_chain_returns_witness:
  "finite {''x''} \<and> (\<exists>tainted. assign_chain_taints (\<lambda>_. False) {''x''} copy_loop = Some tainted \<and> {''x''} \<subseteq> tainted)"
  using assign_chain_returns [of "{''x''}" "\<lambda>_. False" copy_loop] by auto

text \<open>
  C15: after the lowering of deferred scopes, the result of the pass contains what the copies along any execution
  of the tree taint, also around loops and through cleanup.
\<close>

theorem assign_chain_covers_copies:
  assumes "finite seed" "exec [] (At es) t oc"
  shows "\<exists>tainted. assign_chain_taints uni seed (normalize_deferred_scopes es) = Some tainted
    \<and> copies uni t seed \<subseteq> tainted"
proof -
  from assms(2) have ex: "exec [] (At (normalize_deferred_scopes es)) t oc" using normalize_covers coversD by blast
  from walk_grows assms(1) obtain tainted where w: "walk_events uni (normalize_deferred_scopes es) seed = Some tainted"
    by (rule grows_inE)
  then have "point_walk uni (At (normalize_deferred_scopes es)) seed tainted" by (simp add: normalize_defer_free)
  from exec_copies [OF ex this assms(1)] w show ?thesis by (auto simp: assign_chain_taints_def)
qed

text \<open>Two rounds of the loop taint \<open>z\<close> from \<open>x\<close>.\<close>

lemma copy_loop_exec:
  "exec [] (At copy_loop) (concat (replicate 2 (nested_events (hd copy_loop)))) Fall"
proof -
  define b l where "b = nested_events (hd copy_loop)" and "l = hd copy_loop"
  have l: "l = Loop (span_new 0 0 1) LkWhile None [] [] b" "copy_loop = [l]" by (simp_all add: copy_loop_def b_def l_def Let_def)
  have b: "exec ls (At b) b Fall" for ls
    unfolding b_def copy_loop_def Let_def by (auto intro!: exec_leaf exec_nil simp: is_abrupt_def)
  have nil: "exec ls (At []) [] Fall" for ls by (rule exec_nil)
  have round: "exec [] (LoopHeadAt l) (b @ t) Fall" if "exec [] (LoopHeadAt l) t Fall" for t
  proof -
    have "exec [] (LoopUpdateAt l) ([] @ t) Fall"
      unfolding l by (rule exec_update_head [OF nil]) (use that l in auto)
    then have "exec [] (LoopBodyAt l) (b @ t) Fall" unfolding l by (intro exec_body_next [OF b]) auto
    with nil have "exec [] (LoopHeadAt l) ([] @ b @ t) Fall" unfolding l by (rule exec_head_body)
    then show ?thesis by simp
  qed
  have "exec [] (LoopHeadAt l) [] Fall" unfolding l by (rule exec_head_exit) (simp_all add: nil)
  from round [OF round [OF this]] have "exec [] (InRegion l) (b @ b) Fall"
    unfolding l(1) by (intro exec_pre_test) simp_all
  from exec_seq [OF this nil] show ?thesis by (simp add: l(2) numeral_2_eq_2) (simp add: l(1))
qed

theorem assign_chain_covers_copies_witness:
  "finite {''x''} \<and> exec [] (At copy_loop) (concat (replicate 2 (nested_events (hd copy_loop)))) Fall
    \<and> (\<exists>tainted. assign_chain_taints (\<lambda>_. False) {''x''} (normalize_deferred_scopes copy_loop) = Some tainted \<and> ''z'' \<in> tainted)"
proof -
  have "''z'' \<in> copies (\<lambda>_. False) (concat (replicate 2 (nested_events (hd copy_loop)))) {''x''}" by code_simp
  with assign_chain_covers_copies [OF _ copy_loop_exec, of "{''x''}" "\<lambda>_. False"] copy_loop_exec show ?thesis by blast
qed

text \<open>
  The transfer of an assignment is not monotone, although the pass is documented to be: with \<open>f\<close> tainted, \<open>x = f(a.b)\<close> taints
  \<open>x\<close>; with the fields of \<open>a\<close> tainted as well it taints only the fields of \<open>x\<close>.
\<close>

lemma more_taint_less_result:
  "target_is_tainted (\<lambda>_. False) {''f''} ''x''
     [Assign (span_new 0 0 1) ''x'' None (Some ''f'') [] [''a.b''] False None] = Some True"
  "target_is_tainted (\<lambda>_. False) {''f'', ''a.*''} ''x''
     [Assign (span_new 0 0 1) ''x'' None (Some ''f'') [] [''a.b''] False None] = Some False"
  by code_simp+

text \<open>Without the lowering a deferred body is walked before the events it runs after, and their taint does not reach it.\<close>

definition deferred_copy :: "flow_event list" where
  "deferred_copy = (let sp = span_new 0 0 1 in
     [Defer sp [Assign sp ''z'' (Some ''y'') None [] [] False None], Assign sp ''y'' (Some ''x'') None [] [] False None])"

lemma deferred_copy_missed:
  "target_is_tainted (\<lambda>_. False) {''x''} ''z'' deferred_copy = Some False"
  "target_is_tainted (\<lambda>_. False) {''x''} ''z'' (normalize_deferred_scopes deferred_copy) = Some True"
  by code_simp+

end
