(* ===== verification/Taint_Intra.thy ===== *)
theory Taint_Intra
  imports Taint_Assign Cfg_Builder
begin

text \<open>
  The intraprocedural pass of \<^verbatim>\<open>crates/taint/src/intra.rs\<close>: a forward data flow over a control-flow
  graph in which an assignment clears the taint of its target, unless its right-hand side is tainted.
  Also the diagnostics it reports (\<^verbatim>\<open>crates/diagnostics/src/lib.rs\<close>).

  Shown here: on canonical places the transfer of a block is monotone and stays in a finite
  universe of names. The one shape of assignment for which it is not monotone, a call with an
  operand but no operand list, is excluded by \<open>plain_assign\<close>.
\<close>

section \<open>Diagnostics\<close>

datatype severity = SevHint | SevInfo | SevWarning | SevError

record diagnostic =
  dg_span :: span
  dg_severity :: severity
  dg_message :: string
  dg_code :: "string option"
  dg_notes :: "string list"

definition diagnostic_new :: "span \<Rightarrow> severity \<Rightarrow> string \<Rightarrow> diagnostic" where
  "diagnostic_new sp severity message =
     \<lparr>dg_span = sp, dg_severity = severity, dg_message = message, dg_code = None, dg_notes = []\<rparr>"

definition with_code :: "string \<Rightarrow> diagnostic \<Rightarrow> diagnostic" where
  "with_code code d = d\<lparr>dg_code := Some code\<rparr>"

section \<open>Targets\<close>

definition normalise_target_text :: "(string \<Rightarrow> bool) \<Rightarrow> string \<Rightarrow> string" where
  "normalise_target_text uni target =
     str_trim (trim_start_matches (is_name_punctuation uni) (normalise_qualified_text uni target))"

definition insert_target_taint :: "(string \<Rightarrow> bool) \<Rightarrow> string \<Rightarrow> token_set \<Rightarrow> token_set" where
  "insert_target_taint uni target0 state =
     (let target = normalise_target_text uni target0 in
      if target = [] then state
      else let state = insert target state;
               bare = trim_start_matches (is_name_punctuation uni) target
           in if bare \<noteq> target \<and> bare \<noteq> [] then insert bare state else state)"

definition insert_descendant_target_taint :: "(string \<Rightarrow> bool) \<Rightarrow> string \<Rightarrow> token_set \<Rightarrow> token_set" where
  "insert_descendant_target_taint uni target0 state =
     (let target = normalise_target_text uni target0 in
      if target = [] \<or> text_looks_qualified uni target \<or> str_strip_suffix ''.*'' target \<noteq> None then state
      else insert (target @ ''.*'') state)"

definition remove_target_and_descendant_taint :: "(string \<Rightarrow> bool) \<Rightarrow> string \<Rightarrow> token_set \<Rightarrow> token_set" where
  "remove_target_and_descendant_taint uni target0 state =
     (let target = normalise_target_text uni target0 in
      if target = [] then state
      else Set.filter (\<lambda>seed. let normalised = normalise_target_text uni seed in
             normalised \<noteq> target \<and> str_strip_prefix (target @ ''.'') normalised = None) state)"

definition is_identifier_byteish :: "string \<Rightarrow> bool" where
  "is_identifier_byteish ch \<longleftrightarrow> ch \<in> {''_'', ''$'', ''@'', ''%''} \<or> is_ascii_alphanumeric ch"

definition is_bare_identifier_text :: "string \<Rightarrow> bool" where
  "is_bare_identifier_text text0 \<longleftrightarrow>
     (let text = str_trim text0 in text \<noteq> [] \<and> list_all is_identifier_byteish (utf8_chars text))"

text \<open>What one tainted name contributes to the fields of a copied object.\<close>

definition mapped_seed :: "(string \<Rightarrow> bool) \<Rightarrow> string \<Rightarrow> string \<Rightarrow> string \<Rightarrow> token_set" where
  "mapped_seed uni target actual seed0 =
     (let seed = normalise_target_text uni seed0 in
      if seed = actual @ ''.*'' then insert_descendant_target_taint uni target {}
      else case str_strip_prefix actual seed of
             None \<Rightarrow> {}
           | Some tail \<Rightarrow> (if take 1 tail = ''.'' then insert_target_taint uni (target @ tail) {} else {}))"

definition mapped_taint :: "(string \<Rightarrow> bool) \<Rightarrow> string \<Rightarrow> string \<Rightarrow> token_set \<Rightarrow> token_set" where
  "mapped_taint uni target0 actual_text state =
     (let target = normalise_target_text uni target0;
          actual = normalise_target_text uni actual_text
      in if target = [] \<or> actual = [] \<or> text_looks_qualified uni target \<or> text_looks_qualified uni actual
           \<or> \<not> is_bare_identifier_text actual
         then {} else (\<Union>seed \<in> state. mapped_seed uni target actual seed))"

text \<open>\<open>None\<close> is the result \<^verbatim>\<open>false\<close>, which leaves the state alone.\<close>

definition copy_mapped_descendant_taint :: "(string \<Rightarrow> bool) \<Rightarrow> string \<Rightarrow> string \<Rightarrow> token_set \<Rightarrow> token_set option" where
  "copy_mapped_descendant_taint uni target actual_text state =
     (let mapped = mapped_taint uni target actual_text state in
      if mapped = {} then None
      else Some (remove_target_and_descendant_taint uni (normalise_target_text uni target) state \<union> mapped))"

definition apply_tainted_assignment ::
  "(string \<Rightarrow> bool) \<Rightarrow> string \<Rightarrow> string option \<Rightarrow> bool \<Rightarrow> token_set \<Rightarrow> token_set" where
  "apply_tainted_assignment uni target source_name descendant_shape state =
     (let state = (case Option.bind source_name (\<lambda>source. copy_mapped_descendant_taint uni target source state) of
            Some state \<Rightarrow> state
          | None \<Rightarrow> remove_target_and_descendant_taint uni target state);
          state = insert_target_taint uni target state
      in if descendant_shape then insert_descendant_target_taint uni target state else state)"

section \<open>Operands\<close>

definition strict_operand_is_tainted :: "(string \<Rightarrow> bool) \<Rightarrow> string \<Rightarrow> token_set \<Rightarrow> bool" where
  "strict_operand_is_tainted uni text state \<longleftrightarrow>
     (let trimmed = str_trim text in
      trimmed \<noteq> [] \<and> \<not> is_quoted_literal trimmed
      \<and> (trimmed \<in> state
         \<or> (let sigil_stripped = trim_start_matches (is_name_punctuation uni) trimmed in
            sigil_stripped \<noteq> trimmed \<and> sigil_stripped \<in> state)
         \<or> receiver_method_projection_is_tainted uni trimmed state False
         \<or> (let normalised = normalise_qualified_text uni trimmed;
                collapsed_to_base = text_looks_qualified uni trimmed \<and> \<not> text_looks_qualified uni normalised
            in normalised \<noteq> trimmed \<and> \<not> collapsed_to_base \<and> normalised \<in> state
               \<or> text_looks_qualified uni trimmed \<and> qualified_wildcard_seed_matches uni normalised state)))"

definition tainted_receiver_access :: "(string \<Rightarrow> bool) \<Rightarrow> string \<Rightarrow> token_set \<Rightarrow> bool" where
  "tainted_receiver_access uni text state \<longleftrightarrow>
     (let normalised = normalise_qualified_text uni text in
      qualified_wildcard_seed_matches uni normalised state
      \<or> (\<exists>seed0 \<in> state. text_looks_qualified uni seed0
          \<and> (let seed = normalise_qualified_text uni seed0 in
             seed \<noteq> []
             \<and> (normalised = seed
                \<or> (case str_strip_prefix seed normalised of Some rest \<Rightarrow> take 1 rest = ''.'' | None \<Rightarrow> False)))))"

definition state_qualified_token_matches_text :: "(string \<Rightarrow> bool) \<Rightarrow> string \<Rightarrow> token_set \<Rightarrow> bool" where
  "state_qualified_token_matches_text uni text state \<longleftrightarrow>
     text \<noteq> []
     \<and> (\<exists>seed \<in> state. let normalised = normalise_qualified_text uni seed in
          CHR ''.'' \<in> set normalised \<and> text = hd (str_split (CHR ''.'') normalised))"

definition text_is_tainted :: "(string \<Rightarrow> bool) \<Rightarrow> string \<Rightarrow> token_set \<Rightarrow> bool" where
  "text_is_tainted uni text state \<longleftrightarrow>
     (let trimmed = str_trim text in
      trimmed \<noteq> []
      \<and> (tainted_receiver_access uni trimmed state
         \<or> receiver_method_projection_is_tainted uni trimmed state False
         \<or> trimmed \<in> state
         \<or> (let normalised = normalise_qualified_text uni trimmed;
                collapsed_to_base = text_looks_qualified uni trimmed \<and> \<not> text_looks_qualified uni normalised
            in normalised \<noteq> trimmed \<and> \<not> collapsed_to_base \<and> normalised \<in> state
               \<or> state_qualified_token_matches_text uni normalised state
               \<or> state_qualified_token_matches_text uni trimmed state)))"

section \<open>The transfer of a block\<close>

text \<open>An assignment that other assignments of the same statement refine field by field.\<close>

fun assignment_has_precise_field_projection ::
  "(string \<Rightarrow> bool) \<Rightarrow> flow_event list \<Rightarrow> nat \<Rightarrow> flow_event \<Rightarrow> bool" where
  "assignment_has_precise_field_projection uni events event_index (Assign sp target _ _ _ _ _ _) =
     (let base = normalise_target_text uni target in
      base \<noteq> [] \<and> \<not> text_looks_qualified uni base
      \<and> list_ex (\<lambda>(idx, candidate). idx \<noteq> event_index
          \<and> (case candidate of
               Assign candidate_span candidate_target _ _ _ _ _ _ \<Rightarrow>
                 candidate_span = sp
                 \<and> str_strip_prefix (base @ ''.'') (normalise_target_text uni candidate_target) \<noteq> None
             | _ \<Rightarrow> False)) (List.enumerate 0 events))"
| "assignment_has_precise_field_projection uni events event_index _ = False"

definition any_operand_tainted :: "(string \<Rightarrow> bool) \<Rightarrow> string list \<Rightarrow> token_set \<Rightarrow> bool" where
  "any_operand_tainted uni source_names state \<longleftrightarrow>
     (let bases = qualified_source_bases uni source_names in
      list_ex (\<lambda>name. name \<noteq> [] \<and> canonical_bare_name uni name \<notin> bases \<and> strict_operand_is_tainted uni name state)
        source_names)"

definition transfer_assign ::
  "(string \<Rightarrow> bool) \<Rightarrow> bool \<Rightarrow> string \<Rightarrow> string option \<Rightarrow> string option \<Rightarrow> string list \<Rightarrow> token_set \<Rightarrow> token_set" where
  "transfer_assign uni precise target source_name source_call source_names state =
     (if target = [] then state
      else if precise then remove_target_and_descendant_taint uni target state
      else if source_call \<noteq> None \<and> source_names = [] \<and> target \<in> state then state
      else if (case source_call of Some callee \<Rightarrow> callee \<in> state \<or> text_is_tainted uni callee state | None \<Rightarrow> False)
      then apply_tainted_assignment uni target source_name (rhs_has_descendant_shape uni source_names) state
      else if source_names \<noteq> [] \<and> any_operand_tainted uni source_names state
      then apply_tainted_assignment uni target source_name (rhs_has_descendant_shape uni source_names) state
      else case source_name of
             Some src \<Rightarrow>
               (if strict_operand_is_tainted uni src state then apply_tainted_assignment uni target (Some src) False state
                else case copy_mapped_descendant_taint uni target src state of
                       Some state' \<Rightarrow> state'
                     | None \<Rightarrow> remove_target_and_descendant_taint uni target state)
           | None \<Rightarrow> remove_target_and_descendant_taint uni target state)"

fun transfer_event :: "(string \<Rightarrow> bool) \<Rightarrow> flow_event list \<Rightarrow> nat \<times> flow_event \<Rightarrow> token_set \<Rightarrow> token_set" where
  "transfer_event uni events (event_index, Assign sp target source_name source_call args source_names d k) state =
     transfer_assign uni
       (assignment_has_precise_field_projection uni events event_index
          (Assign sp target source_name source_call args source_names d k))
       target source_name source_call source_names state"
| "transfer_event uni events (event_index, _) state = state"

definition transfer_events :: "(string \<Rightarrow> bool) \<Rightarrow> flow_event list \<Rightarrow> token_set \<Rightarrow> token_set" where
  "transfer_events uni events state = fold (transfer_event uni events) (List.enumerate 0 events) state"

section \<open>The worklist\<close>

record intra_taint_result =
  ir_block_in :: "block_id \<rightharpoonup> token_set"
  ir_block_out :: "block_id \<rightharpoonup> token_set"
  ir_iterations :: u32
  ir_diagnostics :: "diagnostic list"

definition is_tainted_at_entry :: "intra_taint_result \<Rightarrow> block_id \<Rightarrow> string \<Rightarrow> bool" where
  "is_tainted_at_entry r block name \<longleftrightarrow> (case ir_block_in r block of Some state \<Rightarrow> name \<in> state | None \<Rightarrow> False)"

definition is_tainted_at_exit :: "intra_taint_result \<Rightarrow> block_id \<Rightarrow> string \<Rightarrow> bool" where
  "is_tainted_at_exit r block name \<longleftrightarrow> (case ir_block_out r block of Some state \<Rightarrow> name \<in> state | None \<Rightarrow> False)"

definition add_predecessor :: "block_id \<Rightarrow> block_id \<Rightarrow> (block_id \<rightharpoonup> block_id list) \<Rightarrow> (block_id \<rightharpoonup> block_id list)" where
  "add_predecessor block successor preds =
     preds(successor \<mapsto> (case preds successor of Some ps \<Rightarrow> ps | None \<Rightarrow> []) @ [block])"

definition build_predecessor_map :: "cfg \<Rightarrow> (block_id \<rightharpoonup> block_id list)" where
  "build_predecessor_map g =
     fold (\<lambda>block. fold (add_predecessor (bb_id block)) (bb_successors block)) (cfg_blocks g) Map.empty"

definition entry_predecessor_diagnostics :: "cfg \<Rightarrow> (block_id \<rightharpoonup> block_id list) \<Rightarrow> diagnostic list" where
  "entry_predecessor_diagnostics g preds =
     (case preds (cfg_entry g) of
        None \<Rightarrow> []
      | Some [] \<Rightarrow> []
      | Some ps \<Rightarrow>
          (let sp = (case cfg_block g (cfg_entry g) of Some block \<Rightarrow> bb_span block | None \<Rightarrow> span_empty invalid_id 0);
               d = with_code ''taint-entry-predecessor'' (diagnostic_new sp SevWarning
                 (''CFG entry block has '' @ show_nat (length ps)
                  @ '' predecessor edge(s); intraprocedural taint keeps entry seeds and joins predecessor output''))
           in [d\<lparr>dg_notes :=
                 [''entry predecessors indicate an adapter or CFG-builder invariant drift'',
                  ''propagation preserves both configured seeds and incoming loop-carried facts'']\<rparr>]))"

record intra_state =
  is_in :: "block_id \<rightharpoonup> token_set"
  is_out :: "block_id \<rightharpoonup> token_set"
  is_worklist :: "block_id list"
  is_enqueued :: "block_id set"
  is_visited :: "block_id set"
  is_iterations :: u32

definition join_outs :: "(block_id \<rightharpoonup> block_id list) \<Rightarrow> (block_id \<rightharpoonup> token_set) \<Rightarrow> block_id \<Rightarrow> token_set" where
  "join_outs preds outs block =
     (case preds block of
        None \<Rightarrow> {}
      | Some ps \<Rightarrow> (\<Union>p \<in> set ps. case outs p of Some s \<Rightarrow> s | None \<Rightarrow> {}))"

definition enqueue :: "block_id \<Rightarrow> intra_state \<Rightarrow> intra_state" where
  "enqueue successor st =
     (if successor \<in> is_enqueued st then st
      else st\<lparr>is_enqueued := insert successor (is_enqueued st), is_worklist := is_worklist st @ [successor]\<rparr>)"

text \<open>The body of the loop, for the block taken from the end of the worklist.\<close>

definition intra_turn ::
  "(string \<Rightarrow> bool) \<Rightarrow> cfg \<Rightarrow> (block_id \<rightharpoonup> block_id list) \<Rightarrow> token_set \<Rightarrow> block_id \<Rightarrow> intra_state \<Rightarrow> intra_state" where
  "intra_turn uni g preds sources block_id st =
     (let st = st\<lparr>is_enqueued := is_enqueued st - {block_id}, is_iterations := saturating_add (is_iterations st) 1\<rparr>;
          new_in = (if block_id = cfg_entry g then sources else {}) \<union> join_outs preds (is_out st) block_id
      in case cfg_block g block_id of
           None \<Rightarrow> st
         | Some block \<Rightarrow>
             (let new_out = transfer_events uni (bb_events block) new_in;
                  changed = (block_id \<notin> is_visited st \<or> is_out st block_id \<noteq> Some new_out);
                  st = st\<lparr>is_in := (is_in st)(block_id \<mapsto> new_in), is_out := (is_out st)(block_id \<mapsto> new_out),
                          is_visited := insert block_id (is_visited st)\<rparr>
              in if changed then fold enqueue (bb_successors block) st else st))"

partial_function (option) intra_loop ::
  "(string \<Rightarrow> bool) \<Rightarrow> cfg \<Rightarrow> (block_id \<rightharpoonup> block_id list) \<Rightarrow> token_set \<Rightarrow> intra_state \<Rightarrow> intra_state option" where
  "intra_loop uni g preds sources st =
     (if is_worklist st = [] then Some st
      else intra_loop uni g preds sources
             (intra_turn uni g preds sources (last (is_worklist st)) (st\<lparr>is_worklist := butlast (is_worklist st)\<rparr>)))"

declare intra_loop.simps [code]

definition intra_start :: "cfg \<Rightarrow> token_set \<Rightarrow> intra_state" where
  "intra_start g sources =
     (let empty = fold (\<lambda>block m. m(bb_id block \<mapsto> {})) (cfg_blocks g) Map.empty in
      \<lparr>is_in = empty(cfg_entry g \<mapsto> sources), is_out = empty, is_worklist = [cfg_entry g],
       is_enqueued = {cfg_entry g}, is_visited = {}, is_iterations = 0\<rparr>)"

definition intraprocedural_taint :: "(string \<Rightarrow> bool) \<Rightarrow> cfg \<Rightarrow> token_set \<Rightarrow> intra_taint_result option" where
  "intraprocedural_taint uni g sources =
     (let preds = build_predecessor_map g in
      map_option (\<lambda>st. \<lparr>ir_block_in = is_in st, ir_block_out = is_out st, ir_iterations = is_iterations st,
                       ir_diagnostics = entry_predecessor_diagnostics g preds\<rparr>)
        (intra_loop uni g preds sources (intra_start g sources)))"

section \<open>The transfer is monotone\<close>

lemma normalise_target_canonical [simp]: "canonical s \<Longrightarrow> normalise_target_text uni s = s"
  by (simp add: normalise_target_text_def canonical_simps)

lemma strict_operand_mono: "A \<subseteq> B \<Longrightarrow> strict_operand_is_tainted uni s A \<Longrightarrow> strict_operand_is_tainted uni s B"
  using wildcard_mono [of A B uni] receiver_projection_mono [of A B uni]
  by (auto simp: strict_operand_is_tainted_def Let_def)

lemma receiver_access_mono: "A \<subseteq> B \<Longrightarrow> tainted_receiver_access uni s A \<Longrightarrow> tainted_receiver_access uni s B"
  using wildcard_mono [of A B uni] unfolding tainted_receiver_access_def Let_def by blast

lemma qualified_token_mono:
  "A \<subseteq> B \<Longrightarrow> state_qualified_token_matches_text uni s A \<Longrightarrow> state_qualified_token_matches_text uni s B"
  by (auto simp: state_qualified_token_matches_text_def)

lemma text_is_tainted_mono: "A \<subseteq> B \<Longrightarrow> text_is_tainted uni s A \<Longrightarrow> text_is_tainted uni s B"
  using receiver_projection_mono [of A B uni] receiver_access_mono [of A B uni] qualified_token_mono [of A B uni]
  unfolding text_is_tainted_def Let_def by blast

lemma any_operand_mono: "A \<subseteq> B \<Longrightarrow> any_operand_tainted uni ns A \<Longrightarrow> any_operand_tainted uni ns B"
  using strict_operand_mono [of A B uni] by (auto simp: any_operand_tainted_def Let_def list_ex_iff)

abbreviation kill :: "(string \<Rightarrow> bool) \<Rightarrow> string \<Rightarrow> token_set \<Rightarrow> token_set" where
  "kill \<equiv> remove_target_and_descendant_taint"

definition copied :: "(string \<Rightarrow> bool) \<Rightarrow> string \<Rightarrow> string option \<Rightarrow> token_set \<Rightarrow> token_set" where
  "copied uni target sn S = (case sn of Some src \<Rightarrow> mapped_taint uni target src S | None \<Rightarrow> {})"

definition below :: "(string \<Rightarrow> bool) \<Rightarrow> string \<Rightarrow> token_set" where
  "below uni target = insert_descendant_target_taint uni target {}"

lemma kill_subset: "kill uni target S \<subseteq> S"
  by (auto simp: remove_target_and_descendant_taint_def Let_def)

lemma kill_mono: "A \<subseteq> B \<Longrightarrow> kill uni target A \<subseteq> kill uni target B"
  by (auto simp: remove_target_and_descendant_taint_def Let_def)

lemma mapped_mono: "A \<subseteq> B \<Longrightarrow> mapped_taint uni target src A \<subseteq> mapped_taint uni target src B"
  by (auto simp: mapped_taint_def Let_def)

lemma copied_mono: "A \<subseteq> B \<Longrightarrow> copied uni target sn A \<subseteq> copied uni target sn B"
  by (auto simp: copied_def dest: mapped_mono split: option.split)

lemma kill_normalised: "canonical (normalise_target_text uni target) \<Longrightarrow> kill uni (normalise_target_text uni target) S = kill uni target S"
  by (simp add: remove_target_and_descendant_taint_def)

lemma copy_mapped_eq:
  assumes "canonical (normalise_target_text uni target)"
  shows "(case copy_mapped_descendant_taint uni target src S of Some S' \<Rightarrow> S' | None \<Rightarrow> kill uni target S)
    = kill uni target S \<union> copied uni target (Some src) S"
  using assms by (simp add: copy_mapped_descendant_taint_def kill_normalised copied_def Let_def)

lemma insert_descendant_eq: "insert_descendant_target_taint uni target S = S \<union> below uni target"
  by (auto simp: insert_descendant_target_taint_def below_def Let_def)

lemma insert_target_eq:
  "canonical (normalise_target_text uni target) \<Longrightarrow>
    insert_target_taint uni target S = insert (normalise_target_text uni target) S"
  using canonical_hd [of "normalise_target_text uni target"]
  by (simp add: insert_target_taint_def trim_start_canonical Let_def)

lemma apply_tainted_eq:
  assumes "canonical (normalise_target_text uni target)"
  shows "apply_tainted_assignment uni target sn d S
    = insert (normalise_target_text uni target) (kill uni target S \<union> copied uni target sn S) \<union> (if d then below uni target else {})"
proof (cases sn)
  case None
  then show ?thesis using assms
    by (simp add: apply_tainted_assignment_def insert_target_eq insert_descendant_eq copied_def Let_def)
next
  case (Some src)
  then show ?thesis using assms copy_mapped_eq [OF assms, where src = src and S = S]
    by (simp add: apply_tainted_assignment_def insert_target_eq insert_descendant_eq Let_def)
qed

text \<open>
  The assignments an adapter is expected to emit: the target is a dotted place, and a call without a
  list of operands has no single operand either.
\<close>

fun plain_assign :: "(string \<Rightarrow> bool) \<Rightarrow> flow_event \<Rightarrow> bool" where
  "plain_assign uni (Assign _ target sn sc _ ns _ _) \<longleftrightarrow>
     target = [] \<or> dotted (normalise_target_text uni target)
       \<and> (sc \<noteq> None \<and> ns = [] \<longrightarrow> sn = None \<and> normalise_target_text uni target = target)"
| "plain_assign uni _ \<longleftrightarrow> True"

definition callee_tainted :: "(string \<Rightarrow> bool) \<Rightarrow> string option \<Rightarrow> token_set \<Rightarrow> bool" where
  "callee_tainted uni sc S \<longleftrightarrow> (case sc of Some callee \<Rightarrow> callee \<in> S \<or> text_is_tainted uni callee S | None \<Rightarrow> False)"

lemma callee_mono: "A \<subseteq> B \<Longrightarrow> callee_tainted uni sc A \<Longrightarrow> callee_tainted uni sc B"
  by (auto simp: callee_tainted_def dest: text_is_tainted_mono split: option.splits)

definition gained ::
  "(string \<Rightarrow> bool) \<Rightarrow> string \<Rightarrow> string option \<Rightarrow> string option \<Rightarrow> string list \<Rightarrow> token_set \<Rightarrow> token_set" where
  "gained uni target sn sc ns S =
     (if callee_tainted uni sc S \<or> ns \<noteq> [] \<and> any_operand_tainted uni ns S
      then insert (normalise_target_text uni target) (if rhs_has_descendant_shape uni ns then below uni target else {})
      else if (case sn of Some src \<Rightarrow> strict_operand_is_tainted uni src S | None \<Rightarrow> False)
      then {normalise_target_text uni target} else {})"

lemma gained_mono:
  assumes "A \<subseteq> B"
  shows "gained uni target sn sc ns A \<subseteq> gained uni target sn sc ns B"
proof -
  have "(case sn of Some src \<Rightarrow> strict_operand_is_tainted uni src A | None \<Rightarrow> False) \<Longrightarrow>
      (case sn of Some src \<Rightarrow> strict_operand_is_tainted uni src B | None \<Rightarrow> False)"
    by (auto dest: strict_operand_mono [OF assms] split: option.splits)
  with callee_mono [OF assms, of uni sc] any_operand_mono [OF assms, of uni ns] show ?thesis
    unfolding gained_def by (auto split: if_split)
qed

text \<open>An assignment as what it keeps, what it copies, and what it adds.\<close>

lemma transfer_assign_eq:
  assumes "target \<noteq> []" "canonical (normalise_target_text uni target)"
  shows "transfer_assign uni False target sn sc ns S =
    (if sc \<noteq> None \<and> ns = [] \<and> target \<in> S then S
     else kill uni target S \<union> copied uni target sn S \<union> gained uni target sn sc ns S)"
  using assms copy_mapped_eq [OF assms(2)]
  by (auto simp: transfer_assign_def apply_tainted_eq callee_tainted_def copied_def gained_def split: option.splits)

lemma transfer_assign_mono:
  assumes "plain_assign uni (Assign sp target sn sc args ns d k)" "A \<subseteq> B"
  shows "transfer_assign uni precise target sn sc ns A \<subseteq> transfer_assign uni precise target sn sc ns B"
proof (cases "target = [] \<or> precise")
  case True
  with assms(2) show ?thesis by (auto simp: transfer_assign_def dest: subsetD [OF kill_mono])
next
  case False
  then have t: "target \<noteq> []" "precise = False" and c: "canonical (normalise_target_text uni target)"
    using assms(1) by (auto intro: dotted_canonical)
  note eq = transfer_assign_eq [OF t(1) c]
  have pieces: "kill uni target A \<union> copied uni target sn A \<union> gained uni target sn sc ns A
      \<subseteq> kill uni target B \<union> copied uni target sn B \<union> gained uni target sn sc ns B"
    by (intro Un_mono kill_mono copied_mono gained_mono assms(2))
  show ?thesis
  proof (cases "sc \<noteq> None \<and> ns = [] \<and> target \<in> B")
    case True
    with assms(1) t(1) have shape: "sn = None" "normalise_target_text uni target = target" "ns = []" by auto
    have "gained uni target sn sc ns A \<subseteq> {target}"
      using shape by (simp add: gained_def rhs_has_descendant_shape_def)
    moreover have "copied uni target sn A = {}" using shape by (simp add: copied_def)
    ultimately show ?thesis using kill_subset [of uni target A] assms(2) True unfolding t(2) eq by auto
  next
    case False
    then have "\<not> (sc \<noteq> None \<and> ns = [] \<and> target \<in> A)" using assms(2) by auto
    with False pieces show ?thesis unfolding t(2) eq by (simp only: if_False)
  qed
qed

lemma transfer_events_mono:
  assumes "list_all (plain_assign uni) es" "A \<subseteq> B"
  shows "transfer_events uni es A \<subseteq> transfer_events uni es B"
proof -
  have step: "transfer_event uni es (i, e) A \<subseteq> transfer_event uni es (i, e) B" if "plain_assign uni e" "A \<subseteq> B" for i e A B
    using that transfer_assign_mono by (cases e) auto
  have "fold (transfer_event uni es) xs A \<subseteq> fold (transfer_event uni es) xs B"
    if "\<forall>(i, e) \<in> set xs. plain_assign uni e" "A \<subseteq> B" for xs A B
    using that by (induction xs arbitrary: A B) (auto dest: step)
  moreover have "\<forall>(i, e) \<in> set (List.enumerate 0 es). plain_assign uni e"
    using assms(1) by (auto simp: list_all_iff in_set_enumerate_eq)
  ultimately show ?thesis using assms(2) unfolding transfer_events_def by blast
qed

section \<open>A finite universe of names\<close>

text \<open>The part of a place from its first dot on.\<close>

definition tail_of :: "string \<Rightarrow> string" where
  "tail_of s = dropWhile (\<lambda>c. c \<noteq> CHR ''.'') s"

definition assigned_targets :: "(string \<Rightarrow> bool) \<Rightarrow> flow_event set \<Rightarrow> token_set" where
  "assigned_targets uni es = {normalise_target_text uni target | target.
     target \<noteq> [] \<and> (\<exists>sp sn sc args ns d k. Assign sp target sn sc args ns d k \<in> es)}"

definition universe_tails :: "(string \<Rightarrow> bool) \<Rightarrow> token_set \<Rightarrow> flow_event set \<Rightarrow> token_set" where
  "universe_tails uni sources es =
     tail_of ` (normalise_target_text uni ` sources \<union> assigned_targets uni es \<union> (\<lambda>t. t @ ''.*'') ` assigned_targets uni es)"

definition universe :: "(string \<Rightarrow> bool) \<Rightarrow> token_set \<Rightarrow> flow_event set \<Rightarrow> token_set" where
  "universe uni sources es =
     (let T = assigned_targets uni es
      in sources \<union> T \<union> (\<lambda>t. t @ ''.*'') ` T \<union> (\<Union>t \<in> Set.filter ident_text T. (@) t ` universe_tails uni sources es))"

lemma finite_assigned_targets: "finite es \<Longrightarrow> finite (assigned_targets uni es)"
proof -
  assume fin: "finite es"
  have "assigned_targets uni es \<subseteq> (\<lambda>e. case e of Assign _ target _ _ _ _ _ _ \<Rightarrow> normalise_target_text uni target | _ \<Rightarrow> []) ` es"
    unfolding assigned_targets_def by (auto intro: rev_image_eqI)
  then show ?thesis using fin by (meson finite_imageI finite_subset)
qed

lemma finite_universe: "finite sources \<Longrightarrow> finite es \<Longrightarrow> finite (universe uni sources es)"
  by (simp add: universe_def universe_tails_def Let_def finite_assigned_targets)

lemma tail_of_ident: "ident_text t \<Longrightarrow> tail_of (t @ r) = tail_of r"
  unfolding tail_of_def by (rule dropWhile_append2) (use ident_text_no_dot in blast)

lemma tail_of_prefix: "CHR ''.'' \<notin> set a \<Longrightarrow> tail_of (a @ r) = tail_of r"
  unfolding tail_of_def by (rule dropWhile_append2) blast

lemma tail_of_dot: "take 1 r = ''.'' \<Longrightarrow> tail_of r = r"
  by (cases r) (simp_all add: tail_of_def)

lemma canonical_tail:
  assumes "canonical x" "ident_text t"
  shows "canonical (t @ tail_of x)"
proof -
  from assms(1) obtain ids suf where x: "ids \<noteq> []" "list_all ident_text ids" "wildcard_suffix suf" "x = str_join ''.'' ids @ suf"
    by (rule canonicalE)
  from x(1) obtain i js where ids: "ids = i # js" by (cases ids) auto
  have suf: "tail_of suf = suf" using x(3) by (auto simp: wildcard_suffix_def tail_of_def)
  have "t @ tail_of x = str_join ''.'' (t # js) @ suf"
  proof (cases "js = []")
    case True
    with x ids suf show ?thesis by (simp add: tail_of_ident)
  next
    case False
    with x ids show ?thesis by (simp add: str_join_Cons tail_of_ident tail_of_dot)
  qed
  moreover have "canonical (str_join ''.'' (t # js) @ suf)"
    by (rule canonicalI) (use x ids assms(2) in simp_all)
  ultimately show ?thesis by simp
qed

lemma ident_text_dotted:
  assumes "dotted t" "CHR ''.'' \<notin> set t"
  shows "ident_text t"
proof -
  from assms(1) obtain ids where ids: "ids \<noteq> []" "list_all ident_text ids" "t = str_join ''.'' ids" by (auto simp: dotted_iff)
  then obtain i js where "ids = i # js" by (cases ids) auto
  moreover from this ids(3) assms(2) have "js = []" by (cases js) auto
  ultimately show ?thesis using ids by simp
qed

lemma strip_start_keeps: "c \<in> set s \<Longrightarrow> \<forall>w \<in> set ws. c \<notin> set w \<Longrightarrow> c \<in> set (strip_start ws s)"
proof (induction ws s rule: strip_start.induct)
  case (1 ws s)
  show ?case
  proof (cases "find (\<lambda>w. w \<noteq> [] \<and> take (length w) s = w) ws")
    case (Some w)
    then have "w \<in> set ws" "take (length w) s = w" by (auto simp: find_Some_iff)
    with 1(2,3) have "c \<in> set (drop (length w) s)" by (metis UnE append_take_drop_id set_append)
    with 1 Some show ?thesis by (simp add: strip_start.simps [of ws s])
  qed (use 1 in \<open>simp add: strip_start.simps [of ws s]\<close>)
qed

lemma white_space_no_dot: "\<forall>w \<in> set white_space. CHR ''.'' \<notin> set w"
  by code_simp

lemma dot_not_trimmed: "CHR ''.'' \<in> set s \<Longrightarrow> CHR ''.'' \<in> set (str_trim s)"
  unfolding str_trim_def set_rev
  by (intro strip_start_keeps) (use white_space_no_dot in \<open>auto intro!: strip_start_keeps\<close>)

lemma bare_no_dot: "is_bare_identifier_text s \<Longrightarrow> CHR ''.'' \<notin> set s"
proof
  assume bare: "is_bare_identifier_text s" and "CHR ''.'' \<in> set s"
  then have "CHR ''.'' \<in> \<Union> (set ` set (utf8_chars (str_trim s)))"
    unfolding set_concat [symmetric] concat_utf8_chars by (simp add: dot_not_trimmed)
  then obtain ch where "ch \<in> set (utf8_chars (str_trim s))" "CHR ''.'' \<in> set ch" by blast
  moreover from this bare have "is_identifier_byteish ch" by (auto simp: is_bare_identifier_text_def Let_def list_all_iff)
  ultimately show False
    by (auto simp: is_identifier_byteish_def is_ascii_alphanumeric_def split: list.splits)
qed

text \<open>Tails of names of the universe are tails of the names it was made from.\<close>

definition canonical_program :: "(string \<Rightarrow> bool) \<Rightarrow> token_set \<Rightarrow> flow_event set \<Rightarrow> bool" where
  "canonical_program uni sources es \<longleftrightarrow>
     (\<forall>s \<in> sources. canonical (normalise_target_text uni s)) \<and> (\<forall>e \<in> es. plain_assign uni e)"

lemma assigned_target_dotted: "canonical_program uni sources es \<Longrightarrow> t \<in> assigned_targets uni es \<Longrightarrow> dotted t"
  by (fastforce simp: canonical_program_def assigned_targets_def)

lemma wildcard_canonical: "dotted t \<Longrightarrow> canonical (t @ ''.*'')"
  by (simp add: canonical_def strip_suffix_Some [THEN iffD2])

lemma universe_cases:
  assumes "s \<in> universe uni sources es"
  obtains (source) "s \<in> sources" | (target) "s \<in> assigned_targets uni es"
    | (wildcard) t where "t \<in> assigned_targets uni es" "s = t @ ''.*''"
    | (field) t r where "t \<in> assigned_targets uni es" "ident_text t" "r \<in> universe_tails uni sources es" "s = t @ r"
  using assms unfolding universe_def Let_def by auto

lemma universe_tailsE:
  assumes "canonical_program uni sources es" "r \<in> universe_tails uni sources es"
  obtains x where "canonical x" "r = tail_of x"
proof -
  from assms(2) obtain x where r: "r = tail_of x" and x: "x \<in> normalise_target_text uni ` sources \<or> x \<in> assigned_targets uni es
      \<or> (\<exists>t \<in> assigned_targets uni es. x = t @ ''.*'')"
    unfolding universe_tails_def by blast
  from x have "canonical x"
    using assms(1) by (auto simp: canonical_program_def dest: assigned_target_dotted [OF assms(1)]
        intro: dotted_canonical wildcard_canonical)
  with r that show ?thesis by blast
qed

lemma tail_of_tail: "tail_of (tail_of x) = tail_of x"
  by (induction x) (simp_all add: tail_of_def)

lemma universe_canonical:
  assumes ok: "canonical_program uni sources es" and s: "s \<in> universe uni sources es"
  shows "canonical (normalise_target_text uni s) \<and> tail_of (normalise_target_text uni s) \<in> universe_tails uni sources es"
  using s
proof (cases rule: universe_cases)
  case source
  then show ?thesis using ok by (simp add: canonical_program_def universe_tails_def)
next
  case target
  then show ?thesis
    by (simp add: universe_tails_def dotted_canonical [OF assigned_target_dotted [OF ok]])
next
  case (wildcard t)
  then show ?thesis by (simp add: universe_tails_def wildcard_canonical [OF assigned_target_dotted [OF ok]])
next
  case (field t r)
  from ok field(3) obtain x where "canonical x" "r = tail_of x" by (rule universe_tailsE)
  with field show ?thesis by (simp add: canonical_tail tail_of_ident tail_of_tail)
qed

lemma targets_in_universe: "t \<in> assigned_targets uni es \<Longrightarrow> {t, t @ ''.*''} \<subseteq> universe uni sources es"
  by (auto simp: universe_def Let_def)

lemma fields_in_universe:
  "t \<in> assigned_targets uni es \<Longrightarrow> ident_text t \<Longrightarrow> r \<in> universe_tails uni sources es \<Longrightarrow> t @ r \<in> universe uni sources es"
  by (auto simp: universe_def Let_def)

lemma below_in_universe:
  "normalise_target_text uni t \<in> assigned_targets uni es \<Longrightarrow> below uni t \<subseteq> universe uni sources es"
  using targets_in_universe by (auto simp: below_def insert_descendant_target_taint_def Let_def)

lemma mapped_in_universe:
  assumes ok: "canonical_program uni sources es" and S: "S \<subseteq> universe uni sources es"
    and t: "normalise_target_text uni target \<in> assigned_targets uni es"
  shows "mapped_taint uni target src S \<subseteq> universe uni sources es"
proof
  let ?t = "normalise_target_text uni target"
  let ?a = "normalise_target_text uni src"
  fix x assume x: "x \<in> mapped_taint uni target src S"
  then obtain seed where seed: "seed \<in> S" "x \<in> mapped_seed uni ?t ?a seed" and un: "\<not> text_looks_qualified uni ?t"
    and bare: "is_bare_identifier_text ?a"
    unfolding mapped_taint_def Let_def by (auto split: if_splits)
  have d: "dotted ?t" by (rule assigned_target_dotted [OF ok t])
  with un have ident: "ident_text ?t" by (simp add: looks_qualified_dotted ident_text_dotted)
  have "below uni ?t \<subseteq> universe uni sources es" using t by (intro below_in_universe) (simp add: dotted_canonical [OF d])
  moreover have "x \<in> below uni ?t \<or> (\<exists>r. take 1 r = ''.'' \<and> normalise_target_text uni seed = ?a @ r
      \<and> x \<in> insert_target_taint uni (?t @ r) {})"
    using seed(2) by (auto simp: mapped_seed_def below_def Let_def strip_prefix_Some split: if_splits option.splits)
  moreover have "x \<in> universe uni sources es" if r: "take 1 r = ''.''" "normalise_target_text uni seed = ?a @ r"
    "x \<in> insert_target_taint uni (?t @ r) {}" for r
  proof -
    have "tail_of (normalise_target_text uni seed) = r"
      using r tail_of_dot [OF r(1)] bare_no_dot [OF bare] by (simp add: tail_of_prefix)
    with universe_canonical [OF ok] seed(1) S have "canonical (?t @ r)" "r \<in> universe_tails uni sources es"
      using canonical_tail ident by blast+
    with fields_in_universe [OF t ident] r(3) show ?thesis by (simp add: insert_target_eq)
  qed
  ultimately show "x \<in> universe uni sources es" by blast
qed

lemma transfer_assign_in_universe:
  assumes ok: "canonical_program uni sources es" and S: "S \<subseteq> universe uni sources es"
    and e: "Assign sp target sn sc args ns d k \<in> es"
  shows "transfer_assign uni precise target sn sc ns S \<subseteq> universe uni sources es"
proof (cases "target = [] \<or> precise")
  case True
  with S show ?thesis by (auto simp: transfer_assign_def dest: subsetD [OF kill_subset])
next
  case False
  then have t: "target \<noteq> []" "normalise_target_text uni target \<in> assigned_targets uni es"
    using e unfolding assigned_targets_def by blast+
  note c = dotted_canonical [OF assigned_target_dotted [OF ok t(2)]]
  have "copied uni target sn S \<subseteq> universe uni sources es"
    using mapped_in_universe [OF ok S t(2)] by (auto simp: copied_def split: option.splits)
  moreover have "gained uni target sn sc ns S \<subseteq> universe uni sources es"
    using below_in_universe [OF t(2)] targets_in_universe [OF t(2)] by (auto simp: gained_def split: if_splits option.splits)
  ultimately show ?thesis
    using S subset_trans [OF kill_subset S] False by (simp add: transfer_assign_eq [OF t(1) c])
qed

lemma transfer_events_in_universe:
  assumes "canonical_program uni sources es" "set events \<subseteq> es" "S \<subseteq> universe uni sources es"
  shows "transfer_events uni events S \<subseteq> universe uni sources es"
proof -
  have step: "transfer_event uni events (i, e) A \<subseteq> universe uni sources es" if "e \<in> es" "A \<subseteq> universe uni sources es" for i e A
    using that transfer_assign_in_universe [OF assms(1)] by (cases e) auto
  have "fold (transfer_event uni events) xs A \<subseteq> universe uni sources es"
    if "\<forall>(i, e) \<in> set xs. e \<in> es" "A \<subseteq> universe uni sources es" for xs A
    using that by (induction xs arbitrary: A) (auto dest: step)
  moreover have "\<forall>(i, e) \<in> set (List.enumerate 0 events). e \<in> es"
    using assms(2) by (auto simp: in_set_enumerate_eq)
  ultimately show ?thesis using assms(3) unfolding transfer_events_def by blast
qed

end
