(* ===== verification/Taint_Solution.thy ===== *)
theory Taint_Solution
  imports Taint_Intra Cfg_Graph
begin

text \<open>
  What the worklist of \<^verbatim>\<open>crates/taint/src/intra.rs\<close> computes. On a well-formed graph whose assignments
  are plain it stops, and what it returns is the least solution of the data-flow equations on the
  blocks that the entry reaches; hence it covers every path.
\<close>

section \<open>The data-flow equations\<close>

definition cfg_edge :: "cfg \<Rightarrow> block_id \<Rightarrow> block_id \<Rightarrow> bool" where
  "cfg_edge g b s \<longleftrightarrow> (case cfg_block g b of Some block \<Rightarrow> s \<in> set (bb_successors block) | None \<Rightarrow> False)"

definition block_transfer :: "(string \<Rightarrow> bool) \<Rightarrow> cfg \<Rightarrow> block_id \<Rightarrow> token_set \<Rightarrow> token_set" where
  "block_transfer uni g b S = (case cfg_block g b of Some block \<Rightarrow> transfer_events uni (bb_events block) S | None \<Rightarrow> S)"

definition entry_taint :: "cfg \<Rightarrow> token_set \<Rightarrow> block_id \<Rightarrow> token_set" where
  "entry_taint g sources b = (if b = cfg_entry g then sources else {})"

definition incoming :: "cfg \<Rightarrow> token_set \<Rightarrow> (block_id \<Rightarrow> token_set) \<Rightarrow> block_id \<Rightarrow> token_set" where
  "incoming g sources outs b = entry_taint g sources b \<union> (\<Union>p \<in> {p. cfg_edge g p b}. outs p)"

definition cfg_events :: "cfg \<Rightarrow> flow_event set" where
  "cfg_events g = (\<Union>block \<in> set (cfg_blocks g). set (bb_events block))"

definition cfg_ok :: "cfg \<Rightarrow> bool" where
  "cfg_ok g \<longleftrightarrow> wf_blocks (cfg_blocks g) \<and> length (cfg_blocks g) \<le> 2 ^ 32 \<and> cfg_block g (cfg_entry g) \<noteq> None"

lemma incoming_mono: "(\<And>p. A p \<subseteq> B p) \<Longrightarrow> incoming g sources A b \<subseteq> incoming g sources B b"
  unfolding incoming_def by blast

lemma block_of_id:
  assumes "cfg_ok g"
  shows "cfg_block g i = Some block \<longleftrightarrow> block \<in> set (cfg_blocks g) \<and> bb_id block = i"
proof -
  have wf: "bb_id (cfg_blocks g ! j) = of_nat j \<and> unat (of_nat j :: block_id) = j" if "j < length (cfg_blocks g)" for j
    using assms that by (simp add: cfg_ok_def wf_blocks_def unat_of_nat_u32)
  show ?thesis
  proof
    assume "cfg_block g i = Some block"
    then show "block \<in> set (cfg_blocks g) \<and> bb_id block = i"
      using wf by (auto simp: cfg_block_def vec_get_def split: if_splits)
  next
    assume r: "block \<in> set (cfg_blocks g) \<and> bb_id block = i"
    then obtain j where "j < length (cfg_blocks g)" "block = cfg_blocks g ! j" by (auto simp: in_set_conv_nth)
    with wf [of j] r show "cfg_block g i = Some block" by (simp add: cfg_block_def vec_get_def)
  qed
qed

lemma successor_exists:
  assumes "cfg_ok g" "cfg_edge g b s"
  shows "cfg_block g s \<noteq> None"
proof -
  from assms(2) obtain block where "cfg_block g b = Some block" "s \<in> set (bb_successors block)"
    by (auto simp: cfg_edge_def split: option.splits)
  then have "block \<in> set (cfg_blocks g)" "s \<in> set (bb_successors block)" using block_of_id [OF assms(1)] by auto
  then obtain i where i: "i < length (cfg_blocks g)" "s \<in> set (bb_successors (cfg_blocks g ! i))" by (auto simp: in_set_conv_nth)
  with assms(1) have "s \<in> of_nat ` {..< length (cfg_blocks g)}" unfolding cfg_ok_def wf_blocks_def by blast
  then obtain j where "j < length (cfg_blocks g)" "s = of_nat j" by auto
  then show ?thesis using assms(1) by (simp add: cfg_ok_def cfg_block_def unat_of_nat_u32 vec_get_def)
qed

abbreviation preds_at :: "(block_id \<rightharpoonup> block_id list) \<Rightarrow> block_id \<Rightarrow> block_id set" where
  "preds_at preds b \<equiv> (case preds b of Some ps \<Rightarrow> set ps | None \<Rightarrow> {})"

lemma add_predecessors:
  "preds_at (fold (add_predecessor p) ss m) b = preds_at m b \<union> (if b \<in> set ss then {p} else {})"
  by (induction ss arbitrary: m) (auto simp: add_predecessor_def split: option.splits)

lemma predecessor_map_of_edges:
  assumes "cfg_ok g"
  shows "preds_at (build_predecessor_map g) b = {p. cfg_edge g p b}"
proof -
  have "preds_at (fold (\<lambda>block. fold (add_predecessor (bb_id block)) (bb_successors block)) bs m) b
      = preds_at m b \<union> {bb_id block | block. block \<in> set bs \<and> b \<in> set (bb_successors block)}" for bs m
    by (induction bs arbitrary: m) (auto simp: add_predecessors)
  from this [of "cfg_blocks g" Map.empty]
  have "preds_at (build_predecessor_map g) b = {bb_id block | block. block \<in> set (cfg_blocks g) \<and> b \<in> set (bb_successors block)}"
    by (simp add: build_predecessor_map_def)
  moreover have "cfg_edge g p b \<longleftrightarrow> (\<exists>block. block \<in> set (cfg_blocks g) \<and> bb_id block = p \<and> b \<in> set (bb_successors block))" for p
  proof -
    have "cfg_edge g p b \<longleftrightarrow> (\<exists>block. cfg_block g p = Some block \<and> b \<in> set (bb_successors block))"
      by (simp add: cfg_edge_def split: option.split)
    then show ?thesis by (simp only: block_of_id [OF assms] conj_assoc)
  qed
  then have "{p. cfg_edge g p b} = {bb_id block | block. block \<in> set (cfg_blocks g) \<and> b \<in> set (bb_successors block)}" by auto
  ultimately show ?thesis by (simp only:)
qed

lemma join_outs_edges:
  assumes "cfg_ok g"
  shows "(if b = cfg_entry g then sources else {}) \<union> join_outs (build_predecessor_map g) outs b
    = incoming g sources (\<lambda>p. case outs p of Some s \<Rightarrow> s | None \<Rightarrow> {}) b"
proof -
  have "join_outs (build_predecessor_map g) outs b
      = (\<Union>p \<in> preds_at (build_predecessor_map g) b. case outs p of Some s \<Rightarrow> s | None \<Rightarrow> {})"
    by (simp add: join_outs_def split: option.split)
  then show ?thesis by (simp add: predecessor_map_of_edges [OF assms] incoming_def entry_taint_def)
qed

section \<open>The laws of the transfer\<close>

definition intra_ok :: "(string \<Rightarrow> bool) \<Rightarrow> cfg \<Rightarrow> token_set \<Rightarrow> bool" where
  "intra_ok uni g sources \<longleftrightarrow> cfg_ok g \<and> finite sources \<and> canonical_program uni sources (cfg_events g)"

lemma block_events_in: "cfg_ok g \<Longrightarrow> cfg_block g b = Some block \<Longrightarrow> set (bb_events block) \<subseteq> cfg_events g"
  by (auto simp: block_of_id cfg_events_def)

lemma block_transfer_mono:
  assumes "intra_ok uni g sources" "A \<subseteq> B"
  shows "block_transfer uni g b A \<subseteq> block_transfer uni g b B"
proof (cases "cfg_block g b")
  case (Some block)
  with assms(1) have "list_all (plain_assign uni) (bb_events block)"
    using block_events_in [of g b block] by (auto simp: intra_ok_def canonical_program_def list_all_iff)
  with Some assms(2) show ?thesis by (simp add: block_transfer_def transfer_events_mono)
qed (use assms(2) in \<open>simp add: block_transfer_def\<close>)

abbreviation names_of :: "(string \<Rightarrow> bool) \<Rightarrow> cfg \<Rightarrow> token_set \<Rightarrow> token_set" where
  "names_of uni g sources \<equiv> universe uni sources (cfg_events g)"

lemma block_transfer_names:
  assumes "intra_ok uni g sources" "S \<subseteq> names_of uni g sources"
  shows "block_transfer uni g b S \<subseteq> names_of uni g sources"
  using assms block_events_in [of g b] transfer_events_in_universe [of uni sources "cfg_events g"]
  by (simp add: block_transfer_def intra_ok_def split: option.split)

lemma finite_names: "intra_ok uni g sources \<Longrightarrow> finite (names_of uni g sources)"
  by (simp add: intra_ok_def finite_universe cfg_events_def)

lemma incoming_names:
  "(\<And>p. outs p \<subseteq> names_of uni g sources) \<Longrightarrow> incoming g sources outs b \<subseteq> names_of uni g sources"
  by (auto simp: incoming_def entry_taint_def universe_def Let_def split: if_splits)

section \<open>The worklist\<close>

abbreviation out_of :: "intra_state \<Rightarrow> block_id \<Rightarrow> token_set" where
  "out_of st b \<equiv> (case is_out st b of Some s \<Rightarrow> s | None \<Rightarrow> {})"

abbreviation reached :: "cfg \<Rightarrow> block_id \<Rightarrow> bool" where
  "reached g \<equiv> (cfg_edge g)\<^sup>*\<^sup>* (cfg_entry g)"

text \<open>A family of states that the equations, read as inclusions, do not enlarge.\<close>

definition closed_under_flow :: "(string \<Rightarrow> bool) \<Rightarrow> cfg \<Rightarrow> token_set \<Rightarrow> (block_id \<Rightarrow> token_set) \<Rightarrow> bool" where
  "closed_under_flow uni g sources X \<longleftrightarrow>
     (\<forall>b. reached g b \<longrightarrow> block_transfer uni g b (entry_taint g sources b \<union> (\<Union>p \<in> {p. reached g p \<and> cfg_edge g p b}. X p)) \<subseteq> X b)"

record flow_view =
  fv_in :: "block_id \<rightharpoonup> token_set"
  fv_outs :: "block_id \<Rightarrow> token_set"
  fv_pending :: "block_id set"
  fv_visited :: "block_id set"

definition view_of :: "intra_state \<Rightarrow> flow_view" where
  "view_of st = \<lparr>fv_in = is_in st, fv_outs = out_of st, fv_pending = set (is_worklist st), fv_visited = is_visited st\<rparr>"

definition solving :: "(string \<Rightarrow> bool) \<Rightarrow> cfg \<Rightarrow> token_set \<Rightarrow> flow_view \<Rightarrow> bool" where
  "solving uni g sources v \<longleftrightarrow>
     cfg_entry g \<in> fv_visited v \<union> fv_pending v
     \<and> (\<forall>b \<in> fv_visited v \<union> fv_pending v. reached g b)
     \<and> (\<forall>b. b \<notin> fv_visited v \<longrightarrow> fv_outs v b = {})
     \<and> (\<forall>b \<in> fv_visited v. \<exists>S. fv_in v b = Some S \<and> fv_outs v b = block_transfer uni g b S
          \<and> S \<subseteq> incoming g sources (fv_outs v) b
          \<and> (b \<notin> fv_pending v \<longrightarrow> S = incoming g sources (fv_outs v) b)
          \<and> (\<forall>s. cfg_edge g b s \<longrightarrow> s \<in> fv_visited v \<union> fv_pending v))
     \<and> (\<forall>b. fv_outs v b \<subseteq> names_of uni g sources)
     \<and> (\<forall>X. closed_under_flow uni g sources X \<longrightarrow> (\<forall>b. fv_outs v b \<subseteq> X b))"

lemma solvingD:
  assumes "solving uni g sources v"
  shows "cfg_entry g \<in> fv_visited v \<union> fv_pending v" "b \<in> fv_visited v \<union> fv_pending v \<Longrightarrow> reached g b"
    "b \<notin> fv_visited v \<Longrightarrow> fv_outs v b = {}" "fv_outs v b \<subseteq> names_of uni g sources"
    "closed_under_flow uni g sources X \<Longrightarrow> fv_outs v b \<subseteq> X b"
  using assms by (simp_all add: solving_def)

lemma solving_visited:
  assumes "solving uni g sources v" "b \<in> fv_visited v"
  obtains S where "fv_in v b = Some S" "fv_outs v b = block_transfer uni g b S" "S \<subseteq> incoming g sources (fv_outs v) b"
    "b \<notin> fv_pending v \<Longrightarrow> S = incoming g sources (fv_outs v) b" "\<And>s. cfg_edge g b s \<Longrightarrow> s \<in> fv_visited v \<union> fv_pending v"
proof -
  from assms have "\<exists>S. fv_in v b = Some S \<and> fv_outs v b = block_transfer uni g b S
      \<and> S \<subseteq> incoming g sources (fv_outs v) b
      \<and> (b \<notin> fv_pending v \<longrightarrow> S = incoming g sources (fv_outs v) b)
      \<and> (\<forall>s. cfg_edge g b s \<longrightarrow> s \<in> fv_visited v \<union> fv_pending v)"
    by (simp only: solving_def)
  then show thesis using that by (elim exE conjE) blast
qed

text \<open>One turn on this view: \<open>b\<close> is taken, and its successors are added if its output is new.\<close>

definition view_turn :: "(string \<Rightarrow> bool) \<Rightarrow> cfg \<Rightarrow> token_set \<Rightarrow> block_id \<Rightarrow> flow_view \<Rightarrow> flow_view" where
  "view_turn uni g sources b v =
     (let S = incoming g sources (fv_outs v) b; T = block_transfer uni g b S
      in v\<lparr>fv_in := (fv_in v)(b \<mapsto> S), fv_outs := (fv_outs v)(b := T),
           fv_visited := insert b (fv_visited v),
           fv_pending := fv_pending v - {b} \<union> (if b \<notin> fv_visited v \<or> fv_outs v b \<noteq> T then {s. cfg_edge g b s} else {})\<rparr>)"

definition view_size :: "(string \<Rightarrow> bool) \<Rightarrow> cfg \<Rightarrow> token_set \<Rightarrow> flow_view \<Rightarrow> nat" where
  "view_size uni g sources v =
     (\<Sum>b \<in> UNIV. card (names_of uni g sources - fv_outs v b)) + card (- fv_visited v)"

lemma view_turn_same:
  "b \<in> fv_visited v \<Longrightarrow> fv_outs v b = block_transfer uni g b (incoming g sources (fv_outs v) b) \<Longrightarrow>
    fv_outs (view_turn uni g sources b v) = fv_outs v \<and> fv_visited (view_turn uni g sources b v) = fv_visited v"
  by (simp add: view_turn_def Let_def insert_absorb fun_upd_idem)

lemma outs_grow:
  assumes "intra_ok uni g sources" "solving uni g sources v" "b \<in> fv_pending v"
  shows "fv_outs v c \<subseteq> fv_outs (view_turn uni g sources b v) c"
proof (cases "c = b \<and> b \<in> fv_visited v")
  case True
  then have "b \<in> fv_visited v" by simp
  with assms(2) obtain S where "fv_outs v b = block_transfer uni g b S" "S \<subseteq> incoming g sources (fv_outs v) b"
    by (rule solving_visited)
  with True block_transfer_mono [OF assms(1)] show ?thesis by (simp add: view_turn_def Let_def)
next
  case False
  with solvingD(3) [OF assms(2), of b] show ?thesis by (auto simp: view_turn_def Let_def)
qed

lemma incoming_same: "(\<And>p. cfg_edge g p c \<Longrightarrow> A p = B p) \<Longrightarrow> incoming g sources A c = incoming g sources B c"
  by (simp add: incoming_def)

lemma solving_turn:
  assumes ok: "intra_ok uni g sources" and v: "solving uni g sources v" and b: "b \<in> fv_pending v"
  shows "solving uni g sources (view_turn uni g sources b v)"
proof -
  let ?v = "view_turn uni g sources b v"
  let ?S = "incoming g sources (fv_outs v) b"
  let ?T = "block_transfer uni g b ?S"
  let ?new = "b \<notin> fv_visited v \<or> fv_outs v b \<noteq> ?T"
  have f: "fv_in ?v = (fv_in v)(b \<mapsto> ?S)" "fv_outs ?v = (fv_outs v)(b := ?T)" "fv_visited ?v = insert b (fv_visited v)"
    "fv_pending ?v = fv_pending v - {b} \<union> (if ?new then {s. cfg_edge g b s} else {})"
    by (simp_all add: view_turn_def Let_def)
  note grow = outs_grow [OF ok v b]
  have more: "incoming g sources (fv_outs v) c \<subseteq> incoming g sources (fv_outs ?v) c" for c by (rule incoming_mono [OF grow])
  have rb: "reached g b" using b by (intro solvingD(2) [OF v]) simp
  have settled: "incoming g sources (fv_outs ?v) c = incoming g sources (fv_outs v) c" if "c \<notin> fv_pending ?v" for c
  proof (rule incoming_same)
    fix p assume "cfg_edge g p c"
    with that show "fv_outs ?v p = fv_outs v p" by (cases ?new; cases "p = b") (simp_all add: f)
  qed
  have 1: "cfg_entry g \<in> fv_visited ?v \<union> fv_pending ?v" using solvingD(1) [OF v] by (auto simp: f)
  have 2: "\<forall>c \<in> fv_visited ?v \<union> fv_pending ?v. reached g c"
    using solvingD(2) [OF v] rb rtranclp.rtrancl_into_rtrancl [OF rb] by (auto simp: f split: if_splits)
  have 3: "\<forall>c. c \<notin> fv_visited ?v \<longrightarrow> fv_outs ?v c = {}" using solvingD(3) [OF v] by (auto simp: f)
  have 4: "\<exists>S. fv_in ?v c = Some S \<and> fv_outs ?v c = block_transfer uni g c S \<and> S \<subseteq> incoming g sources (fv_outs ?v) c
      \<and> (c \<notin> fv_pending ?v \<longrightarrow> S = incoming g sources (fv_outs ?v) c)
      \<and> (\<forall>s. cfg_edge g c s \<longrightarrow> s \<in> fv_visited ?v \<union> fv_pending ?v)" if c: "c \<in> fv_visited ?v" for c
  proof (cases "c = b")
    case True
    have "s \<in> fv_visited ?v \<union> fv_pending ?v" if "cfg_edge g b s" for s
      using that solving_visited [OF v, of b] by (cases ?new) (auto simp: f)
    with True more [of b] settled [of b] show ?thesis by (auto simp: f)
  next
    case False
    with c have "c \<in> fv_visited v" by (simp add: f)
    with v obtain S where S: "fv_in v c = Some S" "fv_outs v c = block_transfer uni g c S" "S \<subseteq> incoming g sources (fv_outs v) c"
      "c \<notin> fv_pending v \<Longrightarrow> S = incoming g sources (fv_outs v) c" "\<And>s. cfg_edge g c s \<Longrightarrow> s \<in> fv_visited v \<union> fv_pending v"
      by (rule solving_visited) blast
    have "S = incoming g sources (fv_outs ?v) c" if "c \<notin> fv_pending ?v"
      using S(4) settled [OF that] that False by (simp add: f)
    moreover have "\<forall>s. cfg_edge g c s \<longrightarrow> s \<in> fv_visited ?v \<union> fv_pending ?v" using S(5) by (auto simp: f)
    moreover have "fv_in ?v c = Some S" "fv_outs ?v c = block_transfer uni g c S" using S(1,2) False by (simp_all add: f)
    ultimately show ?thesis using subset_trans [OF S(3) more] by blast
  qed
  have 5: "\<forall>c. fv_outs ?v c \<subseteq> names_of uni g sources"
    using solvingD(4) [OF v] block_transfer_names [OF ok incoming_names [OF solvingD(4) [OF v]]] by (simp add: f)
  have 6: "fv_outs ?v c \<subseteq> X c" if X: "closed_under_flow uni g sources X" for X c
  proof -
    have outs: "fv_outs v p \<subseteq> X p" for p by (rule solvingD(5) [OF v X])
    have "fv_outs v p = {}" if "\<not> reached g p" for p using that solvingD(2,3) [OF v] by blast
    with outs have "?S \<subseteq> entry_taint g sources b \<union> (\<Union>p \<in> {p. reached g p \<and> cfg_edge g p b}. X p)"
      unfolding incoming_def by blast
    from block_transfer_mono [OF ok this] X rb have "?T \<subseteq> X b" unfolding closed_under_flow_def by blast
    with outs show ?thesis by (simp add: f)
  qed
  show ?thesis unfolding solving_def by (intro conjI ballI allI impI) (fact 1 | rule 2 [rule_format] 3 [rule_format] 4 5 [rule_format] 6, assumption?)+
qed

lemma view_smaller:
  assumes ok: "intra_ok uni g sources" and v: "solving uni g sources v" and b: "b \<in> fv_pending v"
    and new: "b \<notin> fv_visited v \<or> fv_outs v b \<noteq> block_transfer uni g b (incoming g sources (fv_outs v) b)"
  shows "view_size uni g sources (view_turn uni g sources b v) < view_size uni g sources v"
proof -
  let ?v = "view_turn uni g sources b v"
  let ?N = "names_of uni g sources"
  note v' = solving_turn [OF ok v b]
  note fin = finite_names [OF ok]
  have le: "card (?N - fv_outs ?v c) \<le> card (?N - fv_outs v c)" for c
    using outs_grow [OF ok v b, of c] fin by (intro card_mono) auto
  then have sum: "(\<Sum>c \<in> UNIV. card (?N - fv_outs ?v c)) \<le> (\<Sum>c \<in> UNIV. card (?N - fv_outs v c))" by (intro sum_mono)
  have vis: "fv_visited ?v = insert b (fv_visited v)" by (simp add: view_turn_def Let_def)
  show ?thesis
  proof (cases "b \<in> fv_visited v")
    case False
    then have "- fv_visited ?v \<subset> - fv_visited v" unfolding vis by auto
    then have "card (- fv_visited ?v) < card (- fv_visited v)" by (intro psubset_card_mono) simp
    with sum show ?thesis by (simp add: view_size_def)
  next
    case True
    with new have "fv_outs v b \<noteq> fv_outs ?v b" by (simp add: view_turn_def Let_def)
    with outs_grow [OF ok v b, of b] solvingD(4) [OF v'] have "?N - fv_outs ?v b \<subset> ?N - fv_outs v b" by blast
    then have "card (?N - fv_outs ?v b) < card (?N - fv_outs v b)" using fin by (intro psubset_card_mono) auto
    with le have "(\<Sum>c \<in> UNIV. card (?N - fv_outs ?v c)) < (\<Sum>c \<in> UNIV. card (?N - fv_outs v c))"
      by (intro sum_strict_mono_ex1) auto
    with True vis show ?thesis by (simp add: view_size_def insert_absorb)
  qed
qed

section \<open>The loop follows the view\<close>

definition queue_ok :: "intra_state \<Rightarrow> bool" where
  "queue_ok st \<longleftrightarrow> distinct (is_worklist st) \<and> is_enqueued st = set (is_worklist st) \<and> is_visited st \<subseteq> dom (is_out st)"

lemma enqueue_all:
  assumes "queue_ok st"
  shows "queue_ok (fold enqueue ss st) \<and> set (is_worklist (fold enqueue ss st)) = set (is_worklist st) \<union> set ss
    \<and> is_in (fold enqueue ss st) = is_in st \<and> is_out (fold enqueue ss st) = is_out st \<and> is_visited (fold enqueue ss st) = is_visited st"
  using assms
proof (induction ss arbitrary: st)
  case (Cons s ss)
  have "queue_ok (enqueue s st)" using Cons.prems by (auto simp: queue_ok_def enqueue_def)
  from Cons.IH [OF this] Cons.prems show ?case by (auto simp: enqueue_def queue_ok_def)
qed simp

lemma turn_view:
  assumes ok: "cfg_ok g" and b: "cfg_block g b = Some block" and st: "queue_ok st" "is_worklist st = ws @ [b]"
  shows "queue_ok (intra_turn uni g (build_predecessor_map g) sources b (st\<lparr>is_worklist := ws\<rparr>))
    \<and> view_of (intra_turn uni g (build_predecessor_map g) sources b (st\<lparr>is_worklist := ws\<rparr>)) = view_turn uni g sources b (view_of st)
    \<and> (\<not> (b \<notin> is_visited st \<or> out_of st b \<noteq> block_transfer uni g b (incoming g sources (out_of st) b))
        \<longrightarrow> length (is_worklist (intra_turn uni g (build_predecessor_map g) sources b (st\<lparr>is_worklist := ws\<rparr>))) = length ws)"
proof -
  let ?S = "incoming g sources (out_of st) b"
  let ?T = "transfer_events uni (bb_events block) ?S"
  have T: "block_transfer uni g b ?S = ?T" using b by (simp add: block_transfer_def)
  define st1 where "st1 = st\<lparr>is_worklist := ws, is_enqueued := is_enqueued st - {b}, is_iterations := saturating_add (is_iterations st) 1,
      is_in := (is_in st)(b \<mapsto> ?S), is_out := (is_out st)(b \<mapsto> ?T), is_visited := insert b (is_visited st)\<rparr>"
  let ?new = "b \<notin> is_visited st \<or> out_of st b \<noteq> ?T"
  have new: "b \<notin> is_visited st \<or> is_out st b \<noteq> Some ?T \<longleftrightarrow> ?new" using st(1) by (auto simp: queue_ok_def split: option.splits)
  have turn: "intra_turn uni g (build_predecessor_map g) sources b (st\<lparr>is_worklist := ws\<rparr>)
      = (if ?new then fold enqueue (bb_successors block) st1 else st1)"
    using b new by (simp add: intra_turn_def join_outs_edges [OF ok] st1_def Let_def)
  have q: "queue_ok st1" using st by (auto simp: queue_ok_def st1_def)
  have outs: "out_of st1 = (out_of st)(b := ?T)" by (rule ext) (simp add: st1_def)
  have succ: "{s. cfg_edge g b s} = set (bb_successors block)" using b by (simp add: cfg_edge_def)
  have ws: "set ws = set (is_worklist st) - {b}" using st by (auto simp: queue_ok_def)
  have view: "view_of st1 = view_turn uni g sources b (view_of st)\<lparr>fv_pending := set (is_worklist st) - {b}\<rparr>"
    using ws outs T by (simp add: view_of_def view_turn_def Let_def) (simp add: st1_def)
  show ?thesis
  proof (cases ?new)
    case True
    note e = enqueue_all [OF q, of "bb_successors block"]
    have "view_of (fold enqueue (bb_successors block) st1) = (view_of st1)\<lparr>fv_pending := set ws \<union> set (bb_successors block)\<rparr>"
      using e by (simp add: view_of_def) (simp add: st1_def)
    with True e view ws T succ show ?thesis unfolding turn by (simp add: view_turn_def view_of_def Let_def)
  next
    case False
    with q view T show ?thesis unfolding turn by (simp add: view_turn_def view_of_def Let_def st1_def)
  qed
qed

lemma reached_block: "cfg_ok g \<Longrightarrow> reached g b \<Longrightarrow> cfg_block g b \<noteq> None"
  by (erule rtranclp.cases) (auto simp: cfg_ok_def dest: successor_exists [rotated])

lemma loop_returns:
  assumes ok: "intra_ok uni g sources"
  shows "queue_ok st \<Longrightarrow> solving uni g sources (view_of st) \<Longrightarrow>
    \<exists>st'. intra_loop uni g (build_predecessor_map g) sources st = Some st' \<and> solving uni g sources (view_of st') \<and> is_worklist st' = []"
proof (induction st rule: wf_induct [OF wf_measures [of "[\<lambda>st. view_size uni g sources (view_of st), \<lambda>st. length (is_worklist st)]"]])
  case (1 st)
  show ?case
  proof (cases "is_worklist st = []")
    case True
    with 1 show ?thesis by (simp add: intra_loop.simps)
  next
    case False
    then obtain ws b where wl: "is_worklist st = ws @ [b]" by (metis rev_exhaust)
    let ?st = "intra_turn uni g (build_predecessor_map g) sources b (st\<lparr>is_worklist := ws\<rparr>)"
    have pend: "b \<in> fv_pending (view_of st)" using wl by (simp add: view_of_def)
    then have "reached g b" by (intro solvingD(2) [OF 1(3)]) simp
    then obtain block where block: "cfg_block g b = Some block" using reached_block ok by (auto simp: intra_ok_def)
    have "cfg_ok g" using ok by (simp add: intra_ok_def)
    note t = turn_view [OF this block 1(2) wl, of uni sources]
    have "(?st, st) \<in> measures [\<lambda>st. view_size uni g sources (view_of st), \<lambda>st. length (is_worklist st)]"
    proof (cases "b \<notin> is_visited st \<or> out_of st b \<noteq> block_transfer uni g b (incoming g sources (out_of st) b)")
      case True
      then have "view_size uni g sources (view_of ?st) < view_size uni g sources (view_of st)"
        using t view_smaller [OF ok 1(3) pend] by (simp add: view_of_def)
      then show ?thesis by simp
    next
      case False
      then have "length (is_worklist ?st) = length ws" using t by blast
      moreover have "view_size uni g sources (view_of ?st) \<le> view_size uni g sources (view_of st)"
        using t view_turn_same [of b "view_of st" uni g sources] False by (simp add: view_size_def view_of_def)
      ultimately show ?thesis using wl by auto
    qed
    moreover have "queue_ok ?st" "solving uni g sources (view_of ?st)" using t solving_turn [OF ok 1(3) pend] by simp_all
    ultimately have "\<exists>st'. intra_loop uni g (build_predecessor_map g) sources ?st = Some st' \<and> solving uni g sources (view_of st') \<and> is_worklist st' = []"
      using 1(1) by blast
    with wl show ?thesis by (subst intra_loop.simps) simp
  qed
qed

lemma start_solving:
  assumes "cfg_ok g"
  shows "queue_ok (intra_start g sources) \<and> solving uni g sources (view_of (intra_start g sources))"
proof -
  have empty: "(case fold (\<lambda>block m. m(bb_id block \<mapsto> {})) bs m b of Some S \<Rightarrow> S | None \<Rightarrow> {}) = {}"
    if "(case m b of Some S \<Rightarrow> S | None \<Rightarrow> {}) = {}" for bs and m :: "block_id \<rightharpoonup> token_set" and b
    using that by (induction bs arbitrary: m) simp_all
  have "out_of (intra_start g sources) b = {}" for b
    using empty [of Map.empty b "cfg_blocks g"] by (simp add: intra_start_def Let_def)
  then show ?thesis by (simp add: queue_ok_def solving_def view_of_def) (simp add: intra_start_def Let_def)
qed

text \<open>A block that has not been visited has the empty states it got at the start.\<close>

definition blank :: "cfg \<Rightarrow> block_id \<Rightarrow> token_set option" where
  "blank g b = (if b \<in> bb_id ` set (cfg_blocks g) then Some {} else None)"

definition untouched :: "cfg \<Rightarrow> intra_state \<Rightarrow> bool" where
  "untouched g st \<longleftrightarrow> (\<forall>b. b \<notin> insert (cfg_entry g) (is_visited st) \<longrightarrow> is_in st b = blank g b \<and> is_out st b = blank g b)"

lemma start_untouched: "untouched g (intra_start g sources)"
proof -
  have "fold (\<lambda>block m. m(bb_id block \<mapsto> {})) bs m b = (if b \<in> bb_id ` set bs then Some {} else m b)"
    for bs :: "basic_block list" and m :: "block_id \<rightharpoonup> token_set" and b
    by (induction bs arbitrary: m) auto
  then show ?thesis by (simp add: untouched_def intra_start_def blank_def Let_def)
qed

lemma enqueue_untouched: "untouched g (fold enqueue ss st) \<longleftrightarrow> untouched g st"
  by (induction ss arbitrary: st) (simp_all add: untouched_def enqueue_def)

lemma turn_untouched: "untouched g st \<Longrightarrow> untouched g (intra_turn uni g preds sources b (st\<lparr>is_worklist := ws\<rparr>))"
  by (auto simp: intra_turn_def Let_def enqueue_untouched split: option.split) (auto simp: untouched_def)

lemma loop_untouched:
  assumes "intra_loop uni g preds sources st = Some st'" "untouched g st"
  shows "untouched g st'"
proof -
  have "untouched g st \<longrightarrow> untouched g st'"
  proof (rule intra_loop.raw_induct [where P = "\<lambda>uni g preds sources st st'. untouched g st \<longrightarrow> untouched g st'", OF _ assms(1)], goal_cases)
    case (1 loop uni g preds sources st st')
    then show ?case using turn_untouched [of g st uni preds sources "last (is_worklist st)" "butlast (is_worklist st)"]
      by (cases "is_worklist st = []") auto
  qed
  with assms(2) show ?thesis by blast
qed

lemma solved_everywhere:
  assumes "solving uni g sources v" "fv_pending v = {}"
  shows "reached g b \<longleftrightarrow> b \<in> fv_visited v"
proof
  assume "reached g b"
  then show "b \<in> fv_visited v"
  proof (induction rule: rtranclp_induct)
    case base
    then show ?case using solvingD(1) [OF assms(1)] assms(2) by simp
  next
    case (step p s)
    from assms(1) step(3) show ?case by (rule solving_visited) (use step(2) assms(2) in auto)
  qed
qed (use solvingD(2) [OF assms(1)] in simp)

abbreviation taint_out :: "intra_taint_result \<Rightarrow> block_id \<Rightarrow> token_set" where
  "taint_out r b \<equiv> (case ir_block_out r b of Some S \<Rightarrow> S | None \<Rightarrow> {})"

text \<open>
  The data-flow equations on the blocks that the entry reaches, the empty states of the others, and
  that no other solution is smaller.
\<close>

definition least_solution :: "(string \<Rightarrow> bool) \<Rightarrow> cfg \<Rightarrow> token_set \<Rightarrow> intra_taint_result \<Rightarrow> bool" where
  "least_solution uni g sources r \<longleftrightarrow>
     (\<forall>b. if reached g b
          then ir_block_in r b = Some (incoming g sources (taint_out r) b)
            \<and> taint_out r b = block_transfer uni g b (incoming g sources (taint_out r) b)
          else ir_block_in r b = blank g b \<and> ir_block_out r b = blank g b)
     \<and> (\<forall>X. closed_under_flow uni g sources X \<longrightarrow> (\<forall>b. taint_out r b \<subseteq> X b))"

lemma least_solutionD:
  assumes "least_solution uni g sources r" "reached g b"
  shows "ir_block_in r b = Some (incoming g sources (taint_out r) b)"
    "taint_out r b = block_transfer uni g b (incoming g sources (taint_out r) b)"
  using assms unfolding least_solution_def by meson+

lemma intra_solves:
  assumes "intra_ok uni g sources"
  obtains r where "intraprocedural_taint uni g sources = Some r" "least_solution uni g sources r"
proof -
  have "cfg_ok g" using assms by (simp add: intra_ok_def)
  from start_solving [OF this] loop_returns [OF assms] obtain st where st:
    "intra_loop uni g (build_predecessor_map g) sources (intra_start g sources) = Some st"
    "solving uni g sources (view_of st)" "is_worklist st = []" by blast
  have pend: "fv_pending (view_of st) = {}" using st(3) by (simp add: view_of_def)
  note all = solved_everywhere [OF st(2) pend]
  have f: "fv_outs (view_of st) = out_of st" "fv_in (view_of st) = is_in st" by (simp_all add: view_of_def)
  define r where "r = \<lparr>ir_block_in = is_in st, ir_block_out = is_out st, ir_iterations = is_iterations st,
      ir_diagnostics = entry_predecessor_diagnostics g (build_predecessor_map g)\<rparr>"
  have out_at: "taint_out r b = out_of st b" for b by (simp add: r_def)
  have out: "taint_out r = out_of st" by (rule ext) (rule out_at)
  have eqs: "ir_block_in r b = Some (incoming g sources (out_of st) b)
      \<and> out_of st b = block_transfer uni g b (incoming g sources (out_of st) b)" if "reached g b" for b
    using st(2) that [unfolded all] by (rule solving_visited) (simp add: pend f r_def)
  have "untouched g st" by (rule loop_untouched [OF st(1) start_untouched])
  have "reached g (cfg_entry g)" by simp
  have rest: "ir_block_in r b = blank g b \<and> ir_block_out r b = blank g b" if "\<not> reached g b" for b
  proof -
    have "b \<noteq> cfg_entry g" using that \<open>reached g (cfg_entry g)\<close> by blast
    moreover have "b \<notin> is_visited st" using that unfolding all by (simp add: view_of_def)
    ultimately show ?thesis using \<open>untouched g st\<close> by (simp add: untouched_def r_def)
  qed
  have "least_solution uni g sources r"
    using eqs rest solvingD(3,5) [OF st(2)] by (simp add: least_solution_def out out_at f)
  moreover have "intraprocedural_taint uni g sources = Some r" using st(1) by (simp add: intraprocedural_taint_def r_def)
  ultimately show thesis using that by blast
qed

section \<open>Executions\<close>

text \<open>The transfer of an event on its own, and graphs in which no event is refined by another of its block.\<close>

definition event_taint :: "(string \<Rightarrow> bool) \<Rightarrow> flow_event \<Rightarrow> token_set \<Rightarrow> token_set" where
  "event_taint uni e S = transfer_event uni [e] (0, e) S"

definition no_projections :: "(string \<Rightarrow> bool) \<Rightarrow> cfg \<Rightarrow> bool" where
  "no_projections uni g \<longleftrightarrow> (\<forall>block \<in> set (cfg_blocks g). \<forall>i < length (bb_events block).
     \<not> assignment_has_precise_field_projection uni (bb_events block) i (bb_events block ! i))"

lemma transfer_event_alone:
  assumes "\<not> assignment_has_precise_field_projection uni events i e"
  shows "transfer_event uni events (i, e) S = event_taint uni e S"
proof (cases e)
  case (Assign sp target sn sc args ns d k)
  have "\<not> assignment_has_precise_field_projection uni [e] 0 e" by (simp add: Assign Let_def)
  with assms show ?thesis by (simp add: Assign event_taint_def)
qed (simp_all add: event_taint_def)

lemma transfer_events_alone:
  assumes "\<forall>i < length events. \<not> assignment_has_precise_field_projection uni events i (events ! i)"
  shows "transfer_events uni events S = fold (event_taint uni) events S"
proof -
  have "fold (transfer_event uni events) (List.enumerate n es) S = fold (event_taint uni) es S"
    if "events = pre @ es" "n = length pre" for n pre es S
    using that
  proof (induction es arbitrary: n pre S)
    case (Cons e es)
    from Cons.prems have "n < length events" "events ! n = e" by simp_all
    with assms have "\<not> assignment_has_precise_field_projection uni events n e" by blast
    with Cons.IH [of "pre @ [e]" "Suc n"] Cons.prems show ?case by (simp add: transfer_event_alone)
  qed simp
  from this [of "[]" events 0 S] show ?thesis by (simp add: transfer_events_def)
qed

lemma event_taint_mono: "plain_assign uni e \<Longrightarrow> A \<subseteq> B \<Longrightarrow> event_taint uni e A \<subseteq> event_taint uni e B"
  using transfer_events_mono [of uni "[e]" A B] by (simp add: event_taint_def transfer_events_def)

text \<open>What the result says before the event at index \<open>k\<close> of block \<open>i\<close>.\<close>

definition taint_before :: "(string \<Rightarrow> bool) \<Rightarrow> cfg \<Rightarrow> intra_taint_result \<Rightarrow> nat \<Rightarrow> nat \<Rightarrow> token_set" where
  "taint_before uni g r i k =
     fold (event_taint uni) (take k (bb_events (cfg_blocks g ! i)))
       (case ir_block_in r (of_nat i) of Some S \<Rightarrow> S | None \<Rightarrow> {})"

lemma cfg_edge_iff:
  assumes "cfg_ok g" "i < length (cfg_blocks g)"
  shows "cfg_edge g (of_nat i) s \<longleftrightarrow> s \<in> set (bb_successors (cfg_blocks g ! i))"
  using assms by (simp add: cfg_edge_def cfg_ok_def cfg_block_def unat_of_nat_u32)

lemma run_covered:
  assumes ok: "intra_ok uni g sources" and np: "no_projections uni g" and r: "intraprocedural_taint uni g sources = Some r"
  shows "run (cfg_blocks g) x t y \<Longrightarrow> fst x < length (cfg_blocks g) \<Longrightarrow> reached g (of_nat (fst x)) \<Longrightarrow>
    S \<subseteq> taint_before uni g r (fst x) (snd x) \<Longrightarrow> fold (event_taint uni) t S \<subseteq> taint_before uni g r (fst y) (snd y)"
proof (induction arbitrary: S rule: run.induct)
  case (run_emit i k t y)
  let ?e = "bb_events (cfg_blocks g ! i) ! k"
  have "?e \<in> set (bb_events (cfg_blocks g ! i))" "cfg_blocks g ! i \<in> set (cfg_blocks g)"
    using run_emit(1,2) by (simp_all add: elen_def)
  then have "?e \<in> cfg_events g" unfolding cfg_events_def by blast
  with ok have "plain_assign uni ?e" by (simp add: intra_ok_def canonical_program_def)
  then have "event_taint uni ?e S \<subseteq> event_taint uni ?e (taint_before uni g r i k)"
    using run_emit.prems by (intro event_taint_mono) simp_all
  also have "\<dots> = taint_before uni g r i (Suc k)" using run_emit(2) by (simp add: taint_before_def take_Suc_conv_app_nth elen_def)
  finally show ?case using run_emit by simp
next
  case (run_jump i j k t y)
  have g: "cfg_ok g" using ok by (simp add: intra_ok_def)
  from ok obtain r' where "intraprocedural_taint uni g sources = Some r'" "least_solution uni g sources r'" by (rule intra_solves)
  with r have "least_solution uni g sources r" by simp
  note in_eq = least_solutionD(1) [OF this] and out_eq = least_solutionD(2) [OF this]
  from run_jump(1) have ij: "i < length (cfg_blocks g)" "j < length (cfg_blocks g)" "cfg_edge g (of_nat i) (of_nat j)"
    by (simp_all add: edge_def cfg_edge_iff [OF g])
  have rj: "reached g (of_nat j)" using run_jump.prems(2) ij(3) by (simp add: rtranclp.rtrancl_into_rtrancl)
  have "cfg_block g (of_nat i) = Some (cfg_blocks g ! i)" using g ij(1) by (simp add: cfg_ok_def cfg_block_def unat_of_nat_u32)
  moreover have "cfg_blocks g ! i \<in> set (cfg_blocks g)" using ij(1) by simp
  ultimately have "taint_out r (of_nat i) = taint_before uni g r i k"
    using out_eq [of "of_nat i"] in_eq [of "of_nat i"] run_jump.prems(2) np run_jump(2)
    by (simp add: block_transfer_def transfer_events_alone no_projections_def taint_before_def elen_def)
  moreover have "taint_out r (of_nat i) \<subseteq> incoming g sources (taint_out r) (of_nat j)"
    using ij(3) unfolding incoming_def by blast
  ultimately have "S \<subseteq> taint_before uni g r j 0"
    using run_jump.prems(3) in_eq [OF rj] by (simp add: taint_before_def)
  with run_jump.IH ij(2) rj show ?case by simp
qed simp

lemma run_at:
  "run bs x t y \<Longrightarrow> n < length t \<Longrightarrow>
    \<exists>i k. run bs x (take n t) (i, k) \<and> i < length bs \<and> k < elen bs i \<and> bb_events (bs ! i) ! k = t ! n"
proof (induction arbitrary: n rule: run.induct)
  case (run_emit i k t y)
  show ?case
  proof (cases n)
    case 0
    with run_emit(1,2) show ?thesis using run.run_refl [of bs "(i, k)"] by auto
  next
    case (Suc m)
    with run_emit.IH [of m] run_emit.prems obtain i' k' where
      "run bs (i, Suc k) (take m t) (i', k')" "i' < length bs" "k' < elen bs i'" "bb_events (bs ! i') ! k' = t ! m" by auto
    with run.run_emit [OF run_emit(1,2) this(1)] Suc show ?thesis
      by (intro exI [of _ i'] exI [of _ k']) simp
  qed
next
  case (run_jump i j k t y)
  then show ?case using run.run_jump [OF run_jump(1,2)] by blast
qed simp

section \<open>Properties\<close>

text \<open>
  C5: on a well-formed graph, for finitely many sources that normalise to canonical places (ASCII identifiers joined by
  dots, possibly with the wildcard at the end) and plain assignments (their targets normalise to such places without a
  wildcard, and a call without operands has no source name and a normal target), the worklist stops; on every block that the entry reaches the
  states it returns satisfy the data-flow equations (the state at the start of a block is the sources, at the entry,
  and the union of the states at the end of its predecessors; the state at the end is its transfer); both states of
  every other block are empty; and no family of states closed under these equations is smaller.
\<close>

theorem intra_least_solution:
  assumes "intra_ok uni g sources"
  shows "\<exists>r. intraprocedural_taint uni g sources = Some r \<and> least_solution uni g sources r"
  using assms by (rule intra_solves) blast

text \<open>The loop that copies \<open>x\<close> to \<open>y\<close> after it has copied \<open>y\<close> to \<open>z\<close>.\<close>

definition sound_input :: "(string \<Rightarrow> bool) \<Rightarrow> cfg \<Rightarrow> bool" where
  "sound_input uni g \<longleftrightarrow> list_all (\<lambda>block. list_all (plain_assign uni) (bb_events block)
     \<and> list_all (\<lambda>(i, e). \<not> assignment_has_precise_field_projection uni (bb_events block) i e)
         (List.enumerate 0 (bb_events block))) (cfg_blocks g)"

lemma copy_loop_graph:
  obtains raw g where "build_raw copy_loop = Some (1, 0, raw)" "length raw \<le> 2 ^ 32"
    "build_cfg_from_flow_in_span ''f'' None copy_loop = Some g"
    "canonical_program (\<lambda>_. False) {''x''} (cfg_events g)" "no_projections (\<lambda>_. False) g"
proof -
  have "map_option (\<lambda>(a, b, bs). (a, b, length bs < 100)) (build_raw copy_loop) = Some (1, 0, True)" by code_simp
  then obtain raw where raw: "build_raw copy_loop = Some (1, 0, raw)" "length raw \<le> 2 ^ 32" by auto
  have "map_option (sound_input (\<lambda>_. False)) (build_cfg_from_flow_in_span ''f'' None copy_loop) = Some True" by code_simp
  then obtain g where g: "build_cfg_from_flow_in_span ''f'' None copy_loop = Some g" "sound_input (\<lambda>_. False) g" by auto
  have "canonical (normalise_target_text (\<lambda>_. False) ''x'')" by code_simp
  with g(2) have "canonical_program (\<lambda>_. False) {''x''} (cfg_events g)"
    by (auto simp: sound_input_def list_all_iff canonical_program_def cfg_events_def)
  moreover have "no_projections (\<lambda>_. False) g"
    using g(2) by (force simp: sound_input_def list_all_iff no_projections_def in_set_enumerate_eq)
  ultimately show thesis using that raw g(1) by blast
qed

theorem intra_least_solution_witness:
  "\<exists>g r. build_cfg_from_flow_in_span ''f'' None copy_loop = Some g \<and> intra_ok (\<lambda>_. False) g {''x''}
    \<and> intraprocedural_taint (\<lambda>_. False) g {''x''} = Some r \<and> least_solution (\<lambda>_. False) g {''x''} r"
proof -
  obtain raw g where g: "build_raw copy_loop = Some (1, 0, raw)" "length raw \<le> 2 ^ 32"
    "build_cfg_from_flow_in_span ''f'' None copy_loop = Some g"
    "canonical_program (\<lambda>_. False) {''x''} (cfg_events g)" "no_projections (\<lambda>_. False) g" by (rule copy_loop_graph)
  then have "intra_ok (\<lambda>_. False) g {''x''}"
    using built_shape [OF g(1-3)] by (simp add: intra_ok_def cfg_ok_def cfg_block_def)
  with intra_least_solution [OF this] g(3) show ?thesis by blast
qed

text \<open>
  C4: the pass covers executions. Take finitely many sources that normalise to canonical places (ASCII identifiers
  joined by dots, possibly with the wildcard at the end), and the graph built for an event tree in whose cleanup
  regions every break and continue names a loop of the region itself, with at most \<open>2 ^ 32\<close> blocks, and plain assignments
  (their targets normalise to such places without a wildcard, and a call without operands has no source name and a
  normal target) none of which another of its block refines. Whenever a structured execution of the tree arrives at an event, its taint, followed event by
  event from the sources, is within what the result says before that event, at one of the places where the graph has it.
\<close>

theorem intra_covers_executions:
  assumes "list_all cleanup_closed events" "exec [] (At events) t oc"
    and "build_raw events = Some (entry, exit, raw)" "length raw \<le> 2 ^ 32"
    and "build_cfg_from_flow_in_span name fs events = Some g"
    and "finite sources" "canonical_program uni sources (cfg_events g)" "no_projections uni g"
    and "n < length t"
  shows "\<exists>r i k. intraprocedural_taint uni g sources = Some r
    \<and> i < length (cfg_blocks g) \<and> k < length (bb_events (cfg_blocks g ! i)) \<and> bb_events (cfg_blocks g ! i) ! k = t ! n
    \<and> fold (event_taint uni) (take n t) sources \<subseteq> taint_before uni g r i k"
proof -
  note shape = built_shape [OF assms(3-5)]
  then have g: "cfg_ok g" by (simp add: cfg_ok_def cfg_block_def)
  with assms(6,7) have ok: "intra_ok uni g sources" by (simp add: intra_ok_def)
  then obtain r where r: "intraprocedural_taint uni g sources = Some r" "least_solution uni g sources r" by (rule intra_solves)
  obtain y where "run (cfg_blocks g) (unat (cfg_entry g), 0) t y"
    using built_covers [OF assms(1-4), of name fs] assms(5) by (auto simp: ends_in_def)
  from run_at [OF this assms(9)] obtain i k where i: "run (cfg_blocks g) (unat (cfg_entry g), 0) (take n t) (i, k)"
    "i < length (cfg_blocks g)" "k < elen (cfg_blocks g) i" "bb_events (cfg_blocks g ! i) ! k = t ! n" by blast
  have "sources \<subseteq> taint_before uni g r (unat (cfg_entry g)) 0"
    using least_solutionD(1) [OF r(2), of "cfg_entry g"] by (auto simp: taint_before_def incoming_def entry_taint_def)
  from run_covered [OF ok assms(8) r(1) i(1), of sources] this shape
  have "fold (event_taint uni) (take n t) sources \<subseteq> taint_before uni g r i k" by simp
  with r(1) i show ?thesis by (auto simp: elen_def)
qed

theorem intra_covers_executions_witness:
  "\<exists>g r i k. build_cfg_from_flow_in_span ''f'' None copy_loop = Some g
    \<and> intraprocedural_taint (\<lambda>_. False) g {''x''} = Some r \<and> k < length (bb_events (cfg_blocks g ! i))
    \<and> {''x'', ''y'', ''z''} \<subseteq> taint_before (\<lambda>_. False) g r i k"
proof -
  let ?t = "concat (replicate 2 (nested_events (hd copy_loop)))"
  obtain raw g where g: "build_raw copy_loop = Some (1, 0, raw)" "length raw \<le> 2 ^ 32"
    "build_cfg_from_flow_in_span ''f'' None copy_loop = Some g"
    "canonical_program (\<lambda>_. False) {''x''} (cfg_events g)" "no_projections (\<lambda>_. False) g" by (rule copy_loop_graph)
  have c: "list_all cleanup_closed copy_loop" by code_simp
  have l: "3 < length ?t" by code_simp
  have "list_all (\<lambda>s. s \<in> fold (event_taint (\<lambda>_. False)) (take 3 ?t) {''x''}) [''x'', ''y'', ''z'']" by code_simp
  then have "{''x'', ''y'', ''z''} \<subseteq> fold (event_taint (\<lambda>_. False)) (take 3 ?t) {''x''}" by simp
  with intra_covers_executions [OF c copy_loop_exec g(1-3) _ g(4,5) l] g(3) show ?thesis by blast
qed

end
