(* ===== verification/Flow_Operations.thy ===== *)
theory Flow_Operations
  imports Taint_Text Flow_Lowering "HOL-Library.List_Lexorder" "HOL-Library.Char_ord" "HOL-Library.Multiset"
begin

text \<open>
  The operations of \<^verbatim>\<open>crates/lang_api/src/types.rs\<close>: the flat list of reads, writes, calls and other
  use-site facts that \<^verbatim>\<open>operations_from_flow_events\<close> derives from an event tree. A function here
  returns the operations that the Rust function pushes to its output vector. Strings are sorted by
  their bytes.

  Shown: which reads the list has, that operands are not repeated and spans are those of events of
  the tree, and that lowering deferred scopes only permutes the list.
\<close>

section \<open>Operations\<close>

datatype operation_kind =
  OpRead | OpWrite | OpCall | OpIndex | OpDeref | OpFieldAccess | OpCast | OpResourceUse | OpAllocate | OpRelease
| OpLifecycle | OpReturn | OpThrow | OpAwait | OpYield | OpBranchCondition | OpCatchBinding | OpExternalBoundary

fun operation_kind_str :: "operation_kind \<Rightarrow> string" where
  "operation_kind_str OpRead = ''read''"
| "operation_kind_str OpWrite = ''write''"
| "operation_kind_str OpCall = ''call''"
| "operation_kind_str OpIndex = ''index''"
| "operation_kind_str OpDeref = ''deref''"
| "operation_kind_str OpFieldAccess = ''field_access''"
| "operation_kind_str OpCast = ''cast''"
| "operation_kind_str OpResourceUse = ''resource_use''"
| "operation_kind_str OpAllocate = ''allocate''"
| "operation_kind_str OpRelease = ''release''"
| "operation_kind_str OpLifecycle = ''lifecycle''"
| "operation_kind_str OpReturn = ''return''"
| "operation_kind_str OpThrow = ''throw''"
| "operation_kind_str OpAwait = ''await''"
| "operation_kind_str OpYield = ''yield''"
| "operation_kind_str OpBranchCondition = ''branch_condition''"
| "operation_kind_str OpCatchBinding = ''catch_binding''"
| "operation_kind_str OpExternalBoundary = ''external_boundary''"

datatype operation_operand_role =
  RlRead | RlWrite | RlReceiver | RlArgument | RlCallee | RlCondition | RlReturned | RlThrown | RlResource | RlTransition

fun operand_role_str :: "operation_operand_role \<Rightarrow> string" where
  "operand_role_str RlRead = ''read''"
| "operand_role_str RlWrite = ''write''"
| "operand_role_str RlReceiver = ''receiver''"
| "operand_role_str RlArgument = ''argument''"
| "operand_role_str RlCallee = ''callee''"
| "operand_role_str RlCondition = ''condition''"
| "operand_role_str RlReturned = ''returned''"
| "operand_role_str RlThrown = ''thrown''"
| "operand_role_str RlResource = ''resource''"
| "operand_role_str RlTransition = ''transition''"

record operation_operand =
  oo_name :: string
  oo_role :: operation_operand_role

record operation =
  op_span :: span
  op_kind :: operation_kind
  op_target :: "string option"
  op_operands :: "operation_operand list"
  op_detail :: "string option"

abbreviation operand :: "string \<Rightarrow> operation_operand_role \<Rightarrow> operation_operand" where
  "operand name role \<equiv> \<lparr>oo_name = name, oo_role = role\<rparr>"

section \<open>Names\<close>

definition non_empty :: "string option \<Rightarrow> string option" where
  "non_empty value = Option.bind value (\<lambda>s. let trimmed = str_trim s in if trimmed \<noteq> [] then Some trimmed else None)"

text \<open>The filter that keeps a string that is not blank, untrimmed.\<close>

definition not_blank :: "string option \<Rightarrow> string option" where
  "not_blank value = Option.bind value (\<lambda>s. if str_trim s \<noteq> [] then Some s else None)"

definition opt_list :: "'a option \<Rightarrow> 'a list" where
  "opt_list x = (case x of Some a \<Rightarrow> [a] | None \<Rightarrow> [])"

definition optional_operand :: "string option \<Rightarrow> operation_operand_role \<Rightarrow> operation_operand list" where
  "optional_operand name role = map (\<lambda>name. operand name role) (opt_list (non_empty name))"

fun collect_flow_names :: "expression_flow \<Rightarrow> string list" where
  "collect_flow_names (ExpressionFlow place proj source_names sites aggregate_fields items spreads) =
     opt_list (non_empty place) @ filter (\<lambda>name. str_trim name \<noteq> []) source_names
     @ concat (map (\<lambda>field. case field of ExpressionField _ _ value \<Rightarrow> collect_flow_names value) aggregate_fields)
     @ concat (map collect_flow_names items) @ concat (map collect_flow_names spreads)"

definition expression_flow_source_names :: "expression_flow \<Rightarrow> string list" where
  "expression_flow_source_names flow = remdups_adj (sort (collect_flow_names flow))"

definition is_release_transition :: "string \<Rightarrow> bool" where
  "is_release_transition transition \<longleftrightarrow>
     transition \<in> {''freed'', ''closed'', ''unlocked'', ''cancelled'', ''canceled'', ''moved''}"

fun retain_unseen :: "(operation_operand_role \<times> string) set \<Rightarrow> operation_operand list \<Rightarrow> operation_operand list" where
  "retain_unseen seen [] = []"
| "retain_unseen seen (x # xs) =
     (if (oo_role x, oo_name x) \<in> seen then retain_unseen seen xs
      else x # retain_unseen (insert (oo_role x, oo_name x) seen) xs)"

definition dedup_operands :: "operation_operand list \<Rightarrow> operation_operand list" where
  "dedup_operands operands = retain_unseen {} operands"

section \<open>Shapes of places\<close>

definition place_has_index_shape :: "string \<Rightarrow> bool" where
  "place_has_index_shape place \<longleftrightarrow> CHR ''['' \<in> set place \<and> CHR '']'' \<in> set place"

definition place_has_deref_shape :: "string \<Rightarrow> bool" where
  "place_has_deref_shape place \<longleftrightarrow> take 1 (str_trim_start place) \<in> {''*'', ''&''}"

definition place_has_field_shape :: "(string \<Rightarrow> bool) \<Rightarrow> string \<Rightarrow> bool" where
  "place_has_field_shape uni place \<longleftrightarrow> qualified_name_owner uni place \<noteq> None"

definition place_operation :: "span \<Rightarrow> operation_kind \<Rightarrow> string \<Rightarrow> operation_operand_role \<Rightarrow> string \<Rightarrow> operation" where
  "place_operation sp kind name role detail =
     \<lparr>op_span = sp, op_kind = kind, op_target = Some name, op_operands = [operand name role], op_detail = Some detail\<rparr>"

definition place_shape_operations :: "(string \<Rightarrow> bool) \<Rightarrow> span \<Rightarrow> string \<Rightarrow> operation_operand_role \<Rightarrow> operation list" where
  "place_shape_operations uni sp place role =
     (if place_has_index_shape place then [place_operation sp OpIndex place role ''normalized_place''] else [])
     @ (if place_has_deref_shape place then [place_operation sp OpDeref place role ''normalized_place''] else [])
     @ (if place_has_field_shape uni place then [place_operation sp OpFieldAccess place role ''normalized_place''] else [])"

text \<open>A read of a place, followed by the shapes of the place.\<close>

definition read_operations :: "(string \<Rightarrow> bool) \<Rightarrow> span \<Rightarrow> operation_operand_role \<Rightarrow> string \<Rightarrow> string \<Rightarrow> operation list" where
  "read_operations uni sp role detail name = place_operation sp OpRead name role detail # place_shape_operations uni sp name role"

section \<open>The operations of an event\<close>

definition call_arg_operands :: "call_arg \<Rightarrow> operation_operand list" where
  "call_arg_operands arg =
     optional_operand (ca_place arg) RlArgument @ concat (map (\<lambda>source. optional_operand (Some source) RlRead) (ca_source_names arg))"

definition call_arg_read_operations :: "(string \<Rightarrow> bool) \<Rightarrow> span \<Rightarrow> call_arg \<Rightarrow> operation list" where
  "call_arg_read_operations uni sp arg =
     concat (map (read_operations uni sp RlArgument ''call_argument'')
       (opt_list (non_empty (ca_place arg)) @ concat (map (\<lambda>source. opt_list (non_empty (Some source))) (ca_source_names arg))))"

definition call_operations ::
  "(string \<Rightarrow> bool) \<Rightarrow> span \<Rightarrow> string \<Rightarrow> string option \<Rightarrow> call_kind \<Rightarrow> call_arg list \<Rightarrow> operation list" where
  "call_operations uni sp name receiver kind args =
     \<lparr>op_span = sp, op_kind = OpCall, op_target = Some name,
      op_operands = [operand name RlCallee] @ optional_operand receiver RlReceiver @ concat (map call_arg_operands args),
      op_detail = Some (call_kind_str kind)\<rparr>
     # (if kind = CkConstructor then [place_operation sp OpAllocate name RlCallee ''constructor''] else [])
     @ concat (map (read_operations uni sp RlReceiver ''call_receiver'') (opt_list (non_empty receiver)))
     @ concat (map (call_arg_read_operations uni sp) args)"

definition assign_operations ::
  "(string \<Rightarrow> bool) \<Rightarrow> span \<Rightarrow> string \<Rightarrow> string option \<Rightarrow> string option \<Rightarrow> string list \<Rightarrow> string list \<Rightarrow> operation list" where
  "assign_operations uni sp target source_name source_call source_call_args source_names =
     \<lparr>op_span = sp, op_kind = OpWrite, op_target = Some target,
      op_operands = [operand target RlWrite] @ optional_operand source_name RlRead @ optional_operand source_call RlCallee
        @ concat (map (\<lambda>source. optional_operand (Some source) RlRead) source_names)
        @ concat (map (\<lambda>arg. optional_operand (Some arg) RlArgument) source_call_args),
      op_detail = None\<rparr>
     # place_shape_operations uni sp target RlWrite
     @ concat (map (read_operations uni sp RlRead ''assign_source'')
         (opt_list (non_empty source_name) @ concat (map (\<lambda>source. opt_list (non_empty (Some source))) source_names)))
     @ map (\<lambda>call. \<lparr>op_span = sp, op_kind = OpCall, op_target = Some call,
         op_operands = concat (map (\<lambda>arg. optional_operand (Some arg) RlArgument) source_call_args),
         op_detail = Some ''assignment_source''\<rparr>) (opt_list (non_empty source_call))"

definition aggregate_operations :: "(string \<Rightarrow> bool) \<Rightarrow> span \<Rightarrow> string \<Rightarrow> expression_flow \<Rightarrow> operation list" where
  "aggregate_operations uni sp target value_flow =
     (let sources = expression_flow_source_names value_flow in
      \<lparr>op_span = sp, op_kind = OpWrite, op_target = Some target,
       op_operands = operand target RlWrite # map (\<lambda>name. operand name RlRead) sources,
       op_detail = Some ''aggregate_initializer''\<rparr>
      # place_shape_operations uni sp target RlWrite
      @ concat (map (read_operations uni sp RlRead ''aggregate_initializer'') sources))"

definition return_operations ::
  "(string \<Rightarrow> bool) \<Rightarrow> span \<Rightarrow> string option \<Rightarrow> expression_flow \<Rightarrow> operation list" where
  "return_operations uni sp value_name value_flow =
     (let target = (case not_blank value_name of Some s \<Rightarrow> Some s | None \<Rightarrow> not_blank (ef_place value_flow));
          sources = expression_flow_source_names value_flow
      in \<lparr>op_span = sp, op_kind = OpReturn, op_target = target, op_operands = map (\<lambda>s. operand s RlReturned) sources,
          op_detail = None\<rparr>
         # concat (map (read_operations uni sp RlReturned ''return_value'') sources))"

definition throw_operations :: "span \<Rightarrow> string option \<Rightarrow> string option \<Rightarrow> operation list" where
  "throw_operations sp value_name thrown_type =
     \<lparr>op_span = sp, op_kind = OpThrow, op_target = (case value_name of Some s \<Rightarrow> Some s | None \<Rightarrow> thrown_type),
      op_operands = optional_operand value_name RlThrown, op_detail = thrown_type\<rparr>
     # map (\<lambda>v. place_operation sp OpRead v RlThrown ''throw_value'') (opt_list (non_empty value_name))"

definition yield_rendered :: "string option \<Rightarrow> expression_flow \<Rightarrow> string list \<Rightarrow> string list" where
  "yield_rendered value_text value_flow sources =
     (case map_option str_trim value_text of
        Some text \<Rightarrow> (if text \<noteq> [] \<and> ef_place value_flow \<noteq> None \<and> length sources = 1 then map (\<lambda>_. text) sources else sources)
      | None \<Rightarrow> sources)"

definition yield_operations :: "(string \<Rightarrow> bool) \<Rightarrow> span \<Rightarrow> string option \<Rightarrow> expression_flow \<Rightarrow> operation list" where
  "yield_operations uni sp value_text value_flow =
     (let sources = expression_flow_source_names value_flow in
      \<lparr>op_span = sp, op_kind = OpYield, op_target = not_blank value_text,
       op_operands = map (\<lambda>s. operand s RlReturned) sources, op_detail = None\<rparr>
      # concat (map (read_operations uni sp RlReturned ''yield_value'') (yield_rendered value_text value_flow sources)))"

definition await_operations :: "span \<Rightarrow> string option \<Rightarrow> operation list" where
  "await_operations sp value_name =
     \<lparr>op_span = sp, op_kind = OpAwait, op_target = value_name, op_operands = optional_operand value_name RlRead, op_detail = None\<rparr>
     # map (\<lambda>v. place_operation sp OpRead v RlRead ''await_value'') (opt_list (non_empty value_name))"

definition lifecycle_operation :: "span \<Rightarrow> string \<Rightarrow> string \<Rightarrow> operation" where
  "lifecycle_operation sp name transition =
     \<lparr>op_span = sp, op_kind = (if is_release_transition transition then OpRelease else OpLifecycle), op_target = Some name,
      op_operands = [operand name RlResource, operand transition RlTransition], op_detail = Some transition\<rparr>"

definition binding_operations :: "span \<Rightarrow> operation_kind \<Rightarrow> operation_operand_role \<Rightarrow> string option \<Rightarrow> operation list" where
  "binding_operations sp kind role name =
     map (\<lambda>name. \<lparr>op_span = sp, op_kind = kind, op_target = Some name, op_operands = [operand name role], op_detail = None\<rparr>)
       (opt_list (non_empty name))"

fun collect_event :: "(string \<Rightarrow> bool) \<Rightarrow> flow_event \<Rightarrow> operation list" where
  "collect_event uni (Call sp name receiver chain kind args) = call_operations uni sp name receiver kind args"
| "collect_event uni (Branch sp condition then_events else_events) =
     binding_operations sp OpBranchCondition RlCondition condition
     @ concat (map (collect_event uni) then_events) @ concat (map (collect_event uni) else_events)"
| "collect_event uni (Loop sp kind label condition_events update_events body) =
     concat (map (collect_event uni) condition_events) @ concat (map (collect_event uni) body)
     @ concat (map (collect_event uni) update_events)"
| "collect_event uni (Assign sp target source_name source_call source_call_args source_names fresh kind) =
     assign_operations uni sp target source_name source_call source_call_args source_names"
| "collect_event uni (AggregateAssign sp target type_name value_flow) = aggregate_operations uni sp target value_flow"
| "collect_event uni (Return sp kind value_text value_name value_flow) = return_operations uni sp value_name value_flow"
| "collect_event uni (Throw sp value_name thrown_type) = throw_operations sp value_name thrown_type"
| "collect_event uni (Try sp body catch_events finally_events catch_param catch_types catch_arms) =
     concat (map (collect_event uni) body) @ binding_operations sp OpCatchBinding RlWrite catch_param
     @ concat (map (collect_event uni) catch_events) @ concat (map (collect_event uni) finally_events)"
| "collect_event uni (Yield sp value_text value_flow) = yield_operations uni sp value_text value_flow"
| "collect_event uni (Await sp value_name) = await_operations sp value_name"
| "collect_event uni (Defer sp body) = concat (map (collect_event uni) body)"
| "collect_event uni (Using sp body) =
     \<lparr>op_span = sp, op_kind = OpResourceUse, op_target = None, op_operands = [], op_detail = Some ''using_scope''\<rparr>
     # concat (map (collect_event uni) body)"
| "collect_event uni (Lifecycle sp name transition) = [lifecycle_operation sp name transition]"
| "collect_event uni (Break _ _) = []"
| "collect_event uni (Continue _ _) = []"

definition collect_operations :: "(string \<Rightarrow> bool) \<Rightarrow> flow_event list \<Rightarrow> operation list" where
  "collect_operations uni events = concat (map (collect_event uni) events)"

definition operations_from_flow_events :: "(string \<Rightarrow> bool) \<Rightarrow> flow_event list \<Rightarrow> operation list" where
  "operations_from_flow_events uni events =
     map (\<lambda>op. op\<lparr>op_operands := dedup_operands (op_operands op)\<rparr>) (collect_operations uni events)"

section \<open>Lemmas\<close>

lemma collect_operations_Nil [simp]: "collect_operations uni [] = []"
  by (simp add: collect_operations_def)

lemma collect_operations_Cons [simp]: "collect_operations uni (e # es) = collect_event uni e @ collect_operations uni es"
  by (simp add: collect_operations_def)

lemma collect_operations_append [simp]: "collect_operations uni (xs @ ys) = collect_operations uni xs @ collect_operations uni ys"
  by (simp add: collect_operations_def)

lemma collect_concat [simp]: "concat (map (collect_event uni) es) = collect_operations uni es"
  by (simp add: collect_operations_def)

lemma retain_unseen_spec:
  "distinct (retain_unseen seen xs) \<and> set (retain_unseen seen xs) = {x \<in> set xs. (oo_role x, oo_name x) \<notin> seen}"
proof (induction xs arbitrary: seen)
  case (Cons x xs)
  have eq: "y = x" if "oo_role y = oo_role x" "oo_name y = oo_name x" for y :: operation_operand using that by simp
  show ?case using Cons.IH by (auto dest: eq)
qed simp

lemma dedup_operands_spec: "distinct (dedup_operands xs) \<and> set (dedup_operands xs) = set xs"
  using retain_unseen_spec [of "{}" xs] by (simp add: dedup_operands_def)

text \<open>What an event adds besides the events nested in it.\<close>

fun own_operations :: "(string \<Rightarrow> bool) \<Rightarrow> flow_event \<Rightarrow> operation list" where
  "own_operations uni (Branch sp condition _ _) = binding_operations sp OpBranchCondition RlCondition condition"
| "own_operations uni (Loop _ _ _ _ _ _) = []"
| "own_operations uni (Try sp _ _ _ catch_param _ _) = binding_operations sp OpCatchBinding RlWrite catch_param"
| "own_operations uni (Defer _ _) = []"
| "own_operations uni (Using sp _) =
     [\<lparr>op_span = sp, op_kind = OpResourceUse, op_target = None, op_operands = [], op_detail = Some ''using_scope''\<rparr>]"
| "own_operations uni e = collect_event uni e"

lemma collect_own_nested: "mset (collect_event uni e) = mset (own_operations uni e) + mset (collect_operations uni (nested_events e))"
  by (cases e) simp_all

lemma collect_pre_order: "mset (collect_operations uni es) = mset (concat (map (own_operations uni) (pre_order es)))"
  by (induction es rule: pre_order.induct) (simp_all add: collect_own_nested)

text \<open>The reads of a list of operations, and the names an event reads.\<close>

definition reads_of :: "operation list \<Rightarrow> (span \<times> string option) list" where
  "reads_of ops = map (\<lambda>op. (op_span op, op_target op)) (filter (\<lambda>op. op_kind op = OpRead) ops)"

definition present :: "string option list \<Rightarrow> string list" where
  "present names = concat (map (\<lambda>name. opt_list (non_empty name)) names)"

text \<open>The names in a value: its place, its source names and those of its parts, blank ones left out.\<close>

inductive reads_name :: "expression_flow \<Rightarrow> string \<Rightarrow> bool" where
  place: "non_empty (ef_place flow) = Some name \<Longrightarrow> reads_name flow name"
| source: "name \<in> set (ef_source_names flow) \<Longrightarrow> str_trim name \<noteq> [] \<Longrightarrow> reads_name flow name"
| aggregate: "field \<in> set (ef_aggregate_fields flow) \<Longrightarrow> reads_name (ef_value field) name \<Longrightarrow> reads_name flow name"
| tuple: "item \<in> set (ef_tuple_items flow) \<Longrightarrow> reads_name item name \<Longrightarrow> reads_name flow name"
| spread: "item \<in> set (ef_spreads flow) \<Longrightarrow> reads_name item name \<Longrightarrow> reads_name flow name"

definition value_names :: "expression_flow \<Rightarrow> string multiset" where
  "value_names flow = mset_set {name. reads_name flow name}"

text \<open>
  A yielded value that is one place is read under the text that the source has for it, if it has one;
  every other yielded value is read under its names.
\<close>

definition yielded_names :: "string option \<Rightarrow> expression_flow \<Rightarrow> string multiset" where
  "yielded_names value_text value_flow =
     (if ef_place value_flow \<noteq> None \<and> is_singleton {name. reads_name value_flow name}
      then (case non_empty value_text of Some text \<Rightarrow> {#text#} | None \<Rightarrow> value_names value_flow)
      else value_names value_flow)"

fun event_reads :: "flow_event \<Rightarrow> string multiset" where
  "event_reads (Call _ _ receiver _ _ args) =
     mset (present (receiver # concat (map (\<lambda>arg. ca_place arg # map Some (ca_source_names arg)) args)))"
| "event_reads (Assign _ _ source_name _ _ source_names _ _) = mset (present (source_name # map Some source_names))"
| "event_reads (AggregateAssign _ _ _ value_flow) = value_names value_flow"
| "event_reads (Return _ _ _ _ value_flow) = value_names value_flow"
| "event_reads (Throw _ value_name _) = mset (present [value_name])"
| "event_reads (Await _ value_name) = mset (present [value_name])"
| "event_reads (Yield _ value_text value_flow) = yielded_names value_text value_flow"
| "event_reads _ = {#}"

lemma set_collect_flow_names: "set (collect_flow_names flow) = {name. reads_name flow name}"
proof (intro equalityI subsetI CollectI)
  fix name assume "name \<in> set (collect_flow_names flow)"
  then show "reads_name flow name"
  proof (induction flow rule: collect_flow_names.induct)
    case (1 place proj source_names sites aggregate_fields items spreads)
    let ?f = "ExpressionFlow place proj source_names sites aggregate_fields items spreads"
    consider "non_empty place = Some name" | "name \<in> set source_names" "str_trim name \<noteq> []"
      | n sp v where "ExpressionField n sp v \<in> set aggregate_fields" "name \<in> set (collect_flow_names v)"
      | v where "v \<in> set items" "name \<in> set (collect_flow_names v)" | v where "v \<in> set spreads" "name \<in> set (collect_flow_names v)"
      using "1.prems" by (auto simp: opt_list_def split: option.splits expression_field.splits)
    then show ?case
    proof cases
      case 1
      then show ?thesis by (intro reads_name.place) simp
    next
      case 2
      then show ?thesis by (intro reads_name.source) simp_all
    next
      case 3
      with "1.IH"(1) [OF 3(1) refl 3(2)] show ?thesis using reads_name.aggregate [of "ExpressionField n sp v" ?f name] by simp
    next
      case 4
      with "1.IH"(2) show ?thesis using reads_name.tuple [of v ?f name] by simp
    next
      case 5
      with "1.IH"(3) show ?thesis using reads_name.spread [of v ?f name] by simp
    qed
  qed
next
  fix name assume "name \<in> {name. reads_name flow name}"
  then have "reads_name flow name" by simp
  then show "name \<in> set (collect_flow_names flow)"
  proof induction
    case (place flow name)
    then show ?case by (cases flow) (simp add: opt_list_def)
  next
    case (source name flow)
    then show ?case by (cases flow) simp
  next
    case (aggregate field flow name)
    have "name \<in> set (case field of ExpressionField _ _ v \<Rightarrow> collect_flow_names v)"
      using aggregate(3) by (cases field) simp
    with aggregate(1) show ?case by (cases flow) (simp, blast)
  next
    case (tuple item flow name)
    then show ?case by (cases flow) auto
  next
    case (spread item flow name)
    then show ?case by (cases flow) auto
  qed
qed

lemma source_names_spec:
  "set (expression_flow_source_names flow) = {name. reads_name flow name}" "distinct (expression_flow_source_names flow)"
  using strict_remdups_adj [OF sorted_sort, of "collect_flow_names flow"]
  by (simp_all add: expression_flow_source_names_def set_collect_flow_names strict_sorted_iff)

lemma mset_source_names [simp]: "mset (expression_flow_source_names flow) = value_names flow"
  using source_names_spec [of flow] mset_set_set [of "expression_flow_source_names flow"] by (simp add: value_names_def)

lemma mset_yield_rendered:
  "mset (yield_rendered value_text value_flow (expression_flow_source_names value_flow)) = yielded_names value_text value_flow"
proof -
  let ?ns = "expression_flow_source_names value_flow"
  have one: "length ?ns = 1 \<longleftrightarrow> is_singleton {name. reads_name value_flow name}"
  proof -
    have "length ?ns = card {name. reads_name value_flow name}"
      using distinct_card [OF source_names_spec(2) [of value_flow]] source_names_spec(1) [of value_flow] by simp
    then show ?thesis by (simp add: is_singleton_altdef)
  qed
  show ?thesis
  proof (cases "ef_place value_flow \<noteq> None \<and> length ?ns = 1")
    case True
    then obtain n where ns: "?ns = [n]" by (auto simp: length_Suc_conv)
    from arg_cong [OF this, of mset] have "value_names value_flow = {#n#}" by simp
    with True one ns show ?thesis
      by (cases value_text) (simp_all add: yield_rendered_def yielded_names_def non_empty_def Let_def)
  next
    case False
    with one have "yielded_names value_text value_flow = value_names value_flow" by (auto simp: yielded_names_def)
    moreover have "yield_rendered value_text value_flow ?ns = ?ns"
      using False by (auto simp: yield_rendered_def split: option.splits)
    ultimately show ?thesis by simp
  qed
qed

lemma reads_of_simps [simp]:
  "reads_of [] = []" "reads_of (op # ops) = (if op_kind op = OpRead then [(op_span op, op_target op)] else []) @ reads_of ops"
  "reads_of (xs @ ys) = reads_of xs @ reads_of ys"
  by (simp_all add: reads_of_def)

lemma reads_of_concat: "reads_of (concat xss) = concat (map reads_of xss)"
  by (induction xss) simp_all

lemma shape_reads [simp]: "reads_of (place_shape_operations uni sp place role) = []"
  by (simp add: place_shape_operations_def place_operation_def)

lemma read_operations_reads [simp]: "reads_of (read_operations uni sp role detail name) = [(sp, Some name)]"
  by (simp add: read_operations_def) (simp add: place_operation_def)

lemma reads_of_reads: "reads_of (concat (map (read_operations uni sp role detail) names)) = map (\<lambda>n. (sp, Some n)) names"
  by (induction names) simp_all

lemma present_append: "present (xs @ ys) = present xs @ present ys"
  by (simp add: present_def)

lemma call_arg_reads:
  "reads_of (call_arg_read_operations uni sp arg) = map (\<lambda>n. (sp, Some n)) (present (ca_place arg # map Some (ca_source_names arg)))"
  unfolding call_arg_read_operations_def reads_of_reads by (simp add: present_def o_def)

lemma mset_reads_of_reads [simp]:
  "mset (reads_of (concat (map (read_operations uni sp role detail) (expression_flow_source_names flow))))
    = image_mset (\<lambda>n. (sp, Some n)) (value_names flow)"
  by (simp add: reads_of_reads)

lemma own_reads: "mset (reads_of (own_operations uni e)) = image_mset (\<lambda>n. (event_span e, Some n)) (event_reads e)"
proof (cases e)
  case (Call sp name receiver chain kind args)
  have "reads_of (concat (map (call_arg_read_operations uni sp) args))
      = map (\<lambda>n. (sp, Some n)) (present (concat (map (\<lambda>arg. ca_place arg # map Some (ca_source_names arg)) args)))"
  proof (induction args)
    case (Cons a args)
    then show ?case
      using present_append [of "ca_place a # map Some (ca_source_names a)"] by (simp add: call_arg_reads)
  qed (simp add: present_def)
  with Call show ?thesis by (simp add: call_operations_def reads_of_reads present_def) (simp add: place_operation_def)
next
  case (Assign sp target sn sc args ns fresh kind)
  then show ?thesis
    by (cases "non_empty sc") (simp_all add: assign_operations_def reads_of_reads present_def opt_list_def o_def del: map_append)
next
  case (Yield sp value_text value_flow)
  then show ?thesis by (simp add: yield_operations_def reads_of_reads Let_def flip: mset_yield_rendered)
qed (auto simp: aggregate_operations_def return_operations_def throw_operations_def await_operations_def
    lifecycle_operation_def binding_operations_def place_operation_def present_def opt_list_def Let_def split: option.split)

lemma operations_of_lowered: "mset (collect_operations uni (normalize_deferred_scopes es)) = mset (collect_operations uni es)"
proof (induction es rule: normalize_deferred_scopes.induct)
  case (2 e es)
  then show ?case by (cases e) (simp_all add: binding_operations_def non_empty_def opt_list_def)
qed simp

lemma operations_of_pruned:
  "prune_unreachable_sequence es = Some (es', ft) \<Longrightarrow> mset (collect_operations uni es') \<subseteq># mset (collect_operations uni es)"
  "prune_nested sp es = Some es' \<Longrightarrow> mset (collect_operations uni es') \<subseteq># mset (collect_operations uni es)"
  "prune_event e = Some (e', ft) \<Longrightarrow> mset (collect_event uni e') \<subseteq># mset (collect_event uni e)"
proof (induction es and sp es and e arbitrary: es' ft and es' and e' ft
    rule: prune_unreachable_sequence_prune_nested_prune_event.induct)
  case (2 event events)
  show ?case
  proof (cases "is_return_or_throw event")
    case True
    with 2(5) obtain nested terminal ft' where "prune_nested (event_span event) events = Some nested"
      "prune_event event = Some (terminal, ft')" "es' = nested @ [terminal]"
      by (auto simp: Option.bind_eq_Some_conv)
    with 2(1,2) True subset_mset.add_mono show ?thesis by (fastforce simp: add.commute)
  next
    case False
    with 2(5) obtain event' eft where e: "prune_event event = Some (event', eft)"
      "(if eft then do { (executable, falls_through) \<leftarrow> prune_unreachable_sequence events;
          Some (event' # executable, falls_through) } else Some ([event'], False)) = Some (es', ft)"
      by (auto simp: Option.bind_eq_Some_conv)
    note le = 2(3) [OF False e(1)]
    show ?thesis
    proof (cases eft)
      case True
      with e(2) obtain executable where x: "prune_unreachable_sequence events = Some (executable, ft)" "es' = event' # executable"
        by (auto simp: Option.bind_eq_Some_conv)
      with 2(4) [OF False e(1) refl True x(1)] le show ?thesis by (simp add: subset_mset.add_mono)
    qed (use e(2) le in \<open>auto intro: subset_mset.add_increasing2\<close>)
  qed
next
  case (4 terminal_span nested events)
  show ?case
  proof (cases "strictly_contained (event_span nested) terminal_span")
    case True
    with 4(3) obtain here rest where x: "(if is_call nested then do { (nested', _) \<leftarrow> prune_event nested; Some [nested'] } else Some []) = Some here"
      "prune_nested terminal_span events = Some rest" "es' = here @ rest"
      by (auto simp: Option.bind_eq_Some_conv)
    have "mset (collect_operations uni here) \<subseteq># mset (collect_event uni nested)"
      using x(1) 4(1) True by (auto simp: Option.bind_eq_Some_conv split: if_splits)
    moreover have "mset (collect_operations uni rest) \<subseteq># mset (collect_operations uni events)"
      by (rule 4(2) [OF _ x(1,2)]) (use True in simp)
    ultimately show ?thesis using x(3) by (simp add: subset_mset.add_mono)
  qed (use 4(3) in simp)
next
  case (5 event)
  note IH = 5(1-9) and eq = 5(10)
  show ?case
    using IH eq unfolding prune_event.simps [of event]
    by (cases event) (auto simp: Option.bind_eq_Some_conv intro!: subset_mset.add_mono)
qed simp_all

definition single_operand :: "span \<Rightarrow> operation \<Rightarrow> bool" where
  "single_operand sp op \<longleftrightarrow> op_span op = sp
     \<and> (op_kind op \<in> {OpRead, OpAllocate, OpIndex, OpDeref, OpFieldAccess} \<longrightarrow>
        (\<exists>name role. op_target op = Some name \<and> op_operands op = [operand name role]))"

lemma single_operand_place [simp]: "single_operand sp (place_operation sp kind name role detail)"
  by (simp add: single_operand_def place_operation_def)

lemma single_operand_read: "op \<in> set (read_operations uni sp role detail name) \<Longrightarrow> single_operand sp op"
  by (auto simp: read_operations_def place_shape_operations_def split: if_splits)

lemma single_operand_shape: "op \<in> set (place_shape_operations uni sp name role) \<Longrightarrow> single_operand sp op"
  by (auto simp: place_shape_operations_def split: if_splits)

lemma own_operations_single_operand: "op \<in> set (own_operations uni e) \<Longrightarrow> single_operand (event_span e) op"
  by (cases e) (auto simp: call_operations_def call_arg_read_operations_def assign_operations_def aggregate_operations_def
      return_operations_def throw_operations_def yield_operations_def await_operations_def lifecycle_operation_def
      binding_operations_def Let_def dest: single_operand_read single_operand_shape split: if_splits,
      simp_all add: single_operand_def)

lemmas own_operations_span = own_operations_single_operand [unfolded single_operand_def, THEN conjunct1]
  and own_operations_single = own_operations_single_operand [unfolded single_operand_def, THEN conjunct2, rule_format]

lemma reads_deduped: "reads_of (operations_from_flow_events uni es) = reads_of (collect_operations uni es)"
  by (simp add: operations_from_flow_events_def reads_of_def filter_map o_def)

lemma operations_pre_order:
  "set (collect_operations uni es) = (\<Union>e \<in> set (pre_order es). set (own_operations uni e))"
  using arg_cong [OF collect_pre_order [of uni es], where f = set_mset] by simp

section \<open>Properties\<close>

text \<open>
  C21: the reads in the list of operations are, with their multiplicity, one for every
  name that an event of the tree reads, at the span of the event: the receiver and the places and
  source names of the arguments of a call, the sources of an assignment, the names in the value of
  an aggregate, a return or a yield (its place, its source names and those of its parts, each once),
  and the value of a throw or await, blank names left out. Only a yielded value that is a single
  place is read under another name, the source text of the yield, if the event has one.
\<close>

theorem operation_reads_exact:
  "mset (reads_of (operations_from_flow_events uni events))
    = sum_list (map (\<lambda>e. image_mset (\<lambda>n. (event_span e, Some n)) (event_reads e)) (pre_order events))"
proof -
  have "mset (reads_of (collect_operations uni events)) = mset (reads_of (concat (map (own_operations uni) (pre_order events))))"
    using arg_cong [OF collect_pre_order [of uni events], where f = "\<lambda>M. image_mset (\<lambda>op. (op_span op, op_target op)) (filter_mset (\<lambda>op. op_kind op = OpRead) M)"]
    by (simp add: reads_of_def)
  also have "\<dots> = sum_list (map (\<lambda>e. mset (reads_of (own_operations uni e))) (pre_order events))"
    by (simp add: reads_of_concat mset_concat o_def)
  finally show ?thesis by (simp add: reads_deduped own_reads)
qed

text \<open>
  C22: lowering deferred scopes only permutes the operations of a tree, and dropping
  unreachable events only drops operations.
\<close>

theorem operations_under_lowering:
  "mset (operations_from_flow_events uni (normalize_deferred_scopes events)) = mset (operations_from_flow_events uni events)
    \<and> (\<forall>events'. normalize_executable_flow events = Some events' \<longrightarrow>
         mset (operations_from_flow_events uni events') \<subseteq># mset (operations_from_flow_events uni events))"
proof (intro conjI allI impI)
  show "mset (operations_from_flow_events uni (normalize_deferred_scopes events)) = mset (operations_from_flow_events uni events)"
    by (simp add: operations_from_flow_events_def operations_of_lowered)
next
  fix events' assume "normalize_executable_flow events = Some events'"
  then obtain ft where "prune_unreachable_sequence (normalize_deferred_scopes events) = Some (events', ft)"
    by (auto simp: normalize_executable_flow_def)
  from operations_of_pruned(1) [OF this, of uni]
  have "mset (collect_operations uni events') \<subseteq># mset (collect_operations uni events)" by (simp add: operations_of_lowered)
  then show "mset (operations_from_flow_events uni events') \<subseteq># mset (operations_from_flow_events uni events)"
    by (simp add: operations_from_flow_events_def image_mset_subseteq_mono)
qed

definition deferred_close :: "flow_event list" where
  "deferred_close = (let sp = span_new 0 0 1 in
     [Defer sp [Lifecycle sp ''f'' ''closed''], Return sp None None None (from_source_names [''f.size'']),
      Await sp (Some ''g'')])"

theorem operations_under_lowering_witness:
  "map op_kind (operations_from_flow_events (\<lambda>_. False) deferred_close) = [OpRelease, OpReturn, OpRead, OpFieldAccess, OpAwait, OpRead]
    \<and> (\<exists>events'. normalize_executable_flow deferred_close = Some events'
      \<and> mset (operations_from_flow_events (\<lambda>_. False) events') \<subseteq># mset (operations_from_flow_events (\<lambda>_. False) deferred_close))"
proof -
  have "normalize_executable_flow deferred_close \<noteq> None" by code_simp
  then obtain events' where "normalize_executable_flow deferred_close = Some events'" by auto
  moreover have "map op_kind (operations_from_flow_events (\<lambda>_. False) deferred_close)
      = [OpRelease, OpReturn, OpRead, OpFieldAccess, OpAwait, OpRead]" by code_simp
  ultimately show ?thesis using operations_under_lowering [of "\<lambda>_. False" deferred_close] by blast
qed

text \<open>
  C40: every operation has the span of an event of the tree and lists no operand twice,
  and a read, an allocation and the index, dereference and field accesses have a target, which is
  their one operand.
\<close>

theorem operations_well_formed:
  "\<forall>op \<in> set (operations_from_flow_events uni events).
     op_span op \<in> event_span ` set (pre_order events) \<and> distinct (op_operands op)
     \<and> (if op_kind op \<in> {OpRead, OpAllocate, OpIndex, OpDeref, OpFieldAccess}
         then \<exists>name role. op_target op = Some name \<and> op_operands op = [operand name role] else True)"
proof
  fix op assume "op \<in> set (operations_from_flow_events uni events)"
  then obtain op0 e where o: "e \<in> set (pre_order events)" "op0 \<in> set (own_operations uni e)"
      "op = op0\<lparr>op_operands := dedup_operands (op_operands op0)\<rparr>"
    by (auto simp: operations_from_flow_events_def operations_pre_order)
  with dedup_operands_spec have "distinct (op_operands op)" "op_span op = event_span e" by (auto dest: own_operations_span)
  moreover have "\<exists>name role. op_target op = Some name \<and> op_operands op = [operand name role]"
    if "op_kind op \<in> {OpRead, OpAllocate, OpIndex, OpDeref, OpFieldAccess}"
    using own_operations_single [OF o(2)] that o(3) by (auto simp: dedup_operands_def)
  ultimately show "op_span op \<in> event_span ` set (pre_order events) \<and> distinct (op_operands op)
     \<and> (if op_kind op \<in> {OpRead, OpAllocate, OpIndex, OpDeref, OpFieldAccess}
         then \<exists>name role. op_target op = Some name \<and> op_operands op = [operand name role] else True)"
    using o(1) by simp
qed

theorem operations_well_formed_witness:
  "\<exists>op \<in> set (operations_from_flow_events (\<lambda>_. False) deferred_close).
     op_kind op = OpRead \<and> op_target op = Some ''f.size'' \<and> op_span op \<in> event_span ` set (pre_order deferred_close)
     \<and> (\<exists>role. op_operands op = [operand ''f.size'' role])"
proof -
  have "list_ex (\<lambda>op. op_kind op = OpRead \<and> op_target op = Some ''f.size'') (operations_from_flow_events (\<lambda>_. False) deferred_close)"
    by code_simp
  then obtain op where op: "op \<in> set (operations_from_flow_events (\<lambda>_. False) deferred_close)" "op_kind op = OpRead" "op_target op = Some ''f.size''"
    by (auto simp: list_ex_iff)
  from bspec [OF operations_well_formed op(1)] op show ?thesis by auto
qed

end
