(* ===== verification/Spill_Run.thy ===== *)
theory Spill_Run
  imports Fact_Format
begin

text \<open>
  The sorted runs of the external-memory set, the first part of \<^verbatim>\<open>crates/idg/src/spill_set.rs\<close>: keys of
  128 bits in a temporary file in ascending order, with the first key of every 256 resident. A
  file is the list of its bytes; reading past its end is an error, on which every caller panics
  (\<open>None\<close>). Failures of the operating system are not modelled.

  Shown: a run holds exactly the keys it was written from, a lookup reads one block and finds the
  lower bound of a key in the whole run, and merging two runs gives the run of their union.
\<close>

section \<open>Keys\<close>

type_synonym u128 = "128 word"

definition u128_to_le :: "u128 \<Rightarrow> bytes" where
  "u128_to_le w = le_bytes 16 (unat w)"

definition u128_from_le :: "bytes \<Rightarrow> u128" where
  "u128_from_le bs = of_nat (le_nat bs)"

definition KEY_BYTES :: u64 where "KEY_BYTES = 16"

definition RUN_INDEX_ENTRIES :: nat where "RUN_INDEX_ENTRIES = 256"

definition RUN_INDEX_STRIDE :: u64 where "RUN_INDEX_STRIDE = 256"

definition RUN_BLOCK_BYTES :: nat where "RUN_BLOCK_BYTES = RUN_INDEX_ENTRIES * 16"

definition pread_exact :: "bytes \<Rightarrow> u64 \<Rightarrow> nat \<Rightarrow> bytes option" where
  "pread_exact file offset len =
     (if len = 0 \<or> unat offset + len \<le> length file then Some (take len (drop (unat offset) file)) else None)"

text \<open>A buffered reader is what is left to read.\<close>

definition read_key :: "bytes \<Rightarrow> (u128 \<times> bytes) option" where
  "read_key reader = (if 16 \<le> length reader then Some (u128_from_le (take 16 reader), drop 16 reader) else None)"

section \<open>Writing a run\<close>

record sorted_run =
  sr_file :: bytes
  sr_len :: u64
  sr_checkpoints :: "u128 list"

record run_writer =
  rw_writer :: bytes
  rw_len :: u64
  rw_checkpoints :: "u128 list"
  rw_previous :: "u128 option"

definition rw_new :: run_writer where
  "rw_new = \<lparr>rw_writer = [], rw_len = 0, rw_checkpoints = [], rw_previous = None\<rparr>"

definition rw_push :: "u128 \<Rightarrow> run_writer \<Rightarrow> run_writer" where
  "rw_push key w =
     (if rw_previous w = Some key then w
      else \<lparr>rw_writer = rw_writer w @ u128_to_le key, rw_len = rw_len w + 1,
            rw_checkpoints = (if rw_len w mod RUN_INDEX_STRIDE = 0 then rw_checkpoints w @ [key] else rw_checkpoints w),
            rw_previous = Some key\<rparr>)"

definition rw_finish :: "run_writer \<Rightarrow> sorted_run" where
  "rw_finish w = \<lparr>sr_file = rw_writer w, sr_len = rw_len w, sr_checkpoints = rw_checkpoints w\<rparr>"

definition sr_from_sorted :: "u128 list \<Rightarrow> sorted_run" where
  "sr_from_sorted keys = rw_finish (fold rw_push keys rw_new)"

section \<open>Looking up a key\<close>

definition block_key :: "bytes \<Rightarrow> nat \<Rightarrow> u128 option" where
  "block_key block index = map_option u128_from_le (vec_slice block (index * 16) (index * 16 + 16))"

function locate_search :: "bytes \<Rightarrow> u128 \<Rightarrow> nat \<Rightarrow> nat \<Rightarrow> nat option" where
  "locate_search block key low high =
     (if low < high then
        (let middle = low + (high - low) div 2 in
         case block_key block middle of
           None \<Rightarrow> None
         | Some k \<Rightarrow> (if k < key then locate_search block key (middle + 1) high else locate_search block key low middle))
      else Some low)"
  by pat_completeness auto
termination
  by (relation "measure (\<lambda>(block, key, low, high). high - low)") auto

declare locate_search.simps [simp del]

definition sr_locate :: "sorted_run \<Rightarrow> u128 \<Rightarrow> (u64 \<times> bool) option" where
  "sr_locate run key =
     (let checkpoint = of_nat (partition_point (\<lambda>candidate. candidate \<le> key) (sr_checkpoints run) - 1) :: u64;
          block_start = min (saturating_mul checkpoint RUN_INDEX_STRIDE) (sr_len run);
          block_end = min (saturating_add block_start RUN_INDEX_STRIDE) (sr_len run);
          entry_count = unat (block_end - block_start);
          byte_count = entry_count * 16
      in do {
        bytes_read \<leftarrow> (if 0 < byte_count then pread_exact (sr_file run) (saturating_mul block_start KEY_BYTES) byte_count
                         else Some []);
        let block = bytes_read @ replicate (RUN_BLOCK_BYTES - byte_count) 0;
        low \<leftarrow> locate_search block key 0 entry_count;
        found \<leftarrow> (if low < entry_count then map_option (\<lambda>k. k = key) (block_key block low) else Some False);
        Some (saturating_add block_start (of_nat low), found)
      })"

definition sr_contains :: "sorted_run \<Rightarrow> u128 \<Rightarrow> bool option" where
  "sr_contains run key = map_option snd (sr_locate run key)"

definition sr_lower_bound :: "sorted_run \<Rightarrow> u128 \<Rightarrow> u64 option" where
  "sr_lower_bound run key = map_option fst (sr_locate run key)"

section \<open>A page of keys with a prefix\<close>

fun batch_loop :: "u128 \<Rightarrow> nat \<Rightarrow> nat \<Rightarrow> bytes \<Rightarrow> nat \<Rightarrow> u128 list \<Rightarrow> u128 list option" where
  "batch_loop upper limit 0 reader appended keys = Some keys"
| "batch_loop upper limit (Suc n) reader appended keys = do {
     (key, reader) \<leftarrow> read_key reader;
     if upper < key then Some keys
     else if limit \<le> appended + 1 then Some (keys @ [key])
     else batch_loop upper limit n reader (appended + 1) (keys @ [key])
   }"

definition prefix_lower :: "u32 \<Rightarrow> u128" where
  "prefix_lower prefix = push_bit 96 (ucast prefix)"

definition prefix_upper :: "u32 \<Rightarrow> u128" where
  "prefix_upper prefix = (if prefix = - 1 then - 1 else saturating_sub (push_bit 96 (ucast (prefix + 1))) 1)"

definition append_prefix_batch :: "sorted_run \<Rightarrow> u32 \<Rightarrow> u128 option \<Rightarrow> nat \<Rightarrow> u128 list \<Rightarrow> u128 list option" where
  "append_prefix_batch run prefix after limit keys =
     (let lower = prefix_lower prefix; upper = prefix_upper prefix in
      if (case after of Some key \<Rightarrow> upper \<le> key | None \<Rightarrow> False) then Some keys
      else do {
        let first = (case after of Some key \<Rightarrow> max (saturating_add key 1) lower | None \<Rightarrow> lower);
        start \<leftarrow> sr_lower_bound run first;
        batch_loop upper limit (unat (sr_len run) - unat start) (drop (unat (saturating_mul start KEY_BYTES)) (sr_file run)) 0 keys
      })"

section \<open>Merging two runs\<close>

definition next_key :: "nat \<Rightarrow> bytes \<Rightarrow> (u128 option \<times> bytes) option" where
  "next_key remaining reader =
     (if 0 < remaining then map_option (\<lambda>(key, rest). (Some key, rest)) (read_key reader) else Some (None, reader))"

function merge_loop ::
  "nat \<Rightarrow> u128 option \<Rightarrow> bytes \<Rightarrow> nat \<Rightarrow> u128 option \<Rightarrow> bytes \<Rightarrow> run_writer \<Rightarrow> run_writer option" where
  "merge_loop left_remaining left_key left right_remaining right_key right w =
     (case (left_key, right_key) of
        (None, None) \<Rightarrow> Some w
      | (Some l, None) \<Rightarrow> (case next_key (left_remaining - 1) left of
            None \<Rightarrow> None
          | Some (left_key', left') \<Rightarrow> merge_loop (left_remaining - 1) left_key' left' right_remaining right_key right (rw_push l w))
      | (None, Some r) \<Rightarrow> (case next_key (right_remaining - 1) right of
            None \<Rightarrow> None
          | Some (right_key', right') \<Rightarrow> merge_loop left_remaining left_key left (right_remaining - 1) right_key' right' (rw_push r w))
      | (Some l, Some r) \<Rightarrow>
          (if l \<le> r
           then (case next_key (left_remaining - 1) left of
               None \<Rightarrow> None
             | Some (left_key', left') \<Rightarrow> merge_loop (left_remaining - 1) left_key' left' right_remaining right_key right (rw_push l w))
           else (case next_key (right_remaining - 1) right of
               None \<Rightarrow> None
             | Some (right_key', right') \<Rightarrow> merge_loop left_remaining left_key left (right_remaining - 1) right_key' right' (rw_push r w))))"
  by pat_completeness auto
termination
  by (relation "measure (\<lambda>(lr, lk, _, rr, rk, _, _). lr + rr + (if lk = None then 0 else 1) + (if rk = None then 0 else 1))")
    (auto simp: next_key_def split: if_splits option.splits)

declare merge_loop.simps [simp del]

definition merge_runs :: "sorted_run \<Rightarrow> sorted_run \<Rightarrow> sorted_run option" where
  "merge_runs left right =
     (let left_remaining = length (sr_file left) div 16; right_remaining = length (sr_file right) div 16 in do {
        (left_key, left_reader) \<leftarrow> next_key left_remaining (sr_file left);
        (right_key, right_reader) \<leftarrow> next_key right_remaining (sr_file right);
        w \<leftarrow> merge_loop left_remaining left_key left_reader right_remaining right_key right_reader rw_new;
        Some (rw_finish w)
      })"

section \<open>Files of keys\<close>

lemma length_u128_to_le [simp]: "length (u128_to_le w) = 16"
  by (simp add: u128_to_le_def)

lemma u128_le_roundtrip [simp]: "u128_from_le (u128_to_le w) = w"
proof -
  have "unat w < 256 ^ 16" using unsigned_less [of w, where ?'a = nat] by simp
  then show ?thesis by (simp add: u128_from_le_def u128_to_le_def le_nat_le_bytes)
qed

definition key_file :: "u128 list \<Rightarrow> bytes" where
  "key_file ks = concat (map u128_to_le ks)"

lemma key_file_simps [simp]:
  "key_file [] = []" "key_file (k # ks) = u128_to_le k @ key_file ks" "key_file (xs @ ys) = key_file xs @ key_file ys"
  by (simp_all add: key_file_def)

lemma length_key_file [simp]: "length (key_file ks) = 16 * length ks"
  by (induction ks) simp_all

lemma drop_key_file [simp]: "drop (16 * i) (key_file ks) = key_file (drop i ks)"
proof (induction ks arbitrary: i)
  case (Cons k ks)
  then show ?case by (cases i) simp_all
qed simp

lemma take_key_file [simp]: "take (16 * i) (key_file ks) = key_file (take i ks)"
proof (induction ks arbitrary: i)
  case (Cons k ks)
  then show ?case by (cases i) simp_all
qed simp

lemma read_key_file [simp]: "read_key (key_file (k # ks)) = Some (k, key_file ks)"
  by (simp add: read_key_def)

lemma block_key_file:
  assumes "i < length ks"
  shows "block_key (key_file ks @ pad) i = Some (ks ! i)"
proof -
  have "take 16 (drop (i * 16) (key_file ks @ pad)) = take 16 (key_file (drop i ks) @ pad)"
    using assms drop_key_file [of i ks] by (simp add: mult.commute)
  also have "\<dots> = u128_to_le (ks ! i)" using assms by (simp flip: Cons_nth_drop_Suc)
  finally show ?thesis using assms by (simp add: block_key_def vec_slice_def)
qed

section \<open>What a run holds\<close>

definition every_256th :: "u128 list \<Rightarrow> u128 list" where
  "every_256th ks = map (\<lambda>i. ks ! (256 * i)) [0..<(length ks + 255) div 256]"

definition small :: "'a list \<Rightarrow> bool" where
  "small ks \<longleftrightarrow> length ks < 2 ^ 58"

definition run_holds :: "sorted_run \<Rightarrow> u128 list \<Rightarrow> bool" where
  "run_holds run ks \<longleftrightarrow> sorted_wrt (<) ks \<and> small ks
     \<and> run = \<lparr>sr_file = key_file ks, sr_len = of_nat (length ks), sr_checkpoints = every_256th ks\<rparr>"

definition writer_holds :: "run_writer \<Rightarrow> u128 list \<Rightarrow> bool" where
  "writer_holds w ks \<longleftrightarrow>
     w = \<lparr>rw_writer = key_file ks, rw_len = of_nat (length ks), rw_checkpoints = every_256th ks,
          rw_previous = (if ks = [] then None else Some (last ks))\<rparr>"

lemma every_256th_snoc:
  "every_256th (ks @ [k]) = (if length ks mod 256 = 0 then every_256th ks @ [k] else every_256th ks)"
proof (cases "length ks mod 256 = 0")
  case True
  then obtain n where n: "length ks = 256 * n" by auto
  then have a: "(length (ks @ [k]) + 255) div 256 = Suc n" "(length ks + 255) div 256 = n" by simp_all
  show ?thesis using n unfolding every_256th_def a by (simp add: nth_append)
next
  case False
  define q r where "q = length ks div 256" and "r = length ks mod 256"
  have l: "length ks = 256 * q + r" by (simp add: q_def r_def)
  have r: "1 \<le> r" "r \<le> 255" using False by (simp_all add: r_def Suc_le_eq less_Suc_eq_le [symmetric])
  have a: "(length (ks @ [k]) + 255) div 256 = Suc q" "(length ks + 255) div 256 = Suc q"
    using r unfolding length_append l by (auto intro!: div_nat_eqI)
  show ?thesis using False r l unfolding every_256th_def a by (auto simp: nth_append)
qed

lemma writer_push:
  assumes "writer_holds w ks" "small ks"
  shows "writer_holds (rw_push k w) (if ks \<noteq> [] \<and> last ks = k then ks else ks @ [k])"
proof -
  have "unat (of_nat (length ks) :: u64) = length ks" using assms(2) by (simp add: small_def unat_of_nat_u64)
  then have "(of_nat (length ks) :: u64) mod RUN_INDEX_STRIDE = 0 \<longleftrightarrow> length ks mod 256 = 0"
    by (simp add: RUN_INDEX_STRIDE_def unat_eq_0 [symmetric] unat_mod del: unat_eq_0)
  with assms(1) show ?thesis by (auto simp: writer_holds_def rw_push_def every_256th_snoc)
qed

lemma writer_finish: "writer_holds w ks \<Longrightarrow> sorted_wrt (<) ks \<Longrightarrow> small ks \<Longrightarrow> run_holds (rw_finish w) ks"
  by (simp add: writer_holds_def run_holds_def rw_finish_def)

lemma writer_new: "writer_holds rw_new []"
  by (simp add: writer_holds_def rw_new_def every_256th_def)

lemma writer_push_all:
  "writer_holds w acc \<Longrightarrow> sorted_wrt (<) (acc @ ks) \<Longrightarrow> small (acc @ ks) \<Longrightarrow> writer_holds (fold rw_push ks w) (acc @ ks)"
proof (induction ks arbitrary: w acc)
  case (Cons k ks)
  have "acc \<noteq> [] \<longrightarrow> last acc < k" using Cons.prems(2) by (simp add: sorted_wrt_append)
  then have "(if acc \<noteq> [] \<and> last acc = k then acc else acc @ [k]) = acc @ [k]" by auto
  moreover have "small acc" using Cons.prems(3) by (simp add: small_def)
  ultimately have "writer_holds (rw_push k w) (acc @ [k])" using writer_push [OF Cons.prems(1), of k] by simp
  from Cons.IH [OF this] Cons.prems(2,3) show ?case by simp
qed simp

lemma from_sorted_holds: "sorted_wrt (<) ks \<Longrightarrow> small ks \<Longrightarrow> run_holds (sr_from_sorted ks) ks"
  using writer_push_all [OF writer_new, of ks] unfolding sr_from_sorted_def by (intro writer_finish) simp_all

section \<open>Lookups\<close>

lemma locate_search_spec:
  assumes "sorted_wrt (<) ks" "low \<le> high" "high \<le> length ks" "\<forall>i < low. ks ! i < key" "\<forall>i. high \<le> i \<and> i < length ks \<longrightarrow> key \<le> ks ! i"
  shows "\<exists>r. locate_search (key_file ks @ pad) key low high = Some r \<and> r \<le> length ks
    \<and> (\<forall>i < r. ks ! i < key) \<and> (\<forall>i. r \<le> i \<and> i < length ks \<longrightarrow> key \<le> ks ! i)"
  using assms
proof (induction "key_file ks @ pad" key low high rule: locate_search.induct)
  case (1 key low high)
  define mid where "mid = low + (high - low) div 2"
  have mono: "ks ! i < ks ! j" if "i < j" "j < length ks" for i j using that 1(3) by (simp add: sorted_wrt_nth_less)
  show ?case
  proof (cases "low < high")
    case True
    then have m: "low \<le> mid" "mid < high" "mid < length ks" using "1.prems"(3) by (auto simp: mid_def)
    have b: "block_key (key_file ks @ pad) mid = Some (ks ! mid)" by (rule block_key_file [OF m(3)])
    show ?thesis
    proof (cases "ks ! mid < key")
      case lt: True
      have eq: "locate_search (key_file ks @ pad) key low high = locate_search (key_file ks @ pad) key (mid + 1) high"
        using True b lt by (simp add: locate_search.simps [of _ _ low high] Let_def flip: mid_def)
      have "ks ! i < key" if "i < mid + 1" for i
        using lt mono [of i mid] m(3) that by (cases "i = mid") auto
      then have "\<forall>i < mid + 1. ks ! i < key" by blast
      from "1.hyps"(1) [OF True mid_def b lt "1.prems"(1) _ "1.prems"(3) this "1.prems"(5)] m show ?thesis unfolding eq by simp
    next
      case ge: False
      have eq: "locate_search (key_file ks @ pad) key low high = locate_search (key_file ks @ pad) key low mid"
        using True b ge by (simp add: locate_search.simps [of _ _ low high] Let_def flip: mid_def)
      have "key \<le> ks ! i" if "mid \<le> i" "i < length ks" for i
        using ge mono [of mid i] that by (cases "mid = i") (auto simp: not_less)
      then have "\<forall>i. mid \<le> i \<and> i < length ks \<longrightarrow> key \<le> ks ! i" by blast
      from "1.hyps"(2) [OF True mid_def b ge "1.prems"(1) m(1) less_imp_le [OF m(3)] "1.prems"(4) this] show ?thesis unfolding eq .
    qed
  next
    case False
    then have "locate_search (key_file ks @ pad) key low high = Some low" by (simp add: locate_search.simps [of _ _ low high])
    with "1.prems" False show ?thesis by (intro exI [of _ low]) auto
  qed
qed

text \<open>The number of keys below a key is where it is, or would be.\<close>

definition rank_of :: "u128 \<Rightarrow> u128 list \<Rightarrow> nat" where
  "rank_of key ks = length (filter (\<lambda>k. k < key) ks)"

lemma rank_unique:
  assumes "r \<le> length ks" "\<forall>i < r. ks ! i < key" "\<forall>i. r \<le> i \<and> i < length ks \<longrightarrow> key \<le> ks ! i"
  shows "rank_of key ks = r"
proof -
  have "filter (\<lambda>k. k < key) (take r ks) = take r ks" using assms(1,2) by (auto simp: filter_id_conv in_set_conv_nth)
  moreover have "filter (\<lambda>k. k < key) (drop r ks) = []"
  proof (rule filter_False, rule ballI)
    fix x assume "x \<in> set (drop r ks)"
    then obtain i where "i < length ks - r" "x = ks ! (r + i)" by (auto simp: in_set_conv_nth)
    with assms(3) show "\<not> x < key" by (simp add: not_less)
  qed
  moreover have "filter (\<lambda>k. k < key) ks = filter (\<lambda>k. k < key) (take r ks) @ filter (\<lambda>k. k < key) (drop r ks)"
    by (simp flip: filter_append)
  ultimately show ?thesis using assms(1) by (simp add: rank_of_def)
qed

lemma rank_member:
  fixes key :: u128
  assumes "sorted_wrt (<) ks" "r \<le> length ks" "\<forall>i < r. ks ! i < key" "\<forall>i. r \<le> i \<and> i < length ks \<longrightarrow> key \<le> ks ! i"
  shows "key \<in> set ks \<longleftrightarrow> r < length ks \<and> ks ! r = key"
proof
  assume "key \<in> set ks"
  then obtain i where i: "i < length ks" "ks ! i = key" by (auto simp: in_set_conv_nth)
  have "\<not> i < r" using assms(3) i(2) by (metis less_irrefl)
  then have "r \<le> i" by simp
  moreover have "\<not> r < i"
  proof
    assume "r < i"
    with i assms(1) have "ks ! r < key" by (auto simp: sorted_wrt_nth_less)
    moreover have "key \<le> ks ! r" using assms(4) i(1) \<open>r < i\<close> by simp
    ultimately show False by simp
  qed
  ultimately show "r < length ks \<and> ks ! r = key" using i by auto
qed auto

text \<open>The block that the resident checkpoints select, and that it decides the lookup.\<close>

lemma checkpoint_block:
  fixes key :: u128
  assumes ks: "sorted_wrt (<) ks"
  defines "c \<equiv> partition_point (\<lambda>candidate. candidate \<le> key) (every_256th ks)"
  shows "256 * (c - 1) \<le> length ks"
    and "\<forall>i < 256 * (c - 1). ks ! i < key"
    and "\<forall>i. 256 * (c - 1) + 256 \<le> i \<and> i < length ks \<longrightarrow> key < ks ! i"
proof -
  let ?cps = "every_256th ks"
  have l: "length ?cps = (length ks + 255) div 256" by (simp add: every_256th_def)
  have at: "?cps ! i = ks ! (256 * i)" "256 * i < length ks" if "i < length ?cps" for i
  proof -
    show "?cps ! i = ks ! (256 * i)" using that by (simp add: every_256th_def)
    from that l have "Suc i * 256 \<le> length ks + 255" using less_eq_div_iff_mult_less_eq [of 256 "Suc i"] by simp
    then show "256 * i < length ks" by simp
  qed
  have mono: "ks ! i \<le> ks ! j" if "i \<le> j" "j < length ks" for i j
    using that ks by (cases "i = j") (auto simp: sorted_wrt_iff_nth_less less_imp_le)
  have strict: "ks ! i < ks ! j" if "i < j" "j < length ks" for i j using that ks by (simp add: sorted_wrt_nth_less)
  have down: "\<forall>i j. i \<le> j \<and> j < length ?cps \<and> ?cps ! j \<le> key \<longrightarrow> ?cps ! i \<le> key"
  proof (intro allI impI)
    fix i j assume a: "i \<le> j \<and> j < length ?cps \<and> ?cps ! j \<le> key"
    then have "?cps ! i \<le> ?cps ! j" using at [of i] at [of j] mono [of "256 * i" "256 * j"] by simp
    moreover have "?cps ! j \<le> key" using a by simp
    ultimately show "?cps ! i \<le> key" by (rule order.trans)
  qed
  have "c \<le> length ?cps \<and> (\<forall>i < c. ?cps ! i \<le> key) \<and> (\<forall>i. c \<le> i \<and> i < length ?cps \<longrightarrow> \<not> ?cps ! i \<le> key)"
    unfolding c_def partition_point_def by (rule partition_search_spec [OF le0 order_refl _ _ down]) auto
  then have c: "c \<le> length ?cps" "\<forall>i < c. ?cps ! i \<le> key" "\<forall>i. c \<le> i \<and> i < length ?cps \<longrightarrow> \<not> ?cps ! i \<le> key"
    by blast+
  have b: "256 * (c - 1) < length ks" if "0 < length ?cps" using at(2) [of "c - 1"] c(1) that by (cases c) auto
  then show "256 * (c - 1) \<le> length ks" using c(1) by (cases "length ?cps") auto
  show "\<forall>i < 256 * (c - 1). ks ! i < key"
  proof (intro allI impI)
    fix i assume i: "i < 256 * (c - 1)"
    then have d: "c - 1 < c" "c - 1 < length ?cps" using c(1) by auto
    with c(2) at have "ks ! (256 * (c - 1)) \<le> key" by metis
    moreover have "ks ! i < ks ! (256 * (c - 1))" by (rule strict [OF i at(2) [OF d(2)]])
    ultimately show "ks ! i < key" by simp
  qed
  show "\<forall>i. 256 * (c - 1) + 256 \<le> i \<and> i < length ks \<longrightarrow> key < ks ! i"
  proof (intro allI impI)
    fix i assume i: "256 * (c - 1) + 256 \<le> i \<and> i < length ks"
    have "256 * c \<le> i" using i by (cases c) simp_all
    moreover from this i have "c < length ?cps" unfolding l by (simp add: less_eq_div_iff_mult_less_eq Suc_le_eq [symmetric])
    with c(3) at have "key < ks ! (256 * c)" by (metis le_refl not_le)
    ultimately show "key < ks ! i" using mono [of "256 * c" i] i by simp
  qed
qed

lemma unat_min: "unat (min a b :: 'w::len word) = min (unat a) (unat b)"
  by (simp add: min_def word_le_nat_alt)

lemma locate_spec:
  assumes "run_holds run ks"
  shows "sr_locate run key = Some (of_nat (rank_of key ks), key \<in> set ks)"
proof -
  from assms have ks: "sorted_wrt (<) ks" and n: "length ks < 2 ^ 58"
    and run: "sr_file run = key_file ks" "sr_len run = of_nat (length ks)" "sr_checkpoints run = every_256th ks"
    by (simp_all add: run_holds_def small_def)
  define b where "b = partition_point (\<lambda>candidate. candidate \<le> key) (sr_checkpoints run) - 1"
  have b: "256 * b \<le> length ks" "\<forall>i < 256 * b. ks ! i < key" "\<forall>i. 256 * b + 256 \<le> i \<and> i < length ks \<longrightarrow> key < ks ! i"
    using checkpoint_block [OF ks, of key] unfolding b_def run(3) by blast+
  define e where "e = min (256 * b + 256) (length ks) - 256 * b"
  define bk where "bk = take e (drop (256 * b) ks)"
  have e: "length bk = e" "e \<le> 256" "256 * b + e \<le> length ks" using b(1) by (auto simp: bk_def e_def)
  have at: "bk ! i = ks ! (256 * b + i)" if "i < e" for i using that e b(1) by (simp add: bk_def)
  define bs where "bs = (min (saturating_mul (of_nat b) RUN_INDEX_STRIDE) (sr_len run) :: u64)"
  have ub: "unat (of_nat b :: u64) = b" using b(1) n by (simp add: unat_of_nat_u64)
  have ul: "unat (sr_len run) = length ks" using n by (simp add: run unat_of_nat_u64)
  have ubs: "unat bs = 256 * b" using b(1) n by (simp add: bs_def unat_min unat_saturating_mul ub ul RUN_INDEX_STRIDE_def)
  have be: "unat (min (saturating_add bs RUN_INDEX_STRIDE) (sr_len run) - bs) = e"
    using b(1) n by (simp add: unat_sub word_le_nat_alt unat_min unat_saturating_add ubs ul RUN_INDEX_STRIDE_def e_def)
  have off: "unat (saturating_mul bs KEY_BYTES) = 16 * (256 * b)" using b(1) n by (simp add: unat_saturating_mul ubs KEY_BYTES_def)
  have pr: "(if 0 < e * 16 then pread_exact (sr_file run) (saturating_mul bs KEY_BYTES) (e * 16) else Some []) = Some (key_file bk)"
    using e(3) drop_key_file [of "256 * b" ks] by (auto simp: pread_exact_def off run bk_def mult.commute [of e])
  have skb: "sorted_wrt (<) bk" unfolding bk_def by (intro sorted_wrt_take sorted_wrt_drop ks)
  obtain r where r: "locate_search (key_file bk @ replicate (RUN_BLOCK_BYTES - e * 16) 0) key 0 e = Some r"
    "r \<le> e" "\<forall>i < r. bk ! i < key" "\<forall>i. r \<le> i \<and> i < e \<longrightarrow> key \<le> bk ! i"
  proof -
    have "\<forall>i. e \<le> i \<and> i < length bk \<longrightarrow> key \<le> bk ! i" using e(1) by auto
    from locate_search_spec [OF skb le0 eq_refl [OF e(1) [symmetric]] _ this] that e(1) show thesis by auto
  qed
  have lower: "256 * b + r \<le> length ks" "\<forall>i < 256 * b + r. ks ! i < key" "\<forall>i. 256 * b + r \<le> i \<and> i < length ks \<longrightarrow> key \<le> ks ! i"
  proof -
    show "256 * b + r \<le> length ks" using r(2) e(3) by simp
    show "\<forall>i < 256 * b + r. ks ! i < key"
    proof (intro allI impI)
      fix i assume i: "i < 256 * b + r"
      show "ks ! i < key"
      proof (cases "i < 256 * b")
        case False
        then obtain j where j: "i = 256 * b + j" by (metis add_diff_inverse_nat)
        with i r(2) have "j < r" "j < e" by simp_all
        with r(3) at [of j] j show ?thesis by metis
      qed (use b(2) in simp)
    qed
    show "\<forall>i. 256 * b + r \<le> i \<and> i < length ks \<longrightarrow> key \<le> ks ! i"
    proof (intro allI impI)
      fix i assume i: "256 * b + r \<le> i \<and> i < length ks"
      show "key \<le> ks ! i"
      proof (cases "i < 256 * b + e")
        case True
        from i obtain j where j: "i = 256 * b + j" by (metis add.assoc le_Suc_ex conjunct1)
        with True i have "r \<le> j" "j < e" by simp_all
        with r(4) at [of j] j show ?thesis by metis
      next
        case False
        with i have "256 * b + 256 \<le> i" by (simp add: e_def)
        with b(3) i show ?thesis by (simp add: less_imp_le)
      qed
    qed
  qed
  have found: "(if r < e then map_option (\<lambda>k. k = key) (block_key (key_file bk @ replicate (RUN_BLOCK_BYTES - e * 16) 0) r) else Some False)
      = Some (key \<in> set ks)"
  proof (cases "r < e")
    case True
    with e(1,3) at rank_member [OF ks lower] show ?thesis by (simp add: block_key_file)
  next
    case False
    have "ks ! (256 * b + r) \<noteq> key" if "256 * b + r < length ks"
    proof -
      have "256 * b + 256 \<le> 256 * b + r" using False r(2) that by (simp add: e_def)
      with b(3) that have "key < ks ! (256 * b + r)" by blast
      then show ?thesis by simp
    qed
    with False rank_member [OF ks lower] show ?thesis by auto
  qed
  have "unat (saturating_add bs (of_nat r)) = 256 * b + r"
    using lower(1) n by (simp add: unat_saturating_add ubs unat_of_nat_u64)
  then have sum: "saturating_add bs (of_nat r) = of_nat (rank_of key ks)"
    unfolding rank_unique [OF lower] by (metis of_nat_unat ucast_id)
  show ?thesis
    unfolding sr_locate_def Let_def b_def [symmetric] bs_def [symmetric] be pr by (simp add: r(1) found sum)
qed

lemma contains_spec: "run_holds run ks \<Longrightarrow> sr_contains run key = Some (key \<in> set ks)"
  by (simp add: sr_contains_def locate_spec)

section \<open>Merging\<close>

lemma next_key_file:
  "next_key (length ks) (key_file ks) = Some (case ks of [] \<Rightarrow> (None, []) | k # ks' \<Rightarrow> (Some k, key_file ks'))"
  by (cases ks) (simp_all add: next_key_def read_key_file [unfolded key_file_simps])

text \<open>A reader in the middle of a file: the key read ahead and the keys after it.\<close>

definition ahead :: "u128 list \<Rightarrow> u128 option" where
  "ahead ks = (case ks of [] \<Rightarrow> None | k # _ \<Rightarrow> Some k)"

definition rest_file :: "u128 list \<Rightarrow> bytes" where
  "rest_file ks = key_file (tl ks)"

lemma next_key_ahead: "next_key (length ks) (key_file ks) = Some (ahead ks, rest_file ks)"
  by (simp add: next_key_file ahead_def rest_file_def split: list.split)

lemma merge_step_left:
  "ls = l # ls' \<Longrightarrow> rs = [] \<or> l \<le> hd rs \<Longrightarrow>
    merge_loop (length ls) (ahead ls) (rest_file ls) (length rs) (ahead rs) (rest_file rs) w
    = merge_loop (length ls') (ahead ls') (rest_file ls') (length rs) (ahead rs) (rest_file rs) (rw_push l w)"
  by (subst merge_loop.simps) (cases rs; simp add: ahead_def rest_file_def next_key_ahead [unfolded ahead_def rest_file_def])

lemma merge_step_right:
  "rs = r # rs' \<Longrightarrow> ls = [] \<or> \<not> hd ls \<le> r \<Longrightarrow>
    merge_loop (length ls) (ahead ls) (rest_file ls) (length rs) (ahead rs) (rest_file rs) w
    = merge_loop (length ls) (ahead ls) (rest_file ls) (length rs') (ahead rs') (rest_file rs') (rw_push r w)"
  by (subst merge_loop.simps) (cases ls; simp add: ahead_def rest_file_def next_key_ahead [unfolded ahead_def rest_file_def])

definition extended :: "u128 list \<Rightarrow> u128 \<Rightarrow> u128 list" where
  "extended acc k = (if acc \<noteq> [] \<and> last acc = k then acc else acc @ [k])"

lemma extended_sorted:
  assumes "sorted_wrt (<) acc" "\<forall>a \<in> set acc. a \<le> k"
  shows "sorted_wrt (<) (extended acc k)" "set (extended acc k) = insert k (set acc)"
proof -
  show "set (extended acc k) = insert k (set acc)" by (auto simp: extended_def)
  show "sorted_wrt (<) (extended acc k)"
  proof (cases "acc \<noteq> [] \<and> last acc = k")
    case False
    have "a < k" if "a \<in> set acc" for a
    proof -
      from that have ne: "acc \<noteq> []" by auto
      then have "last acc < k" using False assms(2) by (meson last_in_set less_le)
      moreover have "a \<le> last acc"
        using that assms(1) ne by (cases acc rule: rev_cases) (auto simp: sorted_wrt_append less_imp_le)
      ultimately show ?thesis by simp
    qed
    with False assms(1) show ?thesis by (auto simp: extended_def sorted_wrt_append)
  qed (use assms(1) in \<open>simp add: extended_def\<close>)
qed

lemma merge_loop_spec:
  assumes "sorted_wrt (<) ls" "sorted_wrt (<) rs" "sorted_wrt (<) acc" "writer_holds w acc"
    and "\<forall>a \<in> set acc. \<forall>x \<in> set ls \<union> set rs. a \<le> x" "length acc + length ls + length rs < 2 ^ 58"
  shows "\<exists>w' res. merge_loop (length ls) (ahead ls) (rest_file ls) (length rs) (ahead rs) (rest_file rs) w = Some w'
    \<and> writer_holds w' res \<and> sorted_wrt (<) res \<and> set res = set acc \<union> set ls \<union> set rs"
  using assms
proof (induction "length ls + length rs" arbitrary: ls rs acc w rule: less_induct)
  case less
  have push: "writer_holds (rw_push k w) (extended acc k)" for k
    unfolding extended_def by (rule writer_push [OF less.prems(4)]) (use less.prems(6) in \<open>simp add: small_def\<close>)
  have len: "length (extended acc k) \<le> Suc (length acc)" for k by (simp add: extended_def)
  consider (finished) "ls = []" "rs = []" | (left) l ls' where "ls = l # ls'" "rs = [] \<or> l \<le> hd rs"
    | (right) r rs' where "rs = r # rs'" "ls = [] \<or> \<not> hd ls \<le> r"
    by (cases ls; cases rs) auto
  then show ?case
  proof cases
    case finished
    with less.prems show ?thesis by (intro exI [of _ w] exI [of _ acc]) (subst merge_loop.simps, simp add: ahead_def)
  next
    case (left l ls')
    have ub: "\<forall>a \<in> set acc. a \<le> l" using less.prems(5) left(1) by simp
    note ex = extended_sorted [OF less.prems(3) ub]
    have above: "l \<le> x" if "x \<in> set ls' \<union> set rs" for x
      using that less.prems(1,2) left by (cases rs) (auto simp: less_imp_le intro: order.trans)
    have "\<exists>w' res. merge_loop (length ls') (ahead ls') (rest_file ls') (length rs) (ahead rs) (rest_file rs) (rw_push l w) = Some w'
        \<and> writer_holds w' res \<and> sorted_wrt (<) res \<and> set res = set (extended acc l) \<union> set ls' \<union> set rs"
      by (rule less.hyps) (use less.prems left(1) ex push above len [of l] in auto)
    then show ?thesis unfolding merge_step_left [OF left] using left(1) ex(2) by auto
  next
    case (right r rs')
    have ub: "\<forall>a \<in> set acc. a \<le> r" using less.prems(5) right(1) by simp
    note ex = extended_sorted [OF less.prems(3) ub]
    have above: "r \<le> x" if "x \<in> set ls \<union> set rs'" for x
      using that less.prems(1,2) right by (cases ls) (auto simp: less_imp_le intro: order.trans)
    have "\<exists>w' res. merge_loop (length ls) (ahead ls) (rest_file ls) (length rs') (ahead rs') (rest_file rs') (rw_push r w) = Some w'
        \<and> writer_holds w' res \<and> sorted_wrt (<) res \<and> set res = set (extended acc r) \<union> set ls \<union> set rs'"
      by (rule less.hyps) (use less.prems right(1) ex push above len [of r] in auto)
    then show ?thesis unfolding merge_step_right [OF right] using right(1) ex(2) by auto
  qed
qed

lemma strict_sorted_length: "sorted_wrt (<) (ks :: u128 list) \<Longrightarrow> length ks = card (set ks)"
  by (metis distinct_card strict_sorted_iff)

lemma merge_runs_spec:
  assumes l: "run_holds left ls" and r: "run_holds right rs" and n: "length ls + length rs < 2 ^ 58"
  shows "\<exists>run res. merge_runs left right = Some run \<and> run_holds run res \<and> set res = set ls \<union> set rs"
proof -
  obtain w res where m: "merge_loop (length ls) (ahead ls) (rest_file ls) (length rs) (ahead rs) (rest_file rs) rw_new = Some w"
    "writer_holds w res" "sorted_wrt (<) res" "set res = set ls \<union> set rs"
    using merge_loop_spec [of ls rs "[]" rw_new] writer_new l r n by (auto simp: run_holds_def)
  have "card (set ls \<union> set rs) \<le> card (set ls) + card (set rs)" by (rule card_Un_le)
  then have "length res \<le> length ls + length rs"
    using m(3,4) l r by (simp add: strict_sorted_length run_holds_def)
  then have "small res" using n by (simp add: small_def)
  with m show ?thesis using l r
    by (intro exI [of _ "rw_finish w"] exI [of _ res]) (simp add: merge_runs_def run_holds_def next_key_ahead writer_finish [unfolded run_holds_def])
qed

section \<open>Pages\<close>

lemma drop_rank:
  assumes "sorted_wrt (<) ks"
  shows "drop (rank_of key ks) ks = filter (\<lambda>k. key \<le> k) ks"
  using assms
proof (induction ks)
  case (Cons k ks)
  show ?case
  proof (cases "k < key")
    case False
    then have "\<forall>x \<in> set ks. key \<le> x" using Cons.prems by auto
    with False show ?thesis by (auto simp: rank_of_def filter_False not_less filter_id_conv)
  qed (use Cons in \<open>simp add: rank_of_def\<close>)
qed simp

lemma takeWhile_sorted:
  "sorted_wrt (<) ks \<Longrightarrow> takeWhile (\<lambda>k. k \<le> u) ks = filter (\<lambda>k. k \<le> u) (ks :: u128 list)"
proof (induction ks)
  case (Cons k ks)
  show ?case
  proof (cases "k \<le> u")
    case False
    then have "\<not> x \<le> u" if "x \<in> set ks" for x using Cons.prems that by fastforce
    with False show ?thesis by (simp add: filter_False)
  qed (use Cons in simp)
qed simp

lemma batch_loop_spec:
  "batch_loop upper limit (length ks) (key_file ks) appended keys
    = Some (keys @ take (max 1 (limit - appended)) (takeWhile (\<lambda>k. k \<le> upper) ks))"
proof (induction ks arbitrary: appended keys)
  case (Cons k ks)
  then show ?case
    using read_key_file [of k ks] by (auto simp: not_less max_def take_Suc_conv_app_nth take_Cons' split: if_splits)
qed simp

definition in_page :: "u32 \<Rightarrow> u128 option \<Rightarrow> u128 \<Rightarrow> bool" where
  "in_page prefix after k \<longleftrightarrow> drop_bit 96 k = ucast prefix \<and> (case after of Some a \<Rightarrow> a < k | None \<Rightarrow> True)"

lemma unat_shifted_prefix: "unat (push_bit 96 (ucast (p :: u32)) :: u128) = unat p * 2 ^ 96"
proof -
  have p: "unat p < 2 ^ 32" using unsigned_less [of p, where ?'a = nat] by simp
  have "unat (push_bit 96 (ucast p) :: u128) = (unat p * 2 ^ 96) mod 2 ^ 128"
    using p by (simp add: push_bit_eq_mult unat_word_ariths unsigned_ucast_eq take_bit_eq_mod)
  also have "\<dots> = unat p * 2 ^ 96" using p by (intro mod_less) simp
  finally show ?thesis .
qed

lemma unat_prefix_upper: "unat (prefix_upper p) = (unat p + 1) * 2 ^ 96 - 1"
proof (cases "p = - 1")
  case True
  then show ?thesis by (simp add: prefix_upper_def unat_minus_one)
next
  case False
  have "unat p \<noteq> 2 ^ 32 - 1"
  proof
    assume "unat p = 2 ^ 32 - 1"
    then have "unat p = unat (- 1 :: u32)" by (simp add: unat_minus_one)
    with False show False by (simp only: word_eq_iff_unsigned [symmetric, where ?'a = nat])
  qed
  moreover have "unat p < 2 ^ 32" using unsigned_less [of p, where ?'a = nat] by simp
  ultimately have "unat (p + 1) = unat p + 1" by (simp add: unat_word_ariths)
  with False show ?thesis by (simp add: prefix_upper_def unat_saturating_sub unat_shifted_prefix)
qed

lemma div_range: "0 < d \<Longrightarrow> n div d = p \<longleftrightarrow> p * d \<le> n \<and> n < (p + 1) * d" for n d p :: nat
  using dividend_less_div_times [of d n] by (auto intro: div_nat_eqI simp: algebra_simps)

lemma prefix_bounds: "drop_bit 96 k = (ucast prefix :: u128) \<longleftrightarrow> prefix_lower prefix \<le> k \<and> k \<le> prefix_upper prefix"
proof -
  have "unat (ucast prefix :: u128) = unat prefix" using unsigned_less [of prefix, where ?'a = nat]
    by (simp add: unsigned_ucast_eq take_bit_nat_eq_self)
  then have "drop_bit 96 k = (ucast prefix :: u128) \<longleftrightarrow> unat k div 2 ^ 96 = unat prefix"
    by (simp add: word_eq_iff_unsigned [where ?'a = nat] unat_div drop_bit_eq_div)
  also have "\<dots> \<longleftrightarrow> unat prefix * 2 ^ 96 \<le> unat k \<and> unat k < (unat prefix + 1) * 2 ^ 96"
    by (rule div_range) simp
  also have "\<dots> \<longleftrightarrow> prefix_lower prefix \<le> k \<and> k \<le> prefix_upper prefix"
    by (simp add: word_le_nat_alt unat_prefix_upper prefix_lower_def unat_shifted_prefix) arith
  finally show ?thesis .
qed

lemma append_prefix_batch_spec:
  assumes "run_holds run ks"
  shows "append_prefix_batch run prefix after limit keys
    = Some (keys @ take (max 1 limit) (filter (in_page prefix after) ks))"
proof -
  from assms have ks: "sorted_wrt (<) ks" and n: "length ks < 2 ^ 58"
    and run: "sr_file run = key_file ks" "sr_len run = of_nat (length ks)"
    by (simp_all add: run_holds_def small_def)
  let ?u = "prefix_upper prefix" and ?l = "prefix_lower prefix"
  show ?thesis
  proof (cases "case after of Some key \<Rightarrow> ?u \<le> key | None \<Rightarrow> False")
    case True
    then have "filter (in_page prefix after) ks = []"
      by (auto simp: in_page_def prefix_bounds filter_empty_conv split: option.splits)
    with True show ?thesis by (simp add: append_prefix_batch_def Let_def)
  next
    case False
    define first where "first = (case after of Some key \<Rightarrow> max (saturating_add key 1) ?l | None \<Rightarrow> ?l)"
    have first: "first \<le> k \<and> k \<le> ?u \<longleftrightarrow> in_page prefix after k" for k
    proof (cases after)
      case (Some key)
      with False have "key < ?u" by simp
      then have "unat key < unat ?u" by (simp add: word_less_nat_alt)
      moreover have "unat ?u < 2 ^ 128" using unsigned_less [of ?u, where ?'a = nat] by simp
      ultimately have "unat (saturating_add key 1) = Suc (unat key)" by (simp add: unat_saturating_add)
      then have "saturating_add key 1 \<le> k \<longleftrightarrow> key < k" by (simp add: word_le_nat_alt word_less_nat_alt Suc_le_eq)
      with Some show ?thesis by (auto simp: first_def in_page_def prefix_bounds)
    qed (auto simp: first_def in_page_def prefix_bounds)
    have r: "rank_of first ks \<le> length ks" by (simp add: rank_of_def)
    have start: "sr_lower_bound run first = Some (of_nat (rank_of first ks))" by (simp add: sr_lower_bound_def locate_spec [OF assms])
    have u: "unat (of_nat (rank_of first ks) :: u64) = rank_of first ks" "unat (sr_len run) = length ks"
      using r n by (simp_all add: run unat_of_nat_u64)
    have off: "unat (saturating_mul (of_nat (rank_of first ks)) KEY_BYTES) = 16 * rank_of first ks"
      using r n by (simp add: unat_saturating_mul u KEY_BYTES_def)
    have "append_prefix_batch run prefix after limit keys
        = batch_loop ?u limit (length (drop (rank_of first ks) ks)) (key_file (drop (rank_of first ks) ks)) 0 keys"
      using False by (simp add: append_prefix_batch_def Let_def start off run u u(2) [unfolded run] flip: first_def)
    also have "\<dots> = Some (keys @ take (max 1 limit) (filter (in_page prefix after) ks))"
      unfolding batch_loop_spec using ks by (simp add: takeWhile_sorted sorted_wrt_drop) (simp add: drop_rank first)
    finally show ?thesis .
  qed
qed

end
