(* ===== verification/Spill_Cache.thy ===== *)
theory Spill_Cache
  imports Spill_Run
begin

text \<open>
  The two structures that keep the external-memory set from reading its runs
  (\<^verbatim>\<open>crates/idg/src/spill_set.rs\<close>): the Bloom filter, which answers that a key is absent, and the
  set-associative cache of keys that were found, with its CLOCK eviction. An index out of range and
  a division by zero are \<open>None\<close>. The atomics of the cache are read and written in program order.

  Shown: no key that was inserted is reported absent by the filter, and the cache holds only keys
  it was told to remember; neither panics, and the eviction loop ends.
\<close>

section \<open>Hashing\<close>

definition mix64 :: "u64 \<Rightarrow> u64" where
  "mix64 value =
     (let value = value XOR drop_bit 30 value;
          value = value * 0xbf58476d1ce4e5b9;
          value = value XOR drop_bit 27 value;
          value = value * 0x94d049bb133111eb
      in value XOR drop_bit 31 value)"

definition bloom_hashes :: "u128 \<Rightarrow> u64 \<times> u64" where
  "bloom_hashes key =
     (let low = ucast key :: u64;
          high = ucast (drop_bit 64 key) :: u64;
          first = mix64 (low XOR word_rotl 17 high);
          step = mix64 (high XOR word_rotl 31 low XOR 0x9e3779b97f4a7c15) OR 1
      in (first, step))"

section \<open>The Bloom filter\<close>

record bloom_filter =
  bf_words :: "u64 list"
  bf_bit_len :: u64
  bf_hash_count :: u64

definition MAX_BLOOM_HASH_COUNT :: u64 where "MAX_BLOOM_HASH_COUNT = 7"

definition div_ceil :: "'w::len word \<Rightarrow> 'w word \<Rightarrow> 'w word" where
  "div_ceil a b = (if a mod b = 0 then a div b else a div b + 1)"

definition bf_new :: "nat \<Rightarrow> u64 \<Rightarrow> bloom_filter" where
  "bf_new byte_budget expected_items =
     (let word_count = (max byte_budget 8 + 7) div 8;
          bit_len = saturating_mul (of_nat word_count) 64;
          bits_per_item = bit_len div max expected_items 1;
          hash_count = min (max (div_ceil (saturating_mul bits_per_item 7) 10) 1) MAX_BLOOM_HASH_COUNT
      in \<lparr>bf_words = replicate word_count 0, bf_bit_len = bit_len, bf_hash_count = hash_count\<rparr>)"

definition bf_bit :: "bloom_filter \<Rightarrow> u128 \<Rightarrow> nat \<Rightarrow> u64 option" where
  "bf_bit f key round =
     (let (first, step) = bloom_hashes key in
      if bf_bit_len f = 0 then None else Some ((first + of_nat round * step) mod bf_bit_len f))"

definition bf_rounds :: "bloom_filter \<Rightarrow> nat list" where
  "bf_rounds f = [0..<unat (bf_hash_count f)]"

definition bf_insert :: "u128 \<Rightarrow> bloom_filter \<Rightarrow> bloom_filter option" where
  "bf_insert key f =
     for_each (\<lambda>round f. do {
         b \<leftarrow> bf_bit f key round;
         w \<leftarrow> vec_get (bf_words f) (unat (b div 64));
         ws \<leftarrow> vec_set (bf_words f) (unat (b div 64)) (w OR push_bit (unat (b mod 64)) 1);
         Some (f\<lparr>bf_words := ws\<rparr>)
       }) (bf_rounds f) f"

definition bf_test :: "bloom_filter \<Rightarrow> u128 \<Rightarrow> nat \<Rightarrow> bool option" where
  "bf_test f key round = do {
     b \<leftarrow> bf_bit f key round;
     w \<leftarrow> vec_get (bf_words f) (unat (b div 64));
     Some (w AND push_bit (unat (b mod 64)) 1 \<noteq> 0)
   }"

definition bf_may_contain :: "bloom_filter \<Rightarrow> u128 \<Rightarrow> bool option" where
  "bf_may_contain f key = map_option Not (iter_any (\<lambda>round. map_option Not (bf_test f key round)) (bf_rounds f))"

definition bf_byte_len :: "bloom_filter \<Rightarrow> nat" where
  "bf_byte_len f = length (bf_words f) * 8"

section \<open>The cache of keys found\<close>

definition RECENT_POSITIVE_ASSOCIATIVITY :: nat where "RECENT_POSITIVE_ASSOCIATIVITY = 4"

definition RECENT_POSITIVE_OCCUPIED :: u8 where "RECENT_POSITIVE_OCCUPIED = 1"

definition RECENT_POSITIVE_REFERENCED :: u8 where "RECENT_POSITIVE_REFERENCED = 2"

definition RECENT_POSITIVE_SET_BYTES :: nat where
  "RECENT_POSITIVE_SET_BYTES = RECENT_POSITIVE_ASSOCIATIVITY * (16 + 1) + 1"

record recent_positive_cache =
  pc_keys :: "u128 list"
  pc_metadata :: "u8 list"
  pc_hands :: "u8 list"
  pc_set_count :: nat
  pc_len :: nat

definition pc_new :: "nat \<Rightarrow> recent_positive_cache" where
  "pc_new memory_budget_bytes =
     (let set_count = max (memory_budget_bytes div RECENT_POSITIVE_SET_BYTES) 1;
          capacity = set_count * RECENT_POSITIVE_ASSOCIATIVITY
      in \<lparr>pc_keys = replicate capacity 0, pc_metadata = replicate capacity 0, pc_hands = replicate set_count 0,
          pc_set_count = set_count, pc_len = 0\<rparr>)"

definition pc_set_index :: "recent_positive_cache \<Rightarrow> u128 \<Rightarrow> nat option" where
  "pc_set_index c key =
     (let low = ucast key :: u64; high = ucast (drop_bit 64 key) :: u64 in
      if pc_set_count c = 0 then None else Some (unat (mix64 (low XOR word_rotl 29 high)) mod pc_set_count c))"

definition pc_ways :: "nat \<Rightarrow> nat list" where
  "pc_ways start = [start..<start + RECENT_POSITIVE_ASSOCIATIVITY]"

fun pc_scan :: "u128 \<Rightarrow> nat list \<Rightarrow> recent_positive_cache \<Rightarrow> (bool \<times> recent_positive_cache) option" where
  "pc_scan key [] c = Some (False, c)"
| "pc_scan key (index # ways) c = do {
     metadata \<leftarrow> vec_get (pc_metadata c) index;
     if metadata AND RECENT_POSITIVE_OCCUPIED = 0 then Some (False, c)
     else do {
       k \<leftarrow> vec_get (pc_keys c) index;
       if k = key then do {
         ms \<leftarrow> vec_set (pc_metadata c) index (metadata OR RECENT_POSITIVE_REFERENCED);
         Some (True, c\<lparr>pc_metadata := ms\<rparr>)
       } else pc_scan key ways c
     }
   }"

definition pc_contains :: "u128 \<Rightarrow> recent_positive_cache \<Rightarrow> (bool \<times> recent_positive_cache) option" where
  "pc_contains key c = do { s \<leftarrow> pc_set_index c key; pc_scan key (pc_ways (s * RECENT_POSITIVE_ASSOCIATIVITY)) c }"

fun pc_find_free :: "nat list \<Rightarrow> recent_positive_cache \<Rightarrow> nat option option" where
  "pc_find_free [] c = Some None"
| "pc_find_free (index # ways) c = do {
     metadata \<leftarrow> vec_get (pc_metadata c) index;
     if metadata AND RECENT_POSITIVE_OCCUPIED = 0 then Some (Some index) else pc_find_free ways c
   }"

definition pc_place :: "u128 \<Rightarrow> nat \<Rightarrow> recent_positive_cache \<Rightarrow> recent_positive_cache option" where
  "pc_place key index c = do {
     ks \<leftarrow> vec_set (pc_keys c) index key;
     ms \<leftarrow> vec_set (pc_metadata c) index (RECENT_POSITIVE_OCCUPIED OR RECENT_POSITIVE_REFERENCED);
     Some (c\<lparr>pc_keys := ks, pc_metadata := ms\<rparr>)
   }"

definition referenced :: "u8 \<Rightarrow> bool" where
  "referenced metadata \<longleftrightarrow> metadata AND RECENT_POSITIVE_REFERENCED \<noteq> 0"

lemma filter_update_less:
  "i < length xs \<Longrightarrow> P (xs ! i) \<Longrightarrow> \<not> P v \<Longrightarrow> length (filter P (xs[i := v])) < length (filter P xs)"
proof (induction xs arbitrary: i)
  case (Cons x xs)
  then show ?case by (cases i) auto
qed simp

function pc_clock :: "u128 \<Rightarrow> nat \<Rightarrow> nat \<Rightarrow> nat \<Rightarrow> recent_positive_cache \<Rightarrow> recent_positive_cache option" where
  "pc_clock key s start hand c =
     (let index = start + hand in
      case vec_get (pc_metadata c) index of
        None \<Rightarrow> None
      | Some metadata \<Rightarrow>
          (let c = c\<lparr>pc_metadata := (pc_metadata c)[index := RECENT_POSITIVE_OCCUPIED]\<rparr>;
               hand = (hand + 1) mod RECENT_POSITIVE_ASSOCIATIVITY
           in if referenced metadata then pc_clock key s start hand c
              else do {
                c \<leftarrow> pc_place key index c;
                hs \<leftarrow> vec_set (pc_hands c) s (of_nat hand);
                Some (c\<lparr>pc_hands := hs\<rparr>)
              }))"
  by pat_completeness auto
termination
proof (relation "measure (\<lambda>(_, _, _, _, c). length (filter referenced (pc_metadata c)))")
  show "wf (measure (\<lambda>(_ :: u128, _ :: nat, _ :: nat, _ :: nat, c). length (filter referenced (pc_metadata c))))" by simp
next
  fix key :: u128 and s start hand index :: nat and c :: recent_positive_cache and metadata c' hand'
  assume a: "index = start + hand" "vec_get (pc_metadata c) index = Some metadata"
    "c' = c\<lparr>pc_metadata := (pc_metadata c)[index := RECENT_POSITIVE_OCCUPIED]\<rparr>"
    "hand' = (hand + 1) mod RECENT_POSITIVE_ASSOCIATIVITY" "referenced metadata"
  have "\<not> referenced RECENT_POSITIVE_OCCUPIED" by (simp add: referenced_def RECENT_POSITIVE_OCCUPIED_def RECENT_POSITIVE_REFERENCED_def)
  with a filter_update_less [of index "pc_metadata c" referenced] show "((key, s, start, hand', c'), key, s, start, hand, c)
      \<in> measure (\<lambda>(_, _, _, _, c). length (filter referenced (pc_metadata c)))"
    by (simp add: vec_get_eq_Some)
qed

declare pc_clock.simps [simp del]

definition pc_remember_absent :: "u128 \<Rightarrow> recent_positive_cache \<Rightarrow> recent_positive_cache option" where
  "pc_remember_absent key c = do {
     s \<leftarrow> pc_set_index c key;
     let start = s * RECENT_POSITIVE_ASSOCIATIVITY;
     free \<leftarrow> pc_find_free (pc_ways start) c;
     case free of
       Some index \<Rightarrow> do { c \<leftarrow> pc_place key index c; Some (c\<lparr>pc_len := pc_len c + 1\<rparr>) }
     | None \<Rightarrow> do {
         hand \<leftarrow> vec_get (pc_hands c) s;
         pc_clock key s start (unat hand mod RECENT_POSITIVE_ASSOCIATIVITY) c
       }
   }"

definition pc_remember :: "u128 \<Rightarrow> recent_positive_cache \<Rightarrow> recent_positive_cache option" where
  "pc_remember key c = do {
     (found, c) \<leftarrow> pc_contains key c;
     if found then Some c else pc_remember_absent key c
   }"

section \<open>The filter has no false negatives\<close>

definition bloom_ok :: "bloom_filter \<Rightarrow> bool" where
  "bloom_ok f \<longleftrightarrow> 0 < unat (bf_bit_len f) \<and> unat (bf_bit_len f) \<le> 64 * length (bf_words f)"

definition bit_set :: "bloom_filter \<Rightarrow> u64 \<Rightarrow> bool" where
  "bit_set f b \<longleftrightarrow> bit (bf_words f ! unat (b div 64)) (unat (b mod 64))"

definition key_bit :: "bloom_filter \<Rightarrow> u128 \<Rightarrow> nat \<Rightarrow> u64" where
  "key_bit f key round = (fst (bloom_hashes key) + of_nat round * snd (bloom_hashes key)) mod bf_bit_len f"

lemma bf_bit_ok:
  assumes "bloom_ok f"
  shows "bf_bit f key round = Some (key_bit f key round)" "unat (key_bit f key round div 64) < length (bf_words f)"
proof -
  have "bf_bit_len f \<noteq> 0" using assms by (auto simp: bloom_ok_def)
  then show "bf_bit f key round = Some (key_bit f key round)" by (simp add: bf_bit_def key_bit_def split: prod.split)
  have "unat (key_bit f key round) < unat (bf_bit_len f)" using assms by (simp add: key_bit_def unat_mod bloom_ok_def)
  then have "unat (key_bit f key round) < 64 * length (bf_words f)" using assms by (simp add: bloom_ok_def)
  then show "unat (key_bit f key round div 64) < length (bf_words f)" by (simp add: unat_div div_less_iff_less_mult mult.commute)
qed

lemma bf_test_ok: "bloom_ok f \<Longrightarrow> bf_test f key round = Some (bit_set f (key_bit f key round))"
  by (simp add: bf_test_def bf_bit_ok bit_set_def bit_iff_and_push_bit_not_eq_0)

definition covers_key :: "bloom_filter \<Rightarrow> u128 \<Rightarrow> bool" where
  "covers_key f key \<longleftrightarrow> (\<forall>round < unat (bf_hash_count f). bit_set f (key_bit f key round))"

lemma may_contain_ok: "bloom_ok f \<Longrightarrow> bf_may_contain f key = Some (covers_key f key)"
  unfolding bf_may_contain_def
  by (subst iter_any_total [where P = "\<lambda>round. \<not> bit_set f (key_bit f key round)"])
    (auto simp: bf_test_ok covers_key_def bf_rounds_def)

definition same_shape :: "bloom_filter \<Rightarrow> bloom_filter \<Rightarrow> bool" where
  "same_shape f f' \<longleftrightarrow> bf_bit_len f' = bf_bit_len f \<and> bf_hash_count f' = bf_hash_count f
     \<and> length (bf_words f') = length (bf_words f) \<and> (\<forall>b. unat (b div 64) < length (bf_words f) \<longrightarrow> bit_set f b \<longrightarrow> bit_set f' b)"

lemma set_bit_step:
  assumes "bloom_ok f" "unat (b div 64) < length (bf_words f)"
  defines "f' \<equiv> f\<lparr>bf_words := (bf_words f)[unat (b div 64) := bf_words f ! unat (b div 64) OR push_bit (unat (b mod 64)) 1]\<rparr>"
  shows "bloom_ok f'" "same_shape f f'" "bit_set f' b"
proof -
  have "unat (b mod 64) < 64" by (simp add: unat_mod)
  with assms(2) show "bit_set f' b" by (simp add: f'_def bit_set_def bit_or_iff bit_exp_iff)
  show "bloom_ok f'" using assms(1) by (simp add: f'_def bloom_ok_def)
  show "same_shape f f'" using assms(2) by (auto simp: f'_def same_shape_def bit_set_def nth_list_update bit_or_iff)
qed

lemma bf_insert_rounds:
  assumes "bloom_ok f" "same_shape f0 f" "\<forall>round \<in> set done_rounds. bit_set f (key_bit f0 key round)"
    "\<And>round. unat (key_bit f0 key round div 64) < length (bf_words f0)"
  shows "\<exists>f'. for_each (\<lambda>round f. do {
         b \<leftarrow> bf_bit f key round;
         w \<leftarrow> vec_get (bf_words f) (unat (b div 64));
         ws \<leftarrow> vec_set (bf_words f) (unat (b div 64)) (w OR push_bit (unat (b mod 64)) 1);
         Some (f\<lparr>bf_words := ws\<rparr>)
       }) rounds f = Some f'
    \<and> bloom_ok f' \<and> same_shape f0 f' \<and> (\<forall>round \<in> set done_rounds \<union> set rounds. bit_set f' (key_bit f0 key round))"
  using assms
proof (induction rounds arbitrary: f done_rounds)
  case (Cons round rounds)
  let ?b = "key_bit f key round"
  have eq: "key_bit f key r = key_bit f0 key r" for r using Cons.prems(2) by (simp add: key_bit_def same_shape_def)
  have b: "bf_bit f key round = Some ?b" "unat (?b div 64) < length (bf_words f)" by (rule bf_bit_ok [OF Cons.prems(1)])+
  define f' where "f' = f\<lparr>bf_words := (bf_words f)[unat (?b div 64) := bf_words f ! unat (?b div 64) OR push_bit (unat (?b mod 64)) 1]\<rparr>"
  note st = set_bit_step [OF Cons.prems(1) b(2), folded f'_def]
  have shape: "same_shape f0 f'" using Cons.prems(2) st(2) by (auto simp: same_shape_def)
  have "\<forall>r \<in> set (round # done_rounds). bit_set f' (key_bit f0 key r)"
    using Cons.prems(2,3,4) st(2,3) by (auto simp: same_shape_def eq)
  from Cons.IH [OF st(1) shape this Cons.prems(4)] b show ?case
    by (auto simp: f'_def)
qed auto

lemma bf_insert_ok:
  assumes "bloom_ok f"
  shows "\<exists>f'. bf_insert key f = Some f' \<and> bloom_ok f' \<and> covers_key f' key \<and> (\<forall>k. covers_key f k \<longrightarrow> covers_key f' k)"
proof -
  note at = bf_bit_ok(2) [OF assms]
  have "same_shape f f" by (simp add: same_shape_def)
  from bf_insert_rounds [OF assms this _ at, of "[]" key "bf_rounds f"] obtain f' where f':
    "bf_insert key f = Some f'" "bloom_ok f'" "same_shape f f'" "\<forall>round \<in> set (bf_rounds f). bit_set f' (key_bit f key round)"
    unfolding bf_insert_def by auto
  have eq: "key_bit f' k r = key_bit f k r" for k r using f'(3) by (simp add: key_bit_def same_shape_def)
  have "covers_key f' key" using f'(3,4) by (simp add: covers_key_def eq bf_rounds_def same_shape_def)
  moreover have "covers_key f' k" if "covers_key f k" for k
    using that f'(3) at by (simp add: covers_key_def eq same_shape_def)
  ultimately show ?thesis using f'(1,2) by blast
qed

lemma bf_new_ok:
  assumes "budget < 2 ^ 60"
  shows "bloom_ok (bf_new budget n)"
proof -
  let ?w = "(max budget 8 + 7) div 8"
  have "1 \<le> ?w" by simp
  moreover have "?w < 2 ^ 58" using assms by simp
  ultimately show ?thesis by (simp add: bf_new_def bloom_ok_def Let_def unat_saturating_mul unat_of_nat_u64)
qed

section \<open>The cache holds only what it remembers\<close>

definition occupied :: "u8 \<Rightarrow> bool" where
  "occupied metadata \<longleftrightarrow> metadata AND RECENT_POSITIVE_OCCUPIED \<noteq> 0"

definition cache_ok :: "recent_positive_cache \<Rightarrow> bool" where
  "cache_ok c \<longleftrightarrow> 0 < pc_set_count c \<and> length (pc_keys c) = 4 * pc_set_count c
     \<and> length (pc_metadata c) = 4 * pc_set_count c \<and> length (pc_hands c) = pc_set_count c"

definition cached :: "recent_positive_cache \<Rightarrow> u128 set" where
  "cached c = {pc_keys c ! i | i. i < length (pc_keys c) \<and> occupied (pc_metadata c ! i)}"

lemma metadata_flags [simp]:
  "occupied (m OR RECENT_POSITIVE_REFERENCED) = occupied m" "occupied RECENT_POSITIVE_OCCUPIED"
  "occupied (RECENT_POSITIVE_OCCUPIED OR RECENT_POSITIVE_REFERENCED)" "\<not> occupied 0"
  by (simp_all add: occupied_def RECENT_POSITIVE_OCCUPIED_def RECENT_POSITIVE_REFERENCED_def
      and_one_eq even_or_iff odd_iff_mod_2_eq_one [symmetric])

lemma set_index_ok:
  assumes "cache_ok c"
  shows "\<exists>s. pc_set_index c key = Some s \<and> s < pc_set_count c"
  using assms by (simp add: pc_set_index_def cache_ok_def Let_def)

lemma ways_in_range: "cache_ok c \<Longrightarrow> s < pc_set_count c \<Longrightarrow> i \<in> set (pc_ways (s * RECENT_POSITIVE_ASSOCIATIVITY)) \<Longrightarrow> i < 4 * pc_set_count c"
  by (auto simp: pc_ways_def RECENT_POSITIVE_ASSOCIATIVITY_def cache_ok_def)

lemma scan_ok:
  assumes "cache_ok c" "\<forall>i \<in> set ways. i < 4 * pc_set_count c"
  shows "\<exists>found c'. pc_scan key ways c = Some (found, c') \<and> cache_ok c' \<and> cached c' = cached c \<and> (found \<longrightarrow> key \<in> cached c)"
  using assms
proof (induction ways)
  case (Cons i ways)
  have i: "i < length (pc_metadata c)" "i < length (pc_keys c)" using Cons.prems by (simp_all add: cache_ok_def)
  show ?case
  proof (cases "occupied (pc_metadata c ! i) \<and> pc_keys c ! i = key")
    case True
    let ?c = "c\<lparr>pc_metadata := (pc_metadata c)[i := pc_metadata c ! i OR RECENT_POSITIVE_REFERENCED]\<rparr>"
    have "cached ?c = cached c" by (auto simp: cached_def nth_list_update i)
    moreover have "key \<in> cached c" using True i by (auto simp: cached_def)
    ultimately show ?thesis using True i Cons.prems(1) by (intro exI [of _ True] exI [of _ ?c]) (simp add: occupied_def cache_ok_def)
  next
    case False
    show ?thesis
    proof (cases "occupied (pc_metadata c ! i)")
      case True
      with False i Cons show ?thesis by (simp add: occupied_def)
    next
      case False
      with i Cons.prems(1) show ?thesis by (intro exI [of _ False] exI [of _ c]) (simp add: occupied_def)
    qed
  qed
qed auto

lemma pc_contains_ok:
  assumes "cache_ok c"
  shows "\<exists>found c'. pc_contains key c = Some (found, c') \<and> cache_ok c' \<and> cached c' = cached c \<and> (found \<longrightarrow> key \<in> cached c)"
proof -
  obtain s where "pc_set_index c key = Some s" "s < pc_set_count c" using set_index_ok [OF assms] by blast
  with scan_ok [OF assms] ways_in_range [OF assms] show ?thesis by (simp add: pc_contains_def)
qed

lemma place_ok:
  assumes "cache_ok c" "i < 4 * pc_set_count c"
  shows "\<exists>c'. pc_place key i c = Some c' \<and> cache_ok c' \<and> key \<in> cached c' \<and> cached c' \<subseteq> insert key (cached c)
    \<and> pc_hands c' = pc_hands c \<and> pc_set_count c' = pc_set_count c"
proof -
  let ?c = "c\<lparr>pc_keys := (pc_keys c)[i := key], pc_metadata := (pc_metadata c)[i := RECENT_POSITIVE_OCCUPIED OR RECENT_POSITIVE_REFERENCED]\<rparr>"
  have i: "i < length (pc_metadata c)" "i < length (pc_keys c)" "length (pc_metadata c) = length (pc_keys c)"
    using assms by (simp_all add: cache_ok_def)
  have "key \<in> cached ?c" using i by (auto simp: cached_def intro!: exI [of _ i])
  moreover have "cached ?c \<subseteq> insert key (cached c)" using i by (auto simp: cached_def nth_list_update)
  moreover have "cache_ok ?c" using assms(1) by (simp add: cache_ok_def)
  moreover have "pc_place key i c = Some ?c" using i by (simp add: pc_place_def)
  ultimately show ?thesis by simp
qed

lemma find_free_ok:
  assumes "cache_ok c" "\<forall>i \<in> set ways. i < 4 * pc_set_count c"
  shows "\<exists>free. pc_find_free ways c = Some free \<and> (case free of Some i \<Rightarrow> i \<in> set ways | None \<Rightarrow> \<forall>i \<in> set ways. occupied (pc_metadata c ! i))"
  using assms
proof (induction ways)
  case (Cons i ways)
  then have "i < length (pc_metadata c)" by (simp add: cache_ok_def)
  with Cons show ?case by (auto simp: occupied_def split: option.splits)
qed simp

lemma clock_ok:
  assumes "cache_ok c" "s < pc_set_count c" "start = s * 4" "hand < 4" "\<forall>i \<in> {start..<start + 4}. occupied (pc_metadata c ! i)"
  shows "\<exists>c'. pc_clock key s start hand c = Some c' \<and> cache_ok c' \<and> key \<in> cached c' \<and> cached c' \<subseteq> insert key (cached c)"
  using assms
proof (induction key s start hand c rule: pc_clock.induct)
  case (1 key s start hand c)
  let ?i = "start + hand"
  have i: "?i < 4 * pc_set_count c" "?i < length (pc_metadata c)" "?i < length (pc_keys c)" using "1.prems" by (auto simp: cache_ok_def)
  define c1 where "c1 = c\<lparr>pc_metadata := (pc_metadata c)[?i := RECENT_POSITIVE_OCCUPIED]\<rparr>"
  define hand1 where "hand1 = (hand + 1) mod RECENT_POSITIVE_ASSOCIATIVITY"
  have get: "vec_get (pc_metadata c) ?i = Some (pc_metadata c ! ?i)" using i by simp
  have occ: "occupied (pc_metadata c ! ?i)" using "1.prems"(4,5) by simp
  have c1: "cache_ok c1" "cached c1 = cached c" "pc_set_count c1 = pc_set_count c"
    "\<forall>j \<in> {start..<start + 4}. occupied (pc_metadata c1 ! j)"
    using "1.prems"(1,5) occ i by (auto simp: c1_def cache_ok_def cached_def nth_list_update)
  have h1: "hand1 < 4" by (simp add: hand1_def RECENT_POSITIVE_ASSOCIATIVITY_def)
  show ?case
  proof (cases "referenced (pc_metadata c ! ?i)")
    case True
    have eq: "pc_clock key s start hand c = pc_clock key s start hand1 c1"
      using True get by (simp add: pc_clock.simps [of key s start hand c] Let_def c1_def hand1_def)
    from "1.IH" [OF refl get c1_def hand1_def True c1(1) _ "1.prems"(3) h1 c1(4)] c1 "1.prems"(2) show ?thesis unfolding eq by simp
  next
    case False
    obtain c2 where c2: "pc_place key ?i c1 = Some c2" "cache_ok c2" "key \<in> cached c2" "cached c2 \<subseteq> insert key (cached c1)"
      "pc_hands c2 = pc_hands c1" "pc_set_count c2 = pc_set_count c1"
      using place_ok [OF c1(1), of ?i key] i(1) c1(3) by auto
    have "s < length (pc_hands c2)" using c2(2,6) c1(3) "1.prems"(2) by (simp add: cache_ok_def)
    then have eq: "pc_clock key s start hand c = Some (c2\<lparr>pc_hands := (pc_hands c2)[s := of_nat hand1]\<rparr>)"
      using False get c2(1) by (simp add: pc_clock.simps [of key s start hand c] Let_def c1_def hand1_def)
    show ?thesis unfolding eq using c2(2-4) c1(2) by (auto simp: cache_ok_def cached_def)
  qed
qed

lemma remember_absent_ok:
  assumes "cache_ok c"
  shows "\<exists>c'. pc_remember_absent key c = Some c' \<and> cache_ok c' \<and> key \<in> cached c' \<and> cached c' \<subseteq> insert key (cached c)"
proof -
  obtain s where s: "pc_set_index c key = Some s" "s < pc_set_count c" using set_index_ok [OF assms] by blast
  let ?ways = "pc_ways (s * RECENT_POSITIVE_ASSOCIATIVITY)"
  note range = ways_in_range [OF assms s(2)]
  obtain free where free: "pc_find_free ?ways c = Some free"
    "case free of Some i \<Rightarrow> i \<in> set ?ways | None \<Rightarrow> \<forall>i \<in> set ?ways. occupied (pc_metadata c ! i)"
    using find_free_ok [OF assms, of ?ways] range by blast
  show ?thesis
  proof (cases free)
    case None
    have "s < length (pc_hands c)" using assms s(2) by (simp add: cache_ok_def)
    moreover have "\<exists>c'. pc_clock key s (s * RECENT_POSITIVE_ASSOCIATIVITY) (unat (pc_hands c ! s) mod RECENT_POSITIVE_ASSOCIATIVITY) c = Some c'
        \<and> cache_ok c' \<and> key \<in> cached c' \<and> cached c' \<subseteq> insert key (cached c)"
      by (rule clock_ok [OF assms s(2)]) (use free(2) None in \<open>simp_all add: RECENT_POSITIVE_ASSOCIATIVITY_def pc_ways_def\<close>)
    ultimately show ?thesis using s(1) free(1) None by (simp add: pc_remember_absent_def Let_def)
  next
    case (Some i)
    with free(2) range have "i < 4 * pc_set_count c" by simp
    from place_ok [OF assms this, of key] obtain c' where "pc_place key i c = Some c'" "cache_ok c'" "key \<in> cached c'" "cached c' \<subseteq> insert key (cached c)"
      by blast
    with Some s(1) free(1) show ?thesis by (simp add: pc_remember_absent_def Let_def cache_ok_def cached_def)
  qed
qed

lemma remember_ok:
  assumes "cache_ok c"
  shows "\<exists>c'. pc_remember key c = Some c' \<and> cache_ok c' \<and> cached c' \<subseteq> insert key (cached c)"
proof -
  obtain found c1 where "pc_contains key c = Some (found, c1)" "cache_ok c1" "cached c1 = cached c"
    using pc_contains_ok [OF assms] by blast
  with remember_absent_ok [of c1 key] show ?thesis by (auto simp: pc_remember_def)
qed

lemma pc_new_ok: "cache_ok (pc_new budget)" "cached (pc_new budget) = {}"
  by (simp_all add: pc_new_def cache_ok_def cached_def Let_def RECENT_POSITIVE_ASSOCIATIVITY_def)

end
