(* ===== verification/Spill_Set.thy ===== *)
theory Spill_Set
  imports Spill_Cache
begin

text \<open>
  The external-memory set of \<^verbatim>\<open>crates/idg/src/spill_set.rs\<close>: a bounded set of resident keys that is
  flushed into sorted runs, merged like the carries of a binary counter, with the filter and the cache
  of \<open>Spill_Cache\<close> in front of the runs.

  Shown: every sequence of insertions and queries is answered as a set answers it; the resident part stays below
  its bound and the number of runs is logarithmic in the number of keys; a page of the keys with
  a prefix is exact. The contract of such a set is the locale \<open>exact_set\<close>.
\<close>

section \<open>The set\<close>

record spill_set =
  ss_resident :: "u128 set"
  ss_recent_positives :: "recent_positive_cache option"
  ss_recent_positive_budget :: nat
  ss_resident_by_prefix :: "(u32 \<rightharpoonup> u128 list) option"
  ss_max_resident_entries :: nat
  ss_levels :: "sorted_run option list"
  ss_membership_filter :: "bloom_filter option"
  ss_membership_filter_budget :: nat
  ss_len :: u64

definition ss_new :: "nat \<Rightarrow> nat \<Rightarrow> nat \<Rightarrow> bool \<Rightarrow> spill_set" where
  "ss_new max_resident_entries bloom_bytes recent_positive_bytes track_prefixes =
     \<lparr>ss_resident = {}, ss_recent_positives = None, ss_recent_positive_budget = recent_positive_bytes,
      ss_resident_by_prefix = (if track_prefixes then Some Map.empty else None),
      ss_max_resident_entries = max max_resident_entries 1, ss_levels = [], ss_membership_filter = None,
      ss_membership_filter_budget = bloom_bytes, ss_len = 0\<rparr>"

definition flatten :: "'a option list \<Rightarrow> 'a list" where
  "flatten xs = concat (map (\<lambda>x. case x of Some a \<Rightarrow> [a] | None \<Rightarrow> []) xs)"

definition contains_in_runs :: "u128 \<Rightarrow> spill_set \<Rightarrow> bool option" where
  "contains_in_runs key st =
     (if ss_levels st = [] then Some False
      else do {
        absent \<leftarrow> (case ss_membership_filter st of
                     Some f \<Rightarrow> map_option Not (bf_may_contain f key)
                   | None \<Rightarrow> Some False);
        if absent then Some False else iter_any (\<lambda>run. sr_contains run key) (flatten (ss_levels st))
      })"

definition recent_contains :: "u128 \<Rightarrow> spill_set \<Rightarrow> (bool \<times> spill_set) option" where
  "recent_contains key st =
     (case ss_recent_positives st of
        None \<Rightarrow> Some (False, st)
      | Some c \<Rightarrow> do { (hit, c) \<leftarrow> pc_contains key c; Some (hit, st\<lparr>ss_recent_positives := Some c\<rparr>) })"

text \<open>The levels are a binary counter; a run is merged into every occupied level it meets.\<close>

fun push_run :: "sorted_run \<Rightarrow> sorted_run option list \<Rightarrow> sorted_run option list option" where
  "push_run run [] = Some [Some run]"
| "push_run run (None # levels) = Some (Some run # levels)"
| "push_run run (Some existing # levels) = do {
     merged \<leftarrow> merge_runs existing run;
     levels \<leftarrow> push_run merged levels;
     Some (None # levels)
   }"

definition ss_flush :: "spill_set \<Rightarrow> spill_set option" where
  "ss_flush st = do {
     let keys = sorted_list_of_set (ss_resident st);
     cache \<leftarrow> for_each pc_remember keys
       (case ss_recent_positives st of Some c \<Rightarrow> c | None \<Rightarrow> pc_new (ss_recent_positive_budget st));
     let filter0 = (if ss_membership_filter st = None \<and> 8 \<le> ss_membership_filter_budget st
                    then Some (bf_new (ss_membership_filter_budget st) (of_nat (ss_membership_filter_budget st)))
                    else ss_membership_filter st);
     filter1 \<leftarrow> (case filter0 of Some f \<Rightarrow> map_option Some (for_each bf_insert keys f) | None \<Rightarrow> Some None);
     levels \<leftarrow> push_run (sr_from_sorted keys) (ss_levels st);
     Some (st\<lparr>ss_resident := {}, ss_recent_positives := Some cache, ss_membership_filter := filter1,
              ss_resident_by_prefix := map_option (\<lambda>_. Map.empty) (ss_resident_by_prefix st), ss_levels := levels\<rparr>)
   }"

definition remember_prefix :: "u128 \<Rightarrow> (u32 \<rightharpoonup> u128 list) \<Rightarrow> (u32 \<rightharpoonup> u128 list)" where
  "remember_prefix key by_prefix =
     (let prefix = ucast (drop_bit 96 key) in
      by_prefix(prefix \<mapsto> (case by_prefix prefix of Some ks \<Rightarrow> ks | None \<Rightarrow> []) @ [key]))"

definition ss_insert :: "u128 \<Rightarrow> spill_set \<Rightarrow> (bool \<times> spill_set) option" where
  "ss_insert key st =
     (if key \<in> ss_resident st then Some (False, st)
      else do {
        (hit, st) \<leftarrow> recent_contains key st;
        if hit then Some (False, st)
        else do {
          in_runs \<leftarrow> contains_in_runs key st;
          if in_runs then do {
            c \<leftarrow> ss_recent_positives st;
            c \<leftarrow> pc_remember_absent key c;
            Some (False, st\<lparr>ss_recent_positives := Some c\<rparr>)
          } else do {
            recent \<leftarrow> (case ss_recent_positives st of
                None \<Rightarrow> Some None | Some c \<Rightarrow> map_option Some (pc_remember_absent key c));
            let st = st\<lparr>ss_resident := insert key (ss_resident st), ss_recent_positives := recent,
                        ss_resident_by_prefix := map_option (remember_prefix key) (ss_resident_by_prefix st),
                        ss_len := saturating_add (ss_len st) 1\<rparr>;
            if ss_max_resident_entries st \<le> card (ss_resident st)
            then map_option (\<lambda>st. (True, st)) (ss_flush st)
            else Some (True, st)
          }
        }
      })"

definition ss_contains :: "u128 \<Rightarrow> spill_set \<Rightarrow> (bool \<times> spill_set) option" where
  "ss_contains key st = do {
     (hit, st) \<leftarrow> recent_contains key st;
     if key \<in> ss_resident st \<or> hit then Some (True, st)
     else do {
       in_runs \<leftarrow> contains_in_runs key st;
       if \<not> in_runs then Some (False, st)
       else do {
         c \<leftarrow> ss_recent_positives st;
         c \<leftarrow> pc_remember key c;
         Some (True, st\<lparr>ss_recent_positives := Some c\<rparr>)
       }
     }
   }"

definition ss_resident_len :: "spill_set \<Rightarrow> nat" where
  "ss_resident_len st = card (ss_resident st)"

definition ss_recent_positive_len :: "spill_set \<Rightarrow> nat" where
  "ss_recent_positive_len st = (case ss_recent_positives st of Some c \<Rightarrow> pc_len c | None \<Rightarrow> 0)"

definition ss_run_count :: "spill_set \<Rightarrow> nat" where
  "ss_run_count st = length (flatten (ss_levels st))"

definition ss_disk_bytes :: "spill_set \<Rightarrow> u64" where
  "ss_disk_bytes st = sum_list (map (\<lambda>run. saturating_mul (sr_len run) KEY_BYTES) (flatten (ss_levels st)))"

definition ss_bloom_filter_bytes :: "spill_set \<Rightarrow> nat" where
  "ss_bloom_filter_bytes st = (case ss_membership_filter st of Some f \<Rightarrow> bf_byte_len f | None \<Rightarrow> 0)"

definition keys_with_prefix_batch :: "u32 \<Rightarrow> u128 option \<Rightarrow> nat \<Rightarrow> spill_set \<Rightarrow> u128 list option" where
  "keys_with_prefix_batch prefix after limit0 st =
     (let limit = max limit0 1;
          keys = (case Option.bind (ss_resident_by_prefix st) (\<lambda>by_prefix. by_prefix prefix) of Some ks \<Rightarrow> ks | None \<Rightarrow> []);
          keys = (case after of Some a \<Rightarrow> filter (\<lambda>key. a < key) keys | None \<Rightarrow> keys);
          keys = take limit (sort keys)
      in do {
        keys \<leftarrow> for_each (\<lambda>run keys. append_prefix_batch run prefix after limit keys) (flatten (ss_levels st)) keys;
        Some (take limit (remdups_adj (sort keys)))
      })"

section \<open>The contract of an exact set\<close>

datatype 'k set_op = InsertOp 'k | ContainsOp 'k

fun set_op_apply :: "('k \<Rightarrow> 's \<Rightarrow> (bool \<times> 's) option) \<Rightarrow> ('k \<Rightarrow> 's \<Rightarrow> (bool \<times> 's) option) \<Rightarrow> 'k set_op \<Rightarrow> 's \<Rightarrow> (bool \<times> 's) option" where
  "set_op_apply ins mem (InsertOp k) s = ins k s"
| "set_op_apply ins mem (ContainsOp k) s = mem k s"

fun set_ops_apply :: "('k \<Rightarrow> 's \<Rightarrow> (bool \<times> 's) option) \<Rightarrow> ('k \<Rightarrow> 's \<Rightarrow> (bool \<times> 's) option) \<Rightarrow> 'k set_op list \<Rightarrow> 's \<Rightarrow> (bool list \<times> 's) option" where
  "set_ops_apply ins mem [] s = Some ([], s)"
| "set_ops_apply ins mem (x # xs) s = do {
     (answer, s) \<leftarrow> set_op_apply ins mem x s;
     (answers, s) \<leftarrow> set_ops_apply ins mem xs s;
     Some (answer # answers, s)
   }"

fun op_key :: "'k set_op \<Rightarrow> 'k set" where
  "op_key (InsertOp k) = {k}"
| "op_key (ContainsOp k) = {}"

fun set_answer :: "'k set_op \<Rightarrow> 'k set \<Rightarrow> bool" where
  "set_answer (InsertOp k) S = (k \<notin> S)"
| "set_answer (ContainsOp k) S = (k \<in> S)"

text \<open>The answers of a mathematical set.\<close>

fun set_answers :: "'k set_op list \<Rightarrow> 'k set \<Rightarrow> bool list" where
  "set_answers [] S = []"
| "set_answers (x # xs) S = set_answer x S # set_answers xs (S \<union> op_key x)"

definition inserted :: "'k set_op list \<Rightarrow> 'k set" where
  "inserted xs = (\<Union>x \<in> set xs. op_key x)"

locale exact_set =
  fixes ins :: "'k \<Rightarrow> 's \<Rightarrow> (bool \<times> 's) option"
    and mem :: "'k \<Rightarrow> 's \<Rightarrow> (bool \<times> 's) option"
    and rep :: "'s \<Rightarrow> 'k set \<Rightarrow> bool"
    and fits :: "'k set \<Rightarrow> bool"
  assumes ins_rep: "rep s S \<Longrightarrow> fits (insert k S) \<Longrightarrow> \<exists>s'. ins k s = Some (k \<notin> S, s') \<and> rep s' (insert k S)"
    and mem_rep: "rep s S \<Longrightarrow> \<exists>s'. mem k s = Some (k \<in> S, s') \<and> rep s' S"
    and fits_subset: "fits T \<Longrightarrow> S \<subseteq> T \<Longrightarrow> fits S"
begin

lemma ops_exact:
  "rep s S \<Longrightarrow> fits (S \<union> inserted xs) \<Longrightarrow>
    \<exists>s'. set_ops_apply ins mem xs s = Some (set_answers xs S, s') \<and> rep s' (S \<union> inserted xs)"
proof (induction xs arbitrary: s S)
  case (Cons x xs)
  have step: "\<exists>s'. set_op_apply ins mem x s = Some (set_answer x S, s') \<and> rep s' (S \<union> op_key x)"
  proof (cases x)
    case (InsertOp k)
    have "fits (insert k S)" by (rule fits_subset [OF Cons.prems(2)]) (auto simp: inserted_def InsertOp)
    with ins_rep [OF Cons.prems(1), of k] InsertOp show ?thesis by simp
  qed (use mem_rep [OF Cons.prems(1)] in simp)
  then obtain s1 where s1: "set_op_apply ins mem x s = Some (set_answer x S, s1)" "rep s1 (S \<union> op_key x)" by blast
  have eq: "S \<union> op_key x \<union> inserted xs = S \<union> inserted (x # xs)" by (auto simp: inserted_def)
  from Cons.IH [OF s1(2)] Cons.prems(2) s1(1) show ?case unfolding eq by auto
qed (auto simp: inserted_def)

end

section \<open>The levels\<close>

definition all_keys :: "u128 list option list \<Rightarrow> u128 list" where
  "all_keys kss = concat (flatten kss)"

definition levels_hold :: "sorted_run option list \<Rightarrow> u128 list option list \<Rightarrow> bool" where
  "levels_hold levels kss \<longleftrightarrow> list_all2 (rel_option run_holds) levels kss"

text \<open>Level \<open>i\<close> holds \<open>m * 2 ^ i\<close> keys or none.\<close>

fun sized :: "nat \<Rightarrow> u128 list option list \<Rightarrow> bool" where
  "sized m [] = True"
| "sized m (x # kss) = ((case x of Some ks \<Rightarrow> length ks = m | None \<Rightarrow> True) \<and> sized (2 * m) kss)"

lemma flatten_simps [simp]: "flatten [] = []" "flatten (None # xs) = flatten xs" "flatten (Some x # xs) = x # flatten xs"
  by (simp_all add: flatten_def)

lemma all_keys_simps [simp]: "all_keys [] = []" "all_keys (None # kss) = all_keys kss" "all_keys (Some ks # kss) = ks @ all_keys kss"
  by (simp_all add: all_keys_def)

lemma push_run_spec:
  assumes "levels_hold levels kss" "run_holds run ks" "length ks = m" "sized m kss" "distinct (ks @ all_keys kss)"
    and "length ks + length (all_keys kss) < 2 ^ 58" "kss = [] \<or> last kss \<noteq> None"
  shows "\<exists>levels' kss'. push_run run levels = Some levels' \<and> levels_hold levels' kss' \<and> sized m kss'
    \<and> distinct (all_keys kss') \<and> set (all_keys kss') = set ks \<union> set (all_keys kss) \<and> kss' \<noteq> [] \<and> last kss' \<noteq> None"
  using assms
proof (induction run levels arbitrary: kss ks m rule: push_run.induct)
  case (1 run)
  then have "kss = []" by (simp add: levels_hold_def)
  with 1 show ?case by (intro exI [of _ "[Some run]"] exI [of _ "[Some ks]"]) (simp add: levels_hold_def)
next
  case (2 run levels)
  then obtain kss1 where k: "kss = None # kss1" "levels_hold levels kss1" by (auto simp: levels_hold_def list_all2_Cons1)
  with 2 show ?case by (intro exI [of _ "Some run # levels"] exI [of _ "Some ks # kss1"]) (auto simp: levels_hold_def)
next
  case (3 run existing levels)
  then obtain es kss1 where k: "kss = Some es # kss1" "run_holds existing es" "levels_hold levels kss1"
    by (auto simp: levels_hold_def list_all2_Cons1 option_rel_Some1)
  have len: "length es + length ks < 2 ^ 58" using "3.prems"(6) k(1) by simp
  obtain merged res where m: "merge_runs existing run = Some merged" "run_holds merged res" "set res = set es \<union> set ks"
    using merge_runs_spec [OF k(2) "3.prems"(2) len] by blast
  have res: "length res = 2 * m"
  proof -
    have "card (set es \<union> set ks) = card (set es) + card (set ks)" using "3.prems"(5) k(1) by (intro card_Un_disjoint) auto
    moreover have "card (set es) = m" "card (set ks) = m"
      using "3.prems"(3,4,5) k(1) by (simp_all add: distinct_card)
    ultimately show ?thesis using m(2,3) strict_sorted_length [of res] by (simp add: run_holds_def)
  qed
  have sd: "distinct (res @ all_keys kss1)"
    using m(2,3) "3.prems"(5) k(1) by (auto simp: run_holds_def strict_sorted_iff)
  have tot: "length res + length (all_keys kss1) < 2 ^ 58" using "3.prems"(3,4,6) k(1) res by simp
  have sz: "sized (2 * m) kss1" using "3.prems"(4) k(1) by simp
  have top: "kss1 = [] \<or> last kss1 \<noteq> None" using "3.prems"(7) k(1) by (auto split: if_splits)
  from "3.IH" [OF m(1) k(3) m(2) res sz sd tot top] obtain levels' kss' where l: "push_run merged levels = Some levels'"
    "levels_hold levels' kss'" "sized (2 * m) kss'" "distinct (all_keys kss')"
    "set (all_keys kss') = set res \<union> set (all_keys kss1)" "kss' \<noteq> []" "last kss' \<noteq> None" by blast
  then show ?case using m(1,3) k(1)
    by (intro exI [of _ "None # levels'"] exI [of _ "None # kss'"]) (auto simp: levels_hold_def)
qed

lemma levels_runs: "levels_hold levels kss \<Longrightarrow> list_all2 run_holds (flatten levels) (flatten kss)"
  unfolding levels_hold_def
proof (induction rule: list_all2_induct)
  case (Cons x xs y ys)
  then show ?case by (cases x; cases y) auto
qed simp

lemma runs_contain:
  assumes "levels_hold levels kss"
  shows "iter_any (\<lambda>run. sr_contains run key) (flatten levels) = Some (key \<in> set (all_keys kss))"
  using levels_runs [OF assms] unfolding all_keys_def
  by (induction rule: list_all2_induct) (auto simp: contains_spec)

lemma sized_top: "sized m kss \<Longrightarrow> kss \<noteq> [] \<Longrightarrow> last kss \<noteq> None \<Longrightarrow> m * 2 ^ (length kss - 1) \<le> length (all_keys kss)"
proof (induction kss arbitrary: m)
  case (Cons x kss)
  show ?case
  proof (cases "kss = []")
    case True
    with Cons.prems show ?thesis by (cases x) auto
  next
    case False
    with Cons have "2 * m * 2 ^ (length kss - 1) \<le> length (all_keys kss)" by simp
    moreover have "length (all_keys kss) \<le> length (all_keys (x # kss))" by (cases x) auto
    ultimately show ?thesis using False by (cases "length kss") (auto simp: mult.assoc mult.left_commute)
  qed
qed simp

section \<open>What a set holds\<close>

definition prefix_index_ok :: "(u32 \<rightharpoonup> u128 list) \<Rightarrow> u128 set \<Rightarrow> bool" where
  "prefix_index_ok by_prefix R \<longleftrightarrow> (\<forall>p. let ks = (case by_prefix p of Some ks \<Rightarrow> ks | None \<Rightarrow> []) in
     distinct ks \<and> set ks = {k \<in> R. ucast (drop_bit 96 k) = p})"

definition index_holds :: "(u32 \<rightharpoonup> u128 list) option \<Rightarrow> u128 set \<Rightarrow> bool" where
  "index_holds by_prefix R \<longleftrightarrow> (case by_prefix of Some m \<Rightarrow> prefix_index_ok m R | None \<Rightarrow> True)"

definition cache_holds :: "recent_positive_cache option \<Rightarrow> u128 set \<Rightarrow> bool" where
  "cache_holds recent S \<longleftrightarrow> (case recent of Some c \<Rightarrow> cache_ok c \<and> cached c \<subseteq> S | None \<Rightarrow> True)"

definition filter_holds :: "bloom_filter option \<Rightarrow> u128 set \<Rightarrow> bool" where
  "filter_holds filter0 S \<longleftrightarrow> (case filter0 of Some f \<Rightarrow> bloom_ok f \<and> (\<forall>k \<in> S. covers_key f k) | None \<Rightarrow> True)"

definition runs_hold :: "spill_set \<Rightarrow> u128 list option list \<Rightarrow> bool" where
  "runs_hold st kss \<longleftrightarrow> levels_hold (ss_levels st) kss \<and> sized (ss_max_resident_entries st) kss \<and> distinct (all_keys kss)
     \<and> (kss = [] \<or> last kss \<noteq> None) \<and> filter_holds (ss_membership_filter st) (set (all_keys kss))
     \<and> (kss \<noteq> [] \<longrightarrow> ss_recent_positives st \<noteq> None)
     \<and> (kss \<noteq> [] \<longrightarrow> ss_membership_filter st \<noteq> None \<or> ss_membership_filter_budget st < 8)"

definition holds_in :: "spill_set \<Rightarrow> u128 set \<Rightarrow> u128 list option list \<Rightarrow> bool" where
  "holds_in st S kss \<longleftrightarrow> runs_hold st kss \<and> finite (ss_resident st) \<and> ss_resident st \<inter> set (all_keys kss) = {}
     \<and> S = ss_resident st \<union> set (all_keys kss) \<and> cache_holds (ss_recent_positives st) S
     \<and> index_holds (ss_resident_by_prefix st) (ss_resident st)
     \<and> card S < 2 ^ 58 \<and> ss_len st = of_nat (card S)
     \<and> card (ss_resident st) < ss_max_resident_entries st \<and> ss_membership_filter_budget st < 2 ^ 60"

definition holds :: "spill_set \<Rightarrow> u128 set \<Rightarrow> bool" where
  "holds st S \<longleftrightarrow> (\<exists>kss. holds_in st S kss)"

lemma holds_finite: "holds st S \<Longrightarrow> finite S"
  by (auto simp: holds_def holds_in_def)

lemma contains_in_runs_spec:
  assumes "runs_hold st kss"
  shows "contains_in_runs key st = Some (key \<in> set (all_keys kss))"
proof (cases "ss_levels st = []")
  case True
  with assms show ?thesis by (simp add: contains_in_runs_def runs_hold_def levels_hold_def)
next
  case False
  have l: "levels_hold (ss_levels st) kss" using assms by (simp add: runs_hold_def)
  show ?thesis
  proof (cases "ss_membership_filter st")
    case None
    with False show ?thesis by (simp add: contains_in_runs_def runs_contain [OF l])
  next
    case (Some f)
    with assms have f: "bloom_ok f" "\<forall>k \<in> set (all_keys kss). covers_key f k" by (simp_all add: runs_hold_def filter_holds_def)
    then have "\<not> covers_key f key \<Longrightarrow> key \<notin> set (all_keys kss)" by blast
    with Some False show ?thesis by (simp add: contains_in_runs_def runs_contain [OF l] may_contain_ok [OF f(1)])
  qed
qed

lemma recent_contains_spec:
  assumes "cache_holds (ss_recent_positives st) S"
  shows "\<exists>hit recent. recent_contains key st = Some (hit, st\<lparr>ss_recent_positives := recent\<rparr>)
    \<and> cache_holds recent S \<and> (hit \<longrightarrow> key \<in> S) \<and> (recent = None \<longleftrightarrow> ss_recent_positives st = None)"
proof (cases "ss_recent_positives st")
  case None
  then show ?thesis by (intro exI [of _ False] exI [of _ None]) (simp add: recent_contains_def cache_holds_def)
next
  case (Some c)
  with assms have "cache_ok c" "cached c \<subseteq> S" by (simp_all add: cache_holds_def)
  moreover from pc_contains_ok [OF this(1), of key] obtain found c' where
    "pc_contains key c = Some (found, c')" "cache_ok c'" "cached c' = cached c" "found \<longrightarrow> key \<in> cached c" by blast
  ultimately show ?thesis using Some
    by (intro exI [of _ found] exI [of _ "Some c'"]) (auto simp: recent_contains_def cache_holds_def)
qed

lemma holds_recent:
  assumes "holds_in st S kss" "cache_holds recent S" "recent = None \<longleftrightarrow> ss_recent_positives st = None"
  shows "holds_in (st\<lparr>ss_recent_positives := recent\<rparr>) S kss"
  using assms by (auto simp: holds_in_def runs_hold_def)

lemma remember_all:
  "cache_ok c \<Longrightarrow> cached c \<subseteq> S \<Longrightarrow> set keys \<subseteq> S \<Longrightarrow>
    \<exists>c'. for_each pc_remember keys c = Some c' \<and> cache_ok c' \<and> cached c' \<subseteq> S"
proof (induction keys arbitrary: c)
  case (Cons k keys)
  obtain c1 where c1: "pc_remember k c = Some c1" "cache_ok c1" "cached c1 \<subseteq> insert k (cached c)"
    using remember_ok [OF Cons.prems(1), of k] by blast
  from Cons.IH [OF c1(2)] c1(1,3) Cons.prems(2,3) show ?case by auto
qed simp

lemma filter_all:
  "bloom_ok f \<Longrightarrow> \<forall>k \<in> S. covers_key f k \<Longrightarrow>
    \<exists>f'. for_each bf_insert keys f = Some f' \<and> bloom_ok f' \<and> (\<forall>k \<in> S \<union> set keys. covers_key f' k)"
proof (induction keys arbitrary: f S)
  case (Cons k keys)
  obtain f1 where f1: "bf_insert k f = Some f1" "bloom_ok f1" "covers_key f1 k" "\<forall>x. covers_key f x \<longrightarrow> covers_key f1 x"
    using bf_insert_ok [OF Cons.prems(1), of k] by blast
  with Cons.prems(2) have "\<forall>x \<in> insert k S. covers_key f1 x" by blast
  from Cons.IH [OF f1(2) this] f1(1) show ?case by auto
qed simp

lemma flush_filter:
  assumes "filter_holds filter0 S" "budget < 2 ^ 60"
    and "S \<noteq> {} \<longrightarrow> filter0 \<noteq> None \<or> budget < 8"
  defines "filter1 \<equiv> (if filter0 = None \<and> 8 \<le> budget then Some (bf_new budget (of_nat budget)) else filter0)"
  shows "\<exists>filter2. (case filter1 of Some f \<Rightarrow> map_option Some (for_each bf_insert keys f) | None \<Rightarrow> Some None) = Some filter2
    \<and> filter_holds filter2 (S \<union> set keys)"
proof (cases filter1)
  case (Some f)
  then have "bloom_ok f \<and> (\<forall>k \<in> S. covers_key f k)"
    using assms bf_new_ok [OF assms(2)] by (auto simp: filter1_def filter_holds_def split: if_splits)
  with filter_all [of f S keys] Some show ?thesis by (auto simp: filter_holds_def)
qed (simp add: filter_holds_def)

lemma resident_not_full:
  assumes "holds_in st S kss"
  shows "key \<notin> S \<Longrightarrow> card (insert key S) < 2 ^ 58 \<Longrightarrow> saturating_add (ss_len st) 1 = of_nat (card (insert key S))"
proof -
  assume "key \<notin> S" "card (insert key S) < 2 ^ 58"
  moreover from assms have "finite S" "ss_len st = of_nat (card S)" by (auto simp: holds_in_def)
  ultimately have "unat (saturating_add (ss_len st) 1) = card (insert key S)" by (simp add: unat_saturating_add unat_of_nat_u64)
  then show ?thesis by (metis of_nat_unat ucast_id)
qed

lemma ucast_prefix: "(ucast (drop_bit 96 k) :: u32) = p \<longleftrightarrow> drop_bit 96 (k :: u128) = ucast p"
proof -
  have k: "unat k div 2 ^ 96 < 2 ^ 32" using unsigned_less [of k, where ?'a = nat] by (simp add: div_less_iff_less_mult)
  have "unat (ucast (drop_bit 96 k) :: u32) = unat k div 2 ^ 96"
    using k by (simp add: unsigned_ucast_eq drop_bit_eq_div unat_div take_bit_nat_eq_self)
  moreover have "unat (drop_bit 96 k) = unat k div 2 ^ 96" by (simp add: drop_bit_eq_div unat_div)
  moreover have "unat (ucast p :: u128) = unat p" using unsigned_less [of p, where ?'a = nat]
    by (simp add: unsigned_ucast_eq take_bit_nat_eq_self)
  ultimately show ?thesis by (simp only: word_eq_iff_unsigned [where ?'a = nat])
qed

lemma index_insert:
  assumes "index_holds by_prefix R" "key \<notin> R"
  shows "index_holds (map_option (remember_prefix key) by_prefix) (insert key R)"
proof (cases by_prefix)
  case (Some m)
  have "key \<notin> set (case m p of Some ks \<Rightarrow> ks | None \<Rightarrow> [])" for p
    using assms Some by (auto simp: index_holds_def prefix_index_ok_def Let_def)
  with assms Some show ?thesis
    by (auto simp: index_holds_def prefix_index_ok_def remember_prefix_def Let_def split: if_splits option.splits)
qed (simp add: index_holds_def)

lemma flush_holds:
  assumes runs: "runs_hold st kss" and R: "finite (ss_resident st)" "ss_resident st \<inter> set (all_keys kss) = {}"
    and S: "S = ss_resident st \<union> set (all_keys kss)" and cache: "cache_holds (ss_recent_positives st) S"
    and n: "card S < 2 ^ 58" "ss_len st = of_nat (card S)" "card (ss_resident st) = ss_max_resident_entries st"
    "0 < ss_max_resident_entries st" "ss_membership_filter_budget st < 2 ^ 60"
  shows "\<exists>st' kss'. ss_flush st = Some st' \<and> holds_in st' S kss'"
proof -
  define keys where "keys = sorted_list_of_set (ss_resident st)"
  have keys: "sorted_wrt (<) keys" "set keys = ss_resident st" "length keys = ss_max_resident_entries st"
    using R(1) n(3) by (simp_all add: keys_def)
  have tot: "length keys + length (all_keys kss) = card S"
  proof -
    have "card S = card (ss_resident st) + card (set (all_keys kss))" using R S by (simp add: card_Un_disjoint)
    then show ?thesis using keys(3) n(3) runs by (simp add: runs_hold_def distinct_card)
  qed
  define c0 where "c0 = (case ss_recent_positives st of Some c \<Rightarrow> c | None \<Rightarrow> pc_new (ss_recent_positive_budget st))"
  have "cache_ok c0" "cached c0 \<subseteq> S"
    using cache by (auto simp: c0_def cache_holds_def pc_new_ok split: option.splits)
  from remember_all [OF this, of keys] obtain c where c: "for_each pc_remember keys c0 = Some c" "cache_ok c" "cached c \<subseteq> S"
    using keys(2) S by blast
  have f0: "filter_holds (ss_membership_filter st) (set (all_keys kss))"
    "set (all_keys kss) \<noteq> {} \<longrightarrow> ss_membership_filter st \<noteq> None \<or> ss_membership_filter_budget st < 8"
    using runs by (auto simp: runs_hold_def)
  obtain f where f: "(case (if ss_membership_filter st = None \<and> 8 \<le> ss_membership_filter_budget st
      then Some (bf_new (ss_membership_filter_budget st) (of_nat (ss_membership_filter_budget st))) else ss_membership_filter st)
      of Some f \<Rightarrow> map_option Some (for_each bf_insert keys f) | None \<Rightarrow> Some None) = Some f"
    "filter_holds f (set (all_keys kss) \<union> set keys)"
    using flush_filter [OF f0(1) n(5) f0(2), of keys] by blast
  have some_filter: "f \<noteq> None \<or> ss_membership_filter_budget st < 8" using f(1) by (auto split: option.splits if_splits dest: sym)
  have run: "run_holds (sr_from_sorted keys) keys" using keys tot n(1) by (intro from_sorted_holds) (simp_all add: small_def)
  have "\<exists>levels' kss'. push_run (sr_from_sorted keys) (ss_levels st) = Some levels' \<and> levels_hold levels' kss'
      \<and> sized (ss_max_resident_entries st) kss' \<and> distinct (all_keys kss') \<and> set (all_keys kss') = set keys \<union> set (all_keys kss)
      \<and> kss' \<noteq> [] \<and> last kss' \<noteq> None"
    by (rule push_run_spec [OF _ run keys(3)]) (use runs R(2) keys tot n(1) in \<open>auto simp: runs_hold_def strict_sorted_iff\<close>)
  then obtain levels' kss' where l: "push_run (sr_from_sorted keys) (ss_levels st) = Some levels'" "levels_hold levels' kss'"
    "sized (ss_max_resident_entries st) kss'" "distinct (all_keys kss')" "set (all_keys kss') = set keys \<union> set (all_keys kss)"
    "kss' \<noteq> []" "last kss' \<noteq> None" by blast
  define st' where "st' = st\<lparr>ss_resident := {}, ss_recent_positives := Some c, ss_membership_filter := f,
      ss_resident_by_prefix := map_option (\<lambda>_. Map.empty) (ss_resident_by_prefix st), ss_levels := levels'\<rparr>"
  have "ss_flush st = Some st'" unfolding ss_flush_def Let_def keys_def [symmetric] c0_def [symmetric]
    by (simp add: c(1) f(1) l(1) st'_def)
  moreover have "index_holds (ss_resident_by_prefix st') {}"
    by (simp add: st'_def index_holds_def prefix_index_ok_def Let_def split: option.split)
  then have "holds_in st' S kss'" using l c f(2) some_filter n S keys(2)
    by (simp add: holds_in_def runs_hold_def cache_holds_def st'_def Un_commute)
  ultimately show ?thesis by blast
qed

lemma insert_holds:
  assumes "holds st S" "card (insert key S) < 2 ^ 58"
  shows "\<exists>st'. ss_insert key st = Some (key \<notin> S, st') \<and> holds st' (insert key S)"
proof -
  from assms(1) obtain kss where h: "holds_in st S kss" by (auto simp: holds_def)
  show ?thesis
  proof (cases "key \<in> ss_resident st")
    case True
    then have "key \<in> S" using h by (simp add: holds_in_def)
    with True assms(1) show ?thesis by (simp add: ss_insert_def insert_absorb)
  next
    case False
    have cache: "cache_holds (ss_recent_positives st) S" using h unfolding holds_in_def by blast
    from recent_contains_spec [OF this, of key] obtain hit recent where rc:
      "recent_contains key st = Some (hit, st\<lparr>ss_recent_positives := recent\<rparr>)" "cache_holds recent S" "hit \<longrightarrow> key \<in> S"
      "recent = None \<longleftrightarrow> ss_recent_positives st = None" by (elim exE conjE) (rule that; assumption)
    define st1 where "st1 = st\<lparr>ss_recent_positives := recent\<rparr>"
    have h1: "holds_in st1 S kss" unfolding st1_def by (rule holds_recent [OF h rc(2,4)])
    have ir: "contains_in_runs key st1 = Some (key \<in> set (all_keys kss))"
      using h1 by (intro contains_in_runs_spec) (simp add: holds_in_def)
    have inS: "key \<in> S \<longleftrightarrow> key \<in> set (all_keys kss)" using h False by (simp add: holds_in_def)
    consider (hit) hit | (runs) "\<not> hit" "key \<in> set (all_keys kss)" | (new) "\<not> hit" "key \<notin> set (all_keys kss)" by blast
    then show ?thesis
    proof cases
      case hit
      with rc False h1 show ?thesis by (auto simp: ss_insert_def insert_absorb holds_def st1_def)
    next
      case runs
      then have "kss \<noteq> []" by auto
      with h1 obtain c where c: "recent = Some c" "cache_ok c" "cached c \<subseteq> S"
        by (auto simp: holds_in_def runs_hold_def cache_holds_def st1_def)
      obtain c' where c': "pc_remember_absent key c = Some c'" "cache_ok c'" "cached c' \<subseteq> insert key (cached c)"
        using remember_absent_ok [OF c(2), of key] by blast
      have "key \<in> S" using runs inS by simp
      then have "cache_holds (Some c') S" using c' c(3) by (auto simp: cache_holds_def)
      then have "holds_in (st1\<lparr>ss_recent_positives := Some c'\<rparr>) S kss" by (intro holds_recent [OF h1]) (use c in \<open>auto simp: st1_def\<close>)
      with runs rc(1) ir c(1) c'(1) False \<open>key \<in> S\<close> show ?thesis
        by (auto simp: ss_insert_def insert_absorb holds_def st1_def)
    next
      case new
      have nS: "key \<notin> S" using new inS by simp
      obtain recent' where r': "(case recent of None \<Rightarrow> Some None | Some c \<Rightarrow> map_option Some (pc_remember_absent key c)) = Some recent'"
        "cache_holds recent' (insert key S)" "recent' = None \<longleftrightarrow> recent = None"
      proof (cases recent)
        case (Some c)
        with rc(2) have "cache_ok c" "cached c \<subseteq> S" by (simp_all add: cache_holds_def)
        with remember_absent_ok [of c key] Some that show thesis by (fastforce simp: cache_holds_def)
      qed (use that in \<open>simp add: cache_holds_def\<close>)
      define st2 where "st2 = st1\<lparr>ss_resident := insert key (ss_resident st1), ss_recent_positives := recent',
          ss_resident_by_prefix := map_option (remember_prefix key) (ss_resident_by_prefix st1), ss_len := saturating_add (ss_len st1) 1\<rparr>"
      have st2: "runs_hold st2 kss" "finite (ss_resident st2)" "ss_resident st2 \<inter> set (all_keys kss) = {}"
        "insert key S = ss_resident st2 \<union> set (all_keys kss)" "cache_holds (ss_recent_positives st2) (insert key S)"
        "index_holds (ss_resident_by_prefix st2) (ss_resident st2)" "ss_len st2 = of_nat (card (insert key S))"
        "card (ss_resident st2) = Suc (card (ss_resident st))" "ss_membership_filter_budget st2 < 2 ^ 60"
        "ss_max_resident_entries st2 = ss_max_resident_entries st" "card (ss_resident st) < ss_max_resident_entries st"
        using h1 r'(2,3) new False nS index_insert [of "ss_resident_by_prefix st" "ss_resident st" key]
          resident_not_full [OF h1 nS assms(2)]
        by (auto simp: holds_in_def runs_hold_def st2_def st1_def)
      have eq: "ss_insert key st = (if ss_max_resident_entries st2 \<le> card (ss_resident st2)
          then map_option (\<lambda>st. (True, st)) (ss_flush st2) else Some (True, st2))"
        using False rc(1) new r'(1) ir by (simp add: ss_insert_def st1_def [symmetric]) (simp add: st2_def st1_def Let_def)
      show ?thesis
      proof (cases "ss_max_resident_entries st2 \<le> card (ss_resident st2)")
        case True
        with st2(8,10,11) have "card (ss_resident st2) = ss_max_resident_entries st2" "0 < ss_max_resident_entries st2" by simp_all
        from flush_holds [OF st2(1-5) assms(2) st2(7) this st2(9)] True nS show ?thesis by (auto simp: eq holds_def)
      next
        case False
        with st2 assms(2) have "holds_in st2 (insert key S) kss" by (simp add: holds_in_def)
        with False nS show ?thesis by (auto simp: eq holds_def)
      qed
    qed
  qed
qed

lemma contains_holds:
  assumes "holds st S"
  shows "\<exists>st'. ss_contains key st = Some (key \<in> S, st') \<and> holds st' S"
proof -
  from assms obtain kss where h: "holds_in st S kss" by (auto simp: holds_def)
  have cache: "cache_holds (ss_recent_positives st) S" using h unfolding holds_in_def by blast
  from recent_contains_spec [OF this, of key] obtain hit recent where rc:
    "recent_contains key st = Some (hit, st\<lparr>ss_recent_positives := recent\<rparr>)" "cache_holds recent S" "hit \<longrightarrow> key \<in> S"
    "recent = None \<longleftrightarrow> ss_recent_positives st = None" by (elim exE conjE) (rule that; assumption)
  define st1 where "st1 = st\<lparr>ss_recent_positives := recent\<rparr>"
  have h1: "holds_in st1 S kss" unfolding st1_def by (rule holds_recent [OF h rc(2,4)])
  have ir: "contains_in_runs key st1 = Some (key \<in> set (all_keys kss))"
    using h1 by (intro contains_in_runs_spec) (simp add: holds_in_def)
  have inS: "key \<in> S \<longleftrightarrow> key \<in> ss_resident st1 \<or> key \<in> set (all_keys kss)" using h1 by (simp add: holds_in_def)
  have start: "ss_contains key st = (if key \<in> ss_resident st1 \<or> hit then Some (True, st1)
      else if key \<notin> set (all_keys kss) then Some (False, st1)
      else do { c \<leftarrow> recent; c \<leftarrow> pc_remember key c; Some (True, st1\<lparr>ss_recent_positives := Some c\<rparr>) })"
    using rc(1) ir by (simp add: ss_contains_def st1_def)
  show ?thesis
  proof (cases "key \<in> ss_resident st1 \<or> hit \<or> key \<notin> set (all_keys kss)")
    case True
    with start h1 inS rc(3) show ?thesis by (auto simp: holds_def)
  next
    case False
    then have "kss \<noteq> []" by auto
    with h1 obtain c where c: "recent = Some c" "cache_ok c" "cached c \<subseteq> S"
      by (auto simp: holds_in_def runs_hold_def cache_holds_def st1_def)
    obtain c' where c': "pc_remember key c = Some c'" "cache_ok c'" "cached c' \<subseteq> insert key (cached c)"
      using remember_ok [OF c(2), of key] by blast
    have "cache_holds (Some c') S" using c' c(3) False inS by (auto simp: cache_holds_def)
    then have "holds_in (st1\<lparr>ss_recent_positives := Some c'\<rparr>) S kss" by (intro holds_recent [OF h1]) (use c in \<open>auto simp: st1_def\<close>)
    with False start c(1) c'(1) inS show ?thesis by (auto simp: holds_def)
  qed
qed

lemma new_holds: "bloom_bytes < 2 ^ 60 \<Longrightarrow> holds (ss_new max_resident bloom_bytes recent_bytes track) {}"
  unfolding holds_def
  by (rule exI [of _ "[]"])
    (simp add: holds_in_def runs_hold_def levels_hold_def filter_holds_def cache_holds_def index_holds_def prefix_index_ok_def
      Let_def ss_new_def)

text \<open>The bound and the kind of a set do not change.\<close>

definition same_config :: "spill_set \<Rightarrow> spill_set \<Rightarrow> bool" where
  "same_config st st' \<longleftrightarrow> ss_max_resident_entries st' = ss_max_resident_entries st
     \<and> (ss_resident_by_prefix st' = None \<longleftrightarrow> ss_resident_by_prefix st = None)"

lemma flush_config: "ss_flush st = Some st' \<Longrightarrow> same_config st st'"
  by (auto simp: ss_flush_def Let_def same_config_def Option.bind_eq_Some_conv)

lemma recent_config: "recent_contains key st = Some (hit, st') \<Longrightarrow> same_config st st'"
  by (auto simp: recent_contains_def same_config_def Option.bind_eq_Some_conv split: option.splits)

lemma insert_config: "ss_insert key st = Some (b, st') \<Longrightarrow> same_config st st'"
  by (auto simp: ss_insert_def Let_def Option.bind_eq_Some_conv split: if_splits dest!: flush_config recent_config)
    (auto simp: same_config_def)

lemma contains_config: "ss_contains key st = Some (b, st') \<Longrightarrow> same_config st st'"
  by (auto simp: ss_contains_def Let_def Option.bind_eq_Some_conv split: if_splits dest!: recent_config)
    (auto simp: same_config_def)

definition spill_rep :: "nat \<Rightarrow> bool \<Rightarrow> spill_set \<Rightarrow> u128 set \<Rightarrow> bool" where
  "spill_rep m tracked st S \<longleftrightarrow> holds st S \<and> ss_max_resident_entries st = m \<and> (ss_resident_by_prefix st \<noteq> None \<longleftrightarrow> tracked)"

interpretation spill: exact_set ss_insert ss_contains "spill_rep m tracked" "\<lambda>S. finite S \<longrightarrow> card S < 2 ^ 58"
proof unfold_locales
  fix st S and k :: u128
  assume h: "spill_rep m tracked st S" and fits: "finite (insert k S) \<longrightarrow> card (insert k S) < 2 ^ 58"
  then have "holds st S" by (simp add: spill_rep_def)
  from insert_holds [OF this] fits holds_finite [OF this] h
  show "\<exists>st'. ss_insert k st = Some (k \<notin> S, st') \<and> spill_rep m tracked st' (insert k S)"
    by (fastforce simp: spill_rep_def same_config_def dest: insert_config)
next
  fix st S and k :: u128
  assume h: "spill_rep m tracked st S"
  then have "holds st S" by (simp add: spill_rep_def)
  from contains_holds [OF this] h show "\<exists>st'. ss_contains k st = Some (k \<in> S, st') \<and> spill_rep m tracked st' S"
    by (fastforce simp: spill_rep_def same_config_def dest: contains_config)
next
  fix S T :: "u128 set"
  assume "finite T \<longrightarrow> card T < 2 ^ 58" "S \<subseteq> T"
  then show "finite S \<longrightarrow> card S < 2 ^ 58" using card_mono [of T S] by (auto intro: le_less_trans)
qed

lemma finite_inserted: "finite (inserted xs)"
proof -
  have "finite (op_key x)" for x :: "'a set_op" by (cases x) simp_all
  then show ?thesis by (simp add: inserted_def)
qed

lemma spill_session:
  assumes "bloom_bytes < 2 ^ 60" "card (inserted ops) < 2 ^ 58"
  obtains st where "set_ops_apply ss_insert ss_contains ops (ss_new max_resident bloom_bytes recent_bytes tracked) = Some (set_answers ops {}, st)"
    "spill_rep (max max_resident 1) tracked st (inserted ops)"
proof -
  have "spill_rep (max max_resident 1) tracked (ss_new max_resident bloom_bytes recent_bytes tracked) {}"
    using new_holds [OF assms(1)] by (simp add: spill_rep_def) (simp add: ss_new_def)
  from spill.ops_exact [OF this, of ops] assms(2) that show thesis by auto
qed

section \<open>Pages\<close>

lemma in_take_iff:
  fixes x :: u128
  assumes "sorted_wrt (<) xs"
  shows "x \<in> set (take n xs) \<longleftrightarrow> x \<in> set xs \<and> rank_of x xs < n"
proof -
  have r: "rank_of (xs ! i) xs = i" if "i < length xs" for i
  proof (rule rank_unique)
    show "\<forall>j < i. xs ! j < xs ! i" using that assms by (simp add: sorted_wrt_nth_less)
    have "xs ! i \<le> xs ! j" if "i \<le> j" "j < length xs" for j
      using that assms by (cases "i = j") (auto simp: sorted_wrt_nth_less less_imp_le)
    then show "\<forall>j. i \<le> j \<and> j < length xs \<longrightarrow> xs ! i \<le> xs ! j" by blast
  qed (use that in simp)
  show ?thesis
  proof
    assume "x \<in> set (take n xs)"
    then obtain i where "i < n" "i < length xs" "x = xs ! i" by (auto simp: in_set_conv_nth)
    with r show "x \<in> set xs \<and> rank_of x xs < n" by simp
  next
    assume "x \<in> set xs \<and> rank_of x xs < n"
    then obtain i where "i < length xs" "x = xs ! i" "rank_of x xs < n" by (auto simp: in_set_conv_nth)
    with r show "x \<in> set (take n xs)" by (auto simp: in_set_conv_nth)
  qed
qed

lemma rank_card: "distinct xs \<Longrightarrow> rank_of x xs = card {y \<in> set xs. y < x}"
  unfolding rank_of_def using distinct_card [of "filter (\<lambda>y. y < x) xs"] by simp

lemma sorted_list_filter:
  assumes "finite (U :: u128 set)" "V \<subseteq> U"
  shows "sorted_list_of_set V = filter (\<lambda>x. x \<in> V) (sorted_list_of_set U)"
proof (rule sorted_distinct_set_unique)
  show "set (sorted_list_of_set V) = set (filter (\<lambda>x. x \<in> V) (sorted_list_of_set U))"
    using assms finite_subset [OF assms(2,1)] by auto
qed (simp_all add: sorted_filter [where f = id, simplified])

lemma smallest_between:
  assumes "finite (U :: u128 set)" "V \<subseteq> U" "set (take n (sorted_list_of_set U)) \<subseteq> V"
  shows "take n (sorted_list_of_set V) = take n (sorted_list_of_set U)"
proof -
  let ?us = "sorted_list_of_set U"
  have "sorted_list_of_set V = filter (\<lambda>x. x \<in> V) (take n ?us) @ filter (\<lambda>x. x \<in> V) (drop n ?us)"
    unfolding sorted_list_filter [OF assms(1,2)] by (simp flip: filter_append)
  also have "filter (\<lambda>x. x \<in> V) (take n ?us) = take n ?us" using assms(3) by (auto simp: filter_id_conv)
  finally show ?thesis by (cases "length ?us \<le> n") (simp_all add: not_le)
qed

text \<open>The smallest keys of a union are among the smallest keys of its parts.\<close>

lemma smallest_of_parts:
  assumes "\<forall>xs \<in> set xss. sorted_wrt (<) (xs :: u128 list)"
  shows "take n (sorted_list_of_set (\<Union>xs \<in> set xss. set (take n xs))) = take n (sorted_list_of_set (\<Union>xs \<in> set xss. set xs))"
proof (rule smallest_between)
  let ?U = "\<Union>xs \<in> set xss. set xs"
  show "set (take n (sorted_list_of_set ?U)) \<subseteq> (\<Union>xs \<in> set xss. set (take n xs))"
  proof
    fix x assume "x \<in> set (take n (sorted_list_of_set ?U))"
    then have "x \<in> ?U" "rank_of x (sorted_list_of_set ?U) < n" by (simp_all add: in_take_iff)
    then obtain xs where xs: "xs \<in> set xss" "x \<in> set xs" and r: "card {y \<in> ?U. y < x} < n" by (auto simp: rank_card)
    have "card {y \<in> set xs. y < x} \<le> card {y \<in> ?U. y < x}" using xs(1) by (intro card_mono) auto
    with r assms xs have "rank_of x xs < n" by (simp add: rank_card strict_sorted_iff)
    with xs assms have "x \<in> set (take n xs)" by (simp add: in_take_iff)
    with xs(1) show "x \<in> (\<Union>xs \<in> set xss. set (take n xs))" by blast
  qed
qed (auto dest: in_set_takeD)

lemma dedup_sorted: "remdups_adj (sort xs) = sorted_list_of_set (set (xs :: u128 list))"
proof -
  have "sorted_wrt (<) (remdups_adj (sort xs))" by (rule strict_remdups_adj) simp
  moreover have "set (remdups_adj (sort xs)) = set xs" by simp
  ultimately show ?thesis by (intro sorted_distinct_set_unique) (simp_all add: strict_sorted_iff)
qed

lemma append_all_pages:
  "list_all2 run_holds runs ls \<Longrightarrow>
    for_each (\<lambda>run keys. append_prefix_batch run prefix after limit keys) runs keys
      = Some (keys @ concat (map (\<lambda>ks. take (max 1 limit) (filter (in_page prefix after) ks)) ls))"
  by (induction arbitrary: keys rule: list_all2_induct) (simp_all add: append_prefix_batch_spec)

lemma batch_spec:
  assumes "holds st S" "ss_resident_by_prefix st \<noteq> None"
  shows "keys_with_prefix_batch prefix after limit st = Some (take (max 1 limit) (sorted_list_of_set {k \<in> S. in_page prefix after k}))"
proof -
  from assms(1) obtain kss where h: "holds_in st S kss" by (auto simp: holds_def)
  from assms(2) obtain m where m: "ss_resident_by_prefix st = Some m" by blast
  define L where "L = max 1 limit"
  define r0 where "r0 = (case m prefix of Some ks \<Rightarrow> ks | None \<Rightarrow> [])"
  have r0: "set r0 = {k \<in> ss_resident st. drop_bit 96 k = ucast prefix}" "distinct r0"
    using h m by (auto simp: holds_in_def index_holds_def prefix_index_ok_def Let_def r0_def ucast_prefix)
  define r1 where "r1 = sort (case after of Some a \<Rightarrow> filter (\<lambda>key. a < key) r0 | None \<Rightarrow> r0)"
  have r1: "sorted_wrt (<) r1" "set r1 = {k \<in> ss_resident st. in_page prefix after k}"
    using r0 by (auto simp: r1_def strict_sorted_iff in_page_def split: option.split)
  have runs: "list_all2 run_holds (flatten (ss_levels st)) (flatten kss)"
    using h levels_runs by (simp add: holds_in_def runs_hold_def)
  define pages where "pages = r1 # map (filter (in_page prefix after)) (flatten kss)"
  have strict: "sorted_wrt (<) ks" if "ks \<in> set (flatten kss)" for ks
    using runs that by (auto simp: list_all2_conv_all_nth in_set_conv_nth run_holds_def)
  have sorted_pages: "\<forall>xs \<in> set pages. sorted_wrt (<) xs"
    using r1(1) strict by (auto simp: pages_def sorted_wrt_filter)
  have union: "(\<Union>xs \<in> set pages. set xs) = {k \<in> S. in_page prefix after k}"
    using h r1(2) by (auto simp: pages_def holds_in_def all_keys_def)
  have "keys_with_prefix_batch prefix after limit st
      = Some (take L (remdups_adj (sort (take L r1 @ concat (map (\<lambda>ks. take L (filter (in_page prefix after) ks)) (flatten kss))))))"
    unfolding keys_with_prefix_batch_def Let_def m
    by (simp add: append_all_pages [OF runs] L_def r1_def r0_def max.commute split: option.split)
  also have "\<dots> = Some (take L (sorted_list_of_set (\<Union>xs \<in> set pages. set (take L xs))))"
    by (simp add: dedup_sorted pages_def)
  also have "\<dots> = Some (take L (sorted_list_of_set {k \<in> S. in_page prefix after k}))"
    unfolding smallest_of_parts [OF sorted_pages] union ..
  finally show ?thesis by (simp add: L_def)
qed

section \<open>Properties\<close>

lemma levels_bound:
  assumes "holds st S" "ss_run_count st \<noteq> 0"
  shows "ss_max_resident_entries st * 2 ^ (ss_run_count st - 1) \<le> card S"
proof -
  from assms(1) obtain kss where h: "holds_in st S kss" by (auto simp: holds_def)
  then have l: "levels_hold (ss_levels st) kss" and z: "sized (ss_max_resident_entries st) kss" "kss = [] \<or> last kss \<noteq> None"
    and d: "distinct (all_keys kss)" "set (all_keys kss) \<subseteq> S" "finite S"
    by (auto simp: holds_in_def runs_hold_def)
  have len: "length kss = length (ss_levels st)" using l by (simp add: levels_hold_def list_all2_lengthD)
  have rc: "ss_run_count st \<le> length kss"
  proof -
    have "length (flatten xs) \<le> length xs" for xs :: "sorted_run option list"
      by (induction xs) (simp_all add: flatten_def split: option.split)
    then show ?thesis by (simp add: ss_run_count_def len)
  qed
  with assms(2) have "kss \<noteq> []" by auto
  with z have "ss_max_resident_entries st * 2 ^ (length kss - 1) \<le> length (all_keys kss)" by (intro sized_top) auto
  moreover have "length (all_keys kss) \<le> card S" using card_mono [OF d(3,2)] distinct_card [OF d(1)] by simp
  moreover have "(2 :: nat) ^ (ss_run_count st - 1) \<le> 2 ^ (length kss - 1)" using rc by (intro power_increasing) simp_all
  ultimately show ?thesis by (meson mult_le_mono2 order.trans)
qed

text \<open>
  C17: a set that starts empty answers every sequence of insertions and queries exactly
  as a mathematical set does, whatever its budgets, without a panic, and its length is
  the number of distinct keys inserted, for fewer than \<open>2 ^ 58\<close> keys and a filter of less than
  \<open>2 ^ 60\<close> bytes.
\<close>

theorem spill_set_exact:
  assumes "bloom_bytes < 2 ^ 60" "card (inserted ops) < 2 ^ 58"
  shows "\<exists>st. set_ops_apply ss_insert ss_contains ops (ss_new max_resident bloom_bytes recent_bytes tracked) = Some (set_answers ops {}, st)
    \<and> ss_len st = of_nat (card (inserted ops))"
proof -
  from assms obtain st where "set_ops_apply ss_insert ss_contains ops (ss_new max_resident bloom_bytes recent_bytes tracked) = Some (set_answers ops {}, st)"
    "spill_rep (max max_resident 1) tracked st (inserted ops)" by (rule spill_session)
  then show ?thesis by (auto simp: spill_rep_def holds_def holds_in_def)
qed

definition spill_ops :: "u128 set_op list" where
  "spill_ops = [InsertOp 9, InsertOp 1, ContainsOp 9, InsertOp 7, InsertOp 9, ContainsOp 3, InsertOp 3, ContainsOp 7]"

theorem spill_set_exact_witness:
  "\<exists>st. set_ops_apply ss_insert ss_contains spill_ops (ss_new 2 128 128 False)
    = Some ([True, True, True, True, False, False, True, True], st) \<and> ss_len st = 4"
proof -
  have "inserted spill_ops = {9, 1, 7, 3}" by (auto simp: inserted_def spill_ops_def)
  then have "card (inserted spill_ops) = 4" by simp
  moreover have "set_answers spill_ops {} = [True, True, True, True, False, False, True, True]" by (simp add: spill_ops_def)
  ultimately show ?thesis using spill_set_exact [of 128 spill_ops 2 128 False] by simp
qed

text \<open>
  C19: after any such sequence fewer keys are resident than the bound given for them,
  and the number of runs on disk is at most one more than the binary logarithm of the number of
  keys divided by that bound.
\<close>

theorem spill_set_bounded:
  assumes "bloom_bytes < 2 ^ 60" "card (inserted ops) < 2 ^ 58"
    and "set_ops_apply ss_insert ss_contains ops (ss_new max_resident bloom_bytes recent_bytes tracked) = Some (answers, st)"
  shows "ss_resident_len st < max max_resident 1
    \<and> (ss_run_count st \<noteq> 0 \<longrightarrow> max max_resident 1 * 2 ^ (ss_run_count st - 1) \<le> card (inserted ops))"
proof -
  from assms(1,2) obtain st' where "set_ops_apply ss_insert ss_contains ops (ss_new max_resident bloom_bytes recent_bytes tracked) = Some (set_answers ops {}, st')"
    "spill_rep (max max_resident 1) tracked st' (inserted ops)" by (rule spill_session)
  with assms(3) have r: "holds st (inserted ops)" "ss_max_resident_entries st = max max_resident 1" by (auto simp: spill_rep_def)
  from r(1) have "ss_resident_len st < ss_max_resident_entries st" by (auto simp: holds_def holds_in_def ss_resident_len_def)
  with levels_bound [OF r(1)] r(2) show ?thesis by simp
qed

theorem spill_set_bounded_witness:
  "\<exists>answers st. set_ops_apply ss_insert ss_contains spill_ops (ss_new 2 128 128 False) = Some (answers, st) \<and> ss_resident_len st < 2"
proof -
  have c: "card (inserted spill_ops) < 2 ^ 58"
  proof -
    have "inserted spill_ops = {9, 1, 7, 3}" by (auto simp: inserted_def spill_ops_def)
    then show ?thesis by simp
  qed
  obtain st where st: "set_ops_apply ss_insert ss_contains spill_ops (ss_new 2 128 128 False) = Some (set_answers spill_ops {}, st)"
    by (rule spill_session [of 128 spill_ops 2 128 False]) (use c in simp_all)
  from spill_set_bounded [OF _ c st] st show ?thesis by auto
qed

text \<open>
  C18: in a set that tracks prefixes, a page is exactly the smallest keys with the
  prefix that are above the key the page starts after, as many as the limit allows, so that following
  pages enumerate the keys with a prefix without gaps or repetitions.
\<close>

theorem spill_page_exact:
  assumes "bloom_bytes < 2 ^ 60" "card (inserted ops) < 2 ^ 58"
    and "set_ops_apply ss_insert ss_contains ops (ss_new max_resident bloom_bytes recent_bytes True) = Some (answers, st)"
  shows "keys_with_prefix_batch prefix after limit st
    = Some (take (max 1 limit) (sorted_list_of_set
        {k \<in> inserted ops. drop_bit 96 k = ucast prefix \<and> (case after of Some a \<Rightarrow> a < k | None \<Rightarrow> True)}))"
proof -
  from assms(1,2) obtain st' where "set_ops_apply ss_insert ss_contains ops (ss_new max_resident bloom_bytes recent_bytes True) = Some (set_answers ops {}, st')"
    "spill_rep (max max_resident 1) True st' (inserted ops)" by (rule spill_session)
  with assms(3) have r: "holds st (inserted ops)" "ss_resident_by_prefix st \<noteq> None" by (auto simp: spill_rep_def)
  show ?thesis using batch_spec [OF r, of prefix after limit] by (simp add: in_page_def)
qed

theorem spill_page_exact_witness:
  "\<exists>answers st. set_ops_apply ss_insert ss_contains spill_ops (ss_new 2 128 128 True) = Some (answers, st)
    \<and> keys_with_prefix_batch 0 (Some 1) 2 st = Some [3, 7]"
proof -
  have i: "inserted spill_ops = {9, 1, 7, 3}" by (auto simp: inserted_def spill_ops_def)
  then have c: "card (inserted spill_ops) < 2 ^ 58" by simp
  obtain st where st: "set_ops_apply ss_insert ss_contains spill_ops (ss_new 2 128 128 True) = Some (set_answers spill_ops {}, st)"
    by (rule spill_session [of 128 spill_ops 2 128 True]) (use c in simp_all)
  have "{k \<in> inserted spill_ops. drop_bit 96 k = ucast (0 :: u32) \<and> (1 :: u128) < k} = set [3, 7, 9]" by (auto simp: i)
  then have "sorted_list_of_set {k \<in> inserted spill_ops. drop_bit 96 k = ucast (0 :: u32) \<and> (1 :: u128) < k} = [3, 7, 9]"
    by (simp only: sorted_list_of_set_sort_remdups) simp
  with spill_page_exact [OF _ c st, of 0 "Some 1" 2] st show ?thesis by auto
qed

end
