(* ===== verification/Spill_Stack.thy ===== *)
theory Spill_Stack
  imports Spill_Run
begin

text \<open>
  The work frontier of the fixed points, \<^verbatim>\<open>SpillStack\<close> of \<^verbatim>\<open>crates/idg/src/spill_set.rs\<close>: a stack whose top is
  resident and whose rest is in chunks of a temporary file. Shown: it is a last-in first-out stack,
  and its resident part stays below its bound.
\<close>

section \<open>The stack\<close>

record spill_stack_chunk =
  ck_offset :: u64
  ck_len :: u64

record spill_stack =
  sk_resident :: "u128 list"
  sk_max_resident_entries :: nat
  sk_file :: "bytes option"
  sk_chunks :: "spill_stack_chunk list"
  sk_len :: u64

definition sk_new :: "nat \<Rightarrow> spill_stack" where
  "sk_new max_resident_entries =
     \<lparr>sk_resident = [], sk_max_resident_entries = max max_resident_entries 1, sk_file = None, sk_chunks = [], sk_len = 0\<rparr>"

definition sk_flush :: "spill_stack \<Rightarrow> spill_stack" where
  "sk_flush st =
     (let contents = (case sk_file st of Some bs \<Rightarrow> bs | None \<Rightarrow> []) in
      st\<lparr>sk_file := Some (contents @ concat (map u128_to_le (sk_resident st))),
         sk_chunks := sk_chunks st @ [\<lparr>ck_offset = of_nat (length contents), ck_len = of_nat (length (sk_resident st))\<rparr>],
         sk_resident := []\<rparr>)"

definition sk_push :: "u128 \<Rightarrow> spill_stack \<Rightarrow> spill_stack" where
  "sk_push key st =
     (let st = st\<lparr>sk_resident := sk_resident st @ [key], sk_len := saturating_add (sk_len st) 1\<rparr> in
      if sk_max_resident_entries st \<le> length (sk_resident st) then sk_flush st else st)"

fun read_keys :: "nat \<Rightarrow> bytes \<Rightarrow> u128 list option" where
  "read_keys 0 reader = Some []"
| "read_keys (Suc n) reader = do { (key, reader) \<leftarrow> read_key reader; keys \<leftarrow> read_keys n reader; Some (key # keys) }"

definition sk_reload :: "spill_stack \<Rightarrow> spill_stack option" where
  "sk_reload st =
     (if sk_chunks st = [] then Some st
      else let chunk = last (sk_chunks st) in do {
        contents \<leftarrow> sk_file st;
        keys \<leftarrow> read_keys (unat (ck_len chunk)) (drop (unat (ck_offset chunk)) contents);
        Some (st\<lparr>sk_chunks := butlast (sk_chunks st), sk_resident := keys, sk_file := Some (take (unat (ck_offset chunk)) contents)\<rparr>)
      })"

definition sk_pop :: "spill_stack \<Rightarrow> (u128 option \<times> spill_stack) option" where
  "sk_pop st = do {
     st \<leftarrow> (if sk_resident st = [] then sk_reload st else Some st);
     Some (if sk_resident st = [] then (None, st)
           else (Some (last (sk_resident st)),
                 st\<lparr>sk_resident := butlast (sk_resident st), sk_len := saturating_sub (sk_len st) 1\<rparr>))
   }"

definition sk_is_empty :: "spill_stack \<Rightarrow> bool" where
  "sk_is_empty st \<longleftrightarrow> sk_len st = 0"

section \<open>What it holds\<close>

fun chunk_table :: "nat \<Rightarrow> u128 list list \<Rightarrow> spill_stack_chunk list" where
  "chunk_table n [] = []"
| "chunk_table n (c # cs) = \<lparr>ck_offset = of_nat (16 * n), ck_len = of_nat (length c)\<rparr> # chunk_table (n + length c) cs"

lemma chunk_table_snoc:
  "chunk_table n (cs @ [c]) = chunk_table n cs @ [\<lparr>ck_offset = of_nat (16 * (n + length (concat cs))), ck_len = of_nat (length c)\<rparr>]"
  by (induction cs arbitrary: n) (simp_all add: add.assoc)

lemma chunk_table_Nil [simp]: "chunk_table n cs = [] \<longleftrightarrow> cs = []"
  by (cases cs) simp_all

definition stack_in :: "spill_stack \<Rightarrow> u128 list \<Rightarrow> u128 list list \<Rightarrow> bool" where
  "stack_in st xs cs \<longleftrightarrow> xs = concat cs @ sk_resident st \<and> sk_chunks st = chunk_table 0 cs
     \<and> (case sk_file st of Some bs \<Rightarrow> bs = key_file (concat cs) | None \<Rightarrow> cs = [])
     \<and> (\<forall>c \<in> set cs. c \<noteq> [] \<and> length c \<le> sk_max_resident_entries st)
     \<and> length xs < 2 ^ 58 \<and> sk_len st = of_nat (length xs) \<and> length (sk_resident st) < sk_max_resident_entries st"

definition stack_holds :: "spill_stack \<Rightarrow> u128 list \<Rightarrow> bool" where
  "stack_holds st xs \<longleftrightarrow> (\<exists>cs. stack_in st xs cs)"

lemma new_stack: "stack_holds (sk_new m) []"
  unfolding stack_holds_def by (rule exI [of _ "[]"]) (simp add: stack_in_def sk_new_def)

lemma push_stack:
  assumes "stack_holds st xs" "length xs + 1 < 2 ^ 58"
  shows "stack_holds (sk_push key st) (xs @ [key])"
proof -
  from assms(1) obtain cs where h: "stack_in st xs cs" by (auto simp: stack_holds_def)
  have len: "saturating_add (sk_len st) 1 = of_nat (length (xs @ [key]))"
  proof -
    have "sk_len st = of_nat (length xs)" using h by (auto simp: stack_in_def)
    with assms(2) have "unat (saturating_add (sk_len st) 1) = length (xs @ [key])"
      by (simp add: unat_saturating_add unat_of_nat_u64)
    then show ?thesis by (metis of_nat_unat ucast_id)
  qed
  define st1 where "st1 = st\<lparr>sk_resident := sk_resident st @ [key], sk_len := saturating_add (sk_len st) 1\<rparr>"
  have push: "sk_push key st = (if sk_max_resident_entries st1 \<le> length (sk_resident st1) then sk_flush st1 else st1)"
    by (simp add: sk_push_def st1_def Let_def)
  show ?thesis
  proof (cases "sk_max_resident_entries st1 \<le> length (sk_resident st1)")
    case True
    have contents: "(case sk_file st of Some bs \<Rightarrow> bs | None \<Rightarrow> []) = key_file (concat cs)"
      using h by (auto simp: stack_in_def split: option.splits)
    have flushed: "sk_flush st1 = st1\<lparr>sk_file := Some (key_file (concat cs @ sk_resident st1)),
        sk_chunks := chunk_table 0 (cs @ [sk_resident st1]), sk_resident := []\<rparr>"
      using h by (simp add: sk_flush_def contents key_file_def st1_def stack_in_def chunk_table_snoc Let_def flip: key_file_def)
    have "stack_in (sk_flush st1) (xs @ [key]) (cs @ [sk_resident st1])"
      unfolding flushed using h True len assms(2) by (simp add: stack_in_def st1_def)
    with True push show ?thesis by (auto simp: stack_holds_def)
  next
    case False
    then have "stack_in st1 (xs @ [key]) cs" using h len assms(2) by (auto simp: stack_in_def st1_def)
    with False push show ?thesis by (auto simp: stack_holds_def)
  qed
qed

lemma read_keys_file: "read_keys (length ks) (key_file ks @ rest) = Some ks"
  by (induction ks) (simp_all add: read_key_def)

lemma reload_stack:
  assumes "stack_in st xs (cs @ [c])" "sk_resident st = []"
  shows "\<exists>st'. sk_reload st = Some st' \<and> sk_resident st' = c \<and> sk_chunks st' = chunk_table 0 cs
    \<and> sk_file st' = Some (key_file (concat cs)) \<and> sk_len st' = sk_len st \<and> sk_max_resident_entries st' = sk_max_resident_entries st"
proof -
  have "length xs < 2 ^ 58" "xs = concat cs @ c" using assms by (auto simp: stack_in_def)
  then have n: "length (concat cs) + length c < 2 ^ 58" by (simp only: length_append)
  have f: "sk_file st = Some (key_file (concat cs) @ key_file c)" using assms(1) by (auto simp: stack_in_def split: option.splits)
  have ch: "sk_chunks st = chunk_table 0 cs @ [\<lparr>ck_offset = of_nat (16 * length (concat cs)), ck_len = of_nat (length c)\<rparr>]"
    using assms(1) by (simp add: stack_in_def chunk_table_snoc)
  have bound: "16 * i < 2 ^ 64 \<and> j < 2 ^ 64" if "i + j < 2 ^ 58" for i j :: nat using that by simp
  have u: "unat (of_nat (16 * length (concat cs)) :: u64) = 16 * length (concat cs)"
    by (rule unat_of_nat_u64) (use bound [OF n] in blast)
  have v: "unat (of_nat (length c) :: u64) = length c"
    by (rule unat_of_nat_u64) (use bound [OF n] in blast)
  show ?thesis
    using read_keys_file [of c "[]"] unfolding sk_reload_def Let_def ch f
    by (simp add: u v del: of_nat_mult length_concat)
qed

lemma pop_stack:
  assumes "stack_holds st xs"
  shows "\<exists>st'. sk_pop st = Some (if xs = [] then None else Some (last xs), st') \<and> stack_holds st' (butlast xs)"
proof -
  from assms obtain cs where h: "stack_in st xs cs" by (auto simp: stack_holds_def)
  have len: "saturating_sub (sk_len st) 1 = of_nat (length (butlast xs))" if "xs \<noteq> []"
  proof -
    have "sk_len st = of_nat (length xs)" "length xs < 2 ^ 58" using h by (auto simp: stack_in_def)
    then have "unat (saturating_sub (sk_len st) 1) = length (butlast xs)"
      by (simp add: unat_saturating_sub unat_of_nat_u64)
    then show ?thesis by (metis of_nat_unat ucast_id)
  qed
  consider (resident) "sk_resident st \<noteq> []" | (empty) "sk_resident st = []" "cs = []"
    | (chunk) cs' c where "sk_resident st = []" "cs = cs' @ [c]" by (metis rev_exhaust)
  then show ?thesis
  proof cases
    case resident
    define st' where "st' = st\<lparr>sk_resident := butlast (sk_resident st), sk_len := saturating_sub (sk_len st) 1\<rparr>"
    have ne: "xs \<noteq> []" using h resident by (auto simp: stack_in_def)
    have "stack_in st' (butlast xs) cs" using h resident len [OF ne] by (auto simp: stack_in_def st'_def butlast_append)
    moreover have "sk_pop st = Some (Some (last xs), st')" using h resident by (simp add: sk_pop_def st'_def stack_in_def)
    ultimately show ?thesis using ne by (auto simp: stack_holds_def)
  next
    case empty
    with h have "xs = []" by (simp add: stack_in_def)
    with h empty assms show ?thesis by (simp add: sk_pop_def sk_reload_def stack_in_def)
  next
    case (chunk cs' c)
    with reload_stack [of st xs cs' c] h obtain st1 where st1: "sk_reload st = Some st1" "sk_resident st1 = c" "sk_chunks st1 = chunk_table 0 cs'"
      "sk_file st1 = Some (key_file (concat cs'))" "sk_len st1 = sk_len st" "sk_max_resident_entries st1 = sk_max_resident_entries st" by blast
    have c: "c \<noteq> []" "length c \<le> sk_max_resident_entries st" "xs = concat cs' @ c" using h chunk by (auto simp: stack_in_def)
    define st' where "st' = st1\<lparr>sk_resident := butlast (sk_resident st1), sk_len := saturating_sub (sk_len st1) 1\<rparr>"
    have ne: "xs \<noteq> []" using c by simp
    have "length (butlast c) < sk_max_resident_entries st" using c(1,2) by (cases c) auto
    then have "stack_in st' (butlast xs) cs'"
      using h chunk st1 c len [OF ne] by (auto simp: stack_in_def st'_def butlast_append)
    moreover have "sk_pop st = Some (Some (last xs), st')" using chunk(1) st1(1,2) c by (simp add: sk_pop_def st'_def)
    ultimately show ?thesis using ne by (auto simp: stack_holds_def)
  qed
qed

section \<open>Properties\<close>

datatype stack_op = PushOp u128 | PopOp

fun stack_ops_apply :: "stack_op list \<Rightarrow> spill_stack \<Rightarrow> (u128 option list \<times> spill_stack) option" where
  "stack_ops_apply [] st = Some ([], st)"
| "stack_ops_apply (PushOp key # xs) st = stack_ops_apply xs (sk_push key st)"
| "stack_ops_apply (PopOp # xs) st = do {
     (popped, st) \<leftarrow> sk_pop st;
     (answers, st) \<leftarrow> stack_ops_apply xs st;
     Some (popped # answers, st)
   }"

text \<open>The same on a list, the top at its head.\<close>

fun stack_answers :: "stack_op list \<Rightarrow> u128 list \<Rightarrow> u128 option list \<times> u128 list" where
  "stack_answers [] s = ([], s)"
| "stack_answers (PushOp key # xs) s = stack_answers xs (key # s)"
| "stack_answers (PopOp # xs) s =
     (let (answers, s') = stack_answers xs (tl s) in ((case s of [] \<Rightarrow> None | k # _ \<Rightarrow> Some k) # answers, s'))"

lemma stack_ops_exact:
  "stack_holds st (rev s) \<Longrightarrow> length s + length ops < 2 ^ 58 \<Longrightarrow>
    \<exists>st'. stack_ops_apply ops st = Some (fst (stack_answers ops s), st') \<and> stack_holds st' (rev (snd (stack_answers ops s)))"
proof (induction ops s arbitrary: st rule: stack_answers.induct)
  case (2 key xs s)
  have "stack_holds (sk_push key st) (rev (key # s))" using push_stack [OF "2.prems"(1)] "2.prems"(2) by simp
  from "2.IH" [OF this] "2.prems"(2) show ?case by simp
next
  case (3 xs s)
  obtain st1 where st1: "sk_pop st = Some (if rev s = [] then None else Some (last (rev s)), st1)" "stack_holds st1 (butlast (rev s))"
    using pop_stack [OF "3.prems"(1)] by blast
  have "butlast (rev s) = rev (tl s)" by (cases s) simp_all
  with st1(2) have "stack_holds st1 (rev (tl s))" by simp
  moreover have "length (tl s) + length xs < 2 ^ 58" using "3.prems"(2) by simp
  ultimately obtain st2 where "stack_ops_apply xs st1 = Some (fst (stack_answers xs (tl s)), st2)"
    "stack_holds st2 (rev (snd (stack_answers xs (tl s))))" using "3.IH" by blast
  with st1(1) show ?case by (cases s) (auto split: prod.split)
qed simp

text \<open>
  C20: a frontier that starts empty answers every sequence of fewer than \<open>2 ^ 58\<close> pushes and
  pops as a last-in first-out stack, also when its chunks are written out and read back, without a
  panic; its length is that of the stack and fewer entries are resident than its bound.
\<close>

theorem spill_stack_lifo:
  assumes "length ops < 2 ^ 58"
  shows "\<exists>st. stack_ops_apply ops (sk_new max_resident) = Some (fst (stack_answers ops []), st)
    \<and> sk_len st = of_nat (length (snd (stack_answers ops []))) \<and> length (sk_resident st) < sk_max_resident_entries st"
proof -
  have "stack_holds (sk_new max_resident) (rev [])" by (simp add: new_stack)
  from stack_ops_exact [OF this, of ops] assms show ?thesis by (auto simp: stack_holds_def stack_in_def)
qed

theorem spill_stack_lifo_witness:
  "\<exists>st. stack_ops_apply [PushOp 1, PushOp 2, PushOp 3, PopOp, PopOp, PushOp 4, PopOp, PopOp, PopOp] (sk_new 2)
    = Some ([Some 3, Some 2, Some 4, Some 1, None], st) \<and> sk_len st = 0"
  using spill_stack_lifo [of "[PushOp 1, PushOp 2, PushOp 3, PopOp, PopOp, PushOp 4, PopOp, PopOp, PopOp]" 2]
  by (auto simp del: stack_ops_apply.simps)

end
