(* ===== verification/Spec2Isabelle.thy ===== *)
theory Spec2Isabelle
  imports Path_Search Byte_Budget Fact_Cache Symbolic_Fields Trace_Coverage Taint_Solution Flow_Operations Spill_Set Spill_Stack
begin

text \<open>
  \<^bold>\<open>A verification library for the analysis core of bonsai-ninja\<close>

  Language adapters extract facts from syntax trees: among them one tree of control-flow events per
  function. The program derives flat lists of operations from the trees, lowers them to control-flow
  graphs, interprets these abstractly to traces, follows taint through the assignments of a function,
  builds an interprocedural dependence graph (IDG) of the workspace, stores it on disk, and answers
  reachability and path queries over it. This library models the event trees, their operations and
  their lowering, the control-flow graphs, the abstract interpreter, the two taint passes inside a
  function, the parts that hold and query the dependence graph, and the storage below it. All paths are
  under \<^verbatim>\<open>src/crates\<close>.

  \<^bold>\<open>Parts and theories\<close>

  \<^item> \<open>Rust_Prelude\<close>: words, indexing and slicing that panic, loops over iterators, checked and
    saturating arithmetic, binary search. \<open>Interfaces\<close> and \<open>Interner\<close>: the contracts between the
    components, as locales; every provider theory interprets them on its definitions.
  \<^item> \<open>Span_Ids\<close>: \<^verbatim>\<open>common/src/ids.rs\<close>, \<^verbatim>\<open>common/src/span.rs\<close>. \<open>Idg_Graph\<close>: \<^verbatim>\<open>idg/src/edge.rs\<close>, \<^verbatim>\<open>place.rs\<close>,
    \<^verbatim>\<open>node.rs\<close>.
  \<^item> \<open>Node_Bitset\<close>: \<^verbatim>\<open>idg/src/bitset.rs\<close>. \<open>Edge_Csr\<close>: \<^verbatim>\<open>idg/src/csr.rs\<close>. \<open>Reachability\<close> and \<open>Path_Search\<close>:
    \<^verbatim>\<open>idg/src/query.rs\<close> and the truncation report of \<^verbatim>\<open>callgraph/src/chains.rs\<close>.
  \<^item> \<open>Fact_Format\<close>, \<open>String_Pool\<close>, \<open>Fact_Writer\<close>, \<open>Fact_Reader\<close>, \<open>Fact_Store\<close>, \<open>Byte_Budget\<close>, \<open>Fact_Cache\<close>:
    \<^verbatim>\<open>factstore/src\<close>, one theory per file and \<open>Fact_Store\<close> for their composition.
  \<^item> \<open>Flow_Events\<close>: the event trees of \<^verbatim>\<open>lang_api/src/types.rs\<close> and the helpers of
    \<^verbatim>\<open>lang_api/src/kit/flow_render.rs\<close>. \<open>Flow_Lowering\<close>: the lowering and pruning at the front of
    \<^verbatim>\<open>cfg/src/builder.rs\<close>, with the structured executions of a tree as their specification.
    \<open>Cfg_Builder\<close>: the rest of \<^verbatim>\<open>cfg/src/builder.rs\<close> and \<^verbatim>\<open>cfg/src/lib.rs\<close>; \<open>Cfg_Frame\<close> (what a walk leaves
    alone), \<open>Cfg_Paths\<close> (its paths simulate executions) and \<open>Cfg_Graph\<close> (the compacted graph) prove it.
    The walks over a tree are one induction, the locale \<open>walk_property\<close>, interpreted once per property.
  \<^item> \<open>Abs_Value\<close>, \<open>Abs_Interp\<close>, \<open>Abs_Trace\<close>: \<^verbatim>\<open>abstract_interp/src/value.rs\<close>, \<^verbatim>\<open>state.rs\<close> and \<^verbatim>\<open>lib.rs\<close>.
    \<open>Trace_Coverage\<close>: the interpreter on the graphs of the builder.
  \<^item> \<open>Flow_Operations\<close>: the operations of \<^verbatim>\<open>lang_api/src/types.rs\<close>. \<open>Qualified_Names\<close>: the functions on
    qualified names of \<^verbatim>\<open>common/src/names.rs\<close>.
  \<^item> \<open>Taint_Text\<close>: \<^verbatim>\<open>taint/src/text.rs\<close> and \<^verbatim>\<open>tokens.rs\<close>. \<open>Taint_Assign\<close>: \<^verbatim>\<open>taint/src/assignment.rs\<close>.
    \<open>Taint_Intra\<close>: \<^verbatim>\<open>taint/src/intra.rs\<close> and the diagnostics it reports (\<^verbatim>\<open>diagnostics/src/lib.rs\<close>), with the laws of
    the transfer of a block; \<open>Taint_Solution\<close>: what its worklist computes.
  \<^item> \<open>Idg_Segment\<close>: \<^verbatim>\<open>idg/src/dict.rs\<close> and \<^verbatim>\<open>segment.rs\<close>, on top of the fact store. \<open>Symbolic_Fields\<close>:
    \<^verbatim>\<open>idg/src/symbolic.rs\<close>.
  \<^item> \<open>Spill_Run\<close> (sorted runs on disk), \<open>Spill_Cache\<close> (the membership filter and the cache of found keys),
    \<open>Spill_Set\<close> and \<open>Spill_Stack\<close>: the external-memory set and work frontier of \<^verbatim>\<open>idg/src/spill_set.rs\<close>, with the
    positioned reads of \<^verbatim>\<open>idg/src/positioned_io.rs\<close>. A temporary file is its bytes.

  \<^bold>\<open>How the code is translated\<close>

  A struct is a record, an enum a datatype, \<^verbatim>\<open>u8\<close>, \<^verbatim>\<open>u32\<close> and \<^verbatim>\<open>u64\<close> are words, \<^verbatim>\<open>usize\<close> is \<open>nat\<close> (with the
  wrap written out where it can happen). A method that changes its receiver returns the new
  receiver. A panic is \<open>None\<close>, a \<^verbatim>\<open>Result\<close> is a sum with the error on the left. Loops are
  recursive functions; the worklist loops of the queries are partial functions into \<open>option\<close>, so
  that not ending is \<open>None\<close> too, and every theorem about them shows the result is \<open>Some\<close>. No fuel is used.
  The byte budget is a step relation: what is done under its mutex is one step, a wait on its condition
  variable joins the list of sleepers, and \<^verbatim>\<open>notify_all\<close> wakes them all.

  \<^bold>\<open>What is shown\<close>

  \<^item> Storage: a session of the writer followed by an open returns every payload and string; duplicate keys are
    refused; opening a file of any content never panics and an opened store answers every lookup from inside
    its payload section; iteration is in key order; ranges are read exactly; the cache is transparent;
    the byte budget is never exceeded, no producer sleeps on it while its payload fits, and none waits for ever;
    reading a segment file never panics and returns no segment of another version.
  \<^item> Interning: equal ids for equal keys only, ids that never change, and lookups that do not depend on whether the
    reverse maps are resident, for string pools, dictionaries and symbolic tables.
  \<^item> Graph: the four adjacency builders agree and hold exactly the edges in range; a validated
    adjacency never panics; the closures, the cut, and the bounded neighbourhoods compute
    reachability; the path search is sound, bounded, and complete when it reports no truncation.
  \<^item> Control flow: the lowering of deferred scopes and the pruning keep the executions of a tree; the
    builder returns a well-formed graph that holds exactly the events of the tree and has a path for
    every execution, cleanup on early exits included.
  \<^item> Abstract interpretation: joins and facets of values are sound, the state after the events of a
    block stands for every store they can produce, a run returns on every graph within its budget, and
    a trace that is not truncated has a step for every event control can reach.
  \<^item> Names: the segments, the canonical form and the owner of identifiers, of one or more bytes per character,
    joined by dots; the two ways of finding a
    declaration in a qualified name agree for names without punctuation.
  \<^item> Operations: the reads in the list are exactly the names the events read (a yielded single place under its
    source text), operands are not repeated, and the lowering permutes the list.
  \<^item> Taint: the assign-chain pass returns on every tree and covers the copies along every execution
    of the lowered tree. The worklist pass returns the least solution of its data-flow equations on well-formed
    graphs with plain assignments, and covers the taint of every execution at every event it reaches.
    Sources are canonical places (ASCII identifiers joined by dots, possibly with a wildcard).
    Plain assignments (\<open>plain_assign\<close>) have dotted targets, and a call without operands has no
    source name; without this the transfer is not monotone and the worklist need not end.
  \<^item> External memory: through flushes, merges, the filter and the cache the set answers as the set of the keys
    inserted, with a number of runs logarithmic in them and pages that are the next keys of
    a prefix in order; the frontier is a last-in first-out stack.
  \<^item> Codecs: header, index entry, edge tags, segment files.

  \<^bold>\<open>Bounds\<close>

  Files are shorter than \<open>2 ^ 63\<close> bytes and edge lists shorter than \<open>2 ^ 32\<close>, which is what the 64-bit offsets and
  the 32-bit adjacency positions of the code can address. A control-flow graph has at most \<open>2 ^ 32\<close> blocks,
  the block ids there are. A spilling set or stack holds fewer than \<open>2 ^ 58\<close> keys, whose bytes a file offset
  can address, and its filter has fewer than \<open>2 ^ 60\<close> bytes, whose bits a 64-bit word can count.

  \<^bold>\<open>Parameters\<close>

  The LRU map, the hash table and hash function, and the MessagePack codec are third-party code: they are arguments of
  the definitions that use them, with their documented behaviour as named contracts
  (\<open>lru_contract\<close>, \<open>hash_table_contract\<close>, \<open>wire_contract\<close>); the debug rendering of an event is an argument of
  the interpreter, and \<open>uni\<close>, the table of the alphanumeric characters beyond ASCII, of the functions on
  names; no property depends on either. Each property that assumes one has a witness on a
  concrete instance.

  \<^bold>\<open>Not modelled\<close>

  The language adapters (walks over tree-sitter trees), the parser and file system layers, the
  command line and browser, the rule engine, the taint analysis across functions
  (\<^verbatim>\<open>taint/src/reachable.rs\<close>), the build orchestration of the workspace, the failures of the operating
  system itself, and the interleaving of readers that share the cache of a spilling set.
\<close>

end
